(* ===== verification/Prelude.thy ===== *)
theory Prelude
  imports Main "HOL-Library.Word" "HOL-Library.Multiset" "HOL-Library.Monad_Syntax"
    "HOL-Library.Signed_Division"
begin

text \<open>
  Shared vocabulary of the development: machine integers, the outcome of a kernel
  operation (a returned value, a switch to the scheduler with the rest of the operation, a panic, an access outside an
  object, a spin on a lock another CPU holds), the combinators that sequence such
  operations, bounds-checked array accesses, and the generic lemmas on them.
\<close>

section \<open>Machine integers\<close>

type_synonym u8 = "8 word"
type_synonym u16 = "16 word"
type_synonym u32 = "32 word"

section \<open>Array accesses with the bounds checked\<close>

text \<open>
  C indexes an array with an \<open>int\<close>; an index outside the array is undefined behaviour.
  \<open>aget\<close> and \<open>aset\<close> make it the value \<open>None\<close>.
\<close>

definition aget :: "'a list \<Rightarrow> int \<Rightarrow> 'a option" where
  "aget xs i = (if 0 \<le> i \<and> i < int (length xs) then Some (xs ! nat i) else None)"

definition aset :: "'a list \<Rightarrow> int \<Rightarrow> 'a \<Rightarrow> 'a list option" where
  "aset xs i v = (if 0 \<le> i \<and> i < int (length xs) then Some (xs[nat i := v]) else None)"

lemma aget_nat [simp]: "i < length xs \<Longrightarrow> aget xs (int i) = Some (xs ! i)"
  by (simp add: aget_def)

lemma aset_nat [simp]: "i < length xs \<Longrightarrow> aset xs (int i) v = Some (xs[i := v])"
  by (simp add: aset_def)

lemma aget_neg [simp]: "i < 0 \<Longrightarrow> aget xs i = None"
  by (simp add: aget_def)

lemma aset_neg [simp]: "i < 0 \<Longrightarrow> aset xs i v = None"
  by (simp add: aset_def)

lemma aget_None_iff: "aget xs i = None \<longleftrightarrow> i < 0 \<or> int (length xs) \<le> i"
  by (auto simp: aget_def)

section \<open>Outcomes of kernel operations\<close>

text \<open>
  \<open>Ret v s\<close>: the operation returned \<open>v\<close> in state \<open>s\<close>. \<open>Swtch s k\<close>: it gave up the CPU
  (\<open>swtch\<close> in \<open>sched\<close>); \<open>s\<close> is the state the scheduler continues from, and \<open>k\<close> is the rest of
  the operation, to be run from the state in which the scheduler switches back to it.
  \<open>Panic m\<close>: the kernel stopped with message \<open>m\<close>. \<open>Fault\<close>: an access outside an object or
  through a null pointer. \<open>Spin\<close>: it waits in \<open>acquire\<close> for a lock another CPU holds, or in
  another loop that this thread alone cannot end.
\<close>

datatype ('a, 's) outcome =
    Ret 'a 's
  | Swtch 's "'s \<Rightarrow> ('a, 's) outcome"
  | Panic string
  | Fault
  | Spin

primrec obind :: "('a, 's) outcome \<Rightarrow> ('a \<Rightarrow> 's \<Rightarrow> ('b, 's) outcome) \<Rightarrow> ('b, 's) outcome" where
  "obind (Ret x t) f = f x t"
| "obind (Swtch t k) f = Swtch t (\<lambda>u. obind (k u) f)"
| "obind (Panic e) f = Panic e"
| "obind Fault f = Fault"
| "obind Spin f = Spin"

definition kret :: "'a \<Rightarrow> 's \<Rightarrow> ('a, 's) outcome" where
  "kret x s = Ret x s"

definition kbind ::
    "('s \<Rightarrow> ('a, 's) outcome) \<Rightarrow> ('a \<Rightarrow> 's \<Rightarrow> ('b, 's) outcome) \<Rightarrow> 's \<Rightarrow> ('b, 's) outcome" where
  "kbind m f s = obind (m s) f"

definition kget :: "('s \<Rightarrow> 'a) \<Rightarrow> 's \<Rightarrow> ('a, 's) outcome" where
  "kget f s = Ret (f s) s"

definition kupd :: "('s \<Rightarrow> 's) \<Rightarrow> 's \<Rightarrow> (unit, 's) outcome" where
  "kupd f s = Ret () (f s)"

definition kpanic :: "string \<Rightarrow> 's \<Rightarrow> ('a, 's) outcome" where
  "kpanic msg s = Panic msg"

definition kfault :: "'s \<Rightarrow> ('a, 's) outcome" where
  "kfault s = Fault"

text \<open>A partial pure step: \<open>None\<close> is an access outside an object.\<close>

definition kopt :: "('s \<Rightarrow> 'a option) \<Rightarrow> 's \<Rightarrow> ('a, 's) outcome" where
  "kopt f s = (case f s of Some x \<Rightarrow> Ret x s | None \<Rightarrow> Fault)"

definition kif :: "('s \<Rightarrow> bool) \<Rightarrow> ('s \<Rightarrow> ('a, 's) outcome) \<Rightarrow> ('s \<Rightarrow> ('a, 's) outcome) \<Rightarrow>
    's \<Rightarrow> ('a, 's) outcome" where
  "kif b m1 m2 s = (if b s then m1 s else m2 s)"

definition kwhen :: "('s \<Rightarrow> bool) \<Rightarrow> ('s \<Rightarrow> (unit, 's) outcome) \<Rightarrow> 's \<Rightarrow> (unit, 's) outcome" where
  "kwhen b m s = (if b s then m s else Ret () s)"

text \<open>A block of statements, and the \<open>for\<close> loops over an array.\<close>

fun kseq :: "('s \<Rightarrow> (unit, 's) outcome) list \<Rightarrow> 's \<Rightarrow> (unit, 's) outcome" where
  "kseq [] s = Ret () s"
| "kseq (m # ms) s = kbind m (\<lambda>_. kseq ms) s"

fun kfor :: "'i list \<Rightarrow> ('i \<Rightarrow> 's \<Rightarrow> (unit, 's) outcome) \<Rightarrow> 's \<Rightarrow> (unit, 's) outcome" where
  "kfor [] b s = Ret () s"
| "kfor (i # is) b s = kbind (b i) (\<lambda>_. kfor is b) s"

text \<open>A \<open>for\<close> loop whose body may leave the loop with a value.\<close>

fun kfind :: "'i list \<Rightarrow> ('i \<Rightarrow> 's \<Rightarrow> ('a option, 's) outcome) \<Rightarrow> 's \<Rightarrow> ('a option, 's) outcome" where
  "kfind [] b s = Ret None s"
| "kfind (i # is) b s =
     kbind (b i) (\<lambda>r. case r of None \<Rightarrow> kfind is b | Some x \<Rightarrow> kret (Some x)) s"

named_theorems kexec "equations that execute the combinators"

lemmas kcombinators [kexec] =
  kret_def kbind_def kget_def kupd_def kpanic_def kfault_def kopt_def kif_def kwhen_def

lemma obind_assoc: "obind (obind r f) g = obind r (\<lambda>x s. obind (f x s) g)"
  by (induction r) auto

lemma obind_unit [simp]: "obind r (\<lambda>_. Ret ()) = r"
  by (induction r) auto

lemma obind_Ret [simp]: "obind r Ret = r"
  by (induction r) auto

lemma kseq_Nil [simp]: "kseq [] = kret ()"
  by (rule ext) (simp add: kexec)

lemma obind_kret [simp]: "obind r kret = r"
  by (induction r) (auto simp: kexec)

lemma obind_kret_unit [simp]: "obind r (\<lambda>_. kret ()) = r"
  by (induction r) (auto simp: kexec)

lemma kseq_single [simp]: "kseq [m] = m"
  by (rule ext) (simp add: kexec)

lemma kbind_kret [simp]: "kbind (kret x) f = f x"
  by (rule ext) (simp add: kexec)

lemma kbind_assoc: "kbind (kbind m f) g = kbind m (\<lambda>x. kbind (f x) g)"
  by (rule ext) (simp add: kbind_def[abs_def] obind_assoc)

lemma obind_Ret_iff: "obind r f = Ret x u \<longleftrightarrow> (\<exists>y t. r = Ret y t \<and> f y t = Ret x u)"
  by (cases r) auto

lemma kbind_Ret_iff:
  "kbind m f s = Ret x u \<longleftrightarrow> (\<exists>y t. m s = Ret y t \<and> f y t = Ret x u)"
  by (simp add: kexec obind_Ret_iff)

lemma kbind_RetE:
  assumes "kbind m f s = Ret x u"
  obtains y t where "m s = Ret y t" "f y t = Ret x u"
  using assms by (auto simp: kbind_Ret_iff)

lemma kseq_append: "kseq (ms @ ns) = kbind (kseq ms) (\<lambda>_. kseq ns)"
  by (induction ms) (rule ext, simp add: kbind_def[abs_def] kret_def obind_assoc)+

text \<open>
  The loop rule: an invariant indexed by the elements already handled. Every iteration
  returns and keeps the invariant, so the loop returns and the invariant holds at the end.
\<close>

lemma kfor_rule:
  assumes "I [] s"
    and "\<And>done i t. \<lbrakk>\<exists>rest. is = done @ i # rest; I done t\<rbrakk> \<Longrightarrow>
           \<exists>u. b i t = Ret () u \<and> I (done @ [i]) u"
  shows "\<exists>t. kfor is b s = Ret () t \<and> I is t"
  using assms
proof (induction "is" arbitrary: s I)
  case Nil
  then show ?case by simp
next
  case (Cons i "is")
  from Cons.prems(1) Cons.prems(2)[of "[]" i s]
  obtain u where u: "b i s = Ret () u" "I [i] u" by auto
  have "\<exists>t. kfor is b u = Ret () t \<and> I (i # is) t"
  proof (rule Cons.IH[of "\<lambda>d. I (i # d)"])
    show "I [i] u" by (rule u(2))
  next
    fix "done" j t
    assume "\<exists>rest. is = done @ j # rest" "I (i # done) t"
    then show "\<exists>v. b j t = Ret () v \<and> I (i # done @ [j]) v"
      using Cons.prems(2)[of "i # done" j t] by auto
  qed
  with u(1) show ?case by (simp add: kexec)
qed

text \<open>A search loop stops at the first element for which its body returns a value.\<close>

lemma kfind_miss:
  "(\<And>i. i \<in> set is \<Longrightarrow> b i s = Ret None s) \<Longrightarrow> kfind is b s = Ret None s"
  by (induction "is") (simp_all add: kexec)

lemma kfind_hit:
  assumes "find P is = Some j" "\<And>i. i \<in> set is \<Longrightarrow> \<not> P i \<Longrightarrow> b i s = Ret None s" "b j s = Ret (Some x) t"
  shows "kfind is b s = Ret (Some x) t"
  using assms
proof (induction "is")
  case (Cons i "is")
  then show ?case by (cases "P i") (simp_all add: kexec)
qed simp

text \<open>A loop all of whose iterations are pure updates is a fold.\<close>

lemma kfor_kupd:
  assumes "\<And>i t. i \<in> set is \<Longrightarrow> b i t = Ret () (f i t)"
  shows "kfor is b s = Ret () (fold f is s)"
  using assms by (induction "is" arbitrary: s) (simp_all add: kexec)

section \<open>Running to completion across switches\<close>

text \<open>
  \<open>completes I J Q r\<close>: the operation does not fault or panic; whenever it gives up the CPU it
  does so in a state that satisfies \<open>I\<close>, and if it is switched back to in a state that
  satisfies \<open>J\<close> it goes on in the same way; if it returns, \<open>Q\<close> holds.
\<close>

primrec completes ::
    "('s \<Rightarrow> bool) \<Rightarrow> ('s \<Rightarrow> bool) \<Rightarrow> ('a \<Rightarrow> 's \<Rightarrow> bool) \<Rightarrow> ('a, 's) outcome \<Rightarrow> bool" where
  "completes I J Q (Ret x s) \<longleftrightarrow> Q x s"
| "completes I J Q (Swtch s k) \<longleftrightarrow> I s \<and> (\<forall>u. J u \<longrightarrow> completes I J Q (k u))"
| "completes I J Q (Panic e) \<longleftrightarrow> False"
| "completes I J Q Fault \<longleftrightarrow> False"
| "completes I J Q Spin \<longleftrightarrow> True"

lemma completes_obind:
  "completes I J (\<lambda>x s. completes I J Q (f x s)) r \<Longrightarrow> completes I J Q (obind r f)"
  by (induction r) auto

lemma completes_kbind:
  "completes I J (\<lambda>x s. completes I J Q (f x s)) (m s) \<Longrightarrow> completes I J Q (kbind m f s)"
  by (simp add: kbind_def completes_obind)

lemma completes_mono:
  "completes I J Q r \<Longrightarrow> (\<And>x s. Q x s \<Longrightarrow> Q' x s) \<Longrightarrow> completes I J Q' r"
  by (induction r) auto

lemma completes_kif:
  "(b s \<Longrightarrow> completes I J Q (m1 s)) \<Longrightarrow> (\<not> b s \<Longrightarrow> completes I J Q (m2 s)) \<Longrightarrow>
     completes I J Q (kif b m1 m2 s)"
  by (simp add: kif_def)

section \<open>Lists\<close>

lemma nth_list_update_if:
  "i < length xs \<Longrightarrow> xs[i := v] ! j = (if i = j then v else xs ! j)"
  by simp

lemma find_upt_Some:
  assumes "find P [a..<b] = Some i"
  shows "a \<le> i \<and> i < b \<and> P i \<and> (\<forall>j. a \<le> j \<and> j < i \<longrightarrow> \<not> P j)"
proof -
  from assms obtain n where n: "n < b - a" "P (a + n)" "\<forall>j<n. \<not> P (a + j)" "i = a + n"
    by (auto simp: find_Some_iff)
  have "\<not> P j" if "a \<le> j" "j < i" for j
    using n(3)[rule_format, of "j - a"] n(4) that by auto
  with n show ?thesis by auto
qed

lemma find_upt_None: "find P [a..<b] = None \<longleftrightarrow> (\<forall>j. a \<le> j \<and> j < b \<longrightarrow> \<not> P j)"
  by (auto simp: find_None_iff)

text \<open>A search whose bodies keep an invariant runs to the first element that \<open>P\<close> accepts.\<close>

lemma kfind_search:
  assumes "Q s" "\<And>i u. i \<in> set is \<Longrightarrow> Q u \<Longrightarrow> \<not> P i \<Longrightarrow> \<exists>t. b i u = Ret None t \<and> Q t"
  shows "case find P is of
      None \<Rightarrow> \<exists>t. kfind is b s = Ret None t \<and> Q t
    | Some j \<Rightarrow> \<exists>u rest. Q u \<and> kfind is b s = kbind (b j) (\<lambda>r. case r of None \<Rightarrow> kfind rest b | Some x \<Rightarrow> kret (Some x)) u"
  using assms
proof (induction "is" arbitrary: s)
  case (Cons i "is")
  show ?case
  proof (cases "P i")
    case True
    then show ?thesis using Cons.prems(1) by (auto intro!: exI[of _ s] exI[of _ "is"])
  next
    case False
    then obtain t where t: "b i s = Ret None t" "Q t" using Cons.prems by force
    then have e: "kfind (i # is) b s = kfind is b t" by (simp add: kbind_def)
    show ?thesis using Cons.IH[OF t(2)] Cons.prems(2) False unfolding e by simp
  qed
qed simp

end
