(* ===== verification/Fcfs_Queue.thy ===== *)
theory Fcfs_Queue
  imports Prelude
begin

text \<open>
  The FCFS run queue of \<open>proc.c\<close>: a binary min-heap of process pointers in a fixed array,
  ordered by process creation time. The array operations are translated with their index
  arithmetic; the lemmas show that they implement a priority queue.
\<close>

section \<open>State and operations\<close>

text \<open>
  A \<open>struct proc *\<close> is an index into \<open>ptable.proc\<close>, or \<open>None\<close> for the null pointer. The
  operations read \<open>p->timecreated\<close> through the argument \<open>tc\<close>.
\<close>

definition NPROC :: nat where
  "NPROC = 64"

record pqueue =
  pq_size :: int
  pq_proc :: "nat option list"

definition parent :: "int \<Rightarrow> int" where
  "parent i = (i - 1) sdiv 2"

definition leftchild :: "int \<Rightarrow> int" where
  "leftchild i = 2 * i + 1"

definition rightchild :: "int \<Rightarrow> int" where
  "rightchild i = 2 * i + 2"

text \<open>\<open>pqueue.proc[i]->timecreated\<close>\<close>

definition pq_time :: "(nat \<Rightarrow> u32) \<Rightarrow> pqueue \<Rightarrow> int \<Rightarrow> u32 option" where
  "pq_time tc q i = do { e \<leftarrow> aget (pq_proc q) i; p \<leftarrow> e; Some (tc p) }"

text \<open>\<open>tmp = proc[a]; proc[a] = proc[b]; proc[b] = tmp\<close>\<close>

definition pq_swap :: "pqueue \<Rightarrow> int \<Rightarrow> int \<Rightarrow> pqueue option" where
  "pq_swap q a b = do {
     tmp \<leftarrow> aget (pq_proc q) a;
     y \<leftarrow> aget (pq_proc q) b;
     xs \<leftarrow> aset (pq_proc q) a y;
     ys \<leftarrow> aset xs b tmp;
     Some (q\<lparr>pq_proc := ys\<rparr>) }"

lemma pq_swap_size: "pq_swap q a b = Some q' \<Longrightarrow> pq_size q' = pq_size q"
  by (auto simp: pq_swap_def bind_eq_Some_conv)

lemma pq_swap_bounds: "pq_swap q a b = Some q' \<Longrightarrow> 0 \<le> a \<and> 0 \<le> b"
  by (auto simp: pq_swap_def bind_eq_Some_conv aget_def split: if_splits)

lemma parent_pos: "0 < i \<Longrightarrow> parent i = (i - 1) div 2"
  by (cases "i = 1") (simp_all add: parent_def signed_divide_int_def)

lemma parent_less: "0 < i \<Longrightarrow> 0 \<le> parent i \<and> parent i < i"
  by (simp add: parent_pos)

function shiftup :: "(nat \<Rightarrow> u32) \<Rightarrow> int \<Rightarrow> pqueue \<Rightarrow> pqueue option" where
  "shiftup tc i q =
     (if 0 < i then do {
        a \<leftarrow> pq_time tc q (parent i);
        b \<leftarrow> pq_time tc q i;
        if b < a then do {
          q' \<leftarrow> pq_swap q (parent i) i;
          shiftup tc (parent i) q' }
        else Some q }
      else Some q)"
  by pat_completeness auto
termination
  by (relation "measure (\<lambda>(tc, i, q). nat i)") (use parent_less in auto)

declare shiftup.simps [simp del]

definition down_left :: "(nat \<Rightarrow> u32) \<Rightarrow> int \<Rightarrow> pqueue \<Rightarrow> int option" where
  "down_left tc i q =
     (if leftchild i < pq_size q then do {
        a \<leftarrow> pq_time tc q (leftchild i);
        b \<leftarrow> pq_time tc q i;
        Some (if a < b then leftchild i else i) }
      else Some i)"

definition down_right :: "(nat \<Rightarrow> u32) \<Rightarrow> int \<Rightarrow> int \<Rightarrow> pqueue \<Rightarrow> int option" where
  "down_right tc i minindex q =
     (if rightchild i < pq_size q then do {
        a \<leftarrow> pq_time tc q (rightchild i);
        b \<leftarrow> pq_time tc q minindex;
        Some (if a < b then rightchild i else minindex) }
      else Some minindex)"

lemma down_left_range:
  "down_left tc i q = Some m \<Longrightarrow> m = i \<or> m = leftchild i \<and> leftchild i < pq_size q"
  by (auto simp: down_left_def bind_eq_Some_conv split: if_splits)

lemma down_right_range:
  "down_right tc i k q = Some m \<Longrightarrow> m = k \<or> m = rightchild i \<and> rightchild i < pq_size q"
  by (auto simp: down_right_def bind_eq_Some_conv split: if_splits)

function shiftdown :: "(nat \<Rightarrow> u32) \<Rightarrow> int \<Rightarrow> pqueue \<Rightarrow> pqueue option" where
  "shiftdown tc i q = do {
     m1 \<leftarrow> down_left tc i q;
     minindex \<leftarrow> down_right tc i m1 q;
     if minindex = leftchild i then do {
       q' \<leftarrow> pq_swap q (leftchild i) i;
       shiftdown tc minindex q' }
     else if minindex = rightchild i then do {
       q' \<leftarrow> pq_swap q (rightchild i) i;
       shiftdown tc minindex q' }
     else Some q }"
  by pat_completeness auto
termination
proof (relation "measure (\<lambda>(tc, i, q). nat (pq_size q - i))", goal_cases)
  case 1
  show ?case by simp
next
  case (2 tc i q m1 m q')
  from 2(4) have "pq_size q' = pq_size q" "0 \<le> i"
    by (auto dest: pq_swap_size pq_swap_bounds)
  moreover from 2 have "leftchild i < pq_size q"
    using down_left_range[OF 2(1)] down_right_range[OF 2(2)] \<open>0 \<le> i\<close>
    by (auto simp: leftchild_def rightchild_def)
  ultimately show ?case using 2(3) by (simp add: leftchild_def)
next
  case (3 tc i q m1 m q')
  from 3(5) have "pq_size q' = pq_size q" "0 \<le> i"
    by (auto dest: pq_swap_size pq_swap_bounds)
  moreover from 3 have "rightchild i < pq_size q"
    using down_left_range[OF 3(1)] down_right_range[OF 3(2)] \<open>0 \<le> i\<close>
    by (auto simp: leftchild_def rightchild_def)
  ultimately show ?case using 3(4) by (simp add: rightchild_def)
qed

declare shiftdown.simps [simp del]

definition insert_pq :: "(nat \<Rightarrow> u32) \<Rightarrow> nat option \<Rightarrow> pqueue \<Rightarrow> pqueue option" where
  "insert_pq tc p q =
     (if pq_size q < int NPROC then do {
        xs \<leftarrow> aset (pq_proc q) (pq_size q) p;
        q1 \<leftarrow> shiftup tc (pq_size q) (q\<lparr>pq_proc := xs\<rparr>);
        Some (q1\<lparr>pq_size := pq_size q1 + 1\<rparr>) }
      else Some q)"

definition remove_pq :: "(nat \<Rightarrow> u32) \<Rightarrow> pqueue \<Rightarrow> (nat option \<times> pqueue) option" where
  "remove_pq tc q =
     (if pq_size q = 0 then Some (None, q)
      else do {
        p \<leftarrow> aget (pq_proc q) 0;
        let n = pq_size q - 1;
        e \<leftarrow> aget (pq_proc q) n;
        xs \<leftarrow> aset (pq_proc q) 0 e;
        q' \<leftarrow> shiftdown tc 0 (q\<lparr>pq_size := n, pq_proc := xs\<rparr>);
        Some (p, q') })"

section \<open>The heap invariant\<close>

text \<open>
  \<open>xs\<close> is the part of the array in use, as process numbers. \<open>pq_holds q xs rest\<close> ties it to
  the array; \<open>heap\<close> is the min-heap order; \<open>heap_up\<close> and \<open>heap_down\<close> are the order with one
  position still to be repaired upwards or downwards.
\<close>

definition pq_holds :: "pqueue \<Rightarrow> nat list \<Rightarrow> nat option list \<Rightarrow> bool" where
  "pq_holds q xs rest \<longleftrightarrow> pq_proc q = map Some xs @ rest"

definition par :: "nat \<Rightarrow> nat" where
  "par j = (j - 1) div 2"

definition heap :: "(nat \<Rightarrow> u32) \<Rightarrow> nat list \<Rightarrow> bool" where
  "heap tc xs \<longleftrightarrow> (\<forall>j < length xs. 0 < j \<longrightarrow> tc (xs ! (par j)) \<le> tc (xs ! j))"

definition heap_up :: "(nat \<Rightarrow> u32) \<Rightarrow> nat list \<Rightarrow> nat \<Rightarrow> bool" where
  "heap_up tc xs i \<longleftrightarrow>
     (\<forall>j < length xs. 0 < j \<longrightarrow> j \<noteq> i \<longrightarrow> tc (xs ! (par j)) \<le> tc (xs ! j)) \<and>
     (0 < i \<longrightarrow> (\<forall>j < length xs. 0 < j \<longrightarrow> par j = i \<longrightarrow>
        tc (xs ! (par i)) \<le> tc (xs ! j)))"

definition heap_down :: "(nat \<Rightarrow> u32) \<Rightarrow> nat list \<Rightarrow> nat \<Rightarrow> bool" where
  "heap_down tc xs i \<longleftrightarrow>
     (\<forall>j < length xs. 0 < j \<longrightarrow> par j \<noteq> i \<longrightarrow> tc (xs ! (par j)) \<le> tc (xs ! j)) \<and>
     (0 < i \<longrightarrow> (\<forall>j < length xs. 0 < j \<longrightarrow> par j = i \<longrightarrow>
        tc (xs ! (par i)) \<le> tc (xs ! j)))"

definition swap_at :: "nat list \<Rightarrow> nat \<Rightarrow> nat \<Rightarrow> nat list" where
  "swap_at xs a b = xs[a := xs ! b, b := xs ! a]"

lemma swap_at_length [simp]: "length (swap_at xs a b) = length xs"
  by (simp add: swap_at_def)

lemma swap_at_nth:
  assumes "a < length xs" "b < length xs"
  shows "swap_at xs a b ! j = (if j = b then xs ! a else if j = a then xs ! b else xs ! j)"
  using assms by (auto simp: swap_at_def nth_list_update)

lemma mset_swap_at [simp]: "a < length xs \<Longrightarrow> b < length xs \<Longrightarrow> mset (swap_at xs a b) = mset xs"
  by (simp add: swap_at_def mset_swap)

lemma par_less: "0 < j \<Longrightarrow> par j < j"
  by (auto simp: par_def)

lemma parent_int: "0 < i \<Longrightarrow> parent (int i) = int (par i)"
  by (simp add: parent_pos par_def zdiv_int of_nat_diff)

lemma pq_time_holds:
  assumes "pq_holds q xs rest" "i < length xs"
  shows "pq_time tc q (int i) = Some (tc (xs ! i))"
  using assms by (auto simp: pq_time_def pq_holds_def aget_def nth_append)

lemma pq_swap_holds:
  assumes "pq_holds q xs rest" "a < length xs" "b < length xs"
  shows "pq_swap q (int a) (int b) =
           Some (q\<lparr>pq_proc := map Some (swap_at xs a b) @ rest\<rparr>)"
proof -
  have "a < length (map Some xs @ rest)" "b < length (map Some xs @ rest)"
    using assms(2,3) by simp_all
  then show ?thesis using assms
    by (simp add: pq_swap_def pq_holds_def aget_def aset_def nth_append list_update_append
        swap_at_def map_update)
qed

lemma heap_up_root: "heap_up tc xs 0 \<Longrightarrow> heap tc xs"
  by (auto simp: heap_up_def heap_def)

lemma heap_up_stop:
  "heap_up tc xs i \<Longrightarrow> tc (xs ! (par i)) \<le> tc (xs ! i) \<Longrightarrow> heap tc xs"
  by (auto simp: heap_up_def heap_def)

lemma heap_up_step:
  assumes up: "heap_up tc xs i" and i: "0 < i" "i < length xs"
    and less: "tc (xs ! i) < tc (xs ! (par i))"
  shows "heap_up tc (swap_at xs (par i) i) (par i)"
proof -
  let ?p = "par i"
  have p: "?p < i" "?p < length xs" using i par_less[of i] by auto
  note nth = swap_at_nth[OF p(2) i(2)]
  have order: "tc (xs ! (par j)) \<le> tc (xs ! j)" if "j < length xs" "0 < j" "j \<noteq> i" for j
    using up that by (auto simp: heap_up_def)
  have grand: "tc (xs ! ?p) \<le> tc (xs ! j)" if "j < length xs" "0 < j" "par j = i" for j
    using up that i by (auto simp: heap_up_def)
  show ?thesis
    unfolding heap_up_def swap_at_length
  proof (intro conjI allI impI)
    fix j assume j: "j < length xs" "0 < j" "j \<noteq> ?p"
    show "tc (swap_at xs ?p i ! (par j)) \<le> tc (swap_at xs ?p i ! j)"
    proof (cases "j = i")
      case True
      then show ?thesis using p less by (simp add: nth)
    next
      case False
      with j grand[of j] order[of j] less p show ?thesis by (auto simp: nth)
    qed
  next
    fix j assume p0: "0 < ?p" and j: "j < length xs" "0 < j" "par j = ?p"
    have gp: "tc (xs ! (par ?p)) \<le> tc (xs ! ?p)" using order[of ?p] p p0 by auto
    have pn: "par ?p \<noteq> ?p" "par ?p \<noteq> i" using p p0 par_less[of ?p] by auto
    show "tc (swap_at xs ?p i ! (par ?p)) \<le> tc (swap_at xs ?p i ! j)"
    proof (cases "j = i")
      case True
      then show ?thesis using gp pn p by (simp add: nth)
    next
      case False
      moreover have "j \<noteq> ?p" using j par_less[of j] by auto
      ultimately show ?thesis using gp pn order[OF j(1,2) False] j(3) by (simp add: nth)
    qed
  qed
qed

lemma shiftup_correct:
  assumes "pq_holds q xs rest" "i < length xs" "heap_up tc xs i"
  shows "\<exists>ys. shiftup tc (int i) q = Some (q\<lparr>pq_proc := map Some ys @ rest\<rparr>) \<and>
           mset ys = mset xs \<and> heap tc ys"
  using assms
proof (induction i arbitrary: q xs rule: less_induct)
  case (less i)
  note holds = less.prems(1) and i = less.prems(2) and up = less.prems(3)
  have id: "q\<lparr>pq_proc := map Some xs @ rest\<rparr> = q" using holds by (simp add: pq_holds_def)
  show ?case
  proof (cases "0 < i")
    case False
    then have "shiftup tc (int i) q = Some q" by (simp add: shiftup.simps)
    then show ?thesis using id heap_up_root up False by (intro exI[of _ xs]) auto
  next
    case True
    let ?p = "par i"
    have p: "?p < i" "?p < length xs" using True i par_less[of i] by auto
    show ?thesis
    proof (cases "tc (xs ! i) < tc (xs ! ?p)")
      case False
      then have "shiftup tc (int i) q = Some q"
        using True by (simp add: shiftup.simps[of tc "int i"] parent_int pq_time_holds[OF holds] i p)
      then show ?thesis using id heap_up_stop[OF up] False by (intro exI[of _ xs]) auto
    next
      case swap: True
      define q1 where "q1 = q\<lparr>pq_proc := map Some (swap_at xs ?p i) @ rest\<rparr>"
      have "shiftup tc (int i) q = shiftup tc (int ?p) q1"
        using True swap by (simp add: shiftup.simps[of tc "int i"] parent_int
            pq_time_holds[OF holds] pq_swap_holds[OF holds] i p q1_def)
      moreover have "\<exists>ys. shiftup tc (int ?p) q1 = Some (q1\<lparr>pq_proc := map Some ys @ rest\<rparr>) \<and>
          mset ys = mset (swap_at xs ?p i) \<and> heap tc ys"
        using less.IH[OF p(1), of q1 "swap_at xs ?p i"] heap_up_step[OF up True i swap] p
        by (auto simp: pq_holds_def q1_def)
      ultimately show ?thesis using p i by (auto simp: q1_def)
    qed
  qed
qed

lemma par_iff: "0 < j \<Longrightarrow> par j = i \<longleftrightarrow> j = 2 * i + 1 \<or> j = 2 * i + 2"
  by (auto simp: par_def)

text \<open>The child \<open>shiftdown\<close> descends to, or \<open>i\<close> itself where the order already holds.\<close>

definition min_child :: "(nat \<Rightarrow> u32) \<Rightarrow> nat list \<Rightarrow> nat \<Rightarrow> nat" where
  "min_child tc xs i =
     (let m = (if 2 * i + 1 < length xs \<and> tc (xs ! (2 * i + 1)) < tc (xs ! i) then 2 * i + 1 else i)
      in if 2 * i + 2 < length xs \<and> tc (xs ! (2 * i + 2)) < tc (xs ! m) then 2 * i + 2 else m)"

lemma down_holds:
  assumes holds: "pq_holds q xs rest" and size: "pq_size q = int (length xs)"
  shows "(do { m1 \<leftarrow> down_left tc (int i) q; down_right tc (int i) m1 q }) =
           Some (int (min_child tc xs i))"
proof -
  have lr: "leftchild (int i) = int (2 * i + 1)" "rightchild (int i) = int (2 * i + 2)"
    by (simp_all add: leftchild_def rightchild_def)
  have l: "leftchild (int i) < pq_size q \<longleftrightarrow> 2 * i + 1 < length xs"
    and r: "rightchild (int i) < pq_size q \<longleftrightarrow> 2 * i + 2 < length xs"
    using lr size by linarith+
  have left: "down_left tc (int i) q = Some (int (if 2 * i + 1 < length xs \<and>
      tc (xs ! (2 * i + 1)) < tc (xs ! i) then 2 * i + 1 else i))"
    unfolding down_left_def l unfolding lr
    by (simp add: pq_time_holds[OF holds] del: of_nat_add of_nat_mult of_nat_Suc)
  have right: "down_right tc (int i) (int m) q = Some (int (if 2 * i + 2 < length xs \<and>
      tc (xs ! (2 * i + 2)) < tc (xs ! m) then 2 * i + 2 else m))"
    if "2 * i + 2 < length xs \<longrightarrow> m < length xs" for m
    unfolding down_right_def r unfolding lr using that
    by (simp add: pq_time_holds[OF holds] del: of_nat_add of_nat_mult of_nat_Suc)
  show ?thesis
    unfolding left bind.simps by (subst right) (auto simp: min_child_def Let_def)
qed

lemma min_child_stop:
  assumes "heap_down tc xs i" "min_child tc xs i = i"
  shows "heap tc xs"
  unfolding heap_def
proof (intro allI impI)
  fix j assume j: "j < length xs" "0 < j"
  show "tc (xs ! par j) \<le> tc (xs ! j)"
  proof (cases "par j = i")
    case True
    with j par_iff[of j i] have "j = 2 * i + 1 \<or> j = 2 * i + 2" by simp
    with assms(2) j True show ?thesis
      by (auto simp: min_child_def Let_def not_less split: if_splits)
  next
    case False
    with assms(1) j show ?thesis by (auto simp: heap_down_def)
  qed
qed

lemma min_child_least:
  assumes "min_child tc xs i \<noteq> i"
  shows "min_child tc xs i < length xs" "par (min_child tc xs i) = i" "i < min_child tc xs i"
    "tc (xs ! min_child tc xs i) < tc (xs ! i)"
    "j < length xs \<Longrightarrow> 0 < j \<Longrightarrow> par j = i \<Longrightarrow> tc (xs ! min_child tc xs i) \<le> tc (xs ! j)"
proof -
  show "min_child tc xs i < length xs" "par (min_child tc xs i) = i" "i < min_child tc xs i"
    "tc (xs ! min_child tc xs i) < tc (xs ! i)"
    using assms by (auto simp: min_child_def Let_def par_def split: if_splits)
  assume j: "j < length xs" "0 < j" "par j = i"
  then have "j = 2 * i + 1 \<or> j = 2 * i + 2" by (simp add: par_iff)
  with assms j show "tc (xs ! min_child tc xs i) \<le> tc (xs ! j)"
    by (auto simp: min_child_def Let_def not_less split: if_splits)
qed

lemma heap_down_step:
  assumes down: "heap_down tc xs i" and m: "min_child tc xs i \<noteq> i"
  shows "heap_down tc (swap_at xs (min_child tc xs i) i) (min_child tc xs i)"
proof -
  define k where "k = min_child tc xs i"
  note least = min_child_least[OF m, folded k_def]
  have i: "i < length xs" using least(1,3) by simp
  note nth = swap_at_nth[OF least(1) i]
  have order: "tc (xs ! par j) \<le> tc (xs ! j)" if "j < length xs" "0 < j" "par j \<noteq> i" for j
    using down that by (simp add: heap_down_def)
  have grand: "tc (xs ! par i) \<le> tc (xs ! k)" if "0 < i"
    using down that least(1,2,3) by (simp add: heap_down_def)
  have step: "tc (swap_at xs k i ! par j) \<le> tc (swap_at xs k i ! j)"
    if j: "j < length xs" "0 < j" "par j \<noteq> k" for j
  proof (cases "par j = i")
    case True
    moreover have "j \<noteq> i" using par_less[OF j(2)] True by simp
    ultimately show ?thesis
      using less_imp_le[OF least(4)] least(5)[OF j(1,2) True] by (simp add: nth)
  next
    case ni: False
    show ?thesis
    proof (cases "j = i")
      case True
      then show ?thesis using grand j ni by (simp add: nth)
    next
      case False
      moreover have "j \<noteq> k" using ni least(2) by auto
      ultimately show ?thesis using order[OF j(1,2) ni] ni j(3) by (simp add: nth)
    qed
  qed
  have child: "tc (swap_at xs k i ! par k) \<le> tc (swap_at xs k i ! j)"
    if j: "j < length xs" "0 < j" "par j = k" for j
  proof -
    have "j \<noteq> k" "j \<noteq> i" using par_less[OF j(2)] j(3) least(3) by auto
    moreover have "tc (xs ! k) \<le> tc (xs ! j)" using order[OF j(1,2)] j(3) least(3) by simp
    ultimately show ?thesis using least(2,3) by (simp add: nth)
  qed
  show ?thesis
    using step child unfolding heap_down_def swap_at_length k_def[symmetric] by blast
qed

lemma shiftdown_correct:
  assumes "pq_holds q xs rest" "pq_size q = int (length xs)" "heap_down tc xs i"
  shows "\<exists>ys. shiftdown tc (int i) q = Some (q\<lparr>pq_proc := map Some ys @ rest\<rparr>) \<and>
           mset ys = mset xs \<and> heap tc ys"
  using assms
proof (induction "length xs - i" arbitrary: i q xs rule: less_induct)
  case less
  note holds = less.prems(1) and size = less.prems(2) and down = less.prems(3)
  define m where "m = min_child tc xs i"
  have id: "q\<lparr>pq_proc := map Some xs @ rest\<rparr> = q" using holds by (simp add: pq_holds_def)
  obtain m1 where m1: "down_left tc (int i) q = Some m1" "down_right tc (int i) m1 q = Some (int m)"
    using down_holds[OF holds size, of tc i] by (auto simp: m_def bind_eq_Some_conv)
  have child: "int m = leftchild (int i) \<or> int m = rightchild (int i) \<longleftrightarrow> m \<noteq> i"
    by (auto simp: m_def min_child_def Let_def leftchild_def rightchild_def)
  show ?case
  proof (cases "m = i")
    case True
    then have "shiftdown tc (int i) q = Some q"
      using m1 child by (simp add: shiftdown.simps[of tc "int i"])
    with id min_child_stop[OF down] True show ?thesis by (intro exI[of _ xs]) (auto simp: m_def)
  next
    case False
    note least = min_child_least(1-3)[OF False[unfolded m_def], folded m_def]
    define q1 where "q1 = q\<lparr>pq_proc := map Some (swap_at xs m i) @ rest\<rparr>"
    have i: "i < length xs" using least by simp
    have "shiftdown tc (int i) q = shiftdown tc (int m) q1"
      using m1 child False pq_swap_holds[OF holds least(1) i]
      by (auto simp: shiftdown.simps[of tc "int i"] q1_def)
    moreover have "\<exists>ys. shiftdown tc (int m) q1 = Some (q1\<lparr>pq_proc := map Some ys @ rest\<rparr>) \<and>
        mset ys = mset (swap_at xs m i) \<and> heap tc ys"
    proof (rule less.hyps)
      show "length (swap_at xs m i) - m < length xs - i" using least i by simp
      show "heap_down tc (swap_at xs m i) m"
        using heap_down_step[OF down] False by (simp add: m_def)
    qed (simp_all add: pq_holds_def q1_def size)
    ultimately show ?thesis using i least by (auto simp: q1_def)
  qed
qed

section \<open>Contents, well-formedness and the queue operations\<close>

definition pq_list :: "pqueue \<Rightarrow> nat list" where
  "pq_list q = map the (take (nat (pq_size q)) (pq_proc q))"

definition pq_wf :: "(nat \<Rightarrow> u32) \<Rightarrow> pqueue \<Rightarrow> bool" where
  "pq_wf tc q \<longleftrightarrow> length (pq_proc q) = NPROC \<and> 0 \<le> pq_size q \<and> pq_size q \<le> int NPROC \<and>
     None \<notin> set (take (nat (pq_size q)) (pq_proc q)) \<and> heap tc (pq_list q)"

definition pq_init :: pqueue where
  "pq_init = \<lparr>pq_size = 0, pq_proc = replicate NPROC None\<rparr>"

lemma pq_init_wf [simp]: "pq_wf tc pq_init" "pq_list pq_init = []"
  by (simp_all add: pq_wf_def pq_init_def pq_list_def heap_def)

lemma map_Some_the: "None \<notin> set xs \<Longrightarrow> map Some (map the xs) = xs"
  by (induction xs) auto

lemma pq_wf_holds:
  assumes "pq_wf tc q"
  shows "pq_holds q (pq_list q) (drop (nat (pq_size q)) (pq_proc q))"
    and "pq_size q = int (length (pq_list q))"
  using assms by (auto simp: pq_wf_def pq_holds_def pq_list_def map_Some_the[simplified])

lemma pq_wfI:
  assumes "pq_proc q = map Some xs @ rest" "pq_size q = int (length xs)"
    "length xs + length rest = NPROC" "heap tc xs"
  shows "pq_wf tc q \<and> pq_list q = xs"
  using assms by (auto simp: pq_wf_def pq_list_def comp_def)

lemma heap_append_up: "heap tc xs \<Longrightarrow> heap_up tc (xs @ [p]) (length xs)"
  by (auto simp: heap_def heap_up_def nth_append par_def)

text \<open>\<open>insert\<close> on a queue that is not full adds the process and keeps the heap.\<close>

lemma insert_pq_correct:
  assumes wf: "pq_wf tc q" and room: "length (pq_list q) < NPROC"
  shows "\<exists>q'. insert_pq tc (Some p) q = Some q' \<and> pq_wf tc q' \<and>
           mset (pq_list q') = add_mset p (mset (pq_list q))"
proof -
  define xs where "xs = pq_list q"
  define rest where "rest = drop (nat (pq_size q)) (pq_proc q)"
  have holds: "pq_proc q = map Some xs @ rest" and size: "pq_size q = int (length xs)"
    using pq_wf_holds[OF wf] by (simp_all add: pq_holds_def xs_def rest_def)
  have len: "length xs + length rest = NPROC"
    using wf holds by (metis pq_wf_def length_append length_map)
  with room obtain r rest' where rest: "rest = r # rest'"
    by (cases rest) (auto simp: xs_def)
  define q0 where "q0 = q\<lparr>pq_proc := map Some (xs @ [p]) @ rest'\<rparr>"
  have set0: "aset (pq_proc q) (pq_size q) (Some p) = Some (map Some (xs @ [p]) @ rest')"
    by (simp add: holds size rest aset_def list_update_append)
  obtain ys where ys: "shiftup tc (int (length xs)) q0 = Some (q0\<lparr>pq_proc := map Some ys @ rest'\<rparr>)"
      "mset ys = mset (xs @ [p])" "heap tc ys"
    using shiftup_correct[of q0 "xs @ [p]" rest' "length xs" tc]
      heap_append_up[of tc xs p] wf
    by (auto simp: pq_holds_def q0_def pq_wf_def xs_def)
  define q' where "q' = q\<lparr>pq_proc := map Some ys @ rest', pq_size := pq_size q + 1\<rparr>"
  have "length ys = length xs + 1" using ys(2) by (metis size_mset length_append_singleton Suc_eq_plus1)
  moreover have "insert_pq tc (Some p) q = Some q'"
    using set0 ys(1) room by (simp add: insert_pq_def q0_def q'_def size xs_def)
  ultimately show ?thesis
    using pq_wfI[of q' ys rest' tc] ys(2,3) len
    by (auto simp: q'_def size rest xs_def)
qed

lemma heap_min:
  assumes "heap tc xs" "j < length xs"
  shows "tc (xs ! 0) \<le> tc (xs ! j)"
  using assms(2)
proof (induction j rule: less_induct)
  case (less j)
  show ?case
  proof (cases "j = 0")
    case False
    then have "par j < j" by (simp add: par_less)
    with less False assms(1) show ?thesis
      using less.IH[of "par j"] by (force simp: heap_def)
  qed simp
qed

lemma heap_replace_root:
  assumes "heap tc (x # t)"
  shows "heap_down tc ((butlast (x # t))[0 := last (x # t)]) 0"
proof -
  have "tc ((butlast (x # t))[0 := l] ! par j) \<le> tc ((butlast (x # t))[0 := l] ! j)"
    if "j < length t" "0 < j" "par j \<noteq> 0" for j l
  proof -
    have "par j < length t" using par_less[OF that(2)] that(1) by simp
    moreover have "tc ((x # t) ! par j) \<le> tc ((x # t) ! j)"
      using assms[unfolded heap_def, rule_format, of j] that by simp
    moreover have "(butlast (x # t))[0 := l] ! k = (x # t) ! k" if "0 < k" "k < length t" for k
      using that by (simp add: nth_butlast del: butlast.simps)
    ultimately show ?thesis using that by simp
  qed
  from this[of _ "last (x # t)"] show ?thesis
    by (simp add: heap_down_def del: butlast.simps last.simps)
qed

lemma remove_pq_empty: "pq_wf tc q \<Longrightarrow> pq_list q = [] \<Longrightarrow> remove_pq tc q = Some (None, q)"
  using pq_wf_holds(2) by (fastforce simp: remove_pq_def)

text \<open>\<open>remove\<close> takes a process of least creation time and keeps the heap.\<close>

lemma remove_pq_correct:
  assumes wf: "pq_wf tc q" and ne: "pq_list q \<noteq> []"
  shows "\<exists>p q'. remove_pq tc q = Some (Some p, q') \<and> pq_wf tc q' \<and>
           mset (pq_list q) = add_mset p (mset (pq_list q')) \<and>
           (\<forall>r \<in> set (pq_list q). tc p \<le> tc r)"
proof -
  obtain x t where xt: "pq_list q = x # t" using ne by (cases "pq_list q") auto
  define rest where "rest = drop (nat (pq_size q)) (pq_proc q)"
  have holds: "pq_proc q = map Some (x # t) @ rest" and size: "pq_size q = int (length t) + 1"
    using pq_wf_holds[OF wf] by (simp_all add: pq_holds_def xt rest_def)
  define zs where "zs = (butlast (x # t))[0 := last (x # t)]"
  define l where "l = last (x # t)"
  have proc: "(pq_proc q)[0 := Some l] = map Some zs @ (Some l # rest)"
  proof (cases t rule: rev_cases)
    case Nil
    then show ?thesis by (simp add: holds zs_def l_def)
  next
    case (snoc t' y)
    then show ?thesis by (simp add: holds zs_def l_def butlast_append)
  qed
  have mz: "mset zs = mset t" "length zs = length t"
    by (cases t rule: rev_cases; simp add: zs_def butlast_append)+
  define q0 where "q0 = q\<lparr>pq_size := int (length t), pq_proc := map Some zs @ (Some l # rest)\<rparr>"
  have "\<exists>ys. shiftdown tc (int 0) q0 = Some (q0\<lparr>pq_proc := map Some ys @ (Some l # rest)\<rparr>) \<and>
         mset ys = mset zs \<and> heap tc ys"
  proof (rule shiftdown_correct)
    show "heap_down tc zs 0"
      using heap_replace_root[of tc x t] wf by (simp add: zs_def pq_wf_def xt)
  qed (simp_all add: pq_holds_def q0_def mz)
  then obtain ys where ys: "shiftdown tc 0 q0 = Some (q0\<lparr>pq_proc := map Some ys @ (Some l # rest)\<rparr>)"
      "mset ys = mset zs" "heap tc ys"
    by auto
  have last: "aget (pq_proc q) (pq_size q - 1) = Some (Some l)"
  proof -
    have "pq_size q - 1 = int (length t)" by (simp add: size)
    moreover have "length t < length (pq_proc q)" by (simp add: holds)
    moreover have "pq_proc q ! length t = Some l"
      by (cases t rule: rev_cases) (simp_all add: holds l_def nth_append)
    ultimately show ?thesis by simp
  qed
  define q' where "q' = q0\<lparr>pq_proc := map Some ys @ (Some l # rest)\<rparr>"
  have remove: "remove_pq tc q = Some (Some x, q')"
  proof -
    have "aget (pq_proc q) 0 = Some (Some x)" by (simp add: holds aget_def)
    moreover have "aset (pq_proc q) 0 (Some l) = Some (map Some zs @ (Some l # rest))"
      using proc by (simp add: aset_def holds)
    ultimately show ?thesis using last ys(1) size
      by (simp add: remove_pq_def Let_def q0_def q'_def)
  qed
  have "length ys = length t" using ys(2) mz by (metis size_mset)
  moreover have "length t + 1 + length rest = NPROC" using wf by (simp add: pq_wf_def holds)
  ultimately have lens: "length ys = length t" "length t + 1 + length rest = NPROC" by auto
  then have "pq_wf tc q' \<and> pq_list q' = ys"
    by (intro pq_wfI[where rest = "Some l # rest"]) (simp_all add: q'_def q0_def ys(3))
  moreover have "tc x \<le> tc r" if r: "r \<in> set (x # t)" for r
  proof -
    have "heap tc (x # t)" using wf xt by (simp add: pq_wf_def)
    from r obtain j where "j < length (x # t)" "(x # t) ! j = r" by (auto simp only: in_set_conv_nth)
    with heap_min[OF \<open>heap tc (x # t)\<close>, of j] show ?thesis by simp
  qed
  ultimately show ?thesis
    using remove ys(2) mz(1) xt by auto
qed

end
