(* ===== verification/Mlq_Queue.thy ===== *)
theory Mlq_Queue
  imports Fcfs_Queue
begin

text \<open>
  The multilevel run queue of \<open>proc.c\<close> (MLQ and DMLQ): one ring buffer of process pointers
  per priority level. The operations keep the index arithmetic of the code, C's truncated
  \<open>%\<close> included; the lemmas show that each level is a FIFO queue, and what \<open>swapque\<close> does to
  a level that wraps around the end of its array.
\<close>

section \<open>State and operations\<close>

definition NUMPR :: nat where
  "NUMPR = 3"

definition HIPR :: int where "HIPR = 1"
definition MDPR :: int where "MDPR = 2"
definition LWPR :: int where "LWPR = 3"

record multiqueue =
  mq_start :: "int list"
  mq_end :: "int list"
  mq_proc :: "nat option list list"

text \<open>\<open>(i + 1) % (NPROC + 1)\<close>\<close>

definition ring_next :: "int \<Rightarrow> int" where
  "ring_next i = (i + 1) smod (int NPROC + 1)"

definition isempty :: "int \<Rightarrow> multiqueue \<Rightarrow> bool option" where
  "isempty priority q = do {
     s \<leftarrow> aget (mq_start q) (priority - 1);
     e \<leftarrow> aget (mq_end q) (priority - 1);
     Some (s = e) }"

definition enque :: "int \<Rightarrow> nat option \<Rightarrow> multiqueue \<Rightarrow> multiqueue option" where
  "enque priority p q = do {
     let qindex = priority - 1;
     e \<leftarrow> aget (mq_end q) qindex;
     s \<leftarrow> aget (mq_start q) qindex;
     if ring_next e = s then Some q
     else do {
       row \<leftarrow> aget (mq_proc q) qindex;
       row' \<leftarrow> aset row e p;
       rows \<leftarrow> aset (mq_proc q) qindex row';
       ends \<leftarrow> aset (mq_end q) qindex (ring_next e);
       Some (q\<lparr>mq_proc := rows, mq_end := ends\<rparr>) } }"

definition deque :: "int \<Rightarrow> multiqueue \<Rightarrow> (nat option \<times> multiqueue) option" where
  "deque priority q = do {
     let qindex = priority - 1;
     s \<leftarrow> aget (mq_start q) qindex;
     e \<leftarrow> aget (mq_end q) qindex;
     if s = e then Some (None, q)
     else do {
       row \<leftarrow> aget (mq_proc q) qindex;
       p \<leftarrow> aget row s;
       starts \<leftarrow> aset (mq_start q) qindex (ring_next s);
       Some (p, q\<lparr>mq_start := starts\<rparr>) } }"

text \<open>
  The search loop of \<open>swapque\<close>. It changes nothing until it finds the process, so it visits
  the \<open>NPROC + 1\<close> slots in turn: a search still running after \<open>NPROC + 2\<close> tests runs forever.
  \<open>None\<close> is that, or an access through a null pointer or outside the row.
\<close>

fun find_pid :: "nat \<Rightarrow> (nat \<Rightarrow> u32) \<Rightarrow> nat option list \<Rightarrow> int \<Rightarrow> int \<Rightarrow> u32 \<Rightarrow> int option option" where
  "find_pid 0 pidf row i e pid = None"
| "find_pid (Suc n) pidf row i e pid =
     (if i = e then Some None
      else do {
        x \<leftarrow> aget row i;
        p \<leftarrow> x;
        if pidf p = pid then Some (Some i)
        else find_pid n pidf row (ring_next i) e pid })"

text \<open>The inner loop: \<open>proc[qindex1][j - 1] = proc[qindex1][j]\<close> up to \<open>end\<close>.\<close>

fun shift_row :: "nat \<Rightarrow> nat option list \<Rightarrow> int \<Rightarrow> int \<Rightarrow> nat option list option" where
  "shift_row 0 row j e = None"
| "shift_row (Suc n) row j e =
     (if j = e then Some row
      else do {
        x \<leftarrow> aget row j;
        row' \<leftarrow> aset row (j - 1) x;
        shift_row n row' (ring_next j) e })"

definition swapque :: "(nat \<Rightarrow> u32) \<Rightarrow> int \<Rightarrow> int \<Rightarrow> u32 \<Rightarrow> multiqueue \<Rightarrow> multiqueue option" where
  "swapque pidf priority1 priority2 pid q = do {
     let qindex1 = priority1 - 1;
     s \<leftarrow> aget (mq_start q) qindex1;
     e \<leftarrow> aget (mq_end q) qindex1;
     row \<leftarrow> aget (mq_proc q) qindex1;
     found \<leftarrow> find_pid (NPROC + 2) pidf row s e pid;
     (p, row') \<leftarrow> (case found of
         None \<Rightarrow> Some (None, row)
       | Some i \<Rightarrow> do {
           p \<leftarrow> aget row i;
           row' \<leftarrow> shift_row (NPROC + 2) row (ring_next i) e;
           Some (p, row') });
     rows \<leftarrow> aset (mq_proc q) qindex1 row';
     ends \<leftarrow> aset (mq_end q) qindex1 ((e - 1) smod (int NPROC + 1));
     let q' = q\<lparr>mq_proc := rows, mq_end := ends\<rparr>;
     if p \<noteq> None then enque priority2 p q' else Some q' }"

section \<open>A level as a list\<close>

definition ring_len :: "int \<Rightarrow> int \<Rightarrow> nat" where
  "ring_len s e = nat ((e - s) mod (int NPROC + 1))"

definition ring_list :: "'a option list \<Rightarrow> int \<Rightarrow> int \<Rightarrow> 'a list" where
  "ring_list row s e =
     map (\<lambda>k. the (row ! nat ((s + int k) mod (int NPROC + 1)))) [0..<ring_len s e]"

definition ring_wf :: "'a option list \<Rightarrow> int \<Rightarrow> int \<Rightarrow> bool" where
  "ring_wf row s e \<longleftrightarrow> length row = NPROC + 1 \<and> 0 \<le> s \<and> s \<le> int NPROC \<and> 0 \<le> e \<and> e \<le> int NPROC \<and>
     (\<forall>k < ring_len s e. row ! nat ((s + int k) mod (int NPROC + 1)) \<noteq> None)"

definition mq_list :: "int \<Rightarrow> multiqueue \<Rightarrow> nat list" where
  "mq_list pr q = ring_list (mq_proc q ! nat (pr - 1)) (mq_start q ! nat (pr - 1)) (mq_end q ! nat (pr - 1))"

definition mq_wf :: "multiqueue \<Rightarrow> bool" where
  "mq_wf q \<longleftrightarrow> length (mq_start q) = NUMPR \<and> length (mq_end q) = NUMPR \<and> length (mq_proc q) = NUMPR \<and>
     (\<forall>l < NUMPR. ring_wf (mq_proc q ! l) (mq_start q ! l) (mq_end q ! l))"

definition valid_pr :: "int \<Rightarrow> bool" where
  "valid_pr pr \<longleftrightarrow> HIPR \<le> pr \<and> pr \<le> LWPR"

definition mq_init :: multiqueue where
  "mq_init = \<lparr>mq_start = replicate NUMPR 0, mq_end = replicate NUMPR 0,
     mq_proc = replicate NUMPR (replicate (NPROC + 1) None)\<rparr>"

lemma mq_init_wf [simp]: "mq_wf mq_init"
  by (simp add: mq_wf_def mq_init_def ring_wf_def ring_len_def)

lemma mq_init_list [simp]: "valid_pr pr \<Longrightarrow> mq_list pr mq_init = []"
  by (simp add: mq_list_def mq_init_def ring_list_def ring_len_def valid_pr_def
      HIPR_def LWPR_def NUMPR_def)

section \<open>Ring arithmetic\<close>

lemma ring_next_eq: "0 \<le> i \<Longrightarrow> i \<le> int NPROC \<Longrightarrow> ring_next i = (if i = int NPROC then 0 else i + 1)"
  by (simp add: ring_next_def signed_modulo_int_def NPROC_def)

lemma ring_next_range: "0 \<le> i \<Longrightarrow> i \<le> int NPROC \<Longrightarrow> 0 \<le> ring_next i \<and> ring_next i \<le> int NPROC"
  by (simp add: ring_next_eq)

lemma ring_len_eq:
  assumes "0 \<le> s" "s \<le> int NPROC" "0 \<le> e" "e \<le> int NPROC"
  shows "ring_len s e = (if s \<le> e then nat (e - s) else nat (e - s + int NPROC + 1))"
proof (cases "s \<le> e")
  case True
  then have "(e - s) mod (int NPROC + 1) = e - s" using assms by (intro mod_pos_pos_trivial) auto
  then show ?thesis using True by (simp add: ring_len_def)
next
  case False
  have "(e - s) mod (int NPROC + 1) = (e - s + (int NPROC + 1)) mod (int NPROC + 1)" by simp
  also have "\<dots> = e - s + (int NPROC + 1)" using assms False by (intro mod_pos_pos_trivial) auto
  finally show ?thesis using False by (simp add: ring_len_def)
qed

lemma ring_index_eq:
  assumes "0 \<le> s" "s \<le> int NPROC" "k \<le> NPROC"
  shows "(s + int k) mod (int NPROC + 1) =
           (if s + int k \<le> int NPROC then s + int k else s + int k - int NPROC - 1)"
proof (cases "s + int k \<le> int NPROC")
  case True
  then show ?thesis using assms by (simp add: mod_pos_pos_trivial)
next
  case False
  have "(s + int k) mod (int NPROC + 1) = (s + int k - (int NPROC + 1)) mod (int NPROC + 1)"
    by (simp add: mod_diff_right_eq[symmetric])
  also have "\<dots> = s + int k - (int NPROC + 1)" using assms False by (intro mod_pos_pos_trivial) auto
  finally show ?thesis using False by simp
qed

lemma ring_len_le: "ring_len s e \<le> NPROC"
proof -
  have "(e - s) mod (int NPROC + 1) < int NPROC + 1" by (intro pos_mod_bound) simp
  then show ?thesis by (simp add: ring_len_def nat_le_iff)
qed

lemma ring_list_length [simp]: "length (ring_list row s e) = ring_len s e"
  by (simp add: ring_list_def)

lemma ring_list_nth:
  "k < ring_len s e \<Longrightarrow> ring_list row s e ! k = the (row ! nat ((s + int k) mod (int NPROC + 1)))"
  by (simp add: ring_list_def)

lemma ring_index_end:
  assumes "0 \<le> s" "s \<le> int NPROC" "0 \<le> e" "e \<le> int NPROC"
  shows "(s + int (ring_len s e)) mod (int NPROC + 1) = e"
  using assms by (auto simp: ring_len_eq ring_index_eq)

lemma ring_index_ne:
  assumes "0 \<le> s" "s \<le> int NPROC" "0 \<le> e" "e \<le> int NPROC" "k < ring_len s e"
  shows "(s + int k) mod (int NPROC + 1) \<noteq> e"
proof -
  have "k \<le> NPROC" using assms(5) ring_len_le[of s e] by simp
  with assms show ?thesis by (auto simp: ring_len_eq ring_index_eq split: if_splits)
qed

lemma ring_index_range:
  "0 \<le> (s + int k) mod (int NPROC + 1)" "(s + int k) mod (int NPROC + 1) \<le> int NPROC"
proof -
  show "0 \<le> (s + int k) mod (int NPROC + 1)" by (rule pos_mod_sign) simp
  have "(s + int k) mod (int NPROC + 1) < int NPROC + 1" by (rule pos_mod_bound) simp
  then show "(s + int k) mod (int NPROC + 1) \<le> int NPROC" by simp
qed

lemma ring_full_iff:
  assumes "0 \<le> s" "s \<le> int NPROC" "0 \<le> e" "e \<le> int NPROC"
  shows "ring_next e = s \<longleftrightarrow> ring_len s e = NPROC"
  using assms by (auto simp: ring_len_eq ring_next_eq split: if_splits)

lemma ring_empty_iff:
  assumes "0 \<le> s" "s \<le> int NPROC" "0 \<le> e" "e \<le> int NPROC"
  shows "s = e \<longleftrightarrow> ring_len s e = 0"
  using assms by (auto simp: ring_len_eq split: if_splits)

lemma ring_len_next_end:
  assumes "0 \<le> s" "s \<le> int NPROC" "0 \<le> e" "e \<le> int NPROC" "ring_len s e < NPROC"
  shows "ring_len s (ring_next e) = Suc (ring_len s e)"
proof -
  have "0 \<le> ring_next e" "ring_next e \<le> int NPROC" using ring_next_range assms by auto
  with assms show ?thesis
    by (auto simp: ring_len_eq ring_next_eq split: if_splits)
qed

lemma ring_len_next_start:
  assumes "0 \<le> s" "s \<le> int NPROC" "0 \<le> e" "e \<le> int NPROC" "s \<noteq> e"
  shows "ring_len s e = Suc (ring_len (ring_next s) e)"
proof -
  have "0 \<le> ring_next s" "ring_next s \<le> int NPROC" using ring_next_range assms by auto
  with assms show ?thesis
    by (auto simp: ring_len_eq ring_next_eq split: if_splits)
qed

lemma ring_index_next:
  assumes "0 \<le> s" "s \<le> int NPROC"
  shows "(ring_next s + int k) mod (int NPROC + 1) = (s + int (Suc k)) mod (int NPROC + 1)"
proof (cases "s = int NPROC")
  case True
  then have "ring_next s = 0" "s + int (Suc k) = int k + (int NPROC + 1)"
    by (simp_all add: ring_next_eq)
  then show ?thesis by (simp only: mod_add_self2 add_0)
next
  case False
  with assms have "ring_next s + int k = s + int (Suc k)" by (simp add: ring_next_eq)
  then show ?thesis by (simp only:)
qed

text \<open>Writing the slot at \<open>end\<close> and advancing \<open>end\<close> appends; advancing \<open>start\<close> drops the first.\<close>

lemma ring_enque:
  assumes wf: "ring_wf row s e" and room: "ring_len s e < NPROC"
  shows "ring_wf (row[nat e := Some p]) s (ring_next e)"
    and "ring_list (row[nat e := Some p]) s (ring_next e) = ring_list row s e @ [p]"
proof -
  have r: "0 \<le> s" "s \<le> int NPROC" "0 \<le> e" "e \<le> int NPROC" "length row = NPROC + 1"
    using wf by (auto simp: ring_wf_def)
  note len = ring_len_next_end[OF r(1-4) room]
  have old: "row[nat e := Some p] ! nat ((s + int k) mod (int NPROC + 1)) =
      row ! nat ((s + int k) mod (int NPROC + 1))" if "k < ring_len s e" for k
    using ring_index_ne[OF r(1-4) that] ring_index_range(1)[of s k] r
    by (simp add: nat_eq_iff2 nth_list_update)
  have new: "row[nat e := Some p] ! nat ((s + int (ring_len s e)) mod (int NPROC + 1)) = Some p"
    using ring_index_end[OF r(1-4)] r by simp
  show "ring_wf (row[nat e := Some p]) s (ring_next e)"
    unfolding ring_wf_def len
  proof (intro conjI allI impI)
    fix k assume "k < Suc (ring_len s e)"
    then consider "k < ring_len s e" | "k = ring_len s e" by linarith
    then show "row[nat e := Some p] ! nat ((s + int k) mod (int NPROC + 1)) \<noteq> None"
      by cases (use old new wf in \<open>auto simp: ring_wf_def\<close>)
  qed (use r ring_next_range in auto)
  show "ring_list (row[nat e := Some p]) s (ring_next e) = ring_list row s e @ [p]"
    using new by (simp add: ring_list_def len old cong: map_cong)
qed

lemma ring_deque:
  assumes wf: "ring_wf row s e" and ne: "s \<noteq> e"
  shows "ring_wf row (ring_next s) e"
    and "row ! nat s = Some (hd (ring_list row s e))"
    and "ring_list row (ring_next s) e = tl (ring_list row s e)"
    and "ring_list row s e \<noteq> []"
proof -
  have r: "0 \<le> s" "s \<le> int NPROC" "0 \<le> e" "e \<le> int NPROC" "length row = NPROC + 1"
    using wf by (auto simp: ring_wf_def)
  note len = ring_len_next_start[OF r(1-4) ne]
  have k: "(ring_next s + int k) mod (int NPROC + 1) = (s + int (Suc k)) mod (int NPROC + 1)"
    if "k < ring_len (ring_next s) e" for k
    using ring_index_next[OF r(1,2)] by simp
  have some: "row ! nat ((s + int k) mod (int NPROC + 1)) \<noteq> None" if "k < ring_len s e" for k
    using wf that by (simp add: ring_wf_def)
  have zero: "(s + int 0) mod (int NPROC + 1) = s" using r by (subst ring_index_eq) auto
  have "[0..<ring_len s e] = 0 # map Suc [0..<ring_len (ring_next s) e]"
    unfolding len by (simp add: upt_conv_Cons map_Suc_upt del: upt_Suc)
  with zero have first: "ring_list row s e = the (row ! nat s) # ring_list row (ring_next s) e"
    by (simp add: ring_list_def k comp_def cong: map_cong)
  have "row ! nat ((s + int 0) mod (int NPROC + 1)) \<noteq> None"
    by (rule some) (simp add: len)
  with first zero show "row ! nat s = Some (hd (ring_list row s e))" by auto
  from first show "ring_list row (ring_next s) e = tl (ring_list row s e)"
    and "ring_list row s e \<noteq> []" by auto
  have "row ! nat ((ring_next s + int j) mod (int NPROC + 1)) \<noteq> None"
    if "j < ring_len (ring_next s) e" for j
    unfolding k[OF that] by (rule some) (simp add: len that)
  then show "ring_wf row (ring_next s) e"
    using wf ring_next_range[OF r(1,2)] by (simp add: ring_wf_def)
qed

section \<open>The FIFO contract\<close>

text \<open>
  The contract of one level of the run queue: a bounded FIFO of process pointers. \<open>wf\<close> is the
  data structure's invariant, \<open>lst\<close> its contents in order.
\<close>

locale fifo_queue =
  fixes wf :: "'q \<Rightarrow> bool"
    and lst :: "'q \<Rightarrow> 'a list"
    and enq :: "'a \<Rightarrow> 'q \<Rightarrow> 'q option"
    and deq :: "'q \<Rightarrow> ('a option \<times> 'q) option"
    and cap :: nat
  assumes enq_room: "wf q \<Longrightarrow> length (lst q) < cap \<Longrightarrow>
      \<exists>q'. enq x q = Some q' \<and> wf q' \<and> lst q' = lst q @ [x]"
    and enq_full: "wf q \<Longrightarrow> length (lst q) = cap \<Longrightarrow> enq x q = Some q"
    and deq_empty: "wf q \<Longrightarrow> lst q = [] \<Longrightarrow> deq q = Some (None, q)"
    and deq_some: "wf q \<Longrightarrow> lst q \<noteq> [] \<Longrightarrow>
      \<exists>q'. deq q = Some (Some (hd (lst q)), q') \<and> wf q' \<and> lst q' = tl (lst q)"
begin

text \<open>Adding a batch, and draining: the elements come out in the order they went in.\<close>

primrec enq_all :: "'a list \<Rightarrow> 'q \<Rightarrow> 'q option" where
  "enq_all [] q = Some q"
| "enq_all (x # xs) q = Option.bind (enq x q) (enq_all xs)"

primrec drain :: "nat \<Rightarrow> 'q \<Rightarrow> ('a list \<times> 'q) option" where
  "drain 0 q = Some ([], q)"
| "drain (Suc n) q = Option.bind (deq q) (\<lambda>(r, q'). case r of
      None \<Rightarrow> Some ([], q')
    | Some x \<Rightarrow> Option.bind (drain n q') (\<lambda>(xs, q''). Some (x # xs, q'')))"

lemma enq_all_lst:
  "wf q \<Longrightarrow> length (lst q) + length xs \<le> cap \<Longrightarrow>
     \<exists>q'. enq_all xs q = Some q' \<and> wf q' \<and> lst q' = lst q @ xs"
proof (induction xs arbitrary: q)
  case (Cons x xs)
  obtain q1 where q1: "enq x q = Some q1" "wf q1" "lst q1 = lst q @ [x]"
    using enq_room[of q x] Cons.prems by auto
  with Cons.IH[of q1] Cons.prems show ?case by auto
qed simp

lemma drain_lst:
  "wf q \<Longrightarrow> n \<le> length (lst q) \<Longrightarrow>
     \<exists>q'. drain n q = Some (take n (lst q), q') \<and> wf q' \<and> lst q' = drop n (lst q)"
proof (induction n arbitrary: q)
  case (Suc n)
  then obtain x t where xt: "lst q = x # t" by (cases "lst q") auto
  obtain q1 where q1: "deq q = Some (Some x, q1)" "wf q1" "lst q1 = t"
    using deq_some[of q] Suc.prems xt by auto
  with Suc.IH[of q1] Suc.prems xt show ?case by auto
qed simp

lemma fifo_order:
  assumes "wf q" "lst q = []" "length xs \<le> cap"
  shows "\<exists>q' q''. enq_all xs q = Some q' \<and> drain (length xs) q' = Some (xs, q'') \<and> lst q'' = []"
proof -
  obtain q' where q': "enq_all xs q = Some q'" "wf q'" "lst q' = xs"
    using enq_all_lst[of q xs] assms by auto
  with drain_lst[of q' "length xs"] show ?thesis by auto
qed

end

section \<open>The levels satisfy the contract\<close>

lemma valid_pr_level:
  assumes "valid_pr pr" "mq_wf q"
  shows "nat (pr - 1) < length (mq_start q)" "nat (pr - 1) < length (mq_end q)"
    "nat (pr - 1) < length (mq_proc q)" "0 \<le> pr - 1"
    "ring_wf (mq_proc q ! nat (pr - 1)) (mq_start q ! nat (pr - 1)) (mq_end q ! nat (pr - 1))"
  using assms by (auto simp: valid_pr_def HIPR_def LWPR_def NUMPR_def mq_wf_def)

lemma aget_level: "0 \<le> i \<Longrightarrow> nat i < length xs \<Longrightarrow> aget xs i = Some (xs ! nat i)"
  by (simp add: aget_def)

lemma aset_level: "0 \<le> i \<Longrightarrow> nat i < length xs \<Longrightarrow> aset xs i v = Some (xs[nat i := v])"
  by (simp add: aset_def)

lemma mq_list_length: "length (mq_list pr q) \<le> NPROC"
  by (simp add: mq_list_def ring_len_le)

lemma isempty_correct:
  assumes "valid_pr pr" "mq_wf q"
  shows "isempty pr q = Some (mq_list pr q = [])"
proof -
  note l = valid_pr_level[OF assms]
  have "mq_start q ! nat (pr - 1) = mq_end q ! nat (pr - 1) \<longleftrightarrow> mq_list pr q = []"
    using l(5) ring_empty_iff by (auto simp: mq_list_def ring_wf_def ring_list_def)
  then show ?thesis using l by (simp add: isempty_def aget_level)
qed

lemma enque_room:
  assumes v: "valid_pr pr" and wf: "mq_wf q" and room: "length (mq_list pr q) < NPROC"
  shows "\<exists>q'. enque pr (Some p) q = Some q' \<and> mq_wf q' \<and> mq_list pr q' = mq_list pr q @ [p] \<and>
           (\<forall>pr'. valid_pr pr' \<longrightarrow> pr' \<noteq> pr \<longrightarrow> mq_list pr' q' = mq_list pr' q)"
proof -
  note l = valid_pr_level[OF v wf]
  let ?n = "nat (pr - 1)"
  let ?s = "mq_start q ! ?n" and ?e = "mq_end q ! ?n" and ?row = "mq_proc q ! ?n"
  have e: "0 \<le> ?e" "nat ?e < length ?row" using l(5) by (auto simp: ring_wf_def)
  have len: "ring_len ?s ?e < NPROC" using room by (simp add: mq_list_def)
  then have next_ne: "ring_next ?e \<noteq> ?s" using l(5) ring_full_iff by (auto simp: ring_wf_def)
  define q' where "q' = q\<lparr>mq_proc := (mq_proc q)[?n := ?row[nat ?e := Some p]],
      mq_end := (mq_end q)[?n := ring_next ?e]\<rparr>"
  have "enque pr (Some p) q = Some q'"
    using l e next_ne by (simp add: enque_def aget_level aset_level q'_def Let_def)
  moreover note ring = ring_enque[OF l(5) len, of p]
  have "mq_wf q'"
    using wf ring(1) l by (simp add: mq_wf_def q'_def nth_list_update)
  moreover have "mq_list pr q' = mq_list pr q @ [p]"
    using ring(2) l by (simp add: mq_list_def q'_def)
  moreover have "mq_list pr' q' = mq_list pr' q" if "valid_pr pr'" "pr' \<noteq> pr" for pr'
    using that v by (auto simp: mq_list_def q'_def valid_pr_def HIPR_def nat_eq_iff2)
  ultimately show ?thesis by blast
qed

lemma enque_full:
  assumes v: "valid_pr pr" and wf: "mq_wf q" and full: "length (mq_list pr q) = NPROC"
  shows "enque pr p q = Some q"
proof -
  note l = valid_pr_level[OF v wf]
  have "ring_next (mq_end q ! nat (pr - 1)) = mq_start q ! nat (pr - 1)"
    using l(5) full ring_full_iff by (auto simp: ring_wf_def mq_list_def)
  then show ?thesis using l by (simp add: enque_def aget_level Let_def)
qed

lemma deque_empty:
  assumes v: "valid_pr pr" and wf: "mq_wf q" and "mq_list pr q = []"
  shows "deque pr q = Some (None, q)"
  using isempty_correct[OF v wf] assms(3) valid_pr_level[OF v wf]
  by (simp add: isempty_def deque_def aget_level Let_def)

lemma deque_some:
  assumes v: "valid_pr pr" and wf: "mq_wf q" and ne: "mq_list pr q \<noteq> []"
  shows "\<exists>q'. deque pr q = Some (Some (hd (mq_list pr q)), q') \<and> mq_wf q' \<and>
           mq_list pr q' = tl (mq_list pr q) \<and>
           (\<forall>pr'. valid_pr pr' \<longrightarrow> pr' \<noteq> pr \<longrightarrow> mq_list pr' q' = mq_list pr' q)"
proof -
  note l = valid_pr_level[OF v wf]
  let ?n = "nat (pr - 1)"
  let ?s = "mq_start q ! ?n" and ?e = "mq_end q ! ?n" and ?row = "mq_proc q ! ?n"
  have s: "0 \<le> ?s" "nat ?s < length ?row" using l(5) by (auto simp: ring_wf_def)
  have se: "?s \<noteq> ?e" using isempty_correct[OF v wf] ne l by (simp add: isempty_def aget_level)
  note ring = ring_deque[OF l(5) se]
  define q' where "q' = q\<lparr>mq_start := (mq_start q)[?n := ring_next ?s]\<rparr>"
  have "deque pr q = Some (Some (hd (mq_list pr q)), q')"
    using l s se ring(2) by (simp add: deque_def aget_level aset_level q'_def Let_def mq_list_def)
  moreover have "mq_wf q'"
    using wf ring(1) l by (simp add: mq_wf_def q'_def nth_list_update)
  moreover have "mq_list pr q' = tl (mq_list pr q)"
    using ring(3) l by (simp add: mq_list_def q'_def)
  moreover have "mq_list pr' q' = mq_list pr' q" if "valid_pr pr'" "pr' \<noteq> pr" for pr'
    using that v by (auto simp: mq_list_def q'_def valid_pr_def HIPR_def nat_eq_iff2)
  ultimately show ?thesis by blast
qed

lemma fifo_level:
  assumes "valid_pr pr"
  shows "fifo_queue mq_wf (mq_list pr) (\<lambda>p. enque pr (Some p)) (deque pr) NPROC"
  using assms enque_room enque_full deque_empty deque_some
  by unfold_locales blast+

lemma valid_levels [simp]: "valid_pr HIPR" "valid_pr MDPR" "valid_pr LWPR"
  by (simp_all add: valid_pr_def HIPR_def MDPR_def LWPR_def)

interpretation hi: fifo_queue mq_wf "mq_list HIPR" "\<lambda>p. enque HIPR (Some p)" "deque HIPR" NPROC
  by (rule fifo_level) simp

interpretation md: fifo_queue mq_wf "mq_list MDPR" "\<lambda>p. enque MDPR (Some p)" "deque MDPR" NPROC
  by (rule fifo_level) simp

interpretation lw: fifo_queue mq_wf "mq_list LWPR" "\<lambda>p. enque LWPR (Some p)" "deque LWPR" NPROC
  by (rule fifo_level) simp

section \<open>swapque\<close>

text \<open>
  On a level that does not wrap around (\<open>start \<le> end\<close>) and holds a process with the pid,
  \<open>swapque\<close> removes the first such process and appends it to the other level.
\<close>

definition mq_straight :: "int \<Rightarrow> multiqueue \<Rightarrow> bool" where
  "mq_straight pr q \<longleftrightarrow> mq_start q ! nat (pr - 1) \<le> mq_end q ! nat (pr - 1)"

lemma ring_straight:
  assumes "ring_wf row s e" "s \<le> e"
  shows "ring_len s e = nat (e - s)"
    and "k < nat (e - s) \<Longrightarrow> (s + int k) mod (int NPROC + 1) = s + int k"
  using assms by (auto simp: ring_len_eq ring_wf_def intro!: mod_pos_pos_trivial)

lemma ring_straight_nth:
  assumes "ring_wf row s e" "s \<le> i" "i < e"
  shows "row ! nat i = Some (ring_list row s e ! nat (i - s))"
proof -
  have r: "nat (i - s) < ring_len s e" "(s + int (nat (i - s))) mod (int NPROC + 1) = i"
    using assms ring_straight(1)[of row s e] ring_straight(2)[of row s e "nat (i - s)"] by auto
  then have "row ! nat i \<noteq> None" using assms(1) unfolding ring_wf_def by metis
  then show ?thesis using ring_list_nth[OF r(1), of row] r(2) by simp
qed

lemma find_pid_hit:
  assumes "length row = NPROC + 1" "0 \<le> i" "i \<le> t" "t \<le> int NPROC" "nat (t - i) < n"
    "\<And>j. i \<le> j \<Longrightarrow> j \<le> t \<Longrightarrow> j \<noteq> e \<and> row ! nat j \<noteq> None"
    "\<And>j. i \<le> j \<Longrightarrow> j < t \<Longrightarrow> pidf (the (row ! nat j)) \<noteq> pid"
    "pidf (the (row ! nat t)) = pid"
  shows "find_pid n pidf row i e pid = Some (Some t)"
  using assms
proof (induction n arbitrary: i)
  case (Suc n)
  have i: "i \<noteq> e" "row ! nat i \<noteq> None" using Suc.prems(3,6) by auto
  have row: "aget row i = Some (row ! nat i)" using Suc.prems by (simp add: aget_level)
  show ?case
  proof (cases "i = t")
    case True
    then show ?thesis using i row Suc.prems(8) by auto
  next
    case False
    then have it: "i < t" using Suc.prems(3) by simp
    then have "ring_next i = i + 1" using Suc.prems by (simp add: ring_next_eq)
    moreover have "find_pid n pidf row (i + 1) e pid = Some (Some t)"
      by (rule Suc.IH) (use Suc.prems it in auto)
    ultimately show ?thesis using i row Suc.prems(7)[of i] it by auto
  qed
qed simp

lemma find_pid_miss:
  assumes "length row = NPROC + 1" "0 \<le> i" "i \<le> e" "e \<le> int NPROC" "nat (e - i) < n"
    "\<And>j. i \<le> j \<Longrightarrow> j < e \<Longrightarrow> row ! nat j \<noteq> None \<and> pidf (the (row ! nat j)) \<noteq> pid"
  shows "find_pid n pidf row i e pid = Some None"
  using assms
proof (induction n arbitrary: i)
  case (Suc n)
  show ?case
  proof (cases "i = e")
    case False
    then have ie: "i < e" using Suc.prems by simp
    have "aget row i = Some (row ! nat i)" using Suc.prems ie by (simp add: aget_level)
    moreover have "ring_next i = i + 1" using Suc.prems ie by (simp add: ring_next_eq)
    moreover have "find_pid n pidf row (i + 1) e pid = Some None"
      by (rule Suc.IH) (use Suc.prems ie in auto)
    ultimately show ?thesis using Suc.prems(6)[of i] ie by auto
  qed simp
qed simp

text \<open>The inner loop moves every entry of \<open>[j, e)\<close> one slot down.\<close>

lemma shift_row_straight:
  assumes "length row = NPROC + 1" "0 < j" "j \<le> e" "e \<le> int NPROC" "nat (e - j) < n"
  shows "\<exists>row'. shift_row n row j e = Some row' \<and> length row' = NPROC + 1 \<and>
           (\<forall>k. row' ! k = (if j - 1 \<le> int k \<and> int k < e - 1 then row ! Suc k else row ! k))"
  using assms
proof (induction n arbitrary: j row)
  case (Suc n)
  show ?case
  proof (cases "j = e")
    case False
    then have je: "j < e" using Suc.prems by simp
    define row1 where "row1 = row[nat (j - 1) := row ! nat j]"
    have "aget row j = Some (row ! nat j)" "aset row (j - 1) (row ! nat j) = Some row1"
      "ring_next j = j + 1"
      using Suc.prems je by (simp_all add: aget_level aset_level ring_next_eq row1_def)
    moreover have fuel: "nat (e - (j + 1)) < n" using Suc.prems(5) je by linarith
    moreover obtain row' where row': "shift_row n row1 (j + 1) e = Some row'"
        "length row' = NPROC + 1"
        "\<forall>k. row' ! k = (if j \<le> int k \<and> int k < e - 1 then row1 ! Suc k else row1 ! k)"
      using Suc.IH[of row1 "j + 1"] Suc.prems je fuel by (auto simp: row1_def)
    moreover have "row' ! k = (if j - 1 \<le> int k \<and> int k < e - 1 then row ! Suc k else row ! k)" for k
    proof -
      have "row1 ! m = (if int m = j - 1 then row ! Suc m else row ! m)" for m
      proof (cases "int m = j - 1")
        case True
        then have "nat j = Suc m" "nat (j - 1) = m" by linarith+
        with True show ?thesis using Suc.prems je by (simp add: row1_def)
      next
        case False
        then have "nat (j - 1) \<noteq> m" using Suc.prems by auto
        with False show ?thesis by (simp add: row1_def)
      qed
      then show ?thesis using row'(3) je by auto
    qed
    ultimately show ?thesis using False by auto
  qed (use Suc.prems in auto)
qed simp

lemma ring_list_straight:
  assumes "ring_wf row s e" "s \<le> e"
  shows "ring_list row s e = map (\<lambda>k. the (row ! (nat s + k))) [0..<nat (e - s)]"
proof -
  have "nat ((s + int k) mod (int NPROC + 1)) = nat s + k" if "k < nat (e - s)" for k
    using ring_straight(2)[OF assms that] assms(1) by (simp add: ring_wf_def nat_add_distrib)
  then show ?thesis
    using ring_straight(1)[OF assms] by (simp add: ring_list_def cong: map_cong)
qed

text \<open>Removing the entry at \<open>t\<close> from a straight ring by shifting the rest down.\<close>

lemma ring_remove:
  assumes wf: "ring_wf row s e" and t: "s \<le> t" "t < e"
    and len: "length row' = NPROC + 1"
    and row': "\<forall>k. row' ! k = (if t \<le> int k \<and> int k < e - 1 then row ! Suc k else row ! k)"
  shows "ring_wf row' s (e - 1)"
    and "ring_list row' s (e - 1) =
      take (nat (t - s)) (ring_list row s e) @ drop (Suc (nat (t - s))) (ring_list row s e)"
proof -
  have r: "0 \<le> s" "s \<le> int NPROC" "0 \<le> e" "e \<le> int NPROC" using wf by (auto simp: ring_wf_def)
  have some: "row ! k \<noteq> None" if "nat s \<le> k" "k < nat e" for k
    using ring_straight_nth[OF wf, of "int k"] that by auto
  have some': "row' ! (nat s + k) \<noteq> None" if "k < nat (e - 1 - s)" for k
    using row' some[of "nat s + k"] some[of "Suc (nat s + k)"] that r t by auto
  show wf': "ring_wf row' s (e - 1)"
    unfolding ring_wf_def
  proof (intro conjI allI impI)
    fix k assume "k < ring_len s (e - 1)"
    then have k: "k < nat (e - 1 - s)" using r t by (simp add: ring_len_eq)
    have "(s + int k) mod (int NPROC + 1) = s + int k"
      using r t k by (subst ring_index_eq) auto
    then have "nat ((s + int k) mod (int NPROC + 1)) = nat s + k"
      using r by (simp add: nat_add_distrib)
    then show "row' ! nat ((s + int k) mod (int NPROC + 1)) \<noteq> None" using some'[OF k] by (simp only:) simp
  qed (use r t len in auto)
  have "s \<le> e - 1" "s \<le> e" using t by auto
  note lists = ring_list_straight[OF wf' this(1)] ring_list_straight[OF wf this(2)]
  show "ring_list row' s (e - 1) =
      take (nat (t - s)) (ring_list row s e) @ drop (Suc (nat (t - s))) (ring_list row s e)"
  proof (rule nth_equalityI)
    show "length (ring_list row' s (e - 1)) =
        length (take (nat (t - s)) (ring_list row s e) @ drop (Suc (nat (t - s))) (ring_list row s e))"
      using t by (simp add: lists)
  next
    fix k assume "k < length (ring_list row' s (e - 1))"
    then have k: "k < nat (e - 1 - s)" by (simp add: lists)
    show "ring_list row' s (e - 1) ! k =
        (take (nat (t - s)) (ring_list row s e) @ drop (Suc (nat (t - s))) (ring_list row s e)) ! k"
      using k t r row' by (auto simp: lists nth_append nat_less_iff)
  qed
qed

lemma swapque_straight:
  assumes v: "valid_pr pr1" "valid_pr pr2" "pr1 \<noteq> pr2" and wf: "mq_wf q"
    and straight: "mq_straight pr1 q"
    and split: "mq_list pr1 q = xs @ p # ys"
    and pid: "pidf p = pid" "\<forall>r \<in> set xs. pidf r \<noteq> pid"
    and room: "length (mq_list pr2 q) < NPROC"
  shows "\<exists>q'. swapque pidf pr1 pr2 pid q = Some q' \<and> mq_wf q' \<and>
           mq_list pr1 q' = xs @ ys \<and> mq_list pr2 q' = mq_list pr2 q @ [p] \<and>
           (\<forall>pr. valid_pr pr \<longrightarrow> pr \<noteq> pr1 \<longrightarrow> pr \<noteq> pr2 \<longrightarrow> mq_list pr q' = mq_list pr q)"
proof -
  note l = valid_pr_level[OF v(1) wf]
  let ?n = "nat (pr1 - 1)"
  define s e row where "s = mq_start q ! ?n" and "e = mq_end q ! ?n" and "row = mq_proc q ! ?n"
  note defs = s_def e_def row_def
  have rwf: "ring_wf row s e" using l(5) by (simp add: defs)
  have r: "0 \<le> s" "s \<le> int NPROC" "0 \<le> e" "e \<le> int NPROC" "length row = NPROC + 1"
    using rwf by (auto simp: ring_wf_def)
  have se: "s \<le> e" using straight by (simp add: mq_straight_def defs)
  have lst: "ring_list row s e = xs @ p # ys" using split by (simp add: mq_list_def defs)
  define t where "t = s + int (length xs)"
  have "ring_len s e = length xs + Suc (length ys)" using lst by (metis ring_list_length length_append length_Cons)
  then have t: "s \<le> t" "t < e" "nat (t - s) = length xs"
    using ring_straight(1)[OF rwf se] by (auto simp: t_def)
  have row_nth: "row ! nat j = Some ((xs @ p # ys) ! nat (j - s))" if "s \<le> j" "j < e" for j
    using ring_straight_nth[OF rwf that] lst by simp
  have found: "find_pid (NPROC + 2) pidf row s e pid = Some (Some t)"
  proof (rule find_pid_hit)
    fix j assume j: "s \<le> j" "j < t"
    then have "nat (j - s) < length xs" using t by linarith
    then have "(xs @ p # ys) ! nat (j - s) \<in> set xs" by (simp add: nth_append)
    then show "pidf (the (row ! nat j)) \<noteq> pid" using row_nth[of j] j t(2) pid(2) by simp
  next
    show "pidf (the (row ! nat t)) = pid" using row_nth[of t] t pid(1) by (simp add: nth_append)
  qed (use r t row_nth in auto)
  have next_t: "ring_next t = t + 1" using r t by (simp add: ring_next_eq)
  obtain row' where row': "shift_row (NPROC + 2) row (t + 1) e = Some row'" "length row' = NPROC + 1"
      "\<forall>k. row' ! k = (if t \<le> int k \<and> int k < e - 1 then row ! Suc k else row ! k)"
  proof -
    have "0 < t + 1" "t + 1 \<le> e" "nat (e - (t + 1)) < NPROC + 2" using r t by linarith+
    from shift_row_straight[OF r(5) this(1,2) r(4) this(3)] that show ?thesis by auto
  qed
  note removed = ring_remove[OF rwf t(1,2) row'(2,3)]
  define q1 where "q1 = q\<lparr>mq_proc := (mq_proc q)[?n := row'], mq_end := (mq_end q)[?n := e - 1]\<rparr>"
  have wf1: "mq_wf q1"
    using wf removed(1) l by (simp add: mq_wf_def q1_def nth_list_update s_def)
  have l1: "mq_list pr1 q1 = xs @ ys"
    using removed(2) lst t l by (simp add: mq_list_def q1_def s_def[symmetric])
  have others: "mq_list pr q1 = mq_list pr q" if "valid_pr pr" "pr \<noteq> pr1" for pr
    using that v by (auto simp: mq_list_def q1_def valid_pr_def HIPR_def nat_eq_iff2)
  have "swapque pidf pr1 pr2 pid q = enque pr2 (Some p) q1"
  proof -
    have "aget row t = Some (Some p)" using row_nth[of t] r t by (simp add: aget_level nth_append)
    moreover have "(e - 1) smod (int NPROC + 1) = e - 1"
      using r t by (simp add: signed_modulo_int_def sgn_if)
    ultimately show ?thesis
      using l found next_t row'(1)
      by (simp add: swapque_def aget_level aset_level Let_def s_def[symmetric] e_def[symmetric]
          row_def[symmetric] q1_def)
  qed
  with enque_room[OF v(2) wf1, of p] others[OF v(2)] room v l1 others
  show ?thesis by auto
qed

text \<open>
  On a level that wraps around, with the process before the wrap, the inner loop writes
  \<open>proc[qindex1][-1]\<close>; if \<open>end\<close> is 0 it does not, but \<open>end\<close> becomes \<open>-1 % 65 = -1\<close>.
\<close>

lemma shift_row_wrapped:
  assumes "length row = NPROC + 1" "0 < e" "j = 0 \<or> e < j" "0 \<le> j" "j \<le> int NPROC"
  shows "shift_row n row j e = None"
  using assms
proof (induction n arbitrary: j row)
  case (Suc n)
  show ?case
  proof (cases "j = 0")
    case False
    moreover have "shift_row n row1 (ring_next j) e = None" if "length row1 = NPROC + 1" for row1
      by (rule Suc.IH) (use Suc.prems that False in \<open>auto simp: ring_next_eq\<close>)
    ultimately show ?thesis using Suc.prems
      by (auto simp: aget_level aset_level)
  qed (use Suc.prems in auto)
qed simp

lemma shift_row_zero:
  assumes "length row = NPROC + 1" "0 \<le> j" "j \<le> int NPROC" "nat (int NPROC - j) + 1 < n"
  shows "\<exists>row'. shift_row n row j 0 = Some row' \<and> length row' = NPROC + 1"
  using assms
proof (induction n arbitrary: j row)
  case (Suc n)
  show ?case
  proof (cases "j = 0")
    case False
    define row1 where "row1 = row[nat (j - 1) := row ! nat j]"
    have "aget row j = Some (row ! nat j)" "aset row (j - 1) (row ! nat j) = Some row1"
      using Suc.prems False by (simp_all add: aget_level aset_level row1_def)
    moreover have "\<exists>row'. shift_row n row1 (ring_next j) 0 = Some row' \<and> length row' = NPROC + 1"
    proof (cases "j = int NPROC")
      case True
      with Suc.prems obtain m where "n = Suc m" by (cases n) auto
      then show ?thesis using True Suc.prems by (simp add: ring_next_eq row1_def)
    next
      case jn: False
      show ?thesis by (rule Suc.IH) (use Suc.prems jn False in \<open>auto simp: row1_def ring_next_eq\<close>)
    qed
    ultimately show ?thesis using False by simp
  qed (use Suc.prems in simp)
qed simp

lemma find_pid_before_wrap:
  assumes wf: "ring_wf row s e" and w: "e < s" "s \<le> t" "t \<le> int NPROC"
    and hit: "pidf (the (row ! nat t)) = pid"
      "\<And>j. s \<le> j \<Longrightarrow> j < t \<Longrightarrow> pidf (the (row ! nat j)) \<noteq> pid"
  shows "find_pid (NPROC + 2) pidf row s e pid = Some (Some t)"
proof (rule find_pid_hit)
  fix j assume j: "s \<le> j" "j \<le> t"
  have r: "0 \<le> s" "s \<le> int NPROC" "0 \<le> e" "e \<le> int NPROC" using wf by (auto simp: ring_wf_def)
  have k: "nat (j - s) < ring_len s e" using r w j by (auto simp: ring_len_eq)
  have "(s + int (nat (j - s))) mod (int NPROC + 1) = j"
    using r w j by (subst ring_index_eq) auto
  then have "row ! nat j \<noteq> None" using wf k unfolding ring_wf_def by metis
  then show "j \<noteq> e \<and> row ! nat j \<noteq> None" using w j by simp
qed (use assms in \<open>auto simp: ring_wf_def\<close>)

lemma swapque_wrapped:
  assumes v: "valid_pr pr1" "valid_pr pr2" "pr1 \<noteq> pr2" and wf: "mq_wf q"
    and w: "mq_end q ! nat (pr1 - 1) < mq_start q ! nat (pr1 - 1)"
      "mq_start q ! nat (pr1 - 1) \<le> t" "t \<le> int NPROC"
    and hit: "pidf (the (mq_proc q ! nat (pr1 - 1) ! nat t)) = pid"
      "\<And>j. mq_start q ! nat (pr1 - 1) \<le> j \<Longrightarrow> j < t \<Longrightarrow>
         pidf (the (mq_proc q ! nat (pr1 - 1) ! nat j)) \<noteq> pid"
  shows "swapque pidf pr1 pr2 pid q = None \<or>
           (\<exists>q'. swapque pidf pr1 pr2 pid q = Some q' \<and> \<not> mq_wf q')"
proof -
  note l = valid_pr_level[OF v(1) wf]
  let ?n = "nat (pr1 - 1)"
  define s e row where "s = mq_start q ! ?n" and "e = mq_end q ! ?n" and "row = mq_proc q ! ?n"
  note defs = s_def[symmetric] e_def[symmetric] row_def[symmetric]
  have rwf: "ring_wf row s e" using l(5) by (simp add: defs)
  have r: "0 \<le> s" "s \<le> int NPROC" "0 \<le> e" "e \<le> int NPROC" "length row = NPROC + 1"
    using rwf by (auto simp: ring_wf_def)
  note w' = w[unfolded defs] and hit' = hit[unfolded defs]
  have found: "find_pid (NPROC + 2) pidf row s e pid = Some (Some t)"
    by (rule find_pid_before_wrap[where row = row and s = s and e = e and t = t and pidf = pidf,
        OF rwf w' hit'])
  have nt: "0 \<le> ring_next t" "ring_next t \<le> int NPROC" "ring_next t = 0 \<or> e < ring_next t"
    using r w' by (auto simp: ring_next_eq)
  show ?thesis
  proof (cases "e = 0")
    case False
    have "shift_row (NPROC + 2) row (ring_next t) e = None"
      by (rule shift_row_wrapped) (use False nt r in auto)
    then have "swapque pidf pr1 pr2 pid q = None"
      using l found by (auto simp: swapque_def aget_level Let_def defs bind_eq_None_conv
          simp del: find_pid.simps shift_row.simps)
    then show ?thesis by simp
  next
    case True
    obtain row' where row': "shift_row (NPROC + 2) row (ring_next t) 0 = Some row'"
  proof -
      have "nat (int NPROC - ring_next t) + 1 < NPROC + 2" using nt(1) by linarith
      from shift_row_zero[OF r(5) nt(1,2) this] that show ?thesis by blast
    qed
    have t: "aget row t = Some (row ! nat t)" using r w' by (simp add: aget_level)
    define q1 where "q1 = q\<lparr>mq_proc := (mq_proc q)[?n := row'], mq_end := (mq_end q)[?n := -1]\<rparr>"
    have one: "(1::int) smod (int NPROC + 1) = 1" by (simp add: signed_modulo_int_def NPROC_def)
    have swap: "swapque pidf pr1 pr2 pid q = (if row ! nat t \<noteq> None then enque pr2 (row ! nat t) q1 else Some q1)"
      using l found t row' True
      by (simp add: swapque_def aget_level aset_level Let_def defs q1_def one del: find_pid.simps shift_row.simps)
    have neg: "mq_end q1 ! ?n = -1" using l by (simp add: q1_def)
    have "\<not> mq_wf q2" if "mq_end q2 ! ?n = -1" for q2
    proof
      assume "mq_wf q2"
      from valid_pr_level(5)[OF v(1) this] that show False by (simp add: ring_wf_def)
    qed
    moreover have "mq_end q2 ! ?n = -1" if "enque pr2 p q1 = Some q2" for p q2
    proof -
      have "nat (pr2 - 1) \<noteq> ?n" using v by (auto simp: valid_pr_def HIPR_def nat_eq_iff2)
      with that neg show ?thesis
        by (auto simp: enque_def Let_def bind_eq_Some_conv aset_def split: if_splits)
    qed
    ultimately show ?thesis using swap neg
      by (cases "enque pr2 (row ! nat t) q1") auto
  qed
qed

end
