(* ===== verification/Cmem.thy ===== *)
theory Cmem
  imports Prelude
begin

unbundle bit_operations_syntax

text \<open>
  Byte-addressed memory, 32-bit loads and stores in little-endian order, and the memory and
  string routines of \<open>string.c\<close> with the \<open>rep stos\<close> helpers of \<open>x86.h\<close> they use.
\<close>

section \<open>Memory\<close>

type_synonym memory = "u32 \<Rightarrow> u8"

definition load32 :: "memory \<Rightarrow> u32 \<Rightarrow> u32" where
  "load32 m a = ucast (m a) OR push_bit 8 (ucast (m (a + 1))) OR
     push_bit 16 (ucast (m (a + 2))) OR push_bit 24 (ucast (m (a + 3)))"

definition store32 :: "memory \<Rightarrow> u32 \<Rightarrow> u32 \<Rightarrow> memory" where
  "store32 m a v = m(a := ucast v, a + 1 := ucast (drop_bit 8 v),
     a + 2 := ucast (drop_bit 16 v), a + 3 := ucast (drop_bit 24 v))"

lemma bytes_of_word:
  "(ucast (ucast v :: u8) :: u32) OR push_bit 8 (ucast (ucast (drop_bit 8 v) :: u8)) OR
     push_bit 16 (ucast (ucast (drop_bit 16 v) :: u8)) OR
     push_bit 24 (ucast (ucast (drop_bit 24 v) :: u8)) = (v :: u32)"
proof (rule bit_eqI)
  fix n assume n: "possible_bit TYPE(u32) n"
  consider "n < 8" | "8 \<le> n" "n < 16" | "16 \<le> n" "n < 24" | "24 \<le> n" "n < 32" using n by fastforce
  then show "bit ((ucast (ucast v :: u8) :: u32) OR push_bit 8 (ucast (ucast (drop_bit 8 v) :: u8)) OR
     push_bit 16 (ucast (ucast (drop_bit 16 v) :: u8)) OR
     push_bit 24 (ucast (ucast (drop_bit 24 v) :: u8))) n = bit v n"
    by cases (auto simp: bit_simps)
qed

lemma load_store_same [simp]: "load32 (store32 m a v) a = v"
  by (simp add: load32_def store32_def bytes_of_word)

text \<open>Words that start at least four bytes apart, in both directions, do not overlap.\<close>

definition apart :: "u32 \<Rightarrow> u32 \<Rightarrow> bool" where
  "apart a b \<longleftrightarrow> 4 \<le> b - a \<and> 4 \<le> a - b"

lemma store32_other:
  assumes "4 \<le> x - a"
  shows "store32 m a v x = m x"
proof -
  have "x \<noteq> a" "x \<noteq> a + 1" "x \<noteq> a + 2" "x \<noteq> a + 3"
    using assms by (auto simp: word_le_nat_alt)
  then show ?thesis by (simp add: store32_def)
qed

lemma uint_neg32: "(d::u32) \<noteq> 0 \<Longrightarrow> uint (- d) = 2 ^ 32 - uint d"
proof -
  assume d: "d \<noteq> 0"
  have "0 < uint d" "uint d < 2 ^ 32"
    using d uint_lt2p[of d] by (auto simp: word_greater_zero_iff order_less_le uint_0_iff)
  then have "(- uint d + 2 ^ 32) mod 2 ^ 32 = 2 ^ 32 - uint d"
    by (intro mod_pos_pos_trivial[THEN trans]) auto
  then show ?thesis by (simp add: uint_word_ariths)
qed

lemma word_offset_ge:
  assumes "4 \<le> (d::u32)" "4 \<le> - d"
  shows "4 \<le> d + 3" "4 \<le> d + 2" "4 \<le> d + 1"
proof -
  have "d \<noteq> 0" using assms by auto
  then have "uint (- d) = 2 ^ 32 - uint d" by (rule uint_neg32)
  moreover have "4 \<le> uint (- d)" "4 \<le> uint d" using assms by (simp_all add: word_le_def)
  ultimately have u: "uint d + 3 < 2 ^ 32" "4 \<le> uint d" by linarith+
  have "uint (d + 3) = uint d + 3" "uint (d + 2) = uint d + 2" "uint (d + 1) = uint d + 1"
    using u by (simp_all add: uint_word_ariths)
  with u show "4 \<le> d + 3" "4 \<le> d + 2" "4 \<le> d + 1" by (simp_all add: word_le_def)
qed

lemma apart_offsets:
  assumes "apart a b"
  shows "4 \<le> b - a" "4 \<le> b + 1 - a" "4 \<le> b + 2 - a" "4 \<le> b + 3 - a"
  using assms word_offset_ge[of "b - a"] by (auto simp: apart_def algebra_simps)

lemma load_store_apart: "apart a b \<Longrightarrow> load32 (store32 m a v) b = load32 m b"
  using apart_offsets[of a b] by (simp add: load32_def store32_other)

lemma mod4_diff: assumes "(a::u32) mod 4 = 0" "b mod 4 = 0" "a \<noteq> b" shows "4 \<le> a - b"
proof -
  have "uint a mod 4 = 0" "uint b mod 4 = 0"
    using assms(1,2)[THEN arg_cong[where f = uint]] by (simp_all add: uint_mod_distrib)
  then have m4: "uint (a - b) mod 4 = 0"
    by (simp add: uint_word_ariths mod_mod_cancel) presburger
  have "a - b \<noteq> 0" using assms(3) by simp
  then have nz: "uint (a - b) \<noteq> 0" by (simp only: uint_0_iff not_False_eq_True)
  note m4 nz
  moreover have "0 \<le> uint (a - b)" by simp
  ultimately have "4 \<le> uint (a - b)" by presburger
  then show ?thesis by (simp add: word_le_def)
qed

lemma aligned_apart: "a mod 4 = 0 \<Longrightarrow> b mod 4 = 0 \<Longrightarrow> a \<noteq> b \<Longrightarrow> apart a b"
  by (simp add: apart_def mod4_diff)

section \<open>\<open>x86.h\<close>: rep stosb, rep stosl\<close>

fun stosb :: "nat \<Rightarrow> u32 \<Rightarrow> u8 \<Rightarrow> memory \<Rightarrow> memory" where
  "stosb 0 a d m = m"
| "stosb (Suc n) a d m = stosb n (a + 1) d (m(a := d))"

fun stosl :: "nat \<Rightarrow> u32 \<Rightarrow> u32 \<Rightarrow> memory \<Rightarrow> memory" where
  "stosl 0 a d m = m"
| "stosl (Suc n) a d m = stosl n (a + 4) d (store32 m a d)"

section \<open>\<open>string.c\<close>\<close>

definition memset :: "u32 \<Rightarrow> u32 \<Rightarrow> u32 \<Rightarrow> memory \<Rightarrow> memory" where
  "memset dst c n m =
     (if dst mod 4 = 0 \<and> n mod 4 = 0 then
        let c = c AND 0xFF
        in stosl (unat (n div 4)) dst (push_bit 24 c OR push_bit 16 c OR push_bit 8 c OR c) m
      else stosb (unat n) dst (ucast c) m)"

fun memcmp_loop :: "nat \<Rightarrow> u32 \<Rightarrow> u32 \<Rightarrow> memory \<Rightarrow> int" where
  "memcmp_loop 0 s1 s2 m = 0"
| "memcmp_loop (Suc n) s1 s2 m =
     (if m s1 \<noteq> m s2 then uint (m s1) - uint (m s2)
      else memcmp_loop n (s1 + 1) (s2 + 1) m)"

definition memcmp :: "u32 \<Rightarrow> u32 \<Rightarrow> u32 \<Rightarrow> memory \<Rightarrow> int" where
  "memcmp v1 v2 n m = memcmp_loop (unat n) v1 v2 m"

fun copy_down :: "nat \<Rightarrow> u32 \<Rightarrow> u32 \<Rightarrow> memory \<Rightarrow> memory" where
  "copy_down 0 d s m = m"
| "copy_down (Suc n) d s m = copy_down n (d - 1) (s - 1) (m(d - 1 := m (s - 1)))"

fun copy_up :: "nat \<Rightarrow> u32 \<Rightarrow> u32 \<Rightarrow> memory \<Rightarrow> memory" where
  "copy_up 0 d s m = m"
| "copy_up (Suc n) d s m = copy_up n (d + 1) (s + 1) (m(d := m s))"

definition memmove :: "u32 \<Rightarrow> u32 \<Rightarrow> u32 \<Rightarrow> memory \<Rightarrow> memory" where
  "memmove dst src n m =
     (if src < dst \<and> dst < src + n then copy_down (unat n) (dst + n) (src + n) m
      else copy_up (unat n) dst src m)"

definition memcpy :: "u32 \<Rightarrow> u32 \<Rightarrow> u32 \<Rightarrow> memory \<Rightarrow> memory" where
  "memcpy dst src n m = memmove dst src n m"

fun strncmp_loop :: "nat \<Rightarrow> u32 \<Rightarrow> u32 \<Rightarrow> memory \<Rightarrow> int" where
  "strncmp_loop 0 p q m = 0"
| "strncmp_loop (Suc n) p q m =
     (if m p \<noteq> 0 \<and> m p = m q then strncmp_loop n (p + 1) (q + 1) m
      else uint (m p) - uint (m q))"

definition strncmp :: "u32 \<Rightarrow> u32 \<Rightarrow> u32 \<Rightarrow> memory \<Rightarrow> int" where
  "strncmp p q n m = strncmp_loop (unat n) p q m"

text \<open>
  The two loops of \<open>strncpy\<close>: \<open>n\<close> is the number of bytes still to write. The copy loop
  goes on with the padding loop after it has copied a NUL.
\<close>

fun strncpy_pad :: "nat \<Rightarrow> u32 \<Rightarrow> memory \<Rightarrow> memory" where
  "strncpy_pad 0 s m = m"
| "strncpy_pad (Suc n) s m = strncpy_pad n (s + 1) (m(s := 0))"

fun strncpy_loop :: "nat \<Rightarrow> u32 \<Rightarrow> u32 \<Rightarrow> memory \<Rightarrow> memory" where
  "strncpy_loop 0 s t m = m"
| "strncpy_loop (Suc n) s t m =
     (let m' = m(s := m t)
      in if m t \<noteq> 0 then strncpy_loop n (s + 1) (t + 1) m' else strncpy_pad n (s + 1) m')"

definition strncpy :: "u32 \<Rightarrow> u32 \<Rightarrow> int \<Rightarrow> memory \<Rightarrow> memory" where
  "strncpy s t n m = strncpy_loop (nat n) s t m"

text \<open>\<open>safestrcpy\<close>: at most \<open>n - 1\<close> bytes are copied, then a NUL is written.\<close>

fun safestrcpy_loop :: "nat \<Rightarrow> u32 \<Rightarrow> u32 \<Rightarrow> memory \<Rightarrow> memory" where
  "safestrcpy_loop 0 s t m = m(s := 0)"
| "safestrcpy_loop (Suc n) s t m =
     (let m' = m(s := m t)
      in if m t \<noteq> 0 then safestrcpy_loop n (s + 1) (t + 1) m' else m'(s + 1 := 0))"

definition safestrcpy :: "u32 \<Rightarrow> u32 \<Rightarrow> int \<Rightarrow> memory \<Rightarrow> memory" where
  "safestrcpy s t n m = (if n \<le> 0 then m else safestrcpy_loop (nat (n - 1)) s t m)"

text \<open>\<open>strlen\<close> reads on until it meets a NUL: \<open>None\<close> if there is none.\<close>

partial_function (option) strlen_from :: "memory \<Rightarrow> u32 \<Rightarrow> u32 \<Rightarrow> u32 option" where
  "strlen_from m s n = (if m (s + n) = 0 then Some n else strlen_from m s (n + 1))"

definition strlen :: "memory \<Rightarrow> u32 \<Rightarrow> u32 option" where
  "strlen m s = strlen_from m s 0"

section \<open>What the routines compute\<close>

lemma unat_diff_step: "(x::u32) \<noteq> a \<Longrightarrow> unat (x - a) = Suc (unat (x - (a + 1)))"
proof -
  assume "x \<noteq> a"
  then have "x - a \<noteq> 0" by simp
  then have "unat (x - a - 1) = unat (x - a) - 1" by (rule unat_minus_one)
  moreover have "0 < unat (x - a)" using \<open>x - a \<noteq> 0\<close> by (simp add: unat_gt_0)
  ultimately show ?thesis by (simp add: diff_diff_eq)
qed

lemma unat_diff_wrap: "unat ((a::u32) - (a + 1)) = 2 ^ 32 - 1"
  by (simp add: unat_eq_nat_uint uint_neg32)

lemma stosb_apply:
  "n \<le> 2 ^ 32 \<Longrightarrow> stosb n a d m x = (if unat (x - a) < n then d else m x)"
proof (induction n arbitrary: a m)
  case (Suc n)
  then have IH: "stosb n (a + 1) d (m(a := d)) x =
      (if unat (x - (a + 1)) < n then d else (m(a := d)) x)" by simp
  show ?case
  proof (cases "x = a")
    case True
    then show ?thesis using IH Suc.prems unat_diff_wrap[of a] by simp
  next
    case False
    then show ?thesis using IH unat_diff_step[OF False] by simp
  qed
qed simp

definition spread :: "u8 \<Rightarrow> u32" where
  "spread c = push_bit 24 (ucast c) OR push_bit 16 (ucast c) OR push_bit 8 (ucast c) OR ucast c"

lemma spread_bytes:
  "ucast (spread c) = c" "ucast (drop_bit 8 (spread c)) = c"
  "ucast (drop_bit 16 (spread c)) = c" "ucast (drop_bit 24 (spread c)) = c"
  by (rule bit_eqI; auto simp: spread_def bit_simps dest: bit_imp_le_length)+

lemma stosl_spread: "stosl n a (spread c) m = stosb (4 * n) a c m"
proof (induction n arbitrary: a m)
  case (Suc n)
  have four: "4 * Suc n = Suc (Suc (Suc (Suc (4 * n))))" by simp
  have "store32 m a (spread c) = m(a := c, a + 1 := c, a + 1 + 1 := c, a + 1 + 1 + 1 := c)"
    by (simp only: store32_def spread_bytes add.assoc one_add_one) simp
  moreover have "a + 4 = a + 1 + 1 + 1 + 1" by simp
  ultimately show ?case
    by (simp only: four stosl.simps stosb.simps Suc.IH)
qed simp

lemma low_byte: "(c :: u32) AND 0xFF = ucast (ucast c :: u8)"
proof -
  have m: "(0xFF :: u32) = mask 8" by (simp add: mask_eq_exp_minus_1)
  show ?thesis unfolding m by (rule bit_eqI) (auto simp: bit_simps)
qed

lemma mod4_unat: "(n :: u32) mod 4 = 0 \<Longrightarrow> 4 * unat (n div 4) = unat n"
proof -
  assume "n mod 4 = 0"
  then have "unat (n mod 4) = 0" by simp
  then have "unat n mod 4 = 0" by (simp add: unat_mod_distrib)
  then show ?thesis by (simp add: unat_div_distrib) presburger
qed

lemma memset_apply: "memset dst c n m x = (if x - dst < n then ucast c else m x)"
proof -
  have len: "unat n \<le> 2 ^ 32" using less_imp_le[OF unsigned_less[of n]] by simp
  have "memset dst c n m = stosb (unat n) dst (ucast c) m"
    using stosl_spread[of "unat (n div 4)" dst "ucast c" m] mod4_unat[of n]
    by (auto simp: memset_def Let_def low_byte spread_def)
  then show ?thesis by (simp add: stosb_apply[OF len] word_less_nat_alt)
qed

lemma copy_up_apply:
  assumes "n < 2 ^ 32" "\<And>i j. j < i \<Longrightarrow> i < n \<Longrightarrow> d + of_nat j \<noteq> s + of_nat i"
  shows "copy_up n d s m x = (if unat (x - d) < n then m (s + (x - d)) else m x)"
  using assms
proof (induction n arbitrary: d s m)
  case (Suc n)
  have "d + 1 + of_nat j \<noteq> s + 1 + of_nat i" if "j < i" "i < n" for i j
    using Suc.prems(2)[of "Suc j" "Suc i"] that by (simp add: algebra_simps)
  then have IH: "copy_up n (d + 1) (s + 1) (m(d := m s)) x =
      (if unat (x - (d + 1)) < n then (m(d := m s)) (s + 1 + (x - (d + 1))) else (m(d := m s)) x)"
    using Suc.prems(1) by (intro Suc.IH) auto
  show ?case
  proof (cases "x = d")
    case True
    then show ?thesis using IH Suc.prems(1) unat_diff_wrap[of d] by simp
  next
    case False
    have "s + (x - d) \<noteq> d" if "unat (x - d) < Suc n"
      using Suc.prems(2)[of 0 "unat (x - d)"] that False unat_diff_step[OF False] by auto
    moreover have "s + 1 + (x - (d + 1)) = s + (x - d)" by simp
    ultimately show ?thesis using IH unat_diff_step[OF False] False by simp
  qed
qed simp

lemma copy_down_apply:
  assumes "n < 2 ^ 32" "\<And>i j. j < i \<Longrightarrow> i < n \<Longrightarrow> d - 1 - of_nat j \<noteq> s - 1 - of_nat i"
  shows "copy_down n d s m x = (if unat (d - 1 - x) < n then m (s - (d - x)) else m x)"
  using assms
proof (induction n arbitrary: d s m)
  case (Suc n)
  have "d - 1 - 1 - of_nat j \<noteq> s - 1 - 1 - of_nat i" if "j < i" "i < n" for i j
    using Suc.prems(2)[of "Suc j" "Suc i"] that by (simp add: algebra_simps)
  then have IH: "copy_down n (d - 1) (s - 1) (m(d - 1 := m (s - 1))) x =
      (if unat (d - 1 - 1 - x) < n then (m(d - 1 := m (s - 1))) (s - 1 - (d - 1 - x))
       else (m(d - 1 := m (s - 1))) x)"
    using Suc.prems(1) by (intro Suc.IH) auto
  show ?case
  proof (cases "x = d - 1")
    case True
    then show ?thesis using IH Suc.prems(1) unat_diff_wrap[of 0] by simp
  next
    case False
    then have "d - 1 \<noteq> x" by simp
    from unat_diff_step[OF this] have step: "unat (d - 1 - x) = Suc (unat (d - 1 - 1 - x))"
      by (simp add: algebra_simps)
    have "s - (d - x) \<noteq> d - 1" if "unat (d - 1 - x) < Suc n"
      using Suc.prems(2)[of 0 "unat (d - 1 - x)"] that step by (auto simp: algebra_simps)
    moreover have "s - 1 - (d - 1 - x) = s - (d - x)" by simp
    ultimately show ?thesis using IH step False by (simp add: algebra_simps)
  qed
qed simp

text \<open>A byte range whose end address is still an address.\<close>

definition range_ok :: "u32 \<Rightarrow> u32 \<Rightarrow> bool" where
  "range_ok a n \<longleftrightarrow> unat a + unat n < 2 ^ 32"

lemma range_offset: "range_ok a n \<Longrightarrow> i < unat n \<Longrightarrow> unat (a + of_nat i) = unat a + i"
proof -
  assume r: "range_ok a n" "i < unat n"
  have "unat (of_nat i :: u32) = i"
    using r unsigned_less[of n, where 'a = nat] by (simp add: unat_of_nat)
  then show ?thesis using r by (simp add: range_ok_def unat_word_ariths)
qed

lemma mirror_less: "n \<noteq> 0 \<Longrightarrow> n - 1 - y < n \<longleftrightarrow> y < (n :: u32)"
proof -
  assume n: "n \<noteq> 0"
  have b: "0 < uint n" "uint n < 2 ^ 32" "0 \<le> uint y" "uint y < 2 ^ 32"
    using n uint_lt2p[of n] uint_lt2p[of y] by (auto simp: order_less_le uint_0_iff)
  have u: "uint (n - 1 - y) = (uint n - 1 - uint y) mod 2 ^ 32"
    by (simp add: uint_word_ariths mod_simps)
  show ?thesis
  proof (cases "uint y < uint n")
    case True
    then have "(uint n - 1 - uint y) mod 2 ^ 32 = uint n - 1 - uint y"
      by (intro mod_pos_pos_trivial) (use b True in linarith)+
    then have "uint (n - 1 - y) < uint n" unfolding u using b by linarith
    then show ?thesis using True by (simp add: word_less_def)
  next
    case False
    have "(uint n - 1 - uint y) mod 2 ^ 32 = (uint n - 1 - uint y + 2 ^ 32) mod 2 ^ 32"
      by (simp only: mod_add_self2)
    also have "\<dots> = uint n - 1 - uint y + 2 ^ 32"
      by (intro mod_pos_pos_trivial) (use b False in linarith)+
    finally have "\<not> uint (n - 1 - y) < uint n" unfolding u using b by linarith
    then show ?thesis using False by (simp add: word_less_def)
  qed
qed

text \<open>\<open>memmove\<close> copies the source range as it was, also when the ranges overlap.\<close>

lemma memmove_apply:
  assumes d: "range_ok dst n" and s: "range_ok src n"
  shows "memmove dst src n m x = (if x - dst < n then m (src + (x - dst)) else m x)"
proof (cases "src < dst \<and> dst < src + n")
  case True
  have n: "unat n < 2 ^ 32" using unsigned_less[of n] by simp
  have "dst + n - 1 - of_nat j \<noteq> src + n - 1 - of_nat i" if ij: "j < i" "i < unat n" for i j
  proof
    assume "dst + n - 1 - of_nat j = src + n - 1 - of_nat i"
    then have "dst + of_nat i = src + of_nat j" by (simp add: algebra_simps)
    then have "unat (dst + of_nat i) = unat (src + of_nat j)" by simp
    then have "unat dst + i = unat src + j" using range_offset d s ij by simp
    then show False using True ij by (simp add: word_less_nat_alt)
  qed
  then have "copy_down (unat n) (dst + n) (src + n) m x =
      (if unat (dst + n - 1 - x) < unat n then m (src + n - (dst + n - x)) else m x)"
    by (intro copy_down_apply n) auto
  moreover have "unat (dst + n - 1 - x) < unat n \<longleftrightarrow> x - dst < n"
  proof -
    have "n \<noteq> 0" using True by auto
    from mirror_less[OF this, of "x - dst"]
    have "unat (n - 1 - (x - dst)) < unat n \<longleftrightarrow> x - dst < n" by (simp add: word_less_nat_alt)
    moreover have "dst + n - 1 - x = n - 1 - (x - dst)" by simp
    ultimately show ?thesis by (simp only:)
  qed
  ultimately show ?thesis using True by (simp add: memmove_def)
next
  case False
  have n: "unat n < 2 ^ 32" using unsigned_less[of n] by simp
  have "dst + of_nat j \<noteq> src + of_nat i" if ij: "j < i" "i < unat n" for i j
  proof
    assume "dst + of_nat j = src + of_nat i"
    then have eq: "unat dst + j = unat src + i"
      using range_offset[OF d, of j] range_offset[OF s, of i] ij by (metis order_less_trans)
    then have "src < dst" "unat dst < unat src + unat n" using ij by (simp_all add: word_less_nat_alt)
    moreover from this have "dst < src + n"
      using s by (simp add: word_less_nat_alt unat_word_ariths range_ok_def)
    ultimately show False using False by simp
  qed
  then have "copy_up (unat n) dst src m x = (if unat (x - dst) < unat n then m (src + (x - dst)) else m x)"
    by (rule copy_up_apply[OF n])
  moreover have "memmove dst src n m x = copy_up (unat n) dst src m x"
    using False by (auto simp: memmove_def)
  ultimately show ?thesis by (simp add: word_less_nat_alt)
qed

lemma byte_eq_uint: "uint (a :: u8) = uint b \<longleftrightarrow> a = b"
  by (metis word_uint_eq_iff)

lemma memcmp_loop_zero:
  "memcmp_loop n a b m = 0 \<longleftrightarrow> (\<forall>i < n. m (a + of_nat i) = m (b + of_nat i))"
proof (induction n arbitrary: a b)
  case (Suc n)
  have "(\<forall>i < Suc n. m (a + of_nat i) = m (b + of_nat i)) \<longleftrightarrow>
      m a = m b \<and> (\<forall>i < n. m (a + 1 + of_nat i) = m (b + 1 + of_nat i))"
    unfolding All_less_Suc2 by (simp add: add.assoc)
  then show ?case using Suc.IH[of "a + 1" "b + 1"] by (simp add: byte_eq_uint)
qed simp

definition same_until_nul :: "nat \<Rightarrow> u32 \<Rightarrow> u32 \<Rightarrow> memory \<Rightarrow> bool" where
  "same_until_nul n p q m \<longleftrightarrow>
     (\<forall>i < n. (\<forall>j < i. m (p + of_nat j) \<noteq> 0) \<longrightarrow> m (p + of_nat i) = m (q + of_nat i))"

lemma same_until_nul_Suc:
  "same_until_nul (Suc n) p q m \<longleftrightarrow> m p = m q \<and> (m p \<noteq> 0 \<longrightarrow> same_until_nul n (p + 1) (q + 1) m)"
proof -
  have "same_until_nul (Suc n) p q m \<longleftrightarrow> m p = m q \<and>
      (\<forall>i < n. (\<forall>j < Suc i. m (p + of_nat j) \<noteq> 0) \<longrightarrow> m (p + of_nat (Suc i)) = m (q + of_nat (Suc i)))"
    unfolding same_until_nul_def by (subst All_less_Suc2) simp
  also have "\<dots> \<longleftrightarrow> m p = m q \<and> (m p \<noteq> 0 \<longrightarrow> same_until_nul n (p + 1) (q + 1) m)"
    unfolding same_until_nul_def All_less_Suc2 by (simp add: add.assoc imp_conjL) blast
  finally show ?thesis .
qed

lemma strncmp_loop_zero: "strncmp_loop n p q m = 0 \<longleftrightarrow> same_until_nul n p q m"
proof (induction n arbitrary: p q)
  case (Suc n)
  show ?case using Suc.IH[of "p + 1" "q + 1"] byte_eq_uint[of "m p" "m q"]
    unfolding same_until_nul_Suc by auto
qed (simp add: same_until_nul_def)

text \<open>
  \<open>k\<close> is the length of the string at \<open>t\<close>, cut at \<open>n\<close>; the buffers do not overlap.
\<close>

definition str_cut :: "memory \<Rightarrow> u32 \<Rightarrow> nat \<Rightarrow> nat \<Rightarrow> bool" where
  "str_cut m t n k \<longleftrightarrow> k \<le> n \<and> (\<forall>i < k. m (t + of_nat i) \<noteq> 0) \<and> (k < n \<longrightarrow> m (t + of_nat k) = 0)"

definition disjoint_bufs :: "u32 \<Rightarrow> u32 \<Rightarrow> nat \<Rightarrow> bool" where
  "disjoint_bufs s t n \<longleftrightarrow> (\<forall>i < n. \<forall>j < n. s + of_nat i \<noteq> t + of_nat j)"

lemma str_cut_Suc:
  "str_cut m t (Suc n) k \<Longrightarrow> m t \<noteq> 0 \<Longrightarrow> \<exists>k'. k = Suc k' \<and> str_cut m (t + 1) n k'"
  by (cases k) (auto simp: str_cut_def algebra_simps All_less_Suc2)

lemma str_cut_zero: "str_cut m t (Suc n) k \<Longrightarrow> m t = 0 \<Longrightarrow> k = 0"
  by (cases k) (auto simp: str_cut_def)

lemma disjoint_Suc: "disjoint_bufs s t (Suc n) \<Longrightarrow> disjoint_bufs (s + 1) (t + 1) n"
  unfolding disjoint_bufs_def
proof (intro allI impI)
  fix i j assume "\<forall>i < Suc n. \<forall>j < Suc n. s + of_nat i \<noteq> t + of_nat j" "i < n" "j < n"
  then have "s + of_nat (Suc i) \<noteq> t + of_nat (Suc j)" by blast
  then show "s + 1 + of_nat i \<noteq> t + 1 + of_nat j" by (simp add: algebra_simps)
qed

lemma disjoint_first:
  "disjoint_bufs s t (Suc n) \<Longrightarrow> i < Suc n \<Longrightarrow> t + of_nat i \<noteq> s"
proof -
  assume "disjoint_bufs s t (Suc n)" "i < Suc n"
  then have "s + of_nat 0 \<noteq> t + of_nat i" unfolding disjoint_bufs_def by blast
  then show ?thesis by simp
qed

lemma str_cut_upd:
  assumes "\<And>i. i < n \<Longrightarrow> t + of_nat i \<noteq> s" "str_cut m t n k"
  shows "str_cut (m(s := v)) t n k"
  unfolding str_cut_def
proof (intro conjI allI impI)
  show "k \<le> n" using assms(2) by (simp add: str_cut_def)
next
  fix i assume "i < k"
  then show "(m(s := v)) (t + of_nat i) \<noteq> 0"
    using assms by (simp add: str_cut_def)
next
  assume "k < n"
  then show "(m(s := v)) (t + of_nat k) = 0"
    using assms by (simp add: str_cut_def)
qed

lemma str_cut_step:
  assumes "disjoint_bufs s t (Suc n)" "str_cut m (t + 1) n k"
  shows "str_cut (m(s := v)) (t + 1) n k"
proof (rule str_cut_upd[OF _ assms(2)])
  fix i assume "i < n"
  then show "t + 1 + of_nat i \<noteq> s" using disjoint_first[OF assms(1), of "Suc i"] by (simp add: add.assoc)
qed

lemma strncpy_pad_apply:
  "n < 2 ^ 32 \<Longrightarrow> strncpy_pad n s m x = (if unat (x - s) < n then 0 else m x)"
proof (induction n arbitrary: s m)
  case (Suc n)
  then show ?case
    using unat_diff_step[of x s] unat_diff_wrap[of s] by (cases "x = s") auto
qed simp

text \<open>
  \<open>strncpy\<close> writes exactly \<open>n\<close> bytes: the string, cut at \<open>n\<close>, then NULs.
  \<open>safestrcpy\<close> writes the string cut at \<open>n - 1\<close> and a NUL, and a second NUL after it when
  the string was shorter than that.
\<close>

lemma strncpy_loop_apply:
  assumes "n < 2 ^ 32" "disjoint_bufs s t n" "str_cut m t n k"
  shows "strncpy_loop n s t m x =
    (if unat (x - s) < k then m (t + (x - s)) else if unat (x - s) < n then 0 else m x)"
  using assms
proof (induction n arbitrary: s t m k)
  case 0
  then show ?case by (simp add: str_cut_def)
next
  case (Suc n)
  show ?case
  proof (cases "m t = 0")
    case True
    then have "k = 0" using Suc.prems str_cut_zero by blast
    then show ?thesis using True Suc.prems(1) unat_diff_step[of x s] unat_diff_wrap[of s]
      by (cases "x = s") (auto simp: strncpy_pad_apply)
  next
    case False
    from str_cut_Suc[OF Suc.prems(3) False] obtain k' where
      k: "k = Suc k'" "str_cut m (t + 1) n k'" by blast
    have IH: "strncpy_loop n (s + 1) (t + 1) (m(s := m t)) x =
      (if unat (x - (s + 1)) < k' then (m(s := m t)) (t + 1 + (x - (s + 1)))
       else if unat (x - (s + 1)) < n then 0 else (m(s := m t)) x)"
      using Suc.prems(1) by (intro Suc.IH disjoint_Suc[OF Suc.prems(2)] str_cut_step[OF Suc.prems(2) k(2)]) simp
    have kn: "k' \<le> n" using k(2) by (simp add: str_cut_def)
    show ?thesis
    proof (cases "x = s")
      case True
      then show ?thesis using IH False k(1) kn Suc.prems(1) unat_diff_wrap[of s] by simp
    next
      case ne: False
      have "t + (x - s) \<noteq> s" if "unat (x - s) < Suc n"
        using disjoint_first[OF Suc.prems(2) that] by simp
      moreover have "t + 1 + (x - (s + 1)) = t + (x - s)" by simp
      ultimately show ?thesis using IH False k(1) kn ne unat_diff_step[OF ne] by simp
    qed
  qed
qed

lemma safestrcpy_loop_apply:
  assumes "Suc n < 2 ^ 32" "disjoint_bufs s t (Suc n)" "str_cut m t n k"
  shows "safestrcpy_loop n s t m x =
    (if unat (x - s) < k then m (t + (x - s)) else if unat (x - s) \<le> min (Suc k) n then 0 else m x)"
  using assms
proof (induction n arbitrary: s t m k)
  case 0
  have "x \<noteq> s \<longleftrightarrow> unat (x - s) \<noteq> 0" by (simp add: unat_eq_0)
  then show ?case using 0 by (auto simp: str_cut_def)
next
  case (Suc n)
  show ?case
  proof (cases "m t = 0")
    case True
    then have k0: "k = 0" using Suc.prems str_cut_zero by blast
    have "x - (s + 1) = 0 \<longleftrightarrow> x = s + 1" by (rule right_minus_eq)
    then have "x = s + 1 \<longleftrightarrow> unat (x - (s + 1)) = 0" by (simp only: unat_eq_0)
    then show ?thesis using True k0 unat_diff_step[of x s] by (cases "x = s") auto
  next
    case False
    from str_cut_Suc[OF Suc.prems(3) False] obtain k' where
      k: "k = Suc k'" "str_cut m (t + 1) n k'" by blast
    have disj: "disjoint_bufs s t (Suc n)" using Suc.prems(2) by (simp add: disjoint_bufs_def)
    have IH: "safestrcpy_loop n (s + 1) (t + 1) (m(s := m t)) x =
      (if unat (x - (s + 1)) < k' then (m(s := m t)) (t + 1 + (x - (s + 1)))
       else if unat (x - (s + 1)) \<le> min (Suc k') n then 0 else (m(s := m t)) x)"
      using Suc.prems(1)
      by (intro Suc.IH disjoint_Suc[OF Suc.prems(2)] str_cut_step[OF disj k(2)]) simp
    have kn: "k' \<le> n" using k(2) by (simp add: str_cut_def)
    show ?thesis
    proof (cases "x = s")
      case True
      then show ?thesis using IH False k(1) kn Suc.prems(1) unat_diff_wrap[of s] by simp
    next
      case ne: False
      have "t + (x - s) \<noteq> s" if "unat (x - s) < Suc (Suc n)"
        using disjoint_first[OF Suc.prems(2) that] by simp
      moreover have "t + 1 + (x - (s + 1)) = t + (x - s)" by simp
      ultimately show ?thesis using IH False k(1) kn ne unat_diff_step[OF ne] by simp
    qed
  qed
qed

end
