(* ===== verification/Kernel_State.thy ===== *)
theory Kernel_State
  imports Mlq_Queue Cmem
begin

unbundle bit_operations_syntax

text \<open>
  The state the kernel components share: the process table, the per-CPU state, the run
  queues, memory, and the locks. Pointers into a table are indices (\<open>None\<close> is null); kernel
  memory is a byte map over kernel virtual addresses.
\<close>

section \<open>Data types\<close>

datatype procstate = UNUSED | EMBRYO | SLEEPING | RUNNABLE | RUNNING | ZOMBIE

text \<open>Sleep locks are part of a buffer or of an in-memory inode.\<close>

datatype slockid = SL_buf nat | SL_inode nat

text \<open>Spin locks. A pipe is named by the address of its page.\<close>

datatype lockid =
    L_ptable | L_tickslock | L_kmem | L_ftable | L_pipe u32 | L_bcache | L_sleep slockid
  | L_log | L_icache | L_cons | L_ide

text \<open>
  Sleep channels, one constructor per address the kernel sleeps on: \<open>&ticks\<close>, a process,
  \<open>&p->nread\<close>, \<open>&p->nwrite\<close>, a sleep lock, \<open>&log\<close>, a buffer, \<open>&input.r\<close>.
\<close>

datatype chan =
    Ch_ticks | Ch_proc nat | Ch_nread u32 | Ch_nwrite u32 | Ch_sleeplock slockid | Ch_log
  | Ch_buf nat | Ch_input

datatype sched = DEFAULT | FCFS | MLQ | DMLQ

definition NOFILE :: nat where "NOFILE = 16"

record proc =
  p_sz :: u32
  p_pgdir :: u32
  p_kstack :: u32
  p_state :: procstate
  p_pid :: u32
  p_parent :: "nat option"
  p_tf :: u32
  p_context :: u32
  p_chan :: "chan option"
  p_killed :: bool
  p_ofile :: "nat option list"
  p_cwd :: "nat option"
  p_name :: "u8 list"
  p_switchnum :: u32
  p_timecreated :: u32
  p_timeready :: u32
  p_timerun :: u32
  p_timeslept :: u32
  p_timescheduled :: u32
  p_priority :: int

text \<open>Per-CPU state: the running process, the page directory in \<open>%cr3\<close>, the kernel stack of the TSS.\<close>

record cpu =
  c_proc :: "nat option"
  c_cr3 :: u32
  c_esp0 :: u32

section \<open>Files, pipes, buffers, the log, inodes and the console\<close>

definition NFILE :: nat where "NFILE = 100"
definition NINODE :: nat where "NINODE = 50"
definition NBUF :: nat where "NBUF = 30"
definition LOGSIZE :: nat where "LOGSIZE = 30"
definition MAXOPBLOCKS :: nat where "MAXOPBLOCKS = 10"
definition BSIZE :: nat where "BSIZE = 512"
definition FSSIZE :: nat where "FSSIZE = 1000"
definition NDIRECT :: nat where "NDIRECT = 12"
definition PIPESIZE :: u32 where "PIPESIZE = 512"
definition INPUT_BUF :: u32 where "INPUT_BUF = 128"

record sleeplock =
  sl_locked :: bool
  sl_pid :: u32

text \<open>A pipe lives in a page of kernel memory and is named by the address of the page.\<close>

record pipe =
  pi_data :: "u8 list"
  pi_nread :: u32
  pi_nwrite :: u32
  pi_readopen :: bool
  pi_writeopen :: bool

datatype ftype = FD_NONE | FD_PIPE | FD_INODE

record kfile =
  f_type :: ftype
  f_ref :: int
  f_readable :: bool
  f_writable :: bool
  f_pipe :: u32
  f_ip :: "nat option"
  f_off :: u32

text \<open>
  A buffer: the flags \<open>B_VALID\<close> and \<open>B_DIRTY\<close>, and the links of the LRU list, which are
  indices with \<open>NBUF\<close> for the list head \<open>bcache.head\<close>.
\<close>

record buf =
  b_valid :: bool
  b_dirty :: bool
  b_dev :: u32
  b_blockno :: u32
  b_refcnt :: u32
  b_prev :: nat
  b_next :: nat
  b_data :: "u8 list"

record log =
  l_start :: int
  l_size :: int
  l_outstanding :: int
  l_committing :: bool
  l_dev :: u32
  l_n :: int
  l_block :: "u32 list"

record superblock =
  sb_size :: u32
  sb_nblocks :: u32
  sb_ninodes :: u32
  sb_nlog :: u32
  sb_logstart :: u32
  sb_inodestart :: u32
  sb_bmapstart :: u32

record inode =
  i_dev :: u32
  i_inum :: u32
  i_ref :: int
  i_valid :: bool
  i_type :: u16
  i_major :: u16
  i_minor :: u16
  i_nlink :: u16
  i_size :: u32
  i_addrs :: "u32 list"

text \<open>
  The console: the line-edit buffer with its read, write and edit indices, the \<open>panicked\<close>
  flag, \<open>cons.locking\<close>, \<open>uart\<close>, the cursor position and the cells of the screen, and the bytes
  sent to the serial port so far.
\<close>

record console =
  in_buf :: "u8 list"
  in_r :: u32
  in_w :: u32
  in_e :: u32
  c_panicked :: bool
  c_locking :: bool
  c_uart :: bool
  c_pos :: int
  c_crt :: "u16 list"
  c_out :: "u8 list"

section \<open>The kernel\<close>

text \<open>
  \<open>k_end\<close> and \<open>k_data\<close> are the addresses the linker gives to \<open>end\<close> and \<open>data\<close>, \<open>k_forkret\<close> and
  \<open>k_trapret\<close> the addresses of those functions. \<open>k_disk\<close> is the memory disk of \<open>memide.c\<close>, the linked-in image \<open>fs.img\<close>;
  \<open>k_me\<close> is the CPU that executes. \<open>k_cfg\<close> is \<open>SCHEDFLAG\<close>, \<open>k_ideq\<close> the queue of requests of
  \<open>ide.c\<close>. Two fields are not the program's: \<open>k_dwrites\<close> lists the blocks written to the
  disk, the latest first, and \<open>k_patience\<close> bounds the number of times a thread goes to sleep
  again in one loop that waits for a condition (the loop is \<open>Spin\<close> then); the lemmas hold
  for every value of it.
\<close>

record kernel =
  k_me :: nat
  k_held :: "(lockid \<times> nat) list"
  k_cpus :: "cpu list"
  k_ptab :: "proc list"
  k_initproc :: "nat option"
  k_nextpid :: u32
  k_pq :: pqueue
  k_mq :: multiqueue
  k_ticks :: u32
  k_mem :: memory
  k_freelist :: u32
  k_use_lock :: bool
  k_end :: u32
  k_data :: u32
  k_kpgdir :: u32
  k_forkret :: u32
  k_trapret :: u32
  k_sleeplocks :: "slockid \<Rightarrow> sleeplock"
  k_pipes :: "u32 \<Rightarrow> pipe"
  k_ftab :: "kfile list"
  k_bufs :: "buf list"
  k_disk :: "u8 list"
  k_log :: log
  k_sb :: superblock
  k_inodes :: "inode list"
  k_cons :: console
  k_cfg :: sched
  k_patience :: nat
  k_dwrites :: "(u32 \<times> u8 list) list"
  k_ideq :: "nat list"

type_synonym 'a kmon = "kernel \<Rightarrow> ('a, kernel) outcome"

section \<open>Processes and CPUs\<close>

definition pr :: "kernel \<Rightarrow> nat \<Rightarrow> proc" where
  "pr s p = k_ptab s ! p"

definition upd_proc :: "nat \<Rightarrow> (proc \<Rightarrow> proc) \<Rightarrow> kernel \<Rightarrow> kernel" where
  "upd_proc p f s = s\<lparr>k_ptab := (k_ptab s)[p := f (k_ptab s ! p)]\<rparr>"

definition upd_cpu :: "(cpu \<Rightarrow> cpu) \<Rightarrow> kernel \<Rightarrow> kernel" where
  "upd_cpu f s = s\<lparr>k_cpus := (k_cpus s)[k_me s := f (k_cpus s ! k_me s)]\<rparr>"

definition mycpu :: "kernel \<Rightarrow> cpu" where
  "mycpu s = k_cpus s ! k_me s"

definition myproc :: "kernel \<Rightarrow> nat option" where
  "myproc s = c_proc (mycpu s)"

text \<open>\<open>struct proc *curproc = myproc()\<close>, to be dereferenced.\<close>

definition curproc :: "nat kmon" where
  "curproc = kopt myproc"

definition proc_times :: "kernel \<Rightarrow> nat \<Rightarrow> u32" where
  "proc_times s p = p_timecreated (pr s p)"

definition proc_pids :: "kernel \<Rightarrow> nat \<Rightarrow> u32" where
  "proc_pids s p = p_pid (pr s p)"

section \<open>Spin locks as the other components see them\<close>

text \<open>
  \<open>k_held\<close> lists the locks held, each with its CPU. \<open>acquire\<close> panics on a lock the CPU
  already holds and spins on a lock another CPU holds; \<open>release\<close> panics on a lock the CPU
  does not hold. The theory \<open>Spinlock\<close> models the lock words and the interrupt flag and
  shows that they implement this.
\<close>

definition holding :: "lockid \<Rightarrow> kernel \<Rightarrow> bool" where
  "holding l s \<longleftrightarrow> (l, k_me s) \<in> set (k_held s)"

definition lock_free :: "lockid \<Rightarrow> kernel \<Rightarrow> bool" where
  "lock_free l s \<longleftrightarrow> l \<notin> fst ` set (k_held s)"

definition acquire :: "lockid \<Rightarrow> unit kmon" where
  "acquire l s =
     (if holding l s then Panic ''acquire''
      else if \<not> lock_free l s then Spin
      else Ret () (s\<lparr>k_held := (l, k_me s) # k_held s\<rparr>))"

definition release :: "lockid \<Rightarrow> unit kmon" where
  "release l s =
     (if \<not> holding l s then Panic ''release''
      else Ret () (s\<lparr>k_held := remove1 (l, k_me s) (k_held s)\<rparr>))"

text \<open>\<open>mycpu()->ncli\<close>: one \<open>pushcli\<close> per lock held by this CPU.\<close>

definition ncli :: "kernel \<Rightarrow> nat" where
  "ncli s = length (filter (\<lambda>(l, c). c = k_me s) (k_held s))"

section \<open>Simplification\<close>

named_theorems kstate "rules about the parts of the kernel state"

lemma upd_proc_fields [simp, kstate]:
  "k_me (upd_proc p f s) = k_me s" "k_held (upd_proc p f s) = k_held s"
  "k_cpus (upd_proc p f s) = k_cpus s" "k_initproc (upd_proc p f s) = k_initproc s"
  "k_nextpid (upd_proc p f s) = k_nextpid s" "k_pq (upd_proc p f s) = k_pq s"
  "k_mq (upd_proc p f s) = k_mq s" "k_ticks (upd_proc p f s) = k_ticks s"
  "k_mem (upd_proc p f s) = k_mem s" "k_freelist (upd_proc p f s) = k_freelist s"
  "k_use_lock (upd_proc p f s) = k_use_lock s" "k_end (upd_proc p f s) = k_end s"
  "k_kpgdir (upd_proc p f s) = k_kpgdir s" "k_forkret (upd_proc p f s) = k_forkret s"
  "k_trapret (upd_proc p f s) = k_trapret s" "k_data (upd_proc p f s) = k_data s"
  "k_sleeplocks (upd_proc p f s) = k_sleeplocks s"
  "k_pipes (upd_proc p f s) = k_pipes s"
  "k_ftab (upd_proc p f s) = k_ftab s"
  "k_bufs (upd_proc p f s) = k_bufs s"
  "k_disk (upd_proc p f s) = k_disk s"
  "k_log (upd_proc p f s) = k_log s"
  "k_sb (upd_proc p f s) = k_sb s"
  "k_inodes (upd_proc p f s) = k_inodes s"
  "k_cons (upd_proc p f s) = k_cons s"
  "k_cfg (upd_proc p f s) = k_cfg s"
  "k_patience (upd_proc p f s) = k_patience s"
  "k_dwrites (upd_proc p f s) = k_dwrites s"
  "k_ideq (upd_proc p f s) = k_ideq s"
  by (simp_all add: upd_proc_def)

lemma upd_cpu_fields [simp, kstate]:
  "k_me (upd_cpu f s) = k_me s" "k_held (upd_cpu f s) = k_held s"
  "k_ptab (upd_cpu f s) = k_ptab s" "k_initproc (upd_cpu f s) = k_initproc s"
  "k_nextpid (upd_cpu f s) = k_nextpid s" "k_pq (upd_cpu f s) = k_pq s"
  "k_mq (upd_cpu f s) = k_mq s" "k_ticks (upd_cpu f s) = k_ticks s"
  "k_mem (upd_cpu f s) = k_mem s" "k_freelist (upd_cpu f s) = k_freelist s"
  "k_use_lock (upd_cpu f s) = k_use_lock s" "k_end (upd_cpu f s) = k_end s"
  "k_kpgdir (upd_cpu f s) = k_kpgdir s" "k_forkret (upd_cpu f s) = k_forkret s"
  "k_trapret (upd_cpu f s) = k_trapret s" "k_data (upd_cpu f s) = k_data s"
  "k_sleeplocks (upd_cpu f s) = k_sleeplocks s"
  "k_pipes (upd_cpu f s) = k_pipes s"
  "k_ftab (upd_cpu f s) = k_ftab s"
  "k_bufs (upd_cpu f s) = k_bufs s"
  "k_disk (upd_cpu f s) = k_disk s"
  "k_log (upd_cpu f s) = k_log s"
  "k_sb (upd_cpu f s) = k_sb s"
  "k_inodes (upd_cpu f s) = k_inodes s"
  "k_cons (upd_cpu f s) = k_cons s"
  "k_cfg (upd_cpu f s) = k_cfg s"
  "k_patience (upd_cpu f s) = k_patience s"
  "k_dwrites (upd_cpu f s) = k_dwrites s"
  "k_ideq (upd_cpu f s) = k_ideq s" "length (k_cpus (upd_cpu f s)) = length (k_cpus s)"
  by (simp_all add: upd_cpu_def)

lemma upd_proc_ptab [kstate]:
  "k_ptab (upd_proc p f s) = (k_ptab s)[p := f (k_ptab s ! p)]"
  by (simp add: upd_proc_def)

lemma length_upd_proc [simp]: "length (k_ptab (upd_proc p f s)) = length (k_ptab s)"
  by (simp add: upd_proc_def)

lemma pr_upd_proc [kstate]:
  "p < length (k_ptab s) \<Longrightarrow> pr (upd_proc p f s) i = (if i = p then f (pr s p) else pr s i)"
  by (simp add: pr_def upd_proc_def)

lemma pr_ptab_cong: "k_ptab s = k_ptab t \<Longrightarrow> pr s = pr t"
  by (rule ext) (simp add: pr_def)

lemma pr_upd_other [simp, kstate]:
  "pr (s\<lparr>k_me := a\<rparr>) = pr s" "pr (s\<lparr>k_held := b\<rparr>) = pr s" "pr (s\<lparr>k_cpus := c\<rparr>) = pr s"
  "pr (s\<lparr>k_initproc := d\<rparr>) = pr s" "pr (s\<lparr>k_nextpid := e\<rparr>) = pr s" "pr (s\<lparr>k_pq := f\<rparr>) = pr s"
  "pr (s\<lparr>k_mq := g\<rparr>) = pr s" "pr (s\<lparr>k_ticks := h\<rparr>) = pr s" "pr (s\<lparr>k_mem := i\<rparr>) = pr s"
  "pr (s\<lparr>k_freelist := j\<rparr>) = pr s" "pr (s\<lparr>k_use_lock := k\<rparr>) = pr s"
  "pr (s\<lparr>k_kpgdir := l\<rparr>) = pr s"
  "pr (upd_cpu m s) = pr s"
  "pr (s\<lparr>k_sleeplocks := x0\<rparr>) = pr s"
  "pr (s\<lparr>k_pipes := x1\<rparr>) = pr s"
  "pr (s\<lparr>k_ftab := x2\<rparr>) = pr s"
  "pr (s\<lparr>k_bufs := x3\<rparr>) = pr s"
  "pr (s\<lparr>k_disk := x4\<rparr>) = pr s"
  "pr (s\<lparr>k_log := x5\<rparr>) = pr s"
  "pr (s\<lparr>k_sb := x6\<rparr>) = pr s"
  "pr (s\<lparr>k_inodes := x7\<rparr>) = pr s"
  "pr (s\<lparr>k_cons := x8\<rparr>) = pr s"
  "pr (s\<lparr>k_dwrites := x9\<rparr>) = pr s" "pr (s\<lparr>k_ideq := x10\<rparr>) = pr s"
  by (simp_all add: pr_def fun_eq_iff)

lemma acquire_free [kexec]:
  "lock_free l s \<Longrightarrow> acquire l s = Ret () (s\<lparr>k_held := (l, k_me s) # k_held s\<rparr>)"
  by (force simp: acquire_def holding_def lock_free_def)

lemma release_held [kexec]:
  "holding l s \<Longrightarrow> release l s = Ret () (s\<lparr>k_held := remove1 (l, k_me s) (k_held s)\<rparr>)"
  by (simp add: release_def)

lemma holding_free: "holding l s \<Longrightarrow> \<not> lock_free l s"
  by (force simp: holding_def lock_free_def)

lemma curproc_Some [kexec]: "myproc s = Some p \<Longrightarrow> curproc s = Ret p s"
  by (simp add: curproc_def kexec)

lemma curproc_None [kexec]: "myproc s = None \<Longrightarrow> curproc s = Fault"
  by (simp add: curproc_def kexec)

section \<open>A concrete state, for examples\<close>

definition sample_proc :: proc where
  "sample_proc = \<lparr>p_sz = 4096, p_pgdir = 0x80500000, p_kstack = 0x80600000, p_state = RUNNABLE, p_pid = 1,
     p_parent = None, p_tf = 0, p_context = 0, p_chan = None, p_killed = False,
     p_ofile = replicate NOFILE None, p_cwd = None, p_name = replicate 16 0, p_switchnum = 0,
     p_timecreated = 0, p_timeready = 0, p_timerun = 0, p_timeslept = 0, p_timescheduled = 0, p_priority = 2\<rparr>"

definition sample_kernel :: kernel where
  "sample_kernel = \<lparr>k_me = 0, k_held = [], k_cpus = [], k_ptab = [], k_initproc = None, k_nextpid = 1,
     k_pq = pq_init, k_mq = mq_init, k_ticks = 0, k_mem = (\<lambda>_. 0), k_freelist = 0, k_use_lock = False,
     k_end = 0, k_data = 0, k_kpgdir = 0, k_forkret = 0, k_trapret = 0, k_sleeplocks = (\<lambda>_. \<lparr>sl_locked = False, sl_pid = 0\<rparr>),
     k_pipes = (\<lambda>_. \<lparr>pi_data = [], pi_nread = 0, pi_nwrite = 0, pi_readopen = False, pi_writeopen = False\<rparr>),
     k_ftab = [], k_bufs = [], k_disk = [],
     k_log = \<lparr>l_start = 0, l_size = 0, l_outstanding = 0, l_committing = False, l_dev = 0, l_n = 0, l_block = []\<rparr>,
     k_sb = \<lparr>sb_size = 0, sb_nblocks = 0, sb_ninodes = 0, sb_nlog = 0, sb_logstart = 0, sb_inodestart = 0, sb_bmapstart = 0\<rparr>,
     k_inodes = [], k_cons = \<lparr>in_buf = [], in_r = 0, in_w = 0, in_e = 0, c_panicked = False, c_locking = True,
       c_uart = True, c_pos = 0, c_crt = replicate 2000 0, c_out = []\<rparr>,
     k_cfg = DEFAULT, k_patience = 0, k_dwrites = [], k_ideq = []\<rparr>"

end
