(* ===== verification/Spinlock.thy ===== *)
theory Spinlock
  imports Kernel_State
begin

text \<open>
  \<open>spinlock.c\<close>: the lock words, the per-CPU interrupt flag and \<open>pushcli\<close> depth. \<open>acquire_lk\<close>
  and \<open>release_lk\<close> are the code's operations, built from the actions that are atomic on the
  hardware. A step relation interleaves these actions of all CPUs; its invariant gives mutual
  exclusion, and the operations refine the locks of \<open>Kernel_State\<close>.
\<close>

section \<open>State\<close>

record spinlock =
  lk_locked :: u32
  lk_cpu :: "nat option"

text \<open>The interrupt flag \<open>FL_IF\<close> of the CPU, and \<open>ncli\<close>, \<open>intena\<close> of \<open>struct cpu\<close>.\<close>

record cli_state =
  x_if :: bool
  x_ncli :: int
  x_intena :: bool

record smp =
  m_lock :: "lockid \<Rightarrow> spinlock"
  m_cli :: "nat \<Rightarrow> cli_state"

type_synonym 'a smon = "smp \<Rightarrow> ('a, smp) outcome"

definition upd_lock :: "lockid \<Rightarrow> (spinlock \<Rightarrow> spinlock) \<Rightarrow> smp \<Rightarrow> smp" where
  "upd_lock l f s = s\<lparr>m_lock := (m_lock s)(l := f (m_lock s l))\<rparr>"

definition upd_cli :: "nat \<Rightarrow> (cli_state \<Rightarrow> cli_state) \<Rightarrow> smp \<Rightarrow> smp" where
  "upd_cli c f s = s\<lparr>m_cli := (m_cli s)(c := f (m_cli s c))\<rparr>"

section \<open>Operations\<close>

definition initlock :: "lockid \<Rightarrow> unit smon" where
  "initlock l = kupd (upd_lock l (\<lambda>k. k\<lparr>lk_locked := 0, lk_cpu := None\<rparr>))"

text \<open>\<open>mycpu\<close> panics when interrupts are on, so every use of it checks the flag.\<close>

definition mycpu_check :: "nat \<Rightarrow> unit smon" where
  "mycpu_check c = kwhen (\<lambda>s. x_if (m_cli s c)) (kpanic ''mycpu called with interrupts enabled'')"

definition pushcli :: "nat \<Rightarrow> unit smon" where
  "pushcli c = kbind (kget (\<lambda>s. x_if (m_cli s c))) (\<lambda>eflags. kseq [
     kupd (upd_cli c (\<lambda>x. x\<lparr>x_if := False\<rparr>)),
     mycpu_check c,
     kwhen (\<lambda>s. x_ncli (m_cli s c) = 0) (kupd (upd_cli c (\<lambda>x. x\<lparr>x_intena := eflags\<rparr>))),
     kupd (upd_cli c (\<lambda>x. x\<lparr>x_ncli := x_ncli x + 1\<rparr>))])"

definition popcli :: "nat \<Rightarrow> unit smon" where
  "popcli c = kseq [
     kwhen (\<lambda>s. x_if (m_cli s c)) (kpanic ''popcli - interruptible''),
     mycpu_check c,
     kupd (upd_cli c (\<lambda>x. x\<lparr>x_ncli := x_ncli x - 1\<rparr>)),
     kwhen (\<lambda>s. x_ncli (m_cli s c) < 0) (kpanic ''popcli''),
     kwhen (\<lambda>s. x_ncli (m_cli s c) = 0 \<and> x_intena (m_cli s c))
       (kupd (upd_cli c (\<lambda>x. x\<lparr>x_if := True\<rparr>)))]"

definition holding_lk :: "nat \<Rightarrow> lockid \<Rightarrow> bool smon" where
  "holding_lk c l = kbind (pushcli c) (\<lambda>_.
     kbind (kget (\<lambda>s. lk_locked (m_lock s l) \<noteq> 0 \<and> lk_cpu (m_lock s l) = Some c)) (\<lambda>r.
     kbind (popcli c) (\<lambda>_. kret r)))"

text \<open>
  \<open>acquire\<close> up to its loop, one atomic \<open>xchg\<close>, and the record of the owner. The lock word
  is 1 after \<open>xchg\<close> whatever it was; the value it returns decides whether the loop goes on.
\<close>

definition acquire_enter :: "nat \<Rightarrow> lockid \<Rightarrow> unit smon" where
  "acquire_enter c l = kbind (pushcli c) (\<lambda>_.
     kbind (holding_lk c l) (\<lambda>h. if h then kpanic ''acquire'' else kret ()))"

definition xchg_lock :: "lockid \<Rightarrow> u32 smon" where
  "xchg_lock l = kbind (kget (\<lambda>s. lk_locked (m_lock s l))) (\<lambda>old.
     kbind (kupd (upd_lock l (\<lambda>k. k\<lparr>lk_locked := 1\<rparr>))) (\<lambda>_. kret old))"

definition acquire_record :: "nat \<Rightarrow> lockid \<Rightarrow> unit smon" where
  "acquire_record c l = kseq [mycpu_check c, kupd (upd_lock l (\<lambda>k. k\<lparr>lk_cpu := Some c\<rparr>))]"

definition acquire_lk :: "nat \<Rightarrow> lockid \<Rightarrow> unit smon" where
  "acquire_lk c l = kbind (acquire_enter c l) (\<lambda>_.
     kbind (xchg_lock l) (\<lambda>old.
     if old \<noteq> 0 then (\<lambda>s. Spin) else acquire_record c l))"

definition release_enter :: "nat \<Rightarrow> lockid \<Rightarrow> unit smon" where
  "release_enter c l = kbind (holding_lk c l) (\<lambda>h.
     if \<not> h then kpanic ''release'' else kupd (upd_lock l (\<lambda>k. k\<lparr>lk_cpu := None\<rparr>)))"

definition release_store :: "lockid \<Rightarrow> unit smon" where
  "release_store l = kupd (upd_lock l (\<lambda>k. k\<lparr>lk_locked := 0\<rparr>))"

definition release_lk :: "nat \<Rightarrow> lockid \<Rightarrow> unit smon" where
  "release_lk c l = kseq [release_enter c l, release_store l, popcli c]"

section \<open>Symbolic execution of the operations\<close>

lemma upd_simps [simp]:
  "m_lock (upd_lock l f s) k = (if k = l then f (m_lock s l) else m_lock s k)"
  "m_cli (upd_lock l f s) = m_cli s"
  "m_cli (upd_cli c g s) d = (if d = c then g (m_cli s c) else m_cli s d)"
  "m_lock (upd_cli c g s) = m_lock s"
  by (simp_all add: upd_lock_def upd_cli_def)

text \<open>The invariant of the interrupt state: interrupts are on only outside every \<open>pushcli\<close>.\<close>

definition cli_wf :: "cli_state \<Rightarrow> bool" where
  "cli_wf x \<longleftrightarrow> 0 \<le> x_ncli x \<and> (x_if x \<longrightarrow> x_ncli x = 0)"

lemma smp_eqI: "m_lock s = m_lock t \<Longrightarrow> m_cli s = m_cli t \<Longrightarrow> s = (t :: smp)"
  by simp

definition pushed :: "nat \<Rightarrow> smp \<Rightarrow> smp" where
  "pushed c = upd_cli c (\<lambda>x. x\<lparr>x_if := False, x_ncli := x_ncli x + 1,
     x_intena := (if x_ncli x = 0 then x_if x else x_intena x)\<rparr>)"

definition popped :: "nat \<Rightarrow> smp \<Rightarrow> smp" where
  "popped c = upd_cli c (\<lambda>x. x\<lparr>x_ncli := x_ncli x - 1,
     x_if := (x_ncli x = 1 \<and> x_intena x)\<rparr>)"

lemma pushcli_runs: "pushcli c s = Ret () (pushed c s)"
  by (auto simp: pushcli_def mycpu_check_def pushed_def kexec upd_cli_def
      intro!: smp.equality ext cli_state.equality)

lemma popcli_runs:
  "\<not> x_if (m_cli s c) \<Longrightarrow> 0 < x_ncli (m_cli s c) \<Longrightarrow> popcli c s = Ret () (popped c s)"
  by (auto simp: popcli_def mycpu_check_def popped_def kexec upd_cli_def
      intro!: smp.equality ext cli_state.equality)

lemma popped_pushed:
  "cli_wf (m_cli s c) \<Longrightarrow> m_cli (popped c (pushed c s)) c =
     (m_cli s c)\<lparr>x_intena := (if x_ncli (m_cli s c) = 0 then x_if (m_cli s c) else x_intena (m_cli s c))\<rparr>"
  by (auto simp: popped_def pushed_def cli_wf_def)

text \<open>Two CPU states that agree on everything but the saved flag outside every \<open>pushcli\<close>.\<close>

definition has_lock :: "nat \<Rightarrow> lockid \<Rightarrow> smp \<Rightarrow> bool" where
  "has_lock c l s \<longleftrightarrow> lk_locked (m_lock s l) \<noteq> 0 \<and> lk_cpu (m_lock s l) = Some c"

lemma holding_runs:
  assumes "cli_wf (m_cli s c)"
  shows "holding_lk c l s = Ret (has_lock c l s) (popped c (pushed c s))"
proof -
  have "popcli c (pushed c s) = Ret () (popped c (pushed c s))"
    using assms by (intro popcli_runs) (auto simp: pushed_def cli_wf_def)
  then show ?thesis by (simp add: holding_lk_def kexec pushcli_runs has_lock_def pushed_def)
qed

lemma pushed_wf [simp]: "cli_wf (m_cli s d) \<Longrightarrow> cli_wf (m_cli (pushed c s) d)"
  by (auto simp: pushed_def cli_wf_def)

lemma pushed_cli:
  "x_if (m_cli (pushed c s) c) = False"
  "x_ncli (m_cli (pushed c s) c) = x_ncli (m_cli s c) + 1"
  "d \<noteq> c \<Longrightarrow> m_cli (pushed c s) d = m_cli s d" "m_lock (pushed c s) = m_lock s"
  "d \<noteq> c \<Longrightarrow> m_cli (popped c s) d = m_cli s d" "m_lock (popped c s) = m_lock s"
  "x_ncli (m_cli (popped c s) c) = x_ncli (m_cli s c) - 1"
  by (simp_all add: pushed_def popped_def)

lemma popped_pushed_inner:
  "0 < x_ncli (m_cli s c) \<Longrightarrow> \<not> x_if (m_cli s c) \<Longrightarrow> popped c (pushed c s) = s"
  by (rule smp_eqI) (auto simp: pushed_def popped_def upd_cli_def fun_eq_iff)

text \<open>\<open>acquire\<close>: panic on a lock this CPU holds, spin on a taken one, else take it.\<close>

lemma acquire_enter_runs:
  assumes "cli_wf (m_cli s c)"
  shows "acquire_enter c l s =
    (if has_lock c l s then Panic ''acquire'' else Ret () (pushed c s))"
proof -
  have "popped c (pushed c (pushed c s)) = pushed c s"
    using assms by (intro popped_pushed_inner) (auto simp: pushed_def cli_wf_def)
  then show ?thesis
    using holding_runs[OF pushed_wf[OF assms, of c], of l] assms
    by (simp add: acquire_enter_def kexec pushcli_runs has_lock_def pushed_cli)
qed

definition taken :: "nat \<Rightarrow> lockid \<Rightarrow> smp \<Rightarrow> smp" where
  "taken c l s = upd_lock l (\<lambda>k. k\<lparr>lk_locked := 1, lk_cpu := Some c\<rparr>) (pushed c s)"

lemma acquire_lk_runs:
  assumes "cli_wf (m_cli s c)"
  shows "acquire_lk c l s =
    (if has_lock c l s then Panic ''acquire''
     else if lk_locked (m_lock s l) \<noteq> 0 then Spin
     else Ret () (taken c l s))"
  using acquire_enter_runs[OF assms, of l]
  by (simp add: acquire_lk_def kexec xchg_lock_def acquire_record_def mycpu_check_def pushed_cli
      taken_def upd_lock_def)

text \<open>\<open>release\<close>: panic unless this CPU holds the lock, else free it and undo the \<open>pushcli\<close>.\<close>

definition released :: "nat \<Rightarrow> lockid \<Rightarrow> smp \<Rightarrow> smp" where
  "released c l s = popped c (upd_lock l (\<lambda>k. k\<lparr>lk_cpu := None, lk_locked := 0\<rparr>) s)"

lemma release_lk_runs:
  assumes "cli_wf (m_cli s c)" "has_lock c l s \<Longrightarrow> 0 < x_ncli (m_cli s c)"
  shows "release_lk c l s =
    (if has_lock c l s then Ret () (released c l s) else Panic ''release'')"
proof (cases "has_lock c l s")
  case True
  then have "0 < x_ncli (m_cli s c)" "\<not> x_if (m_cli s c)" using assms by (auto simp: cli_wf_def)
  moreover from this have "popped c (pushed c s) = s" by (rule popped_pushed_inner)
  ultimately show ?thesis
    using True holding_runs[OF assms(1), of l]
      popcli_runs[of "upd_lock l (\<lambda>k. k\<lparr>lk_cpu := None, lk_locked := 0\<rparr>) s" c]
    by (simp add: release_lk_def release_enter_def release_store_def kexec released_def upd_lock_def)
next
  case False
  then show ?thesis
    using holding_runs[OF assms(1), of l] by (simp add: release_lk_def release_enter_def kexec)
qed

section \<open>The operations refine the locks of the kernel state\<close>

text \<open>
  The lock words agree with \<open>k_held\<close>: a lock is held by the CPU its word names, a locked
  word has an owner, and every CPU's \<open>ncli\<close> counts the locks it holds.
\<close>

definition held_by :: "nat \<Rightarrow> kernel \<Rightarrow> nat" where
  "held_by c k = length (filter (\<lambda>(l, d). d = c) (k_held k))"

definition lock_rel :: "smp \<Rightarrow> kernel \<Rightarrow> bool" where
  "lock_rel s k \<longleftrightarrow> distinct (k_held k) \<and>
     (\<forall>l c. (l, c) \<in> set (k_held k) \<longleftrightarrow> has_lock c l s) \<and>
     (\<forall>l. lk_locked (m_lock s l) \<noteq> 0 \<longrightarrow> (\<exists>c. has_lock c l s)) \<and>
     (\<forall>c. cli_wf (m_cli s c) \<and> x_ncli (m_cli s c) = int (held_by c k))"

fun same_outcome :: "('s \<Rightarrow> 't \<Rightarrow> bool) \<Rightarrow> ('a, 's) outcome \<Rightarrow> ('a, 't) outcome \<Rightarrow> bool" where
  "same_outcome R (Ret x s) (Ret y t) \<longleftrightarrow> x = y \<and> R s t"
| "same_outcome R (Panic a) (Panic b) \<longleftrightarrow> a = b"
| "same_outcome R Fault Fault \<longleftrightarrow> True"
| "same_outcome R Spin Spin \<longleftrightarrow> True"
| "same_outcome R _ _ \<longleftrightarrow> False"

lemma filter_remove1_len:
  "x \<in> set xs \<Longrightarrow> distinct xs \<Longrightarrow>
   length (filter P (remove1 x xs)) = length (filter P xs) - (if P x then 1 else 0)"
  by (simp add: filter_remove1 length_remove1)

lemma acquire_refines:
  assumes R: "lock_rel s k"
  shows "same_outcome lock_rel (acquire_lk (k_me k) l s) (acquire l k)"
proof -
  let ?c = "k_me k"
  have wf: "cli_wf (m_cli s ?c)" using R by (simp add: lock_rel_def)
  have h: "holding l k \<longleftrightarrow> has_lock ?c l s" using R by (simp add: lock_rel_def holding_def)
  have f: "lock_free l k \<longleftrightarrow> lk_locked (m_lock s l) = 0"
  proof -
    have "lock_free l k \<longleftrightarrow> (\<forall>c. (l, c) \<notin> set (k_held k))" by (force simp: lock_free_def)
    also have "\<dots> \<longleftrightarrow> lk_locked (m_lock s l) = 0" using R by (auto simp: lock_rel_def has_lock_def)
    finally show ?thesis .
  qed
  show ?thesis
  proof (cases "has_lock ?c l s \<or> lk_locked (m_lock s l) \<noteq> 0")
    case True
    then show ?thesis using h f by (auto simp: acquire_lk_runs[OF wf] acquire_def)
  next
    case False
    have new: "\<And>c. (l, c) \<notin> set (k_held k)"
      using False R by (auto simp: lock_rel_def has_lock_def)
    have "lock_rel (taken ?c l s) (k\<lparr>k_held := (l, ?c) # k_held k\<rparr>)"
      unfolding lock_rel_def
    proof (intro conjI allI impI)
      show "distinct (k_held (k\<lparr>k_held := (l, ?c) # k_held k\<rparr>))"
        using new R by (simp add: lock_rel_def)
    next
      fix m d
      show "((m, d) \<in> set (k_held (k\<lparr>k_held := (l, ?c) # k_held k\<rparr>))) = has_lock d m (taken ?c l s)"
        using new R by (auto simp: lock_rel_def has_lock_def taken_def pushed_cli)
    next
      fix m assume "lk_locked (m_lock (taken ?c l s) m) \<noteq> 0"
      then show "\<exists>c. has_lock c m (taken ?c l s)"
        using R by (cases "m = l") (auto simp: lock_rel_def has_lock_def taken_def pushed_cli)
    next
      fix d
      show "cli_wf (m_cli (taken ?c l s) d)"
        using R by (auto simp: taken_def lock_rel_def)
      show "x_ncli (m_cli (taken ?c l s) d) = int (held_by d (k\<lparr>k_held := (l, ?c) # k_held k\<rparr>))"
        using R by (cases "d = ?c") (auto simp: taken_def lock_rel_def held_by_def pushed_cli)
    qed
    then show ?thesis using False h f by (auto simp: acquire_lk_runs[OF wf] acquire_def)
  qed
qed

lemma release_refines:
  assumes R: "lock_rel s k"
  shows "same_outcome lock_rel (release_lk (k_me k) l s) (release l k)"
proof -
  let ?c = "k_me k" and ?k' = "k\<lparr>k_held := remove1 (l, k_me k) (k_held k)\<rparr>"
  have wf: "cli_wf (m_cli s ?c)" using R by (simp add: lock_rel_def)
  have h: "holding l k \<longleftrightarrow> has_lock ?c l s" using R by (simp add: lock_rel_def holding_def)
  have pos: "0 < held_by ?c k" if "has_lock ?c l s"
  proof -
    have "(l, ?c) \<in> set (filter (\<lambda>(l, d). d = ?c) (k_held k))" using h that by (simp add: holding_def)
    then show ?thesis unfolding held_by_def by (rule length_pos_if_in_set)
  qed
  note runs = release_lk_runs[OF wf, of l]
  show ?thesis
  proof (cases "has_lock ?c l s")
    case False
    then show ?thesis using h runs by (simp add: release_def)
  next
    case True
    have ne: "(m, ?c) \<in> set (k_held k) \<Longrightarrow> (m, d) \<in> set (k_held k) \<Longrightarrow> d = ?c" for m d
      using R by (auto simp: lock_rel_def has_lock_def)
    have mem: "(m, d) \<in> set (k_held ?k') \<longleftrightarrow> has_lock d m (released ?c l s)" for m d
      using R True by (auto simp: lock_rel_def has_lock_def released_def pushed_cli)
    have "held_by d ?k' = held_by d k - (if d = ?c then 1 else 0)" for d
      using R True filter_remove1_len[of "(l, ?c)" "k_held k" "\<lambda>(l, e). e = d"]
      by (auto simp: lock_rel_def held_by_def)
    then have count: "int (held_by d ?k') = int (held_by d k) - (if d = ?c then 1 else 0)" for d
      using pos[OF True] by auto
    have "lock_rel (released ?c l s) ?k'"
      unfolding lock_rel_def
    proof (intro conjI allI impI)
      show "distinct (k_held ?k')" using R by (simp add: lock_rel_def)
    next
      fix m d show "((m, d) \<in> set (k_held ?k')) = has_lock d m (released ?c l s)" by (rule mem)
    next
      fix m assume "lk_locked (m_lock (released ?c l s) m) \<noteq> 0"
      then show "\<exists>c. has_lock c m (released ?c l s)"
        using R by (auto simp: lock_rel_def has_lock_def released_def pushed_cli split: if_splits)
    next
      fix d
      show "cli_wf (m_cli (released ?c l s) d)"
        using R pos[OF True] by (cases "d = ?c") (auto simp: lock_rel_def released_def popped_def cli_wf_def)
      show "x_ncli (m_cli (released ?c l s) d) = int (held_by d ?k')"
        unfolding count using R by (cases "d = ?c") (auto simp: lock_rel_def released_def pushed_cli)
    qed
    then show ?thesis using True h runs pos R by (simp add: release_def lock_rel_def)
  qed
qed

text \<open>\<open>mycpu()->ncli\<close> as the kernel state computes it.\<close>

lemma ncli_refines: "lock_rel s k \<Longrightarrow> x_ncli (m_cli s (k_me k)) = int (ncli k)"
  by (simp add: lock_rel_def ncli_def held_by_def)

section \<open>All CPUs together\<close>

text \<open>
  Where each CPU is: outside the lock code, in the loop of \<open>acquire\<close>, between the winning
  \<open>xchg\<close> and the record of the owner, between the last use of the lock and the store of 0,
  and before the final \<open>popcli\<close>. \<open>y_own\<close> lists the locks whose \<open>acquire\<close> has returned.
\<close>

datatype lock_pc = Outside | Spinning lockid | Took lockid | Releasing lockid | Popping

record lock_system =
  y_smp :: smp
  y_pc :: "nat \<Rightarrow> lock_pc"
  y_own :: "nat \<Rightarrow> lockid list"

definition lock_goto :: "nat \<Rightarrow> lock_pc \<Rightarrow> smp \<Rightarrow> lock_system \<Rightarrow> lock_system" where
  "lock_goto c a s y = y\<lparr>y_smp := s, y_pc := (y_pc y)(c := a)\<rparr>"

inductive lock_step :: "lock_system \<Rightarrow> lock_system \<Rightarrow> bool" where
  enter: "y_pc y c = Outside \<Longrightarrow> acquire_enter c l (y_smp y) = Ret () s \<Longrightarrow>
    lock_step y (lock_goto c (Spinning l) s y)"
| spin: "y_pc y c = Spinning l \<Longrightarrow> xchg_lock l (y_smp y) = Ret old s \<Longrightarrow> old \<noteq> 0 \<Longrightarrow>
    lock_step y (lock_goto c (Spinning l) s y)"
| win: "y_pc y c = Spinning l \<Longrightarrow> xchg_lock l (y_smp y) = Ret 0 s \<Longrightarrow>
    lock_step y (lock_goto c (Took l) s y)"
| record_owner: "y_pc y c = Took l \<Longrightarrow> acquire_record c l (y_smp y) = Ret () s \<Longrightarrow>
    lock_step y ((lock_goto c Outside s y)\<lparr>y_own := (y_own y)(c := l # y_own y c)\<rparr>)"
| leave: "y_pc y c = Outside \<Longrightarrow> release_enter c l (y_smp y) = Ret () s \<Longrightarrow>
    lock_step y ((lock_goto c (Releasing l) s y)\<lparr>y_own := (y_own y)(c := remove1 l (y_own y c))\<rparr>)"
| store: "y_pc y c = Releasing l \<Longrightarrow> release_store l (y_smp y) = Ret () s \<Longrightarrow>
    lock_step y (lock_goto c Popping s y)"
| pop: "y_pc y c = Popping \<Longrightarrow> popcli c (y_smp y) = Ret () s \<Longrightarrow>
    lock_step y (lock_goto c Outside s y)"
| interrupts: "y_pc y c = Outside \<Longrightarrow> x_ncli (m_cli (y_smp y) c) = 0 \<Longrightarrow>
    lock_step y (y\<lparr>y_smp := upd_cli c (\<lambda>x. x\<lparr>x_if := b\<rparr>) (y_smp y)\<rparr>)"

definition lock_init :: lock_system where
  "lock_init = \<lparr>y_smp = \<lparr>m_lock = (\<lambda>l. \<lparr>lk_locked = 0, lk_cpu = None\<rparr>),
       m_cli = (\<lambda>c. \<lparr>x_if = False, x_ncli = 0, x_intena = False\<rparr>)\<rparr>,
     y_pc = (\<lambda>c. Outside), y_own = (\<lambda>c. [])\<rparr>"

text \<open>A CPU has taken a lock from the winning \<open>xchg\<close> to the store of 0.\<close>

definition has_taken :: "lock_system \<Rightarrow> nat \<Rightarrow> lockid \<Rightarrow> bool" where
  "has_taken y c l \<longleftrightarrow> l \<in> set (y_own y c) \<or> y_pc y c = Took l \<or> y_pc y c = Releasing l"

definition lock_inv :: "lock_system \<Rightarrow> bool" where
  "lock_inv y \<longleftrightarrow>
     (\<forall>l. lk_locked (m_lock (y_smp y) l) \<noteq> 0 \<longleftrightarrow> (\<exists>c. has_taken y c l)) \<and>
     (\<forall>c d l. has_taken y c l \<longrightarrow> has_taken y d l \<longrightarrow> c = d) \<and>
     (\<forall>c l. lk_cpu (m_lock (y_smp y) l) = Some c \<longleftrightarrow> l \<in> set (y_own y c)) \<and>
     (\<forall>c. distinct (y_own y c) \<and> (\<forall>l. y_pc y c = Took l \<or> y_pc y c = Releasing l \<longrightarrow> l \<notin> set (y_own y c))) \<and>
     (\<forall>c. cli_wf (m_cli (y_smp y) c) \<and>
        x_ncli (m_cli (y_smp y) c) = int (length (y_own y c)) + (if y_pc y c = Outside then 0 else 1))"

lemma lock_inv_init: "lock_inv lock_init"
  by (simp add: lock_inv_def lock_init_def has_taken_def cli_wf_def)

lemma lock_invD:
  assumes "lock_inv y"
  shows "lk_locked (m_lock (y_smp y) l) \<noteq> 0 \<longleftrightarrow> (\<exists>c. has_taken y c l)"
    and "has_taken y c l \<Longrightarrow> has_taken y d l \<Longrightarrow> c = d"
    and "lk_cpu (m_lock (y_smp y) l) = Some c \<longleftrightarrow> l \<in> set (y_own y c)"
    and "distinct (y_own y c)"
    and "y_pc y c = Took l \<or> y_pc y c = Releasing l \<Longrightarrow> l \<notin> set (y_own y c)"
    and "cli_wf (m_cli (y_smp y) c)"
    and "x_ncli (m_cli (y_smp y) c) = int (length (y_own y c)) + (if y_pc y c = Outside then 0 else 1)"
  using assms unfolding lock_inv_def by blast+

text \<open>A step of CPU \<open>c\<close> leaves the lock words it does not name and the other CPUs alone.\<close>

lemma lock_invI:
  assumes "lock_inv y"
    and "\<And>m. m \<noteq> l \<Longrightarrow> m_lock (y_smp z) m = m_lock (y_smp y) m"
    and "\<And>d. d \<noteq> c \<Longrightarrow> y_pc z d = y_pc y d \<and> y_own z d = y_own y d \<and> m_cli (y_smp z) d = m_cli (y_smp y) d"
    and "\<And>m. m \<noteq> l \<Longrightarrow> has_taken z c m = has_taken y c m \<and> (m \<in> set (y_own z c) \<longleftrightarrow> m \<in> set (y_own y c))"
    and "lk_locked (m_lock (y_smp z) l) \<noteq> 0 \<longleftrightarrow> has_taken z c l \<or> (\<exists>d. d \<noteq> c \<and> has_taken y d l)"
    and "has_taken z c l \<Longrightarrow> \<forall>d. d \<noteq> c \<longrightarrow> \<not> has_taken y d l"
    and "\<And>d. lk_cpu (m_lock (y_smp z) l) = Some d \<longleftrightarrow> l \<in> set (y_own z d)"
    and "distinct (y_own z c)"
    and "\<And>m. y_pc z c = Took m \<or> y_pc z c = Releasing m \<Longrightarrow> m \<notin> set (y_own z c)"
    and "cli_wf (m_cli (y_smp z) c)"
    and "x_ncli (m_cli (y_smp z) c) = int (length (y_own z c)) + (if y_pc z c = Outside then 0 else 1)"
  shows "lock_inv z"
proof -
  have other: "has_taken z d m = has_taken y d m" if "d \<noteq> c" for d m
    using assms(3)[OF that] by (simp add: has_taken_def)
  note i = lock_invD[OF assms(1)]
  have "lk_locked (m_lock (y_smp z) m) \<noteq> 0 \<longleftrightarrow> (\<exists>d. has_taken z d m)" for m
  proof (cases "m = l")
    case True
    then show ?thesis using assms(5) other by metis
  next
    case False
    then show ?thesis using assms(2,4)[OF False] i(1)[of m] other by metis
  qed
  moreover have "d = e" if "has_taken z d m" "has_taken z e m" for d e m
    using that assms(4,6) other i(2) by metis
  moreover have "lk_cpu (m_lock (y_smp z) m) = Some d \<longleftrightarrow> m \<in> set (y_own z d)" for d m
    using assms(2)[of m] assms(3)[of d] assms(4)[of m] assms(7) i(3)[of m d] by (cases "m = l"; cases "d = c") auto
  moreover have "distinct (y_own z d) \<and>
      (\<forall>m. y_pc z d = Took m \<or> y_pc z d = Releasing m \<longrightarrow> m \<notin> set (y_own z d))" for d
    using assms(3)[of d] assms(8,9) i(4,5)[of d] by (cases "d = c") auto
  moreover have "cli_wf (m_cli (y_smp z) d) \<and>
      x_ncli (m_cli (y_smp z) d) = int (length (y_own z d)) + (if y_pc z d = Outside then 0 else 1)" for d
    using assms(3)[of d] assms(10,11) i(6,7)[of d] by (cases "d = c") auto
  ultimately show ?thesis unfolding lock_inv_def by blast
qed

lemma lock_inv_same:
  assumes "lock_inv y"
    and "\<And>m. (lk_locked (m_lock (y_smp z) m) \<noteq> 0) = (lk_locked (m_lock (y_smp y) m) \<noteq> 0)"
    and "\<And>m. lk_cpu (m_lock (y_smp z) m) = lk_cpu (m_lock (y_smp y) m)"
    and "\<And>d m. has_taken z d m = has_taken y d m"
    and "\<And>d. y_own z d = y_own y d"
    and "\<And>d. cli_wf (m_cli (y_smp z) d)"
    and "\<And>d. x_ncli (m_cli (y_smp z) d) = int (length (y_own z d)) + (if y_pc z d = Outside then 0 else 1)"
    and "\<And>d m. y_pc z d = Took m \<or> y_pc z d = Releasing m \<Longrightarrow> y_pc y d = Took m \<or> y_pc y d = Releasing m"
  shows "lock_inv z"
proof -
  note i = lock_invD[OF assms(1)]
  have "m \<notin> set (y_own z d)" if "y_pc z d = Took m \<or> y_pc z d = Releasing m" for d m
    using assms(5) assms(8)[OF that] i(5) by simp
  then show ?thesis
    unfolding lock_inv_def using assms(2-7) i(1,3,4) i(2) by (auto simp: assms(2-7))
qed

lemma lock_step_inv:
  assumes "lock_step y z" "lock_inv y"
  shows "lock_inv z"
  using assms(1)
proof cases
  case (enter c l s)
  note i = lock_invD[OF assms(2)]
  have s: "s = pushed c (y_smp y)"
    using enter(3) acquire_enter_runs[OF i(6)[of c]] by (auto split: if_splits)
  show ?thesis
    by (rule lock_inv_same[OF assms(2)])
      (use enter(2) s i(6,7) in \<open>auto simp: enter(1) lock_goto_def has_taken_def pushed_cli pushed_def cli_wf_def split: if_splits\<close>)
next
  case (spin c l old s)
  note i = lock_invD[OF assms(2)]
  have s: "s = upd_lock l (\<lambda>k. k\<lparr>lk_locked := 1\<rparr>) (y_smp y)" "lk_locked (m_lock (y_smp y) l) \<noteq> 0"
    using spin(3,4) by (auto simp: xchg_lock_def kexec)
  show ?thesis
    by (rule lock_inv_same[OF assms(2)])
      (use spin(2) s i(6,7) in \<open>auto simp: spin(1) lock_goto_def has_taken_def split: if_splits\<close>)
next
  case (win c l s)
  note i = lock_invD[OF assms(2)]
  have s: "s = upd_lock l (\<lambda>k. k\<lparr>lk_locked := 1\<rparr>) (y_smp y)" "lk_locked (m_lock (y_smp y) l) = 0"
    using win(3) by (auto simp: xchg_lock_def kexec)
  then have free: "\<And>d. \<not> has_taken y d l" "\<And>d. l \<notin> set (y_own y d)" "lk_cpu (m_lock (y_smp y) l) = None"
    using i(1)[of l] i(3)[of l] by (auto simp: has_taken_def)
  show ?thesis
  proof (rule lock_invI[OF assms(2), where c = c and l = l])
    show "has_taken z c l \<Longrightarrow> \<forall>d. d \<noteq> c \<longrightarrow> \<not> has_taken y d l" using free(1) by simp
  qed (use win(2) s free i(4-7) in \<open>auto simp: win(1) lock_goto_def has_taken_def\<close>)
next
  case (record_owner c l s)
  note i = lock_invD[OF assms(2)]
  have s: "s = upd_lock l (\<lambda>k. k\<lparr>lk_cpu := Some c\<rparr>) (y_smp y)"
    using record_owner(3) by (auto simp: acquire_record_def mycpu_check_def kexec split: if_splits)
  have mine: "has_taken y c l" "l \<notin> set (y_own y c)"
    using record_owner(2) i(5)[of c l] by (auto simp: has_taken_def)
  have free: "\<And>d. d \<noteq> c \<Longrightarrow> \<not> has_taken y d l" "lk_locked (m_lock (y_smp y) l) \<noteq> 0"
    using i(1)[of l] i(2)[OF mine(1)] mine(1) by blast+
  then have nown: "\<And>d. d \<noteq> c \<Longrightarrow> l \<notin> set (y_own y d)" by (auto simp: has_taken_def)
  show ?thesis
  proof (rule lock_invI[OF assms(2), where c = c and l = l])
    show "has_taken z c l \<Longrightarrow> \<forall>d. d \<noteq> c \<longrightarrow> \<not> has_taken y d l" using free(1) by simp
  qed (use record_owner(2) s mine free nown i(4,6,7)[of c] in
        \<open>auto simp: record_owner(1) lock_goto_def has_taken_def\<close>)
next
  case (leave c l s)
  note i = lock_invD[OF assms(2)]
  have own: "has_lock c l (y_smp y)"
    and s0: "s = upd_lock l (\<lambda>k. k\<lparr>lk_cpu := None\<rparr>) (popped c (pushed c (y_smp y)))"
    using leave(3) holding_runs[OF i(6)[of c], of l] by (auto simp: release_enter_def kexec split: if_splits)
  have mine: "has_taken y c l" "l \<in> set (y_own y c)"
    using own i(3)[of l c] by (auto simp: has_lock_def has_taken_def)
  then have "0 < x_ncli (m_cli (y_smp y) c)" using leave(2) i(7)[of c] by (auto intro: length_pos_if_in_set)
  then have s: "s = upd_lock l (\<lambda>k. k\<lparr>lk_cpu := None\<rparr>) (y_smp y)"
    using s0 i(6)[of c] popped_pushed_inner by (auto simp: cli_wf_def)
  have free: "\<And>d. d \<noteq> c \<Longrightarrow> \<not> has_taken y d l" "lk_locked (m_lock (y_smp y) l) \<noteq> 0"
    using i(1)[of l] i(2)[OF mine(1)] mine(1) by blast+
  then have nown: "\<And>d. d \<noteq> c \<Longrightarrow> l \<notin> set (y_own y d)" by (auto simp: has_taken_def)
  have len: "length (y_own y c) = Suc (length (remove1 l (y_own y c)))"
    using mine(2) by (simp add: length_remove1) (metis Suc_pred length_pos_if_in_set)
  show ?thesis
  proof (rule lock_invI[OF assms(2), where c = c and l = l])
    show "has_taken z c l \<Longrightarrow> \<forall>d. d \<noteq> c \<longrightarrow> \<not> has_taken y d l" using free(1) by simp
  qed (use leave(2) s mine free nown len i(4,6,7)[of c] in
        \<open>auto simp: leave(1) lock_goto_def has_taken_def\<close>)
next
  case (store c l s)
  note i = lock_invD[OF assms(2)]
  have s: "s = upd_lock l (\<lambda>k. k\<lparr>lk_locked := 0\<rparr>) (y_smp y)"
    using store(3) by (auto simp: release_store_def kexec)
  have mine: "has_taken y c l" "l \<notin> set (y_own y c)"
    using store(2) i(5)[of c l] by (auto simp: has_taken_def)
  have free: "\<And>d. d \<noteq> c \<Longrightarrow> \<not> has_taken y d l" using i(2)[OF mine(1)] by blast
  have nown: "l \<notin> set (y_own y d)" for d
    using free[of d] mine(2) by (cases "d = c") (auto simp: has_taken_def)
  then have nocpu: "lk_cpu (m_lock (y_smp y) l) = None"
    using i(3)[of l] by (cases "lk_cpu (m_lock (y_smp y) l)") auto
  show ?thesis
  proof (rule lock_invI[OF assms(2), where c = c and l = l])
    show "has_taken z c l \<Longrightarrow> \<forall>d. d \<noteq> c \<longrightarrow> \<not> has_taken y d l" using free(1) by simp
  qed (use store(2) s mine free nown nocpu i(4,6,7)[of c] in
        \<open>auto simp: store(1) lock_goto_def has_taken_def\<close>)
next
  case (pop c s)
  note i = lock_invD[OF assms(2)]
  have "0 < x_ncli (m_cli (y_smp y) c)" "\<not> x_if (m_cli (y_smp y) c)"
    using i(6,7)[of c] pop(2) by (auto simp: cli_wf_def)
  then have s: "s = popped c (y_smp y)" using pop(3) popcli_runs by auto
  show ?thesis
    by (rule lock_inv_same[OF assms(2)])
      (use pop(2) s i(6,7) in \<open>auto simp: pop(1) lock_goto_def has_taken_def popped_def cli_wf_def split: if_splits\<close>)
next
  case (interrupts c b)
  note i = lock_invD[OF assms(2)]
  show ?thesis
    by (rule lock_inv_same[OF assms(2)])
      (use interrupts(2,3) i(6,7) in \<open>auto simp: interrupts(1) has_taken_def cli_wf_def split: if_splits\<close>)
qed

lemma lock_reachable_inv: "lock_step\<^sup>*\<^sup>* lock_init y \<Longrightarrow> lock_inv y"
  by (induction rule: rtranclp_induct) (auto simp: lock_inv_init lock_step_inv)

text \<open>
  C7: mutual exclusion. In every interleaving of the CPUs' atomic actions, from the state in
  which all locks are free, at most one CPU holds a spin lock, the lock word names it, and it
  runs with interrupts off, so no interrupt handler of that CPU can spin on the lock.
\<close>

theorem spinlock_mutual_exclusion:
  assumes "lock_step\<^sup>*\<^sup>* lock_init y" and "l \<in> set (y_own y c)"
  shows "(\<forall>d. l \<in> set (y_own y d) \<longrightarrow> d = c) \<and> has_lock c l (y_smp y) \<and> \<not> x_if (m_cli (y_smp y) c)"
proof -
  note i = lock_invD[OF lock_reachable_inv[OF assms(1)]]
  have "has_taken y c l" using assms(2) by (simp add: has_taken_def)
  then have "has_lock c l (y_smp y)" using i(1)[of l] i(3)[of l c] assms(2) by (auto simp: has_lock_def)
  moreover have "0 < length (y_own y c)" using assms(2) by (rule length_pos_if_in_set)
  then have "\<not> x_if (m_cli (y_smp y) c)" using i(6,7)[of c] by (auto simp: cli_wf_def split: if_splits)
  moreover have "\<forall>d. l \<in> set (y_own y d) \<longrightarrow> d = c"
    using i(2) assms(2) unfolding has_taken_def by blast
  ultimately show ?thesis by blast
qed

lemma one_lock_taken: "\<exists>y. lock_step\<^sup>*\<^sup>* lock_init y \<and> L_kmem \<in> set (y_own y 0)"
proof -
  define s1 where "s1 = pushed 0 (y_smp lock_init)"
  define y1 where "y1 = lock_goto 0 (Spinning L_kmem) s1 lock_init"
  define s2 where "s2 = upd_lock L_kmem (\<lambda>k. k\<lparr>lk_locked := 1\<rparr>) s1"
  define y2 where "y2 = lock_goto 0 (Took L_kmem) s2 y1"
  define s3 where "s3 = upd_lock L_kmem (\<lambda>k. k\<lparr>lk_cpu := Some 0\<rparr>) s2"
  define y3 where "y3 = (lock_goto 0 Outside s3 y2)\<lparr>y_own := (y_own y2)(0 := L_kmem # y_own y2 0)\<rparr>"
  have "cli_wf (m_cli (y_smp lock_init) 0)" "\<not> has_lock 0 L_kmem (y_smp lock_init)"
    by (simp_all add: lock_init_def cli_wf_def has_lock_def)
  then have "lock_step lock_init y1"
    unfolding y1_def by (intro lock_step.enter) (simp_all add: acquire_enter_runs s1_def lock_init_def)
  moreover have "lock_step y1 y2"
    unfolding y2_def
    by (intro lock_step.win)
      (simp_all add: y1_def lock_goto_def xchg_lock_def kexec s2_def s1_def pushed_cli lock_init_def)
  moreover have "lock_step y2 y3"
    unfolding y3_def
    by (intro lock_step.record_owner)
      (simp_all add: y2_def lock_goto_def acquire_record_def mycpu_check_def kexec s3_def s2_def s1_def pushed_cli)
  ultimately have "lock_step\<^sup>*\<^sup>* lock_init y3" by (auto intro: rtranclp.rtrancl_into_rtrancl)
  moreover have "L_kmem \<in> set (y_own y3 0)" by (simp add: y3_def)
  ultimately show ?thesis by blast
qed

lemma spinlock_mutual_exclusion_witness:
  "\<exists>y. lock_step\<^sup>*\<^sup>* lock_init y \<and> (\<forall>d. L_kmem \<in> set (y_own y d) \<longrightarrow> d = 0) \<and>
     has_lock 0 L_kmem (y_smp y) \<and> \<not> x_if (m_cli (y_smp y) 0)"
proof -
  obtain y where y: "lock_step\<^sup>*\<^sup>* lock_init y" "L_kmem \<in> set (y_own y 0)"
    using one_lock_taken by blast
  then show ?thesis using spinlock_mutual_exclusion[OF y] by blast
qed

text \<open>
  C18: refinement. Each of \<open>acquire\<close> and \<open>release\<close>, run on the lock words and the interrupt
  flag, ends as the operation on the list of held locks does: the same panic, a spin in the
  same states, or a return to related states.
\<close>

theorem spinlocks_refine:
  "lock_rel s k \<Longrightarrow>
     same_outcome lock_rel (acquire_lk (k_me k) l s) (acquire l k) \<and>
     same_outcome lock_rel (release_lk (k_me k) l s) (release l k)"
  by (simp add: acquire_refines release_refines)

lemma spinlocks_refine_witness:
  "same_outcome lock_rel (acquire_lk 0 L_kmem (y_smp lock_init)) (acquire L_kmem sample_kernel) \<and>
   same_outcome lock_rel (release_lk 0 L_kmem (y_smp lock_init)) (release L_kmem sample_kernel)"
proof -
  have "lock_rel (y_smp lock_init) sample_kernel"
    by (simp add: lock_rel_def sample_kernel_def lock_init_def has_lock_def cli_wf_def held_by_def)
  then show ?thesis
    using spinlocks_refine[of "y_smp lock_init" sample_kernel L_kmem] by (simp add: sample_kernel_def)
qed

end
