(* ===== verification/Kalloc.thy ===== *)
theory Kalloc
  imports Kernel_State
begin

unbundle bit_operations_syntax

text \<open>
  \<open>kalloc.c\<close>: the page allocator. The free list is a chain of words in the free pages
  themselves; \<open>free_list\<close> reads it as a list of page addresses, and the contract
  \<open>page_allocator\<close> is what the users of the allocator rely on.
\<close>

section \<open>Operations\<close>

definition PGSIZE :: u32 where "PGSIZE = 4096"
definition KERNBASE :: u32 where "KERNBASE = 0x80000000"
definition PHYSTOP :: u32 where "PHYSTOP = 0xE000000"

definition V2P :: "u32 \<Rightarrow> u32" where "V2P a = a - KERNBASE"
definition P2V :: "u32 \<Rightarrow> u32" where "P2V a = a + KERNBASE"

definition PGROUNDUP :: "u32 \<Rightarrow> u32" where
  "PGROUNDUP sz = (sz + PGSIZE - 1) AND NOT (PGSIZE - 1)"

definition PGROUNDDOWN :: "u32 \<Rightarrow> u32" where
  "PGROUNDDOWN a = a AND NOT (PGSIZE - 1)"

definition kfree :: "u32 \<Rightarrow> unit kmon" where
  "kfree v = kseq [
     kwhen (\<lambda>s. v mod PGSIZE \<noteq> 0 \<or> v < k_end s \<or> PHYSTOP \<le> V2P v) (kpanic ''kfree''),
     kupd (\<lambda>s. s\<lparr>k_mem := memset v 1 PGSIZE (k_mem s)\<rparr>),
     kwhen k_use_lock (acquire L_kmem),
     kupd (\<lambda>s. s\<lparr>k_mem := store32 (k_mem s) v (k_freelist s)\<rparr>),
     kupd (\<lambda>s. s\<lparr>k_freelist := v\<rparr>),
     kwhen k_use_lock (release L_kmem)]"

definition kalloc :: "u32 kmon" where
  "kalloc =
     kbind (kwhen k_use_lock (acquire L_kmem)) (\<lambda>_.
     kbind (kget k_freelist) (\<lambda>r.
     kbind (kwhen (\<lambda>s. r \<noteq> 0) (kupd (\<lambda>s. s\<lparr>k_freelist := load32 (k_mem s) r\<rparr>))) (\<lambda>_.
     kbind (kwhen k_use_lock (release L_kmem)) (\<lambda>_.
     kret r))))"

text \<open>
  The loop of \<open>freerange\<close>. \<open>kfree\<close> panics outside \<open>[end, P2V(PHYSTOP))\<close>, so the loop ends
  within \<open>FREERANGE_FUEL\<close> pages, which is more than \<open>PHYSTOP\<close> has.
\<close>

definition FREERANGE_FUEL :: nat where "FREERANGE_FUEL = 0x10000"

fun freerange_loop :: "nat \<Rightarrow> u32 \<Rightarrow> u32 \<Rightarrow> unit kmon" where
  "freerange_loop 0 p vend s = Spin"
| "freerange_loop (Suc n) p vend s =
     (if p + PGSIZE \<le> vend then kbind (kfree p) (\<lambda>_. freerange_loop n (p + PGSIZE) vend) s
      else Ret () s)"

definition freerange :: "u32 \<Rightarrow> u32 \<Rightarrow> unit kmon" where
  "freerange vstart vend = freerange_loop FREERANGE_FUEL (PGROUNDUP vstart) vend"

definition kinit1 :: "u32 \<Rightarrow> u32 \<Rightarrow> unit kmon" where
  "kinit1 vstart vend = kseq [kupd (\<lambda>s. s\<lparr>k_use_lock := False\<rparr>), freerange vstart vend]"

definition kinit2 :: "u32 \<Rightarrow> u32 \<Rightarrow> unit kmon" where
  "kinit2 vstart vend = kseq [freerange vstart vend, kupd (\<lambda>s. s\<lparr>k_use_lock := True\<rparr>)]"

text \<open>The count of \<open>kmemtop\<close>: \<open>None\<close> if the list has no end.\<close>

partial_function (option) count_runs :: "memory \<Rightarrow> u32 \<Rightarrow> u32 \<Rightarrow> u32 option" where
  "count_runs m r cnt = (if r = 0 then Some cnt else count_runs m (load32 m r) (cnt + 1))"

definition kmemtop :: "u32 kmon" where
  "kmemtop =
     kbind (acquire L_kmem) (\<lambda>_.
     kbind (kopt (\<lambda>s. count_runs (k_mem s) (k_freelist s) 0)) (\<lambda>cnt.
     kbind (release L_kmem) (\<lambda>_. kret (cnt * PGSIZE))))"

section \<open>The free list\<close>

fun free_list :: "memory \<Rightarrow> u32 \<Rightarrow> u32 list \<Rightarrow> bool" where
  "free_list m r [] \<longleftrightarrow> r = 0"
| "free_list m r (p # ps) \<longleftrightarrow> r = p \<and> p \<noteq> 0 \<and> free_list m (load32 m p) ps"

definition page_ok :: "kernel \<Rightarrow> u32 \<Rightarrow> bool" where
  "page_ok s p \<longleftrightarrow> p \<noteq> 0 \<and> p mod PGSIZE = 0 \<and> k_end s \<le> p \<and> V2P p < PHYSTOP"

definition kmem_inv :: "kernel \<Rightarrow> u32 list \<Rightarrow> bool" where
  "kmem_inv s ps \<longleftrightarrow> free_list (k_mem s) (k_freelist s) ps \<and> distinct ps \<and> (\<forall>p \<in> set ps. page_ok s p)"

text \<open>The lock is free, or not used yet.\<close>

definition kmem_ready :: "kernel \<Rightarrow> bool" where
  "kmem_ready s \<longleftrightarrow> (k_use_lock s \<longrightarrow> lock_free L_kmem s)"

text \<open>The bytes of a page.\<close>

definition in_page :: "u32 \<Rightarrow> u32 \<Rightarrow> bool" where
  "in_page p a \<longleftrightarrow> a - p < PGSIZE"

lemma in_page_start [simp]: "in_page p p"
  by (simp add: in_page_def PGSIZE_def)

lemma page_words:
  assumes "p mod PGSIZE = 0" "q mod PGSIZE = 0" "p \<noteq> q" "k < 4"
  shows "\<not> in_page p (q + k)"
proof -
  have d: "4096 dvd uint p" "4096 dvd uint q"
    using assms(1,2)[THEN arg_cong[where f = uint]] by (simp_all add: uint_mod_distrib PGSIZE_def dvd_eq_mod_eq_0)
  have "uint (q - p) = (uint q - uint p) mod 2 ^ 32" by (simp add: uint_word_ariths)
  moreover have "(4096::int) dvd 2 ^ 32" by simp
  ultimately have "4096 dvd uint (q - p)" using d by (metis dvd_diff dvd_mod)
  then obtain j where j: "uint (q - p) = 4096 * j" by (elim dvdE)
  have "q - p \<noteq> 0" using assms(3) by simp
  then have nz: "uint (q - p) \<noteq> 0" by (simp only: uint_0_iff not_False_eq_True)
  have b: "0 \<le> uint (q - p)" "uint (q - p) < 2 ^ 32" using uint_lt2p[of "q - p"] by auto
  have "uint (q - p) \<le> 2 ^ 32 - 4096" "4096 \<le> uint (q - p)"
    using j nz b by auto
  moreover have k: "0 \<le> uint k" "uint k < 4" using assms(4) by (simp_all add: word_less_def)
  ultimately have "uint (q - p + k) = uint (q - p) + uint k"
    by (simp add: uint_word_ariths(1))
  moreover have e: "q + k - p = q - p + k" by simp
  ultimately have "4096 \<le> uint (q + k - p)" using \<open>4096 \<le> uint (q - p)\<close> k(1) unfolding e by linarith
  then show ?thesis by (simp add: in_page_def PGSIZE_def word_less_def)
qed

lemma load32_cong: "(\<And>k. k < 4 \<Longrightarrow> m (a + k) = m' (a + k)) \<Longrightarrow> load32 m a = load32 m' a"
proof -
  assume h: "\<And>k. k < 4 \<Longrightarrow> m (a + k) = m' (a + k)"
  from h[of 0] h[of 1] h[of 2] h[of 3] show ?thesis by (simp add: load32_def)
qed

text \<open>A memory that agrees outside one page has the same free list, if the page is not on it.\<close>

lemma free_list_cong:
  assumes "\<And>a. \<not> in_page v a \<Longrightarrow> m' a = m a" "v mod PGSIZE = 0"
    "\<forall>p \<in> set ps. p mod PGSIZE = 0 \<and> p \<noteq> v"
  shows "free_list m' r ps = free_list m r ps"
  using assms(3)
proof (induction ps arbitrary: r)
  case (Cons p ps)
  then have p: "p mod PGSIZE = 0" "p \<noteq> v" by auto
  have "load32 m' p = load32 m p"
  proof (rule load32_cong)
    fix k :: u32 assume "k < 4"
    then show "m' (p + k) = m (p + k)"
      using page_words[OF assms(2) p(1)] p(2) assms(1) by metis
  qed
  with Cons show ?case by simp
qed simp

section \<open>The operations on the free list\<close>

lemma store32_in_page:
  assumes "\<not> in_page v a" shows "store32 m v x a = m a"
proof -
  have "4 \<le> a - v" using assms by (simp add: in_page_def PGSIZE_def word_le_def word_less_def)
  then show ?thesis by (rule store32_other)
qed

lemma kfree_runs:
  assumes "page_ok s v" "kmem_ready s"
  shows "kfree v s = Ret () (s\<lparr>k_mem := store32 (memset v 1 PGSIZE (k_mem s)) v (k_freelist s),
     k_freelist := v\<rparr>)"
  using assms
  by (auto simp: kfree_def page_ok_def kmem_ready_def kexec acquire_free release_held holding_def
      lock_free_def)

lemma kalloc_runs:
  assumes "kmem_ready s"
  shows "kalloc s = Ret (k_freelist s)
     (s\<lparr>k_freelist := (if k_freelist s = 0 then 0 else load32 (k_mem s) (k_freelist s))\<rparr>)"
  using assms
  by (auto simp: kalloc_def kmem_ready_def kexec acquire_free release_held holding_def lock_free_def)

lemma kfree_panics:
  "v mod PGSIZE \<noteq> 0 \<or> v < k_end s \<or> PHYSTOP \<le> V2P v \<Longrightarrow> kfree v s = Panic ''kfree''"
  by (simp add: kfree_def kexec)

lemma kfree_inv:
  assumes inv: "kmem_inv s ps" and v: "page_ok s v" "v \<notin> set ps" and ready: "kmem_ready s"
  obtains t where "kfree v s = Ret () t" "kmem_inv t (v # ps)"
    "\<And>a. \<not> in_page v a \<Longrightarrow> k_mem t a = k_mem s a"
    "t = s\<lparr>k_mem := k_mem t, k_freelist := v\<rparr>"
proof -
  define m where "m = store32 (memset v 1 PGSIZE (k_mem s)) v (k_freelist s)"
  define t where "t = s\<lparr>k_mem := m, k_freelist := v\<rparr>"
  have other: "m a = k_mem s a" if "\<not> in_page v a" for a
  proof -
    have "memset v 1 PGSIZE (k_mem s) a = k_mem s a"
      using that by (simp add: memset_apply in_page_def)
    then show ?thesis using store32_in_page[OF that] by (simp add: m_def)
  qed
  have "free_list m (load32 m v) ps"
    using inv v by (subst free_list_cong[OF other, where v = v]) (auto simp: m_def kmem_inv_def page_ok_def)
  then have "kmem_inv t (v # ps)"
    using inv v by (simp add: kmem_inv_def t_def page_ok_def)
  then show thesis
    using that[of t] kfree_runs[OF v(1) ready] other by (simp add: t_def m_def)
qed

lemma kalloc_inv:
  assumes inv: "kmem_inv s ps" and ready: "kmem_ready s"
  obtains (none) "ps = []" "kalloc s = Ret 0 s"
  | (some) p qs t where "ps = p # qs" "kalloc s = Ret p t" "kmem_inv t qs" "t = s\<lparr>k_freelist := k_freelist t\<rparr>"
proof (cases ps)
  case Nil
  then have "k_freelist s = 0" using inv by (simp add: kmem_inv_def)
  moreover from this have "s\<lparr>k_freelist := 0\<rparr> = s" by simp
  ultimately show thesis using Nil none kalloc_runs[OF ready] by simp
next
  case (Cons p qs)
  define t where "t = s\<lparr>k_freelist := load32 (k_mem s) p\<rparr>"
  have p: "k_freelist s = p" "p \<noteq> 0" using inv Cons by (auto simp: kmem_inv_def)
  then have "kalloc s = Ret p t" using kalloc_runs[OF ready] by (simp add: t_def)
  moreover have "kmem_inv t qs" using inv Cons p by (simp add: kmem_inv_def t_def page_ok_def)
  ultimately show thesis using some[of p qs t] Cons by (simp add: t_def)
qed

lemma count_runs_list:
  "free_list m r ps \<Longrightarrow> count_runs m r c = Some (c + of_nat (length ps))"
proof (induction ps arbitrary: r c)
  case Nil
  then show ?case by (simp add: count_runs.simps)
next
  case (Cons p ps)
  then have "count_runs m r c = count_runs m (load32 m r) (c + 1)"
    by (subst count_runs.simps) simp
  also have "\<dots> = Some (c + 1 + of_nat (length ps))" using Cons by simp
  finally show ?case by (simp add: algebra_simps)
qed

section \<open>The contract of the allocator\<close>

text \<open>
  \<open>holds s ps\<close>: in state \<open>s\<close> exactly the pages \<open>ps\<close> are free. Allocation hands out a free
  page or, if there is none, a null pointer; freeing adds a page.
\<close>

locale page_allocator =
  fixes holds :: "'s \<Rightarrow> u32 list \<Rightarrow> bool"
    and ready :: "'s \<Rightarrow> bool"
    and usable :: "'s \<Rightarrow> u32 \<Rightarrow> bool"
    and alloc :: "'s \<Rightarrow> (u32, 's) outcome"
    and free :: "u32 \<Rightarrow> 's \<Rightarrow> (unit, 's) outcome"
  assumes alloc_none: "holds s [] \<Longrightarrow> ready s \<Longrightarrow> alloc s = Ret 0 s"
    and alloc_some: "holds s (p # ps) \<Longrightarrow> ready s \<Longrightarrow> \<exists>t. alloc s = Ret p t \<and> holds t ps \<and> ready t"
    and free_page: "holds s ps \<Longrightarrow> ready s \<Longrightarrow> usable s p \<Longrightarrow> p \<notin> set ps \<Longrightarrow>
      \<exists>t. free p s = Ret () t \<and> holds t (p # ps) \<and> ready t"
    and pages_distinct: "holds s ps \<Longrightarrow> distinct ps"
    and pages_usable: "holds s ps \<Longrightarrow> p \<in> set ps \<Longrightarrow> usable s p"
    and not_null: "\<not> usable s 0"
begin

text \<open>\<open>n\<close> allocations, with the pages in the order they were handed out.\<close>

fun alloc_n :: "nat \<Rightarrow> 's \<Rightarrow> (u32 list, 's) outcome" where
  "alloc_n 0 s = Ret [] s"
| "alloc_n (Suc n) s = kbind alloc (\<lambda>p. kbind (alloc_n n) (\<lambda>ps. kret (p # ps))) s"

lemma alloc_n_takes:
  assumes "holds s ps" "ready s" "n \<le> length ps"
  shows "\<exists>t. alloc_n n s = Ret (take n ps) t \<and> holds t (drop n ps) \<and> ready t"
  using assms
proof (induction n arbitrary: s ps)
  case (Suc n)
  then obtain p qs where ps: "ps = p # qs" by (cases ps) auto
  with Suc.prems obtain t where t: "alloc s = Ret p t" "holds t qs" "ready t"
    using alloc_some by blast
  with Suc.IH[of t qs] Suc.prems(3) ps show ?case by (auto simp: kexec)
qed simp

text \<open>Pages handed out are pairwise different, not null, and no longer free.\<close>

lemma alloc_n_fresh:
  assumes "holds s ps" "ready s" "n \<le> length ps"
  shows "\<exists>ps' qs t. alloc_n n s = Ret ps' t \<and> length ps' = n \<and> distinct ps' \<and> 0 \<notin> set ps' \<and>
           holds t qs \<and> set ps' \<inter> set qs = {}"
proof -
  obtain t where t: "alloc_n n s = Ret (take n ps) t" "holds t (drop n ps)"
    using alloc_n_takes[OF assms] by blast
  have "distinct ps" using pages_distinct[OF assms(1)] .
  then have "distinct (take n ps @ drop n ps)" by simp
  then have "distinct (take n ps)" "set (take n ps) \<inter> set (drop n ps) = {}"
    by (simp_all only: distinct_append)
  moreover have "0 \<notin> set (take n ps)" using pages_usable[OF assms(1)] not_null in_set_takeD by metis
  ultimately show ?thesis using t assms(3) by (intro exI[of _ "take n ps"] exI) auto
qed

text \<open>Freeing the page just allocated gives back the same set of free pages, in the same order.\<close>

lemma alloc_free:
  assumes "holds s (p # ps)" "ready s" "\<And>t. usable t p = usable s p"
  shows "\<exists>t u. alloc s = Ret p t \<and> free p t = Ret () u \<and> holds u (p # ps)"
proof -
  obtain t where t: "alloc s = Ret p t" "holds t ps" "ready t" using alloc_some assms by blast
  have "usable t p" "p \<notin> set ps"
    using pages_usable[OF assms(1)] pages_distinct[OF assms(1)] assms(3) by auto
  with free_page[OF t(2,3)] t(1) show ?thesis by blast
qed

end

lemma kmem_ready_upd [simp]:
  "kmem_ready (s\<lparr>k_mem := m\<rparr>) = kmem_ready s" "kmem_ready (s\<lparr>k_freelist := r\<rparr>) = kmem_ready s"
  by (simp_all add: kmem_ready_def lock_free_def)

lemma page_ok_upd [simp]:
  "page_ok (s\<lparr>k_mem := m\<rparr>) = page_ok s" "page_ok (s\<lparr>k_freelist := r\<rparr>) = page_ok s"
  by (simp_all add: page_ok_def fun_eq_iff)

interpretation kmem: page_allocator kmem_inv kmem_ready page_ok kalloc kfree
proof
  fix s p ps assume "kmem_inv s (p # ps)" "kmem_ready s"
  then show "\<exists>t. kalloc s = Ret p t \<and> kmem_inv t ps \<and> kmem_ready t"
  proof (cases rule: kalloc_inv)
    case (some q qs t)
    then show ?thesis by (metis kmem_ready_upd(2) \<open>kmem_ready s\<close> list.inject)
  qed simp
next
  fix s ps p assume "kmem_inv s ps" "kmem_ready s" "page_ok s p" "p \<notin> set ps"
  then show "\<exists>t. kfree p s = Ret () t \<and> kmem_inv t (p # ps) \<and> kmem_ready t"
    by (metis kfree_inv kmem_ready_upd)
next
  fix s assume "kmem_inv s []" "kmem_ready s"
  then show "kalloc s = Ret 0 s" by (cases rule: kalloc_inv) auto
qed (simp_all add: kmem_inv_def page_ok_def)

section \<open>freerange\<close>

definition page_seq :: "u32 \<Rightarrow> nat \<Rightarrow> u32 list" where
  "page_seq p n = map (\<lambda>i. p + of_nat i * PGSIZE) [0..<n]"

lemma page_seq_Suc: "page_seq p (Suc n) = p # page_seq (p + PGSIZE) n"
  by (simp add: page_seq_def upt_conv_Cons map_Suc_upt[symmetric] comp_def algebra_simps del: upt_Suc)

lemma page_aligned_iff: "p mod PGSIZE = 0 \<longleftrightarrow> 4096 dvd unat p"
proof -
  have "p mod PGSIZE = 0 \<longleftrightarrow> unat (p mod PGSIZE) = 0" by (simp add: unat_eq_0)
  also have "unat (p mod PGSIZE) = unat p mod 4096" by (simp add: unat_mod_distrib PGSIZE_def)
  finally show ?thesis by (simp add: dvd_eq_mod_eq_0)
qed

lemma unat_add_page: "unat p + 4096 < 2 ^ 32 \<Longrightarrow> unat (p + PGSIZE) = unat p + 4096"
  by (simp add: unat_word_ariths PGSIZE_def)

lemma PGROUNDDOWN_eq: "PGROUNDDOWN a = a div 4096 * 4096"
proof -
  have m: "(PGSIZE - 1 :: u32) = mask 12" by (simp add: PGSIZE_def mask_eq_exp_minus_1)
  have "a AND NOT (mask 12) = push_bit 12 (drop_bit 12 a)"
    by (rule bit_eqI) (auto simp: bit_simps)
  then show ?thesis unfolding PGROUNDDOWN_def m by (simp add: push_bit_eq_mult drop_bit_eq_div)
qed

lemma unat_PGROUNDDOWN: "unat (PGROUNDDOWN a) = unat a div 4096 * 4096"
proof -
  have "unat a div 4096 * 4096 < 2 ^ 32"
    using unsigned_less[of a, where 'a = nat] div_times_less_eq_dividend[of "unat a" 4096] by simp
  then show ?thesis
    unfolding PGROUNDDOWN_eq by (simp add: unat_word_ariths unat_div_distrib)
qed

lemma PGROUNDUP_eq: "PGROUNDUP a = PGROUNDDOWN (a + 4095)"
proof -
  have "a + PGSIZE - 1 = a + 4095" by (simp add: PGSIZE_def)
  then show ?thesis by (simp only: PGROUNDUP_def PGROUNDDOWN_def)
qed

lemma unat_PGROUNDUP:
  "unat a + 4095 < 2 ^ 32 \<Longrightarrow> unat (PGROUNDUP a) = (unat a + 4095) div 4096 * 4096"
  by (simp add: PGROUNDUP_eq unat_PGROUNDDOWN unat_word_ariths)

lemma PGROUNDUP_aligned [simp]: "PGROUNDUP a mod PGSIZE = 0"
  by (simp add: page_aligned_iff PGROUNDUP_eq unat_PGROUNDDOWN)

lemma PGROUNDDOWN_aligned [simp]: "PGROUNDDOWN a mod PGSIZE = 0"
  by (simp add: page_aligned_iff unat_PGROUNDDOWN)

text \<open>The pages below \<open>P2V(PHYSTOP)\<close>, as numbers.\<close>

lemma page_ok_nat:
  "page_ok s p \<longleftrightarrow> 4096 dvd unat p \<and> p \<noteq> 0 \<and> k_end s \<le> p \<and> V2P p < PHYSTOP"
  by (auto simp: page_ok_def page_aligned_iff)

lemma V2P_below:
  assumes "KERNBASE \<le> p" "unat p < 0x8E000000" shows "V2P p < PHYSTOP"
proof -
  have "unat (p - KERNBASE) = unat p - unat KERNBASE" using assms(1) by (rule unat_sub)
  then show ?thesis using assms(2) by (simp add: V2P_def PHYSTOP_def KERNBASE_def word_less_nat_alt)
qed

lemma freerange_loop_runs:
  assumes "n < fuel" "p mod PGSIZE = 0" "KERNBASE \<le> p" "k_end s \<le> p"
    "unat p + 4096 * n \<le> unat vend" "unat vend < unat p + 4096 * (n + 1)" "unat vend \<le> 0x8E000000"
    "kmem_inv s ps" "kmem_ready s" "set (page_seq p n) \<inter> set ps = {}"
  shows "\<exists>t. freerange_loop fuel p vend s = Ret () t \<and> kmem_inv t (rev (page_seq p n) @ ps) \<and>
    t = s\<lparr>k_mem := k_mem t, k_freelist := k_freelist t\<rparr>"
  using assms
proof (induction n arbitrary: fuel p s ps)
  case 0
  have "unat p + 4096 < 2 ^ 32" using 0 by simp
  then have "\<not> p + PGSIZE \<le> vend" using 0 by (simp add: word_le_nat_alt unat_add_page)
  then show ?case using 0 by (cases fuel) (auto simp: page_seq_def)
next
  case (Suc n)
  have small: "unat p + 4096 < 2 ^ 32" using Suc.prems by simp
  then have next_le: "p + PGSIZE \<le> vend" using Suc.prems by (simp add: word_le_nat_alt unat_add_page)
  have "V2P p < PHYSTOP" using Suc.prems by (intro V2P_below) auto
  moreover have "p \<noteq> 0" using Suc.prems(3) by (auto simp: KERNBASE_def)
  ultimately have ok: "page_ok s p" using Suc.prems by (simp add: page_ok_def)
  have "p \<notin> set ps" using Suc.prems(10) by (auto simp: page_seq_Suc)
  from kfree_inv[OF Suc.prems(8) ok this Suc.prems(9)] obtain u where
    u: "kfree p s = Ret () u" "kmem_inv u (p # ps)" "u = s\<lparr>k_mem := k_mem u, k_freelist := p\<rparr>" by metis
  obtain g where g: "fuel = Suc g" using Suc.prems(1) by (cases fuel) auto
  have step: "p \<le> p + PGSIZE" using small by (simp add: word_le_nat_alt unat_add_page)
  have notin: "p \<notin> set (page_seq (p + PGSIZE) n)"
  proof
    assume "p \<in> set (page_seq (p + PGSIZE) n)"
    then obtain i where i: "i < n" "p = p + PGSIZE + of_nat i * PGSIZE" by (auto simp: page_seq_def)
    then have z: "of_nat (4096 * Suc i) = (0::u32)" by (simp add: PGSIZE_def algebra_simps)
    have "4096 * Suc i < 2 ^ 32" using i(1) Suc.prems by simp
    then have "(4096 * Suc i) mod 2 ^ 32 = 4096 * Suc i" by (rule mod_less)
    then have "unat (of_nat (4096 * Suc i) :: u32) = 4096 * Suc i" unfolding unat_of_nat by simp
    then show False unfolding z by simp
  qed
  have "\<exists>t. freerange_loop g (p + PGSIZE) vend u = Ret () t \<and>
      kmem_inv t (rev (page_seq (p + PGSIZE) n) @ p # ps) \<and>
      t = u\<lparr>k_mem := k_mem t, k_freelist := k_freelist t\<rparr>"
  proof (rule Suc.IH)
    show "n < g" using Suc.prems(1) g by simp
    show "(p + PGSIZE) mod PGSIZE = 0"
      using Suc.prems(2) small by (simp add: page_aligned_iff unat_add_page)
    show "KERNBASE \<le> p + PGSIZE" using Suc.prems(3) step by simp
    have "k_end u = k_end s" by (subst u(3)) simp
    then show "k_end u \<le> p + PGSIZE" using Suc.prems(4) step by simp
    show "unat (p + PGSIZE) + 4096 * n \<le> unat vend" "unat vend < unat (p + PGSIZE) + 4096 * (n + 1)"
      using Suc.prems(5,6) small by (simp_all add: unat_add_page)
    show "kmem_ready u" by (subst u(3)) (simp add: Suc.prems(9))
    show "set (page_seq (p + PGSIZE) n) \<inter> set (p # ps) = {}"
      using notin Suc.prems(10) by (auto simp: page_seq_Suc)
  qed (use u(2) Suc.prems in auto)
  then obtain t where t: "freerange_loop g (p + PGSIZE) vend u = Ret () t"
      "kmem_inv t (rev (page_seq (p + PGSIZE) n) @ p # ps)"
      "t = u\<lparr>k_mem := k_mem t, k_freelist := k_freelist t\<rparr>" by blast
  have "t = s\<lparr>k_mem := k_mem t, k_freelist := k_freelist t\<rparr>"
    by (subst t(3), subst u(3)) simp
  then show ?case using g next_le u(1) t by (auto simp: kexec page_seq_Suc)
qed

lemma freerange_runs:
  assumes "KERNBASE \<le> vstart" "k_end s \<le> vstart" "unat vend \<le> 0x8E000000"
    "PGROUNDUP vstart \<le> vend" "kmem_inv s ps" "kmem_ready s"
    and n: "n = (unat vend - unat (PGROUNDUP vstart)) div 4096"
    and disj: "set (page_seq (PGROUNDUP vstart) n) \<inter> set ps = {}"
    and small: "unat vstart + 4095 < 2 ^ 32"
  shows "\<exists>t. freerange vstart vend s = Ret () t \<and> kmem_inv t (rev (page_seq (PGROUNDUP vstart) n) @ ps) \<and>
    t = s\<lparr>k_mem := k_mem t, k_freelist := k_freelist t\<rparr>"
  unfolding freerange_def
proof (rule freerange_loop_runs)
  let ?p = "PGROUNDUP vstart"
  have le: "unat ?p \<le> unat vend" using assms(4) by (simp add: word_le_nat_alt)
  have up: "vstart \<le> ?p"
    using small unat_PGROUNDUP[OF small] by (simp add: word_le_nat_alt)
  show "KERNBASE \<le> ?p" "k_end s \<le> ?p" using assms(1,2) up by auto
  have "unat KERNBASE \<le> unat ?p" using assms(1) up by (simp add: word_le_nat_alt)
  then have "unat vend - unat ?p \<le> 0xE000000" using assms(3) by (simp add: KERNBASE_def)
  then have "n \<le> 0xE000" unfolding n by linarith
  then show "n < FREERANGE_FUEL" by (simp add: FREERANGE_FUEL_def)
  show "unat ?p + 4096 * n \<le> unat vend" "unat vend < unat ?p + 4096 * (n + 1)"
    using le dividend_less_times_div[of 4096 "unat vend - unat ?p"] unfolding n by simp_all
qed (use assms in auto)

section \<open>Properties\<close>

text \<open>
  C26: the allocator keeps its set of free pages. With the free list of a state equal to \<open>ps\<close>,
  \<open>kalloc\<close> returns null exactly if \<open>ps\<close> is empty and otherwise the head of the list, which
  leaves the list; \<open>kfree\<close> of a page that is not free puts it at the head, and changes no
  byte of memory outside that page.
\<close>

theorem kalloc_kfree_correct:
  assumes "kmem_inv s ps" "kmem_ready s"
  shows "(\<exists>t. kalloc s = Ret (if ps = [] then 0 else hd ps) t \<and> kmem_inv t (tl ps) \<and> k_mem t = k_mem s) \<and>
    (\<forall>v. page_ok s v \<longrightarrow> v \<notin> set ps \<longrightarrow>
      (\<exists>t. kfree v s = Ret () t \<and> kmem_inv t (v # ps) \<and> (\<forall>a. \<not> in_page v a \<longrightarrow> k_mem t a = k_mem s a)))"
proof (intro conjI allI impI)
  show "\<exists>t. kalloc s = Ret (if ps = [] then 0 else hd ps) t \<and> kmem_inv t (tl ps) \<and> k_mem t = k_mem s"
    using assms
  proof (cases rule: kalloc_inv)
    case (some p qs t)
    have "k_mem t = k_mem s" by (subst some(4)) simp
    with some show ?thesis by auto
  qed (use assms in auto)
next
  fix v assume "page_ok s v" "v \<notin> set ps"
  then show "\<exists>t. kfree v s = Ret () t \<and> kmem_inv t (v # ps) \<and> (\<forall>a. \<not> in_page v a \<longrightarrow> k_mem t a = k_mem s a)"
    using kfree_inv[OF assms(1) _ _ assms(2)] by metis
qed

definition one_page :: kernel where
  "one_page = sample_kernel\<lparr>k_freelist := 0x80400000\<rparr>"

lemma one_page_inv: "kmem_inv one_page [0x80400000]" "kmem_ready one_page"
  by (simp_all add: kmem_inv_def one_page_def sample_kernel_def page_ok_def PGSIZE_def PHYSTOP_def
      V2P_def KERNBASE_def load32_def kmem_ready_def)

lemma kalloc_kfree_correct_witness:
  "(\<exists>t. kalloc one_page = Ret 0x80400000 t \<and> kmem_inv t []) \<and>
   (\<exists>t. kfree 0x80401000 one_page = Ret () t \<and> kmem_inv t [0x80401000, 0x80400000])"
proof -
  have "page_ok one_page 0x80401000"
    by (simp add: one_page_def sample_kernel_def page_ok_def PGSIZE_def PHYSTOP_def V2P_def KERNBASE_def)
  then show ?thesis
    using kalloc_kfree_correct[OF one_page_inv] by fastforce
qed

text \<open>
  Pages handed out by successive calls of \<open>kalloc\<close> are pairwise different, never null,
  and none of them is still on the free list.
\<close>

theorem kalloc_no_double_allocation:
  assumes "kmem_inv s ps" "kmem_ready s" "n \<le> length ps"
  shows "\<exists>ps' qs t. page_allocator.alloc_n kalloc n s = Ret ps' t \<and> length ps' = n \<and> distinct ps' \<and>
           0 \<notin> set ps' \<and> kmem_inv t qs \<and> set ps' \<inter> set qs = {}"
  using assms by (rule kmem.alloc_n_fresh)

lemma kalloc_no_double_allocation_witness:
  "\<exists>ps' qs t. page_allocator.alloc_n kalloc 1 one_page = Ret ps' t \<and> length ps' = 1 \<and> distinct ps' \<and>
     0 \<notin> set ps' \<and> kmem_inv t qs \<and> set ps' \<inter> set qs = {}"
  using kalloc_no_double_allocation[OF one_page_inv, of 1] by simp

lemma kmemtop_runs:
  assumes "kmem_inv s ps" "lock_free L_kmem s"
  shows "kmemtop s = Ret (of_nat (length ps) * PGSIZE) s"
proof -
  have "count_runs (k_mem s) (k_freelist s) 0 = Some (of_nat (length ps))"
    using assms(1) count_runs_list[of "k_mem s" "k_freelist s" ps 0] by (simp add: kmem_inv_def)
  then show ?thesis
    using assms(2) by (simp add: kmemtop_def kexec acquire_free release_held holding_def)
qed

text \<open>
  Initialisation and \<open>kmemtop\<close>. \<open>kinit1\<close> on an empty allocator puts exactly the whole
  pages of the range on the free list, and \<open>kmemtop\<close>, which counts the list, then returns
  their total size in bytes and changes nothing.
\<close>

theorem kinit1_kmemtop:
  assumes "KERNBASE \<le> vstart" "k_end s \<le> vstart" "unat vend \<le> 0x8E000000" "PGROUNDUP vstart \<le> vend"
    and "k_freelist s = 0" "lock_free L_kmem s" and small: "unat vstart + 4095 < 2 ^ 32"
    and n: "n = (unat vend - unat (PGROUNDUP vstart)) div 4096"
  shows "\<exists>t. kinit1 vstart vend s = Ret () t \<and> kmem_inv t (rev (page_seq (PGROUNDUP vstart) n)) \<and>
           kmemtop t = Ret (of_nat n * PGSIZE) t"
proof -
  let ?s = "s\<lparr>k_use_lock := False\<rparr>"
  have "kmem_inv ?s []" "kmem_ready ?s" using assms(5) by (simp_all add: kmem_inv_def kmem_ready_def)
  then obtain t where t: "freerange vstart vend ?s = Ret () t"
      "kmem_inv t (rev (page_seq (PGROUNDUP vstart) n))"
      "t = ?s\<lparr>k_mem := k_mem t, k_freelist := k_freelist t\<rparr>"
    using freerange_runs[of vstart ?s vend "[]" n] assms by auto
  have "lock_free L_kmem t" by (subst t(3)) (use assms(6) in \<open>simp add: lock_free_def\<close>)
  then have "kmemtop t = Ret (of_nat n * PGSIZE) t"
    using kmemtop_runs[OF t(2)] by (simp add: page_seq_def)
  then show ?thesis using t by (auto simp: kinit1_def kexec)
qed

lemma kinit1_kmemtop_witness:
  "\<exists>t. kinit1 0x80400001 0x80404000 sample_kernel = Ret () t \<and> kmemtop t = Ret 12288 t"
proof -
  have up: "PGROUNDUP 0x80400001 = 0x80401000" by (simp add: PGROUNDUP_eq PGROUNDDOWN_eq)
  have "\<exists>t. kinit1 0x80400001 0x80404000 sample_kernel = Ret () t \<and>
      kmem_inv t (rev (page_seq (PGROUNDUP 0x80400001) 3)) \<and> kmemtop t = Ret (of_nat 3 * PGSIZE) t"
  proof (rule kinit1_kmemtop)
    show "k_freelist sample_kernel = 0" "lock_free L_kmem sample_kernel" "k_end sample_kernel \<le> 0x80400001"
      by (simp_all add: sample_kernel_def lock_free_def)
  qed (simp_all add: up KERNBASE_def)
  then show ?thesis by (auto simp: PGSIZE_def)
qed

end
