(* ===== verification/Format.thy ===== *)
theory Format
  imports Prelude "HOL-Library.Char_ord"
begin

unbundle bit_operations_syntax

text \<open>
  Formatted output: \<open>printint\<close> and the format loop of \<open>cprintf\<close> (console.c) and of \<open>printf\<close>
  (printf.c), as the characters they send, and \<open>atoi\<close> of ulib.c, which reads a number back.
  The digits go through the code's 16-byte buffer; a write outside it is \<open>None\<close>.
\<close>

section \<open>Operations\<close>

definition ch :: "char \<Rightarrow> u8" where
  "ch c = of_char c"

definition digits_lower :: "u8 list" where
  "digits_lower = map ch ''0123456789abcdef''"

definition digits_upper :: "u8 list" where
  "digits_upper = map ch ''0123456789ABCDEF''"

text \<open>\<open>do buf[i++] = digits[x % base]; while((x /= base) != 0)\<close>\<close>

partial_function (option) digit_loop ::
    "u8 list \<Rightarrow> u32 \<Rightarrow> int \<Rightarrow> u32 \<Rightarrow> u8 list \<Rightarrow> (int \<times> u8 list) option" where
  "digit_loop dg base i x buf =
     (if base = 0 then None
      else Option.bind (aget dg (uint (x mod base))) (\<lambda>d.
        Option.bind (aset buf i d) (\<lambda>buf'.
        if x div base \<noteq> 0 then digit_loop dg base (i + 1) (x div base) buf'
        else Some (i + 1, buf'))))"

text \<open>\<open>while(--i >= 0) putc(buf[i])\<close>\<close>

fun emit_down :: "nat \<Rightarrow> u8 list \<Rightarrow> u8 list option" where
  "emit_down 0 buf = Some []"
| "emit_down (Suc i) buf = do { c \<leftarrow> aget buf (int i); cs \<leftarrow> emit_down i buf; Some (c # cs) }"

definition printint :: "u8 list \<Rightarrow> u32 \<Rightarrow> u32 \<Rightarrow> bool \<Rightarrow> u8 list option" where
  "printint dg xx base sign = do {
     let neg = sign \<and> xx <s 0;
     let x = (if neg then - xx else xx);
     (i, buf) \<leftarrow> digit_loop dg base 0 x (replicate 16 0);
     (i, buf) \<leftarrow> (if neg then do { buf' \<leftarrow> aset buf i (ch CHR ''-''); Some (i + 1, buf') }
                  else Some (i, buf));
     emit_down (nat i) buf }"

text \<open>
  An argument: a word, or a pointer to a string (its bytes up to the NUL; \<open>None\<close> for the
  null pointer). A missing argument, or one of the other kind, is \<open>None\<close>: the code would read
  whatever the stack holds.
\<close>

datatype fmt_arg = Int_arg u32 | Str_arg "u8 list option"

fun arg_string :: "fmt_arg list \<Rightarrow> (u8 list \<times> fmt_arg list) option" where
  "arg_string (Str_arg (Some s) # as) = Some (s, as)"
| "arg_string (Str_arg None # as) = Some (map ch ''(null)'', as)"
| "arg_string _ = None"

fun arg_int :: "fmt_arg list \<Rightarrow> (u32 \<times> fmt_arg list) option" where
  "arg_int (Int_arg x # as) = Some (x, as)"
| "arg_int _ = None"

text \<open>The loop of \<open>cprintf\<close> over the format string.\<close>

fun cformat :: "u8 list \<Rightarrow> fmt_arg list \<Rightarrow> u8 list option" where
  "cformat [] as = Some []"
| "cformat (c # fmt) as =
     (if c = 0 then Some []
      else if c \<noteq> ch CHR ''%'' then do { out \<leftarrow> cformat fmt as; Some (c # out) }
      else case fmt of
        [] \<Rightarrow> Some []
      | d # rest \<Rightarrow>
          if d = 0 then Some []
          else if d = ch CHR ''d'' then do {
            (x, as') \<leftarrow> arg_int as; o1 \<leftarrow> printint digits_lower x 10 True;
            out \<leftarrow> cformat rest as'; Some (o1 @ out) }
          else if d = ch CHR ''x'' \<or> d = ch CHR ''p'' then do {
            (x, as') \<leftarrow> arg_int as; o1 \<leftarrow> printint digits_lower x 16 False;
            out \<leftarrow> cformat rest as'; Some (o1 @ out) }
          else if d = ch CHR ''s'' then do {
            (s, as') \<leftarrow> arg_string as;
            out \<leftarrow> cformat rest as'; Some (s @ out) }
          else if d = ch CHR ''%'' then do { out \<leftarrow> cformat rest as; Some (d # out) }
          else do { out \<leftarrow> cformat rest as; Some (ch CHR ''%'' # d # out) })"

text \<open>The loop of the user library's \<open>printf\<close>; the flag is \<open>state == '%'\<close>.\<close>

fun uformat :: "bool \<Rightarrow> u8 list \<Rightarrow> fmt_arg list \<Rightarrow> u8 list option" where
  "uformat st [] as = Some []"
| "uformat st (c # fmt) as =
     (if c = 0 then Some []
      else if \<not> st then
        (if c = ch CHR ''%'' then uformat True fmt as
         else do { out \<leftarrow> uformat False fmt as; Some (c # out) })
      else if c = ch CHR ''d'' then do {
        (x, as') \<leftarrow> arg_int as; o1 \<leftarrow> printint digits_upper x 10 True;
        out \<leftarrow> uformat False fmt as'; Some (o1 @ out) }
      else if c = ch CHR ''x'' \<or> c = ch CHR ''p'' then do {
        (x, as') \<leftarrow> arg_int as; o1 \<leftarrow> printint digits_upper x 16 False;
        out \<leftarrow> uformat False fmt as'; Some (o1 @ out) }
      else if c = ch CHR ''s'' then do {
        (s, as') \<leftarrow> arg_string as;
        out \<leftarrow> uformat False fmt as'; Some (s @ out) }
      else if c = ch CHR ''c'' then do {
        (x, as') \<leftarrow> arg_int as;
        out \<leftarrow> uformat False fmt as'; Some (ucast x # out) }
      else if c = ch CHR ''%'' then do { out \<leftarrow> uformat False fmt as; Some (c # out) }
      else do { out \<leftarrow> uformat False fmt as; Some (ch CHR ''%'' # c # out) })"

text \<open>\<open>atoi\<close>: \<open>n = n*10 + *s++ - '0'\<close> while \<open>*s\<close> is a digit, in 32-bit arithmetic.\<close>

fun atoi_loop :: "u32 \<Rightarrow> u8 list \<Rightarrow> u32" where
  "atoi_loop n [] = n"
| "atoi_loop n (c # s) =
     (if ch CHR ''0'' \<le> c \<and> c \<le> ch CHR ''9'' then atoi_loop (n * 10 + ucast c - ucast (ch CHR ''0'')) s
      else n)"

definition atoi :: "u8 list \<Rightarrow> u32" where
  "atoi s = atoi_loop 0 s"

section \<open>Numerals\<close>

text \<open>The digits of a number, the most significant first, and the number they denote.\<close>

function numeral_of :: "nat \<Rightarrow> nat \<Rightarrow> nat list" where
  "numeral_of b n = (if b < 2 \<or> n < b then [n] else numeral_of b (n div b) @ [n mod b])"
  by pat_completeness auto
termination
  by (relation "measure snd") (auto intro: div_less_dividend)

declare numeral_of.simps [simp del]

definition denotes :: "nat \<Rightarrow> nat list \<Rightarrow> nat" where
  "denotes b ds = foldl (\<lambda>a d. a * b + d) 0 ds"

lemma denotes_numeral: "2 \<le> b \<Longrightarrow> denotes b (numeral_of b n) = n"
proof (induction n rule: less_induct)
  case (less n)
  show ?case
  proof (cases "n < b")
    case True
    then show ?thesis by (simp add: numeral_of.simps denotes_def)
  next
    case False
    then have "n div b < n" using less.prems by (intro div_less_dividend) auto
    then have "denotes b (numeral_of b (n div b)) = n div b" using less by blast
    then show ?thesis using False less.prems
      by (subst numeral_of.simps) (simp add: denotes_def div_mult_mod_eq)
  qed
qed

lemma numeral_digits: "2 \<le> b \<Longrightarrow> d \<in> set (numeral_of b n) \<Longrightarrow> d < b"
proof (induction n rule: less_induct)
  case (less n)
  show ?case
  proof (cases "n < b")
    case True
    then show ?thesis using less.prems by (simp add: numeral_of.simps)
  next
    case False
    then have "n div b < n" using less.prems by (intro div_less_dividend) auto
    moreover have "numeral_of b n = numeral_of b (n div b) @ [n mod b]"
      using False less.prems(1) by (subst numeral_of.simps) simp
    ultimately show ?thesis using less.IH[of "n div b"] less.prems by auto
  qed
qed

lemma numeral_nonempty [simp]: "numeral_of b n \<noteq> []"
  by (subst numeral_of.simps) simp

lemma numeral_length: "2 \<le> b \<Longrightarrow> n < b ^ k \<Longrightarrow> 0 < k \<Longrightarrow> length (numeral_of b n) \<le> k"
proof (induction k arbitrary: n)
  case (Suc k)
  show ?case
  proof (cases "n < b")
    case True
    then show ?thesis by (simp add: numeral_of.simps)
  next
    case False
    have "n div b < b ^ k" using Suc.prems by (simp add: less_mult_imp_div_less mult.commute)
    moreover have "0 < k" using False Suc.prems by (cases k) auto
    ultimately have "length (numeral_of b (n div b)) \<le> k" using Suc by blast
    then show ?thesis using False Suc.prems by (subst numeral_of.simps) simp
  qed
qed simp

text \<open>The digit loop writes the digits from the least significant on.\<close>

lemma digit_loop_runs:
  assumes "2 \<le> unat base" "unat base \<le> length dg"
    "i + length (numeral_of (unat base) (unat x)) \<le> length buf"
  shows "\<exists>buf'. digit_loop dg base (int i) x buf =
      Some (int (i + length (numeral_of (unat base) (unat x))), buf') \<and>
    length buf' = length buf \<and> take i buf' = take i buf \<and>
    (\<forall>k < length (numeral_of (unat base) (unat x)).
       buf' ! (i + k) = dg ! (rev (numeral_of (unat base) (unat x)) ! k))"
  using assms(3)
proof (induction "unat x" arbitrary: x i buf rule: less_induct)
  case less
  let ?b = "unat base"
  have b0: "base \<noteq> 0" using assms(1) by auto
  have m: "unat (x mod base) = unat x mod ?b" "unat (x div base) = unat x div ?b"
    by (simp_all add: unat_mod_distrib unat_div_distrib)
  have mlt: "unat x mod ?b < length dg"
    using assms(1,2) mod_less_divisor[of ?b "unat x"] by linarith
  have get: "aget dg (uint (x mod base)) = Some (dg ! (unat x mod ?b))"
    using mlt m(1) by (metis aget_nat uint_nat)
  have ilt: "i < length buf" using less.prems numeral_nonempty[of ?b "unat x"]
    by (metis add_less_cancel_left add.right_neutral length_greater_0_conv less_le_trans)
  define buf1 where "buf1 = buf[i := dg ! (unat x mod ?b)]"
  have set1: "aset buf (int i) (dg ! (unat x mod ?b)) = Some buf1" using ilt by (simp add: buf1_def)
  show ?case
  proof (cases "unat x < ?b")
    case True
    then have "x div base = 0" "unat x mod ?b = unat x" using m(2) by (simp_all add: unat_eq_0[symmetric])
    then show ?thesis using True get set1 b0 ilt
      by (simp add: digit_loop.simps numeral_of.simps buf1_def)
  next
    case False
    have lt: "unat (x div base) < unat x"
      using False assms(1) m(2) by (simp add: div_less_dividend)
    have nz: "x div base \<noteq> 0"
    proof
      assume "x div base = 0"
      then have "unat x div ?b = 0" using m(2) by simp
      then show False using False assms(1) by (simp add: div_eq_0_iff)
    qed
    let ?N = "numeral_of ?b (unat x div ?b)"
    have N: "numeral_of ?b (unat x) = ?N @ [unat x mod ?b]"
      using False assms(1) by (subst numeral_of.simps) simp
    have "Suc i + length (numeral_of ?b (unat (x div base))) \<le> length buf1"
      using less.prems N m(2) by (simp add: buf1_def)
    from less.hyps[OF lt this] obtain buf2 where
      b2: "digit_loop dg base (int (Suc i)) (x div base) buf1 = Some (int (Suc i + length ?N), buf2)"
        "length buf2 = length buf1" "take (Suc i) buf2 = take (Suc i) buf1"
        "\<forall>k < length ?N. buf2 ! (Suc i + k) = dg ! (rev ?N ! k)"
      unfolding m(2) by blast
    have ti: "take i buf2 = take i buf" "buf2 ! i = dg ! (unat x mod ?b)"
    proof -
      have "take i buf2 = take i (take (Suc i) buf2)" by simp
      then show "take i buf2 = take i buf" unfolding b2(3) by (simp add: buf1_def)
      have "buf2 ! i = take (Suc i) buf2 ! i" by simp
      then show "buf2 ! i = dg ! (unat x mod ?b)" unfolding b2(3) using ilt by (simp add: buf1_def)
    qed
    have "buf2 ! (i + k) = dg ! (rev (numeral_of ?b (unat x)) ! k)" if "k < Suc (length ?N)" for k
      using that b2(4) ti(2) unfolding N by (cases k) auto
    moreover have "digit_loop dg base (int i) x buf = Some (int (i + length (numeral_of ?b (unat x))), buf2)"
      using get set1 b0 nz b2(1) unfolding N by (subst digit_loop.simps) (simp add: algebra_simps)
    ultimately show ?thesis using b2(2) ti(1) N by (auto simp: buf1_def)
  qed
qed

lemma emit_down_eq: "i \<le> length buf \<Longrightarrow> emit_down i buf = Some (rev (take i buf))"
  by (induction i) (simp_all add: take_Suc_conv_app_nth)

text \<open>\<open>printint\<close> sends the minus sign, if there is one, and the digits in order.\<close>

lemma printint_runs:
  assumes "2 \<le> unat base" "unat base \<le> length dg" "length (numeral_of (unat base) (unat x)) \<le> 15"
    and x: "x = (if sign \<and> xx <s 0 then - xx else xx)"
  shows "printint dg xx base sign =
    Some ((if sign \<and> xx <s 0 then [ch CHR ''-''] else []) @ map ((!) dg) (numeral_of (unat base) (unat x)))"
proof -
  let ?N = "numeral_of (unat base) (unat x)"
  obtain buf where b: "digit_loop dg base 0 x (replicate 16 0) = Some (int (length ?N), buf)"
      "length buf = 16" "\<forall>k < length ?N. buf ! k = dg ! (rev ?N ! k)"
    using digit_loop_runs[OF assms(1,2), of 0 x "replicate 16 0"] assms(3) by auto
  have tk: "take (length ?N) buf = map ((!) dg) (rev ?N)"
    using b(2,3) assms(3) by (intro nth_equalityI) auto
  show ?thesis
  proof (cases "sign \<and> xx <s 0")
    case True
    define buf' where "buf' = buf[length ?N := ch CHR ''-'']"
    have "aset buf (int (length ?N)) (ch CHR ''-'') = Some buf'"
      using b(2) assms(3) by (simp add: buf'_def)
    moreover have "take (Suc (length ?N)) buf' = map ((!) dg) (rev ?N) @ [ch CHR ''-'']"
      using tk b(2) assms(3) by (simp add: buf'_def take_Suc_conv_app_nth)
    ultimately show ?thesis using True b(1,2) x assms(3) tk
      by (simp add: printint_def Let_def emit_down_eq buf'_def rev_map nat_add_distrib)
  next
    case False
    then show ?thesis using b(1,2) x tk assms(3)
      by (auto simp: printint_def Let_def emit_down_eq rev_map)
  qed
qed

section \<open>Decimal numbers\<close>

lemma ch_digits: "ch CHR ''0'' = 48" "ch CHR ''9'' = 57" "ch CHR ''-'' = 45"
  by (simp_all add: ch_def)

lemma lower_nth: "d < 10 \<Longrightarrow> digits_lower ! d = 48 + of_nat d"
  by (simp add: less_Suc_eq numeral_eq_Suc digits_lower_def ch_def) auto

lemma upper_nth: "d < 10 \<Longrightarrow> digits_upper ! d = 48 + of_nat d"
  by (simp add: less_Suc_eq numeral_eq_Suc digits_upper_def ch_def) auto

lemma digits_length [simp]: "length digits_lower = 16" "length digits_upper = 16"
  by (simp_all add: digits_lower_def digits_upper_def)

lemma atoi_digits:
  assumes "\<forall>d \<in> set ds. d < 10"
  shows "atoi_loop (of_nat a) (map (\<lambda>d. 48 + of_nat d) ds) = of_nat (foldl (\<lambda>a d. a * 10 + d) a ds)"
  using assms
proof (induction ds arbitrary: a)
  case (Cons d ds)
  then have d: "d < 10" by simp
  have u: "unat (of_nat d :: u8) = d" using d by (simp add: unat_of_nat)
  have uu: "unat (48 + of_nat d :: u8) = 48 + d" using d u by (simp add: unat_word_ariths)
  have "(48 :: u8) \<le> 48 + of_nat d" "48 + of_nat d \<le> (57 :: u8)"
    using uu d by (simp_all add: word_le_nat_alt)
  moreover have "ucast (48 + of_nat d :: u8) = (48 + of_nat d :: u32)"
  proof -
    have "ucast (48 + of_nat d :: u8) = (of_nat (unat (48 + of_nat d :: u8)) :: u32)"
      by (rule of_nat_unat[symmetric])
    then show ?thesis unfolding uu by simp
  qed
  ultimately have "atoi_loop (of_nat a) (map (\<lambda>d. 48 + of_nat d) (d # ds)) =
      atoi_loop (of_nat a * 10 + (48 + of_nat d) - 48) (map (\<lambda>d. 48 + of_nat d) ds)"
    by (simp only: list.map atoi_loop.simps ch_digits) simp
  also have "of_nat a * 10 + (48 + of_nat d) - 48 = (of_nat (a * 10 + d) :: u32)" by simp
  finally show ?case using Cons.IH[of "a * 10 + d"] Cons.prems by simp
qed simp

text \<open>Every 32-bit number has at most ten decimal digits, so the buffer is large enough.\<close>

lemma decimal_fits: "length (numeral_of 10 (unat (x :: u32))) \<le> 10"
proof -
  have "unat x < 10 ^ 10" using unsigned_less[of x, where 'a = nat] by simp
  then show ?thesis by (intro numeral_length) auto
qed

lemma printint_decimal:
  assumes "dg = digits_lower \<or> dg = digits_upper"
  shows "printint dg xx 10 True =
    Some ((if xx <s 0 then [45] else []) @
      map (\<lambda>d. 48 + of_nat d) (numeral_of 10 (unat (if xx <s 0 then - xx else xx))))"
proof -
  let ?x = "if True \<and> xx <s 0 then - xx else xx"
  have len: "length (numeral_of (unat (10 :: u32)) (unat ?x)) \<le> 15"
    using decimal_fits[of ?x] by simp
  have "printint dg xx 10 True = Some ((if True \<and> xx <s 0 then [ch CHR ''-''] else []) @
      map ((!) dg) (numeral_of (unat (10 :: u32)) (unat ?x)))"
    by (rule printint_runs) (use assms len in auto)
  moreover have "map ((!) dg) (numeral_of 10 n) = map (\<lambda>d. 48 + of_nat d) (numeral_of 10 n)" for n
    using assms numeral_digits[of 10 _ n] by (auto simp: lower_nth upper_nth)
  ultimately show ?thesis by (simp add: ch_digits)
qed

text \<open>
  C36: \<open>%d\<close> and \<open>atoi\<close>. Printing a word as a signed decimal never overruns the 16-byte
  buffer, and prints a minus sign exactly for negative numbers; \<open>atoi\<close> applied to what
  follows the sign gives the absolute value back, so a non-negative number survives the round
  trip.
\<close>

theorem printint_atoi:
  assumes "dg = digits_lower \<or> dg = digits_upper"
  shows "\<exists>ds. printint dg xx 10 True = Some ((if xx <s 0 then [ch CHR ''-''] else []) @ ds) \<and>
    atoi ds = (if xx <s 0 then - xx else xx) \<and> length ds \<le> 10 \<and> ds \<noteq> []"
proof -
  let ?x = "if xx <s 0 then - xx else xx"
  let ?ds = "map (\<lambda>d. 48 + of_nat d) (numeral_of 10 (unat ?x)) :: u8 list"
  have "atoi_loop (of_nat 0) ?ds = of_nat (denotes 10 (numeral_of 10 (unat ?x)))"
    unfolding denotes_def by (rule atoi_digits) (auto dest: numeral_digits[of 10, simplified])
  then have "atoi ?ds = ?x" by (simp add: atoi_def denotes_numeral)
  then show ?thesis
    using printint_decimal[OF assms, of xx] decimal_fits[of ?x] by (auto simp: ch_digits)
qed

lemma printint_atoi_witness:
  "\<exists>ds. printint digits_lower 1234 10 True = Some ds \<and> atoi ds = 1234"
  using printint_atoi[of digits_lower 1234] by (auto simp: word_sless_alt)

end
