(* ===== verification/Console_Out.thy ===== *)
theory Console_Out
  imports Kernel_State Format
begin

unbundle bit_operations_syntax

text \<open>
  Console output: \<open>uartputc\<close>, \<open>cgaputc\<close> with the cursor position and the screen memory,
  \<open>consputc\<close> and \<open>cprintf\<close> (uart.c, console.c).
\<close>

section \<open>Operations\<close>

definition BACKSPACE :: int where "BACKSPACE = 0x100"

definition upd_cons :: "(console \<Rightarrow> console) \<Rightarrow> kernel \<Rightarrow> kernel" where
  "upd_cons f s = s\<lparr>k_cons := f (k_cons s)\<rparr>"

text \<open>The transmit register takes the low byte. The wait for the port is not modelled.\<close>

definition uartputc :: "int \<Rightarrow> unit kmon" where
  "uartputc c = kwhen (\<lambda>s. c_uart (k_cons s))
     (kupd (upd_cons (\<lambda>x. x\<lparr>c_out := c_out x @ [word_of_int c]\<rparr>)))"

text \<open>
  \<open>cgaputc\<close>: the new cursor position, the store of the character, scrolling, and the blank
  under the cursor.
\<close>

definition cga_char :: "int \<Rightarrow> u16" where
  "cga_char c = (word_of_int c AND 0xff) OR 0x0700"

definition cga_write :: "int \<Rightarrow> console \<Rightarrow> console option" where
  "cga_write c x =
     (let pos = c_pos x
      in if c = 10 then Some (x\<lparr>c_pos := pos + (80 - pos mod 80)\<rparr>)
         else if c = BACKSPACE then Some (if 0 < pos then x\<lparr>c_pos := pos - 1\<rparr> else x)
         else do { crt \<leftarrow> aset (c_crt x) pos (cga_char c);
                   Some (x\<lparr>c_crt := crt, c_pos := pos + 1\<rparr>) })"

text \<open>\<open>memmove(crt, crt+80, 23*80 cells)\<close> and \<open>memset(crt+pos, 0, 24*80 - pos cells)\<close>\<close>

definition cga_scroll :: "console \<Rightarrow> console option" where
  "cga_scroll x =
     (let pos = c_pos x - 80; crt = c_crt x
      in if length crt < 24 * 80 \<or> pos < 0 \<or> 24 * 80 < pos then None
         else let moved = take (23 * 80) (drop 80 crt) @ drop (23 * 80) crt
              in Some (x\<lparr>c_pos := pos,
                   c_crt := take (nat pos) moved @ replicate (24 * 80 - nat pos) 0 @ drop (24 * 80) moved\<rparr>))"

definition cgaputc :: "int \<Rightarrow> unit kmon" where
  "cgaputc c =
     kbind (kopt (\<lambda>s. cga_write c (k_cons s))) (\<lambda>x. kseq [
       kupd (upd_cons (\<lambda>_. x)),
       kwhen (\<lambda>s. c_pos x < 0 \<or> 25 * 80 < c_pos x) (kpanic ''pos under/overflow''),
       kwhen (\<lambda>s. 24 \<le> c_pos x div 80)
         (kbind (kopt (\<lambda>s. cga_scroll (k_cons s))) (\<lambda>y. kupd (upd_cons (\<lambda>_. y)))),
       kbind (kopt (\<lambda>s. aset (c_crt (k_cons s)) (c_pos (k_cons s)) 0x0720)) (\<lambda>crt.
         kupd (upd_cons (\<lambda>x. x\<lparr>c_crt := crt\<rparr>)))])"

definition consputc :: "int \<Rightarrow> unit kmon" where
  "consputc c = kseq [
     kwhen (\<lambda>s. c_panicked (k_cons s)) (\<lambda>s. Spin),
     kif (\<lambda>s. c = BACKSPACE)
       (kseq [uartputc 8, uartputc 32, uartputc 8])
       (uartputc c),
     cgaputc c]"

definition cprintf :: "u8 list \<Rightarrow> fmt_arg list \<Rightarrow> unit kmon" where
  "cprintf fmt as = kbind (kget (\<lambda>s. c_locking (k_cons s))) (\<lambda>locking. kseq [
     kwhen (\<lambda>s. locking) (acquire L_cons),
     kbind (kopt (\<lambda>s. cformat fmt as)) (\<lambda>out. kfor out (\<lambda>c. consputc (uint c))),
     kwhen (\<lambda>s. locking) (release L_cons)])"

section \<open>The screen\<close>

definition cons_wf :: "console \<Rightarrow> bool" where
  "cons_wf x \<longleftrightarrow> \<not> c_panicked x \<and> length (c_crt x) = 25 * 80 \<and> 0 \<le> c_pos x \<and> c_pos x < 24 * 80"

text \<open>Two consoles that agree on everything but the screen and the bytes sent.\<close>

definition only_output :: "console \<Rightarrow> console \<Rightarrow> bool" where
  "only_output x y \<longleftrightarrow> in_buf y = in_buf x \<and> in_r y = in_r x \<and> in_w y = in_w x \<and> in_e y = in_e x \<and>
     c_panicked y = c_panicked x \<and> c_locking y = c_locking x \<and> c_uart y = c_uart x"

lemma only_output_refl [simp]: "only_output x x"
  by (simp add: only_output_def)

lemma only_output_trans: "only_output x y \<Longrightarrow> only_output y z \<Longrightarrow> only_output x z"
  by (simp add: only_output_def)

lemma newline_pos:
  assumes "0 \<le> (p::int)" "p < 24 * 80"
  shows "p + (80 - p mod 80) \<le> 24 * 80" "0 \<le> p + (80 - p mod 80)"
proof -
  have "p + (80 - p mod 80) = 80 * (p div 80) + 80" by (simp add: minus_mod_eq_mult_div)
  moreover have "p div 80 \<le> 23" "0 \<le> p div 80" using assms by linarith+
  ultimately show "p + (80 - p mod 80) \<le> 24 * 80" "0 \<le> p + (80 - p mod 80)" by linarith+
qed

lemma cga_write_ok:
  assumes "cons_wf x"
  shows "\<exists>y. cga_write c x = Some y \<and> length (c_crt y) = 25 * 80 \<and> 0 \<le> c_pos y \<and> c_pos y \<le> 24 * 80 \<and>
    only_output x y \<and> c_out y = c_out x"
proof -
  have x: "0 \<le> c_pos x" "c_pos x < 24 * 80" "length (c_crt x) = 25 * 80"
    using assms by (simp_all add: cons_wf_def)
  consider "c = 10" | "c \<noteq> 10" "c = BACKSPACE" | "c \<noteq> 10" "c \<noteq> BACKSPACE" by blast
  then show ?thesis
  proof cases
    case 1
    then show ?thesis using newline_pos[OF x(1,2)] x by (simp add: cga_write_def Let_def only_output_def)
  next
    case 2
    then show ?thesis using x by (simp add: cga_write_def Let_def only_output_def)
  next
    case 3
    then show ?thesis using x by (simp add: cga_write_def Let_def only_output_def aset_def)
  qed
qed

lemma cga_scroll_ok:
  assumes "c_pos x = 1920" "length (c_crt x) = 2000"
  shows "\<exists>y. cga_scroll x = Some y \<and> c_pos y = 1840 \<and> length (c_crt y) = 2000 \<and>
    only_output x y \<and> c_out y = c_out x"
  using assms by (simp add: cga_scroll_def Let_def only_output_def)

lemma cgaputc_runs:
  assumes "cons_wf (k_cons s)"
  shows "\<exists>y. cgaputc c s = Ret () (s\<lparr>k_cons := y\<rparr>) \<and> cons_wf y \<and> only_output (k_cons s) y \<and>
    c_out y = c_out (k_cons s)"
proof -
  obtain x where x: "cga_write c (k_cons s) = Some x" "length (c_crt x) = 2000" "0 \<le> c_pos x"
      "c_pos x \<le> 24 * 80" "only_output (k_cons s) x" "c_out x = c_out (k_cons s)"
    using cga_write_ok[OF assms, of c] by auto
  have np: "\<not> c_panicked x" using assms x(5) by (simp add: cons_wf_def only_output_def)
  show ?thesis
  proof (cases "24 \<le> c_pos x div 80")
    case True
    then have "c_pos x = 1920" using x(4) by linarith
    from cga_scroll_ok[OF this x(2)] obtain y where
      y: "cga_scroll x = Some y" "c_pos y = 1840" "length (c_crt y) = 2000" "only_output x y"
        "c_out y = c_out x" by blast
    define z where "z = y\<lparr>c_crt := (c_crt y)[1840 := 0x720]\<rparr>"
    have "cgaputc c s = Ret () (s\<lparr>k_cons := z\<rparr>)"
      using x(1,3,4) y True by (simp add: cgaputc_def kexec upd_cons_def aset_def z_def)
    moreover have "cons_wf z" "only_output (k_cons s) z" "c_out z = c_out (k_cons s)"
      using x(5,6) y np by (simp_all add: cons_wf_def only_output_def z_def)
    ultimately show ?thesis by blast
  next
    case False
    then have lt: "c_pos x < 1920" by linarith
    define z where "z = x\<lparr>c_crt := (c_crt x)[nat (c_pos x) := 0x720]\<rparr>"
    have "cgaputc c s = Ret () (s\<lparr>k_cons := z\<rparr>)"
      using x(1-4) lt False by (simp add: cgaputc_def kexec upd_cons_def aset_def z_def)
    moreover have "cons_wf z" "only_output (k_cons s) z" "c_out z = c_out (k_cons s)"
      using x lt np by (simp_all add: cons_wf_def only_output_def z_def)
    ultimately show ?thesis by blast
  qed
qed

lemma uartputc_runs:
  "uartputc c s = Ret () (s\<lparr>k_cons := (k_cons s)\<lparr>c_out :=
     c_out (k_cons s) @ (if c_uart (k_cons s) then [word_of_int c] else [])\<rparr>\<rparr>)"
  by (simp add: uartputc_def kexec upd_cons_def)

definition uart_bytes :: "int \<Rightarrow> u8 list" where
  "uart_bytes c = (if c = BACKSPACE then [8, 32, 8] else [word_of_int c])"

lemma consputc_runs:
  assumes "cons_wf (k_cons s)"
  shows "\<exists>y. consputc c s = Ret () (s\<lparr>k_cons := y\<rparr>) \<and> cons_wf y \<and> only_output (k_cons s) y \<and>
    c_out y = c_out (k_cons s) @ (if c_uart (k_cons s) then uart_bytes c else [])"
proof -
  define x where "x = (k_cons s)\<lparr>c_out := c_out (k_cons s) @ (if c_uart (k_cons s) then uart_bytes c else [])\<rparr>"
  define u where "u = s\<lparr>k_cons := x\<rparr>"
  have "cons_wf (k_cons u)" using assms by (simp add: u_def x_def cons_wf_def)
  from cgaputc_runs[OF this, of c] obtain y where
    y: "cgaputc c u = Ret () (u\<lparr>k_cons := y\<rparr>)" "cons_wf y" "only_output x y" "c_out y = c_out x"
    by (auto simp: u_def)
  have "consputc c s = cgaputc c u"
    using assms by (auto simp: consputc_def kexec uartputc_runs cons_wf_def u_def x_def uart_bytes_def)
  moreover have "only_output (k_cons s) x" by (simp add: only_output_def x_def)
  then have "only_output (k_cons s) y" using y(3) by (rule only_output_trans)
  moreover have "c_out y = c_out (k_cons s) @ (if c_uart (k_cons s) then uart_bytes c else [])"
    using y(4) by (simp add: x_def)
  moreover have "u\<lparr>k_cons := y\<rparr> = s\<lparr>k_cons := y\<rparr>" by (simp add: u_def)
  ultimately show ?thesis using y(1,2) by metis
qed

lemma consputc_list_runs:
  assumes "cons_wf (k_cons s)"
  shows "\<exists>y. kfor cs (\<lambda>c. consputc (f c)) s = Ret () (s\<lparr>k_cons := y\<rparr>) \<and> cons_wf y \<and>
    only_output (k_cons s) y \<and>
    c_out y = c_out (k_cons s) @ (if c_uart (k_cons s) then concat (map (\<lambda>c. uart_bytes (f c)) cs) else [])"
  using assms
proof (induction cs arbitrary: s)
  case Nil
  have "s\<lparr>k_cons := k_cons s\<rparr> = s" by simp
  then show ?case using Nil by (intro exI[of _ "k_cons s"]) simp
next
  case (Cons c cs)
  obtain x where x: "consputc (f c) s = Ret () (s\<lparr>k_cons := x\<rparr>)" "cons_wf x" "only_output (k_cons s) x"
      "c_out x = c_out (k_cons s) @ (if c_uart (k_cons s) then uart_bytes (f c) else [])"
    using consputc_runs[OF Cons.prems] by blast
  have "cons_wf (k_cons (s\<lparr>k_cons := x\<rparr>))" using x(2) by simp
  from Cons.IH[OF this] obtain y where y: "kfor cs (\<lambda>c. consputc (f c)) (s\<lparr>k_cons := x\<rparr>) = Ret () (s\<lparr>k_cons := y\<rparr>)"
      "cons_wf y" "only_output x y"
      "c_out y = c_out x @ (if c_uart x then concat (map (\<lambda>c. uart_bytes (f c)) cs) else [])"
    by auto
  have u: "c_uart x = c_uart (k_cons s)" using x(3) by (simp add: only_output_def)
  have "kfor (c # cs) (\<lambda>c. consputc (f c)) s = Ret () (s\<lparr>k_cons := y\<rparr>)"
    using x(1) y(1) by (simp add: kexec)
  moreover have "c_out y = c_out (k_cons s) @
      (if c_uart (k_cons s) then concat (map (\<lambda>c. uart_bytes (f c)) (c # cs)) else [])"
    using x(4) y(4) u by simp
  ultimately show ?case using y(2) only_output_trans[OF x(3) y(3)] by blast
qed

lemma uart_bytes_byte [simp]: "uart_bytes (uint (c :: u8)) = [c]"
  using uint_lt2p[of c] by (auto simp: uart_bytes_def BACKSPACE_def)

text \<open>\<open>cprintf\<close> changes the console only, and sends the formatted text to the serial port.\<close>

lemma cprintf_runs:
  assumes "cons_wf (k_cons s)" "cformat fmt as = Some out" "lock_free L_cons s"
  shows "\<exists>y. cprintf fmt as s = Ret () (s\<lparr>k_cons := y\<rparr>) \<and> cons_wf y \<and> only_output (k_cons s) y \<and>
    c_out y = c_out (k_cons s) @ (if c_uart (k_cons s) then out else [])"
proof -
  let ?s = "if c_locking (k_cons s) then s\<lparr>k_held := (L_cons, k_me s) # k_held s\<rparr> else s"
  have "cons_wf (k_cons ?s)" using assms(1) by simp
  from consputc_list_runs[OF this, of out uint] obtain y where
    y: "kfor out (\<lambda>c. consputc (uint c)) ?s = Ret () (?s\<lparr>k_cons := y\<rparr>)" "cons_wf y"
      "only_output (k_cons s) y" "c_out y = c_out (k_cons s) @ (if c_uart (k_cons s) then out else [])"
    by (auto split: if_splits)
  have "cprintf fmt as s = Ret () (s\<lparr>k_cons := y\<rparr>)"
  proof (cases "c_locking (k_cons s)")
    case True
    then show ?thesis using y(1) assms(2,3)
      by (simp add: cprintf_def kexec acquire_free release_held holding_def)
  next
    case False
    then show ?thesis using y(1) assms(2) by (simp add: cprintf_def kexec)
  qed
  then show ?thesis using y by blast
qed

end
