(* ===== verification/Vm.thy ===== *)
theory Vm
  imports Kalloc Console_Out
begin

unbundle bit_operations_syntax

text \<open>
  \<open>vm.c\<close>: two-level page tables in memory, the mapping and unmapping of user pages, the copy
  of an address space, and the switch of a CPU to a process's page table. \<open>translate\<close> reads a
  page table the way the MMU does.
\<close>

section \<open>Constants of mmu.h and memlayout.h\<close>

definition EXTMEM :: u32 where "EXTMEM = 0x100000"
definition DEVSPACE :: u32 where "DEVSPACE = 0xFE000000"
definition KERNLINK :: u32 where "KERNLINK = KERNBASE + EXTMEM"
definition PTE_P :: u32 where "PTE_P = 0x001"
definition PTE_W :: u32 where "PTE_W = 0x002"
definition PTE_U :: u32 where "PTE_U = 0x004"
definition NPDENTRIES :: nat where "NPDENTRIES = 1024"
definition KSTACKSIZE :: u32 where "KSTACKSIZE = 4096"

definition PDX :: "u32 \<Rightarrow> u32" where "PDX va = drop_bit 22 va AND 0x3FF"
definition PTX :: "u32 \<Rightarrow> u32" where "PTX va = drop_bit 12 va AND 0x3FF"
definition PGADDR :: "u32 \<Rightarrow> u32 \<Rightarrow> u32 \<Rightarrow> u32" where
  "PGADDR d t off = push_bit 22 d OR push_bit 12 t OR off"
definition PTE_ADDR :: "u32 \<Rightarrow> u32" where "PTE_ADDR pte = pte AND NOT 0xFFF"
definition PTE_FLAGS :: "u32 \<Rightarrow> u32" where "PTE_FLAGS pte = pte AND 0xFFF"

section \<open>Memory accesses\<close>

definition mload :: "u32 \<Rightarrow> u32 kmon" where
  "mload a = kget (\<lambda>s. load32 (k_mem s) a)"

definition mstore :: "u32 \<Rightarrow> u32 \<Rightarrow> unit kmon" where
  "mstore a v = kupd (\<lambda>s. s\<lparr>k_mem := store32 (k_mem s) a v\<rparr>)"

definition mmemset :: "u32 \<Rightarrow> u32 \<Rightarrow> u32 \<Rightarrow> unit kmon" where
  "mmemset a c n = kupd (\<lambda>s. s\<lparr>k_mem := memset a c n (k_mem s)\<rparr>)"

definition mmemmove :: "u32 \<Rightarrow> u32 \<Rightarrow> u32 \<Rightarrow> unit kmon" where
  "mmemmove d a n = kupd (\<lambda>s. s\<lparr>k_mem := memmove d a n (k_mem s)\<rparr>)"

lemmas kmemory [kexec] = mload_def mstore_def mmemset_def mmemmove_def

section \<open>Page tables\<close>

text \<open>\<open>walkpgdir\<close> returns the address of the page table entry, or 0.\<close>

definition walkpgdir :: "u32 \<Rightarrow> u32 \<Rightarrow> bool \<Rightarrow> u32 kmon" where
  "walkpgdir pgdir va alloc =
     (let pde = pgdir + PDX va * 4
      in kbind (mload pde) (\<lambda>e.
         if e AND PTE_P \<noteq> 0 then kret (P2V (PTE_ADDR e) + PTX va * 4)
         else if \<not> alloc then kret 0
         else kbind kalloc (\<lambda>pgtab.
           if pgtab = 0 then kret 0
           else kbind (kseq [mmemset pgtab 0 PGSIZE,
                             mstore pde (V2P pgtab OR PTE_P OR PTE_W OR PTE_U)]) (\<lambda>_.
                kret (pgtab + PTX va * 4)))))"

text \<open>
  The loop of \<open>mappages\<close>. From \<open>a\<close> to \<open>last\<close> (\<open>final\<close> here) there are at most \<open>VM_FUEL = 2 ^ 20\<close> pages, the
  whole address space; the same bound serves the other loops over pages.
\<close>

definition VM_FUEL :: nat where "VM_FUEL = 2 ^ 20 + 1"

fun map_loop :: "nat \<Rightarrow> u32 \<Rightarrow> u32 \<Rightarrow> u32 \<Rightarrow> u32 \<Rightarrow> u32 \<Rightarrow> int kmon" where
  "map_loop 0 pgdir a final pa perm = (\<lambda>s. Spin)"
| "map_loop (Suc n) pgdir a final pa perm =
     kbind (walkpgdir pgdir a True) (\<lambda>pte.
     if pte = 0 then kret (- 1)
     else kbind (mload pte) (\<lambda>e.
     if e AND PTE_P \<noteq> 0 then kpanic ''remap''
     else kbind (mstore pte (pa OR perm OR PTE_P)) (\<lambda>_.
     if a = final then kret 0
     else map_loop n pgdir (a + PGSIZE) final (pa + PGSIZE) perm)))"

definition mappages :: "u32 \<Rightarrow> u32 \<Rightarrow> u32 \<Rightarrow> u32 \<Rightarrow> u32 \<Rightarrow> int kmon" where
  "mappages pgdir va len pa perm =
     map_loop VM_FUEL pgdir (PGROUNDDOWN va) (PGROUNDDOWN (va + len - 1)) pa perm"

text \<open>\<open>deallocuvm\<close>: \<open>a\<close> jumps to the next page directory entry where there is no page table.\<close>

fun dealloc_loop :: "nat \<Rightarrow> u32 \<Rightarrow> u32 \<Rightarrow> u32 \<Rightarrow> unit kmon" where
  "dealloc_loop 0 pgdir a oldsz = (\<lambda>s. Spin)"
| "dealloc_loop (Suc n) pgdir a oldsz =
     (if \<not> a < oldsz then kret ()
      else kbind (walkpgdir pgdir a False) (\<lambda>pte.
        if pte = 0 then dealloc_loop n pgdir (PGADDR (PDX a + 1) 0 0 - PGSIZE + PGSIZE) oldsz
        else kbind (mload pte) (\<lambda>e.
          kbind (kwhen (\<lambda>s. e AND PTE_P \<noteq> 0) (kseq [
            kwhen (\<lambda>s. PTE_ADDR e = 0) (kpanic ''kfree''),
            kfree (P2V (PTE_ADDR e)),
            mstore pte 0])) (\<lambda>_.
          dealloc_loop n pgdir (a + PGSIZE) oldsz))))"

definition deallocuvm :: "u32 \<Rightarrow> u32 \<Rightarrow> u32 \<Rightarrow> u32 kmon" where
  "deallocuvm pgdir oldsz newsz =
     (if oldsz \<le> newsz then kret oldsz
      else kbind (dealloc_loop VM_FUEL pgdir (PGROUNDUP newsz) oldsz) (\<lambda>_. kret newsz))"

fun alloc_loop :: "nat \<Rightarrow> u32 \<Rightarrow> u32 \<Rightarrow> u32 \<Rightarrow> u32 \<Rightarrow> u32 kmon" where
  "alloc_loop 0 pgdir a oldsz newsz = (\<lambda>s. Spin)"
| "alloc_loop (Suc n) pgdir a oldsz newsz =
     (if \<not> a < newsz then kret newsz
      else kbind kalloc (\<lambda>mem.
        if mem = 0 then
          kbind (cprintf (map ch ''allocuvm out of memory'' @ [10]) []) (\<lambda>_.
          kbind (deallocuvm pgdir newsz oldsz) (\<lambda>_. kret 0))
        else kbind (mmemset mem 0 PGSIZE) (\<lambda>_.
          kbind (mappages pgdir a PGSIZE (V2P mem) (PTE_W OR PTE_U)) (\<lambda>r.
          if r < 0 then
            kbind (cprintf (map ch ''allocuvm out of memory (2)'' @ [10]) []) (\<lambda>_.
            kbind (deallocuvm pgdir newsz oldsz) (\<lambda>_.
            kbind (kfree mem) (\<lambda>_. kret 0)))
          else alloc_loop n pgdir (a + PGSIZE) oldsz newsz))))"

definition allocuvm :: "u32 \<Rightarrow> u32 \<Rightarrow> u32 \<Rightarrow> u32 kmon" where
  "allocuvm pgdir oldsz newsz =
     (if KERNBASE \<le> newsz then kret 0
      else if newsz < oldsz then kret oldsz
      else alloc_loop VM_FUEL pgdir (PGROUNDUP oldsz) oldsz newsz)"

definition freevm :: "u32 \<Rightarrow> unit kmon" where
  "freevm pgdir = kseq [
     kwhen (\<lambda>s. pgdir = 0) (kpanic ''freevm: no pgdir''),
     kbind (deallocuvm pgdir KERNBASE 0) (\<lambda>_. kret ()),
     kfor [0..<NPDENTRIES] (\<lambda>i.
       kbind (mload (pgdir + of_nat i * 4)) (\<lambda>e.
       kwhen (\<lambda>s. e AND PTE_P \<noteq> 0) (kfree (P2V (PTE_ADDR e))))),
     kfree pgdir]"

text \<open>The table \<open>kmap\<close> of kernel mappings: virtual start, physical start and end, permissions.\<close>

definition kmap :: "kernel \<Rightarrow> (u32 \<times> u32 \<times> u32 \<times> u32) list" where
  "kmap s = [
     (KERNBASE, 0, EXTMEM, PTE_W),
     (KERNLINK, V2P KERNLINK, V2P (k_data s), 0),
     (k_data s, V2P (k_data s), PHYSTOP, PTE_W),
     (DEVSPACE, DEVSPACE, 0, PTE_W)]"

definition setupkvm :: "u32 kmon" where
  "setupkvm =
     kbind kalloc (\<lambda>pgdir.
     if pgdir = 0 then kret 0
     else kbind (mmemset pgdir 0 PGSIZE) (\<lambda>_.
     if DEVSPACE < P2V PHYSTOP then kpanic ''PHYSTOP too high''
     else kbind (kget kmap) (\<lambda>ks.
       kbind (kfind ks (\<lambda>(virt, pstart, pend, perm).
         kbind (mappages pgdir virt (pend - pstart) pstart perm) (\<lambda>r.
         if r < 0 then kbind (freevm pgdir) (\<lambda>_. kret (Some ())) else kret None))) (\<lambda>bad.
       kret (if bad = None then pgdir else 0)))))"

definition switchkvm :: "unit kmon" where
  "switchkvm = kupd (\<lambda>s. upd_cpu (\<lambda>c. c\<lparr>c_cr3 := V2P (k_kpgdir s)\<rparr>) s)"

definition kvmalloc :: "unit kmon" where
  "kvmalloc = kbind setupkvm (\<lambda>pgdir. kseq [kupd (\<lambda>s. s\<lparr>k_kpgdir := pgdir\<rparr>), switchkvm])"

text \<open>\<open>switchuvm\<close>: the kernel stack in the task state segment, and \<open>%cr3\<close>.\<close>

definition switchuvm :: "nat \<Rightarrow> unit kmon" where
  "switchuvm p = kseq [
     kwhen (\<lambda>s. p_kstack (pr s p) = 0) (kpanic ''switchuvm: no kstack''),
     kwhen (\<lambda>s. p_pgdir (pr s p) = 0) (kpanic ''switchuvm: no pgdir''),
     kupd (\<lambda>s. upd_cpu (\<lambda>c. c\<lparr>c_esp0 := p_kstack (pr s p) + KSTACKSIZE\<rparr>) s),
     kupd (\<lambda>s. upd_cpu (\<lambda>c. c\<lparr>c_cr3 := V2P (p_pgdir (pr s p))\<rparr>) s)]"

definition inituvm :: "u32 \<Rightarrow> u32 \<Rightarrow> u32 \<Rightarrow> unit kmon" where
  "inituvm pgdir init sz = kbind (kwhen (\<lambda>s. PGSIZE \<le> sz) (kpanic ''inituvm: more than a page'')) (\<lambda>_.
     kbind kalloc (\<lambda>mem. kseq [
       mmemset mem 0 PGSIZE,
       kbind (mappages pgdir 0 PGSIZE (V2P mem) (PTE_W OR PTE_U)) (\<lambda>_. kret ()),
       mmemmove mem init sz]))"

definition clearpteu :: "u32 \<Rightarrow> u32 \<Rightarrow> unit kmon" where
  "clearpteu pgdir uva = kbind (walkpgdir pgdir uva False) (\<lambda>pte.
     if pte = 0 then kpanic ''clearpteu''
     else kbind (mload pte) (\<lambda>e. mstore pte (e AND NOT PTE_U)))"

fun copy_loop :: "nat \<Rightarrow> u32 \<Rightarrow> u32 \<Rightarrow> u32 \<Rightarrow> u32 \<Rightarrow> bool kmon" where
  "copy_loop 0 pgdir d i sz = (\<lambda>s. Spin)"
| "copy_loop (Suc n) pgdir d i sz =
     (if \<not> i < sz then kret True
      else kbind (walkpgdir pgdir i False) (\<lambda>pte.
        if pte = 0 then kpanic ''copyuvm: pte should exist''
        else kbind (mload pte) (\<lambda>e.
        if e AND PTE_P = 0 then kpanic ''copyuvm: page not present''
        else kbind kalloc (\<lambda>mem.
        if mem = 0 then kret False
        else kbind (mmemmove mem (P2V (PTE_ADDR e)) PGSIZE) (\<lambda>_.
          kbind (mappages d i PGSIZE (V2P mem) (PTE_FLAGS e)) (\<lambda>r.
          if r < 0 then kbind (kfree mem) (\<lambda>_. kret False)
          else copy_loop n pgdir d (i + PGSIZE) sz))))))"

definition copyuvm :: "u32 \<Rightarrow> u32 \<Rightarrow> u32 kmon" where
  "copyuvm pgdir sz =
     kbind setupkvm (\<lambda>d.
     if d = 0 then kret 0
     else kbind (copy_loop VM_FUEL pgdir d 0 sz) (\<lambda>good.
     if good then kret d
     else kbind (freevm d) (\<lambda>_. kret 0)))"

text \<open>\<open>uva2ka\<close> dereferences the entry without testing the pointer \<open>walkpgdir\<close> returned.\<close>

definition uva2ka :: "u32 \<Rightarrow> u32 \<Rightarrow> u32 kmon" where
  "uva2ka pgdir uva = kbind (walkpgdir pgdir uva False) (\<lambda>pte.
     if pte = 0 then kfault
     else kbind (mload pte) (\<lambda>e.
       if e AND PTE_P = 0 then kret 0
       else if e AND PTE_U = 0 then kret 0
       else kret (P2V (PTE_ADDR e))))"

section \<open>Page tables as the MMU reads them\<close>

text \<open>The page table entry for an address, and the translation it gives.\<close>

definition pte_addr :: "memory \<Rightarrow> u32 \<Rightarrow> u32 \<Rightarrow> u32 option" where
  "pte_addr m pgdir va =
     (let e = load32 m (pgdir + PDX va * 4)
      in if e AND PTE_P = 0 then None else Some (P2V (PTE_ADDR e) + PTX va * 4))"

definition translate :: "memory \<Rightarrow> u32 \<Rightarrow> u32 \<Rightarrow> u32 option" where
  "translate m pgdir va =
     Option.bind (pte_addr m pgdir va) (\<lambda>a.
       let e = load32 m a in if e AND PTE_P = 0 then None else Some e)"

text \<open>
  The address the kernel reaches through a pointer: kernel addresses are mapped linearly, a
  user address goes through the page table in \<open>%cr3\<close>. \<open>None\<close> is a page fault in the kernel.
\<close>

definition reach :: "kernel \<Rightarrow> u32 \<Rightarrow> u32 option" where
  "reach s va =
     (if KERNBASE \<le> va then Some va
      else Option.bind (translate (k_mem s) (P2V (c_cr3 (mycpu s))) va) (\<lambda>e.
        Some (P2V (PTE_ADDR e) + (va AND 0xFFF))))"

definition load8 :: "u32 \<Rightarrow> u8 kmon" where
  "load8 va = kbind (kopt (\<lambda>s. reach s va)) (\<lambda>a. kget (\<lambda>s. k_mem s a))"

definition store8 :: "u32 \<Rightarrow> u8 \<Rightarrow> unit kmon" where
  "store8 va c = kbind (kopt (\<lambda>s. reach s va)) (\<lambda>a. kupd (\<lambda>s. s\<lparr>k_mem := (k_mem s)(a := c)\<rparr>))"

definition uload32 :: "u32 \<Rightarrow> u32 kmon" where
  "uload32 va = kbind (load8 va) (\<lambda>b0. kbind (load8 (va + 1)) (\<lambda>b1.
     kbind (load8 (va + 2)) (\<lambda>b2. kbind (load8 (va + 3)) (\<lambda>b3.
     kret (ucast b0 OR push_bit 8 (ucast b1) OR push_bit 16 (ucast b2) OR push_bit 24 (ucast b3))))))"

definition ustore32 :: "u32 \<Rightarrow> u32 \<Rightarrow> unit kmon" where
  "ustore32 va v = kseq [store8 va (ucast v), store8 (va + 1) (ucast (drop_bit 8 v)),
     store8 (va + 2) (ucast (drop_bit 16 v)), store8 (va + 3) (ucast (drop_bit 24 v))]"

section \<open>Bytes behind a pointer\<close>

text \<open>\<open>n\<close> bytes from, and to, an address of the kernel or of the current process.\<close>

fun mem_get :: "nat \<Rightarrow> u32 \<Rightarrow> u8 list kmon" where
  "mem_get 0 a = kret []"
| "mem_get (Suc n) a = kbind (load8 a) (\<lambda>c. kbind (mem_get n (a + 1)) (\<lambda>cs. kret (c # cs)))"

fun mem_put :: "u32 \<Rightarrow> u8 list \<Rightarrow> unit kmon" where
  "mem_put a [] = kret ()"
| "mem_put a (c # cs) = kbind (store8 a c) (\<lambda>_. mem_put (a + 1) cs)"

text \<open>
  Where a copy goes to and where it comes from: an address, or a variable of the caller, whose
  bytes are then the result or the argument.
\<close>

datatype dest = To_mem u32 | To_local
datatype source = From_mem u32 | From_local "u8 list"

definition deliver :: "dest \<Rightarrow> nat \<Rightarrow> u8 list \<Rightarrow> unit kmon" where
  "deliver d at bs = (case d of To_mem a \<Rightarrow> mem_put (a + of_nat at) bs | To_local \<Rightarrow> kret ())"

definition fetch :: "source \<Rightarrow> nat \<Rightarrow> nat \<Rightarrow> u8 list kmon" where
  "fetch src at n = (case src of From_mem a \<Rightarrow> mem_get n (a + of_nat at)
     | From_local bs \<Rightarrow> kret (take n (drop at bs)))"

text \<open>\<open>copyout\<close>: the page the bytes go to is not part of their source.\<close>

fun copyout_loop :: "nat \<Rightarrow> u32 \<Rightarrow> u32 \<Rightarrow> source \<Rightarrow> nat \<Rightarrow> u32 \<Rightarrow> int kmon" where
  "copyout_loop 0 pgdir va buf at len = (\<lambda>s. Spin)"
| "copyout_loop (Suc k) pgdir va buf at len =
     (if len = 0 then kret 0
      else let va0 = PGROUNDDOWN va
        in kbind (uva2ka pgdir va0) (\<lambda>pa0.
          if pa0 = 0 then kret (- 1)
          else let n = (if len < PGSIZE - (va - va0) then len else PGSIZE - (va - va0))
            in kbind (fetch buf at (unat n)) (\<lambda>bs.
               kbind (mem_put (pa0 + (va - va0)) bs) (\<lambda>_.
               copyout_loop k pgdir (va0 + PGSIZE) buf (at + unat n) (len - n)))))"

definition copyout :: "u32 \<Rightarrow> u32 \<Rightarrow> source \<Rightarrow> u32 \<Rightarrow> int kmon" where
  "copyout pgdir va p len = copyout_loop VM_FUEL pgdir va p 0 len"

lemma walk_lookup:
  "walkpgdir pgdir va False s = Ret (case pte_addr (k_mem s) pgdir va of None \<Rightarrow> 0 | Some a \<Rightarrow> a) s"
  by (simp add: walkpgdir_def kexec pte_addr_def Let_def)

end
