(* ===== verification/Proc.thy ===== *)
theory Proc
  imports Vm
begin

text \<open>
  \<open>proc.c\<close>: the process table, the scheduler, and the operations that change a process's
  state. The compile-time flag \<open>SCHEDFLAG\<close> is the argument \<open>cfg\<close>.
\<close>

section \<open>Run queues\<close>

text \<open>\<open>insert(p)\<close> under \<open>FCFS\<close>, \<open>enque(p->priority, p)\<close> under \<open>MLQ\<close> and \<open>DMLQ\<close>.\<close>

definition enqueue_ready :: "sched \<Rightarrow> nat \<Rightarrow> unit kmon" where
  "enqueue_ready cfg p = kseq [
     kwhen (\<lambda>s. cfg = FCFS)
       (kbind (kopt (\<lambda>s. insert_pq (proc_times s) (Some p) (k_pq s))) (\<lambda>q. kupd (\<lambda>s. s\<lparr>k_pq := q\<rparr>))),
     kwhen (\<lambda>s. cfg = MLQ \<or> cfg = DMLQ)
       (kbind (kopt (\<lambda>s. enque (p_priority (pr s p)) (Some p) (k_mq s))) (\<lambda>q. kupd (\<lambda>s. s\<lparr>k_mq := q\<rparr>)))]"

definition set_state :: "nat \<Rightarrow> procstate \<Rightarrow> unit kmon" where
  "set_state p st = kupd (upd_proc p (\<lambda>x. x\<lparr>p_state := st\<rparr>))"

section \<open>Allocation\<close>

text \<open>
  The new process gets a stack page: the trap frame (76 bytes) at its top, below it the
  address \<open>trapret\<close>, below that the context (20 bytes, \<open>eip\<close> at offset 16).
\<close>

definition SIZEOF_TRAPFRAME :: u32 where "SIZEOF_TRAPFRAME = 76"
definition SIZEOF_CONTEXT :: u32 where "SIZEOF_CONTEXT = 20"
definition CONTEXT_EIP :: u32 where "CONTEXT_EIP = 16"
definition CONTEXT_EBP :: u32 where "CONTEXT_EBP = 12"

definition allocproc :: "nat option kmon" where
  "allocproc =
     kbind (acquire L_ptable) (\<lambda>_.
     kbind (kget (\<lambda>s. find (\<lambda>i. p_state (pr s i) = UNUSED) [0..<NPROC])) (\<lambda>found. case found of
       None \<Rightarrow> kbind (release L_ptable) (\<lambda>_. kret None)
     | Some p \<Rightarrow>
         kbind (kseq [
           set_state p EMBRYO,
           kupd (\<lambda>s. upd_proc p (\<lambda>x. x\<lparr>p_pid := k_nextpid s\<rparr>) s),
           kupd (\<lambda>s. s\<lparr>k_nextpid := k_nextpid s + 1\<rparr>),
           kupd (\<lambda>s. upd_proc p (\<lambda>x. x\<lparr>p_timecreated := k_ticks s\<rparr>) s),
           kupd (upd_proc p (\<lambda>x. x\<lparr>p_timeready := 0, p_timerun := 0, p_timeslept := 0, p_switchnum := 0\<rparr>)),
           release L_ptable]) (\<lambda>_.
         kbind kalloc (\<lambda>k.
         kbind (kupd (upd_proc p (\<lambda>x. x\<lparr>p_kstack := k\<rparr>))) (\<lambda>_.
         if k = 0 then kbind (set_state p UNUSED) (\<lambda>_. kret None)
         else
           let sp = k + KSTACKSIZE;
               tf = sp - SIZEOF_TRAPFRAME;
               ret = tf - 4;
               ctx = ret - SIZEOF_CONTEXT
           in kbind (kseq [
             kupd (upd_proc p (\<lambda>x. x\<lparr>p_tf := tf\<rparr>)),
             kbind (kget k_trapret) (\<lambda>v. mstore ret v),
             kupd (upd_proc p (\<lambda>x. x\<lparr>p_context := ctx\<rparr>)),
             mmemset ctx 0 SIZEOF_CONTEXT,
             kbind (kget k_forkret) (\<lambda>v. mstore (ctx + CONTEXT_EIP) v)]) (\<lambda>_.
           kret (Some p)))))))"

section \<open>Giving up the CPU\<close>

text \<open>
  \<open>sched\<close> checks its preconditions, counts the switch and switches to the scheduler; the
  rest of the thread runs when the scheduler switches back.
\<close>

definition sched :: "unit kmon" where
  "sched = kbind curproc (\<lambda>p. kseq [
     kwhen (\<lambda>s. \<not> holding L_ptable s) (kpanic ''sched ptable.lock''),
     kwhen (\<lambda>s. ncli s \<noteq> 1) (kpanic ''sched locks''),
     kwhen (\<lambda>s. p_state (pr s p) = RUNNING) (kpanic ''sched running''),
     kupd (upd_proc p (\<lambda>x. x\<lparr>p_switchnum := p_switchnum x + 1\<rparr>)),
     (\<lambda>s. Swtch s (kret ()))])"

definition yield :: "sched \<Rightarrow> unit kmon" where
  "yield cfg = kseq [
     acquire L_ptable,
     kbind curproc (\<lambda>p. set_state p RUNNABLE),
     kbind curproc (\<lambda>p. enqueue_ready cfg p),
     sched,
     release L_ptable]"

definition sleep :: "chan \<Rightarrow> lockid option \<Rightarrow> unit kmon" where
  "sleep chn lk = kbind (kget myproc) (\<lambda>mp. case mp of
     None \<Rightarrow> kpanic ''sleep''
   | Some p \<Rightarrow> (case lk of
       None \<Rightarrow> kpanic ''sleep without lk''
     | Some l \<Rightarrow> kseq [
         kwhen (\<lambda>s. l \<noteq> L_ptable) (kseq [acquire L_ptable, release l]),
         kupd (upd_proc p (\<lambda>x. x\<lparr>p_chan := Some chn\<rparr>)),
         set_state p SLEEPING,
         sched,
         kupd (upd_proc p (\<lambda>x. x\<lparr>p_chan := None\<rparr>)),
         kwhen (\<lambda>s. l \<noteq> L_ptable) (kseq [release L_ptable, acquire l])]))"

section \<open>Waking up\<close>

definition raise_priority :: "sched \<Rightarrow> nat \<Rightarrow> unit kmon" where
  "raise_priority cfg p = kwhen (\<lambda>s. cfg = DMLQ) (kupd (upd_proc p (\<lambda>x. x\<lparr>p_priority := HIPR\<rparr>)))"

definition make_ready :: "sched \<Rightarrow> nat \<Rightarrow> unit kmon" where
  "make_ready cfg p = kseq [set_state p RUNNABLE, raise_priority cfg p, enqueue_ready cfg p]"

definition wakeup1 :: "sched \<Rightarrow> chan option \<Rightarrow> unit kmon" where
  "wakeup1 cfg chn = kfor [0..<NPROC] (\<lambda>p.
     kwhen (\<lambda>s. p_state (pr s p) = SLEEPING \<and> p_chan (pr s p) = chn) (make_ready cfg p))"

definition wakeup :: "sched \<Rightarrow> chan \<Rightarrow> unit kmon" where
  "wakeup cfg chn = kseq [acquire L_ptable, wakeup1 cfg (Some chn), release L_ptable]"

definition kill :: "sched \<Rightarrow> u32 \<Rightarrow> int kmon" where
  "kill cfg pid =
     kbind (acquire L_ptable) (\<lambda>_.
     kbind (kfind [0..<NPROC] (\<lambda>p.
       kif (\<lambda>s. p_pid (pr s p) = pid)
         (kbind (kseq [
            kupd (upd_proc p (\<lambda>x. x\<lparr>p_killed := True\<rparr>)),
            kwhen (\<lambda>s. p_state (pr s p) = SLEEPING) (make_ready cfg p),
            release L_ptable]) (\<lambda>_. kret (Some ())))
         (kret None))) (\<lambda>found. case found of
       Some _ \<Rightarrow> kret 0
     | None \<Rightarrow> kbind (release L_ptable) (\<lambda>_. kret (- 1))))"

section \<open>The scheduler\<close>

text \<open>
  One pass of the scheduler's loop from \<open>acquire\<close> to the switch: the process it chooses, if
  any. Under \<open>DEFAULT\<close> the pass is a scan of the process table that goes on where it was
  when the process switches back, so the position \<open>from\<close> of the scan is an argument.
\<close>

definition pick_next :: "sched \<Rightarrow> nat \<Rightarrow> nat option kmon" where
  "pick_next cfg from = (case cfg of
     DEFAULT \<Rightarrow> kget (\<lambda>s. find (\<lambda>i. p_state (pr s i) = RUNNABLE) [from..<NPROC])
   | FCFS \<Rightarrow> kbind (kopt (\<lambda>s. remove_pq (proc_times s) (k_pq s))) (\<lambda>(p, q).
       kbind (kupd (\<lambda>s. s\<lparr>k_pq := q\<rparr>)) (\<lambda>_. kret p))
   | _ \<Rightarrow> kbind (kfind [1, 2, 3] (\<lambda>pr.
       kbind (kopt (\<lambda>s. isempty pr (k_mq s))) (\<lambda>e.
       if e then kret None
       else kbind (kopt (\<lambda>s. deque pr (k_mq s))) (\<lambda>(p, q).
         kbind (kupd (\<lambda>s. s\<lparr>k_mq := q\<rparr>)) (\<lambda>_. kret (Some p)))))) (\<lambda>r.
       kret (case r of Some p \<Rightarrow> p | None \<Rightarrow> None)))"

text \<open>Before the switch to the chosen process, and after it has switched back.\<close>

definition run_process :: "nat \<Rightarrow> unit kmon" where
  "run_process p = kseq [
     kupd (upd_cpu (\<lambda>c. c\<lparr>c_proc := Some p\<rparr>)),
     switchuvm p,
     set_state p RUNNING,
     kupd (\<lambda>s. upd_proc p (\<lambda>x. x\<lparr>p_timescheduled := k_ticks s\<rparr>) s)]"

definition after_process :: "unit kmon" where
  "after_process = kseq [switchkvm, kupd (upd_cpu (\<lambda>c. c\<lparr>c_proc := None\<rparr>))]"

text \<open>
  The scheduler from \<open>acquire\<close>, or from the return of a process, to the next switch: the
  process switched to, or \<open>None\<close> when the pass is over and the lock is released.
\<close>

definition sched_pass :: "sched \<Rightarrow> nat \<Rightarrow> nat option kmon" where
  "sched_pass cfg from = kbind (pick_next cfg from) (\<lambda>r. case r of
     Some p \<Rightarrow> kbind (run_process p) (\<lambda>_. kret (Some p))
   | None \<Rightarrow> kbind (release L_ptable) (\<lambda>_. kret None))"

definition scheduler_enter :: "sched \<Rightarrow> nat option kmon" where
  "scheduler_enter cfg = kbind (acquire L_ptable) (\<lambda>_. sched_pass cfg 0)"

definition scheduler_return :: "sched \<Rightarrow> nat \<Rightarrow> nat option kmon" where
  "scheduler_return cfg p = kbind after_process (\<lambda>_.
     if cfg = DEFAULT then sched_pass cfg (p + 1)
     else kbind (release L_ptable) (\<lambda>_. kret None))"

section \<open>Accounting, priorities, listings\<close>

definition updateprocesstimes :: "unit kmon" where
  "updateprocesstimes = kseq [
     acquire L_ptable,
     kfor [0..<NPROC] (\<lambda>p.
       kif (\<lambda>s. p_state (pr s p) = RUNNING)
         (kupd (upd_proc p (\<lambda>x. x\<lparr>p_timerun := p_timerun x + 1\<rparr>)))
       (kif (\<lambda>s. p_state (pr s p) = RUNNABLE)
         (kupd (upd_proc p (\<lambda>x. x\<lparr>p_timeready := p_timeready x + 1\<rparr>)))
       (kwhen (\<lambda>s. p_state (pr s p) = SLEEPING)
         (kupd (upd_proc p (\<lambda>x. x\<lparr>p_timeslept := p_timeslept x + 1\<rparr>)))))),
     release L_ptable]"

text \<open>\<open>chpr\<close>: after the loop \<open>p\<close> is \<open>&ptable.proc[NPROC]\<close> if no process has the pid.\<close>

definition chpr :: "sched \<Rightarrow> u32 \<Rightarrow> int \<Rightarrow> unit kmon" where
  "chpr cfg pid priority =
     (if cfg \<noteq> MLQ then kret ()
      else kbind (acquire L_ptable) (\<lambda>_.
        kbind (kopt (\<lambda>s. find (\<lambda>i. p_pid (pr s i) = pid) [0..<NPROC])) (\<lambda>p.
        kbind (kget (\<lambda>s. p_priority (pr s p))) (\<lambda>oldpriority. kseq [
          kwhen (\<lambda>s. oldpriority \<noteq> priority) (kseq [
            kupd (upd_proc p (\<lambda>x. x\<lparr>p_priority := priority\<rparr>)),
            kwhen (\<lambda>s. p_state (pr s p) = RUNNABLE)
              (kbind (kopt (\<lambda>s. swapque (proc_pids s) oldpriority priority (p_pid (pr s p)) (k_mq s)))
                (\<lambda>q. kupd (\<lambda>s. s\<lparr>k_mq := q\<rparr>)))]),
          release L_ptable]))))"

text \<open>The name as a C string.\<close>

definition proc_name :: "proc \<Rightarrow> u8 list" where
  "proc_name x = takeWhile (\<lambda>c. c \<noteq> 0) (p_name x)"

definition ps :: "unit kmon" where
  "ps = kseq [
     acquire L_ptable,
     kfor [0..<NPROC] (\<lambda>p.
       kwhen (\<lambda>s. p_state (pr s p) = RUNNING \<or> p_state (pr s p) = RUNNABLE \<or> p_state (pr s p) = SLEEPING)
         (kbind (kget (\<lambda>s. pr s p)) (\<lambda>x.
           cprintf (map ch ''pid:%d  name:%s'' @ [10]) [Int_arg (p_pid x), Str_arg (Some (proc_name x))]))),
     release L_ptable]"

fun state_name :: "procstate \<Rightarrow> string" where
  "state_name UNUSED = ''unused''"
| "state_name EMBRYO = ''embryo''"
| "state_name SLEEPING = ''sleep ''"
| "state_name RUNNABLE = ''runble''"
| "state_name RUNNING = ''run   ''"
| "state_name ZOMBIE = ''zombie''"

text \<open>
  \<open>getcallerpcs\<close> (spinlock.c) follows the saved frame pointers from \<open>v - 8\<close>; \<open>fuel\<close> counts
  the ten slots of \<open>pcs\<close>, the unused ones of which are 0.
\<close>

fun getcallerpcs_loop :: "nat \<Rightarrow> memory \<Rightarrow> u32 \<Rightarrow> u32 list" where
  "getcallerpcs_loop 0 m ebp = []"
| "getcallerpcs_loop (Suc n) m ebp =
     (if ebp = 0 \<or> ebp < KERNBASE \<or> ebp = 0xffffffff then replicate (Suc n) 0
      else load32 m (ebp + 4) # getcallerpcs_loop n m (load32 m ebp))"

definition getcallerpcs :: "memory \<Rightarrow> u32 \<Rightarrow> u32 list" where
  "getcallerpcs m v = getcallerpcs_loop 10 m (v - 8)"

definition procdump :: "unit kmon" where
  "procdump = kfor [0..<NPROC] (\<lambda>p.
     kwhen (\<lambda>s. p_state (pr s p) \<noteq> UNUSED)
       (kbind (kget (\<lambda>s. pr s p)) (\<lambda>x. kseq [
         cprintf (map ch ''%d %s %s'')
           [Int_arg (p_pid x), Str_arg (Some (map ch (state_name (p_state x)))), Str_arg (Some (proc_name x))],
         kwhen (\<lambda>s. p_state x = SLEEPING)
           (kbind (mload (p_context x + CONTEXT_EBP)) (\<lambda>ebp.
            kbind (kget (\<lambda>s. getcallerpcs (k_mem s) (ebp + 8))) (\<lambda>pcs.
            kfor (takeWhile (\<lambda>pc. pc \<noteq> 0) pcs) (\<lambda>pc. cprintf (map ch '' %p'') [Int_arg pc])))),
         cprintf [10] []])))"

section \<open>Waiting for children\<close>

text \<open>What \<open>wait\<close> does with the zombie it has found.\<close>

definition reap :: "nat \<Rightarrow> unit kmon" where
  "reap p = kseq [
     kbind (kget (\<lambda>s. p_kstack (pr s p))) kfree,
     kupd (upd_proc p (\<lambda>x. x\<lparr>p_kstack := 0\<rparr>)),
     kbind (kget (\<lambda>s. p_pgdir (pr s p))) freevm,
     kupd (upd_proc p (\<lambda>x. x\<lparr>p_pid := 0, p_parent := None, p_name := (p_name x)[0 := 0],
       p_killed := False, p_state := UNUSED\<rparr>)),
     release L_ptable]"

text \<open>
  The scan of the table. It stops at the first zombie child; \<open>havekids\<close> is set by any child
  before it.
\<close>

definition is_child :: "nat \<Rightarrow> kernel \<Rightarrow> nat \<Rightarrow> bool" where
  "is_child cur s p \<longleftrightarrow> p_parent (pr s p) = Some cur"

definition find_zombie :: "nat \<Rightarrow> kernel \<Rightarrow> nat option" where
  "find_zombie cur s = find (\<lambda>p. is_child cur s p \<and> p_state (pr s p) = ZOMBIE) [0..<NPROC]"

definition havekids :: "nat \<Rightarrow> kernel \<Rightarrow> bool" where
  "havekids cur s = list_ex (is_child cur s) [0..<NPROC]"

text \<open>
  The loop of \<open>wait\<close> and \<open>waitnstats\<close>; \<open>n\<close> bounds the number of scans, each but the first
  of which follows a wakeup. \<open>report p\<close> is what \<open>waitnstats\<close> does with the statistics before
  the process is reaped.
\<close>

fun wait_loop :: "nat \<Rightarrow> nat \<Rightarrow> (nat \<Rightarrow> unit kmon) \<Rightarrow> u32 kmon" where
  "wait_loop 0 cur report = (\<lambda>s. Spin)"
| "wait_loop (Suc n) cur report =
     kbind (kget (find_zombie cur)) (\<lambda>z. case z of
       Some p \<Rightarrow>
         kbind (kget (\<lambda>s. p_pid (pr s p))) (\<lambda>pid.
         kbind (report p) (\<lambda>_.
         kbind (reap p) (\<lambda>_. kret pid)))
     | None \<Rightarrow>
         kif (\<lambda>s. \<not> havekids cur s \<or> p_killed (pr s cur))
           (kbind (release L_ptable) (\<lambda>_. kret (- 1)))
           (kbind (sleep (Ch_proc cur) (Some L_ptable)) (\<lambda>_. wait_loop n cur report)))"

definition wait :: "nat \<Rightarrow> u32 kmon" where
  "wait n = kbind curproc (\<lambda>cur. kbind (acquire L_ptable) (\<lambda>_. wait_loop n cur (\<lambda>_. kret ())))"

definition waitnstats :: "nat \<Rightarrow> u32 \<Rightarrow> u32 \<Rightarrow> u32 \<Rightarrow> u32 kmon" where
  "waitnstats n timerun timeready timeslept = kbind curproc (\<lambda>cur. kbind (acquire L_ptable) (\<lambda>_.
     wait_loop n cur (\<lambda>p. kseq [
       kbind (kget (\<lambda>s. p_timerun (pr s p))) (\<lambda>v. ustore32 timerun v),
       kbind (kget (\<lambda>s. p_timeready (pr s p))) (\<lambda>v. ustore32 timeready v),
       kbind (kget (\<lambda>s. p_timeslept (pr s p))) (\<lambda>v. ustore32 timeslept v)])))"

end
