(* ===== verification/Runqueue.thy ===== *)
theory Runqueue
  imports Proc
begin

text \<open>
  The run queues and the process table together: \<open>rq_inv cfg s R\<close> says that the run queue of
  the configuration holds exactly the processes in \<open>R\<close>, each once and, with priorities, each
  at its own level. Enqueueing and picking keep this; the contract \<open>run_queue\<close> is what the
  operations on processes rely on.
\<close>

section \<open>What the run queue holds\<close>

definition rq_fcfs :: "kernel \<Rightarrow> nat set \<Rightarrow> bool" where
  "rq_fcfs s R \<longleftrightarrow> pq_wf (proc_times s) (k_pq s) \<and> mset (pq_list (k_pq s)) = mset_set R"

definition rq_levels :: "kernel \<Rightarrow> nat set \<Rightarrow> bool" where
  "rq_levels s R \<longleftrightarrow> mq_wf (k_mq s) \<and> (\<forall>p \<in> R. valid_pr (p_priority (pr s p))) \<and>
     (\<forall>l. valid_pr l \<longrightarrow> distinct (mq_list l (k_mq s)) \<and>
        set (mq_list l (k_mq s)) = {p \<in> R. p_priority (pr s p) = l})"

definition has_levels :: "sched \<Rightarrow> bool" where
  "has_levels cfg \<longleftrightarrow> cfg = MLQ \<or> cfg = DMLQ"

definition rq_inv :: "sched \<Rightarrow> kernel \<Rightarrow> nat set \<Rightarrow> bool" where
  "rq_inv cfg s R \<longleftrightarrow> R \<subseteq> {..<NPROC} \<and> (cfg = FCFS \<longrightarrow> rq_fcfs s R) \<and> (has_levels cfg \<longrightarrow> rq_levels s R)"

text \<open>The state changed in the run queues only.\<close>

definition queues_only :: "kernel \<Rightarrow> kernel \<Rightarrow> bool" where
  "queues_only s t \<longleftrightarrow> (\<exists>q m. t = s\<lparr>k_pq := q, k_mq := m\<rparr>)"

lemma queues_onlyD:
  assumes "queues_only s t"
  shows "k_me t = k_me s" "k_held t = k_held s" "k_cpus t = k_cpus s" "k_ptab t = k_ptab s"
    "k_ticks t = k_ticks s" "k_mem t = k_mem s" "k_freelist t = k_freelist s"
    "k_cons t = k_cons s" "pr t = pr s" "k_kpgdir t = k_kpgdir s" "k_end t = k_end s"
    "k_use_lock t = k_use_lock s" "k_initproc t = k_initproc s"
  using assms by (auto simp: queues_only_def)

lemma queues_only_refl [simp]: "queues_only s s"
  unfolding queues_only_def by (intro exI[of _ "k_pq s"] exI[of _ "k_mq s"]) simp

lemma queues_only_pq [simp]: "queues_only s (s\<lparr>k_pq := q\<rparr>)"
  unfolding queues_only_def by (intro exI[of _ q] exI[of _ "k_mq s"]) simp

lemma queues_only_mq [simp]: "queues_only s (s\<lparr>k_mq := q\<rparr>)"
  unfolding queues_only_def by (intro exI[of _ "k_pq s"] exI[of _ q]) simp

lemma rq_inv_finite: "rq_inv cfg s R \<Longrightarrow> finite R \<and> card R \<le> NPROC"
  using card_mono[of "{..<NPROC}" R] finite_subset[of R "{..<NPROC}"] by (auto simp: rq_inv_def)

lemma rq_inv_room: "rq_inv cfg s R \<Longrightarrow> p < NPROC \<Longrightarrow> p \<notin> R \<Longrightarrow> card R < NPROC"
proof -
  assume "rq_inv cfg s R" "p < NPROC" "p \<notin> R"
  then have "insert p R \<subseteq> {..<NPROC}" "finite R" "p \<notin> R"
    using rq_inv_finite by (auto simp: rq_inv_def)
  then have "Suc (card R) \<le> NPROC" using card_mono[of "{..<NPROC}" "insert p R"] by simp
  then show ?thesis by simp
qed

section \<open>The heap under FCFS\<close>

text \<open>The heap reads the creation times of the processes it holds only.\<close>

lemma pq_wf_cong:
  assumes "\<And>p. p \<in> set (pq_list q) \<Longrightarrow> f p = g p"
  shows "pq_wf f q = pq_wf g q"
proof -
  have "heap f (pq_list q) = heap g (pq_list q)"
  proof -
    have "f (pq_list q ! j) = g (pq_list q ! j)" if "j < length (pq_list q)" for j
      using assms that by simp
    moreover have "par j < length (pq_list q)" if "j < length (pq_list q)" "0 < j" for j
      using par_less[OF that(2)] that(1) by simp
    ultimately show ?thesis by (force simp: heap_def)
  qed
  then show ?thesis by (simp add: pq_wf_def)
qed

lemma rq_fcfs_size:
  assumes "rq_fcfs s R" "finite R" shows "length (pq_list (k_pq s)) = card R"
  using assms by (metis rq_fcfs_def size_mset size_mset_set)

lemma rq_fcfs_set: "rq_fcfs s R \<Longrightarrow> finite R \<Longrightarrow> set (pq_list (k_pq s)) = R"
  by (metis rq_fcfs_def set_mset_mset finite_set_mset_mset_set)

lemma rq_fcfs_enqueue:
  assumes rq: "rq_fcfs s R" and fin: "finite R" and room: "card R < NPROC" and new: "p \<notin> R"
  shows "\<exists>q. insert_pq (proc_times s) (Some p) (k_pq s) = Some q \<and> rq_fcfs (s\<lparr>k_pq := q\<rparr>) (insert p R)"
proof -
  have "length (pq_list (k_pq s)) < NPROC" using rq_fcfs_size[OF rq fin] room by simp
  with insert_pq_correct[of "proc_times s" "k_pq s" p] rq obtain q where
    q: "insert_pq (proc_times s) (Some p) (k_pq s) = Some q" "pq_wf (proc_times s) q"
      "mset (pq_list q) = add_mset p (mset (pq_list (k_pq s)))"
    by (auto simp: rq_fcfs_def)
  moreover have "proc_times (s\<lparr>k_pq := q\<rparr>) = proc_times s" by (simp add: proc_times_def fun_eq_iff)
  ultimately show ?thesis using rq fin new by (auto simp: rq_fcfs_def)
qed

lemma rq_fcfs_pick:
  assumes rq: "rq_fcfs s R" and fin: "finite R" and ne: "R \<noteq> {}"
  shows "\<exists>p q. remove_pq (proc_times s) (k_pq s) = Some (Some p, q) \<and> p \<in> R \<and>
    rq_fcfs (s\<lparr>k_pq := q\<rparr>) (R - {p}) \<and> (\<forall>r \<in> R. p_timecreated (pr s p) \<le> p_timecreated (pr s r))"
proof -
  have set: "set (pq_list (k_pq s)) = R" using rq_fcfs_set rq fin by blast
  with ne have "pq_list (k_pq s) \<noteq> []" by auto
  with remove_pq_correct[of "proc_times s" "k_pq s"] rq obtain p q where
    q: "remove_pq (proc_times s) (k_pq s) = Some (Some p, q)" "pq_wf (proc_times s) q"
      "mset (pq_list (k_pq s)) = add_mset p (mset (pq_list q))"
      "\<forall>r \<in> set (pq_list (k_pq s)). proc_times s p \<le> proc_times s r"
    by (auto simp: rq_fcfs_def)
  have "p \<in> R" using q(3) set by (metis set_mset_mset union_single_eq_member)
  moreover have "mset (pq_list q) = mset_set (R - {p})"
  proof -
    have "add_mset p (mset (pq_list q)) = mset_set R" using q(3) rq by (simp add: rq_fcfs_def)
    also have "\<dots> = add_mset p (mset_set (R - {p}))" using \<open>p \<in> R\<close> fin by (simp add: mset_set.remove)
    finally show ?thesis by simp
  qed
  moreover have "proc_times (s\<lparr>k_pq := q\<rparr>) = proc_times s" by (simp add: proc_times_def fun_eq_iff)
  ultimately show ?thesis using q set by (auto simp: rq_fcfs_def proc_times_def)
qed

lemma rq_fcfs_pick_empty:
  assumes "rq_fcfs s {}" shows "remove_pq (proc_times s) (k_pq s) = Some (None, k_pq s)"
  using assms remove_pq_empty by (simp add: rq_fcfs_def)

section \<open>The levels under MLQ and DMLQ\<close>

lemma rq_levels_length:
  assumes "rq_levels s R" "valid_pr l" "finite R"
  shows "length (mq_list l (k_mq s)) \<le> card R"
proof -
  have "distinct (mq_list l (k_mq s))" using assms by (simp add: rq_levels_def)
  then have "length (mq_list l (k_mq s)) = card (set (mq_list l (k_mq s)))"
    by (rule distinct_card[symmetric])
  also have "\<dots> \<le> card R" using assms by (intro card_mono) (auto simp: rq_levels_def)
  finally show ?thesis .
qed

lemma rq_levels_enqueue:
  assumes rq: "rq_levels s R" and fin: "finite R" and room: "card R < NPROC" and new: "p \<notin> R"
    and ok: "valid_pr (p_priority (pr s p))"
  shows "\<exists>q. enque (p_priority (pr s p)) (Some p) (k_mq s) = Some q \<and> rq_levels (s\<lparr>k_mq := q\<rparr>) (insert p R)"
proof -
  let ?l = "p_priority (pr s p)"
  have "length (mq_list ?l (k_mq s)) < NPROC" using rq_levels_length[OF rq ok fin] room by simp
  with enque_room[OF ok, of "k_mq s" p] rq obtain q where
    q: "enque ?l (Some p) (k_mq s) = Some q" "mq_wf q" "mq_list ?l q = mq_list ?l (k_mq s) @ [p]"
      "\<forall>l. valid_pr l \<longrightarrow> l \<noteq> ?l \<longrightarrow> mq_list l q = mq_list l (k_mq s)"
    by (auto simp: rq_levels_def)
  have "distinct (mq_list l q) \<and> set (mq_list l q) = {r \<in> insert p R. p_priority (pr s r) = l}"
    if "valid_pr l" for l
    using q(3,4) rq that new by (cases "l = ?l") (auto simp: rq_levels_def)
  then show ?thesis using q ok rq by (auto simp: rq_levels_def)
qed

text \<open>The level the scheduler takes from: the first non-empty one.\<close>

definition top_level :: "multiqueue \<Rightarrow> int option" where
  "top_level q = find (\<lambda>l. mq_list l q \<noteq> []) [1, 2, 3]"

lemma valid_pr_cases: "valid_pr l \<longleftrightarrow> l = 1 \<or> l = 2 \<or> l = 3"
  by (auto simp: valid_pr_def HIPR_def LWPR_def)

lemma pick_levels:
  assumes "has_levels cfg" "mq_wf (k_mq s)"
  shows "pick_next cfg from s = (case top_level (k_mq s) of
      None \<Rightarrow> Ret None s
    | Some l \<Rightarrow> (case deque l (k_mq s) of None \<Rightarrow> Fault | Some (p, q) \<Rightarrow> Ret p (s\<lparr>k_mq := q\<rparr>)))"
proof -
  have e: "isempty 1 (k_mq s) = Some (mq_list 1 (k_mq s) = [])"
      "isempty 2 (k_mq s) = Some (mq_list 2 (k_mq s) = [])"
      "isempty 3 (k_mq s) = Some (mq_list 3 (k_mq s) = [])"
    using isempty_correct assms(2) by (simp_all add: valid_pr_cases)
  have d: "\<exists>q. deque l (k_mq s) = Some (Some (hd (mq_list l (k_mq s))), q)"
    if "l = 1 \<or> l = 2 \<or> l = 3" "mq_list l (k_mq s) \<noteq> []" for l
    using deque_some[of l "k_mq s"] that assms(2) by (auto simp: valid_pr_cases)
  have c: "pick_next cfg from = kbind (kfind [1, 2, 3] (\<lambda>pr.
       kbind (kopt (\<lambda>s. isempty pr (k_mq s))) (\<lambda>e.
       if e then kret None
       else kbind (kopt (\<lambda>s. deque pr (k_mq s))) (\<lambda>(p, q).
         kbind (kupd (\<lambda>s. s\<lparr>k_mq := q\<rparr>)) (\<lambda>_. kret (Some p)))))) (\<lambda>r.
       kret (case r of Some p \<Rightarrow> p | None \<Rightarrow> None))"
    using assms(1) by (cases cfg) (simp_all add: has_levels_def pick_next_def)
  consider "mq_list 1 (k_mq s) \<noteq> []" | "mq_list 1 (k_mq s) = []" "mq_list 2 (k_mq s) \<noteq> []"
    | "mq_list 1 (k_mq s) = []" "mq_list 2 (k_mq s) = []" "mq_list 3 (k_mq s) \<noteq> []"
    | "mq_list 1 (k_mq s) = []" "mq_list 2 (k_mq s) = []" "mq_list 3 (k_mq s) = []" by blast
  then show ?thesis
  proof cases
    case 1
    with d[of 1] obtain q where "deque 1 (k_mq s) = Some (Some (hd (mq_list 1 (k_mq s))), q)" by blast
    with 1 e show ?thesis by (simp add: c top_level_def kexec)
  next
    case 2
    with d[of 2] obtain q where "deque 2 (k_mq s) = Some (Some (hd (mq_list 2 (k_mq s))), q)" by blast
    with 2 e show ?thesis by (simp add: c top_level_def kexec)
  next
    case 3
    with d[of 3] obtain q where "deque 3 (k_mq s) = Some (Some (hd (mq_list 3 (k_mq s))), q)" by blast
    with 3 e show ?thesis by (simp add: c top_level_def kexec)
  next
    case 4
    with e show ?thesis by (simp add: c top_level_def kexec)
  qed
qed

lemma top_level_some:
  assumes "top_level q = Some l"
  shows "valid_pr l" "mq_list l q \<noteq> []" "\<And>k. valid_pr k \<Longrightarrow> k < l \<Longrightarrow> mq_list k q = []"
  using assms by (auto simp: top_level_def valid_pr_cases split: if_splits)

lemma top_level_none: "top_level q = None \<Longrightarrow> valid_pr l \<Longrightarrow> mq_list l q = []"
  by (auto simp: top_level_def valid_pr_cases split: if_splits)

lemma rq_levels_pick:
  assumes rq: "rq_levels s R" and cfg: "has_levels cfg" and ne: "R \<noteq> {}"
  shows "\<exists>p q. pick_next cfg from s = Ret (Some p) (s\<lparr>k_mq := q\<rparr>) \<and> p \<in> R \<and>
    rq_levels (s\<lparr>k_mq := q\<rparr>) (R - {p}) \<and> (\<forall>r \<in> R. p_priority (pr s p) \<le> p_priority (pr s r)) \<and>
    p = hd (mq_list (p_priority (pr s p)) (k_mq s))"
proof -
  have wf: "mq_wf (k_mq s)" using rq by (simp add: rq_levels_def)
  obtain r where r: "r \<in> R" using ne by blast
  then have "r \<in> set (mq_list (p_priority (pr s r)) (k_mq s))" "valid_pr (p_priority (pr s r))"
    using rq by (simp_all add: rq_levels_def)
  then have "mq_list (p_priority (pr s r)) (k_mq s) \<noteq> []" "valid_pr (p_priority (pr s r))" by auto
  then obtain l where l: "top_level (k_mq s) = Some l"
    using top_level_none by (cases "top_level (k_mq s)") auto
  note top = top_level_some[OF l]
  obtain q where q: "deque l (k_mq s) = Some (Some (hd (mq_list l (k_mq s))), q)" "mq_wf q"
      "mq_list l q = tl (mq_list l (k_mq s))"
      "\<forall>k. valid_pr k \<longrightarrow> k \<noteq> l \<longrightarrow> mq_list k q = mq_list k (k_mq s)"
    using deque_some[OF top(1) wf top(2)] by blast
  define p where "p = hd (mq_list l (k_mq s))"
  have pl: "mq_list l (k_mq s) = p # tl (mq_list l (k_mq s))" using top(2) by (simp add: p_def)
  then have "p \<in> set (mq_list l (k_mq s))" by (metis list.set_intros(1))
  then have p: "p \<in> R" "p_priority (pr s p) = l" using rq top(1) by (auto simp: rq_levels_def)
  have "distinct (mq_list k q) \<and> set (mq_list k q) = {r \<in> R - {p}. p_priority (pr s r) = k}"
    if k: "valid_pr k" for k
  proof (cases "k = l")
    case True
    have "distinct (p # tl (mq_list l (k_mq s)))" "set (p # tl (mq_list l (k_mq s))) = {r \<in> R. p_priority (pr s r) = l}"
      using rq top(1) pl by (auto simp: rq_levels_def)
    then show ?thesis unfolding True q(3) by auto
  next
    case False
    then show ?thesis using q(4) k rq p(2) by (auto simp: rq_levels_def)
  qed
  then have "rq_levels (s\<lparr>k_mq := q\<rparr>) (R - {p})"
    using rq q(2) by (auto simp: rq_levels_def)
  moreover have "l \<le> p_priority (pr s r)" if "r \<in> R" for r
  proof (rule ccontr)
    assume "\<not> l \<le> p_priority (pr s r)"
    moreover have v: "valid_pr (p_priority (pr s r))" using rq that by (simp add: rq_levels_def)
    ultimately have "mq_list (p_priority (pr s r)) (k_mq s) = []" using top(3) by simp
    moreover have "r \<in> set (mq_list (p_priority (pr s r)) (k_mq s))"
      using rq that v by (simp add: rq_levels_def)
    ultimately show False by simp
  qed
  moreover have "pick_next cfg from s = Ret (Some p) (s\<lparr>k_mq := q\<rparr>)"
    using pick_levels[OF cfg wf] l q(1) by (simp add: p_def)
  ultimately show ?thesis using p p_def by auto
qed

lemma rq_levels_pick_empty:
  assumes "rq_levels s {}" "has_levels cfg"
  shows "pick_next cfg from s = Ret None s"
proof -
  have "mq_list l (k_mq s) = []" if "valid_pr l" for l
    using assms(1) that by (auto simp: rq_levels_def)
  then have "top_level (k_mq s) = None" by (auto simp: top_level_def valid_pr_cases)
  then show ?thesis using pick_levels[OF assms(2)] assms(1) by (simp add: rq_levels_def)
qed

section \<open>The contract of a run queue\<close>

text \<open>
  \<open>holds s R\<close>: exactly the processes \<open>R\<close> wait in the queue. \<open>fits s p\<close>: the queue has a place
  for \<open>p\<close>. The operations change the queues only, never lose a process, and pick one whenever
  there is one; \<open>before s p r\<close> is the order in which the queue prefers \<open>p\<close> to \<open>r\<close>.
\<close>

locale run_queue =
  fixes holds :: "kernel \<Rightarrow> nat set \<Rightarrow> bool"
    and fits :: "kernel \<Rightarrow> nat \<Rightarrow> bool"
    and before :: "kernel \<Rightarrow> nat \<Rightarrow> nat \<Rightarrow> bool"
    and enq :: "nat \<Rightarrow> unit kmon"
    and pick :: "nat option kmon"
  assumes enq_ok: "holds s R \<Longrightarrow> p < NPROC \<Longrightarrow> p \<notin> R \<Longrightarrow> fits s p \<Longrightarrow>
      \<exists>t. enq p s = Ret () t \<and> queues_only s t \<and> holds t (insert p R)"
    and pick_none: "holds s {} \<Longrightarrow> pick s = Ret None s"
    and pick_some: "holds s R \<Longrightarrow> R \<noteq> {} \<Longrightarrow>
      \<exists>p t. pick s = Ret (Some p) t \<and> queues_only s t \<and> p \<in> R \<and> holds t (R - {p}) \<and> (\<forall>r \<in> R. before s p r)"
    and bounded: "holds s R \<Longrightarrow> R \<subseteq> {..<NPROC}"
    and before_ptab: "k_ptab s = k_ptab t \<Longrightarrow> before s = before t"
    and before_trans: "before s p q \<Longrightarrow> before s q r \<Longrightarrow> before s p r"
begin

text \<open>Picking until the queue is empty.\<close>

fun pick_all :: "nat \<Rightarrow> kernel \<Rightarrow> (nat list, kernel) outcome" where
  "pick_all 0 s = Ret [] s"
| "pick_all (Suc n) s = kbind pick (\<lambda>r. case r of
     None \<Rightarrow> kret []
   | Some p \<Rightarrow> kbind (pick_all n) (\<lambda>ps. kret (p # ps))) s"

text \<open>Every waiting process is picked, exactly once, in the order the queue prefers.\<close>

lemma pick_all_order:
  assumes "holds s R" "card R \<le> n"
  shows "\<exists>ps t. pick_all n s = Ret ps t \<and> set ps = R \<and> distinct ps \<and> sorted_wrt (before s) ps \<and> holds t {}"
  using assms
proof (induction n arbitrary: s R)
  case 0
  have "finite R" using bounded[OF 0(1)] finite_subset by blast
  then have "R = {}" using 0(2) by simp
  then show ?case using 0(1) by simp
next
  case (Suc n)
  have fin: "finite R" using bounded[OF Suc.prems(1)] finite_subset by blast
  show ?case
  proof (cases "R = {}")
    case True
    then show ?thesis using pick_none[of s] Suc.prems(1) by (simp add: kexec)
  next
    case False
    then obtain p t where p: "pick s = Ret (Some p) t" "queues_only s t" "p \<in> R" "holds t (R - {p})"
        "\<forall>r \<in> R. before s p r"
      using pick_some[OF Suc.prems(1)] by blast
    have "card (R - {p}) \<le> n" using Suc.prems(2) p(3) fin by (simp add: card_Diff_singleton)
    from Suc.IH[OF p(4) this] obtain ps u where
      u: "pick_all n t = Ret ps u" "set ps = R - {p}" "distinct ps" "sorted_wrt (before t) ps" "holds u {}"
      by blast
    moreover have "before t = before s" using before_ptab queues_onlyD(4)[OF p(2)] by metis
    ultimately show ?thesis using p by (auto simp: kexec)
  qed
qed

end

lemma proc_times_queues: "queues_only s t \<Longrightarrow> proc_times t = proc_times s"
  by (simp add: proc_times_def fun_eq_iff queues_onlyD)

lemma rq_fcfs_enq:
  assumes "rq_inv FCFS s R" "p < NPROC" "p \<notin> R"
  shows "\<exists>t. enqueue_ready FCFS p s = Ret () t \<and> queues_only s t \<and> rq_inv FCFS t (insert p R)"
proof -
  have rq: "rq_fcfs s R" using assms(1) by (simp add: rq_inv_def)
  from rq_fcfs_enqueue[OF rq _ _ assms(3)] rq_inv_finite[OF assms(1)] rq_inv_room[OF assms]
  obtain q where q: "insert_pq (proc_times s) (Some p) (k_pq s) = Some q"
      "rq_fcfs (s\<lparr>k_pq := q\<rparr>) (insert p R)"
    by blast
  then have "enqueue_ready FCFS p s = Ret () (s\<lparr>k_pq := q\<rparr>)" by (simp add: enqueue_ready_def kexec)
  moreover have "rq_inv FCFS (s\<lparr>k_pq := q\<rparr>) (insert p R)"
    using q(2) assms(1,2) by (auto simp: rq_inv_def has_levels_def)
  ultimately show ?thesis using queues_only_pq by blast
qed

lemma rq_levels_enq:
  assumes "has_levels cfg" "rq_inv cfg s R" "p < NPROC" "p \<notin> R" "valid_pr (p_priority (pr s p))"
  shows "\<exists>t. enqueue_ready cfg p s = Ret () t \<and> queues_only s t \<and> rq_inv cfg t (insert p R)"
proof -
  have rq: "rq_levels s R" using assms(1,2) by (simp add: rq_inv_def)
  from rq_levels_enqueue[OF rq _ _ assms(4,5)] rq_inv_finite[OF assms(2)] rq_inv_room[OF assms(2,3,4)]
  obtain q where q: "enque (p_priority (pr s p)) (Some p) (k_mq s) = Some q"
      "rq_levels (s\<lparr>k_mq := q\<rparr>) (insert p R)"
    by blast
  then have "enqueue_ready cfg p s = Ret () (s\<lparr>k_mq := q\<rparr>)"
    using assms(1) by (auto simp: enqueue_ready_def has_levels_def kexec)
  moreover have "rq_inv cfg (s\<lparr>k_mq := q\<rparr>) (insert p R)"
    using q(2) assms(1-3) by (auto simp: rq_inv_def has_levels_def)
  ultimately show ?thesis using queues_only_mq by blast
qed

definition older :: "kernel \<Rightarrow> nat \<Rightarrow> nat \<Rightarrow> bool" where
  "older s p r \<longleftrightarrow> p_timecreated (pr s p) \<le> p_timecreated (pr s r)"

definition not_lower :: "kernel \<Rightarrow> nat \<Rightarrow> nat \<Rightarrow> bool" where
  "not_lower s p r \<longleftrightarrow> p_priority (pr s p) \<le> p_priority (pr s r)"

lemma rq_fcfs_pick_ok:
  assumes "rq_inv FCFS s R" "R \<noteq> {}"
  shows "\<exists>p t. pick_next FCFS from s = Ret (Some p) t \<and> queues_only s t \<and> p \<in> R \<and>
    rq_inv FCFS t (R - {p}) \<and> (\<forall>r \<in> R. older s p r)"
proof -
  have "rq_fcfs s R" "finite R" using assms(1) rq_inv_finite by (auto simp: rq_inv_def)
  from rq_fcfs_pick[OF this assms(2)] obtain p q where
    p: "remove_pq (proc_times s) (k_pq s) = Some (Some p, q)" "p \<in> R" "rq_fcfs (s\<lparr>k_pq := q\<rparr>) (R - {p})"
      "\<forall>r \<in> R. older s p r"
    by (auto simp: older_def)
  have "pick_next FCFS from s = Ret (Some p) (s\<lparr>k_pq := q\<rparr>)"
    using p(1) by (simp add: pick_next_def kexec)
  moreover have "rq_inv FCFS (s\<lparr>k_pq := q\<rparr>) (R - {p})"
    using p(3) assms(1) by (auto simp: rq_inv_def has_levels_def)
  ultimately show ?thesis using p queues_only_pq by blast
qed

lemma rq_levels_pick_ok:
  assumes "has_levels cfg" "rq_inv cfg s R" "R \<noteq> {}"
  shows "\<exists>p t. pick_next cfg from s = Ret (Some p) t \<and> queues_only s t \<and> p \<in> R \<and>
    rq_inv cfg t (R - {p}) \<and> (\<forall>r \<in> R. not_lower s p r)"
proof -
  have "rq_levels s R" using assms(1,2) by (simp add: rq_inv_def)
  from rq_levels_pick[OF this assms(1,3), of "from"] obtain p q where
    p: "pick_next cfg from s = Ret (Some p) (s\<lparr>k_mq := q\<rparr>)" "p \<in> R" "rq_levels (s\<lparr>k_mq := q\<rparr>) (R - {p})"
      "\<forall>r \<in> R. not_lower s p r"
    by (auto simp: not_lower_def)
  moreover have "rq_inv cfg (s\<lparr>k_mq := q\<rparr>) (R - {p})"
    using p(3) assms(1,2) by (auto simp: rq_inv_def has_levels_def)
  ultimately show ?thesis using queues_only_mq by blast
qed

interpretation fcfs: run_queue "rq_inv FCFS" "\<lambda>s p. True" older "enqueue_ready FCFS" "pick_next FCFS 0"
proof (unfold_locales, goal_cases)
  case (1 s R p)
  then show ?case by (intro rq_fcfs_enq)
next
  case (2 s)
  have "s\<lparr>k_pq := k_pq s\<rparr> = s" by simp
  then show ?case using 2 rq_fcfs_pick_empty[of s] by (simp add: rq_inv_def pick_next_def kexec)
next
  case (3 s R)
  then show ?case by (rule rq_fcfs_pick_ok)
qed (auto simp: rq_inv_def older_def fun_eq_iff dest: pr_ptab_cong)

lemma levels_pick_none: "has_levels cfg \<Longrightarrow> rq_inv cfg s {} \<Longrightarrow> pick_next cfg from s = Ret None s"
  by (rule rq_levels_pick_empty) (simp_all add: rq_inv_def)

lemma mlq_levels [simp]: "has_levels MLQ" "has_levels DMLQ"
  by (simp_all add: has_levels_def)

lemma levels_run_queue:
  assumes "has_levels cfg"
  shows "run_queue (rq_inv cfg) (\<lambda>s p. valid_pr (p_priority (pr s p))) not_lower
    (enqueue_ready cfg) (pick_next cfg 0)"
proof (unfold_locales, goal_cases)
  case (1 s R p)
  then show ?case using assms by (intro rq_levels_enq)
next
  case (2 s)
  then show ?case using assms by (intro levels_pick_none)
next
  case (3 s R)
  then show ?case using assms by (intro rq_levels_pick_ok)
qed (auto simp: rq_inv_def not_lower_def fun_eq_iff dest: pr_ptab_cong)

interpretation mlq: run_queue "rq_inv MLQ" "\<lambda>s p. valid_pr (p_priority (pr s p))" not_lower
  "enqueue_ready MLQ" "pick_next MLQ 0"
  by (rule levels_run_queue) simp

interpretation dmlq: run_queue "rq_inv DMLQ" "\<lambda>s p. valid_pr (p_priority (pr s p))" not_lower
  "enqueue_ready DMLQ" "pick_next DMLQ 0"
  by (rule levels_run_queue) simp

text \<open>All four configurations at once, for the operations on processes.\<close>

definition fits_rq :: "sched \<Rightarrow> kernel \<Rightarrow> nat \<Rightarrow> bool" where
  "fits_rq cfg s p \<longleftrightarrow> (has_levels cfg \<longrightarrow> valid_pr (p_priority (pr s p)))"

lemma enqueue_ready_ok:
  assumes "rq_inv cfg s R" "p < NPROC" "p \<notin> R" "fits_rq cfg s p"
  shows "\<exists>t. enqueue_ready cfg p s = Ret () t \<and> queues_only s t \<and> rq_inv cfg t (insert p R)"
proof (cases cfg)
  case DEFAULT
  have "enqueue_ready DEFAULT p s = Ret () s" by (simp add: enqueue_ready_def kexec)
  moreover have "rq_inv DEFAULT s (insert p R)"
    using assms(1,2) DEFAULT by (simp add: rq_inv_def has_levels_def)
  ultimately show ?thesis using DEFAULT by (intro exI[of _ s]) simp
next
  case FCFS
  then show ?thesis using fcfs.enq_ok assms by simp
next
  case MLQ
  then show ?thesis using mlq.enq_ok assms by (simp add: fits_rq_def)
next
  case DMLQ
  then show ?thesis using dmlq.enq_ok assms by (simp add: fits_rq_def)
qed

text \<open>The invariant depends on the processes in the queue only.\<close>

lemma rq_inv_cong:
  assumes "rq_inv cfg s R" "k_pq t = k_pq s" "k_mq t = k_mq s"
    and "\<And>p. p \<in> R \<Longrightarrow> p_timecreated (pr t p) = p_timecreated (pr s p) \<and> p_priority (pr t p) = p_priority (pr s p)"
  shows "rq_inv cfg t R"
proof -
  have "rq_fcfs t R" if "rq_fcfs s R" "finite R"
  proof -
    have "set (pq_list (k_pq s)) = R" using rq_fcfs_set that by blast
    then have "pq_wf (proc_times t) (k_pq s) = pq_wf (proc_times s) (k_pq s)"
      using assms(4) by (intro pq_wf_cong) (simp add: proc_times_def)
    with that assms(2) show ?thesis by (simp add: rq_fcfs_def)
  qed
  moreover have "rq_levels t R" if "rq_levels s R"
  proof -
    have "{p \<in> R. p_priority (pr t p) = l} = {p \<in> R. p_priority (pr s p) = l}" for l
      using assms(4) by auto
    with that assms(3,4) show ?thesis by (simp add: rq_levels_def)
  qed
  ultimately show ?thesis using assms(1) rq_inv_finite[OF assms(1)] by (simp add: rq_inv_def)
qed

section \<open>Properties\<close>

text \<open>
  C9: first come, first served. Under FCFS the scheduler's \<open>remove()\<close>, repeated on a run
  queue that holds the processes \<open>R\<close>, returns every one of them exactly once, in the order of
  their creation times, and leaves the queue empty.
\<close>

theorem fcfs_order:
  assumes "rq_inv FCFS s R"
  shows "\<exists>ps t. run_queue.pick_all (pick_next FCFS 0) NPROC s = Ret ps t \<and> set ps = R \<and> distinct ps \<and>
    sorted_wrt (\<lambda>p r. p_timecreated (pr s p) \<le> p_timecreated (pr s r)) ps \<and> rq_inv FCFS t {}"
  using fcfs.pick_all_order[OF assms] rq_inv_finite[OF assms] by (simp add: older_def[abs_def])

text \<open>A queue of two processes, the younger in the lower slot of the table.\<close>

definition two_ready :: kernel where
  "two_ready = sample_kernel\<lparr>k_ptab := (replicate NPROC (sample_proc\<lparr>p_timecreated := 7\<rparr>))
       [3 := sample_proc\<lparr>p_timecreated := 4\<rparr>],
     k_pq := pq_init\<lparr>pq_size := 2, pq_proc := Some 3 # Some 1 # replicate 62 None\<rparr>\<rparr>"

lemma two_ready_fcfs: "rq_inv FCFS two_ready {1, 3}"
proof -
  have l: "pq_list (k_pq two_ready) = [3, 1]"
    by (simp add: pq_list_def two_ready_def)
  have "heap (proc_times two_ready) [3, 1]"
    by (auto simp: heap_def proc_times_def pr_def two_ready_def sample_kernel_def NPROC_def par_def less_Suc_eq)
  then have "rq_fcfs two_ready {1, 3}"
    using l by (simp add: rq_fcfs_def pq_wf_def) (simp add: two_ready_def NPROC_def)
  then show ?thesis by (simp add: rq_inv_def has_levels_def NPROC_def)
qed

lemma fcfs_order_witness:
  "\<exists>ps t. run_queue.pick_all (pick_next FCFS 0) NPROC two_ready = Ret ps t \<and> set ps = {1, 3}"
  using fcfs_order[OF two_ready_fcfs] by blast

text \<open>
  C10: the multilevel scheduler picks from the highest level, and the longest waiting process
  there. If any process is ready, \<open>pick_next\<close> returns one that no ready process exceeds in
  priority, the head of its level's queue, and takes exactly that process off the run queue.
\<close>

theorem mlq_picks_highest:
  assumes "cfg = MLQ \<or> cfg = DMLQ" "rq_inv cfg s R" "R \<noteq> {}"
  shows "\<exists>p t. pick_next cfg from s = Ret (Some p) t \<and> p \<in> R \<and> rq_inv cfg t (R - {p}) \<and>
    (\<forall>r \<in> R. p_priority (pr s p) \<le> p_priority (pr s r)) \<and>
    p = hd (mq_list (p_priority (pr s p)) (k_mq s)) \<and> k_ptab t = k_ptab s"
proof -
  have cfg: "has_levels cfg" using assms(1) by (simp add: has_levels_def)
  then have "rq_levels s R" using assms(2) by (simp add: rq_inv_def)
  from rq_levels_pick[OF this cfg assms(3), of "from"] obtain p q where
    p: "pick_next cfg from s = Ret (Some p) (s\<lparr>k_mq := q\<rparr>)" "p \<in> R" "rq_levels (s\<lparr>k_mq := q\<rparr>) (R - {p})"
      "\<forall>r \<in> R. p_priority (pr s p) \<le> p_priority (pr s r)" "p = hd (mq_list (p_priority (pr s p)) (k_mq s))"
    by blast
  moreover have "rq_inv cfg (s\<lparr>k_mq := q\<rparr>) (R - {p})"
    using p(3) assms(2) cfg by (auto simp: rq_inv_def has_levels_def)
  ultimately show ?thesis by (intro exI[of _ p] exI[of _ "s\<lparr>k_mq := q\<rparr>"]) simp
qed

definition mlq_ready :: kernel where
  "mlq_ready = sample_kernel\<lparr>k_ptab := replicate NPROC (sample_proc\<lparr>p_priority := 2\<rparr>),
     k_mq := mq_init\<lparr>mq_end := [0, 1, 0], 
       mq_proc := [replicate (NPROC + 1) None, Some 5 # replicate NPROC None, replicate (NPROC + 1) None]\<rparr>\<rparr>"

lemma mlq_ready_inv: "rq_inv MLQ mlq_ready {5}"
proof -
  have w: "mq_wf (k_mq mlq_ready)"
    by (simp add: mq_wf_def mlq_ready_def mq_init_def ring_wf_def ring_len_def NUMPR_def NPROC_def
        numeral_3_eq_3 All_less_Suc)
  have l: "mq_list 1 (k_mq mlq_ready) = []" "mq_list 2 (k_mq mlq_ready) = [5]" "mq_list 3 (k_mq mlq_ready) = []"
    by (simp_all add: mq_list_def ring_list_def ring_len_def mlq_ready_def mq_init_def NUMPR_def NPROC_def)
  show ?thesis
  proof -
    have "p_priority (pr mlq_ready 5) = 2"
      by (simp add: mlq_ready_def pr_def NPROC_def sample_proc_def)
    then have "rq_levels mlq_ready {5}" using w l by (auto simp: rq_levels_def valid_pr_cases)
    then show ?thesis by (simp add: rq_inv_def NPROC_def)
  qed
qed

lemma mlq_picks_highest_witness:
  "\<exists>p t. pick_next MLQ 0 mlq_ready = Ret (Some p) t \<and> p \<in> {5} \<and> rq_inv MLQ t ({5} - {p})"
proof -
  have "{5 :: nat} \<noteq> {}" by simp
  from mlq_picks_highest[OF disjI1[OF refl] mlq_ready_inv this, of 0]
  show ?thesis by (elim exE conjE) (intro exI conjI; assumption)
qed

end
