(* ===== verification/Proc_Inv.thy ===== *)
theory Proc_Inv
  imports Runqueue
begin

text \<open>
  The invariant of the process table: the run queue holds exactly the \<open>RUNNABLE\<close> processes,
  each CPU runs the process it names and no other CPU runs it, and every live process can be
  switched to. What each operation of \<open>proc.c\<close> does, and that it keeps the invariant.
\<close>

section \<open>The invariant\<close>

definition ready_set :: "kernel \<Rightarrow> nat set" where
  "ready_set s = {p. p < NPROC \<and> p_state (pr s p) = RUNNABLE}"

definition live :: "kernel \<Rightarrow> nat \<Rightarrow> bool" where
  "live s p \<longleftrightarrow> p_state (pr s p) = SLEEPING \<or> p_state (pr s p) = RUNNABLE \<or> p_state (pr s p) = RUNNING"

definition cpu_proc :: "kernel \<Rightarrow> nat \<Rightarrow> nat option" where
  "cpu_proc s c = c_proc (k_cpus s ! c)"

text \<open>\<open>sw\<close>: the CPUs between \<open>sched\<close> and the scheduler, whose process is no longer \<open>RUNNING\<close>.\<close>

definition cpus_ok :: "nat set \<Rightarrow> kernel \<Rightarrow> bool" where
  "cpus_ok sw s \<longleftrightarrow> k_me s < length (k_cpus s) \<and>
     (\<forall>c < length (k_cpus s). \<forall>p. cpu_proc s c = Some p \<longrightarrow>
        p < NPROC \<and> (c \<notin> sw \<longrightarrow> p_state (pr s p) = RUNNING)) \<and>
     (\<forall>c < length (k_cpus s). \<forall>d < length (k_cpus s). \<forall>p.
        cpu_proc s c = Some p \<longrightarrow> cpu_proc s d = Some p \<longrightarrow> c = d) \<and>
     (\<forall>p < NPROC. p_state (pr s p) = RUNNING \<longrightarrow> (\<exists>c < length (k_cpus s). cpu_proc s c = Some p))"

definition procs_ok :: "sched \<Rightarrow> kernel \<Rightarrow> bool" where
  "procs_ok cfg s \<longleftrightarrow> (\<forall>p < NPROC. live s p \<longrightarrow>
     p_kstack (pr s p) \<noteq> 0 \<and> p_pgdir (pr s p) \<noteq> 0 \<and> fits_rq cfg s p)"

definition kinv :: "sched \<Rightarrow> nat set \<Rightarrow> kernel \<Rightarrow> bool" where
  "kinv cfg sw s \<longleftrightarrow> length (k_ptab s) = NPROC \<and> rq_inv cfg s (ready_set s) \<and> cpus_ok sw s \<and> procs_ok cfg s"

text \<open>The locks this CPU holds.\<close>

definition my_locks :: "kernel \<Rightarrow> lockid list" where
  "my_locks s = map fst (filter (\<lambda>(l, c). c = k_me s) (k_held s))"

lemma ncli_my_locks: "ncli s = length (my_locks s)"
  by (simp add: ncli_def my_locks_def)

lemma holding_my_locks: "holding l s \<longleftrightarrow> l \<in> set (my_locks s)"
  by (force simp: holding_def my_locks_def)

lemma my_locks_acquire [simp]:
  "my_locks (s\<lparr>k_held := (l, k_me s) # k_held s\<rparr>) = l # my_locks s"
  by (simp add: my_locks_def)

lemma free_not_mine: "lock_free l s \<Longrightarrow> l \<notin> set (my_locks s)"
  by (force simp: lock_free_def my_locks_def)

text \<open>A state changed in the process table and the run queues only.\<close>

definition procs_only :: "kernel \<Rightarrow> kernel \<Rightarrow> bool" where
  "procs_only s t \<longleftrightarrow> (\<exists>pt q m. t = s\<lparr>k_ptab := pt, k_pq := q, k_mq := m\<rparr>)"

lemma procs_onlyD:
  assumes "procs_only s t"
  shows "k_me t = k_me s" "k_held t = k_held s" "k_cpus t = k_cpus s"
    "k_ticks t = k_ticks s" "k_mem t = k_mem s" "k_freelist t = k_freelist s"
    "k_cons t = k_cons s" "k_kpgdir t = k_kpgdir s" "k_end t = k_end s"
    "k_use_lock t = k_use_lock s" "k_initproc t = k_initproc s" "k_nextpid t = k_nextpid s"
  using assms by (auto simp: procs_only_def)

lemma procs_only_refl [simp]: "procs_only s s"
  unfolding procs_only_def
  by (intro exI[of _ "k_ptab s"] exI[of _ "k_pq s"] exI[of _ "k_mq s"]) simp

lemma procs_only_trans: "procs_only s t \<Longrightarrow> procs_only t u \<Longrightarrow> procs_only s u"
proof -
  assume "procs_only s t" "procs_only t u"
  then obtain pt q m pt' q' m' where "t = s\<lparr>k_ptab := pt, k_pq := q, k_mq := m\<rparr>"
      "u = t\<lparr>k_ptab := pt', k_pq := q', k_mq := m'\<rparr>" unfolding procs_only_def by blast
  then have "u = s\<lparr>k_ptab := pt', k_pq := q', k_mq := m'\<rparr>" by simp
  then show ?thesis unfolding procs_only_def by blast
qed

lemma procs_only_upd [simp]: "procs_only s (upd_proc p f s)"
  unfolding procs_only_def upd_proc_def
  by (intro exI[of _ "(k_ptab s)[p := f (k_ptab s ! p)]"] exI[of _ "k_pq s"] exI[of _ "k_mq s"]) simp

lemma procs_only_queues: "queues_only s t \<Longrightarrow> procs_only s t"
proof -
  assume "queues_only s t"
  then obtain q m where "t = s\<lparr>k_pq := q, k_mq := m\<rparr>" unfolding queues_only_def by blast
  then have "t = s\<lparr>k_ptab := k_ptab s, k_pq := q, k_mq := m\<rparr>" by simp
  then show ?thesis unfolding procs_only_def by blast
qed

lemma procs_only_locks [simp]: "procs_only s t \<Longrightarrow> my_locks t = my_locks s"
  by (simp add: my_locks_def procs_onlyD)

lemma procs_only_cpu [simp]: "procs_only s t \<Longrightarrow> cpu_proc t = cpu_proc s"
  by (simp add: cpu_proc_def procs_onlyD fun_eq_iff)

section \<open>Frames\<close>

text \<open>Updates of a process that the invariant does not look at.\<close>

definition same_sched :: "proc \<Rightarrow> proc \<Rightarrow> bool" where
  "same_sched x y \<longleftrightarrow> p_state y = p_state x \<and> p_timecreated y = p_timecreated x \<and>
     p_priority y = p_priority x \<and> p_kstack y = p_kstack x \<and> p_pgdir y = p_pgdir x"

lemma kinv_frame:
  assumes "kinv cfg sw s" "length (k_ptab t) = length (k_ptab s)" "k_pq t = k_pq s" "k_mq t = k_mq s"
    "k_me t = k_me s" "length (k_cpus t) = length (k_cpus s)" "cpu_proc t = cpu_proc s"
    "\<And>p. p < NPROC \<Longrightarrow> same_sched (pr s p) (pr t p)"
  shows "kinv cfg sw t"
proof -
  have r: "ready_set t = ready_set s" using assms(8) by (auto simp: ready_set_def same_sched_def)
  have "rq_inv cfg t (ready_set s)"
  proof (rule rq_inv_cong[of cfg s])
    show "rq_inv cfg s (ready_set s)" using assms(1) by (simp add: kinv_def)
  qed (use assms(3,4,8) in \<open>auto simp: ready_set_def same_sched_def\<close>)
  moreover have "cpus_ok sw t"
    using assms(1,5-8) by (auto simp: kinv_def cpus_ok_def same_sched_def)
  moreover have "procs_ok cfg t"
    using assms(1,8) by (auto simp: kinv_def procs_ok_def live_def fits_rq_def same_sched_def)
  ultimately show ?thesis using assms(1,2) r by (simp add: kinv_def)
qed

lemma kinv_upd_proc:
  assumes "kinv cfg sw s" "p < NPROC" "same_sched (pr s p) (f (pr s p))"
  shows "kinv cfg sw (upd_proc p f s)"
proof (rule kinv_frame[OF assms(1)])
  fix q assume "q < NPROC"
  then show "same_sched (pr s q) (pr (upd_proc p f s) q)"
    using assms by (simp add: pr_upd_proc kinv_def same_sched_def)
qed (simp_all add: cpu_proc_def fun_eq_iff)

lemma kinv_held [simp]: "kinv cfg sw (s\<lparr>k_held := h\<rparr>) = kinv cfg sw s"
proof -
  have "kinv cfg sw s \<Longrightarrow> kinv cfg sw (s\<lparr>k_held := h\<rparr>)" for s h
    by (rule kinv_frame) (auto simp: same_sched_def cpu_proc_def)
  from this[of s h] this[of "s\<lparr>k_held := h\<rparr>" "k_held s"] show ?thesis by auto
qed

lemma kinv_len: "kinv cfg sw s \<Longrightarrow> length (k_ptab s) = NPROC"
  by (simp add: kinv_def)

section \<open>State changes\<close>

text \<open>
  A process becomes \<open>RUNNABLE\<close> and enters the run queue. \<open>A\<close> collects what the callers need:
  the state change alone breaks the invariant, the enqueue repairs it.
\<close>

lemma become_ready:
  assumes inv: "kinv cfg sw s" and p: "p < NPROC" "p_state (pr s p) \<noteq> RUNNABLE"
    and x: "p_state (f (pr s p)) = RUNNABLE" "p_timecreated (f (pr s p)) = p_timecreated (pr s p)"
      "p_kstack (f (pr s p)) \<noteq> 0" "p_pgdir (f (pr s p)) \<noteq> 0"
      "has_levels cfg \<Longrightarrow> valid_pr (p_priority (f (pr s p)))"
    and cpu: "p_state (pr s p) = RUNNING \<Longrightarrow> \<forall>c < length (k_cpus s). cpu_proc s c = Some p \<longrightarrow> c \<in> sw'"
    and sw: "sw \<subseteq> sw'"
  shows "\<exists>t. enqueue_ready cfg p (upd_proc p f s) = Ret () t \<and> kinv cfg sw' t \<and> procs_only s t \<and>
    pr t = (pr s)(p := f (pr s p))"
proof -
  let ?u = "upd_proc p f s"
  have len: "p < length (k_ptab s)" using inv p by (simp add: kinv_def)
  have pru: "pr ?u = (pr s)(p := f (pr s p))" using len by (auto simp: pr_upd_proc fun_eq_iff)
  have notin: "p \<notin> ready_set s" using p(2) by (simp add: ready_set_def)
  have "rq_inv cfg ?u (ready_set s)"
  proof (rule rq_inv_cong[of cfg s])
    show "rq_inv cfg s (ready_set s)" using inv by (simp add: kinv_def)
  qed (use pru notin in auto)
  moreover have "fits_rq cfg ?u p" using x(5) pru by (simp add: fits_rq_def)
  ultimately obtain t where t: "enqueue_ready cfg p ?u = Ret () t" "queues_only ?u t"
      "rq_inv cfg t (insert p (ready_set s))"
    using enqueue_ready_ok p(1) notin by blast
  have prt: "pr t = (pr s)(p := f (pr s p))" using queues_onlyD(9)[OF t(2)] pru by simp
  have "ready_set t = insert p (ready_set s)" using prt p(1) x(1) by (auto simp: ready_set_def)
  moreover have ps: "procs_only s t"
    using procs_only_trans[OF procs_only_upd procs_only_queues[OF t(2)]] .
  have "cpus_ok sw' t"
  proof -
    have c: "cpus_ok sw s" using inv by (simp add: kinv_def)
    have cp: "cpu_proc t = cpu_proc s" "k_me t = k_me s" "length (k_cpus t) = length (k_cpus s)"
      using ps by (simp_all add: procs_onlyD)
    have run: "p_state (pr t q) = RUNNING" if "c < length (k_cpus s)" "cpu_proc s c = Some q" "c \<notin> sw'" for c q
    proof -
      have "c \<notin> sw" using that(3) sw by blast
      then have "p_state (pr s q) = RUNNING" using c that(1,2) by (simp add: cpus_ok_def)
      moreover have "q \<noteq> p" using cpu that calculation by blast
      ultimately show ?thesis using prt by simp
    qed
    have "q < NPROC \<Longrightarrow> p_state (pr t q) = RUNNING \<Longrightarrow> \<exists>c < length (k_cpus s). cpu_proc s c = Some q" for q
      using c prt x(1) by (auto simp: cpus_ok_def split: if_splits)
    then show ?thesis using c run unfolding cpus_ok_def cp by blast
  qed
  moreover have "procs_ok cfg t"
    using inv prt x by (auto simp: kinv_def procs_ok_def live_def fits_rq_def)
  moreover have "length (k_ptab t) = NPROC"
    using queues_onlyD(4)[OF t(2)] inv by (simp add: kinv_def)
  ultimately show ?thesis using t ps prt by (auto simp: kinv_def)
qed

text \<open>The running process goes to sleep or exits: it leaves the set of running processes.\<close>

lemma leave_running:
  assumes inv: "kinv cfg sw s" and p: "p < NPROC" "p_state (pr s p) = RUNNING"
    and x: "p_state (f (pr s p)) = SLEEPING \<or> p_state (f (pr s p)) = ZOMBIE"
      "p_kstack (f (pr s p)) = p_kstack (pr s p)" "p_pgdir (f (pr s p)) = p_pgdir (pr s p)"
      "p_priority (f (pr s p)) = p_priority (pr s p)"
    and cpu: "\<forall>c < length (k_cpus s). cpu_proc s c = Some p \<longrightarrow> c \<in> sw'" and sw: "sw \<subseteq> sw'"
  shows "kinv cfg sw' (upd_proc p f s)"
proof -
  let ?u = "upd_proc p f s"
  have len: "p < length (k_ptab s)" using inv p by (simp add: kinv_def)
  have pru: "pr ?u = (pr s)(p := f (pr s p))" using len by (auto simp: pr_upd_proc fun_eq_iff)
  have r: "ready_set ?u = ready_set s" using p(2) x(1) pru by (auto simp: ready_set_def)
  have "rq_inv cfg ?u (ready_set s)"
  proof (rule rq_inv_cong[of cfg s])
    show "rq_inv cfg s (ready_set s)" using inv by (simp add: kinv_def)
  qed (use pru p(2) in \<open>auto simp: ready_set_def\<close>)
  moreover have "procs_ok cfg ?u"
    using inv pru x p by (auto simp: kinv_def procs_ok_def live_def fits_rq_def)
  moreover have "cpus_ok sw' ?u"
  proof -
    have c: "cpus_ok sw s" using inv by (simp add: kinv_def)
    have cp: "cpu_proc ?u = cpu_proc s" by simp
    have run: "p_state (pr ?u q) = RUNNING" if "c < length (k_cpus s)" "cpu_proc s c = Some q" "c \<notin> sw'" for c q
    proof -
      have "c \<notin> sw" "q \<noteq> p" using that sw cpu by auto
      then show ?thesis using c that(1,2) pru by (simp add: cpus_ok_def)
    qed
    have "q < NPROC \<Longrightarrow> p_state (pr ?u q) = RUNNING \<Longrightarrow> \<exists>c < length (k_cpus s). cpu_proc s c = Some q" for q
      using c pru x(1) by (auto simp: cpus_ok_def split: if_splits)
    then show ?thesis using c run unfolding cpus_ok_def cp upd_proc_fields by blast
  qed
  ultimately show ?thesis using inv r by (simp add: kinv_def)
qed

section \<open>wakeup\<close>

text \<open>What waking a process does to its entry.\<close>

definition woken :: "sched \<Rightarrow> proc \<Rightarrow> proc" where
  "woken cfg x = x\<lparr>p_state := RUNNABLE, p_priority := (if cfg = DMLQ then HIPR else p_priority x)\<rparr>"

definition wakes :: "chan option \<Rightarrow> proc \<Rightarrow> bool" where
  "wakes chn x \<longleftrightarrow> p_state x = SLEEPING \<and> p_chan x = chn"

lemma upd_proc_comp: "upd_proc p g (upd_proc p f s) = upd_proc p (\<lambda>x. g (f x)) s"
  by (cases "p < length (k_ptab s)") (simp_all add: upd_proc_def list_update_beyond)

lemma make_ready_ok:
  assumes inv: "kinv cfg sw s" and p: "p < NPROC" "p_state (pr s p) = SLEEPING"
  shows "\<exists>t. make_ready cfg p s = Ret () t \<and> kinv cfg sw t \<and> procs_only s t \<and>
    pr t = (pr s)(p := woken cfg (pr s p))"
proof -
  have step: "make_ready cfg p s = enqueue_ready cfg p (upd_proc p (woken cfg) s)"
    by (simp add: make_ready_def set_state_def raise_priority_def kexec upd_proc_comp woken_def[abs_def] if_distrib)
  have "live s p" using p(2) by (simp add: live_def)
  then have "p_kstack (pr s p) \<noteq> 0" "p_pgdir (pr s p) \<noteq> 0" "fits_rq cfg s p"
    using inv p(1) by (auto simp: kinv_def procs_ok_def)
  then show ?thesis
    unfolding step
    by (intro become_ready[OF inv p(1)]) (use p(2) in \<open>auto simp: woken_def fits_rq_def\<close>)
qed

lemma wakeup1_ok:
  assumes inv: "kinv cfg sw s"
  shows "\<exists>t. wakeup1 cfg chn s = Ret () t \<and> kinv cfg sw t \<and> procs_only s t \<and>
    (\<forall>p < NPROC. pr t p = (if wakes chn (pr s p) then woken cfg (pr s p) else pr s p))"
proof -
  define I where "I = (\<lambda>dn t. kinv cfg sw t \<and> procs_only s t \<and>
    (\<forall>p. pr t p = (if p \<in> set dn \<and> wakes chn (pr s p) then woken cfg (pr s p) else pr s p)))"
  have "\<exists>t. kfor [0..<NPROC] (\<lambda>p. kwhen (\<lambda>s. p_state (pr s p) = SLEEPING \<and> p_chan (pr s p) = chn)
      (make_ready cfg p)) s = Ret () t \<and> I [0..<NPROC] t"
  proof (rule kfor_rule[where I = I])
    show "I [] s" using inv by (simp add: I_def)
  next
    fix dn p t
    assume "\<exists>rest. [0..<NPROC] = dn @ p # rest" and I: "I dn t"
    then obtain rest where r: "[0..<NPROC] = dn @ p # rest" by blast
    then have "distinct (dn @ p # rest)" "p \<in> set [0..<NPROC]" by (metis distinct_upt, simp)
    then have p: "p < NPROC" "p \<notin> set dn" by auto
    have prp: "pr t p = pr s p" using I p(2) by (simp add: I_def)
    show "\<exists>u. kwhen (\<lambda>s. p_state (pr s p) = SLEEPING \<and> p_chan (pr s p) = chn) (make_ready cfg p) t = Ret () u \<and>
        I (dn @ [p]) u"
    proof (cases "wakes chn (pr s p)")
      case True
      then have "p_state (pr t p) = SLEEPING" "p_chan (pr t p) = chn" using prp by (simp_all add: wakes_def)
      moreover obtain u where "make_ready cfg p t = Ret () u" "kinv cfg sw u" "procs_only t u"
          "pr u = (pr t)(p := woken cfg (pr t p))"
        using make_ready_ok[of cfg sw t p] I p(1) calculation by (auto simp: I_def)
      ultimately show ?thesis using I True prp p(2)
        by (auto simp: I_def kexec intro: procs_only_trans)
    next
      case False
      then have "\<not> (p_state (pr t p) = SLEEPING \<and> p_chan (pr t p) = chn)" using prp by (simp add: wakes_def)
      then show ?thesis using I False by (auto simp: I_def kexec)
    qed
  qed
  then show ?thesis by (auto simp: wakeup1_def I_def)
qed

lemma release_after:
  assumes "procs_only (s\<lparr>k_held := (l, k_me s) # k_held s\<rparr>) t"
  shows "release l t = Ret () (t\<lparr>k_held := k_held s\<rparr>)" "procs_only s (t\<lparr>k_held := k_held s\<rparr>)"
proof -
  obtain pt q m where t: "t = s\<lparr>k_held := (l, k_me s) # k_held s, k_ptab := pt, k_pq := q, k_mq := m\<rparr>"
    using assms unfolding procs_only_def by blast
  show "release l t = Ret () (t\<lparr>k_held := k_held s\<rparr>)"
    unfolding t by (simp add: release_def holding_def)
  have "t\<lparr>k_held := k_held s\<rparr> = s\<lparr>k_ptab := pt, k_pq := q, k_mq := m\<rparr>" unfolding t by simp
  then show "procs_only s (t\<lparr>k_held := k_held s\<rparr>)" unfolding procs_only_def by blast
qed

lemma wakeup_ok:
  assumes "kinv cfg sw s" "lock_free L_ptable s"
  shows "\<exists>t. wakeup cfg chn s = Ret () t \<and> kinv cfg sw t \<and> procs_only s t \<and>
    (\<forall>p < NPROC. pr t p = (if wakes (Some chn) (pr s p) then woken cfg (pr s p) else pr s p))"
proof -
  let ?s = "s\<lparr>k_held := (L_ptable, k_me s) # k_held s\<rparr>"
  have "kinv cfg sw ?s" using assms(1) by simp
  from wakeup1_ok[OF this, of "Some chn"] obtain t where
    t: "wakeup1 cfg (Some chn) ?s = Ret () t" "kinv cfg sw t" "procs_only ?s t"
      "\<forall>p < NPROC. pr t p = (if wakes (Some chn) (pr s p) then woken cfg (pr s p) else pr s p)"
    by auto
  note rel = release_after[OF t(3)]
  have "wakeup cfg chn s = Ret () (t\<lparr>k_held := k_held s\<rparr>)"
    using acquire_free[OF assms(2)] t(1) rel(1) by (simp add: wakeup_def kexec)
  then show ?thesis using t(2,4) rel(2) by (intro exI[of _ "t\<lparr>k_held := k_held s\<rparr>"]) simp
qed

section \<open>kill\<close>

definition killed :: "sched \<Rightarrow> proc \<Rightarrow> proc" where
  "killed cfg x = (if p_state x = SLEEPING then woken cfg (x\<lparr>p_killed := True\<rparr>) else x\<lparr>p_killed := True\<rparr>)"

definition proc_by_pid :: "kernel \<Rightarrow> u32 \<Rightarrow> nat option" where
  "proc_by_pid s pid = find (\<lambda>p. p_pid (pr s p) = pid) [0..<NPROC]"

lemma proc_by_pid_less: "proc_by_pid s pid = Some p \<Longrightarrow> p < NPROC \<and> p_pid (pr s p) = pid"
  unfolding proc_by_pid_def by (drule find_upt_Some) simp

lemma kill_ok:
  assumes inv: "kinv cfg sw s" and free: "lock_free L_ptable s"
  shows "\<exists>r t. kill cfg pid s = Ret r t \<and> kinv cfg sw t \<and> procs_only s t \<and>
    (case proc_by_pid s pid of None \<Rightarrow> r = - 1 \<and> pr t = pr s
     | Some p \<Rightarrow> r = 0 \<and> pr t = (pr s)(p := killed cfg (pr s p)))"
proof -
  let ?s = "s\<lparr>k_held := (L_ptable, k_me s) # k_held s\<rparr>"
  let ?body = "\<lambda>p. kif (\<lambda>s. p_pid (pr s p) = pid)
         (kbind (kseq [
            kupd (upd_proc p (\<lambda>x. x\<lparr>p_killed := True\<rparr>)),
            kwhen (\<lambda>s. p_state (pr s p) = SLEEPING) (make_ready cfg p),
            release L_ptable]) (\<lambda>_. kret (Some ())))
         (kret None)"
  have inv1: "kinv cfg sw ?s" using inv by simp
  show ?thesis
  proof (cases "proc_by_pid s pid")
    case None
    then have "p_pid (pr s p) \<noteq> pid" if "p < NPROC" for p
      using that by (auto simp: proc_by_pid_def find_None_iff)
    then have "kfind [0..<NPROC] ?body ?s = Ret None ?s" by (intro kfind_miss) (simp add: kexec)
    then have "kill cfg pid s = Ret (- 1) s"
      using acquire_free[OF free] by (simp add: kill_def kexec release_held holding_def)
    then show ?thesis using None inv by auto
  next
    case (Some p)
    note p = proc_by_pid_less[OF Some]
    define u where "u = upd_proc p (\<lambda>x. x\<lparr>p_killed := True\<rparr>) ?s"
    have lenp: "p < length (k_ptab ?s)" using p inv kinv_len by simp
    have pru: "pr u = (pr s)(p := (pr s p)\<lparr>p_killed := True\<rparr>)"
      using lenp by (auto simp: u_def pr_upd_proc fun_eq_iff)
    have invu: "kinv cfg sw u"
      unfolding u_def by (rule kinv_upd_proc[OF inv1]) (use p in \<open>simp_all add: same_sched_def\<close>)
    obtain v where v: "kwhen (\<lambda>s. p_state (pr s p) = SLEEPING) (make_ready cfg p) u = Ret () v"
        "kinv cfg sw v" "procs_only u v" "pr v = (pr s)(p := killed cfg (pr s p))"
    proof (cases "p_state (pr s p) = SLEEPING")
      case True
      then have sl: "p_state (pr u p) = SLEEPING" using pru by simp
      from make_ready_ok[OF invu _ sl] p obtain v where
        "make_ready cfg p u = Ret () v" "kinv cfg sw v" "procs_only u v" "pr v = (pr u)(p := woken cfg (pr u p))"
        by blast
      then show thesis using that[of v] sl True pru by (simp add: kexec killed_def)
    next
      case False
      then show thesis using that[of u] invu pru by (simp add: kexec killed_def)
    qed
    have "procs_only ?s v" using procs_only_trans[OF _ v(3)] by (simp add: u_def)
    note rel = release_after[OF this]
    have hit: "?body p ?s = Ret (Some ()) (v\<lparr>k_held := k_held s\<rparr>)"
      using p v(1) rel(1) by (simp add: kexec u_def)
    have "kfind [0..<NPROC] ?body ?s = Ret (Some ()) (v\<lparr>k_held := k_held s\<rparr>)"
      by (rule kfind_hit[OF Some[unfolded proc_by_pid_def], where b = ?body, OF _ hit]) (simp add: kexec)
    then have "kill cfg pid s = Ret 0 (v\<lparr>k_held := k_held s\<rparr>)"
      using acquire_free[OF free] by (simp add: kill_def kexec)
    then show ?thesis using v rel(2) Some by auto
  qed
qed

section \<open>yield, sleep\<close>

text \<open>The running process of this CPU, in a state in which it may switch.\<close>

definition running :: "kernel \<Rightarrow> nat \<Rightarrow> bool" where
  "running s p \<longleftrightarrow> myproc s = Some p \<and> p < NPROC \<and> p_state (pr s p) = RUNNING"

text \<open>The state in which a thread switches to the scheduler: it holds \<open>ptable.lock\<close> only.\<close>

definition switching :: "sched \<Rightarrow> kernel \<Rightarrow> bool" where
  "switching cfg s \<longleftrightarrow> kinv cfg {k_me s} s \<and> my_locks s = [L_ptable] \<and>
     (\<exists>p. myproc s = Some p \<and> p < NPROC \<and> p_state (pr s p) \<noteq> RUNNING)"

lemma sched_runs:
  assumes "myproc s = Some p" "my_locks s = [L_ptable]" "p_state (pr s p) \<noteq> RUNNING"
  shows "sched s = Swtch (upd_proc p (\<lambda>x. x\<lparr>p_switchnum := p_switchnum x + 1\<rparr>) s) (kret ())"
  using assms by (simp add: sched_def kexec curproc_Some holding_my_locks ncli_my_locks)

lemma myproc_cpu_proc: "myproc s = cpu_proc s (k_me s)"
  by (simp add: myproc_def mycpu_def cpu_proc_def)

lemma switch_counted:
  assumes "kinv cfg {k_me s} s" "my_locks s = [L_ptable]" "myproc s = Some p" "p < NPROC"
    "p_state (pr s p) \<noteq> RUNNING"
  shows "switching cfg (upd_proc p (\<lambda>x. x\<lparr>p_switchnum := p_switchnum x + 1\<rparr>) s)"
proof -
  let ?t = "upd_proc p (\<lambda>x. x\<lparr>p_switchnum := p_switchnum x + 1\<rparr>) s"
  have "kinv cfg {k_me s} ?t" by (rule kinv_upd_proc[OF assms(1,4)]) (simp add: same_sched_def)
  moreover have "myproc ?t = Some p" using assms(3) by (simp add: myproc_cpu_proc cpu_proc_def)
  moreover have "p_state (pr ?t p) \<noteq> RUNNING" using assms kinv_len[OF assms(1)] by (simp add: pr_upd_proc)
  ultimately show ?thesis using assms(2,4) by (simp add: switching_def my_locks_def)
qed

lemma runs_alone:
  assumes "kinv cfg sw s" "running s p" "c < length (k_cpus s)" "cpu_proc s c = Some p"
  shows "c = k_me s"
  using assms by (auto simp: kinv_def cpus_ok_def running_def myproc_cpu_proc)

lemma yield_ok:
  assumes inv: "kinv cfg {} s" and run: "running s p" and locks: "my_locks s = []" "lock_free L_ptable s"
  shows "\<exists>t. yield cfg s = Swtch t (release L_ptable) \<and> switching cfg t \<and> k_me t = k_me s \<and>
    k_cpus t = k_cpus s \<and> myproc t = Some p \<and> k_held t = (L_ptable, k_me s) # k_held s \<and>
    pr t = (pr s)(p := (pr s p)\<lparr>p_state := RUNNABLE, p_switchnum := p_switchnum (pr s p) + 1\<rparr>)"
proof -
  let ?s = "s\<lparr>k_held := (L_ptable, k_me s) # k_held s\<rparr>"
  have p: "p < NPROC" "p_state (pr s p) = RUNNING" "myproc s = Some p" using run by (simp_all add: running_def)
  have "live s p" using p(2) by (simp add: live_def)
  then have ok: "p_kstack (pr s p) \<noteq> 0" "p_pgdir (pr s p) \<noteq> 0" "fits_rq cfg s p"
    using inv p(1) by (auto simp: kinv_def procs_ok_def)
  have run1: "running ?s p" using run by (simp add: running_def myproc_cpu_proc cpu_proc_def)
  have inv1: "kinv cfg {} ?s" using inv by simp
  have "\<exists>t. enqueue_ready cfg p (upd_proc p (\<lambda>x. x\<lparr>p_state := RUNNABLE\<rparr>) ?s) = Ret () t \<and> kinv cfg {k_me s} t \<and>
      procs_only ?s t \<and> pr t = (pr s)(p := (pr s p)\<lparr>p_state := RUNNABLE\<rparr>)"
  proof (rule become_ready[OF inv1 p(1), where f = "\<lambda>x. x\<lparr>p_state := RUNNABLE\<rparr>" and sw' = "{k_me s}", unfolded pr_upd_other])
    show "\<forall>c < length (k_cpus ?s). cpu_proc ?s c = Some p \<longrightarrow> c \<in> {k_me s}"
      using runs_alone[OF inv1 run1] by simp
  qed (use p ok in \<open>simp_all add: fits_rq_def\<close>)
  then obtain t where t: "enqueue_ready cfg p (upd_proc p (\<lambda>x. x\<lparr>p_state := RUNNABLE\<rparr>) ?s) = Ret () t"
      "kinv cfg {k_me s} t" "procs_only ?s t" "pr t = (pr s)(p := (pr s p)\<lparr>p_state := RUNNABLE\<rparr>)"
    by auto
  have my: "myproc ?s = Some p" "myproc (upd_proc p f ?s) = Some p" "myproc t = Some p" for f
    using p(3) t(3) by (simp_all add: myproc_cpu_proc procs_onlyD cpu_proc_def)
  have lk: "my_locks t = [L_ptable]" using t(3) locks(1) by simp
  let ?u = "upd_proc p (\<lambda>x. x\<lparr>p_switchnum := p_switchnum x + 1\<rparr>) t"
  have "sched t = Swtch ?u (kret ())" using my(3) lk t(4) by (intro sched_runs) auto
  then have "yield cfg s = Swtch ?u (release L_ptable)"
    using acquire_free[OF locks(2)] my t(1)
    by (simp add: yield_def kexec curproc_Some set_state_def)
  moreover have "switching cfg ?u"
    using t(2-4) lk my(3) p(1) by (intro switch_counted) (simp_all add: procs_onlyD)
  moreover have "pr ?u = (pr s)(p := (pr s p)\<lparr>p_state := RUNNABLE, p_switchnum := p_switchnum (pr s p) + 1\<rparr>)"
    using t(2,4) p(1) by (auto simp: pr_upd_proc kinv_def fun_eq_iff)
  moreover have "myproc ?u = Some p" using my(3) by (simp add: myproc_cpu_proc cpu_proc_def)
  ultimately show ?thesis using t(3) by (auto simp: procs_onlyD)
qed

text \<open>The part of \<open>sleep\<close> after the switch.\<close>

definition sleep_rest :: "nat \<Rightarrow> lockid \<Rightarrow> unit kmon" where
  "sleep_rest p l = kseq [
     kupd (upd_proc p (\<lambda>x. x\<lparr>p_chan := None\<rparr>)),
     kwhen (\<lambda>s. l \<noteq> L_ptable) (kseq [release L_ptable, acquire l])]"

lemma sleep_ok:
  assumes inv: "kinv cfg {} s" and run: "running s p"
    and locks: "my_locks s = [l]" "l \<noteq> L_ptable \<Longrightarrow> lock_free L_ptable s"
  shows "\<exists>t. sleep chn (Some l) s = Swtch t (sleep_rest p l) \<and> switching cfg t \<and> k_me t = k_me s \<and>
    k_cpus t = k_cpus s \<and> myproc t = Some p \<and> (l \<noteq> L_ptable \<longrightarrow> k_held t = (L_ptable, k_me s) # remove1 (l, k_me s) (k_held s)) \<and>
    pr t = (pr s)(p := (pr s p)\<lparr>p_state := SLEEPING, p_chan := Some chn, p_switchnum := p_switchnum (pr s p) + 1\<rparr>)"
proof -
  have p: "p < NPROC" "p_state (pr s p) = RUNNING" "myproc s = Some p" using run by (simp_all add: running_def)
  define h where "h = (if l = L_ptable then k_held s else (L_ptable, k_me s) # remove1 (l, k_me s) (k_held s))"
  let ?s = "s\<lparr>k_held := h\<rparr>"
  have pre: "kwhen (\<lambda>s. l \<noteq> L_ptable) (kseq [acquire L_ptable, release l]) s = Ret () ?s"
  proof (cases "l = L_ptable")
    case True
    then show ?thesis by (simp add: kexec h_def)
  next
    case False
    have "(l, k_me s) \<in> set (k_held s)" using locks(1) holding_my_locks[of l s] by (simp add: holding_def)
    then show ?thesis using False acquire_free[OF locks(2)[OF False]]
      by (simp add: kexec release_def holding_def h_def)
  qed
  have lk: "my_locks ?s = [L_ptable]"
  proof (cases "l = L_ptable")
    case False
    have "filter (\<lambda>(l, c). c = k_me s) (k_held s) = [(l, k_me s)]"
    proof -
      obtain x where x: "filter (\<lambda>(l, c). c = k_me s) (k_held s) = [x]" "fst x = l"
        using locks(1) by (auto simp: my_locks_def map_eq_Cons_conv)
      then have "x \<in> set (filter (\<lambda>(l, c). c = k_me s) (k_held s))" by simp
      then have "snd x = k_me s" by (simp only: set_filter mem_Collect_eq) (simp add: split_beta)
      then show ?thesis using x by (cases x) simp
    qed
    then show ?thesis using False by (simp add: my_locks_def h_def filter_remove1)
  qed (use locks(1) in \<open>simp add: my_locks_def h_def\<close>)
  define f where "f = (\<lambda>x. (x::proc)\<lparr>p_chan := Some chn, p_state := SLEEPING\<rparr>)"
  let ?t = "upd_proc p f ?s"
  have run1: "running ?s p" using run by (simp add: running_def myproc_cpu_proc cpu_proc_def)
  have inv1: "kinv cfg {} ?s" using inv by simp
  have inv2: "kinv cfg {k_me s} ?t"
    using leave_running[OF inv1 p(1), of f "{k_me s}"] p runs_alone[OF inv1 run1] by (auto simp: f_def)
  have len: "p < length (k_ptab s)" using inv p(1) kinv_len by simp
  have prt: "pr ?t = (pr s)(p := f (pr s p))" using len by (auto simp: pr_upd_proc fun_eq_iff)
  have my: "myproc ?t = Some p" using p(3) by (simp add: myproc_cpu_proc cpu_proc_def)
  have lkt: "my_locks ?t = [L_ptable]" using lk by (simp add: my_locks_def)
  let ?u = "upd_proc p (\<lambda>x. x\<lparr>p_switchnum := p_switchnum x + 1\<rparr>) ?t"
  have "sched ?t = Swtch ?u (kret ())" using my lkt prt by (intro sched_runs) (auto simp: f_def)
  then have "sleep chn (Some l) s = Swtch ?u (sleep_rest p l)"
    using pre p(3)
    by (simp add: sleep_def kexec set_state_def upd_proc_comp f_def sleep_rest_def)
      (rule ext, simp add: kexec)
  moreover have "switching cfg ?u" using inv2 lkt my p(1) prt by (intro switch_counted) (simp_all add: f_def)
  moreover have "pr ?u = (pr s)(p := (pr s p)\<lparr>p_state := SLEEPING, p_chan := Some chn, p_switchnum := p_switchnum (pr s p) + 1\<rparr>)"
    using prt len by (auto simp: pr_upd_proc fun_eq_iff f_def)
  moreover have "myproc ?u = Some p" using my by (simp add: myproc_cpu_proc cpu_proc_def)
  ultimately show ?thesis by (auto simp: h_def)
qed

section \<open>The scheduler\<close>

definition ran :: "u32 \<Rightarrow> proc \<Rightarrow> proc" where
  "ran tk x = x\<lparr>p_state := RUNNING, p_timescheduled := tk\<rparr>"

text \<open>What the switch to a process does to the CPU.\<close>

definition onto :: "nat \<Rightarrow> proc \<Rightarrow> cpu \<Rightarrow> cpu" where
  "onto p x c = c\<lparr>c_proc := Some p, c_esp0 := p_kstack x + KSTACKSIZE, c_cr3 := V2P (p_pgdir x)\<rparr>"

lemma upd_cpu_comp: "upd_cpu g (upd_cpu f s) = upd_cpu (\<lambda>c. g (f c)) s"
  by (cases "k_me s < length (k_cpus s)") (simp_all add: upd_cpu_def list_update_beyond)

lemma upd_proc_cpu: "upd_proc p f (upd_cpu g s) = upd_cpu g (upd_proc p f s)"
  by (simp add: upd_proc_def upd_cpu_def)

lemma pr_upd_cpu_proc: "pr (upd_cpu g (upd_proc p f s)) = pr (upd_proc p f s)"
  by simp

lemma run_process_runs:
  assumes "p_kstack (pr s p) \<noteq> 0" "p_pgdir (pr s p) \<noteq> 0"
  shows "run_process p s = Ret () (upd_proc p (ran (k_ticks s)) (upd_cpu (onto p (pr s p)) s))"
  using assms
  by (simp add: run_process_def switchuvm_def kexec set_state_def upd_cpu_comp upd_proc_comp onto_def[abs_def]
      ran_def[abs_def])

text \<open>
  \<open>picked\<close>: the scheduler has taken \<open>p\<close> off the run queue and not yet switched to it.
\<close>

definition picked :: "sched \<Rightarrow> nat \<Rightarrow> kernel \<Rightarrow> bool" where
  "picked cfg p s \<longleftrightarrow> length (k_ptab s) = NPROC \<and> cpus_ok {} s \<and> procs_ok cfg s \<and> p \<in> ready_set s \<and>
     rq_inv cfg s (ready_set s - {p})"

lemma run_process_ok:
  assumes pk: "picked cfg p s" and idle: "myproc s = None"
  shows "\<exists>t. run_process p s = Ret () t \<and> kinv cfg {} t \<and> running t p \<and> k_held t = k_held s \<and>
    k_me t = k_me s \<and> pr t = (pr s)(p := ran (k_ticks s) (pr s p)) \<and>
    mycpu t = onto p (pr s p) (mycpu s) \<and> length (k_cpus t) = length (k_cpus s) \<and>
    (\<forall>c. c \<noteq> k_me s \<longrightarrow> k_cpus t ! c = k_cpus s ! c)"
proof -
  have p: "p < NPROC" "p_state (pr s p) = RUNNABLE" using pk by (auto simp: picked_def ready_set_def)
  then have "p_kstack (pr s p) \<noteq> 0" "p_pgdir (pr s p) \<noteq> 0"
    using pk by (auto simp: picked_def procs_ok_def live_def)
  note run = run_process_runs[OF this]
  let ?t = "upd_proc p (ran (k_ticks s)) (upd_cpu (onto p (pr s p)) s)"
  have c: "cpus_ok {} s" using pk by (simp add: picked_def)
  then have me: "k_me s < length (k_cpus s)" by (simp add: cpus_ok_def)
  have prt: "pr ?t = (pr s)(p := ran (k_ticks s) (pr s p))"
    using pk p(1) by (auto simp: pr_upd_proc picked_def fun_eq_iff)
  have cp: "cpu_proc ?t d = (if d = k_me s then Some p else cpu_proc s d)" for d
    using me by (simp add: cpu_proc_def upd_cpu_def nth_list_update onto_def)
  have r: "ready_set ?t = ready_set s - {p}" using prt by (auto simp: ready_set_def ran_def)
  have "rq_inv cfg ?t (ready_set s - {p})"
  proof (rule rq_inv_cong[of cfg s])
    show "rq_inv cfg s (ready_set s - {p})" using pk by (simp add: picked_def)
  qed (use prt in auto)
  moreover have "procs_ok cfg ?t"
    using pk p prt by (auto simp: picked_def procs_ok_def live_def fits_rq_def ran_def)
  moreover have "cpus_ok {} ?t"
    unfolding cpus_ok_def
  proof (intro conjI allI impI)
    show "k_me ?t < length (k_cpus ?t)" using me by simp
  next
    fix d q assume "d < length (k_cpus ?t)" "cpu_proc ?t d = Some q"
    then show "q < NPROC" "p_state (pr ?t q) = RUNNING"
      using c p prt cp[of d] by (auto simp: cpus_ok_def ran_def split: if_splits)
  next
    fix d e q assume "d < length (k_cpus ?t)" "e < length (k_cpus ?t)"
      "cpu_proc ?t d = Some q" "cpu_proc ?t e = Some q"
    moreover have "cpu_proc s f \<noteq> Some p" if "f < length (k_cpus s)" for f
      using c p(2) that by (auto simp: cpus_ok_def)
    ultimately show "d = e" using c cp[of d] cp[of e] by (auto simp: cpus_ok_def split: if_splits)
  next
    fix q assume q: "q < NPROC" "p_state (pr ?t q) = RUNNING"
    show "\<exists>d < length (k_cpus ?t). cpu_proc ?t d = Some q"
    proof (cases "q = p")
      case True
      then show ?thesis using me cp[of "k_me s"] by auto
    next
      case False
      then have "p_state (pr s q) = RUNNING" using q(2) prt by simp
      then obtain d where d: "d < length (k_cpus s)" "cpu_proc s d = Some q"
        using c q(1) by (auto simp: cpus_ok_def)
      moreover have "d \<noteq> k_me s" using d(2) idle by (auto simp: myproc_cpu_proc)
      ultimately show ?thesis using cp[of d] by auto
    qed
  qed
  ultimately have "kinv cfg {} ?t" using pk r by (simp add: kinv_def picked_def)
  moreover have "running ?t p"
    using cp[of "k_me s"] p prt by (simp add: running_def myproc_cpu_proc ran_def)
  moreover have "mycpu ?t = onto p (pr s p) (mycpu s)" using me by (simp add: mycpu_def upd_cpu_def)
  moreover have "\<forall>d. d \<noteq> k_me s \<longrightarrow> k_cpus ?t ! d = k_cpus s ! d" by (simp add: upd_cpu_def)
  ultimately show ?thesis using run prt by (intro exI[of _ ?t]) simp
qed

text \<open>The processes a pass may choose: under \<open>DEFAULT\<close> those the scan has not passed yet.\<close>

definition candidates :: "sched \<Rightarrow> nat \<Rightarrow> kernel \<Rightarrow> nat set" where
  "candidates cfg from s = (if cfg = DEFAULT then {p \<in> ready_set s. from \<le> p} else ready_set s)"

text \<open>The order in which the configuration prefers processes.\<close>

definition prefers :: "sched \<Rightarrow> kernel \<Rightarrow> nat \<Rightarrow> nat \<Rightarrow> bool" where
  "prefers cfg s p r = (case cfg of
     DEFAULT \<Rightarrow> p \<le> r
   | FCFS \<Rightarrow> p_timecreated (pr s p) \<le> p_timecreated (pr s r)
   | _ \<Rightarrow> p_priority (pr s p) \<le> p_priority (pr s r))"

lemma pick_next_ok:
  assumes inv: "kinv cfg {} s"
  shows "if candidates cfg from s = {} then pick_next cfg from s = Ret None s
    else \<exists>p t. pick_next cfg from s = Ret (Some p) t \<and> p \<in> candidates cfg from s \<and> queues_only s t \<and>
      picked cfg p t \<and> (\<forall>r \<in> candidates cfg from s. prefers cfg s p r)"
proof -
  have rq: "rq_inv cfg s (ready_set s)" using inv by (simp add: kinv_def)
  have pk: "picked cfg p t" if "queues_only s t" "p \<in> ready_set s" "rq_inv cfg t (ready_set s - {p})" for p t
    using that inv queues_onlyD[OF that(1)]
    by (auto simp: picked_def kinv_def ready_set_def cpus_ok_def procs_ok_def live_def fits_rq_def cpu_proc_def)
  show ?thesis
  proof (cases cfg)
    case DEFAULT
    have none: "find (\<lambda>i. p_state (pr s i) = RUNNABLE) [from..<NPROC] = None \<longleftrightarrow> candidates cfg from s = {}"
      by (auto simp: find_upt_None candidates_def ready_set_def DEFAULT)
    show ?thesis
    proof (cases "find (\<lambda>i. p_state (pr s i) = RUNNABLE) [from..<NPROC]")
      case None
      then show ?thesis using none DEFAULT by (simp add: pick_next_def kexec)
    next
      case (Some p)
      from find_upt_Some[OF Some] have p: "from \<le> p" "p < NPROC" "p_state (pr s p) = RUNNABLE"
          "\<forall>j. from \<le> j \<and> j < p \<longrightarrow> p_state (pr s j) \<noteq> RUNNABLE" by auto
      then have pc: "p \<in> candidates cfg from s" by (simp add: candidates_def ready_set_def DEFAULT)
      have "rq_inv cfg s (ready_set s - {p})" using rq DEFAULT by (auto simp: rq_inv_def has_levels_def)
      moreover have "\<forall>r \<in> candidates cfg from s. prefers cfg s p r"
        using p(4) by (auto simp: candidates_def ready_set_def prefers_def DEFAULT not_less[symmetric])
      moreover have "p \<in> ready_set s" using p(2,3) by (simp add: ready_set_def)
      ultimately show ?thesis using Some pc pk[of s p] DEFAULT
        by (auto simp: pick_next_def kexec)
    qed
  next
    case FCFS
    have same: "pick_next FCFS from s = pick_next FCFS 0 s" by (simp add: pick_next_def)
    show ?thesis
    proof (cases "ready_set s = {}")
      case True
      then show ?thesis using fcfs.pick_none[of s] rq FCFS by (simp add: candidates_def same)
    next
      case False
      from rq_fcfs_pick_ok[OF rq[unfolded FCFS] this, of "from"] obtain p t where
        t: "pick_next FCFS from s = Ret (Some p) t" "queues_only s t" "p \<in> ready_set s"
          "rq_inv FCFS t (ready_set s - {p})" "\<forall>r \<in> ready_set s. older s p r" by blast
      then show ?thesis using False pk[of t p] FCFS
        by (auto simp: candidates_def prefers_def older_def)
    qed
  next
    case MLQ
    show ?thesis
    proof (cases "ready_set s = {}")
      case True
      then show ?thesis using levels_pick_none[of MLQ s "from"] rq MLQ by (simp add: candidates_def)
    next
      case False
      from rq_levels_pick_ok[OF mlq_levels(1) rq[unfolded MLQ] this, of "from"] obtain p t where
        t: "pick_next MLQ from s = Ret (Some p) t" "queues_only s t" "p \<in> ready_set s"
          "rq_inv MLQ t (ready_set s - {p})" "\<forall>r \<in> ready_set s. not_lower s p r" by blast
      then show ?thesis using False pk[of t p] MLQ
        by (auto simp: candidates_def prefers_def not_lower_def)
    qed
  next
    case DMLQ
    show ?thesis
    proof (cases "ready_set s = {}")
      case True
      then show ?thesis using levels_pick_none[of DMLQ s "from"] rq DMLQ by (simp add: candidates_def)
    next
      case False
      from rq_levels_pick_ok[OF mlq_levels(2) rq[unfolded DMLQ] this, of "from"] obtain p t where
        t: "pick_next DMLQ from s = Ret (Some p) t" "queues_only s t" "p \<in> ready_set s"
          "rq_inv DMLQ t (ready_set s - {p})" "\<forall>r \<in> ready_set s. not_lower s p r" by blast
      then show ?thesis using False pk[of t p] DMLQ
        by (auto simp: candidates_def prefers_def not_lower_def)
    qed
  qed
qed

text \<open>One pass of the scheduler with \<open>ptable.lock\<close> held, on a CPU without a process.\<close>

lemma sched_pass_ok:
  assumes inv: "kinv cfg {} s" and idle: "myproc s = None" and lk: "k_held s = (L_ptable, k_me s) # h"
  shows "if candidates cfg from s = {} then sched_pass cfg from s = Ret None (s\<lparr>k_held := h\<rparr>)
    else \<exists>p t. sched_pass cfg from s = Ret (Some p) t \<and> p \<in> candidates cfg from s \<and> kinv cfg {} t \<and>
      running t p \<and> k_held t = k_held s \<and> k_me t = k_me s \<and> (\<forall>r \<in> candidates cfg from s. prefers cfg s p r) \<and>
      pr t = (pr s)(p := ran (k_ticks s) (pr s p)) \<and> c_cr3 (mycpu t) = V2P (p_pgdir (pr s p)) \<and>
      length (k_cpus t) = length (k_cpus s) \<and> (\<forall>c. c \<noteq> k_me s \<longrightarrow> k_cpus t ! c = k_cpus s ! c)"
proof (cases "candidates cfg from s = {}")
  case True
  then show ?thesis using pick_next_ok[OF inv, of "from"] lk
    by (simp add: sched_pass_def kexec release_def holding_def)
next
  case False
  with pick_next_ok[OF inv, of "from"] obtain p u where
    u: "pick_next cfg from s = Ret (Some p) u" "p \<in> candidates cfg from s" "queues_only s u" "picked cfg p u"
      "\<forall>r \<in> candidates cfg from s. prefers cfg s p r" by auto
  have "myproc u = None" using idle queues_onlyD[OF u(3)] by (simp add: myproc_def mycpu_def)
  from run_process_ok[OF u(4) this] obtain t where
    t: "run_process p u = Ret () t" "kinv cfg {} t" "running t p" "k_held t = k_held u" "k_me t = k_me u"
      "pr t = (pr u)(p := ran (k_ticks u) (pr u p))" "mycpu t = onto p (pr u p) (mycpu u)"
      "length (k_cpus t) = length (k_cpus u)" "\<forall>c. c \<noteq> k_me u \<longrightarrow> k_cpus t ! c = k_cpus u ! c" by blast
  have "sched_pass cfg from s = Ret (Some p) t" using u(1) t(1) by (simp add: sched_pass_def kexec)
  then show ?thesis using False u t queues_onlyD[OF u(3)] by (auto simp: onto_def)
qed

text \<open>A process has switched back: its CPU has no process again.\<close>

lemma after_process_ok:
  assumes "switching cfg s"
  shows "\<exists>t. after_process s = Ret () t \<and> kinv cfg {} t \<and> myproc t = None \<and> k_held t = k_held s \<and>
    k_me t = k_me s \<and> pr t = pr s \<and> k_ticks t = k_ticks s \<and>
    length (k_cpus t) = length (k_cpus s) \<and> (\<forall>c. c \<noteq> k_me s \<longrightarrow> k_cpus t ! c = k_cpus s ! c)"
proof -
  let ?t = "upd_cpu (\<lambda>c. c\<lparr>c_cr3 := V2P (k_kpgdir s), c_proc := None\<rparr>) s"
  have inv: "kinv cfg {k_me s} s" using assms by (simp add: switching_def)
  then have c: "cpus_ok {k_me s} s" "k_me s < length (k_cpus s)" by (auto simp: kinv_def cpus_ok_def)
  have cp: "cpu_proc ?t d = (if d = k_me s then None else cpu_proc s d)" for d
    using c(2) by (simp add: cpu_proc_def upd_cpu_def nth_list_update)
  obtain p0 where p0: "cpu_proc s (k_me s) = Some p0" "p_state (pr s p0) \<noteq> RUNNING"
    using assms by (auto simp: switching_def myproc_cpu_proc)
  have "cpus_ok {} ?t"
    unfolding cpus_ok_def
  proof (intro conjI allI impI)
    fix q assume q: "q < NPROC" "p_state (pr ?t q) = RUNNING"
    then obtain d where d: "d < length (k_cpus s)" "cpu_proc s d = Some q"
      using c(1) by (auto simp: cpus_ok_def)
    moreover have "d \<noteq> k_me s" using d(2) q(2) p0 by auto
    ultimately show "\<exists>d < length (k_cpus ?t). cpu_proc ?t d = Some q" using cp[of d] by auto
  qed (use c cp in \<open>auto simp: cpus_ok_def split: if_splits\<close>)
  moreover have "rq_inv cfg ?t (ready_set s)"
  proof (rule rq_inv_cong[of cfg s])
    show "rq_inv cfg s (ready_set s)" using inv by (simp add: kinv_def)
  qed simp_all
  moreover have "ready_set ?t = ready_set s" by (simp add: ready_set_def)
  moreover have "procs_ok cfg ?t" using inv by (simp add: kinv_def procs_ok_def live_def fits_rq_def)
  ultimately have "kinv cfg {} ?t" using inv by (simp add: kinv_def)
  moreover have "after_process s = Ret () ?t"
    by (simp add: after_process_def switchkvm_def kexec upd_cpu_comp)
  moreover have "myproc ?t = None" using cp[of "k_me s"] by (simp add: myproc_cpu_proc)
  moreover have "\<forall>d. d \<noteq> k_me s \<longrightarrow> k_cpus ?t ! d = k_cpus s ! d" by (simp add: upd_cpu_def)
  ultimately show ?thesis by (intro exI[of _ ?t]) simp
qed

section \<open>Accounting\<close>

text \<open>One clock tick in a process's statistics.\<close>

definition ticked :: "proc \<Rightarrow> proc" where
  "ticked x = (case p_state x of
     RUNNING \<Rightarrow> x\<lparr>p_timerun := p_timerun x + 1\<rparr>
   | RUNNABLE \<Rightarrow> x\<lparr>p_timeready := p_timeready x + 1\<rparr>
   | SLEEPING \<Rightarrow> x\<lparr>p_timeslept := p_timeslept x + 1\<rparr>
   | _ \<Rightarrow> x)"

lemma upd_proc_if: "upd_proc p (\<lambda>x. if b x then f x else x) s =
    (if b (pr s p) then upd_proc p f s else s)"
proof (cases "p < length (k_ptab s)")
  case True
  then show ?thesis by (simp add: upd_proc_def pr_def)
next
  case False
  then show ?thesis by (simp add: upd_proc_def list_update_beyond)
qed

lemma ticked_same_sched: "same_sched x (ticked x)"
  by (auto simp: same_sched_def ticked_def split: procstate.split)

lemma tick_loop:
  assumes inv: "kinv cfg sw s"
  shows "\<exists>t. kfor [0..<NPROC] (\<lambda>p.
       kif (\<lambda>s. p_state (pr s p) = RUNNING)
         (kupd (upd_proc p (\<lambda>x. x\<lparr>p_timerun := p_timerun x + 1\<rparr>)))
       (kif (\<lambda>s. p_state (pr s p) = RUNNABLE)
         (kupd (upd_proc p (\<lambda>x. x\<lparr>p_timeready := p_timeready x + 1\<rparr>)))
       (kwhen (\<lambda>s. p_state (pr s p) = SLEEPING)
         (kupd (upd_proc p (\<lambda>x. x\<lparr>p_timeslept := p_timeslept x + 1\<rparr>)))))) s = Ret () t \<and>
    kinv cfg sw t \<and> procs_only s t \<and> (\<forall>p < NPROC. pr t p = ticked (pr s p))" (is "\<exists>t. kfor _ ?body s = _ \<and> _")
proof -
  define I where "I = (\<lambda>dn t. kinv cfg sw t \<and> procs_only s t \<and>
    (\<forall>p. pr t p = (if p \<in> set dn then ticked (pr s p) else pr s p)))"
  have "\<exists>t. kfor [0..<NPROC] ?body s = Ret () t \<and> I [0..<NPROC] t"
  proof (rule kfor_rule[where I = I])
    show "I [] s" using inv by (simp add: I_def)
  next
    fix dn p t
    assume "\<exists>rest. [0..<NPROC] = dn @ p # rest" and I: "I dn t"
    then obtain rest where r: "[0..<NPROC] = dn @ p # rest" by blast
    then have "distinct (dn @ p # rest)" "p \<in> set [0..<NPROC]" by (metis distinct_upt, simp)
    then have p: "p < NPROC" "p \<notin> set dn" by auto
    have inv_t: "kinv cfg sw t" using I by (simp add: I_def)
    have prp: "pr t p = pr s p" using I p(2) by (simp add: I_def)
    let ?u = "upd_proc p (\<lambda>_. ticked (pr t p)) t"
    have "?body p t = Ret () ?u"
    proof (cases "p_state (pr t p)")
      case UNUSED
      then have "ticked (pr t p) = pr t p" by (simp add: ticked_def)
      then have "?u = t" by (simp add: upd_proc_def pr_def)
      with UNUSED show ?thesis by (simp add: kexec)
    next
      case EMBRYO
      then have "ticked (pr t p) = pr t p" by (simp add: ticked_def)
      then have "?u = t" by (simp add: upd_proc_def pr_def)
      with EMBRYO show ?thesis by (simp add: kexec)
    next
      case ZOMBIE
      then have "ticked (pr t p) = pr t p" by (simp add: ticked_def)
      then have "?u = t" by (simp add: upd_proc_def pr_def)
      with ZOMBIE show ?thesis by (simp add: kexec)
    qed (simp_all add: kexec ticked_def upd_proc_def pr_def)
    moreover have "kinv cfg sw ?u"
      by (rule kinv_upd_proc[OF inv_t p(1)]) (rule ticked_same_sched)
    moreover have "pr ?u = (pr t)(p := ticked (pr s p))"
      using kinv_len[OF inv_t] p(1) prp by (auto simp: pr_upd_proc fun_eq_iff)
    moreover have "procs_only s ?u" using I procs_only_trans[OF _ procs_only_upd] by (simp add: I_def)
    ultimately show "\<exists>u. ?body p t = Ret () u \<and> I (dn @ [p]) u"
      using I by (intro exI[of _ ?u]) (simp add: I_def)
  qed
  then show ?thesis by (auto simp: I_def)
qed

lemma updateprocesstimes_ok:
  assumes "kinv cfg sw s" "lock_free L_ptable s"
  shows "\<exists>t. updateprocesstimes s = Ret () t \<and> kinv cfg sw t \<and> procs_only s t \<and>
    (\<forall>p < NPROC. pr t p = ticked (pr s p))"
proof -
  let ?s = "s\<lparr>k_held := (L_ptable, k_me s) # k_held s\<rparr>"
  have "kinv cfg sw ?s" using assms(1) by simp
  from tick_loop[OF this] obtain t where
    t: "kfor [0..<NPROC] (\<lambda>p.
       kif (\<lambda>s. p_state (pr s p) = RUNNING)
         (kupd (upd_proc p (\<lambda>x. x\<lparr>p_timerun := p_timerun x + 1\<rparr>)))
       (kif (\<lambda>s. p_state (pr s p) = RUNNABLE)
         (kupd (upd_proc p (\<lambda>x. x\<lparr>p_timeready := p_timeready x + 1\<rparr>)))
       (kwhen (\<lambda>s. p_state (pr s p) = SLEEPING)
         (kupd (upd_proc p (\<lambda>x. x\<lparr>p_timeslept := p_timeslept x + 1\<rparr>)))))) ?s = Ret () t"
      "kinv cfg sw t" "procs_only ?s t" "\<forall>p < NPROC. pr t p = ticked (pr s p)"
    by auto
  note rel = release_after[OF t(3)]
  have "updateprocesstimes s = Ret () (t\<lparr>k_held := k_held s\<rparr>)"
    using acquire_free[OF assms(2)] t(1) rel(1)
    by (simp add: updateprocesstimes_def kbind_def del: kfor.simps)
  then show ?thesis using t(2,4) rel(2) by (intro exI[of _ "t\<lparr>k_held := k_held s\<rparr>"]) simp
qed

end
