(* ===== verification/Proc_Machine.thy ===== *)
theory Proc_Machine
  imports Proc_Inv
begin

text \<open>
  All CPUs together: each is in the scheduler, switching to a process, running it, or
  switching back. A thread is the rest of the operation in which it gave up its CPU. The
  steps run the operations of \<open>Proc\<close>; the invariant holds in every reachable state, so no
  ready process is ever lost or queued twice and no process runs on two CPUs.
\<close>

section \<open>The machine\<close>

datatype phase = Idle | Loaded nat | Executing nat | Back nat

record machine =
  m_k :: kernel
  m_cont :: "nat \<Rightarrow> unit kmon"
  m_phase :: "nat \<Rightarrow> phase"

text \<open>
  What a running process can do to the process table. \<open>Op_sleep\<close> is the use of \<open>sleep\<close> in
  the kernel: with the lock of the condition held, which is released in the end.
\<close>

datatype proc_op =
    Op_yield
  | Op_sleep chan lockid
  | Op_wakeup chan
  | Op_kill u32
  | Op_tick

fun exec_op :: "sched \<Rightarrow> proc_op \<Rightarrow> unit kmon" where
  "exec_op cfg Op_yield = yield cfg"
| "exec_op cfg (Op_sleep chn l) = kseq [acquire l, sleep chn (Some l), release l]"
| "exec_op cfg (Op_wakeup chn) = wakeup cfg chn"
| "exec_op cfg (Op_kill pid) = kbind (kill cfg pid) (\<lambda>_. kret ())"
| "exec_op cfg Op_tick = updateprocesstimes"

definition at_cpu :: "nat \<Rightarrow> kernel \<Rightarrow> kernel" where
  "at_cpu c s = s\<lparr>k_me := c\<rparr>"

definition goto :: "nat \<Rightarrow> phase \<Rightarrow> kernel \<Rightarrow> machine \<Rightarrow> machine" where
  "goto c ph s m = m\<lparr>m_k := s, m_phase := (m_phase m)(c := ph)\<rparr>"

definition suspend :: "nat \<Rightarrow> nat \<Rightarrow> kernel \<Rightarrow> unit kmon \<Rightarrow> machine \<Rightarrow> machine" where
  "suspend c p s f m = (goto c (Back p) s m)\<lparr>m_cont := (m_cont m)(p := f)\<rparr>"

definition is_idle_op :: "proc_op \<Rightarrow> bool" where
  "is_idle_op op \<longleftrightarrow> (op = Op_tick \<or> (\<exists>chn. op = Op_wakeup chn))"

inductive mstep :: "sched \<Rightarrow> machine \<Rightarrow> machine \<Rightarrow> bool" for cfg where
  choose: "m_phase m c = Idle \<Longrightarrow> c < length (k_cpus (m_k m)) \<Longrightarrow>
    scheduler_enter cfg (at_cpu c (m_k m)) = Ret (Some p) s \<Longrightarrow> mstep cfg m (goto c (Loaded p) s m)"
| none_ready: "m_phase m c = Idle \<Longrightarrow> c < length (k_cpus (m_k m)) \<Longrightarrow>
    scheduler_enter cfg (at_cpu c (m_k m)) = Ret None s \<Longrightarrow> mstep cfg m (goto c Idle s m)"
| idle_interrupt: "m_phase m c = Idle \<Longrightarrow> c < length (k_cpus (m_k m)) \<Longrightarrow> is_idle_op op \<Longrightarrow>
    exec_op cfg op (at_cpu c (m_k m)) = Ret () s \<Longrightarrow> mstep cfg m (goto c Idle s m)"
| resume: "m_phase m c = Loaded p \<Longrightarrow> m_cont m p (at_cpu c (m_k m)) = Ret () s \<Longrightarrow>
    mstep cfg m (goto c (Executing p) s m)"
| op: "m_phase m c = Executing p \<Longrightarrow> exec_op cfg op (at_cpu c (m_k m)) = Ret () s \<Longrightarrow>
    mstep cfg m (goto c (Executing p) s m)"
| switch: "m_phase m c = Executing p \<Longrightarrow> exec_op cfg op (at_cpu c (m_k m)) = Swtch s f \<Longrightarrow>
    mstep cfg m (suspend c p s f m)"
| pass_on: "m_phase m c = Back p \<Longrightarrow> scheduler_return cfg p (at_cpu c (m_k m)) = Ret (Some q) s \<Longrightarrow>
    mstep cfg m (goto c (Loaded q) s m)"
| pass_end: "m_phase m c = Back p \<Longrightarrow> scheduler_return cfg p (at_cpu c (m_k m)) = Ret None s \<Longrightarrow>
    mstep cfg m (goto c Idle s m)"

section \<open>The invariant\<close>

definition busy :: "machine \<Rightarrow> nat \<Rightarrow> bool" where
  "busy m c \<longleftrightarrow> (\<exists>p. m_phase m c = Loaded p \<or> m_phase m c = Back p)"

definition backs :: "machine \<Rightarrow> nat set" where
  "backs m = {c. \<exists>p. m_phase m c = Back p}"

text \<open>The rest of a thread that has given up its CPU: of \<open>yield\<close> or a new process, or of \<open>sleep\<close>.\<close>

definition thread_ok :: "nat \<Rightarrow> unit kmon \<Rightarrow> bool" where
  "thread_ok p f \<longleftrightarrow> f = release L_ptable \<or>
     (\<exists>l. f = (\<lambda>u. obind (sleep_rest p l u) (\<lambda>_. release l)))"

definition phase_ok :: "machine \<Rightarrow> nat \<Rightarrow> bool" where
  "phase_ok m c = (case m_phase m c of
     Idle \<Rightarrow> cpu_proc (m_k m) c = None
   | Loaded p \<Rightarrow> cpu_proc (m_k m) c = Some p \<and> thread_ok p (m_cont m p)
   | Executing p \<Rightarrow> cpu_proc (m_k m) c = Some p
   | Back p \<Rightarrow> cpu_proc (m_k m) c = Some p \<and> p_state (pr (m_k m) p) \<noteq> RUNNING)"

definition minv :: "sched \<Rightarrow> machine \<Rightarrow> bool" where
  "minv cfg m \<longleftrightarrow> kinv cfg (backs m) (m_k m) \<and>
     (\<forall>c. length (k_cpus (m_k m)) \<le> c \<longrightarrow> m_phase m c = Idle) \<and>
     (\<forall>c < length (k_cpus (m_k m)). phase_ok m c) \<and>
     (\<forall>c d. busy m c \<longrightarrow> busy m d \<longrightarrow> c = d) \<and>
     (\<forall>c. busy m c \<longrightarrow> k_held (m_k m) = [(L_ptable, c)]) \<and>
     ((\<forall>c. \<not> busy m c) \<longrightarrow> k_held (m_k m) = []) \<and>
     (\<forall>p < NPROC. p_state (pr (m_k m) p) = RUNNABLE \<or> p_state (pr (m_k m) p) = SLEEPING \<longrightarrow>
        thread_ok p (m_cont m p))"

lemma minvD:
  assumes "minv cfg m"
  shows "kinv cfg (backs m) (m_k m)"
    and "length (k_cpus (m_k m)) \<le> c \<Longrightarrow> m_phase m c = Idle"
    and "c < length (k_cpus (m_k m)) \<Longrightarrow> phase_ok m c"
    and "busy m c \<Longrightarrow> busy m d \<Longrightarrow> c = d"
    and "busy m c \<Longrightarrow> k_held (m_k m) = [(L_ptable, c)]"
    and "(\<And>c. \<not> busy m c) \<Longrightarrow> k_held (m_k m) = []"
    and "p < NPROC \<Longrightarrow> p_state (pr (m_k m) p) = RUNNABLE \<or> p_state (pr (m_k m) p) = SLEEPING \<Longrightarrow>
      thread_ok p (m_cont m p)"
  using assms unfolding minv_def by blast+

section \<open>Each operation, from a state in which no CPU is switching\<close>

definition op_safe :: "sched \<Rightarrow> kernel \<Rightarrow> nat \<Rightarrow> (unit, kernel) outcome \<Rightarrow> bool" where
  "op_safe cfg s p r = (case r of
     Ret _ t \<Rightarrow> kinv cfg {} t \<and> k_held t = [] \<and> k_cpus t = k_cpus s \<and>
       (\<forall>q < NPROC. p_state (pr t q) = RUNNABLE \<or> p_state (pr t q) = SLEEPING \<longrightarrow>
          p_state (pr s q) = RUNNABLE \<or> p_state (pr s q) = SLEEPING)
   | Swtch t f \<Rightarrow> switching cfg t \<and> k_held t = [(L_ptable, k_me s)] \<and> k_me t = k_me s \<and> k_cpus t = k_cpus s \<and>
       myproc t = Some p \<and> thread_ok p f \<and> (\<forall>q. q \<noteq> p \<longrightarrow> pr t q = pr s q)
   | _ \<Rightarrow> False)"

lemma empty_locks: "k_held s = [] \<Longrightarrow> lock_free l s \<and> my_locks s = []"
  by (simp add: lock_free_def my_locks_def)

lemma wakeup_safe:
  assumes "kinv cfg {} s" "k_held s = []"
  shows "op_safe cfg s p (exec_op cfg (Op_wakeup chn) s)"
proof -
  from wakeup_ok[OF assms(1), of chn] empty_locks[OF assms(2)] obtain t where
    t: "wakeup cfg chn s = Ret () t" "kinv cfg {} t" "procs_only s t"
      "\<forall>p < NPROC. pr t p = (if wakes (Some chn) (pr s p) then woken cfg (pr s p) else pr s p)" by blast
  then show ?thesis using assms(2) by (auto simp: op_safe_def procs_onlyD wakes_def)
qed

lemma tick_safe:
  assumes "kinv cfg {} s" "k_held s = []"
  shows "op_safe cfg s p (exec_op cfg Op_tick s)"
proof -
  from updateprocesstimes_ok[OF assms(1)] empty_locks[OF assms(2)] obtain t where
    t: "updateprocesstimes s = Ret () t" "kinv cfg {} t" "procs_only s t" "\<forall>p < NPROC. pr t p = ticked (pr s p)"
    by blast
  moreover have "p_state (ticked x) = p_state x" for x
    using ticked_same_sched[of x] by (simp add: same_sched_def)
  ultimately show ?thesis using assms(2) by (auto simp: op_safe_def procs_onlyD)
qed

lemma kill_safe:
  assumes "kinv cfg {} s" "k_held s = []"
  shows "op_safe cfg s p (exec_op cfg (Op_kill pid) s)"
proof -
  from kill_ok[OF assms(1), of pid] empty_locks[OF assms(2)] obtain r t where
    t: "kill cfg pid s = Ret r t" "kinv cfg {} t" "procs_only s t"
      "case proc_by_pid s pid of None \<Rightarrow> r = - 1 \<and> pr t = pr s
       | Some p \<Rightarrow> r = 0 \<and> pr t = (pr s)(p := killed cfg (pr s p))" by blast
  have "p_state (pr t q) = RUNNABLE \<or> p_state (pr t q) = SLEEPING \<longrightarrow>
      p_state (pr s q) = RUNNABLE \<or> p_state (pr s q) = SLEEPING" for q
    using t(4) by (auto simp: killed_def split: option.splits if_splits)
  then show ?thesis using t(1-3) assms(2) by (simp add: op_safe_def kbind_def kret_def procs_onlyD)
qed

lemma yield_safe:
  assumes "kinv cfg {} s" "k_held s = []" "running s p"
  shows "op_safe cfg s p (exec_op cfg Op_yield s)"
proof -
  from yield_ok[OF assms(1,3)] empty_locks[OF assms(2)] obtain t where
    t: "yield cfg s = Swtch t (release L_ptable)" "switching cfg t" "k_me t = k_me s" "k_cpus t = k_cpus s"
      "myproc t = Some p" "k_held t = (L_ptable, k_me s) # k_held s"
      "pr t = (pr s)(p := (pr s p)\<lparr>p_state := RUNNABLE, p_switchnum := p_switchnum (pr s p) + 1\<rparr>)"
    by blast
  then show ?thesis using assms(2) by (simp add: op_safe_def thread_ok_def)
qed

lemma sleep_safe:
  assumes "kinv cfg {} s" "k_held s = []" "running s p"
  shows "op_safe cfg s p (exec_op cfg (Op_sleep chn l) s)"
proof -
  let ?s = "s\<lparr>k_held := [(l, k_me s)]\<rparr>"
  have acq: "acquire l s = Ret () ?s" using acquire_free[of l s] assms(2) by (simp add: lock_free_def)
  have inv: "kinv cfg {} ?s" using assms(1) by simp
  have run: "running ?s p" using assms(3) by (simp add: running_def myproc_cpu_proc cpu_proc_def)
  have lk: "my_locks ?s = [l]" by (simp add: my_locks_def)
  have free: "lock_free L_ptable ?s" if "l \<noteq> L_ptable" using that by (simp add: lock_free_def)
  from sleep_ok[OF inv run lk free, of chn] obtain t where
    t: "sleep chn (Some l) ?s = Swtch t (sleep_rest p l)" "switching cfg t" "k_me t = k_me s" "k_cpus t = k_cpus s"
      "myproc t = Some p" "l \<noteq> L_ptable \<longrightarrow> k_held t = [(L_ptable, k_me s)]"
      "pr t = (pr s)(p := (pr s p)\<lparr>p_state := SLEEPING, p_chan := Some chn, p_switchnum := p_switchnum (pr s p) + 1\<rparr>)"
    by auto
  have held: "k_held t = [(L_ptable, k_me s)]"
  proof (cases "l = L_ptable")
    case True
    have "k_held t = [(L_ptable, k_me s)]"
      using t(1) True run by (auto simp: sleep_def sched_def set_state_def running_def kexec curproc_Some
          holding_def ncli_def myproc_cpu_proc cpu_proc_def split: if_splits)
    then show ?thesis .
  qed (use t(6) in simp)
  have "exec_op cfg (Op_sleep chn l) s = Swtch t (\<lambda>u. obind (sleep_rest p l u) (\<lambda>_. release l))"
    using acq t(1) by (simp add: kbind_def)
  then show ?thesis using t held by (auto simp: op_safe_def thread_ok_def)
qed

lemma exec_op_safe:
  assumes "kinv cfg {} s" "k_held s = []" "running s p \<or> is_idle_op op"
  shows "op_safe cfg s p (exec_op cfg op s)"
proof (cases op)
  case Op_yield
  then show ?thesis using yield_safe assms by (auto simp: is_idle_op_def)
next
  case (Op_sleep chn l)
  then show ?thesis using sleep_safe assms by (auto simp: is_idle_op_def)
next
  case (Op_wakeup chn)
  then show ?thesis using wakeup_safe assms by auto
next
  case (Op_kill pid)
  then show ?thesis using kill_safe assms by auto
next
  case Op_tick
  then show ?thesis using tick_safe assms by auto
qed

text \<open>While another CPU holds \<open>ptable.lock\<close>, every operation spins.\<close>

lemma exec_op_blocked:
  assumes "k_held s = [(L_ptable, d)]" "d \<noteq> k_me s" "myproc s = None \<longrightarrow> is_idle_op op"
  shows "exec_op cfg op s = Spin"
proof -
  have a: "acquire L_ptable s = Spin" using assms by (simp add: acquire_def holding_def lock_free_def)
  show ?thesis
  proof (cases op)
    case (Op_sleep chn l)
    show ?thesis
    proof (cases "l = L_ptable")
      case True
      then show ?thesis using a Op_sleep by (simp add: kbind_def)
    next
      case False
      have b: "acquire l s = Ret () (s\<lparr>k_held := [(l, k_me s), (L_ptable, d)]\<rparr>)"
        using False assms by (simp add: acquire_def holding_def lock_free_def)
      have c: "acquire L_ptable (s\<lparr>k_held := [(l, k_me s), (L_ptable, d)]\<rparr>) = Spin"
        using False assms by (simp add: acquire_def holding_def lock_free_def)
      show ?thesis
        using Op_sleep b c False assms(3)
        by (cases "myproc (s\<lparr>k_held := [(l, k_me s), (L_ptable, d)]\<rparr>)")
          (simp_all add: sleep_def kexec is_idle_op_def myproc_def mycpu_def)
    qed
  qed (use a in \<open>simp_all add: yield_def wakeup_def kill_def updateprocesstimes_def kbind_def\<close>)
qed

text \<open>A thread that is switched back to releases the lock and goes on.\<close>

lemma thread_resumes:
  assumes "thread_ok p f" "kinv cfg {} s" "running s p" "k_held s = [(L_ptable, k_me s)]"
  shows "\<exists>t. f s = Ret () t \<and> kinv cfg {} t \<and> k_held t = [] \<and> k_cpus t = k_cpus s \<and> k_me t = k_me s \<and>
    (\<forall>q < NPROC. p_state (pr t q) = p_state (pr s q))"
  using assms(1) unfolding thread_ok_def
proof (elim disjE exE)
  assume "f = release L_ptable"
  then show ?thesis using assms(2,4) by (simp add: release_def holding_def)
next
  fix l assume f: "f = (\<lambda>u. obind (sleep_rest p l u) (\<lambda>_. release l))"
  let ?u = "upd_proc p (\<lambda>x. x\<lparr>p_chan := None\<rparr>) s"
  have p: "p < NPROC" using assms(3) by (simp add: running_def)
  have inv: "kinv cfg {} ?u" by (rule kinv_upd_proc[OF assms(2) p]) (simp add: same_sched_def)
  have "f s = Ret () (?u\<lparr>k_held := []\<rparr>)"
    using assms(4) by (auto simp: f sleep_rest_def kexec release_def acquire_def holding_def lock_free_def)
  moreover have "p_state (pr ?u q) = p_state (pr s q)" for q
    using kinv_len[OF assms(2)] p by (simp add: pr_upd_proc)
  ultimately show ?thesis using inv by auto
qed

section \<open>Every step keeps the invariant\<close>

lemma kinv_at_cpu:
  assumes "kinv cfg sw s" "c < length (k_cpus s)"
  shows "kinv cfg sw (at_cpu c s)"
proof -
  have "cpus_ok sw (at_cpu c s)" using assms by (simp add: kinv_def cpus_ok_def at_cpu_def cpu_proc_def)
  moreover have "rq_inv cfg (at_cpu c s) (ready_set s)"
    by (rule rq_inv_cong[of cfg s]) (use assms(1) in \<open>simp_all add: kinv_def at_cpu_def\<close>)
  ultimately show ?thesis
    using assms(1) by (simp add: kinv_def at_cpu_def ready_set_def procs_ok_def live_def fits_rq_def)
qed

lemma at_cpu_simps [simp]:
  "k_me (at_cpu c s) = c" "k_held (at_cpu c s) = k_held s" "k_cpus (at_cpu c s) = k_cpus s"
  "pr (at_cpu c s) = pr s" "cpu_proc (at_cpu c s) = cpu_proc s" "k_ticks (at_cpu c s) = k_ticks s"
  by (simp_all add: at_cpu_def cpu_proc_def fun_eq_iff)

lemma myproc_at [simp]: "myproc (at_cpu c s) = cpu_proc s c"
  by (simp add: myproc_cpu_proc)

text \<open>The state after a step in which CPU \<open>c\<close> stops or starts being busy.\<close>

lemma minv_goto:
  assumes m: "minv cfg m" and others: "\<And>d. d \<noteq> c \<Longrightarrow> \<not> busy m d"
    and c: "c < length (k_cpus (m_k m))"
    and inv: "kinv cfg (if \<exists>p. ph = Back p then {c} else {}) s"
    and len: "length (k_cpus s) = length (k_cpus (m_k m))"
    and cpus: "\<And>d. d \<noteq> c \<Longrightarrow> cpu_proc s d = cpu_proc (m_k m) d"
    and ph: "phase_ok (m\<lparr>m_k := s, m_cont := ct, m_phase := (m_phase m)(c := ph)\<rparr>) c"
    and held: "k_held s = (if \<exists>p. ph = Loaded p \<or> ph = Back p then [(L_ptable, c)] else [])"
    and threads: "\<And>q. q < NPROC \<Longrightarrow> p_state (pr s q) = RUNNABLE \<or> p_state (pr s q) = SLEEPING \<Longrightarrow>
      thread_ok q (ct q)"
  shows "minv cfg (m\<lparr>m_k := s, m_cont := ct, m_phase := (m_phase m)(c := ph)\<rparr>)" (is "minv cfg ?n")
proof -
  note i = minvD[OF m]
  have b: "busy ?n d \<longleftrightarrow> d = c \<and> (\<exists>p. ph = Loaded p \<or> ph = Back p)" for d
    using others[of d] by (auto simp: busy_def)
  have bk: "backs ?n = (if \<exists>p. ph = Back p then {c} else {})"
    using others by (auto simp: backs_def busy_def)
  have po: "phase_ok ?n d" if d: "d < length (k_cpus s)" for d
  proof (cases "d = c")
    case True
    then show ?thesis using ph by simp
  next
    case False
    then have "phase_ok m d" "\<not> busy m d" using i(3)[of d] d len others by auto
    then show ?thesis using False cpus[OF False]
      by (auto simp: phase_ok_def busy_def split: phase.splits)
  qed
  have "m_phase ?n d = Idle" if "length (k_cpus s) \<le> d" for d
    using i(2)[of d] that len c by auto
  then show ?thesis
    unfolding minv_def bk b using inv po held threads by auto
qed

lemma not_busy:
  assumes "minv cfg m" "\<And>d. d \<noteq> c \<Longrightarrow> \<not> busy m d" "\<not> busy m c"
  shows "k_held (m_k m) = []" "backs m = {}"
proof -
  have "\<not> busy m d" for d using assms(2,3) by (cases "d = c") auto
  then show "k_held (m_k m) = []" "backs m = {}"
    using minvD(6)[OF assms(1)] by (auto simp: backs_def busy_def)
qed

lemma goto_eq: "goto c ph s m = m\<lparr>m_k := s, m_cont := m_cont m, m_phase := (m_phase m)(c := ph)\<rparr>"
  by (simp add: goto_def)

lemma suspend_eq: "suspend c p s f m =
    m\<lparr>m_k := s, m_cont := (m_cont m)(p := f), m_phase := (m_phase m)(c := Back p)\<rparr>"
  by (simp add: suspend_def goto_def)

text \<open>If \<open>c\<close> takes a step that needs \<open>ptable.lock\<close>, no other CPU is switching.\<close>

lemma scheduler_blocked:
  assumes "k_held s = [(L_ptable, d)]" "d \<noteq> k_me s"
  shows "scheduler_enter cfg s = Spin"
  using assms by (simp add: scheduler_enter_def kbind_def acquire_def holding_def lock_free_def)

lemma running_at:
  assumes "kinv cfg {} s" "cpu_proc s c = Some p" "c < length (k_cpus s)"
  shows "running (at_cpu c s) p"
  using assms by (simp add: running_def kinv_def cpus_ok_def)

lemma scheduler_enter_ok:
  assumes "kinv cfg {} s" "myproc s = None" "k_held s = []"
  shows "(ready_set s = {} \<and> scheduler_enter cfg s = Ret None s) \<or>
    (\<exists>p t. scheduler_enter cfg s = Ret (Some p) t \<and> p \<in> ready_set s \<and> kinv cfg {} t \<and> running t p \<and>
      k_held t = [(L_ptable, k_me s)] \<and> k_me t = k_me s \<and> (\<forall>r \<in> ready_set s. prefers cfg s p r) \<and>
      pr t = (pr s)(p := ran (k_ticks s) (pr s p)) \<and>
      length (k_cpus t) = length (k_cpus s) \<and> (\<forall>c. c \<noteq> k_me s \<longrightarrow> k_cpus t ! c = k_cpus s ! c))"
proof -
  let ?s = "s\<lparr>k_held := [(L_ptable, k_me s)]\<rparr>"
  have e: "scheduler_enter cfg s = sched_pass cfg 0 ?s"
    using assms(3) by (simp add: scheduler_enter_def kbind_def acquire_free lock_free_def)
  have "kinv cfg {} ?s" "myproc ?s = None" "k_held ?s = (L_ptable, k_me ?s) # []"
    using assms by (simp_all add: myproc_cpu_proc cpu_proc_def)
  note pass = sched_pass_ok[OF this, of 0]
  have cand: "candidates cfg 0 ?s = ready_set s" by (auto simp: candidates_def ready_set_def)
  have same: "s\<lparr>k_held := []\<rparr> = s" using assms(3) by (simp add: kernel.equality)
  have pref: "prefers cfg ?s = prefers cfg s" by (intro ext) (simp add: prefers_def split: sched.split)
  show ?thesis using pass unfolding e cand pref by (auto simp: same split: if_splits)
qed

lemma choose_step:
  assumes m: "minv cfg m" and ph: "m_phase m c = Idle" and c: "c < length (k_cpus (m_k m))"
    and ret: "scheduler_enter cfg (at_cpu c (m_k m)) = Ret r s"
  shows "minv cfg (goto c (case r of None \<Rightarrow> Idle | Some p \<Rightarrow> Loaded p) s m)"
proof -
  note i = minvD[OF m]
  have nb: "\<not> busy m c" using ph by (simp add: busy_def)
  have others: "\<not> busy m d" if "d \<noteq> c" for d
  proof
    assume "busy m d"
    then have "scheduler_enter cfg (at_cpu c (m_k m)) = Spin"
      using i(5) that by (intro scheduler_blocked) auto
    then show False using ret by simp
  qed
  note idle = not_busy[OF m others nb]
  have inv: "kinv cfg {} (at_cpu c (m_k m))" using kinv_at_cpu[OF i(1) c] idle(2) by simp
  have none: "cpu_proc (m_k m) c = None" using i(3)[OF c] ph by (simp add: phase_ok_def)
  show ?thesis
    unfolding goto_eq
  proof (rule minv_goto[OF m others c])
    note ok = scheduler_enter_ok[OF inv] none idle(1) ret
    show "kinv cfg (if \<exists>p. (case r of None \<Rightarrow> Idle | Some p \<Rightarrow> Loaded p) = Back p then {c} else {}) s"
      "length (k_cpus s) = length (k_cpus (m_k m))"
      "k_held s = (if \<exists>p. (case r of None \<Rightarrow> Idle | Some p \<Rightarrow> Loaded p) = Loaded p \<or>
        (case r of None \<Rightarrow> Idle | Some p \<Rightarrow> Loaded p) = Back p then [(L_ptable, c)] else [])"
      using ok inv by (auto split: option.split)
    show "cpu_proc s d = cpu_proc (m_k m) d" if "d \<noteq> c" for d
      using ok that by (auto simp: cpu_proc_def)
    have "cpu_proc s c = Some p \<and> thread_ok p (m_cont m p)" if "r = Some p" for p
    proof -
      have "running s p" "k_me s = c" "p \<in> ready_set (at_cpu c (m_k m))" using ok that by auto
      then show ?thesis using i(7)[of p] by (simp add: running_def myproc_cpu_proc ready_set_def)
    qed
    moreover have "s = at_cpu c (m_k m)" if "r = None" using ok that by auto
    ultimately show "phase_ok (m\<lparr>m_k := s, m_cont := m_cont m,
        m_phase := (m_phase m)(c := (case r of None \<Rightarrow> Idle | Some p \<Rightarrow> Loaded p))\<rparr>) c"
      using none by (auto simp: phase_ok_def split: option.split)
    fix q assume "q < NPROC" "p_state (pr s q) = RUNNABLE \<or> p_state (pr s q) = SLEEPING"
    then show "thread_ok q (m_cont m q)"
      using ok i(7)[of q] by (auto simp: ran_def split: if_splits)
  qed
qed

lemma op_step:
  assumes m: "minv cfg m" and c: "c < length (k_cpus (m_k m))"
    and ph: "m_phase m c = Executing p \<or> m_phase m c = Idle \<and> is_idle_op op"
    and ret: "(\<exists>s. r = Ret () s) \<or> (\<exists>s f. r = Swtch s f)" "exec_op cfg op (at_cpu c (m_k m)) = r"
  shows "minv cfg (case r of Ret _ s \<Rightarrow> goto c (m_phase m c) s m | Swtch s f \<Rightarrow> suspend c p s f m | _ \<Rightarrow> m)"
proof -
  note i = minvD[OF m]
  have nb: "\<not> busy m c" using ph by (auto simp: busy_def)
  have none: "myproc (at_cpu c (m_k m)) = None \<longrightarrow> is_idle_op op"
    using ph i(3)[OF c] by (auto simp: phase_ok_def)
  have others: "\<not> busy m d" if "d \<noteq> c" for d
  proof
    assume "busy m d"
    then have "k_held (at_cpu c (m_k m)) = [(L_ptable, d)]" using i(5) by simp
    from exec_op_blocked[OF this _ none, of cfg] that ret show False by auto
  qed
  note idle = not_busy[OF m others nb]
  have inv0: "kinv cfg {} (m_k m)" using i(1) idle(2) by simp
  have inv: "kinv cfg {} (at_cpu c (m_k m))" using kinv_at_cpu[OF inv0 c] .
  have run: "running (at_cpu c (m_k m)) p \<or> is_idle_op op"
    using ph i(3)[OF c] running_at[OF inv0 _ c] by (auto simp: phase_ok_def)
  have held: "k_held (at_cpu c (m_k m)) = []" using idle(1) by simp
  have safe: "op_safe cfg (at_cpu c (m_k m)) p r" using exec_op_safe[OF inv held run] ret(2) by simp
  show ?thesis
  proof (cases r)
    case (Ret x s)
    have s: "kinv cfg {} s" "k_held s = []" "k_cpus s = k_cpus (m_k m)" using safe Ret by (auto simp: op_safe_def)
    have "minv cfg (goto c (m_phase m c) s m)"
      unfolding goto_eq
    proof (rule minv_goto[OF m others c])
      show "kinv cfg (if \<exists>p. m_phase m c = Back p then {c} else {}) s"
        "k_held s = (if \<exists>p. m_phase m c = Loaded p \<or> m_phase m c = Back p then [(L_ptable, c)] else [])"
        using s nb by (auto simp: busy_def)
      show "phase_ok (m\<lparr>m_k := s, m_cont := m_cont m, m_phase := (m_phase m)(c := m_phase m c)\<rparr>) c"
        using i(3)[OF c] ph s(3) by (auto simp: phase_ok_def cpu_proc_def)
      fix q assume "q < NPROC" "p_state (pr s q) = RUNNABLE \<or> p_state (pr s q) = SLEEPING"
      then show "thread_ok q (m_cont m q)" using safe Ret i(7)[of q] by (auto simp: op_safe_def)
    qed (use s in \<open>simp_all add: cpu_proc_def\<close>)
    then show ?thesis using Ret by simp
  next
    case (Swtch s f)
    have s: "switching cfg s" "k_held s = [(L_ptable, c)]" "k_me s = c" "k_cpus s = k_cpus (m_k m)"
        "myproc s = Some p" "thread_ok p f" "\<And>q. q \<noteq> p \<Longrightarrow> pr s q = pr (m_k m) q"
      using safe Swtch by (auto simp: op_safe_def)
    have "minv cfg (suspend c p s f m)"
      unfolding suspend_eq
    proof (rule minv_goto[OF m others c])
      show "kinv cfg (if \<exists>q. Back p = Back q then {c} else {}) s" using s(1,3) by (simp add: switching_def)
      show "phase_ok (m\<lparr>m_k := s, m_cont := (m_cont m)(p := f), m_phase := (m_phase m)(c := Back p)\<rparr>) c"
        using s(1,3,5) by (auto simp: phase_ok_def switching_def myproc_cpu_proc)
      fix q assume q: "q < NPROC" "p_state (pr s q) = RUNNABLE \<or> p_state (pr s q) = SLEEPING"
      show "thread_ok q (((m_cont m)(p := f)) q)"
        using s(6) s(7)[of q] i(7)[OF q(1)] q(2) by (cases "q = p") auto
    qed (use s in \<open>simp_all add: cpu_proc_def\<close>)
    then show ?thesis using Swtch by simp
  qed (use ret in auto)
qed

lemma resume_step:
  assumes m: "minv cfg m" and c: "c < length (k_cpus (m_k m))" and ph: "m_phase m c = Loaded p"
    and ret: "m_cont m p (at_cpu c (m_k m)) = Ret () s"
  shows "minv cfg (goto c (Executing p) s m)"
proof -
  note i = minvD[OF m]
  have b: "busy m c" using ph by (simp add: busy_def)
  have others: "\<not> busy m d" if "d \<noteq> c" for d using i(4)[OF b] that by auto
  have bk: "backs m = {}" using others ph by (force simp: backs_def busy_def)
  have inv0: "kinv cfg {} (m_k m)" using i(1) bk by simp
  have inv: "kinv cfg {} (at_cpu c (m_k m))" using kinv_at_cpu[OF inv0 c] .
  have po: "cpu_proc (m_k m) c = Some p" "thread_ok p (m_cont m p)"
    using i(3)[OF c] ph by (simp_all add: phase_ok_def)
  have run: "running (at_cpu c (m_k m)) p" using running_at[OF inv0 po(1) c] .
  have held: "k_held (at_cpu c (m_k m)) = [(L_ptable, k_me (at_cpu c (m_k m)))]" using i(5)[OF b] by simp
  from thread_resumes[OF po(2) inv run held] ret have
    s: "kinv cfg {} s" "k_held s = []" "k_cpus s = k_cpus (m_k m)"
      "\<forall>q < NPROC. p_state (pr s q) = p_state (pr (m_k m) q)" by auto
  show ?thesis
    unfolding goto_eq
  proof (rule minv_goto[OF m others c])
    show "phase_ok (m\<lparr>m_k := s, m_cont := m_cont m, m_phase := (m_phase m)(c := Executing p)\<rparr>) c"
      using po(1) s(3) by (simp add: phase_ok_def cpu_proc_def)
    fix q assume "q < NPROC" "p_state (pr s q) = RUNNABLE \<or> p_state (pr s q) = SLEEPING"
    then show "thread_ok q (m_cont m q)" using s(4) i(7)[of q] by auto
  qed (use s in \<open>simp_all add: cpu_proc_def\<close>)
qed

lemma scheduler_return_ok:
  assumes sw: "switching cfg s" and held: "k_held s = [(L_ptable, k_me s)]"
  shows "\<exists>r t. scheduler_return cfg p s = Ret r t \<and> kinv cfg {} t \<and> k_me t = k_me s \<and>
    length (k_cpus t) = length (k_cpus s) \<and> (\<forall>c. c \<noteq> k_me s \<longrightarrow> k_cpus t ! c = k_cpus s ! c) \<and>
    (case r of None \<Rightarrow> k_held t = [] \<and> myproc t = None \<and> pr t = pr s
     | Some q \<Rightarrow> k_held t = [(L_ptable, k_me s)] \<and> running t q \<and> q \<in> ready_set s \<and>
         pr t = (pr s)(q := ran (k_ticks s) (pr s q)))"
proof -
  from after_process_ok[OF sw] obtain u where
    u: "after_process s = Ret () u" "kinv cfg {} u" "myproc u = None" "k_held u = k_held s" "k_me u = k_me s"
      "pr u = pr s" "k_ticks u = k_ticks s" "length (k_cpus u) = length (k_cpus s)"
      "\<forall>c. c \<noteq> k_me s \<longrightarrow> k_cpus u ! c = k_cpus s ! c" by blast
  have rs: "ready_set u = ready_set s" using u(6) by (simp add: ready_set_def)
  show ?thesis
  proof (cases "cfg = DEFAULT")
    case False
    then have "scheduler_return cfg p s = Ret None (u\<lparr>k_held := []\<rparr>)"
      using u held by (simp add: scheduler_return_def kbind_def kret_def release_def holding_def)
    then show ?thesis using u by (auto simp: myproc_cpu_proc cpu_proc_def)
  next
    case True
    have e: "scheduler_return cfg p s = sched_pass cfg (p + 1) u"
      using True u(1) by (simp add: scheduler_return_def kbind_def)
    have "k_held u = (L_ptable, k_me u) # []" using u(4,5) held by simp
    note pass = sched_pass_ok[OF u(2,3) this, of "p + 1"]
    have sub: "candidates cfg (p + 1) u \<subseteq> ready_set s" using rs by (auto simp: candidates_def)
    show ?thesis
    proof (cases "candidates cfg (p + 1) u = {}")
      case none: True
      then have "scheduler_return cfg p s = Ret None (u\<lparr>k_held := []\<rparr>)" using pass e by simp
      then show ?thesis using u by (auto simp: myproc_cpu_proc cpu_proc_def)
    next
      case False
      with pass obtain q t where "sched_pass cfg (p + 1) u = Ret (Some q) t" "q \<in> candidates cfg (p + 1) u"
          "kinv cfg {} t" "running t q" "k_held t = k_held u" "k_me t = k_me u"
          "pr t = (pr u)(q := ran (k_ticks u) (pr u q))" "length (k_cpus t) = length (k_cpus u)"
          "\<forall>c. c \<noteq> k_me u \<longrightarrow> k_cpus t ! c = k_cpus u ! c" by auto
      then show ?thesis using e u held sub by (intro exI[of _ "Some q"] exI[of _ t]) auto
    qed
  qed
qed

lemma back_switching:
  assumes m: "minv cfg m" and c: "c < length (k_cpus (m_k m))" and ph: "m_phase m c = Back p"
  shows "switching cfg (at_cpu c (m_k m))" "k_held (at_cpu c (m_k m)) = [(L_ptable, k_me (at_cpu c (m_k m)))]"
    "d \<noteq> c \<Longrightarrow> \<not> busy m d"
proof -
  note i = minvD[OF m]
  have b: "busy m c" using ph by (simp add: busy_def)
  have others: "\<not> busy m d" if "d \<noteq> c" for d using i(4)[OF b] that by auto
  have bk: "backs m = {c}" using others ph by (force simp: backs_def busy_def)
  have inv: "kinv cfg {c} (at_cpu c (m_k m))" using kinv_at_cpu[OF i(1) c] bk by simp
  have po: "cpu_proc (m_k m) c = Some p" "p_state (pr (m_k m) p) \<noteq> RUNNING"
    using i(3)[OF c] ph by (simp_all add: phase_ok_def)
  then have "p < NPROC" using inv c by (auto simp: kinv_def cpus_ok_def)
  then show "switching cfg (at_cpu c (m_k m))"
    using inv po i(5)[OF b] by (simp add: switching_def my_locks_def)
  show "k_held (at_cpu c (m_k m)) = [(L_ptable, k_me (at_cpu c (m_k m)))]" using i(5)[OF b] by simp
  show "d \<noteq> c \<Longrightarrow> \<not> busy m d" by (rule others)
qed

lemma back_step:
  assumes m: "minv cfg m" and c: "c < length (k_cpus (m_k m))" and ph: "m_phase m c = Back p"
    and ret: "scheduler_return cfg p (at_cpu c (m_k m)) = Ret r s"
  shows "minv cfg (goto c (case r of None \<Rightarrow> Idle | Some q \<Rightarrow> Loaded q) s m)"
proof -
  note i = minvD[OF m] and sw = back_switching[OF m c ph]
  note ok = scheduler_return_ok[OF sw(1,2), of p]
  show ?thesis
    unfolding goto_eq
  proof (rule minv_goto[OF m sw(3) c])
    show "kinv cfg (if \<exists>q. (case r of None \<Rightarrow> Idle | Some q \<Rightarrow> Loaded q) = Back q then {c} else {}) s"
      "length (k_cpus s) = length (k_cpus (m_k m))"
      "k_held s = (if \<exists>q. (case r of None \<Rightarrow> Idle | Some q \<Rightarrow> Loaded q) = Loaded q \<or>
        (case r of None \<Rightarrow> Idle | Some q \<Rightarrow> Loaded q) = Back q then [(L_ptable, c)] else [])"
      using ok ret by (auto split: option.splits)
    show "cpu_proc s d = cpu_proc (m_k m) d" if "d \<noteq> c" for d
      using ok ret that by (auto simp: cpu_proc_def)
    have "cpu_proc s c = Some q \<and> thread_ok q (m_cont m q)" if "r = Some q" for q
    proof -
      have "running s q" "k_me s = c" "q \<in> ready_set (at_cpu c (m_k m))" using ok ret that by auto
      then show ?thesis using i(7)[of q] by (simp add: running_def myproc_cpu_proc ready_set_def)
    qed
    moreover have "cpu_proc s c = None" if "r = None" using ok ret that by (auto simp: myproc_cpu_proc)
    ultimately show "phase_ok (m\<lparr>m_k := s, m_cont := m_cont m,
        m_phase := (m_phase m)(c := (case r of None \<Rightarrow> Idle | Some q \<Rightarrow> Loaded q))\<rparr>) c"
      by (auto simp: phase_ok_def split: option.split)
    fix q assume "q < NPROC" "p_state (pr s q) = RUNNABLE \<or> p_state (pr s q) = SLEEPING"
    then show "thread_ok q (m_cont m q)"
      using ok ret i(7)[of q] by (auto simp: ran_def split: option.splits if_splits)
  qed
qed

lemma phase_cpu:
  assumes "minv cfg m" "m_phase m c \<noteq> Idle"
  shows "c < length (k_cpus (m_k m))"
  using minvD(2)[OF assms(1), of c] assms(2) by (cases "length (k_cpus (m_k m)) \<le> c") auto

lemma mstep_inv:
  assumes "mstep cfg m n" "minv cfg m"
  shows "minv cfg n"
  using assms(1)
proof cases
  case (choose c p s)
  then show ?thesis using choose_step[OF assms(2), of c "Some p" s] by simp
next
  case (none_ready c s)
  then show ?thesis using choose_step[OF assms(2), of c None s] by simp
next
  case (idle_interrupt c op s)
  then show ?thesis using op_step[OF assms(2), of c _ op "Ret () s"] by simp
next
  case (resume c p s)
  then show ?thesis using resume_step[OF assms(2) phase_cpu[OF assms(2), of c]] by simp
next
  case (op c p op s)
  then show ?thesis using op_step[OF assms(2) phase_cpu[OF assms(2), of c], of p op "Ret () s"] by simp
next
  case (switch c p op s f)
  then show ?thesis using op_step[OF assms(2) phase_cpu[OF assms(2), of c], of p op "Swtch s f"] by simp
next
  case (pass_on c p q s)
  then show ?thesis using back_step[OF assms(2) phase_cpu[OF assms(2), of c], of p "Some q" s] by simp
next
  case (pass_end c p s)
  then show ?thesis using back_step[OF assms(2) phase_cpu[OF assms(2), of c], of p None s] by simp
qed

text \<open>
  The start: the kernel has set up its first processes, no CPU has picked one yet, and every
  process starts in \<open>forkret\<close>, which releases \<open>ptable.lock\<close>.
\<close>

definition mboot :: "sched \<Rightarrow> machine \<Rightarrow> bool" where
  "mboot cfg m \<longleftrightarrow> kinv cfg {} (m_k m) \<and> k_held (m_k m) = [] \<and> m_phase m = (\<lambda>c. Idle) \<and>
     (\<forall>c < length (k_cpus (m_k m)). cpu_proc (m_k m) c = None) \<and> m_cont m = (\<lambda>p. release L_ptable)"

lemma mboot_inv: "mboot cfg m \<Longrightarrow> minv cfg m"
  by (simp add: mboot_def minv_def busy_def backs_def phase_ok_def thread_ok_def)

lemma reachable_inv: "(mstep cfg)\<^sup>*\<^sup>* m0 m \<Longrightarrow> mboot cfg m0 \<Longrightarrow> minv cfg m"
  by (induction rule: rtranclp_induct) (auto simp: mboot_inv mstep_inv)

section \<open>Properties\<close>

text \<open>The run queue of the configuration, as one list.\<close>

definition run_queue_of :: "sched \<Rightarrow> kernel \<Rightarrow> nat list" where
  "run_queue_of cfg s = (case cfg of
     DEFAULT \<Rightarrow> filter (\<lambda>p. p_state (pr s p) = RUNNABLE) [0..<NPROC]
   | FCFS \<Rightarrow> pq_list (k_pq s)
   | _ \<Rightarrow> mq_list 1 (k_mq s) @ mq_list 2 (k_mq s) @ mq_list 3 (k_mq s))"

lemma run_queue_exact:
  assumes "kinv cfg sw s"
  shows "distinct (run_queue_of cfg s) \<and> set (run_queue_of cfg s) = ready_set s"
proof -
  have rq: "rq_inv cfg s (ready_set s)" using assms by (simp add: kinv_def)
  have fin: "finite (ready_set s)" using rq_inv_finite[OF rq] by blast
  have levels: "distinct (mq_list 1 (k_mq s) @ mq_list 2 (k_mq s) @ mq_list 3 (k_mq s)) \<and>
      set (mq_list 1 (k_mq s) @ mq_list 2 (k_mq s) @ mq_list 3 (k_mq s)) = ready_set s" if "rq_levels s (ready_set s)"
  proof -
    have l: "distinct (mq_list l (k_mq s))" "set (mq_list l (k_mq s)) = {p \<in> ready_set s. p_priority (pr s p) = l}"
      if "l = 1 \<or> l = 2 \<or> l = 3" for l
      using \<open>rq_levels s (ready_set s)\<close> that by (auto simp: rq_levels_def valid_pr_cases)
    have "p_priority (pr s p) = 1 \<or> p_priority (pr s p) = 2 \<or> p_priority (pr s p) = 3" if "p \<in> ready_set s" for p
      using \<open>rq_levels s (ready_set s)\<close> that by (simp add: rq_levels_def valid_pr_cases)
    then show ?thesis using l[of 1] l[of 2] l[of 3] by auto
  qed
  show ?thesis
  proof (cases cfg)
    case DEFAULT
    then show ?thesis by (auto simp: run_queue_of_def ready_set_def)
  next
    case FCFS
    then have f: "rq_fcfs s (ready_set s)" using rq by (simp add: rq_inv_def)
    have "distinct (pq_list (k_pq s))"
      using f fin unfolding rq_fcfs_def by (metis mset_set_set mset_eq_setD mset_set.infinite set_mset_mset
          finite_set_mset_mset_set distinct_count_atmost_1 count_mset_set(1) count_mset_set(3))
    then show ?thesis using FCFS rq_fcfs_set[OF f fin] by (simp add: run_queue_of_def)
  next
    case MLQ
    then show ?thesis using levels rq by (simp add: run_queue_of_def rq_inv_def)
  next
    case DMLQ
    then show ?thesis using levels rq by (simp add: run_queue_of_def rq_inv_def)
  qed
qed

text \<open>
  C1: no ready process is lost or queued twice. In every state that any interleaving of the
  CPUs reaches, through yields, sleeps, wakeups, kills, clock ticks and scheduling decisions,
  under each of the four schedulers, the run queue holds exactly the \<open>RUNNABLE\<close> processes,
  each of them once.
\<close>

theorem run_queue_never_loses_a_process:
  assumes "mboot cfg m0" "(mstep cfg)\<^sup>*\<^sup>* m0 m"
  shows "distinct (run_queue_of cfg (m_k m)) \<and>
    set (run_queue_of cfg (m_k m)) = {p. p < NPROC \<and> p_state (pr (m_k m) p) = RUNNABLE}"
  using run_queue_exact[OF minvD(1)[OF reachable_inv[OF assms(2,1)]]] by (simp add: ready_set_def)

definition idle_cpu :: cpu where
  "idle_cpu = \<lparr>c_proc = None, c_cr3 = 0, c_esp0 = 0\<rparr>"

text \<open>A machine with two CPUs and one process, in the middle queue.\<close>

definition boot_kernel :: kernel where
  "boot_kernel = sample_kernel\<lparr>k_cpus := [idle_cpu, idle_cpu],
     k_ptab := (replicate NPROC (sample_proc\<lparr>p_state := UNUSED, p_pid := 0\<rparr>))[0 := sample_proc],
     k_mq := mq_init\<lparr>mq_end := [0, 1, 0],
       mq_proc := [replicate (NPROC + 1) None, Some 0 # replicate NPROC None, replicate (NPROC + 1) None]\<rparr>\<rparr>"

definition boot_machine :: machine where
  "boot_machine = \<lparr>m_k = boot_kernel, m_cont = (\<lambda>p. release L_ptable), m_phase = (\<lambda>c. Idle)\<rparr>"

lemma boot_pr: "p < NPROC \<Longrightarrow> pr boot_kernel p =
    (if p = 0 then sample_proc else sample_proc\<lparr>p_state := UNUSED, p_pid := 0\<rparr>)"
  by (simp add: pr_def boot_kernel_def nth_list_update)

lemma boot_cpus: "k_cpus boot_kernel = [idle_cpu, idle_cpu]"
  by (simp add: boot_kernel_def)

lemma boot_cpu_proc: "c < 2 \<Longrightarrow> cpu_proc boot_kernel c = None"
  by (auto simp: boot_cpus cpu_proc_def idle_cpu_def less_2_cases_iff)

lemma boot_ready: "ready_set boot_kernel = {0}"
  using boot_pr by (auto simp: ready_set_def sample_proc_def NPROC_def split: if_splits)

lemma boot_rq: "rq_inv MLQ boot_kernel {0}"
proof -
  have w: "mq_wf (k_mq boot_kernel)"
    by (simp add: mq_wf_def boot_kernel_def mq_init_def ring_wf_def ring_len_def NUMPR_def NPROC_def
        numeral_3_eq_3 All_less_Suc)
  have l: "mq_list 1 (k_mq boot_kernel) = []" "mq_list 2 (k_mq boot_kernel) = [0]" "mq_list 3 (k_mq boot_kernel) = []"
    by (simp_all add: mq_list_def ring_list_def ring_len_def boot_kernel_def mq_init_def NUMPR_def NPROC_def)
  have "p_priority (pr boot_kernel 0) = 2" using boot_pr[of 0] by (simp add: NPROC_def sample_proc_def)
  then have "rq_levels boot_kernel {0}" using w l by (auto simp: rq_levels_def valid_pr_cases)
  then show ?thesis by (simp add: rq_inv_def NPROC_def)
qed

lemma boot_kinv: "kinv MLQ {} boot_kernel"
proof -
  have "cpus_ok {} boot_kernel"
    using boot_cpus boot_cpu_proc boot_pr by (auto simp: cpus_ok_def sample_proc_def boot_kernel_def sample_kernel_def split: if_splits)
  moreover have "procs_ok MLQ boot_kernel"
    using boot_pr by (auto simp: procs_ok_def live_def fits_rq_def sample_proc_def valid_pr_cases split: if_splits)
  ultimately show ?thesis using boot_ready boot_rq by (simp add: kinv_def) (simp add: boot_kernel_def)
qed

lemma boot_machine_ok: "mboot MLQ boot_machine"
  using boot_kinv boot_cpus boot_cpu_proc
  by (auto simp: mboot_def boot_machine_def) (simp add: boot_kernel_def sample_kernel_def)

lemma run_queue_never_loses_a_process_witness:
  "distinct (run_queue_of MLQ (m_k boot_machine)) \<and>
   set (run_queue_of MLQ (m_k boot_machine)) = {p. p < NPROC \<and> p_state (pr (m_k boot_machine) p) = RUNNABLE}"
  by (rule run_queue_never_loses_a_process[OF boot_machine_ok rtranclp.rtrancl_refl])

text \<open>
  C5: a process runs on at most one CPU. In every reachable state two CPUs that execute
  processes execute different ones, and a process that is marked \<open>RUNNING\<close> is the process of
  exactly one CPU.
\<close>

theorem no_process_on_two_cpus:
  assumes "mboot cfg m0" "(mstep cfg)\<^sup>*\<^sup>* m0 m"
  shows "(\<forall>c d p. m_phase m c = Executing p \<longrightarrow> m_phase m d = Executing p \<longrightarrow> c = d) \<and>
    (\<forall>p < NPROC. p_state (pr (m_k m) p) = RUNNING \<longrightarrow>
       (\<exists>!c. c < length (k_cpus (m_k m)) \<and> cpu_proc (m_k m) c = Some p))"
proof -
  note inv = reachable_inv[OF assms(2,1)]
  note i = minvD[OF inv]
  have c: "cpus_ok (backs m) (m_k m)" using i(1) by (simp add: kinv_def)
  have "c = d" if "m_phase m c = Executing p" "m_phase m d = Executing p" for c d p
  proof -
    have "c < length (k_cpus (m_k m))" "d < length (k_cpus (m_k m))"
      using phase_cpu[OF inv] that by auto
    moreover from this have "cpu_proc (m_k m) c = Some p" "cpu_proc (m_k m) d = Some p"
      using i(3)[of c] i(3)[of d] that by (simp_all add: phase_ok_def)
    ultimately show ?thesis using c unfolding cpus_ok_def by blast
  qed
  then show ?thesis using c unfolding cpus_ok_def by blast
qed

text \<open>Two steps of the example: CPU 0 picks the process and resumes it.\<close>

lemma boot_run: "\<exists>m. (mstep MLQ)\<^sup>*\<^sup>* boot_machine m \<and> m_phase m 0 = Executing 0"
proof -
  have inv: "kinv MLQ {} (at_cpu 0 boot_kernel)"
    using kinv_at_cpu[OF boot_kinv, of 0] boot_cpus by simp
  have "myproc (at_cpu 0 boot_kernel) = None" "k_held (at_cpu 0 boot_kernel) = []"
    using boot_cpu_proc by (simp_all add: boot_kernel_def sample_kernel_def)
  note enter = scheduler_enter_ok[OF inv this]
  have rs: "ready_set (at_cpu 0 boot_kernel) = {0}"
    unfolding boot_ready[symmetric] by (simp add: ready_set_def)
  from enter obtain s where
    s: "scheduler_enter MLQ (at_cpu 0 boot_kernel) = Ret (Some 0) s" "kinv MLQ {} s" "running s 0"
      "k_held s = [(L_ptable, 0)]" "k_me s = 0"
    unfolding rs by auto
  let ?m = "goto 0 (Loaded 0) s boot_machine"
  have one: "mstep MLQ boot_machine ?m"
    by (rule mstep.choose) (use s(1) boot_cpus in \<open>simp_all add: boot_machine_def\<close>)
  have at: "at_cpu 0 s = s" using s(5) by (simp add: at_cpu_def kernel.equality)
  have "mstep MLQ ?m (goto 0 (Executing 0) (s\<lparr>k_held := []\<rparr>) ?m)"
    by (rule mstep.resume)
      (use s(4,5) at in \<open>simp_all add: goto_def boot_machine_def release_def holding_def\<close>)
  with one have "(mstep MLQ)\<^sup>*\<^sup>* boot_machine (goto 0 (Executing 0) (s\<lparr>k_held := []\<rparr>) ?m)" by simp
  then show ?thesis
    by (intro exI[of _ "goto 0 (Executing 0) (s\<lparr>k_held := []\<rparr>) ?m"]) (simp add: goto_def)
qed

lemma no_process_on_two_cpus_witness:
  "\<exists>m :: machine. m_phase m 0 = Executing 0 \<and> (\<forall>d. m_phase m d = Executing 0 \<longrightarrow> d = 0)"
proof -
  obtain m where m: "(mstep MLQ)\<^sup>*\<^sup>* boot_machine m" "m_phase m 0 = Executing 0" using boot_run by blast
  from no_process_on_two_cpus[OF boot_machine_ok m(1)]
  have "\<forall>d. m_phase m d = Executing 0 \<longrightarrow> d = 0" using m(2) by metis
  then show ?thesis using m(2) by (intro exI[of _ m] conjI)
qed



text \<open>
  C8: the scheduler is work conserving and follows its policy. Whenever some process is ready
  and an idle CPU can take \<open>ptable.lock\<close>, its next step switches to a ready process that the
  policy prefers to every other ready one: the first in the table, the oldest, or one of the
  highest priority.
\<close>

theorem idle_cpu_takes_a_ready_process:
  assumes "mboot cfg m0" "(mstep cfg)\<^sup>*\<^sup>* m0 m" "c < length (k_cpus (m_k m))"
    and "m_phase m c = Idle" "k_held (m_k m) = []"
    and "r < NPROC" "p_state (pr (m_k m) r) = RUNNABLE"
  shows "\<exists>n p. mstep cfg m n \<and> m_phase n c = Loaded p \<and> p < NPROC \<and> p_state (pr (m_k m) p) = RUNNABLE \<and>
    p_state (pr (m_k n) p) = RUNNING \<and>
    (\<forall>q < NPROC. p_state (pr (m_k m) q) = RUNNABLE \<longrightarrow> prefers cfg (m_k m) p q)"
proof -
  note inv = reachable_inv[OF assms(2,1)]
  note i = minvD[OF inv]
  have nb: "\<not> busy m d" for d using i(5)[of d] assms(5) by auto
  then have "backs m = {}" by (auto simp: backs_def busy_def)
  then have k: "kinv cfg {} (at_cpu c (m_k m))" using i(1) kinv_at_cpu[OF _ assms(3)] by simp
  have idle: "myproc (at_cpu c (m_k m)) = None" "k_held (at_cpu c (m_k m)) = []"
    using i(3)[OF assms(3)] assms(4,5) by (simp_all add: phase_ok_def)
  have ne: "r \<in> ready_set (at_cpu c (m_k m))" using assms(6,7) by (simp add: ready_set_def)
  from scheduler_enter_ok[OF k idle] ne obtain p s where
    s: "scheduler_enter cfg (at_cpu c (m_k m)) = Ret (Some p) s" "p \<in> ready_set (at_cpu c (m_k m))"
      "running s p" "\<forall>q \<in> ready_set (at_cpu c (m_k m)). prefers cfg (at_cpu c (m_k m)) p q" by auto
  have pref: "prefers cfg (at_cpu c (m_k m)) = prefers cfg (m_k m)"
    by (intro ext) (simp add: prefers_def split: sched.split)
  have "mstep cfg m (goto c (Loaded p) s m)" by (rule mstep.choose[OF assms(4,3) s(1)])
  then show ?thesis using s pref
    by (intro exI[of _ "goto c (Loaded p) s m"] exI[of _ p]) (auto simp: goto_def ready_set_def running_def)
qed

lemma idle_cpu_takes_a_ready_process_witness:
  "\<exists>n. mstep MLQ boot_machine n \<and> m_phase n 1 = Loaded 0"
proof -
  have "\<exists>n p. mstep MLQ boot_machine n \<and> m_phase n 1 = Loaded p \<and> p < NPROC \<and>
      p_state (pr (m_k boot_machine) p) = RUNNABLE \<and> p_state (pr (m_k n) p) = RUNNING \<and>
      (\<forall>q < NPROC. p_state (pr (m_k boot_machine) q) = RUNNABLE \<longrightarrow> prefers MLQ (m_k boot_machine) p q)"
    by (rule idle_cpu_takes_a_ready_process[OF boot_machine_ok rtranclp.rtrancl_refl, of 1 0])
      (use boot_pr[of 0] boot_cpus in \<open>simp_all add: boot_machine_def NPROC_def sample_proc_def boot_kernel_def sample_kernel_def\<close>)
  then obtain n p where n: "mstep MLQ boot_machine n" "m_phase n 1 = Loaded p" "p < NPROC"
      "p_state (pr (m_k boot_machine) p) = RUNNABLE" by auto
  then have "p = 0" using boot_pr[of p] by (auto simp: boot_machine_def sample_proc_def split: if_splits)
  then show ?thesis using n by (intro exI[of _ n]) simp
qed

end
