(* ===== verification/Bytes.thy ===== *)
theory Bytes
  imports Cmem
begin

unbundle bit_operations_syntax

text \<open>
  Little-endian fields inside a block of bytes: the C structures the kernel reads and writes
  in disk blocks and in stack frames, by their byte offsets.
\<close>

section \<open>Fields\<close>

definition get16 :: "u8 list \<Rightarrow> nat \<Rightarrow> u16" where
  "get16 bs i = ucast (bs ! i) OR push_bit 8 (ucast (bs ! (i + 1)))"

definition get32 :: "u8 list \<Rightarrow> nat \<Rightarrow> u32" where
  "get32 bs i = ucast (bs ! i) OR push_bit 8 (ucast (bs ! (i + 1))) OR
     push_bit 16 (ucast (bs ! (i + 2))) OR push_bit 24 (ucast (bs ! (i + 3)))"

definition put16 :: "nat \<Rightarrow> u16 \<Rightarrow> u8 list \<Rightarrow> u8 list" where
  "put16 i v bs = bs[i := ucast v, i + 1 := ucast (drop_bit 8 v)]"

definition put32 :: "nat \<Rightarrow> u32 \<Rightarrow> u8 list \<Rightarrow> u8 list" where
  "put32 i v bs = bs[i := ucast v, i + 1 := ucast (drop_bit 8 v),
     i + 2 := ucast (drop_bit 16 v), i + 3 := ucast (drop_bit 24 v)]"

text \<open>A range of bytes, and its replacement.\<close>

definition get_range :: "nat \<Rightarrow> nat \<Rightarrow> 'a list \<Rightarrow> 'a list" where
  "get_range i n bs = take n (drop i bs)"

definition put_range :: "nat \<Rightarrow> 'a list \<Rightarrow> 'a list \<Rightarrow> 'a list" where
  "put_range i xs bs = take i bs @ xs @ drop (i + length xs) bs"

text \<open>An array of 32-bit words.\<close>

definition get_words :: "u8 list \<Rightarrow> nat \<Rightarrow> nat \<Rightarrow> u32 list" where
  "get_words bs i n = map (\<lambda>k. get32 bs (i + 4 * k)) [0..<n]"

fun put_words :: "nat \<Rightarrow> u32 list \<Rightarrow> u8 list \<Rightarrow> u8 list" where
  "put_words i [] bs = bs"
| "put_words i (w # ws) bs = put_words (i + 4) ws (put32 i w bs)"

section \<open>Reading back\<close>

lemma length_put [simp]:
  "length (put16 i v bs) = length bs" "length (put32 i w bs) = length bs"
  "length (put_words j ws bs) = length bs"
proof -
  show a: "length (put32 i w bs) = length bs" for i w bs by (simp add: put32_def)
  show "length (put_words j ws bs) = length bs" by (induction ws arbitrary: j bs) (simp_all add: a)
qed (simp add: put16_def)

lemma bytes_of_half:
  "(ucast (ucast v :: u8) :: u16) OR push_bit 8 (ucast (ucast (drop_bit 8 v) :: u8)) = (v :: u16)"
proof (rule bit_eqI)
  fix n assume n: "possible_bit TYPE(u16) n"
  consider "n < 8" | "8 \<le> n" "n < 16" using n by fastforce
  then show "bit ((ucast (ucast v :: u8) :: u16) OR push_bit 8 (ucast (ucast (drop_bit 8 v) :: u8))) n = bit v n"
    by cases (auto simp: bit_simps)
qed

lemma get_put16 [simp]: "i + 1 < length bs \<Longrightarrow> get16 (put16 i v bs) i = v"
  by (simp add: get16_def put16_def bytes_of_half)

lemma get_put32 [simp]: "i + 3 < length bs \<Longrightarrow> get32 (put32 i v bs) i = v"
  by (simp add: get32_def put32_def bytes_of_word)

lemma put32_nth: "k < length bs \<Longrightarrow> k < i \<or> i + 3 < k \<Longrightarrow> put32 i v bs ! k = bs ! k"
  by (auto simp: put32_def nth_list_update)

lemma put16_nth: "k < length bs \<Longrightarrow> k < i \<or> i + 1 < k \<Longrightarrow> put16 i v bs ! k = bs ! k"
  by (auto simp: put16_def nth_list_update)

lemma get32_nth_cong:
  "(\<And>k. i \<le> k \<Longrightarrow> k < i + 4 \<Longrightarrow> bs ! k = cs ! k) \<Longrightarrow> get32 bs i = get32 cs i"
  by (simp add: get32_def)

lemma get16_nth_cong:
  "(\<And>k. i \<le> k \<Longrightarrow> k < i + 2 \<Longrightarrow> bs ! k = cs ! k) \<Longrightarrow> get16 bs i = get16 cs i"
  by (simp add: get16_def)

lemma get32_put32_other:
  "i + 3 < length bs \<Longrightarrow> i + 4 \<le> j \<or> j + 4 \<le> i \<Longrightarrow> get32 (put32 j v bs) i = get32 bs i"
  by (rule get32_nth_cong) (auto intro!: put32_nth)

lemma get32_put16_other:
  "i + 3 < length bs \<Longrightarrow> i + 4 \<le> j \<or> j + 2 \<le> i \<Longrightarrow> get32 (put16 j v bs) i = get32 bs i"
  by (rule get32_nth_cong) (auto intro!: put16_nth)

lemma get16_put32_other:
  "i + 1 < length bs \<Longrightarrow> i + 2 \<le> j \<or> j + 4 \<le> i \<Longrightarrow> get16 (put32 j v bs) i = get16 bs i"
  by (rule get16_nth_cong) (auto intro!: put32_nth)

lemma get16_put16_other:
  "i + 1 < length bs \<Longrightarrow> i + 2 \<le> j \<or> j + 2 \<le> i \<Longrightarrow> get16 (put16 j v bs) i = get16 bs i"
  by (rule get16_nth_cong) (auto intro!: put16_nth)

lemma put_words_nth:
  "k < length bs \<Longrightarrow> k < i \<or> i + 4 * length ws \<le> k \<Longrightarrow> put_words i ws bs ! k = bs ! k"
  by (induction ws arbitrary: i bs) (auto simp: put32_nth)

lemma get32_put_words:
  "j < length ws \<Longrightarrow> i + 4 * length ws \<le> length bs \<Longrightarrow> get32 (put_words i ws bs) (i + 4 * j) = ws ! j"
proof (induction ws arbitrary: i bs j)
  case (Cons w ws)
  show ?case
  proof (cases j)
    case 0
    have "get32 (put_words (i + 4) ws (put32 i w bs)) i = get32 (put32 i w bs) i"
      using Cons.prems(2) by (intro get32_nth_cong) (auto intro!: put_words_nth)
    then show ?thesis using 0 Cons.prems(2) by simp
  next
    case (Suc m)
    then show ?thesis using Cons.IH[of m "i + 4" "put32 i w bs"] Cons.prems by (simp add: algebra_simps)
  qed
qed simp

lemma get_put_words:
  "i + 4 * length ws \<le> length bs \<Longrightarrow> get_words (put_words i ws bs) i (length ws) = ws"
  by (rule nth_equalityI) (auto simp: get_words_def get32_put_words)

lemma length_put_range [simp]: "i + length xs \<le> length bs \<Longrightarrow> length (put_range i xs bs) = length bs"
  by (simp add: put_range_def)

lemma length_get_range [simp]: "i + n \<le> length bs \<Longrightarrow> length (get_range i n bs) = n"
  by (simp add: get_range_def)

lemma get_put_range [simp]: "i \<le> length bs \<Longrightarrow> get_range i (length xs) (put_range i xs bs) = xs"
  by (simp add: get_range_def put_range_def)

lemma nth_put_range:
  "i + length xs \<le> length bs \<Longrightarrow> k < length bs \<Longrightarrow>
     put_range i xs bs ! k = (if i \<le> k \<and> k < i + length xs then xs ! (k - i) else bs ! k)"
  by (auto simp: put_range_def nth_append min_def)

lemma get_put_range_other:
  assumes "i + length xs \<le> length bs" "j + n \<le> length bs" "i + length xs \<le> j \<or> j + n \<le> i"
  shows "get_range j n (put_range i xs bs) = get_range j n bs"
proof (rule nth_equalityI)
  show "length (get_range j n (put_range i xs bs)) = length (get_range j n bs)" using assms by simp
next
  fix k assume "k < length (get_range j n (put_range i xs bs))"
  then have "k < n" using assms by simp
  then show "get_range j n (put_range i xs bs) ! k = get_range j n bs ! k"
    using assms by (auto simp: get_range_def nth_put_range)
qed

end
