(* ===== verification/Sleeplock.thy ===== *)
theory Sleeplock
  imports Proc Bytes
begin

text \<open>
  \<open>sleeplock.c\<close>: locks held across context switches. The loops that sleep until a condition
  holds are \<open>sleep_while\<close>; \<open>wake\<close> is \<open>wakeup\<close> under the scheduler the kernel is built with.
\<close>

section \<open>Waiting for a condition\<close>

fun sleep_loop :: "nat \<Rightarrow> (kernel \<Rightarrow> bool) \<Rightarrow> chan \<Rightarrow> lockid \<Rightarrow> unit kmon" where
  "sleep_loop 0 b chn lk = kif b (\<lambda>s. Spin) (kret ())"
| "sleep_loop (Suc n) b chn lk =
     kif b (kbind (sleep chn (Some lk)) (\<lambda>_. sleep_loop n b chn lk)) (kret ())"

definition sleep_while :: "(kernel \<Rightarrow> bool) \<Rightarrow> chan \<Rightarrow> lockid \<Rightarrow> unit kmon" where
  "sleep_while b chn lk s = sleep_loop (k_patience s) b chn lk s"

definition wake :: "chan \<Rightarrow> unit kmon" where
  "wake chn s = wakeup (k_cfg s) chn s"

text \<open>\<open>myproc()->killed\<close> and \<open>myproc()->pid\<close>.\<close>

definition my_killed :: "bool kmon" where
  "my_killed = kbind curproc (\<lambda>p. kget (\<lambda>s. p_killed (pr s p)))"

definition my_pid :: "u32 kmon" where
  "my_pid = kbind curproc (\<lambda>p. kget (\<lambda>s. p_pid (pr s p)))"

section \<open>Sleep locks\<close>

definition upd_sl :: "slockid \<Rightarrow> (sleeplock \<Rightarrow> sleeplock) \<Rightarrow> kernel \<Rightarrow> kernel" where
  "upd_sl l f s = s\<lparr>k_sleeplocks := (k_sleeplocks s)(l := f (k_sleeplocks s l))\<rparr>"

definition initsleeplock :: "slockid \<Rightarrow> unit kmon" where
  "initsleeplock l = kupd (upd_sl l (\<lambda>_. \<lparr>sl_locked = False, sl_pid = 0\<rparr>))"

definition acquiresleep :: "slockid \<Rightarrow> unit kmon" where
  "acquiresleep l = kseq [
     acquire (L_sleep l),
     sleep_while (\<lambda>s. sl_locked (k_sleeplocks s l)) (Ch_sleeplock l) (L_sleep l),
     kupd (upd_sl l (\<lambda>x. x\<lparr>sl_locked := True\<rparr>)),
     kbind my_pid (\<lambda>pid. kupd (upd_sl l (\<lambda>x. x\<lparr>sl_pid := pid\<rparr>))),
     release (L_sleep l)]"

definition releasesleep :: "slockid \<Rightarrow> unit kmon" where
  "releasesleep l = kseq [
     acquire (L_sleep l),
     kupd (upd_sl l (\<lambda>x. x\<lparr>sl_locked := False\<rparr>)),
     kupd (upd_sl l (\<lambda>x. x\<lparr>sl_pid := 0\<rparr>)),
     wake (Ch_sleeplock l),
     release (L_sleep l)]"

definition holdingsleep :: "slockid \<Rightarrow> bool kmon" where
  "holdingsleep l =
     kbind (acquire (L_sleep l)) (\<lambda>_.
     kbind (kif (\<lambda>s. sl_locked (k_sleeplocks s l))
              (kbind my_pid (\<lambda>pid. kget (\<lambda>s. sl_pid (k_sleeplocks s l) = pid)))
              (kret False)) (\<lambda>r.
     kbind (release (L_sleep l)) (\<lambda>_. kret r)))"

end
