(* ===== verification/Bio.thy ===== *)
theory Bio
  imports Sleeplock
begin

text \<open>
  The buffer cache (\<open>bio.c\<close>), over the memory disk of \<open>memide.c\<close>. Buffers are the indices
  below \<open>NBUF\<close> of \<open>k_bufs\<close>; index \<open>NBUF\<close> is \<open>bcache.head\<close>, of which only the links are used.
\<close>

section \<open>Buffers\<close>

definition bufof :: "kernel \<Rightarrow> nat \<Rightarrow> buf" where
  "bufof s b = k_bufs s ! b"

definition upd_buf :: "nat \<Rightarrow> (buf \<Rightarrow> buf) \<Rightarrow> kernel \<Rightarrow> kernel" where
  "upd_buf b f s = s\<lparr>k_bufs := (k_bufs s)[b := f (k_bufs s ! b)]\<rparr>"

definition set_bdata :: "nat \<Rightarrow> (u8 list \<Rightarrow> u8 list) \<Rightarrow> unit kmon" where
  "set_bdata b f = kupd (upd_buf b (\<lambda>x. x\<lparr>b_data := f (b_data x)\<rparr>))"

definition bdata :: "nat \<Rightarrow> u8 list kmon" where
  "bdata b = kget (\<lambda>s. b_data (bufof s b))"

section \<open>The memory disk\<close>

text \<open>
  \<open>disksize\<close> is a number of blocks. A write is also recorded in \<open>k_dwrites\<close>.
\<close>

definition disksize :: "kernel \<Rightarrow> nat" where
  "disksize s = length (k_disk s) div BSIZE"

definition disk_block :: "u8 list \<Rightarrow> nat \<Rightarrow> u8 list" where
  "disk_block d b = get_range (b * BSIZE) BSIZE d"

definition disk_write :: "nat \<Rightarrow> u8 list \<Rightarrow> u8 list \<Rightarrow> u8 list" where
  "disk_write b bs d = put_range (b * BSIZE) bs d"

definition iderw :: "nat \<Rightarrow> unit kmon" where
  "iderw b = kbind (holdingsleep (SL_buf b)) (\<lambda>h. kseq [
     kwhen (\<lambda>s. \<not> h) (kpanic ''iderw: buf not locked''),
     kwhen (\<lambda>s. b_valid (bufof s b) \<and> \<not> b_dirty (bufof s b)) (kpanic ''iderw: nothing to do''),
     kwhen (\<lambda>s. b_dev (bufof s b) \<noteq> 1) (kpanic ''iderw: request not for disk 1''),
     kwhen (\<lambda>s. disksize s \<le> unat (b_blockno (bufof s b))) (kpanic ''iderw: block out of range''),
     kif (\<lambda>s. b_dirty (bufof s b))
       (kseq [
         kupd (upd_buf b (\<lambda>x. x\<lparr>b_dirty := False\<rparr>)),
         kupd (\<lambda>s. s\<lparr>k_disk := disk_write (unat (b_blockno (bufof s b))) (b_data (bufof s b)) (k_disk s),
                     k_dwrites := (b_blockno (bufof s b), b_data (bufof s b)) # k_dwrites s\<rparr>)])
       (kupd (\<lambda>s. upd_buf b (\<lambda>x. x\<lparr>b_data := disk_block (k_disk s) (unat (b_blockno x))\<rparr>) s)),
     kupd (upd_buf b (\<lambda>x. x\<lparr>b_valid := True\<rparr>))])"

section \<open>The list of buffers\<close>

text \<open>Linking \<open>b\<close> in after the head, as \<open>binit\<close> and \<open>brelse\<close> do.\<close>

definition link_first :: "nat \<Rightarrow> unit kmon" where
  "link_first b = kseq [
     kupd (\<lambda>s. upd_buf b (\<lambda>x. x\<lparr>b_next := b_next (bufof s NBUF)\<rparr>) s),
     kupd (upd_buf b (\<lambda>x. x\<lparr>b_prev := NBUF\<rparr>)),
     kupd (\<lambda>s. upd_buf (b_next (bufof s NBUF)) (\<lambda>x. x\<lparr>b_prev := b\<rparr>) s),
     kupd (upd_buf NBUF (\<lambda>x. x\<lparr>b_next := b\<rparr>))]"

definition unlink_buf :: "nat \<Rightarrow> unit kmon" where
  "unlink_buf b = kseq [
     kupd (\<lambda>s. upd_buf (b_next (bufof s b)) (\<lambda>x. x\<lparr>b_prev := b_prev (bufof s b)\<rparr>) s),
     kupd (\<lambda>s. upd_buf (b_prev (bufof s b)) (\<lambda>x. x\<lparr>b_next := b_next (bufof s b)\<rparr>) s)]"

definition binit :: "unit kmon" where
  "binit = kseq [
     kupd (upd_buf NBUF (\<lambda>x. x\<lparr>b_prev := NBUF\<rparr>)),
     kupd (upd_buf NBUF (\<lambda>x. x\<lparr>b_next := NBUF\<rparr>)),
     kfor [0..<NBUF] (\<lambda>b. kseq [
       kupd (\<lambda>s. upd_buf b (\<lambda>x. x\<lparr>b_next := b_next (bufof s NBUF)\<rparr>) s),
       kupd (upd_buf b (\<lambda>x. x\<lparr>b_prev := NBUF\<rparr>)),
       initsleeplock (SL_buf b),
       kupd (\<lambda>s. upd_buf (b_next (bufof s NBUF)) (\<lambda>x. x\<lparr>b_prev := b\<rparr>) s),
       kupd (upd_buf NBUF (\<lambda>x. x\<lparr>b_next := b\<rparr>))])]"

text \<open>
  A loop over the list, by \<open>next\<close> or by \<open>prev\<close>, to the first buffer that satisfies \<open>P\<close>. A
  well-formed list has \<open>NBUF\<close> buffers, so \<open>NBUF + 1\<close> steps reach the head.
\<close>

fun scan_bufs :: "nat \<Rightarrow> (buf \<Rightarrow> nat) \<Rightarrow> (buf \<Rightarrow> bool) \<Rightarrow> nat \<Rightarrow> nat option kmon" where
  "scan_bufs 0 step P b = (\<lambda>s. Spin)"
| "scan_bufs (Suc n) step P b =
     (if b = NBUF then kret None
      else kif (\<lambda>s. P (bufof s b)) (kret (Some b))
        (kbind (kget (\<lambda>s. step (bufof s b))) (scan_bufs n step P)))"

section \<open>bget, bread, bwrite, brelse\<close>

definition bget :: "u32 \<Rightarrow> u32 \<Rightarrow> nat kmon" where
  "bget dev blockno =
     kbind (acquire L_bcache) (\<lambda>_.
     kbind (kget (\<lambda>s. b_next (bufof s NBUF))) (\<lambda>b0.
     kbind (scan_bufs (Suc NBUF) b_next (\<lambda>x. b_dev x = dev \<and> b_blockno x = blockno) b0) (\<lambda>found. case found of
       Some b \<Rightarrow> kbind (kseq [
           kupd (upd_buf b (\<lambda>x. x\<lparr>b_refcnt := b_refcnt x + 1\<rparr>)),
           release L_bcache,
           acquiresleep (SL_buf b)]) (\<lambda>_. kret b)
     | None \<Rightarrow>
         kbind (kget (\<lambda>s. b_prev (bufof s NBUF))) (\<lambda>b1.
         kbind (scan_bufs (Suc NBUF) b_prev (\<lambda>x. b_refcnt x = 0 \<and> \<not> b_dirty x) b1) (\<lambda>free. case free of
           Some b \<Rightarrow> kbind (kseq [
               kupd (upd_buf b (\<lambda>x. x\<lparr>b_dev := dev, b_blockno := blockno, b_valid := False,
                 b_dirty := False, b_refcnt := 1\<rparr>)),
               release L_bcache,
               acquiresleep (SL_buf b)]) (\<lambda>_. kret b)
         | None \<Rightarrow> kpanic ''bget: no buffers'')))))"

definition bread :: "u32 \<Rightarrow> u32 \<Rightarrow> nat kmon" where
  "bread dev blockno = kbind (bget dev blockno) (\<lambda>b.
     kbind (kwhen (\<lambda>s. \<not> b_valid (bufof s b)) (iderw b)) (\<lambda>_. kret b))"

definition bwrite :: "nat \<Rightarrow> unit kmon" where
  "bwrite b = kbind (holdingsleep (SL_buf b)) (\<lambda>h. kseq [
     kwhen (\<lambda>s. \<not> h) (kpanic ''bwrite''),
     kupd (upd_buf b (\<lambda>x. x\<lparr>b_dirty := True\<rparr>)),
     iderw b])"

definition brelse :: "nat \<Rightarrow> unit kmon" where
  "brelse b = kbind (holdingsleep (SL_buf b)) (\<lambda>h. kseq [
     kwhen (\<lambda>s. \<not> h) (kpanic ''brelse''),
     releasesleep (SL_buf b),
     acquire L_bcache,
     kupd (upd_buf b (\<lambda>x. x\<lparr>b_refcnt := b_refcnt x - 1\<rparr>)),
     kwhen (\<lambda>s. b_refcnt (bufof s b) = 0) (kseq [unlink_buf b, link_first b]),
     release L_bcache])"

end
