(* ===== verification/Log.thy ===== *)
theory Log
  imports Bio
begin

text \<open>
  \<open>log.c\<close>: the redo log. The on-disk header is the block \<open>log.start\<close>: the count, then the
  block numbers; the logged blocks follow it.
\<close>

section \<open>The superblock\<close>

text \<open>\<open>readsb\<close> of \<open>fs.c\<close>: block 1 as a \<open>struct superblock\<close>.\<close>

definition decode_sb :: "u8 list \<Rightarrow> superblock" where
  "decode_sb bs = \<lparr>sb_size = get32 bs 0, sb_nblocks = get32 bs 4, sb_ninodes = get32 bs 8,
     sb_nlog = get32 bs 12, sb_logstart = get32 bs 16, sb_inodestart = get32 bs 20,
     sb_bmapstart = get32 bs 24\<rparr>"

definition readsb :: "u32 \<Rightarrow> superblock kmon" where
  "readsb dev = kbind (bread dev 1) (\<lambda>b. kbind (bdata b) (\<lambda>bs.
     kbind (brelse b) (\<lambda>_. kret (decode_sb bs))))"

section \<open>The log in memory\<close>

definition upd_log :: "(log \<Rightarrow> log) \<Rightarrow> kernel \<Rightarrow> kernel" where
  "upd_log f s = s\<lparr>k_log := f (k_log s)\<rparr>"

definition log_entries :: "kernel \<Rightarrow> nat list" where
  "log_entries s = [0..<nat (l_n (k_log s))]"

text \<open>\<open>log.lh.block[i]\<close>; the array has \<open>LOGSIZE\<close> entries.\<close>

definition lh_block :: "nat \<Rightarrow> u32 kmon" where
  "lh_block i = kopt (\<lambda>s. aget (l_block (k_log s)) (int i))"

definition log_block :: "nat \<Rightarrow> kernel \<Rightarrow> u32" where
  "log_block tail s = word_of_int (l_start (k_log s)) + of_nat tail + 1"

definition copy_block :: "nat \<Rightarrow> nat \<Rightarrow> unit kmon" where
  "copy_block dst src = kbind (bdata src) (\<lambda>bs. set_bdata dst (\<lambda>_. bs))"

definition install_trans :: "unit kmon" where
  "install_trans s = kfor (log_entries s) (\<lambda>tail.
     kbind (kget (\<lambda>s. l_dev (k_log s))) (\<lambda>dev.
     kbind (kget (log_block tail)) (\<lambda>src.
     kbind (bread dev src) (\<lambda>lbuf.
     kbind (lh_block tail) (\<lambda>dst.
     kbind (bread dev dst) (\<lambda>dbuf.
     kseq [copy_block dbuf lbuf, bwrite dbuf, brelse lbuf, brelse dbuf])))))) s"

definition read_head :: "unit kmon" where
  "read_head =
     kbind (kget (\<lambda>s. (l_dev (k_log s), word_of_int (l_start (k_log s))))) (\<lambda>(dev, start).
     kbind (bread dev start) (\<lambda>b.
     kbind (bdata b) (\<lambda>bs. kseq [
       kupd (upd_log (\<lambda>l. l\<lparr>l_n := sint (get32 bs 0)\<rparr>)),
       (\<lambda>s. kfor (log_entries s) (\<lambda>i.
          kbind (kopt (\<lambda>s. aset (l_block (k_log s)) (int i) (get32 bs (4 + 4 * i)))) (\<lambda>blocks.
          kupd (upd_log (\<lambda>l. l\<lparr>l_block := blocks\<rparr>)))) s),
       brelse b])))"

definition write_head :: "unit kmon" where
  "write_head =
     kbind (kget (\<lambda>s. (l_dev (k_log s), word_of_int (l_start (k_log s))))) (\<lambda>(dev, start).
     kbind (bread dev start) (\<lambda>b. kseq [
       kbind (kget (\<lambda>s. l_n (k_log s))) (\<lambda>n. set_bdata b (put32 0 (word_of_int n))),
       (\<lambda>s. kfor (log_entries s) (\<lambda>i.
          kbind (lh_block i) (\<lambda>v. set_bdata b (put32 (4 + 4 * i) v))) s),
       bwrite b,
       brelse b]))"

definition recover_from_log :: "unit kmon" where
  "recover_from_log = kseq [
     read_head,
     install_trans,
     kupd (upd_log (\<lambda>l. l\<lparr>l_n := 0\<rparr>)),
     write_head]"

text \<open>\<open>sizeof(struct logheader)\<close> is 124, so the first test of \<open>initlog\<close> is decided here.\<close>

definition SIZEOF_LOGHEADER :: nat where "SIZEOF_LOGHEADER = 4 + 4 * LOGSIZE"

definition initlog :: "u32 \<Rightarrow> unit kmon" where
  "initlog dev = kbind (kwhen (\<lambda>s. BSIZE \<le> SIZEOF_LOGHEADER) (kpanic ''initlog: too big logheader'')) (\<lambda>_.
     kbind (readsb dev) (\<lambda>sb. kseq [
       kupd (upd_log (\<lambda>l. l\<lparr>l_start := sint (sb_logstart sb), l_size := sint (sb_nlog sb), l_dev := dev\<rparr>)),
       recover_from_log]))"

section \<open>Transactions\<close>

definition begin_op_waits :: "kernel \<Rightarrow> bool" where
  "begin_op_waits s \<longleftrightarrow> l_committing (k_log s) \<or>
     int LOGSIZE < l_n (k_log s) + (l_outstanding (k_log s) + 1) * int MAXOPBLOCKS"

definition begin_op :: "unit kmon" where
  "begin_op = kseq [
     acquire L_log,
     sleep_while begin_op_waits Ch_log L_log,
     kupd (upd_log (\<lambda>l. l\<lparr>l_outstanding := l_outstanding l + 1\<rparr>)),
     release L_log]"

definition write_log :: "unit kmon" where
  "write_log s = kfor (log_entries s) (\<lambda>tail.
     kbind (kget (\<lambda>s. l_dev (k_log s))) (\<lambda>dev.
     kbind (kget (log_block tail)) (\<lambda>dst.
     kbind (bread dev dst) (\<lambda>to.
     kbind (lh_block tail) (\<lambda>src.
     kbind (bread dev src) (\<lambda>from.
     kseq [copy_block to from, bwrite to, brelse from, brelse to])))))) s"

definition commit :: "unit kmon" where
  "commit = kwhen (\<lambda>s. 0 < l_n (k_log s)) (kseq [
     write_log,
     write_head,
     install_trans,
     kupd (upd_log (\<lambda>l. l\<lparr>l_n := 0\<rparr>)),
     write_head])"

definition end_op :: "unit kmon" where
  "end_op =
     kbind (acquire L_log) (\<lambda>_.
     kbind (kupd (upd_log (\<lambda>l. l\<lparr>l_outstanding := l_outstanding l - 1\<rparr>))) (\<lambda>_.
     kbind (kwhen (\<lambda>s. l_committing (k_log s)) (kpanic ''log.committing'')) (\<lambda>_.
     kbind (kif (\<lambda>s. l_outstanding (k_log s) = 0)
              (kbind (kupd (upd_log (\<lambda>l. l\<lparr>l_committing := True\<rparr>))) (\<lambda>_. kret True))
              (kbind (wake Ch_log) (\<lambda>_. kret False))) (\<lambda>do_commit.
     kbind (release L_log) (\<lambda>_.
     kwhen (\<lambda>s. do_commit) (kseq [
       commit,
       acquire L_log,
       kupd (upd_log (\<lambda>l. l\<lparr>l_committing := False\<rparr>)),
       wake Ch_log,
       release L_log]))))))"

text \<open>The search of \<open>log_write\<close> for the block: its index, or \<open>log.lh.n\<close>.\<close>

definition absorb_index :: "u32 \<Rightarrow> log \<Rightarrow> nat" where
  "absorb_index bno l = (case find (\<lambda>i. l_block l ! i = bno) [0..<nat (l_n l)] of
     Some i \<Rightarrow> i | None \<Rightarrow> nat (l_n l))"

definition log_write :: "nat \<Rightarrow> unit kmon" where
  "log_write b = kseq [
     kwhen (\<lambda>s. int LOGSIZE \<le> l_n (k_log s) \<or> l_size (k_log s) - 1 \<le> l_n (k_log s))
       (kpanic ''too big a transaction''),
     kwhen (\<lambda>s. l_outstanding (k_log s) < 1) (kpanic ''log_write outside of trans''),
     acquire L_log,
     kbind (kget (\<lambda>s. absorb_index (b_blockno (bufof s b)) (k_log s))) (\<lambda>i. kseq [
       kbind (kopt (\<lambda>s. aset (l_block (k_log s)) (int i) (b_blockno (bufof s b)))) (\<lambda>blocks.
         kupd (upd_log (\<lambda>l. l\<lparr>l_block := blocks\<rparr>))),
       kwhen (\<lambda>s. int i = l_n (k_log s)) (kupd (upd_log (\<lambda>l. l\<lparr>l_n := l_n l + 1\<rparr>)))]),
     kupd (upd_buf b (\<lambda>x. x\<lparr>b_dirty := True\<rparr>)),
     release L_log]"

end
