(* ===== verification/Inode.thy ===== *)
theory Inode
  imports Log
begin

unbundle bit_operations_syntax

text \<open>
  \<open>fs.c\<close>, the lower layers: the block allocator, the inode cache, the locking of inodes, and
  the map from the blocks of a file to the blocks of the disk.
\<close>

section \<open>Layout (fs.h, stat.h, param.h)\<close>

definition T_DIR :: u16 where "T_DIR = 1"
definition T_FILE :: u16 where "T_FILE = 2"
definition T_DEV :: u16 where "T_DEV = 3"
definition ROOTDEV :: u32 where "ROOTDEV = 1"
definition ROOTINO :: u32 where "ROOTINO = 1"
definition NINDIRECT :: nat where "NINDIRECT = BSIZE div 4"
definition MAXFILE :: nat where "MAXFILE = NDIRECT + NINDIRECT"
definition SIZEOF_DINODE :: nat where "SIZEOF_DINODE = 64"
definition IPB :: u32 where "IPB = of_nat (BSIZE div SIZEOF_DINODE)"
definition BPB :: nat where "BPB = BSIZE * 8"

definition IBLOCK :: "u32 \<Rightarrow> superblock \<Rightarrow> u32" where
  "IBLOCK i sb = i div IPB + sb_inodestart sb"

definition BBLOCK :: "u32 \<Rightarrow> superblock \<Rightarrow> u32" where
  "BBLOCK b sb = b div of_nat BPB + sb_bmapstart sb"

section \<open>Blocks\<close>

definition bzero :: "u32 \<Rightarrow> u32 \<Rightarrow> unit kmon" where
  "bzero dev bno = kbind (bread dev bno) (\<lambda>b. kseq [
     set_bdata b (\<lambda>bs. replicate BSIZE 0),
     log_write b,
     brelse b])"

text \<open>The bit of block \<open>bi\<close> in a block of the free map.\<close>

definition bit_mask :: "nat \<Rightarrow> u8" where
  "bit_mask bi = push_bit (bi mod 8) 1"

definition bit_free :: "u8 list \<Rightarrow> nat \<Rightarrow> bool" where
  "bit_free bs bi \<longleftrightarrow> bs ! (bi div 8) AND bit_mask bi = 0"

definition mark_used :: "nat \<Rightarrow> u8 list \<Rightarrow> u8 list" where
  "mark_used bi bs = bs[bi div 8 := bs ! (bi div 8) OR bit_mask bi]"

definition mark_free :: "nat \<Rightarrow> u8 list \<Rightarrow> u8 list" where
  "mark_free bi bs = bs[bi div 8 := bs ! (bi div 8) AND NOT (bit_mask bi)]"

definition first_free :: "nat \<Rightarrow> nat \<Rightarrow> u8 list \<Rightarrow> nat option" where
  "first_free b nblk bs = find (\<lambda>bi. b + bi < nblk \<and> bit_free bs bi) [0..<BPB]"

definition map_groups :: "nat \<Rightarrow> nat list" where
  "map_groups nblk = map (\<lambda>k. k * BPB) [0..<(nblk + BPB - 1) div BPB]"

definition balloc :: "u32 \<Rightarrow> u32 kmon" where
  "balloc dev =
     kbind (kget k_sb) (\<lambda>sb.
     kbind (kfind (map_groups (unat (sb_size sb))) (\<lambda>b.
       kbind (bread dev (BBLOCK (of_nat b) sb)) (\<lambda>bp.
       kbind (bdata bp) (\<lambda>bs. case first_free b (unat (sb_size sb)) bs of
         None \<Rightarrow> kbind (brelse bp) (\<lambda>_. kret None)
       | Some bi \<Rightarrow> kbind (kseq [
           set_bdata bp (mark_used bi),
           log_write bp,
           brelse bp,
           bzero dev (of_nat (b + bi))]) (\<lambda>_. kret (Some (of_nat (b + bi)))))))) (\<lambda>found. case found of
       Some bno \<Rightarrow> kret bno
     | None \<Rightarrow> kpanic ''balloc: out of blocks''))"

definition bfree :: "u32 \<Rightarrow> u32 \<Rightarrow> unit kmon" where
  "bfree dev b =
     kbind (kget k_sb) (\<lambda>sb.
     kbind (bread dev (BBLOCK b sb)) (\<lambda>bp.
     let bi = unat (b mod of_nat BPB)
     in kseq [
       kbind (bdata bp) (\<lambda>bs. kwhen (\<lambda>s. bit_free bs bi) (kpanic ''freeing free block'')),
       set_bdata bp (mark_free bi),
       log_write bp,
       brelse bp]))"

section \<open>Inodes on disk\<close>

text \<open>The fields of a \<open>struct dinode\<close> at byte \<open>i\<close> of a block.\<close>

definition dinode_at :: "u32 \<Rightarrow> nat" where
  "dinode_at inum = unat (inum mod IPB) * SIZEOF_DINODE"

definition decode_dinode :: "nat \<Rightarrow> u8 list \<Rightarrow> inode \<Rightarrow> inode" where
  "decode_dinode i bs ip = ip\<lparr>i_type := get16 bs i, i_major := get16 bs (i + 2),
     i_minor := get16 bs (i + 4), i_nlink := get16 bs (i + 6), i_size := get32 bs (i + 8),
     i_addrs := get_words bs (i + 12) (NDIRECT + 1)\<rparr>"

definition encode_dinode :: "nat \<Rightarrow> inode \<Rightarrow> u8 list \<Rightarrow> u8 list" where
  "encode_dinode i ip bs = put_words (i + 12) (i_addrs ip) (put32 (i + 8) (i_size ip)
     (put16 (i + 6) (i_nlink ip) (put16 (i + 4) (i_minor ip)
     (put16 (i + 2) (i_major ip) (put16 i (i_type ip) bs)))))"

section \<open>The inode cache\<close>

definition ino :: "kernel \<Rightarrow> nat \<Rightarrow> inode" where
  "ino s i = k_inodes s ! i"

definition upd_ino :: "nat \<Rightarrow> (inode \<Rightarrow> inode) \<Rightarrow> kernel \<Rightarrow> kernel" where
  "upd_ino i f s = s\<lparr>k_inodes := (k_inodes s)[i := f (k_inodes s ! i)]\<rparr>"

definition iinit :: "u32 \<Rightarrow> unit kmon" where
  "iinit dev = kseq [
     kfor [0..<NINODE] (\<lambda>i. initsleeplock (SL_inode i)),
     kbind (readsb dev) (\<lambda>sb. kseq [
       kupd (\<lambda>s. s\<lparr>k_sb := sb\<rparr>),
       cprintf (map ch ''sb: size %d nblocks %d ninodes %d nlog %d logstart %d inodestart %d bmap start %d'' @ [10])
         (map Int_arg [sb_size sb, sb_nblocks sb, sb_ninodes sb, sb_nlog sb, sb_logstart sb,
            sb_inodestart sb, sb_bmapstart sb])])]"

text \<open>
  The scan of \<open>iget\<close>: the entry that holds the inode, else the first free entry.
\<close>

definition cached_inode :: "u32 \<Rightarrow> u32 \<Rightarrow> kernel \<Rightarrow> nat option" where
  "cached_inode dev inum s =
     find (\<lambda>i. 0 < i_ref (ino s i) \<and> i_dev (ino s i) = dev \<and> i_inum (ino s i) = inum) [0..<NINODE]"

definition empty_inode :: "kernel \<Rightarrow> nat option" where
  "empty_inode s = find (\<lambda>i. i_ref (ino s i) = 0) [0..<NINODE]"

definition iget :: "u32 \<Rightarrow> u32 \<Rightarrow> nat kmon" where
  "iget dev inum =
     kbind (acquire L_icache) (\<lambda>_.
     kbind (kget (cached_inode dev inum)) (\<lambda>c. case c of
       Some i \<Rightarrow> kbind (kseq [
           kupd (upd_ino i (\<lambda>x. x\<lparr>i_ref := i_ref x + 1\<rparr>)),
           release L_icache]) (\<lambda>_. kret i)
     | None \<Rightarrow> kbind (kget empty_inode) (\<lambda>e. case e of
         None \<Rightarrow> kpanic ''iget: no inodes''
       | Some i \<Rightarrow> kbind (kseq [
             kupd (upd_ino i (\<lambda>x. x\<lparr>i_dev := dev, i_inum := inum, i_ref := 1, i_valid := False\<rparr>)),
             release L_icache]) (\<lambda>_. kret i))))"

definition idup :: "nat \<Rightarrow> nat kmon" where
  "idup i = kbind (kseq [
     acquire L_icache,
     kupd (upd_ino i (\<lambda>x. x\<lparr>i_ref := i_ref x + 1\<rparr>)),
     release L_icache]) (\<lambda>_. kret i)"

definition ialloc :: "u32 \<Rightarrow> u16 \<Rightarrow> nat kmon" where
  "ialloc dev type =
     kbind (kget k_sb) (\<lambda>sb.
     kbind (kfind [1..<unat (sb_ninodes sb)] (\<lambda>inum.
       kbind (bread dev (IBLOCK (of_nat inum) sb)) (\<lambda>bp.
       kbind (bdata bp) (\<lambda>bs.
       let i = dinode_at (of_nat inum)
       in if get16 bs i = 0 then
            kbind (kseq [
              set_bdata bp (\<lambda>bs. put16 i type (put_range i (replicate SIZEOF_DINODE 0) bs)),
              log_write bp,
              brelse bp]) (\<lambda>_.
            kbind (iget dev (of_nat inum)) (\<lambda>ip. kret (Some ip)))
          else kbind (brelse bp) (\<lambda>_. kret None))))) (\<lambda>found. case found of
       Some ip \<Rightarrow> kret ip
     | None \<Rightarrow> kpanic ''ialloc: no inodes''))"

definition iupdate :: "nat \<Rightarrow> unit kmon" where
  "iupdate i =
     kbind (kget (\<lambda>s. ino s i)) (\<lambda>ip.
     kbind (kget (\<lambda>s. IBLOCK (i_inum ip) (k_sb s))) (\<lambda>bno.
     kbind (bread (i_dev ip) bno) (\<lambda>bp. kseq [
       kbind (kget (\<lambda>s. ino s i)) (\<lambda>ip. set_bdata bp (encode_dinode (dinode_at (i_inum ip)) ip)),
       log_write bp,
       brelse bp])))"

definition ilock :: "nat option \<Rightarrow> unit kmon" where
  "ilock ip = (case ip of
     None \<Rightarrow> kpanic ''ilock''
   | Some i \<Rightarrow> kseq [
       kwhen (\<lambda>s. i_ref (ino s i) < 1) (kpanic ''ilock''),
       acquiresleep (SL_inode i),
       kwhen (\<lambda>s. \<not> i_valid (ino s i))
         (kbind (kget (\<lambda>s. (i_dev (ino s i), i_inum (ino s i), IBLOCK (i_inum (ino s i)) (k_sb s))))
           (\<lambda>(dev, inum, bno).
          kbind (bread dev bno) (\<lambda>bp.
          kbind (bdata bp) (\<lambda>bs. kseq [
            kupd (upd_ino i (decode_dinode (dinode_at inum) bs)),
            brelse bp,
            kupd (upd_ino i (\<lambda>x. x\<lparr>i_valid := True\<rparr>)),
            kwhen (\<lambda>s. i_type (ino s i) = 0) (kpanic ''ilock: no type'')]))))])"

definition iunlock :: "nat option \<Rightarrow> unit kmon" where
  "iunlock ip = (case ip of
     None \<Rightarrow> kpanic ''iunlock''
   | Some i \<Rightarrow> kbind (holdingsleep (SL_inode i)) (\<lambda>h. kseq [
       kwhen (\<lambda>s. \<not> h \<or> i_ref (ino s i) < 1) (kpanic ''iunlock''),
       releasesleep (SL_inode i)]))"

definition set_addr :: "nat \<Rightarrow> nat \<Rightarrow> u32 \<Rightarrow> unit kmon" where
  "set_addr i k v = kupd (upd_ino i (\<lambda>x. x\<lparr>i_addrs := (i_addrs x)[k := v]\<rparr>))"

definition inode_addr :: "nat \<Rightarrow> nat \<Rightarrow> u32 kmon" where
  "inode_addr i k = kget (\<lambda>s. i_addrs (ino s i) ! k)"

definition inode_dev :: "nat \<Rightarrow> u32 kmon" where
  "inode_dev i = kget (\<lambda>s. i_dev (ino s i))"

text \<open>
  \<open>itrunc\<close>. The pointer \<open>a\<close> points into the buffer of the indirect block, so each entry is
  read when the loop comes to it.
\<close>

definition itrunc :: "nat \<Rightarrow> unit kmon" where
  "itrunc i = kseq [
     kfor [0..<NDIRECT] (\<lambda>k.
       kbind (inode_addr i k) (\<lambda>a. kwhen (\<lambda>s. a \<noteq> 0) (kseq [
         kbind (inode_dev i) (\<lambda>dev. bfree dev a),
         set_addr i k 0]))),
     kbind (inode_addr i NDIRECT) (\<lambda>ind. kwhen (\<lambda>s. ind \<noteq> 0)
       (kbind (inode_dev i) (\<lambda>dev.
        kbind (bread dev ind) (\<lambda>bp. kseq [
          kfor [0..<NINDIRECT] (\<lambda>j.
            kbind (kget (\<lambda>s. get32 (b_data (bufof s bp)) (4 * j))) (\<lambda>a.
            kwhen (\<lambda>s. a \<noteq> 0) (bfree dev a))),
          brelse bp,
          bfree dev ind,
          set_addr i NDIRECT 0])))),
     kupd (upd_ino i (\<lambda>x. x\<lparr>i_size := 0\<rparr>)),
     iupdate i]"

definition iput :: "nat \<Rightarrow> unit kmon" where
  "iput i = kseq [
     acquiresleep (SL_inode i),
     kwhen (\<lambda>s. i_valid (ino s i) \<and> i_nlink (ino s i) = 0)
       (kbind (acquire L_icache) (\<lambda>_.
        kbind (kget (\<lambda>s. i_ref (ino s i))) (\<lambda>r. kseq [
          release L_icache,
          kwhen (\<lambda>s. r = 1) (kseq [
            itrunc i,
            kupd (upd_ino i (\<lambda>x. x\<lparr>i_type := 0\<rparr>)),
            iupdate i,
            kupd (upd_ino i (\<lambda>x. x\<lparr>i_valid := False\<rparr>))])]))),
     releasesleep (SL_inode i),
     acquire L_icache,
     kupd (upd_ino i (\<lambda>x. x\<lparr>i_ref := i_ref x - 1\<rparr>)),
     release L_icache]"

definition iunlockput :: "nat \<Rightarrow> unit kmon" where
  "iunlockput i = kseq [iunlock (Some i), iput i]"

section \<open>The blocks of a file\<close>

definition bmap_direct :: "nat \<Rightarrow> nat \<Rightarrow> u32 kmon" where
  "bmap_direct i k = kbind (inode_addr i k) (\<lambda>a.
     if a \<noteq> 0 then kret a
     else kbind (inode_dev i) (\<lambda>dev. kbind (balloc dev) (\<lambda>a.
       kbind (set_addr i k a) (\<lambda>_. kret a))))"

definition bmap :: "nat \<Rightarrow> u32 \<Rightarrow> u32 kmon" where
  "bmap i bn =
     (if unat bn < NDIRECT then bmap_direct i (unat bn)
      else let j = unat (bn - of_nat NDIRECT)
        in if j < NINDIRECT then
          kbind (bmap_direct i NDIRECT) (\<lambda>ind.
          kbind (inode_dev i) (\<lambda>dev.
          kbind (bread dev ind) (\<lambda>bp.
          kbind (bdata bp) (\<lambda>bs.
          kbind (if get32 bs (4 * j) \<noteq> 0 then kret (get32 bs (4 * j))
                 else kbind (balloc dev) (\<lambda>a.
                   kbind (kseq [set_bdata bp (put32 (4 * j) a), log_write bp]) (\<lambda>_. kret a))) (\<lambda>a.
          kbind (brelse bp) (\<lambda>_. kret a))))))
        else kpanic ''bmap: out of range'')"

text \<open>\<open>stati\<close>: the \<open>struct stat\<close> (20 bytes) as stored; the padding is left out.\<close>

record stat =
  st_type :: u16
  st_dev :: u32
  st_ino :: u32
  st_nlink :: u16
  st_size :: u32

definition stati :: "nat \<Rightarrow> stat kmon" where
  "stati i = kget (\<lambda>s. let ip = ino s i in
     \<lparr>st_type = i_type ip, st_dev = i_dev ip, st_ino = i_inum ip, st_nlink = i_nlink ip, st_size = i_size ip\<rparr>)"

end
