(* ===== verification/Console_In.thy ===== *)
theory Console_In
  imports Inode
begin

unbundle bit_operations_syntax

text \<open>
  The input side of \<open>console.c\<close>: the line discipline run by the keyboard and serial
  interrupts, and the read and write operations of the console device; and the two character
  sources, \<open>kbdgetc\<close> of \<open>kbd.c\<close> and \<open>uartgetc\<close> of \<open>uart.c\<close>, as the list of characters they return.
\<close>

section \<open>The line discipline\<close>

definition NL :: int where "NL = 10"
definition CR :: int where "CR = 13"
definition DEL :: int where "DEL = 0x7f"
definition ctrl :: "char \<Rightarrow> int" where "ctrl c = uint (ch c) - uint (ch (CHR ''@''))"

definition upd_input :: "(console \<Rightarrow> console) \<Rightarrow> unit kmon" where
  "upd_input f = kupd (upd_cons f)"

definition in_char :: "u32 \<Rightarrow> console \<Rightarrow> u8" where
  "in_char i c = in_buf c ! unat (i mod INPUT_BUF)"

text \<open>Kill line: at most \<open>INPUT_BUF\<close> characters lie between the write and the edit index.\<close>

fun kill_line :: "nat \<Rightarrow> unit kmon" where
  "kill_line 0 = (\<lambda>s. Spin)"
| "kill_line (Suc n) =
     kif (\<lambda>s. in_e (k_cons s) \<noteq> in_w (k_cons s) \<and> in_char (in_e (k_cons s) - 1) (k_cons s) \<noteq> ch (CHR 0x0A))
       (kseq [upd_input (\<lambda>c. c\<lparr>in_e := in_e c - 1\<rparr>), consputc BACKSPACE, kill_line n])
       (kret ())"

text \<open>One character; \<open>True\<close> when it asks for the process listing.\<close>

definition console_char :: "int \<Rightarrow> bool kmon" where
  "console_char c =
     (if c = ctrl (CHR ''P'') then kret True
      else if c = ctrl (CHR ''U'') then kbind (kill_line (Suc (unat INPUT_BUF))) (\<lambda>_. kret False)
      else if c = ctrl (CHR ''H'') \<or> c = DEL then
        kbind (kwhen (\<lambda>s. in_e (k_cons s) \<noteq> in_w (k_cons s)) (kseq [
          upd_input (\<lambda>x. x\<lparr>in_e := in_e x - 1\<rparr>),
          consputc BACKSPACE])) (\<lambda>_. kret False)
      else kbind (kwhen (\<lambda>s. c \<noteq> 0 \<and> in_e (k_cons s) - in_r (k_cons s) < INPUT_BUF)
        (let c = (if c = CR then NL else c) in kseq [
          upd_input (\<lambda>x. x\<lparr>in_buf := (in_buf x)[unat (in_e x mod INPUT_BUF) := word_of_int c],
            in_e := in_e x + 1\<rparr>),
          consputc c,
          kwhen (\<lambda>s. c = NL \<or> c = ctrl (CHR ''D'') \<or> in_e (k_cons s) = in_r (k_cons s) + INPUT_BUF) (kseq [
            upd_input (\<lambda>x. x\<lparr>in_w := in_e x\<rparr>),
            wake Ch_input])])) (\<lambda>_. kret False))"

text \<open>\<open>cs\<close> is what successive calls of \<open>getc\<close> return before it returns a negative number.\<close>

fun console_chars :: "int list \<Rightarrow> bool \<Rightarrow> bool kmon" where
  "console_chars [] dump = kret dump"
| "console_chars (c # cs) dump =
     (if c < 0 then kret dump
      else kbind (console_char c) (\<lambda>d. console_chars cs (dump \<or> d)))"

definition consoleintr :: "int list \<Rightarrow> unit kmon" where
  "consoleintr cs =
     kbind (acquire L_cons) (\<lambda>_.
     kbind (console_chars cs False) (\<lambda>doprocdump. kseq [
       release L_cons,
       kwhen (\<lambda>s. doprocdump) procdump]))"

section \<open>Reading and writing the console\<close>

text \<open>
  \<open>consoleread\<close>: \<open>n\<close> is the number of characters still wanted, \<open>target\<close> that asked for. The
  result is the bytes delivered, \<open>None\<close> for -1; the lock is held again when it returns from
  the loop.
\<close>

fun cons_wait :: "nat \<Rightarrow> bool kmon" where
  "cons_wait 0 = kif (\<lambda>s. in_r (k_cons s) = in_w (k_cons s)) (\<lambda>s. Spin) (kret True)"
| "cons_wait (Suc k) =
     kif (\<lambda>s. in_r (k_cons s) = in_w (k_cons s))
       (kbind my_killed (\<lambda>killed.
        if killed then kret False
        else kbind (sleep Ch_input (Some L_cons)) (\<lambda>_. cons_wait k)))
       (kret True)"

fun cons_read_loop :: "nat \<Rightarrow> nat \<Rightarrow> dest \<Rightarrow> u8 list \<Rightarrow> u8 list option kmon" where
  "cons_read_loop 0 target dst got = kret (Some got)"
| "cons_read_loop (Suc n) target dst got =
     kbind (\<lambda>s. cons_wait (k_patience s) s) (\<lambda>go.
     if \<not> go then kret None
     else kbind (kget (\<lambda>s. in_char (in_r (k_cons s)) (k_cons s))) (\<lambda>c.
       kbind (upd_input (\<lambda>x. x\<lparr>in_r := in_r x + 1\<rparr>)) (\<lambda>_.
       if c = word_of_int (ctrl (CHR ''D'')) then
         kbind (kwhen (\<lambda>s. Suc n < target) (upd_input (\<lambda>x. x\<lparr>in_r := in_r x - 1\<rparr>))) (\<lambda>_. kret (Some got))
       else kbind (deliver dst (target - Suc n) [c]) (\<lambda>_.
         if c = word_of_int NL then kret (Some (got @ [c]))
         else cons_read_loop n target dst (got @ [c])))))"

definition consoleread :: "nat \<Rightarrow> dest \<Rightarrow> nat \<Rightarrow> u8 list option kmon" where
  "consoleread ip dst n =
     kbind (iunlock (Some ip)) (\<lambda>_.
     kbind (acquire L_cons) (\<lambda>_.
     kbind (cons_read_loop n n dst []) (\<lambda>r.
     kbind (release L_cons) (\<lambda>_.
     kbind (ilock (Some ip)) (\<lambda>_. kret r)))))"

definition consolewrite :: "nat \<Rightarrow> source \<Rightarrow> nat \<Rightarrow> nat kmon" where
  "consolewrite ip src n = kbind (kseq [
     iunlock (Some ip),
     acquire L_cons,
     kfor [0..<n] (\<lambda>i. kbind (fetch src i 1) (\<lambda>bs. consputc (uint (hd bs)))),
     release L_cons,
     ilock (Some ip)]) (\<lambda>_. kret n)"

end
