(* ===== verification/Dir.thy ===== *)
theory Dir
  imports Console_In
begin

text \<open>
  \<open>fs.c\<close>, the upper layers: reading and writing the content of an inode, directories, and
  path names. A path is the list of its bytes before the NUL.
\<close>

section \<open>Reading and writing inodes\<close>

definition NDEV :: int where "NDEV = 10"
definition CONSOLE :: int where "CONSOLE = 1"

text \<open>\<open>devsw\<close> after \<open>consoleinit\<close>: the console is the only device with operations.\<close>

definition has_devsw :: "u16 \<Rightarrow> bool" where
  "has_devsw major \<longleftrightarrow> \<not> (sint major < 0 \<or> NDEV \<le> sint major \<or> sint major \<noteq> CONSOLE)"

text \<open>How many bytes of the range \<open>tot\<close> to \<open>n\<close> lie in the block of \<open>off\<close>.\<close>

definition chunk :: "u32 \<Rightarrow> u32 \<Rightarrow> u32 \<Rightarrow> nat" where
  "chunk off tot n = min (unat (n - tot)) (BSIZE - unat off mod BSIZE)"

text \<open>
  The loop of \<open>readi\<close>; it returns the bytes read. Every iteration but the last advances \<open>tot\<close>
  by at least one, so \<open>n + 1\<close> iterations are enough.
\<close>

fun readi_loop :: "nat \<Rightarrow> nat \<Rightarrow> dest \<Rightarrow> u32 \<Rightarrow> u32 \<Rightarrow> u32 \<Rightarrow> u8 list \<Rightarrow> u8 list kmon" where
  "readi_loop 0 ip dst off tot n got = (\<lambda>s. Spin)"
| "readi_loop (Suc k) ip dst off tot n got =
     (if \<not> tot < n then kret got
      else kbind (bmap ip (off div of_nat BSIZE)) (\<lambda>bno.
        kbind (inode_dev ip) (\<lambda>dev.
        kbind (bread dev bno) (\<lambda>bp.
        kbind (bdata bp) (\<lambda>bs.
        let m = chunk off tot n;
            piece = get_range (unat off mod BSIZE) m bs
        in kbind (kseq [deliver dst (unat tot) piece, brelse bp]) (\<lambda>_.
           readi_loop k ip dst (off + of_nat m) (tot + of_nat m) n (got @ piece)))))))"

text \<open>\<open>None\<close> is -1; otherwise the result is the number of bytes in the list.\<close>

definition readi :: "nat \<Rightarrow> dest \<Rightarrow> u32 \<Rightarrow> u32 \<Rightarrow> u8 list option kmon" where
  "readi ip dst off n =
     kbind (kget (\<lambda>s. ino s ip)) (\<lambda>x.
     if i_type x = T_DEV then
       (if \<not> has_devsw (i_major x) then kret None else consoleread ip dst (nat (sint n)))
     else if i_size x < off \<or> off + n < off then kret None
     else let n = (if i_size x < off + n then i_size x - off else n)
       in kbind (readi_loop (Suc (unat n)) ip dst off 0 n []) (\<lambda>bs. kret (Some bs)))"

fun writei_loop :: "nat \<Rightarrow> nat \<Rightarrow> source \<Rightarrow> u32 \<Rightarrow> u32 \<Rightarrow> u32 \<Rightarrow> u32 kmon" where
  "writei_loop 0 ip src off tot n = (\<lambda>s. Spin)"
| "writei_loop (Suc k) ip src off tot n =
     (if \<not> tot < n then kret off
      else kbind (bmap ip (off div of_nat BSIZE)) (\<lambda>bno.
        kbind (inode_dev ip) (\<lambda>dev.
        kbind (bread dev bno) (\<lambda>bp.
        let m = chunk off tot n
        in kbind (fetch src (unat tot) m) (\<lambda>piece.
           kbind (kseq [
             set_bdata bp (put_range (unat off mod BSIZE) piece),
             log_write bp,
             brelse bp]) (\<lambda>_.
           writei_loop k ip src (off + of_nat m) (tot + of_nat m) n))))))"

definition writei :: "nat \<Rightarrow> source \<Rightarrow> u32 \<Rightarrow> u32 \<Rightarrow> int kmon" where
  "writei ip src off n =
     kbind (kget (\<lambda>s. ino s ip)) (\<lambda>x.
     if i_type x = T_DEV then
       (if \<not> has_devsw (i_major x) then kret (- 1)
        else kbind (consolewrite ip src (nat (sint n))) (\<lambda>r. kret (int r)))
     else if i_size x < off \<or> off + n < off then kret (- 1)
     else if of_nat (MAXFILE * BSIZE) < off + n then kret (- 1)
     else kbind (writei_loop (Suc (unat n)) ip src off 0 n) (\<lambda>off.
       kbind (kwhen (\<lambda>s. 0 < n \<and> i_size (ino s ip) < off) (kseq [
         kupd (upd_ino ip (\<lambda>x. x\<lparr>i_size := off\<rparr>)),
         iupdate ip])) (\<lambda>_. kret (uint n))))"

section \<open>Directories\<close>

definition DIRSIZ :: nat where "DIRSIZ = 14"
definition SIZEOF_DIRENT :: u32 where "SIZEOF_DIRENT = 16"

text \<open>\<open>strncmp\<close> on byte strings; past the end of a string stands its NUL.\<close>

definition byte_at :: "u8 list \<Rightarrow> nat \<Rightarrow> u8" where
  "byte_at s i = (if i < length s then s ! i else 0)"

fun strncmp_at :: "nat \<Rightarrow> nat \<Rightarrow> u8 list \<Rightarrow> u8 list \<Rightarrow> int" where
  "strncmp_at 0 i s t = 0"
| "strncmp_at (Suc n) i s t =
     (if byte_at s i \<noteq> 0 \<and> byte_at s i = byte_at t i then strncmp_at n (Suc i) s t
      else uint (byte_at s i) - uint (byte_at t i))"

definition namecmp :: "u8 list \<Rightarrow> u8 list \<Rightarrow> int" where
  "namecmp s t = strncmp_at DIRSIZ 0 s t"

text \<open>A directory entry: the inode number, then the name.\<close>

definition de_inum :: "u8 list \<Rightarrow> u16" where
  "de_inum de = get16 de 0"

definition de_name :: "u8 list \<Rightarrow> u8 list" where
  "de_name de = get_range 2 DIRSIZ de"

definition strncpy_name :: "u8 list \<Rightarrow> u8 list" where
  "strncpy_name name = (let s = takeWhile (\<lambda>c. c \<noteq> 0) (take DIRSIZ name) in s @ replicate (DIRSIZ - length s) 0)"

definition make_dirent :: "u8 list \<Rightarrow> u16 \<Rightarrow> u8 list" where
  "make_dirent name inum = put16 0 inum (replicate 2 0) @ strncpy_name name"

text \<open>The entry at offset \<open>off\<close>; a short read panics.\<close>

definition read_dirent :: "string \<Rightarrow> nat \<Rightarrow> u32 \<Rightarrow> u8 list kmon" where
  "read_dirent msg dp off = kbind (readi dp To_local off SIZEOF_DIRENT) (\<lambda>r. case r of
     None \<Rightarrow> kpanic msg
   | Some de \<Rightarrow> if length de \<noteq> unat SIZEOF_DIRENT then kpanic msg else kret de)"

text \<open>
  The offsets of the entries, while \<open>off < dp->size\<close>: the directory is locked, so its size does
  not change during the loop.
\<close>

definition dirent_offsets :: "nat \<Rightarrow> kernel \<Rightarrow> u32 list" where
  "dirent_offsets dp s = map (\<lambda>k. SIZEOF_DIRENT * of_nat k) [0..<(unat (i_size (ino s dp)) + 15) div 16]"

text \<open>The result also carries \<open>*poff\<close>.\<close>

definition dirlookup :: "nat \<Rightarrow> u8 list \<Rightarrow> (nat \<times> u32) option kmon" where
  "dirlookup dp name =
     kbind (kwhen (\<lambda>s. i_type (ino s dp) \<noteq> T_DIR) (kpanic ''dirlookup not DIR'')) (\<lambda>_.
     kbind (kget (dirent_offsets dp)) (\<lambda>offs. kfind offs (\<lambda>off.
       kbind (read_dirent ''dirlookup read'' dp off) (\<lambda>de.
       if de_inum de = 0 then kret None
       else if namecmp name (de_name de) = 0 then
         kbind (inode_dev dp) (\<lambda>dev.
         kbind (iget dev (ucast (de_inum de))) (\<lambda>ip. kret (Some (ip, off))))
       else kret None))))"

definition dirlink :: "nat \<Rightarrow> u8 list \<Rightarrow> u32 \<Rightarrow> int kmon" where
  "dirlink dp name inum =
     kbind (dirlookup dp name) (\<lambda>found. case found of
       Some (ip, _) \<Rightarrow> kbind (iput ip) (\<lambda>_. kret (- 1))
     | None \<Rightarrow>
         kbind (kget (\<lambda>s. (dirent_offsets dp s, of_nat (16 * length (dirent_offsets dp s))))) (\<lambda>(offs, end).
         kbind (kfind offs (\<lambda>off.
           kbind (read_dirent ''dirlink read'' dp off) (\<lambda>de.
           kret (if de_inum de = 0 then Some off else None)))) (\<lambda>empty.
         kbind (writei dp (From_local (make_dirent name (ucast inum)))
                  (case empty of Some off \<Rightarrow> off | None \<Rightarrow> end) SIZEOF_DIRENT) (\<lambda>r.
         if r \<noteq> uint SIZEOF_DIRENT then kpanic ''dirlink'' else kret 0))))"

section \<open>Path names\<close>

definition SLASH :: u8 where "SLASH = ch (CHR ''/'')"

text \<open>
  \<open>skipelem\<close>: the rest of the path and the element, cut to \<open>DIRSIZ\<close> bytes.
\<close>

definition skipelem :: "u8 list \<Rightarrow> (u8 list \<times> u8 list) option" where
  "skipelem path =
     (let p = dropWhile (\<lambda>c. c = SLASH) path
      in if p = [] then None
         else Some (dropWhile (\<lambda>c. c = SLASH) (dropWhile (\<lambda>c. c \<noteq> SLASH) p),
                    take DIRSIZ (takeWhile (\<lambda>c. c \<noteq> SLASH) p)))"

lemma skipelem_shorter: "skipelem path = Some (rest, name) \<Longrightarrow> length rest < length path"
proof -
  assume a: "skipelem path = Some (rest, name)"
  let ?p = "dropWhile (\<lambda>c. c = SLASH) path"
  have ne: "?p \<noteq> []" and r: "rest = dropWhile (\<lambda>c. c = SLASH) (dropWhile (\<lambda>c. c \<noteq> SLASH) ?p)"
    using a by (auto simp: skipelem_def Let_def split: if_splits)
  obtain c cs where p: "?p = c # cs" using ne by (cases ?p) auto
  have "c \<noteq> SLASH" using p hd_dropWhile[OF ne] by simp
  then have "length (dropWhile (\<lambda>c. c \<noteq> SLASH) ?p) \<le> length cs"
    by (simp add: p length_dropWhile_le)
  moreover have "length rest \<le> length (dropWhile (\<lambda>c. c \<noteq> SLASH) ?p)"
    unfolding r by (rule length_dropWhile_le)
  moreover have "length ?p \<le> length path" by (rule length_dropWhile_le)
  ultimately show ?thesis using p by simp
qed

text \<open>
  The loop of \<open>namex\<close>. With \<open>nameiparent\<close> the result carries the last element.
\<close>

function namex_loop :: "nat \<Rightarrow> u8 list \<Rightarrow> bool \<Rightarrow> u8 list \<Rightarrow> (nat \<times> u8 list) option kmon" where
  "namex_loop ip path npar name = (case skipelem path of
     None \<Rightarrow>
       if npar then kbind (iput ip) (\<lambda>_. kret None) else kret (Some (ip, name))
   | Some (rest, name) \<Rightarrow>
       kbind (ilock (Some ip)) (\<lambda>_.
       kif (\<lambda>s. i_type (ino s ip) \<noteq> T_DIR)
         (kbind (iunlockput ip) (\<lambda>_. kret None))
         (if npar \<and> rest = [] then kbind (iunlock (Some ip)) (\<lambda>_. kret (Some (ip, name)))
          else kbind (dirlookup ip name) (\<lambda>found. case found of
            None \<Rightarrow> kbind (iunlockput ip) (\<lambda>_. kret None)
          | Some (next, _) \<Rightarrow> kbind (iunlockput ip) (\<lambda>_. namex_loop next rest npar name)))))"
  by auto
termination by (relation "measure (\<lambda>(_, path, _, _). length path)") (auto dest: skipelem_shorter)

declare namex_loop.simps [simp del]

definition namex :: "u8 list \<Rightarrow> bool \<Rightarrow> (nat \<times> u8 list) option kmon" where
  "namex path npar =
     kbind (if path \<noteq> [] \<and> hd path = SLASH then iget ROOTDEV ROOTINO
            else kbind curproc (\<lambda>p. kbind (kopt (\<lambda>s. p_cwd (pr s p))) idup)) (\<lambda>ip.
     namex_loop ip path npar [])"

definition namei :: "u8 list \<Rightarrow> nat option kmon" where
  "namei path = kbind (namex path False) (\<lambda>r. kret (map_option fst r))"

definition nameiparent :: "u8 list \<Rightarrow> (nat \<times> u8 list) option kmon" where
  "nameiparent path = namex path True"

end
