(* ===== verification/Pipe.thy ===== *)
theory Pipe
  imports Dir
begin

text \<open>
  \<open>pipe.c\<close>: closing, writing and reading. The ring of \<open>PIPESIZE\<close> bytes is indexed by two
  counters that wrap around at \<open>2 ^ 32\<close>. (\<open>pipealloc\<close> is in the theory \<open>File\<close>.)
\<close>

section \<open>The ring\<close>

definition upd_pipe :: "u32 \<Rightarrow> (pipe \<Rightarrow> pipe) \<Rightarrow> kernel \<Rightarrow> kernel" where
  "upd_pipe p f s = s\<lparr>k_pipes := (k_pipes s)(p := f (k_pipes s p))\<rparr>"

definition pipe_full :: "pipe \<Rightarrow> bool" where
  "pipe_full x \<longleftrightarrow> pi_nwrite x = pi_nread x + PIPESIZE"

definition pipe_empty :: "pipe \<Rightarrow> bool" where
  "pipe_empty x \<longleftrightarrow> pi_nread x = pi_nwrite x"

definition pipe_put :: "u8 \<Rightarrow> pipe \<Rightarrow> pipe" where
  "pipe_put c x = x\<lparr>pi_data := (pi_data x)[unat (pi_nwrite x mod PIPESIZE) := c], pi_nwrite := pi_nwrite x + 1\<rparr>"

definition pipe_get :: "pipe \<Rightarrow> u8 \<times> pipe" where
  "pipe_get x = (pi_data x ! unat (pi_nread x mod PIPESIZE), x\<lparr>pi_nread := pi_nread x + 1\<rparr>)"

section \<open>Operations\<close>

definition pipeclose :: "u32 \<Rightarrow> bool \<Rightarrow> unit kmon" where
  "pipeclose p writable = kseq [
     acquire (L_pipe p),
     (if writable then kseq [kupd (upd_pipe p (\<lambda>x. x\<lparr>pi_writeopen := False\<rparr>)), wake (Ch_nread p)]
      else kseq [kupd (upd_pipe p (\<lambda>x. x\<lparr>pi_readopen := False\<rparr>)), wake (Ch_nwrite p)]),
     kif (\<lambda>s. \<not> pi_readopen (k_pipes s p) \<and> \<not> pi_writeopen (k_pipes s p))
       (kseq [release (L_pipe p), kfree p])
       (release (L_pipe p))]"

text \<open>The inner loop of \<open>pipewrite\<close>: \<open>False\<close> when the reader is gone or the process is killed.\<close>

fun pipe_room :: "nat \<Rightarrow> u32 \<Rightarrow> bool kmon" where
  "pipe_room 0 p = kif (\<lambda>s. pipe_full (k_pipes s p)) (\<lambda>s. Spin) (kret True)"
| "pipe_room (Suc k) p =
     kif (\<lambda>s. pipe_full (k_pipes s p))
       (kbind (kif (\<lambda>s. \<not> pi_readopen (k_pipes s p)) (kret True) my_killed) (\<lambda>gone.
        if gone then kret False
        else kbind (kseq [wake (Ch_nread p), sleep (Ch_nwrite p) (Some (L_pipe p))]) (\<lambda>_. pipe_room k p)))
       (kret True)"

fun pipewrite_loop :: "nat \<Rightarrow> u32 \<Rightarrow> u32 \<Rightarrow> bool kmon" where
  "pipewrite_loop 0 p addr = kret True"
| "pipewrite_loop (Suc n) p addr =
     kbind (\<lambda>s. pipe_room (k_patience s) p s) (\<lambda>go.
     if \<not> go then kret False
     else kbind (load8 addr) (\<lambda>c.
       kbind (kupd (upd_pipe p (pipe_put c))) (\<lambda>_. pipewrite_loop n p (addr + 1))))"

definition pipewrite :: "u32 \<Rightarrow> u32 \<Rightarrow> nat \<Rightarrow> int kmon" where
  "pipewrite p addr n =
     kbind (acquire (L_pipe p)) (\<lambda>_.
     kbind (pipewrite_loop n p addr) (\<lambda>ok.
     if \<not> ok then kbind (release (L_pipe p)) (\<lambda>_. kret (- 1))
     else kbind (kseq [wake (Ch_nread p), release (L_pipe p)]) (\<lambda>_. kret (int n))))"

fun pipe_wait :: "nat \<Rightarrow> u32 \<Rightarrow> bool kmon" where
  "pipe_wait 0 p = kif (\<lambda>s. pipe_empty (k_pipes s p) \<and> pi_writeopen (k_pipes s p)) (\<lambda>s. Spin) (kret True)"
| "pipe_wait (Suc k) p =
     kif (\<lambda>s. pipe_empty (k_pipes s p) \<and> pi_writeopen (k_pipes s p))
       (kbind my_killed (\<lambda>killed.
        if killed then kret False
        else kbind (sleep (Ch_nread p) (Some (L_pipe p))) (\<lambda>_. pipe_wait k p)))
       (kret True)"

fun piperead_loop :: "nat \<Rightarrow> nat \<Rightarrow> u32 \<Rightarrow> u32 \<Rightarrow> nat kmon" where
  "piperead_loop 0 i p addr = kret i"
| "piperead_loop (Suc n) i p addr =
     kif (\<lambda>s. pipe_empty (k_pipes s p)) (kret i)
       (kbind (kget (\<lambda>s. pipe_get (k_pipes s p))) (\<lambda>(c, x).
        kbind (kupd (upd_pipe p (\<lambda>_. x))) (\<lambda>_.
        kbind (store8 addr c) (\<lambda>_. piperead_loop n (Suc i) p (addr + 1)))))"

definition piperead :: "u32 \<Rightarrow> u32 \<Rightarrow> nat \<Rightarrow> int kmon" where
  "piperead p addr n =
     kbind (acquire (L_pipe p)) (\<lambda>_.
     kbind (\<lambda>s. pipe_wait (k_patience s) p s) (\<lambda>go.
     if \<not> go then kbind (release (L_pipe p)) (\<lambda>_. kret (- 1))
     else kbind (piperead_loop n 0 p addr) (\<lambda>i.
       kbind (kseq [wake (Ch_nwrite p), release (L_pipe p)]) (\<lambda>_. kret (int i)))))"

end
