(* ===== verification/File.thy ===== *)
theory File
  imports Pipe
begin

text \<open>
  \<open>file.c\<close>: the table of open files, and \<open>pipealloc\<close> of \<open>pipe.c\<close>. Files are indices below
  \<open>NFILE\<close> of \<open>k_ftab\<close>.
\<close>

definition fil :: "kernel \<Rightarrow> nat \<Rightarrow> kfile" where
  "fil s f = k_ftab s ! f"

definition upd_file :: "nat \<Rightarrow> (kfile \<Rightarrow> kfile) \<Rightarrow> kernel \<Rightarrow> kernel" where
  "upd_file f g s = s\<lparr>k_ftab := (k_ftab s)[f := g (k_ftab s ! f)]\<rparr>"

section \<open>References\<close>

definition filealloc :: "nat option kmon" where
  "filealloc =
     kbind (acquire L_ftable) (\<lambda>_.
     kbind (kget (\<lambda>s. find (\<lambda>f. f_ref (fil s f) = 0) [0..<NFILE])) (\<lambda>found. case found of
       Some f \<Rightarrow> kbind (kseq [kupd (upd_file f (\<lambda>x. x\<lparr>f_ref := 1\<rparr>)), release L_ftable]) (\<lambda>_. kret (Some f))
     | None \<Rightarrow> kbind (release L_ftable) (\<lambda>_. kret None)))"

definition filedup :: "nat \<Rightarrow> nat kmon" where
  "filedup f = kbind (kseq [
     acquire L_ftable,
     kwhen (\<lambda>s. f_ref (fil s f) < 1) (kpanic ''filedup''),
     kupd (upd_file f (\<lambda>x. x\<lparr>f_ref := f_ref x + 1\<rparr>)),
     release L_ftable]) (\<lambda>_. kret f)"

definition fileclose :: "nat \<Rightarrow> unit kmon" where
  "fileclose f = kseq [
     acquire L_ftable,
     kwhen (\<lambda>s. f_ref (fil s f) < 1) (kpanic ''fileclose''),
     kupd (upd_file f (\<lambda>x. x\<lparr>f_ref := f_ref x - 1\<rparr>)),
     kif (\<lambda>s. 0 < f_ref (fil s f))
       (release L_ftable)
       (kbind (kget (\<lambda>s. fil s f)) (\<lambda>ff. kseq [
          kupd (upd_file f (\<lambda>x. x\<lparr>f_ref := 0\<rparr>)),
          kupd (upd_file f (\<lambda>x. x\<lparr>f_type := FD_NONE\<rparr>)),
          release L_ftable,
          (case f_type ff of
             FD_PIPE \<Rightarrow> pipeclose (f_pipe ff) (f_writable ff)
           | FD_INODE \<Rightarrow> kseq [begin_op, kbind (kopt (\<lambda>s. f_ip ff)) iput, end_op]
           | FD_NONE \<Rightarrow> kret ())]))]"

section \<open>Reading, writing, metadata\<close>

text \<open>The members of \<open>struct stat\<close> are stored at their offsets.\<close>

definition mem_put32 :: "u32 \<Rightarrow> u32 \<Rightarrow> unit kmon" where
  "mem_put32 a v = ustore32 a v"

definition mem_put16 :: "u32 \<Rightarrow> u16 \<Rightarrow> unit kmon" where
  "mem_put16 a v = kseq [store8 a (ucast v), store8 (a + 1) (ucast (drop_bit 8 v))]"

definition store_stat :: "u32 \<Rightarrow> stat \<Rightarrow> unit kmon" where
  "store_stat a st = kseq [
     mem_put32 (a + 4) (st_dev st),
     mem_put32 (a + 8) (st_ino st),
     mem_put16 a (st_type st),
     mem_put16 (a + 12) (st_nlink st),
     mem_put32 (a + 16) (st_size st)]"

definition filestat :: "nat \<Rightarrow> u32 \<Rightarrow> int kmon" where
  "filestat f st = kbind (kget (\<lambda>s. fil s f)) (\<lambda>x.
     if f_type x = FD_INODE then
       kbind (ilock (f_ip x)) (\<lambda>_.
       kbind (kopt (\<lambda>s. f_ip x)) (\<lambda>ip.
       kbind (stati ip) (\<lambda>v.
       kbind (kseq [store_stat st v, iunlock (f_ip x)]) (\<lambda>_. kret 0))))
     else kret (- 1))"

definition fileread :: "nat \<Rightarrow> u32 \<Rightarrow> nat \<Rightarrow> int kmon" where
  "fileread f addr n = kbind (kget (\<lambda>s. fil s f)) (\<lambda>x.
     if \<not> f_readable x then kret (- 1)
     else if f_type x = FD_PIPE then piperead (f_pipe x) addr n
     else if f_type x = FD_INODE then
       kbind (ilock (f_ip x)) (\<lambda>_.
       kbind (kopt (\<lambda>s. f_ip x)) (\<lambda>ip.
       kbind (kget (\<lambda>s. f_off (fil s f))) (\<lambda>off.
       kbind (readi ip (To_mem addr) off (of_nat n)) (\<lambda>r.
       kbind (kwhen (\<lambda>s. r \<noteq> None \<and> r \<noteq> Some [])
         (kupd (upd_file f (\<lambda>x. x\<lparr>f_off := f_off x + of_nat (length (the r))\<rparr>)))) (\<lambda>_.
       kbind (iunlock (f_ip x)) (\<lambda>_.
       kret (case r of None \<Rightarrow> - 1 | Some bs \<Rightarrow> int (length bs))))))))
     else kpanic ''fileread'')"

definition FILE_MAX :: nat where "FILE_MAX = ((MAXOPBLOCKS - 1 - 1 - 2) div 2) * 512"

text \<open>The loop of \<open>filewrite\<close>: one transaction per piece; \<open>n + 1\<close> iterations are enough.\<close>

fun filewrite_loop :: "nat \<Rightarrow> nat \<Rightarrow> kfile \<Rightarrow> u32 \<Rightarrow> nat \<Rightarrow> nat \<Rightarrow> int kmon" where
  "filewrite_loop 0 f x addr i n = (\<lambda>s. Spin)"
| "filewrite_loop (Suc k) f x addr i n =
     (if \<not> i < n then kret (if i = n then int n else - 1)
      else let n1 = min (n - i) FILE_MAX in
        kbind (kseq [begin_op, ilock (f_ip x)]) (\<lambda>_.
        kbind (kopt (\<lambda>s. f_ip x)) (\<lambda>ip.
        kbind (kget (\<lambda>s. f_off (fil s f))) (\<lambda>off.
        kbind (writei ip (From_mem (addr + of_nat i)) off (of_nat n1)) (\<lambda>r.
        kbind (kseq [
          kwhen (\<lambda>s. 0 < r) (kupd (upd_file f (\<lambda>x. x\<lparr>f_off := f_off x + word_of_int r\<rparr>))),
          iunlock (f_ip x),
          end_op]) (\<lambda>_.
        if r < 0 then kret (if i = n then int n else - 1)
        else if r \<noteq> int n1 then kpanic ''short filewrite''
        else filewrite_loop k f x addr (i + nat r) n))))))"

definition filewrite :: "nat \<Rightarrow> u32 \<Rightarrow> nat \<Rightarrow> int kmon" where
  "filewrite f addr n = kbind (kget (\<lambda>s. fil s f)) (\<lambda>x.
     if \<not> f_writable x then kret (- 1)
     else if f_type x = FD_PIPE then pipewrite (f_pipe x) addr n
     else if f_type x = FD_INODE then filewrite_loop (Suc n) f x addr 0 n
     else kpanic ''filewrite'')"

section \<open>Pipes\<close>

text \<open>
  \<open>pipealloc\<close>: the page of the pipe is not cleared, so the ring starts with the bytes of the
  page, which stand after the lock (52 bytes).
\<close>

definition SIZEOF_SPINLOCK :: u32 where "SIZEOF_SPINLOCK = 52"

definition pipe_init :: "u32 \<Rightarrow> unit kmon" where
  "pipe_init p = kupd (\<lambda>s. upd_pipe p (\<lambda>_. \<lparr>
     pi_data = map (\<lambda>i. k_mem s (p + SIZEOF_SPINLOCK + of_nat i)) [0..<unat PIPESIZE],
     pi_nread = 0, pi_nwrite = 0, pi_readopen = True, pi_writeopen = True\<rparr>) s)"

definition close_opt :: "nat option \<Rightarrow> unit kmon" where
  "close_opt f = (case f of None \<Rightarrow> kret () | Some f \<Rightarrow> fileclose f)"

definition pipealloc :: "(nat \<times> nat) option kmon" where
  "pipealloc =
     kbind filealloc (\<lambda>f0.
     kbind (case f0 of None \<Rightarrow> kret None | Some _ \<Rightarrow> filealloc) (\<lambda>f1. case (f0, f1) of
       (Some r, Some w) \<Rightarrow>
         kbind kalloc (\<lambda>p.
         if p = 0 then kbind (kseq [close_opt f0, close_opt f1]) (\<lambda>_. kret None)
         else kbind (kseq [
           pipe_init p,
           kupd (upd_file r (\<lambda>x. x\<lparr>f_type := FD_PIPE, f_readable := True, f_writable := False, f_pipe := p\<rparr>)),
           kupd (upd_file w (\<lambda>x. x\<lparr>f_type := FD_PIPE, f_readable := False, f_writable := True, f_pipe := p\<rparr>))]) (\<lambda>_.
         kret (Some (r, w))))
     | _ \<Rightarrow> kbind (kseq [close_opt f0, close_opt f1]) (\<lambda>_. kret None)))"

end
