(* ===== verification/Proc_Life.thy ===== *)
theory Proc_Life
  imports File
begin

unbundle bit_operations_syntax

text \<open>
  \<open>proc.c\<close>: the operations on processes that need the file system: the first process, \<open>fork\<close>,
  \<open>exit\<close>, \<open>growproc\<close>, and the first return of a process from the scheduler.
\<close>

section \<open>Trap frames\<close>

text \<open>Offsets in \<open>struct trapframe\<close> (x86.h).\<close>

definition TF_EAX :: u32 where "TF_EAX = 28"
definition TF_ES :: u32 where "TF_ES = 40"
definition TF_DS :: u32 where "TF_DS = 44"
definition TF_TRAPNO :: u32 where "TF_TRAPNO = 48"
definition TF_ERR :: u32 where "TF_ERR = 52"
definition TF_EIP :: u32 where "TF_EIP = 56"
definition TF_CS :: u32 where "TF_CS = 60"
definition TF_EFLAGS :: u32 where "TF_EFLAGS = 64"
definition TF_ESP :: u32 where "TF_ESP = 68"
definition TF_SS :: u32 where "TF_SS = 72"

definition tf_store :: "nat \<Rightarrow> u32 \<Rightarrow> u32 \<Rightarrow> unit kmon" where
  "tf_store p off v = kbind (kget (\<lambda>s. p_tf (pr s p))) (\<lambda>tf. mstore (tf + off) v)"

definition tf_load :: "nat \<Rightarrow> u32 \<Rightarrow> u32 kmon" where
  "tf_load p off = kbind (kget (\<lambda>s. p_tf (pr s p))) (\<lambda>tf. mload (tf + off))"

text \<open>\<open>tf->cs\<close> and the other segment registers are 16 bits wide.\<close>

definition tf_store16 :: "nat \<Rightarrow> u32 \<Rightarrow> u16 \<Rightarrow> unit kmon" where
  "tf_store16 p off v = kbind (kget (\<lambda>s. p_tf (pr s p))) (\<lambda>tf. mem_put16 (tf + off) v)"

section \<open>Names\<close>

text \<open>
  \<open>safestrcpy(name, s, n)\<close> on the \<open>n\<close> bytes of a process name: after a copied NUL the routine
  writes one more.
\<close>

definition safestrcpy_name :: "u8 list \<Rightarrow> u8 list \<Rightarrow> u8 list" where
  "safestrcpy_name src dst =
     (let s = takeWhile (\<lambda>c. c \<noteq> 0) src; n = length dst
      in if n = 0 then dst
         else put_range 0 (if length s < n - 1 then s @ [0, 0] else take (n - 1) s @ [0]) dst)"

definition set_name :: "nat \<Rightarrow> u8 list \<Rightarrow> unit kmon" where
  "set_name p src = kupd (upd_proc p (\<lambda>x. x\<lparr>p_name := safestrcpy_name src (p_name x)\<rparr>))"

definition if_levels :: "unit kmon \<Rightarrow> unit kmon" where
  "if_levels m = kwhen (\<lambda>s. k_cfg s = MLQ \<or> k_cfg s = DMLQ) m"

text \<open>The end of \<open>userinit\<close> and \<open>fork\<close>: the process becomes runnable.\<close>

definition publish :: "nat \<Rightarrow> unit kmon" where
  "publish p = kseq [
     acquire L_ptable,
     set_state p RUNNABLE,
     (\<lambda>s. enqueue_ready (k_cfg s) p s),
     release L_ptable]"

section \<open>The first process\<close>

definition SEG_UCODE :: u16 where "SEG_UCODE = 3"
definition SEG_UDATA :: u16 where "SEG_UDATA = 4"
definition DPL_USER :: u16 where "DPL_USER = 3"
definition FL_IF :: u32 where "FL_IF = 0x200"

text \<open>\<open>initcode\<close> and its size are linker symbols.\<close>

definition userinit :: "u32 \<Rightarrow> u32 \<Rightarrow> unit kmon" where
  "userinit initcode initcode_size =
     kbind allocproc (\<lambda>mp.
     kbind (kupd (\<lambda>s. s\<lparr>k_initproc := mp\<rparr>)) (\<lambda>_.
     kbind setupkvm (\<lambda>pgdir.
     kbind (kopt (\<lambda>s. mp)) (\<lambda>p. kseq [
       kupd (upd_proc p (\<lambda>x. x\<lparr>p_pgdir := pgdir\<rparr>)),
       kwhen (\<lambda>s. pgdir = 0) (kpanic ''userinit: out of memory?''),
       inituvm pgdir initcode initcode_size,
       kupd (upd_proc p (\<lambda>x. x\<lparr>p_sz := PGSIZE\<rparr>)),
       kbind (kget (\<lambda>s. p_tf (pr s p))) (\<lambda>tf. mmemset tf 0 SIZEOF_TRAPFRAME),
       tf_store16 p TF_CS (SEG_UCODE * 8 OR DPL_USER),
       tf_store16 p TF_DS (SEG_UDATA * 8 OR DPL_USER),
       tf_store16 p TF_ES (SEG_UDATA * 8 OR DPL_USER),
       tf_store16 p TF_SS (SEG_UDATA * 8 OR DPL_USER),
       tf_store p TF_EFLAGS FL_IF,
       tf_store p TF_ESP PGSIZE,
       tf_store p TF_EIP 0,
       set_name p (map ch ''initcode''),
       kbind (namei [SLASH]) (\<lambda>ip. kupd (upd_proc p (\<lambda>x. x\<lparr>p_cwd := ip\<rparr>))),
       if_levels (kupd (upd_proc p (\<lambda>x. x\<lparr>p_priority := MDPR\<rparr>))),
       publish p]))))"

section \<open>growproc\<close>

definition growproc :: "int \<Rightarrow> int kmon" where
  "growproc n =
     kbind curproc (\<lambda>cur.
     kbind (kget (\<lambda>s. (p_sz (pr s cur), p_pgdir (pr s cur)))) (\<lambda>(sz, pgdir).
     kbind (if 0 < n then allocuvm pgdir sz (sz + word_of_int n)
            else if n < 0 then deallocuvm pgdir sz (sz + word_of_int n)
            else kret sz) (\<lambda>sz'.
     if n \<noteq> 0 \<and> sz' = 0 then kret (- 1)
     else kbind (kseq [kupd (upd_proc cur (\<lambda>x. x\<lparr>p_sz := sz'\<rparr>)), switchuvm cur]) (\<lambda>_. kret 0))))"

section \<open>fork\<close>

definition dup_files :: "nat \<Rightarrow> nat \<Rightarrow> unit kmon" where
  "dup_files cur np = kfor [0..<NOFILE] (\<lambda>i.
     kbind (kget (\<lambda>s. p_ofile (pr s cur) ! i)) (\<lambda>f. case f of
       None \<Rightarrow> kret ()
     | Some f \<Rightarrow> kbind (filedup f) (\<lambda>f.
         kupd (upd_proc np (\<lambda>x. x\<lparr>p_ofile := (p_ofile x)[i := Some f]\<rparr>)))))"

definition fork :: "u32 kmon" where
  "fork =
     kbind curproc (\<lambda>cur.
     kbind allocproc (\<lambda>m. case m of
       None \<Rightarrow> kret (- 1)
     | Some np \<Rightarrow>
         kbind (kget (\<lambda>s. (p_pgdir (pr s cur), p_sz (pr s cur)))) (\<lambda>(pgdir, sz).
         kbind (copyuvm pgdir sz) (\<lambda>d.
         kbind (kupd (upd_proc np (\<lambda>x. x\<lparr>p_pgdir := d\<rparr>))) (\<lambda>_.
         if d = 0 then kbind (kseq [
             kbind (kget (\<lambda>s. p_kstack (pr s np))) kfree,
             kupd (upd_proc np (\<lambda>x. x\<lparr>p_kstack := 0\<rparr>)),
             set_state np UNUSED]) (\<lambda>_. kret (- 1))
         else kbind (kseq [
             kupd (\<lambda>s. upd_proc np (\<lambda>x. x\<lparr>p_sz := p_sz (pr s cur)\<rparr>) s),
             kupd (upd_proc np (\<lambda>x. x\<lparr>p_parent := Some cur\<rparr>)),
             if_levels (kupd (\<lambda>s. upd_proc np (\<lambda>x. x\<lparr>p_priority := p_priority (pr s cur)\<rparr>) s)),
             kbind (kget (\<lambda>s. (p_tf (pr s np), p_tf (pr s cur)))) (\<lambda>(d, a). mmemmove d a SIZEOF_TRAPFRAME),
             tf_store np TF_EAX 0,
             dup_files cur np,
             kbind (kbind (kopt (\<lambda>s. p_cwd (pr s cur))) idup) (\<lambda>ip.
               kupd (upd_proc np (\<lambda>x. x\<lparr>p_cwd := Some ip\<rparr>))),
             kbind (kget (\<lambda>s. p_name (pr s cur))) (set_name np)]) (\<lambda>_.
           kbind (kget (\<lambda>s. p_pid (pr s np))) (\<lambda>pid.
           kbind (publish np) (\<lambda>_. kret pid))))))))"

section \<open>exit\<close>

definition close_files :: "nat \<Rightarrow> unit kmon" where
  "close_files cur = kfor [0..<NOFILE] (\<lambda>fd.
     kbind (kget (\<lambda>s. p_ofile (pr s cur) ! fd)) (\<lambda>f. case f of
       None \<Rightarrow> kret ()
     | Some f \<Rightarrow> kseq [fileclose f, kupd (upd_proc cur (\<lambda>x. x\<lparr>p_ofile := (p_ofile x)[fd := None]\<rparr>))]))"

definition wakeup_parent :: "nat option \<Rightarrow> unit kmon" where
  "wakeup_parent p s = wakeup1 (k_cfg s) (map_option Ch_proc p) s"

text \<open>Children of the exiting process are passed to init.\<close>

definition reparent :: "nat \<Rightarrow> unit kmon" where
  "reparent cur = kfor [0..<NPROC] (\<lambda>p.
     kwhen (\<lambda>s. p_parent (pr s p) = Some cur) (kseq [
       kupd (\<lambda>s. upd_proc p (\<lambda>x. x\<lparr>p_parent := k_initproc s\<rparr>) s),
       kwhen (\<lambda>s. p_state (pr s p) = ZOMBIE) (\<lambda>s. wakeup_parent (k_initproc s) s)]))"

text \<open>\<open>exit\<close> does not return: the last step is a panic, which is reached only if the scheduler runs a zombie.\<close>

definition exit_proc :: "unit kmon" where
  "exit_proc = kbind curproc (\<lambda>cur. kseq [
     kwhen (\<lambda>s. Some cur = k_initproc s) (kpanic ''init exiting''),
     close_files cur,
     begin_op,
     kbind (kopt (\<lambda>s. p_cwd (pr s cur))) iput,
     end_op,
     kupd (upd_proc cur (\<lambda>x. x\<lparr>p_cwd := None\<rparr>)),
     acquire L_ptable,
     kbind (kget (\<lambda>s. p_parent (pr s cur))) wakeup_parent,
     reparent cur,
     set_state cur ZOMBIE,
     sched,
     kpanic ''zombie exit''])"

section \<open>forkret\<close>

text \<open>\<open>first\<close> is the static variable of that name.\<close>

definition forkret :: "bool \<Rightarrow> unit kmon" where
  "forkret first = kseq [
     release L_ptable,
     kwhen (\<lambda>s. first) (kseq [iinit ROOTDEV, initlog ROOTDEV])]"

end
