(* ===== verification/Exec.thy ===== *)
theory Exec
  imports Proc_Life
begin

unbundle bit_operations_syntax

text \<open>
  \<open>exec.c\<close>, with \<open>loaduvm\<close> of \<open>vm.c\<close>: a new user image from an ELF file. Strings of the caller
  are byte lists without their NUL.
\<close>

section \<open>ELF headers (elf.h)\<close>

definition ELF_MAGIC :: u32 where "ELF_MAGIC = 0x464C457F"
definition ELF_PROG_LOAD :: u32 where "ELF_PROG_LOAD = 1"
definition SIZEOF_ELFHDR :: u32 where "SIZEOF_ELFHDR = 52"
definition SIZEOF_PROGHDR :: u32 where "SIZEOF_PROGHDR = 32"
definition MAXARG :: nat where "MAXARG = 32"

record elfhdr =
  e_magic :: u32
  e_entry :: u32
  e_phoff :: u32
  e_phnum :: u16

definition decode_elf :: "u8 list \<Rightarrow> elfhdr" where
  "decode_elf bs = \<lparr>e_magic = get32 bs 0, e_entry = get32 bs 24, e_phoff = get32 bs 28, e_phnum = get16 bs 44\<rparr>"

record proghdr =
  ph_type :: u32
  ph_off :: u32
  ph_vaddr :: u32
  ph_filesz :: u32
  ph_memsz :: u32

definition decode_ph :: "u8 list \<Rightarrow> proghdr" where
  "decode_ph bs = \<lparr>ph_type = get32 bs 0, ph_off = get32 bs 4, ph_vaddr = get32 bs 8,
     ph_filesz = get32 bs 16, ph_memsz = get32 bs 20\<rparr>"

text \<open>A read that must give exactly \<open>n\<close> bytes.\<close>

definition read_exactly :: "nat \<Rightarrow> dest \<Rightarrow> u32 \<Rightarrow> u32 \<Rightarrow> u8 list option kmon" where
  "read_exactly ip dst off n = kbind (readi ip dst off n) (\<lambda>r.
     kret (case r of None \<Rightarrow> None | Some bs \<Rightarrow> if length bs = unat n then Some bs else None))"

section \<open>Loading the segments\<close>

fun loaduvm_loop :: "nat \<Rightarrow> u32 \<Rightarrow> u32 \<Rightarrow> nat \<Rightarrow> u32 \<Rightarrow> u32 \<Rightarrow> u32 \<Rightarrow> int kmon" where
  "loaduvm_loop 0 pgdir addr ip offset i sz = (\<lambda>s. Spin)"
| "loaduvm_loop (Suc k) pgdir addr ip offset i sz =
     (if \<not> i < sz then kret 0
      else kbind (walkpgdir pgdir (addr + i) False) (\<lambda>pte.
        if pte = 0 then kpanic ''loaduvm: address should exist''
        else kbind (mload pte) (\<lambda>e.
          let n = (if sz - i < PGSIZE then sz - i else PGSIZE)
          in kbind (read_exactly ip (To_mem (P2V (PTE_ADDR e))) (offset + i) n) (\<lambda>r.
             if r = None then kret (- 1)
             else loaduvm_loop k pgdir addr ip offset (i + PGSIZE) sz))))"

definition loaduvm :: "u32 \<Rightarrow> u32 \<Rightarrow> nat \<Rightarrow> u32 \<Rightarrow> u32 \<Rightarrow> int kmon" where
  "loaduvm pgdir addr ip offset sz =
     kbind (kwhen (\<lambda>s. addr mod PGSIZE \<noteq> 0) (kpanic ''loaduvm: addr must be page aligned'')) (\<lambda>_.
     loaduvm_loop VM_FUEL pgdir addr ip offset 0 sz)"

text \<open>The checks on a program header before and after the memory is allocated.\<close>

definition ph_sane :: "proghdr \<Rightarrow> bool" where
  "ph_sane ph \<longleftrightarrow> \<not> ph_memsz ph < ph_filesz ph \<and> \<not> ph_vaddr ph + ph_memsz ph < ph_vaddr ph"

fun load_segments :: "nat \<Rightarrow> nat \<Rightarrow> u32 \<Rightarrow> u32 \<Rightarrow> u32 \<Rightarrow> u32 option kmon" where
  "load_segments 0 ip pgdir off sz = kret (Some sz)"
| "load_segments (Suc n) ip pgdir off sz =
     kbind (read_exactly ip To_local off SIZEOF_PROGHDR) (\<lambda>r. case r of
       None \<Rightarrow> kret None
     | Some bs \<Rightarrow>
         let ph = decode_ph bs
         in if ph_type ph \<noteq> ELF_PROG_LOAD then load_segments n ip pgdir (off + SIZEOF_PROGHDR) sz
            else if \<not> ph_sane ph then kret None
            else kbind (allocuvm pgdir sz (ph_vaddr ph + ph_memsz ph)) (\<lambda>sz.
              if sz = 0 \<or> ph_vaddr ph mod PGSIZE \<noteq> 0 then kret None
              else kbind (loaduvm pgdir (ph_vaddr ph) ip (ph_off ph) (ph_filesz ph)) (\<lambda>r.
                if r < 0 then kret None
                else load_segments n ip pgdir (off + SIZEOF_PROGHDR) sz)))"

section \<open>The stack of the new program\<close>

definition word_bytes :: "u32 \<Rightarrow> u8 list" where
  "word_bytes w = [ucast w, ucast (drop_bit 8 w), ucast (drop_bit 16 w), ucast (drop_bit 24 w)]"

text \<open>The strings are pushed first to last; the result is their addresses and the stack pointer.\<close>

fun push_args :: "u8 list list \<Rightarrow> nat \<Rightarrow> u32 \<Rightarrow> u32 \<Rightarrow> u32 list \<Rightarrow> (u32 list \<times> u32) option kmon" where
  "push_args [] argc pgdir sp addrs = kret (Some (addrs, sp))"
| "push_args (s # ss) argc pgdir sp addrs =
     (if MAXARG \<le> argc then kret None
      else let len = of_nat (length s) + 1; sp = (sp - len) AND NOT 3
        in kbind (copyout pgdir sp (From_local (s @ [0])) len) (\<lambda>r.
          if r < 0 then kret None
          else push_args ss (Suc argc) pgdir sp (addrs @ [sp])))"

definition ustack :: "u32 list \<Rightarrow> u32 \<Rightarrow> u32 list" where
  "ustack addrs sp = [0xffffffff, of_nat (length addrs), sp - (of_nat (length addrs) + 1) * 4] @ addrs @ [0]"

definition build_stack :: "u8 list list \<Rightarrow> u32 \<Rightarrow> u32 \<Rightarrow> u32 option kmon" where
  "build_stack argv pgdir sz =
     kbind (push_args argv 0 pgdir sz []) (\<lambda>r. case r of
       None \<Rightarrow> kret None
     | Some (addrs, sp) \<Rightarrow>
         let us = ustack addrs sp; sp = sp - of_nat (4 * length us)
         in kbind (copyout pgdir sp (From_local (concat (map word_bytes us))) (of_nat (4 * length us))) (\<lambda>r.
           kret (if r < 0 then None else Some sp)))"

text \<open>The part of the path after the last slash.\<close>

definition base_name :: "u8 list \<Rightarrow> u8 list" where
  "base_name path = rev (takeWhile (\<lambda>c. c \<noteq> SLASH) (rev path))"

section \<open>exec\<close>

text \<open>The label \<open>bad\<close>: the page directory, if there is one, and the inode, if it is still locked.\<close>

definition exec_bad :: "u32 \<Rightarrow> nat option \<Rightarrow> int kmon" where
  "exec_bad pgdir ip = kbind (kseq [
     kwhen (\<lambda>s. pgdir \<noteq> 0) (freevm pgdir),
     (case ip of None \<Rightarrow> kret () | Some ip \<Rightarrow> kseq [iunlockput ip, end_op])]) (\<lambda>_. kret (- 1))"

definition exec_commit :: "u8 list \<Rightarrow> u32 \<Rightarrow> u32 \<Rightarrow> u32 \<Rightarrow> u32 \<Rightarrow> int kmon" where
  "exec_commit path pgdir sz entry sp =
     kbind curproc (\<lambda>cur.
     kbind (kseq [
       set_name cur (base_name path),
       kwhen (\<lambda>s. k_cfg s = DMLQ) (kupd (upd_proc cur (\<lambda>x. x\<lparr>p_priority := MDPR\<rparr>)))]) (\<lambda>_.
     kbind (kget (\<lambda>s. p_pgdir (pr s cur))) (\<lambda>oldpgdir.
     kbind (kseq [
       kupd (upd_proc cur (\<lambda>x. x\<lparr>p_pgdir := pgdir\<rparr>)),
       kupd (upd_proc cur (\<lambda>x. x\<lparr>p_sz := sz\<rparr>)),
       tf_store cur TF_EIP entry,
       tf_store cur TF_ESP sp,
       switchuvm cur,
       freevm oldpgdir]) (\<lambda>_. kret 0))))"

definition exec_stack :: "u8 list \<Rightarrow> u8 list list \<Rightarrow> u32 \<Rightarrow> u32 \<Rightarrow> u32 \<Rightarrow> int kmon" where
  "exec_stack path argv pgdir entry sz =
     (let sz = PGROUNDUP sz
      in kbind (allocuvm pgdir sz (sz + 2 * PGSIZE)) (\<lambda>sz.
         if sz = 0 then exec_bad pgdir None
         else kbind (clearpteu pgdir (sz - 2 * PGSIZE)) (\<lambda>_.
         kbind (build_stack argv pgdir sz) (\<lambda>r. case r of
           None \<Rightarrow> exec_bad pgdir None
         | Some sp \<Rightarrow> exec_commit path pgdir sz entry sp))))"

definition exec :: "u8 list \<Rightarrow> u8 list list \<Rightarrow> int kmon" where
  "exec path argv =
     kbind begin_op (\<lambda>_.
     kbind (namei path) (\<lambda>m. case m of
       None \<Rightarrow> kbind (kseq [end_op, cprintf (map ch ''exec: fail'' @ [10]) []]) (\<lambda>_. kret (- 1))
     | Some ip \<Rightarrow>
         kbind (ilock (Some ip)) (\<lambda>_.
         kbind (read_exactly ip To_local 0 SIZEOF_ELFHDR) (\<lambda>r. case r of
           None \<Rightarrow> exec_bad 0 (Some ip)
         | Some bs \<Rightarrow>
             let elf = decode_elf bs
             in if e_magic elf \<noteq> ELF_MAGIC then exec_bad 0 (Some ip)
                else kbind setupkvm (\<lambda>pgdir.
                  if pgdir = 0 then exec_bad 0 (Some ip)
                  else kbind (load_segments (unat (e_phnum elf)) ip pgdir (e_phoff elf) 0) (\<lambda>r. case r of
                    None \<Rightarrow> exec_bad pgdir (Some ip)
                  | Some sz \<Rightarrow> kbind (kseq [iunlockput ip, end_op]) (\<lambda>_.
                      exec_stack path argv pgdir (e_entry elf) sz)))))))"

end
