(* ===== verification/Sysargs.thy ===== *)
theory Sysargs
  imports Exec
begin

text \<open>
  The arguments of system calls (\<open>syscall.c\<close>): the user stack holds them, above the return
  address. \<open>None\<close> is the result -1; a string is the list of its bytes.
\<close>

definition fetchint :: "u32 \<Rightarrow> u32 option kmon" where
  "fetchint addr =
     kbind curproc (\<lambda>cur.
     kif (\<lambda>s. p_sz (pr s cur) \<le> addr \<or> p_sz (pr s cur) < addr + 4) (kret None)
       (kbind (uload32 addr) (\<lambda>v. kret (Some v))))"

fun fetchstr_loop :: "nat \<Rightarrow> u32 \<Rightarrow> u8 list \<Rightarrow> u8 list option kmon" where
  "fetchstr_loop 0 s got = kret None"
| "fetchstr_loop (Suc n) s got = kbind (load8 s) (\<lambda>c.
     if c = 0 then kret (Some got) else fetchstr_loop n (s + 1) (got @ [c]))"

definition fetchstr :: "u32 \<Rightarrow> u8 list option kmon" where
  "fetchstr addr =
     kbind curproc (\<lambda>cur.
     kbind (kget (\<lambda>s. p_sz (pr s cur))) (\<lambda>sz.
     if sz \<le> addr then kret None else fetchstr_loop (unat (sz - addr)) addr []))"

definition argint :: "nat \<Rightarrow> u32 option kmon" where
  "argint n = kbind curproc (\<lambda>cur. kbind (tf_load cur TF_ESP) (\<lambda>esp. fetchint (esp + 4 + 4 * of_nat n)))"

text \<open>Continue with a value, or return -1.\<close>

definition ok_or :: "'b \<Rightarrow> 'a option kmon \<Rightarrow> ('a \<Rightarrow> 'b kmon) \<Rightarrow> 'b kmon" where
  "ok_or e m f = kbind m (\<lambda>r. case r of None \<Rightarrow> kret e | Some x \<Rightarrow> f x)"

definition argptr :: "nat \<Rightarrow> int \<Rightarrow> u32 option kmon" where
  "argptr n len =
     kbind curproc (\<lambda>cur.
     ok_or None (argint n) (\<lambda>i.
     kif (\<lambda>s. len < 0 \<or> p_sz (pr s cur) \<le> i \<or> p_sz (pr s cur) < i + word_of_int len) (kret None)
       (kret (Some i))))"

definition argstr :: "nat \<Rightarrow> u8 list option kmon" where
  "argstr n = ok_or None (argint n) fetchstr"

end
