(* ===== verification/Sysfile.thy ===== *)
theory Sysfile
  imports Sysargs
begin

unbundle bit_operations_syntax

text \<open>\<open>sysfile.c\<close>: the system calls on files. The result is the value for \<open>%eax\<close>.\<close>

section \<open>File descriptors\<close>

definition argfd :: "nat \<Rightarrow> (nat \<times> nat) option kmon" where
  "argfd n = ok_or None (argint n) (\<lambda>fd.
     if sint fd < 0 \<or> int NOFILE \<le> sint fd then kret None
     else kbind curproc (\<lambda>cur. kbind (kget (\<lambda>s. p_ofile (pr s cur) ! unat fd)) (\<lambda>f.
       kret (case f of None \<Rightarrow> None | Some f \<Rightarrow> Some (unat fd, f)))))"

definition set_ofile :: "nat \<Rightarrow> nat \<Rightarrow> nat option \<Rightarrow> unit kmon" where
  "set_ofile p fd f = kupd (upd_proc p (\<lambda>x. x\<lparr>p_ofile := (p_ofile x)[fd := f]\<rparr>))"

definition fdalloc :: "nat \<Rightarrow> nat option kmon" where
  "fdalloc f = kbind curproc (\<lambda>cur.
     kbind (kget (\<lambda>s. find (\<lambda>fd. p_ofile (pr s cur) ! fd = None) [0..<NOFILE])) (\<lambda>r. case r of
       None \<Rightarrow> kret None
     | Some fd \<Rightarrow> kbind (set_ofile cur fd (Some f)) (\<lambda>_. kret (Some fd))))"

definition sys_dup :: "int kmon" where
  "sys_dup = ok_or (- 1) (argfd 0) (\<lambda>(_, f).
     ok_or (- 1) (fdalloc f) (\<lambda>fd. kbind (filedup f) (\<lambda>_. kret (int fd))))"

definition sys_read :: "int kmon" where
  "sys_read = ok_or (- 1) (argfd 0) (\<lambda>(_, f). ok_or (- 1) (argint 2) (\<lambda>n.
     ok_or (- 1) (argptr 1 (sint n)) (\<lambda>p. fileread f p (nat (sint n)))))"

definition sys_write :: "int kmon" where
  "sys_write = ok_or (- 1) (argfd 0) (\<lambda>(_, f). ok_or (- 1) (argint 2) (\<lambda>n.
     ok_or (- 1) (argptr 1 (sint n)) (\<lambda>p. filewrite f p (nat (sint n)))))"

definition sys_close :: "int kmon" where
  "sys_close = ok_or (- 1) (argfd 0) (\<lambda>(fd, f). kbind (kseq [
     kbind curproc (\<lambda>cur. set_ofile cur fd None),
     fileclose f]) (\<lambda>_. kret 0))"

definition sys_fstat :: "int kmon" where
  "sys_fstat = ok_or (- 1) (argfd 0) (\<lambda>(_, f). ok_or (- 1) (argptr 1 20) (\<lambda>st. filestat f st))"

section \<open>Links\<close>

definition add_nlink :: "nat \<Rightarrow> u16 \<Rightarrow> unit kmon" where
  "add_nlink i d = kupd (upd_ino i (\<lambda>x. x\<lparr>i_nlink := i_nlink x + d\<rparr>))"

text \<open>The end of a call that fails in a transaction.\<close>

definition fail_op :: "int kmon" where
  "fail_op = kbind end_op (\<lambda>_. kret (- 1))"

definition link_bad :: "nat \<Rightarrow> int kmon" where
  "link_bad ip = kbind (kseq [ilock (Some ip), add_nlink ip (- 1), iupdate ip, iunlockput ip]) (\<lambda>_. fail_op)"

text \<open>The second half of \<open>sys_link\<close>: the entry in the parent directory of the new name.\<close>

definition link_entry :: "nat \<Rightarrow> u8 list \<Rightarrow> int kmon" where
  "link_entry ip new = kbind (nameiparent new) (\<lambda>r. case r of
     None \<Rightarrow> link_bad ip
   | Some (dp, name) \<Rightarrow>
       kbind (ilock (Some dp)) (\<lambda>_.
       kbind (kget (\<lambda>s. (i_dev (ino s dp), i_dev (ino s ip), i_inum (ino s ip)))) (\<lambda>(d1, d2, inum).
       kbind (if d1 \<noteq> d2 then kret (- 1) else dirlink dp name inum) (\<lambda>r.
       kbind (iunlockput dp) (\<lambda>_.
       if r < 0 then link_bad ip
       else kbind (kseq [iput ip, end_op]) (\<lambda>_. kret 0))))))"

definition sys_link :: "int kmon" where
  "sys_link = ok_or (- 1) (argstr 0) (\<lambda>old. ok_or (- 1) (argstr 1) (\<lambda>new.
     kbind begin_op (\<lambda>_.
     kbind (namei old) (\<lambda>m. case m of
       None \<Rightarrow> fail_op
     | Some ip \<Rightarrow>
         kbind (ilock (Some ip)) (\<lambda>_.
         kif (\<lambda>s. i_type (ino s ip) = T_DIR)
           (kbind (iunlockput ip) (\<lambda>_. fail_op))
           (kbind (kseq [add_nlink ip 1, iupdate ip, iunlock (Some ip)]) (\<lambda>_. link_entry ip new)))))))"

text \<open>\<open>isdirempty\<close>: the entries after the first two.\<close>

definition isdirempty :: "nat \<Rightarrow> bool kmon" where
  "isdirempty dp =
     kbind (kget (dirent_offsets dp)) (\<lambda>offs.
     kbind (kfind (drop 2 offs) (\<lambda>off.
       kbind (read_dirent ''isdirempty: readi'' dp off) (\<lambda>de.
       kret (if de_inum de \<noteq> 0 then Some () else None)))) (\<lambda>found. kret (found = None)))"

definition unlink_bad :: "nat \<Rightarrow> int kmon" where
  "unlink_bad dp = kbind (iunlockput dp) (\<lambda>_. fail_op)"

definition unlink_entry :: "nat \<Rightarrow> nat \<Rightarrow> u32 \<Rightarrow> int kmon" where
  "unlink_entry dp ip off =
     kbind (writei dp (From_local (replicate 16 0)) off SIZEOF_DIRENT) (\<lambda>r.
     kbind (kseq [
       kwhen (\<lambda>s. r \<noteq> uint SIZEOF_DIRENT) (kpanic ''unlink: writei''),
       kwhen (\<lambda>s. i_type (ino s ip) = T_DIR) (kseq [add_nlink dp (- 1), iupdate dp]),
       iunlockput dp,
       add_nlink ip (- 1),
       iupdate ip,
       iunlockput ip,
       end_op]) (\<lambda>_. kret 0))"

definition sys_unlink :: "int kmon" where
  "sys_unlink = ok_or (- 1) (argstr 0) (\<lambda>path.
     kbind begin_op (\<lambda>_.
     kbind (nameiparent path) (\<lambda>m. case m of
       None \<Rightarrow> fail_op
     | Some (dp, name) \<Rightarrow>
         kbind (ilock (Some dp)) (\<lambda>_.
         if namecmp name (map ch ''.'') = 0 \<or> namecmp name (map ch ''..'') = 0 then unlink_bad dp
         else kbind (dirlookup dp name) (\<lambda>r. case r of
           None \<Rightarrow> unlink_bad dp
         | Some (ip, off) \<Rightarrow>
             kbind (ilock (Some ip)) (\<lambda>_.
             kbind (kwhen (\<lambda>s. sint (i_nlink (ino s ip)) < 1) (kpanic ''unlink: nlink < 1'')) (\<lambda>_.
             kbind (kif (\<lambda>s. i_type (ino s ip) = T_DIR) (isdirempty ip) (kret True)) (\<lambda>empty.
             if \<not> empty then kbind (iunlockput ip) (\<lambda>_. unlink_bad dp)
             else unlink_entry dp ip off))))))))"

section \<open>Creation\<close>

text \<open>\<open>create\<close> returns the inode locked.\<close>

definition create_new :: "nat \<Rightarrow> u8 list \<Rightarrow> u16 \<Rightarrow> u16 \<Rightarrow> u16 \<Rightarrow> nat kmon" where
  "create_new dp name type major minor =
     kbind (inode_dev dp) (\<lambda>dev.
     kbind (ialloc dev type) (\<lambda>ip.
     kbind (kseq [
       ilock (Some ip),
       kupd (upd_ino ip (\<lambda>x. x\<lparr>i_major := major, i_minor := minor, i_nlink := 1\<rparr>)),
       iupdate ip,
       kwhen (\<lambda>s. type = T_DIR) (kseq [
         add_nlink dp 1,
         iupdate dp,
         kbind (kget (\<lambda>s. (i_inum (ino s ip), i_inum (ino s dp)))) (\<lambda>(inum, dnum).
         kbind (dirlink ip (map ch ''.'') inum) (\<lambda>r1.
         kbind (if r1 < 0 then kret (- 1) else dirlink ip (map ch ''..'') dnum) (\<lambda>r2.
         kwhen (\<lambda>s. r2 < 0) (kpanic ''create dots''))))]),
       kbind (kget (\<lambda>s. i_inum (ino s ip))) (\<lambda>inum.
       kbind (dirlink dp name inum) (\<lambda>r. kwhen (\<lambda>s. r < 0) (kpanic ''create: dirlink''))),
       iunlockput dp]) (\<lambda>_. kret ip)))"

definition create :: "u8 list \<Rightarrow> u16 \<Rightarrow> u16 \<Rightarrow> u16 \<Rightarrow> nat option kmon" where
  "create path type major minor =
     kbind (nameiparent path) (\<lambda>m. case m of
       None \<Rightarrow> kret None
     | Some (dp, name) \<Rightarrow>
         kbind (ilock (Some dp)) (\<lambda>_.
         kbind (dirlookup dp name) (\<lambda>r. case r of
           Some (ip, _) \<Rightarrow>
             kbind (kseq [iunlockput dp, ilock (Some ip)]) (\<lambda>_.
             kif (\<lambda>s. type = T_FILE \<and> i_type (ino s ip) = T_FILE) (kret (Some ip))
               (kbind (iunlockput ip) (\<lambda>_. kret None)))
         | None \<Rightarrow> kbind (create_new dp name type major minor) (\<lambda>ip. kret (Some ip)))))"

definition O_RDONLY :: u32 where "O_RDONLY = 0x000"
definition O_WRONLY :: u32 where "O_WRONLY = 0x001"
definition O_RDWR :: u32 where "O_RDWR = 0x002"
definition O_CREATE :: u32 where "O_CREATE = 0x200"

text \<open>The first half of \<open>sys_open\<close>: the inode, locked.\<close>

definition open_inode :: "u8 list \<Rightarrow> u32 \<Rightarrow> nat option kmon" where
  "open_inode path omode =
     (if omode AND O_CREATE \<noteq> 0 then create path T_FILE 0 0
      else kbind (namei path) (\<lambda>m. case m of
        None \<Rightarrow> kret None
      | Some ip \<Rightarrow>
          kbind (ilock (Some ip)) (\<lambda>_.
          kif (\<lambda>s. i_type (ino s ip) = T_DIR \<and> omode \<noteq> O_RDONLY)
            (kbind (iunlockput ip) (\<lambda>_. kret None))
            (kret (Some ip)))))"

definition sys_open :: "int kmon" where
  "sys_open = ok_or (- 1) (argstr 0) (\<lambda>path. ok_or (- 1) (argint 1) (\<lambda>omode.
     kbind begin_op (\<lambda>_.
     kbind (open_inode path omode) (\<lambda>m. case m of
       None \<Rightarrow> fail_op
     | Some ip \<Rightarrow>
         kbind filealloc (\<lambda>mf.
         kbind (case mf of None \<Rightarrow> kret None | Some f \<Rightarrow> fdalloc f) (\<lambda>mfd. case (mf, mfd) of
           (Some f, Some fd) \<Rightarrow>
             kbind (kseq [
               iunlock (Some ip),
               end_op,
               kupd (upd_file f (\<lambda>x. x\<lparr>f_type := FD_INODE, f_ip := Some ip, f_off := 0,
                 f_readable := (omode AND O_WRONLY = 0),
                 f_writable := (omode AND O_WRONLY \<noteq> 0 \<or> omode AND O_RDWR \<noteq> 0)\<rparr>))]) (\<lambda>_.
             kret (int fd))
         | _ \<Rightarrow> kbind (kseq [close_opt mf, iunlockput ip]) (\<lambda>_. fail_op)))))))"

definition sys_mkdir :: "int kmon" where
  "sys_mkdir = kbind begin_op (\<lambda>_.
     kbind (ok_or None (argstr 0) (\<lambda>path. create path T_DIR 0 0)) (\<lambda>m. case m of
       None \<Rightarrow> fail_op
     | Some ip \<Rightarrow> kbind (kseq [iunlockput ip, end_op]) (\<lambda>_. kret 0)))"

definition sys_mknod :: "int kmon" where
  "sys_mknod = kbind begin_op (\<lambda>_.
     kbind (ok_or None (argstr 0) (\<lambda>path. ok_or None (argint 1) (\<lambda>major. ok_or None (argint 2) (\<lambda>minor.
       create path T_DEV (ucast major) (ucast minor))))) (\<lambda>m. case m of
       None \<Rightarrow> fail_op
     | Some ip \<Rightarrow> kbind (kseq [iunlockput ip, end_op]) (\<lambda>_. kret 0)))"

definition sys_chdir :: "int kmon" where
  "sys_chdir = kbind curproc (\<lambda>cur. kbind begin_op (\<lambda>_.
     kbind (ok_or None (argstr 0) namei) (\<lambda>m. case m of
       None \<Rightarrow> fail_op
     | Some ip \<Rightarrow>
         kbind (ilock (Some ip)) (\<lambda>_.
         kif (\<lambda>s. i_type (ino s ip) \<noteq> T_DIR)
           (kbind (iunlockput ip) (\<lambda>_. fail_op))
           (kbind (kseq [
              iunlock (Some ip),
              kbind (kopt (\<lambda>s. p_cwd (pr s cur))) iput,
              end_op,
              kupd (upd_proc cur (\<lambda>x. x\<lparr>p_cwd := Some ip\<rparr>))]) (\<lambda>_. kret 0))))))"

section \<open>exec and pipe\<close>

text \<open>The argument vector: at most \<open>MAXARG\<close> entries, the last of them null.\<close>

fun fetch_argv :: "nat \<Rightarrow> u32 \<Rightarrow> u8 list list \<Rightarrow> u8 list list option kmon" where
  "fetch_argv 0 uargv got = kret None"
| "fetch_argv (Suc n) uargv got = ok_or None (fetchint uargv) (\<lambda>uarg.
     if uarg = 0 then kret (Some got)
     else ok_or None (fetchstr uarg) (\<lambda>s. fetch_argv n (uargv + 4) (got @ [s])))"

definition sys_exec :: "int kmon" where
  "sys_exec = ok_or (- 1) (argstr 0) (\<lambda>path. ok_or (- 1) (argint 1) (\<lambda>uargv.
     ok_or (- 1) (fetch_argv MAXARG uargv []) (\<lambda>argv. exec path argv)))"

definition sys_pipe :: "int kmon" where
  "sys_pipe = ok_or (- 1) (argptr 0 8) (\<lambda>fd.
     ok_or (- 1) pipealloc (\<lambda>(rf, wf).
     kbind (fdalloc rf) (\<lambda>m0.
     kbind (case m0 of None \<Rightarrow> kret None | Some _ \<Rightarrow> fdalloc wf) (\<lambda>m1. case (m0, m1) of
       (Some fd0, Some fd1) \<Rightarrow>
         kbind (kseq [ustore32 fd (of_nat fd0), ustore32 (fd + 4) (of_nat fd1)]) (\<lambda>_. kret 0)
     | _ \<Rightarrow> kbind (kseq [
           (case m0 of None \<Rightarrow> kret () | Some fd0 \<Rightarrow> kbind curproc (\<lambda>cur. set_ofile cur fd0 None)),
           fileclose rf,
           fileclose wf]) (\<lambda>_. kret (- 1))))))"

end
