(* ===== verification/Syscall.thy ===== *)
theory Syscall
  imports Sysfile
begin

text \<open>\<open>sysproc.c\<close> and \<open>syscall.c\<close>: the system calls on processes, and the table of all calls.\<close>

section \<open>Calls on processes\<close>

definition sys_fork :: "int kmon" where
  "sys_fork = kbind fork (\<lambda>pid. kret (sint pid))"

definition sys_exit :: "int kmon" where
  "sys_exit = kbind exit_proc (\<lambda>_. kret 0)"

definition sys_wait :: "int kmon" where
  "sys_wait = kbind (\<lambda>s. wait (k_patience s) s) (\<lambda>pid. kret (sint pid))"

definition sys_kill :: "int kmon" where
  "sys_kill = ok_or (- 1) (argint 0) (\<lambda>pid s. kill (k_cfg s) pid s)"

definition sys_getpid :: "int kmon" where
  "sys_getpid = kbind my_pid (\<lambda>pid. kret (sint pid))"

definition sys_sbrk :: "int kmon" where
  "sys_sbrk = ok_or (- 1) (argint 0) (\<lambda>n.
     kbind (kbind curproc (\<lambda>cur. kget (\<lambda>s. p_sz (pr s cur)))) (\<lambda>addr.
     kbind (growproc (sint n)) (\<lambda>r. kret (if r < 0 then - 1 else sint addr))))"

text \<open>
  The loop of \<open>sys_sleep\<close>; \<open>ticks - ticks0 < n\<close> compares unsigned numbers. \<open>False\<close> when the
  process is killed.
\<close>

fun sleep_ticks :: "nat \<Rightarrow> u32 \<Rightarrow> u32 \<Rightarrow> bool kmon" where
  "sleep_ticks 0 ticks0 n = kif (\<lambda>s. k_ticks s - ticks0 < n) (\<lambda>s. Spin) (kret True)"
| "sleep_ticks (Suc k) ticks0 n =
     kif (\<lambda>s. k_ticks s - ticks0 < n)
       (kbind my_killed (\<lambda>killed.
        if killed then kret False
        else kbind (sleep Ch_ticks (Some L_tickslock)) (\<lambda>_. sleep_ticks k ticks0 n)))
       (kret True)"

definition sys_sleep :: "int kmon" where
  "sys_sleep = ok_or (- 1) (argint 0) (\<lambda>n.
     kbind (acquire L_tickslock) (\<lambda>_.
     kbind (kget k_ticks) (\<lambda>ticks0.
     kbind (\<lambda>s. sleep_ticks (k_patience s) ticks0 n s) (\<lambda>go.
     kbind (release L_tickslock) (\<lambda>_. kret (if go then 0 else - 1))))))"

definition sys_uptime :: "int kmon" where
  "sys_uptime =
     kbind (acquire L_tickslock) (\<lambda>_.
     kbind (kget k_ticks) (\<lambda>xticks.
     kbind (release L_tickslock) (\<lambda>_. kret (sint xticks))))"

definition sys_ps :: "int kmon" where
  "sys_ps = kbind ps (\<lambda>_. kret 0)"

definition sys_memtop :: "int kmon" where
  "sys_memtop = kbind kmemtop (\<lambda>n. kret (sint n))"

definition sys_csinfo :: "int kmon" where
  "sys_csinfo = kbind curproc (\<lambda>cur. kget (\<lambda>s. sint (p_switchnum (pr s cur))))"

definition sys_chpr :: "int kmon" where
  "sys_chpr = ok_or (- 1) (argint 0) (\<lambda>pid. ok_or (- 1) (argint 1) (\<lambda>priority.
     kbind (\<lambda>s. chpr (k_cfg s) pid (sint priority) s) (\<lambda>_. kret 0)))"

definition sys_waitnstats :: "int kmon" where
  "sys_waitnstats = ok_or (- 1) (argptr 0 4) (\<lambda>timerun. ok_or (- 1) (argptr 1 4) (\<lambda>timeready.
     ok_or (- 1) (argptr 2 4) (\<lambda>timeslept.
     kbind (\<lambda>s. waitnstats (k_patience s) timerun timeready timeslept s) (\<lambda>pid. kret (sint pid)))))"

definition sys_yield :: "int kmon" where
  "sys_yield = kbind (\<lambda>s. yield (k_cfg s) s) (\<lambda>_. kret 0)"

section \<open>The table\<close>

definition syscalls :: "int kmon list" where
  "syscalls = [sys_fork, sys_exit, sys_wait, sys_pipe, sys_read, sys_kill, sys_exec, sys_fstat,
     sys_chdir, sys_dup, sys_getpid, sys_sbrk, sys_sleep, sys_uptime, sys_open, sys_write,
     sys_mknod, sys_unlink, sys_link, sys_mkdir, sys_close, sys_ps, sys_memtop, sys_csinfo,
     sys_chpr, sys_waitnstats, sys_yield]"

text \<open>Call number \<open>n\<close> is entry \<open>n - 1\<close> of the list; the C array has an empty entry 0.\<close>

definition syscall :: "unit kmon" where
  "syscall = kbind curproc (\<lambda>cur.
     kbind (tf_load cur TF_EAX) (\<lambda>num.
     if 0 < sint num \<and> sint num \<le> int (length syscalls) then
       kbind (syscalls ! nat (sint num - 1)) (\<lambda>r. tf_store cur TF_EAX (word_of_int r))
     else kbind (kget (\<lambda>s. pr s cur)) (\<lambda>x. kseq [
       cprintf (map ch ''%d %s: unknown sys call %d'' @ [10])
         [Int_arg (p_pid x), Str_arg (Some (proc_name x)), Int_arg num],
       tf_store cur TF_EAX (- 1)])))"

end
