(* ===== verification/Trap.thy ===== *)
theory Trap
  imports Syscall
begin

unbundle bit_operations_syntax

text \<open>
  \<open>trap.c\<close>: the handler of system calls, interrupts and exceptions, with the time slices of
  the schedulers. The devices are an argument: the characters the keyboard and the serial port
  deliver, and the register \<open>%cr2\<close>.
\<close>

definition T_IRQ0 :: u32 where "T_IRQ0 = 32"
definition IRQ_TIMER :: u32 where "IRQ_TIMER = 0"
definition IRQ_KBD :: u32 where "IRQ_KBD = 1"
definition IRQ_COM1 :: u32 where "IRQ_COM1 = 4"
definition IRQ_IDE :: u32 where "IRQ_IDE = 14"
definition IRQ_SPURIOUS :: u32 where "IRQ_SPURIOUS = 31"
definition T_SYSCALL :: u32 where "T_SYSCALL = 64"
definition QUANTA :: u32 where "QUANTA = 5"

record hw =
  hw_kbd :: "int list"
  hw_uart :: "int list"
  hw_cr2 :: u32

text \<open>The privilege level in the saved \<open>%cs\<close>.\<close>

definition from_user :: "u32 \<Rightarrow> bool" where
  "from_user cs \<longleftrightarrow> cs AND 3 = ucast DPL_USER"

section \<open>The timer\<close>

definition timer_tick :: "unit kmon" where
  "timer_tick = kwhen (\<lambda>s. k_me s = 0) (kseq [
     acquire L_tickslock,
     kupd (\<lambda>s. s\<lparr>k_ticks := k_ticks s + 1\<rparr>),
     updateprocesstimes,
     wake Ch_ticks,
     release L_tickslock])"

text \<open>\<open>ideintr\<close> of \<open>memide.c\<close> does nothing.\<close>

definition ideintr :: "unit kmon" where
  "ideintr = kret ()"

definition kbdintr :: "int list \<Rightarrow> unit kmon" where
  "kbdintr cs = consoleintr cs"

definition uartintr :: "int list \<Rightarrow> unit kmon" where
  "uartintr cs = consoleintr cs"

section \<open>Time slices\<close>

definition exit_if_killed :: "u32 \<Rightarrow> unit kmon" where
  "exit_if_killed cs = kwhen (\<lambda>s. case myproc s of None \<Rightarrow> False
     | Some p \<Rightarrow> p_killed (pr s p) \<and> from_user cs) exit_proc"

text \<open>
  The process runs its \<open>QUANTA\<close> ticks and gives up the CPU; under \<open>DMLQ\<close> its priority drops by
  one level first. Under \<open>FCFS\<close> there is no preemption.
\<close>

definition slice_over :: "u32 \<Rightarrow> kernel \<Rightarrow> bool" where
  "slice_over trapno s \<longleftrightarrow> (case myproc s of None \<Rightarrow> False | Some p \<Rightarrow>
     p_state (pr s p) = RUNNING \<and> trapno = T_IRQ0 + IRQ_TIMER \<and>
     p_timescheduled (pr s p) + QUANTA \<le> k_ticks s)"

definition demote :: "unit kmon" where
  "demote = kbind curproc (\<lambda>p. kwhen (\<lambda>s. p_priority (pr s p) < LWPR)
     (kupd (upd_proc p (\<lambda>x. x\<lparr>p_priority := p_priority x + 1\<rparr>))))"

definition time_slice :: "u32 \<Rightarrow> u32 \<Rightarrow> unit kmon" where
  "time_slice trapno cs s = (case k_cfg s of
     FCFS \<Rightarrow> kret ()
   | DMLQ \<Rightarrow> kseq [
       kwhen (slice_over trapno) (kseq [demote, yield DMLQ]),
       exit_if_killed cs]
   | cfg \<Rightarrow> kseq [
       kwhen (slice_over trapno) (yield cfg),
       exit_if_killed cs]) s"

section \<open>The handler\<close>

definition exit_killed_syscall :: "unit kmon" where
  "exit_killed_syscall = kbind my_killed (\<lambda>killed. kwhen (\<lambda>s. killed) exit_proc)"

definition cpuid :: "kernel \<Rightarrow> u32" where
  "cpuid s = of_nat (k_me s)"

definition bad_trap :: "hw \<Rightarrow> u32 \<Rightarrow> u32 \<Rightarrow> u32 \<Rightarrow> u32 \<Rightarrow> unit kmon" where
  "bad_trap h trapno err eip cs =
     kif (\<lambda>s. myproc s = None \<or> cs AND 3 = 0)
       (kbind (kget cpuid) (\<lambda>id. kseq [
          cprintf (map ch ''unexpected trap %d from cpu %d eip %x (cr2=0x%x)'' @ [10])
            [Int_arg trapno, Int_arg id, Int_arg eip, Int_arg (hw_cr2 h)],
          kpanic ''trap'']))
       (kbind curproc (\<lambda>p.
        kbind (kget (\<lambda>s. pr s p)) (\<lambda>x.
        kbind (kget cpuid) (\<lambda>id. kseq [
          cprintf (map ch ''pid %d %s: trap %d err %d on cpu %d eip 0x%x addr 0x%x--kill proc'' @ [10])
            [Int_arg (p_pid x), Str_arg (Some (proc_name x)), Int_arg trapno, Int_arg err, Int_arg id,
             Int_arg eip, Int_arg (hw_cr2 h)],
          kupd (upd_proc p (\<lambda>x. x\<lparr>p_killed := True\<rparr>))]))))"

definition interrupt :: "hw \<Rightarrow> u32 \<Rightarrow> u32 \<Rightarrow> u32 \<Rightarrow> u32 \<Rightarrow> unit kmon" where
  "interrupt h trapno err eip cs =
     (if trapno = T_IRQ0 + IRQ_TIMER then timer_tick
      else if trapno = T_IRQ0 + IRQ_IDE then ideintr
      else if trapno = T_IRQ0 + IRQ_IDE + 1 then kret ()
      else if trapno = T_IRQ0 + IRQ_KBD then kbdintr (hw_kbd h)
      else if trapno = T_IRQ0 + IRQ_COM1 then uartintr (hw_uart h)
      else if trapno = T_IRQ0 + 7 \<or> trapno = T_IRQ0 + IRQ_SPURIOUS then
        kbind (kget cpuid) (\<lambda>id.
          cprintf (map ch ''cpu%d: spurious interrupt at %x:%x'' @ [10]) [Int_arg id, Int_arg cs, Int_arg eip])
      else bad_trap h trapno err eip cs)"

text \<open>\<open>tf\<close> is the address of the trap frame.\<close>

definition trap :: "hw \<Rightarrow> u32 \<Rightarrow> unit kmon" where
  "trap h tf =
     kbind (mload (tf + TF_TRAPNO)) (\<lambda>trapno.
     if trapno = T_SYSCALL then kseq [
       exit_killed_syscall,
       kbind curproc (\<lambda>p. kupd (upd_proc p (\<lambda>x. x\<lparr>p_tf := tf\<rparr>))),
       syscall,
       exit_killed_syscall]
     else
       kbind (mload (tf + TF_ERR)) (\<lambda>err.
       kbind (mload (tf + TF_EIP)) (\<lambda>eip.
       kbind (mload (tf + TF_CS)) (\<lambda>cs0. let cs = cs0 AND 0xFFFF in kseq [
         interrupt h trapno err eip cs,
         exit_if_killed cs,
         time_slice trapno cs]))))"

end
