(* ===== verification/Kbd.thy ===== *)
theory Kbd
  imports Format
begin

unbundle bit_operations_syntax

text \<open>
  \<open>kbd.c\<close> with the tables of \<open>kbd.h\<close>: from scan codes to characters. The static variable
  \<open>shift\<close> is threaded through; the two ports are arguments.
\<close>

section \<open>Constants and tables\<close>

definition NO :: u8 where "NO = 0"
definition SHIFT :: u32 where "SHIFT = 1"
definition CTL :: u32 where "CTL = 2"
definition ALT :: u32 where "ALT = 4"
definition CAPSLOCK :: u32 where "CAPSLOCK = 8"
definition NUMLOCK :: u32 where "NUMLOCK = 16"
definition SCROLLLOCK :: u32 where "SCROLLLOCK = 32"
definition E0ESC :: u32 where "E0ESC = 64"
definition KBS_DIB :: u32 where "KBS_DIB = 1"

definition KEY_HOME :: u8 where "KEY_HOME = 0xE0"
definition KEY_END :: u8 where "KEY_END = 0xE1"
definition KEY_UP :: u8 where "KEY_UP = 0xE2"
definition KEY_DN :: u8 where "KEY_DN = 0xE3"
definition KEY_LF :: u8 where "KEY_LF = 0xE4"
definition KEY_RT :: u8 where "KEY_RT = 0xE5"
definition KEY_PGUP :: u8 where "KEY_PGUP = 0xE6"
definition KEY_PGDN :: u8 where "KEY_PGDN = 0xE7"
definition KEY_INS :: u8 where "KEY_INS = 0xE8"
definition KEY_DEL :: u8 where "KEY_DEL = 0xE9"

text \<open>A table of 256 entries: the first ones in a row, the others by index, the rest 0.\<close>

fun table :: "'a list \<Rightarrow> (nat \<times> 'a) list \<Rightarrow> 'a \<Rightarrow> nat \<Rightarrow> 'a" where
  "table row rest z i = (if i < length row then row ! i
     else case map_of rest i of Some c \<Rightarrow> c | None \<Rightarrow> z)"

definition shiftcode :: "nat \<Rightarrow> u32" where
  "shiftcode = table [] [(0x1D, CTL), (0x2A, SHIFT), (0x36, SHIFT), (0x38, ALT), (0x9D, CTL), (0xB8, ALT)] 0"

definition togglecode :: "nat \<Rightarrow> u32" where
  "togglecode = table [] [(0x3A, CAPSLOCK), (0x45, NUMLOCK), (0x46, SCROLLLOCK)] 0"

definition keypad :: "u8 \<Rightarrow> u8 \<Rightarrow> (nat \<times> u8) list" where
  "keypad enter slash = [(0x9C, enter), (0xB5, slash),
     (0xC8, KEY_UP), (0xD0, KEY_DN), (0xC9, KEY_PGUP), (0xD1, KEY_PGDN), (0xCB, KEY_LF), (0xCD, KEY_RT),
     (0x97, KEY_HOME), (0xCF, KEY_END), (0xD2, KEY_INS), (0xD3, KEY_DEL)]"

definition numpad :: "u8 list" where
  "numpad = replicate 7 NO @ map ch ''789-456+1230.'' @ replicate 4 NO"

definition normalmap :: "nat \<Rightarrow> u8" where
  "normalmap = table
     ([NO, 0x1B] @ map ch ''1234567890-='' @ [8, 9] @ map ch ''qwertyuiop[]'' @ [10, NO] @
      map ch ''asdfghjkl;'' @ [0x27, 0x60, NO, 0x5C] @ map ch ''zxcvbnm,./'' @ [NO] @ map ch ''*'' @
      [NO] @ map ch '' '' @ replicate 6 NO @ numpad)
     (keypad 10 (ch (CHR ''/''))) NO"

definition shiftmap :: "nat \<Rightarrow> u8" where
  "shiftmap = table
     ([NO, 27] @ map ch ''!@#$%^&*()_+'' @ [8, 9] @ map ch ''QWERTYUIOP{}'' @ [10, NO] @
      map ch ''ASDFGHJKL:'' @ [0x22] @ map ch ''~'' @ [NO] @ map ch ''|ZXCVBNM<>?'' @ [NO] @ map ch ''*'' @
      [NO] @ map ch '' '' @ replicate 6 NO @ numpad)
     (keypad 10 (ch (CHR ''/''))) NO"

text \<open>\<open>C(x)\<close>, Control-x.\<close>

definition C_key :: "u8 \<Rightarrow> u8" where
  "C_key x = x - ch (CHR ''@'')"

definition ctlmap :: "nat \<Rightarrow> u8" where
  "ctlmap = table
     (replicate 16 NO @ map (C_key \<circ> ch) ''QWERTYUIOP'' @ [NO, NO, 13, NO] @
      map (C_key \<circ> ch) ''ASDFGHJKL'' @ replicate 4 NO @ [C_key 0x5C] @ map (C_key \<circ> ch) ''ZXCVBNM'' @
      [NO, NO, C_key (ch (CHR ''/'')), NO, NO])
     (keypad 13 (C_key (ch (CHR ''/'')))) NO"

definition charcode :: "u32 \<Rightarrow> nat \<Rightarrow> u8" where
  "charcode i = [normalmap, shiftmap, ctlmap, ctlmap] ! unat i"

section \<open>kbdgetc\<close>

definition lower :: "u32 \<Rightarrow> bool" where
  "lower c \<longleftrightarrow> ucast (ch (CHR ''a'')) \<le> c \<and> c \<le> ucast (ch (CHR ''z''))"

definition upper :: "u32 \<Rightarrow> bool" where
  "upper c \<longleftrightarrow> ucast (ch (CHR ''A'')) \<le> c \<and> c \<le> ucast (ch (CHR ''Z''))"

definition swap_case :: "u32 \<Rightarrow> u32" where
  "swap_case c = (if lower c then c + (ucast (ch (CHR ''A'')) - ucast (ch (CHR ''a'')))
     else if upper c then c + (ucast (ch (CHR ''a'')) - ucast (ch (CHR ''A'')))
     else c)"

text \<open>The character and the new modifiers, for a status and a data byte.\<close>

definition kbdgetc :: "u8 \<Rightarrow> u8 \<Rightarrow> u32 \<Rightarrow> int \<times> u32" where
  "kbdgetc status byte shift =
     (let st = ucast status :: u32; data = ucast byte :: u32
      in if st AND KBS_DIB = 0 then (- 1, shift)
         else if data = 0xE0 then (0, shift OR E0ESC)
         else if data AND 0x80 \<noteq> 0 then
           let data = (if shift AND E0ESC \<noteq> 0 then data else data AND 0x7F)
           in (0, shift AND NOT (shiftcode (unat data) OR E0ESC))
         else
           let esc = (shift AND E0ESC \<noteq> 0);
               data = (if esc then data OR 0x80 else data);
               shift = (if esc then shift AND NOT E0ESC else shift);
               shift = (shift OR shiftcode (unat data)) XOR togglecode (unat data);
               c = ucast (charcode (shift AND (CTL OR SHIFT)) (unat data)) :: u32
           in (sint (if shift AND CAPSLOCK \<noteq> 0 then swap_case c else c), shift))"

text \<open>The characters of a sequence of scan codes.\<close>

fun kbd_run :: "u8 list \<Rightarrow> u32 \<Rightarrow> int list \<times> u32" where
  "kbd_run [] shift = ([], shift)"
| "kbd_run (b # bs) shift =
     (let (c, s1) = kbdgetc 1 b shift; (cs, s2) = kbd_run bs s1 in (c # cs, s2))"

end
