(* ===== verification/Grep.thy ===== *)
theory Grep
  imports Format
begin

text \<open>
  \<open>grep.c\<close>: the regular expression matcher and the loop over the input. C strings are byte
  lists without the NUL. The matcher is shown to decide the language its patterns denote.
\<close>

section \<open>The matcher\<close>

definition STAR :: u8 where "STAR = ch (CHR ''*'')"
definition DOT :: u8 where "DOT = ch (CHR ''.'')"
definition DOLLAR :: u8 where "DOLLAR = ch (CHR ''$'')"
definition CARET :: u8 where "CARET = ch (CHR ''^'')"
definition NEWLINE :: u8 where "NEWLINE = 10"

definition fits :: "u8 \<Rightarrow> u8 \<Rightarrow> bool" where
  "fits c d \<longleftrightarrow> d = c \<or> c = DOT"

function matchhere :: "u8 list \<Rightarrow> u8 list \<Rightarrow> bool"
  and matchstar :: "u8 \<Rightarrow> u8 list \<Rightarrow> u8 list \<Rightarrow> bool" where
  "matchhere re str =
     (if re = [] then True
      else if 2 \<le> length re \<and> re ! 1 = STAR then matchstar (hd re) (drop 2 re) str
      else if re = [DOLLAR] then str = []
      else if str \<noteq> [] \<and> fits (hd re) (hd str) then matchhere (tl re) (tl str)
      else False)"
| "matchstar c re str =
     (if matchhere re str then True
      else if str \<noteq> [] \<and> fits c (hd str) then matchstar c re (tl str)
      else False)"
  by pat_completeness auto
termination
  by (relation "measures [\<lambda>x. case x of Inl (re, t) \<Rightarrow> length re | Inr (c, re, t) \<Rightarrow> length re,
      \<lambda>x. case x of Inl (re, t) \<Rightarrow> length t | Inr (c, re, t) \<Rightarrow> length t,
      \<lambda>x. case x of Inl _ \<Rightarrow> 0 | Inr _ \<Rightarrow> 1]") auto

declare matchhere.simps [simp del] matchstar.simps [simp del]

fun match_from :: "u8 list \<Rightarrow> u8 list \<Rightarrow> bool" where
  "match_from re [] = matchhere re []"
| "match_from re (c # str) = (matchhere re (c # str) \<or> match_from re str)"

definition match :: "u8 list \<Rightarrow> u8 list \<Rightarrow> bool" where
  "match re str = (if re \<noteq> [] \<and> hd re = CARET then matchhere (tl re) str else match_from re str)"

section \<open>The language of a pattern\<close>

text \<open>
  A pattern is a sequence of items: one character, any number of one character, the end of the
  text. \<open>denotes\<close> is the set of texts a sequence of items stands for, with what may follow.
\<close>

datatype item = One u8 | Many u8 | End_of_text

fun items :: "u8 list \<Rightarrow> item list" where
  "items [] = []"
| "items [c] = [if c = DOLLAR then End_of_text else One c]"
| "items (c # d # re) = (if d = STAR then Many c # items re else One c # items (d # re))"

fun denotes :: "item list \<Rightarrow> u8 list \<Rightarrow> u8 list \<Rightarrow> bool" where
  "denotes [] w rest \<longleftrightarrow> w = []"
| "denotes (One c # is) w rest \<longleftrightarrow> (\<exists>d v. w = d # v \<and> fits c d \<and> denotes is v rest)"
| "denotes (Many c # is) w rest \<longleftrightarrow> (\<exists>u v. w = u @ v \<and> (\<forall>d \<in> set u. fits c d) \<and> denotes is v rest)"
| "denotes (End_of_text # is) w rest \<longleftrightarrow> w = [] \<and> rest = [] \<and> denotes is w rest"

text \<open>A prefix of the text is in the language.\<close>

definition starts_with :: "u8 list \<Rightarrow> u8 list \<Rightarrow> bool" where
  "starts_with re str \<longleftrightarrow> (\<exists>w rest. str = w @ rest \<and> denotes (items re) w rest)"

lemma starts_nil: "starts_with [] str"
  by (simp add: starts_with_def)

lemma starts_end: "starts_with [DOLLAR] str \<longleftrightarrow> str = []"
  by (auto simp: starts_with_def)

lemma items_one: "\<not> (2 \<le> length re \<and> re ! 1 = STAR) \<Longrightarrow> re \<noteq> [DOLLAR] \<Longrightarrow> re \<noteq> [] \<Longrightarrow>
    items re = One (hd re) # items (tl re)"
  by (cases re rule: items.cases) auto

lemma items_many: "2 \<le> length re \<Longrightarrow> re ! 1 = STAR \<Longrightarrow> items re = Many (hd re) # items (drop 2 re)"
  by (cases re rule: items.cases) auto

lemma starts_one:
  assumes "items re = One c # items re'"
  shows "starts_with re str \<longleftrightarrow> str \<noteq> [] \<and> fits c (hd str) \<and> starts_with re' (tl str)"
proof
  assume "starts_with re str"
  then obtain w rest d v where "str = w @ rest" "w = d # v" "fits c d" "denotes (items re') v rest"
    by (auto simp: starts_with_def assms)
  then show "str \<noteq> [] \<and> fits c (hd str) \<and> starts_with re' (tl str)"
    by (auto simp: starts_with_def)
next
  assume a: "str \<noteq> [] \<and> fits c (hd str) \<and> starts_with re' (tl str)"
  then obtain w rest where w: "tl str = w @ rest" "denotes (items re') w rest"
    by (auto simp: starts_with_def)
  then have "str = (hd str # w) @ rest" using a by (cases str) auto
  moreover have "denotes (items re) (hd str # w) rest" using a w(2) by (simp add: assms)
  ultimately show "starts_with re str" unfolding starts_with_def by blast
qed

text \<open>\<open>c*\<close> before a pattern: the pattern matches here, or a further \<open>c\<close> is skipped.\<close>

definition starts_many :: "u8 \<Rightarrow> u8 list \<Rightarrow> u8 list \<Rightarrow> bool" where
  "starts_many c re str \<longleftrightarrow> (\<exists>u v. str = u @ v \<and> (\<forall>d \<in> set u. fits c d) \<and> starts_with re v)"

lemma starts_many_step:
  "starts_many c re str \<longleftrightarrow>
     starts_with re str \<or> (str \<noteq> [] \<and> fits c (hd str) \<and> starts_many c re (tl str))"
proof
  assume "starts_many c re str"
  then obtain u v where u: "str = u @ v" "\<forall>d \<in> set u. fits c d" "starts_with re v"
    by (auto simp: starts_many_def)
  show "starts_with re str \<or> (str \<noteq> [] \<and> fits c (hd str) \<and> starts_many c re (tl str))"
  proof (cases u)
    case Nil then show ?thesis using u by simp
  next
    case (Cons d u')
    then have "tl str = u' @ v" "\<forall>d \<in> set u'. fits c d" using u by auto
    then have "starts_many c re (tl str)" using u(3) unfolding starts_many_def by blast
    then show ?thesis using Cons u by simp
  qed
next
  assume "starts_with re str \<or> (str \<noteq> [] \<and> fits c (hd str) \<and> starts_many c re (tl str))"
  then show "starts_many c re str"
  proof
    assume "starts_with re str"
    then show ?thesis unfolding starts_many_def by (metis append_Nil empty_iff list.set(1))
  next
    assume a: "str \<noteq> [] \<and> fits c (hd str) \<and> starts_many c re (tl str)"
    then obtain u v where "tl str = u @ v" "\<forall>d \<in> set u. fits c d" "starts_with re v"
      by (auto simp: starts_many_def)
    then have "str = (hd str # u) @ v" "\<forall>d \<in> set (hd str # u). fits c d" using a by (cases str; auto)+
    then show ?thesis using \<open>starts_with re v\<close> unfolding starts_many_def by blast
  qed
qed

lemma starts_star:
  assumes "items re = Many c # items re'"
  shows "starts_with re str \<longleftrightarrow> starts_many c re' str"
proof
  assume "starts_with re str"
  then obtain u v rest where "str = (u @ v) @ rest" "\<forall>d \<in> set u. fits c d" "denotes (items re') v rest"
    by (auto simp: starts_with_def assms)
  then have "str = u @ (v @ rest)" "starts_with re' (v @ rest)" by (auto simp: starts_with_def)
  then show "starts_many c re' str" using \<open>\<forall>d \<in> set u. fits c d\<close> unfolding starts_many_def by blast
next
  assume "starts_many c re' str"
  then obtain u v rest where "str = u @ v @ rest" "\<forall>d \<in> set u. fits c d" "denotes (items re') v rest"
    by (auto simp: starts_many_def starts_with_def)
  then have "str = (u @ v) @ rest" "denotes (items re) (u @ v) rest" by (auto simp: assms)
  then show "starts_with re str" unfolding starts_with_def by blast
qed

lemma match_here_star:
  "matchhere re str \<longleftrightarrow> starts_with re str" "matchstar c re str \<longleftrightarrow> starts_many c re str"
proof (induction re str and c re str rule: matchhere_matchstar.induct)
  case (1 re str)
  consider "re = []" | "2 \<le> length re \<and> re ! 1 = STAR" | "re = [DOLLAR]"
    | "re \<noteq> []" "\<not> (2 \<le> length re \<and> re ! 1 = STAR)" "re \<noteq> [DOLLAR]" by blast
  then show ?case
  proof cases
    case 1 then show ?thesis by (simp add: matchhere.simps starts_nil)
  next
    case 2
    then have "re \<noteq> []" by auto
    with 2 have "matchhere re str \<longleftrightarrow> starts_many (hd re) (drop 2 re) str"
      using "1.IH"(1) by (simp add: matchhere.simps[of re str])
    also have "\<dots> \<longleftrightarrow> starts_with re str" using starts_star[OF items_many] 2 by blast
    finally show ?thesis .
  next
    case 3 then show ?thesis by (simp add: matchhere.simps starts_end)
  next
    case 4
    then have "matchhere re str \<longleftrightarrow> str \<noteq> [] \<and> fits (hd re) (hd str) \<and> starts_with (tl re) (tl str)"
      using "1.IH"(2) by (auto simp: matchhere.simps[of re str])
    also have "\<dots> \<longleftrightarrow> starts_with re str" using starts_one[OF items_one] 4 by blast
    finally show ?thesis .
  qed
next
  case (2 c re str)
  then show ?case by (subst starts_many_step) (auto simp: matchstar.simps[of c re str])
qed

text \<open>A text contains the pattern: from its start after \<open>^\<close>, anywhere else.\<close>

definition contains :: "u8 list \<Rightarrow> u8 list \<Rightarrow> bool" where
  "contains re str \<longleftrightarrow>
     (if re \<noteq> [] \<and> hd re = CARET then starts_with (tl re) str
      else \<exists>before after. str = before @ after \<and> starts_with re after)"

lemma match_from_iff: "match_from re str \<longleftrightarrow> (\<exists>before after. str = before @ after \<and> starts_with re after)"
proof (induction str)
  case Nil then show ?case by (simp add: match_here_star)
next
  case (Cons c str)
  have "(\<exists>before after. c # str = before @ after \<and> starts_with re after) \<longleftrightarrow>
      starts_with re (c # str) \<or> (\<exists>before after. str = before @ after \<and> starts_with re after)"
    by (metis append_Cons append_Nil neq_Nil_conv list.sel(3))
  then show ?case using Cons by (simp add: match_here_star)
qed

text \<open>
  C27. The matcher of \<open>grep\<close> decides the language of its pattern: \<open>match re str\<close> holds exactly
  when some part of the text (a prefix, if the pattern starts with \<open>^\<close>) is a word of the
  pattern read as single characters, \<open>.\<close>, \<open>c*\<close> and a final \<open>$\<close>.
\<close>

theorem match_iff_contains: "match re str = contains re str"
  by (simp add: match_def contains_def match_here_star match_from_iff)

section \<open>The loop over the input\<close>

text \<open>
  \<open>strchr\<close> on a C string. The buffer holds \<open>m\<close> bytes and a NUL; a NUL among them ends the
  string earlier.
\<close>

definition split_line :: "u8 list \<Rightarrow> (u8 list \<times> u8 list) option" where
  "split_line p =
     (let s = takeWhile (\<lambda>c. c \<noteq> 0) p; line = takeWhile (\<lambda>c. c \<noteq> NEWLINE) s
      in if length line < length s then Some (line, drop (length line + 1) p) else None)"

lemma split_line_shorter: "split_line p = Some (line, rest) \<Longrightarrow> length rest < length p"
proof -
  assume a: "split_line p = Some (line, rest)"
  have "length (takeWhile (\<lambda>c. c \<noteq> 0) p) \<le> length p" by (rule length_takeWhile_le)
  then show ?thesis using a by (auto simp: split_line_def Let_def split: if_splits)
qed

text \<open>The inner loop: the lines written, and the bytes from \<open>p\<close> on.\<close>

function grep_lines :: "u8 list \<Rightarrow> u8 list \<Rightarrow> u8 list \<times> u8 list" where
  "grep_lines pattern p = (case split_line p of
     None \<Rightarrow> ([], p)
   | Some (line, rest) \<Rightarrow>
       let (out, left) = grep_lines pattern rest
       in ((if match pattern line then line @ [NEWLINE] else []) @ out, left))"
  by auto
termination by (relation "measure (length \<circ> snd)") (auto dest: split_line_shorter)

declare grep_lines.simps [simp del]

text \<open>
  \<open>grep\<close>: \<open>reads\<close> are the results of the calls of \<open>read\<close>, of which the first that is empty, or
  that finds the buffer full, ends the loop; \<open>kept\<close> is \<open>buf[0..m)\<close>.
\<close>

definition BUF_SIZE :: nat where "BUF_SIZE = 1024"

fun grep :: "u8 list \<Rightarrow> u8 list list \<Rightarrow> u8 list \<Rightarrow> u8 list" where
  "grep pattern [] kept = []"
| "grep pattern (r # rs) kept =
     (let got = take (BUF_SIZE - length kept - 1) r
      in if got = [] then []
         else let b = kept @ got; (out, left) = grep_lines pattern b
           in out @ grep pattern rs (if length left = length b then [] else left))"

lemmas grep_eval = matchhere.simps matchstar.simps fits_def ch_def
  STAR_def DOT_def DOLLAR_def CARET_def NEWLINE_def

section \<open>Which lines it finds\<close>

text \<open>The lines of a text, each without its newline; an unfinished last line is left out.\<close>

fun lines_of :: "u8 list \<Rightarrow> u8 list \<Rightarrow> u8 list list" where
  "lines_of cur [] = []"
| "lines_of cur (c # p) = (if c = NEWLINE then cur # lines_of [] p else lines_of (cur @ [c]) p)"

definition matching_lines :: "u8 list \<Rightarrow> u8 list \<Rightarrow> u8 list" where
  "matching_lines pattern p =
     concat (map (\<lambda>l. l @ [NEWLINE]) (filter (match pattern) (lines_of [] p)))"

text \<open>Reads of whole lines: text without NUL that ends in a newline and fits the buffer.\<close>

definition whole_lines :: "u8 list \<Rightarrow> bool" where
  "whole_lines r \<longleftrightarrow> r \<noteq> [] \<and> 0 \<notin> set r \<and> last r = NEWLINE \<and> length r < BUF_SIZE"

lemma lines_of_first: "NEWLINE \<notin> set line \<Longrightarrow> lines_of cur (line @ NEWLINE # rest) = (cur @ line) # lines_of [] rest"
  by (induction line arbitrary: cur) auto

lemma lines_of_append: "lines_of cur (a @ NEWLINE # b) = lines_of cur (a @ [NEWLINE]) @ lines_of [] b"
  by (induction a arbitrary: cur) auto

lemma lines_of_none: "NEWLINE \<notin> set p \<Longrightarrow> lines_of cur p = []"
  by (induction p arbitrary: cur) auto

lemma split_line_Some:
  assumes "split_line p = Some (line, rest)"
  shows "p = line @ NEWLINE # rest" "NEWLINE \<notin> set line"
proof -
  define s where "s = takeWhile (\<lambda>c. c \<noteq> 0) p"
  define l where "l = takeWhile (\<lambda>c. c \<noteq> NEWLINE) s"
  from assms have l: "line = l" "rest = drop (length l + 1) p" "length l < length s"
    by (auto simp: split_line_def s_def l_def Let_def split: if_splits)
  have lt: "l = take (length l) s" unfolding l_def by (rule takeWhile_eq_take)
  have st: "s = take (length s) p" unfolding s_def by (rule takeWhile_eq_take)
  have len: "length s \<le> length p" by (simp add: s_def length_takeWhile_le)
  have "s ! length l = NEWLINE" using l(3) unfolding l_def by (meson nth_length_takeWhile)
  then have nl: "p ! length l = NEWLINE" using l(3) st by (metis nth_take)
  have "take (length l) p = l" using lt st l(3) by (metis min.absorb1 nat_less_le take_take)
  moreover have "p = take (length l) p @ p ! length l # drop (Suc (length l)) p"
    using l(3) len by (intro id_take_nth_drop) simp
  ultimately show "p = line @ NEWLINE # rest" using l nl by simp
  show "NEWLINE \<notin> set line" unfolding l(1) l_def by (auto dest: set_takeWhileD)
qed

lemma split_line_None: "0 \<notin> set p \<Longrightarrow> split_line p = None \<Longrightarrow> NEWLINE \<notin> set p"
proof
  assume z: "0 \<notin> set p" and n: "split_line p = None" and m: "NEWLINE \<in> set p"
  have "takeWhile (\<lambda>c. c \<noteq> 0) p = p" using z by (auto simp: takeWhile_eq_all_conv)
  with n have "length p \<le> length (takeWhile (\<lambda>c. c \<noteq> NEWLINE) p)"
    by (simp add: split_line_def Let_def split: if_splits)
  then have "takeWhile (\<lambda>c. c \<noteq> NEWLINE) p = p"
    using length_takeWhile_le[of "\<lambda>c. c \<noteq> NEWLINE" p] by (metis le_antisym takeWhile_eq_take take_all_iff)
  then show False using m by (auto simp: takeWhile_eq_all_conv)
qed

lemma grep_lines_whole:
  assumes "0 \<notin> set p" "p = [] \<or> last p = NEWLINE"
  shows "grep_lines pattern p = (matching_lines pattern p, [])"
  using assms
proof (induction pattern p rule: grep_lines.induct)
  case (1 pattern p)
  show ?case
  proof (cases "split_line p")
    case None
    then have "p = []" using split_line_None[OF "1.prems"(1)] "1.prems"(2) last_in_set by fastforce
    then show ?thesis using None by (simp add: grep_lines.simps[of pattern "[]"] matching_lines_def)
  next
    case (Some lr)
    obtain line rest where lr: "lr = (line, rest)" by (cases lr)
    note sp = split_line_Some[OF Some[unfolded lr]]
    have rest: "0 \<notin> set rest" "rest = [] \<or> last rest = NEWLINE"
      using "1.prems" sp(1) by (cases rest; auto)+
    have "matching_lines pattern p = (if match pattern line then line @ [NEWLINE] else []) @ matching_lines pattern rest"
      unfolding sp(1) using lines_of_first[OF sp(2), of "[]" rest] by (simp add: matching_lines_def)
    then show ?thesis using "1.IH"[OF Some[unfolded lr] refl rest] Some lr
      by (simp add: grep_lines.simps[of pattern p])
  qed
qed

lemma matching_lines_append:
  assumes "last a = NEWLINE" "a \<noteq> []"
  shows "matching_lines pattern (a @ b) = matching_lines pattern a @ matching_lines pattern b"
proof -
  have "a = butlast a @ [NEWLINE]" using assms by (metis append_butlast_last_id)
  then have "lines_of [] (a @ b) = lines_of [] a @ lines_of [] b"
    using lines_of_append[of "[]" "butlast a" b] by (metis append.assoc append_Cons append_Nil)
  then show ?thesis by (simp add: matching_lines_def)
qed

text \<open>
  C38. When every read returns whole lines, \<open>grep\<close> writes exactly the lines of the input that
  match its pattern, in their order.
\<close>

theorem grep_finds_lines:
  assumes "\<forall>r \<in> set rs. whole_lines r"
  shows "grep pattern rs [] = matching_lines pattern (concat rs)"
  using assms
proof (induction rs)
  case Nil then show ?case by (simp add: matching_lines_def)
next
  case (Cons r rs)
  then have r: "r \<noteq> []" "0 \<notin> set r" "last r = NEWLINE" "length r < BUF_SIZE" by (auto simp: whole_lines_def)
  have "grep_lines pattern r = (matching_lines pattern r, [])" using r by (intro grep_lines_whole) auto
  then show ?case using r Cons by (simp add: Let_def matching_lines_append)
qed

lemma grep_finds_lines_witness: "grep [97, 42, 98] [[97, 98, 10, 99, 10], [98, 10]] [] = [97, 98, 10, 98, 10]"
proof -
  let ?rs = "[[97, 98, 10, 99, 10], [98, 10]] :: u8 list list"
  have "\<forall>r \<in> set ?rs. whole_lines r" by (simp add: whole_lines_def NEWLINE_def BUF_SIZE_def)
  note grep_finds_lines[OF this, of "[97, 42, 98]"]
  moreover have "lines_of [] (concat ?rs) = [[97, 98], [99], [98]]" by (simp add: NEWLINE_def)
  moreover have "match [97, 42, 98] [97, 98]" "\<not> match [97, 42, 98] [99]" "match [97, 42, 98] [98]"
    by (simp_all add: match_def grep_eval)
  ultimately show ?thesis by (simp add: matching_lines_def NEWLINE_def)
qed

text \<open>
  A line that two reads deliver in pieces is lost when the first read holds no newline:
  \<open>m = 0\<close> drops the bytes in the buffer, and \<open>grep\<close> does not find a line it finds when one read
  delivers it.
\<close>

theorem grep_loses_split_line:
  "grep (map ch ''abc'') [map ch ''abc'' @ [10]] [] = map ch ''abc'' @ [10] \<and>
   grep (map ch ''abc'') [map ch ''ab'', map ch ''c'' @ [10]] [] = []"
  by (simp add: match_def split_line_def grep_lines.simps BUF_SIZE_def Let_def grep_eval)

end
