(* ===== verification/Shell.thy ===== *)
theory Shell
  imports Format
begin

text \<open>
  \<open>sh.c\<close>: the command parser of the shell. The buffer is the list of bytes before the NUL; \<open>s\<close>,
  \<open>q\<close> and \<open>eq\<close> are positions in it, and \<open>es\<close> is its length. A panic of the parser is a result;
  \<open>malloc\<close> is taken to succeed.
\<close>

section \<open>Tokens\<close>

definition byte :: "u8 list \<Rightarrow> nat \<Rightarrow> u8" where
  "byte b s = (if s < length b then b ! s else 0)"

definition whitespace :: "u8 list" where "whitespace = [32, 9, 13, 10, 11]"
definition symbols :: "u8 list" where "symbols = map ch ''<|>&;()''"

definition plain :: "u8 \<Rightarrow> bool" where
  "plain c \<longleftrightarrow> c \<notin> set whitespace \<and> c \<notin> set symbols"

text \<open>The position where a run of bytes that satisfy \<open>P\<close> ends.\<close>

definition skip :: "u8 list \<Rightarrow> (u8 \<Rightarrow> bool) \<Rightarrow> nat \<Rightarrow> nat" where
  "skip b P s = s + length (takeWhile P (drop s b))"

definition skip_white :: "u8 list \<Rightarrow> nat \<Rightarrow> nat" where
  "skip_white b s = skip b (\<lambda>c. c \<in> set whitespace) s"

text \<open>\<open>gettoken\<close>: the kind of the token, its bounds, and the position after the white space behind it.\<close>

definition WORD :: u8 where "WORD = ch (CHR ''a'')"
definition APPEND :: u8 where "APPEND = ch (CHR ''+'')"
definition GT :: u8 where "GT = ch (CHR ''>'')"

definition token_end :: "u8 list \<Rightarrow> nat \<Rightarrow> u8 \<times> nat" where
  "token_end b s =
     (let c = byte b s
      in if c = 0 then (0, s)
         else if c \<in> set (map ch ''|();&<'') then (c, s + 1)
         else if c = GT then (if byte b (s + 1) = GT then (APPEND, s + 2) else (GT, s + 1))
         else (WORD, skip b plain s))"

definition gettoken :: "u8 list \<Rightarrow> nat \<Rightarrow> u8 \<times> nat \<times> nat \<times> nat" where
  "gettoken b s = (let q = skip_white b s; (ret, eq) = token_end b q in (ret, q, eq, skip_white b eq))"

definition peek :: "u8 list \<Rightarrow> string \<Rightarrow> nat \<Rightarrow> bool \<times> nat" where
  "peek b toks s = (let p = skip_white b s in (byte b p \<noteq> 0 \<and> byte b p \<in> set (map ch toks), p))"

section \<open>Commands\<close>

text \<open>
  The structs \<open>execcmd\<close>, \<open>redircmd\<close>, \<open>pipecmd\<close>, \<open>listcmd\<close> and \<open>backcmd\<close>. A string is a pair of
  positions.
\<close>

type_synonym span = "nat \<times> nat"

datatype cmd =
    Exec "span list"
  | Redir cmd span u32 nat
  | Pipe cmd cmd
  | Seq cmd cmd
  | Back cmd

definition MAXARGS :: nat where "MAXARGS = 10"
definition O_IN :: u32 where "O_IN = 0"
definition O_OUT :: u32 where "O_OUT = 0x201"

datatype 'a parse =
    Parsed 'a nat
  | Syntax string
  | No_fuel

fun pbind :: "'a parse \<Rightarrow> ('a \<Rightarrow> nat \<Rightarrow> 'b parse) \<Rightarrow> 'b parse" where
  "pbind (Parsed x s) f = f x s"
| "pbind (Syntax m) f = Syntax m"
| "pbind No_fuel f = No_fuel"

section \<open>The parser\<close>

text \<open>
  The functions take fuel; \<open>parsecmd\<close> gives enough for every input. \<open>parseredirs\<close> wraps its
  command in redirections, the later ones outside; here it collects them. In \<open>parseexec\<close> the
  arguments are stored in the innermost command.
\<close>

type_synonym redir = "span \<times> u32 \<times> nat"

definition wrap :: "cmd \<Rightarrow> redir list \<Rightarrow> cmd" where
  "wrap c rs = fold (\<lambda>(f, mode, fd) c. Redir c f mode fd) rs c"

definition redir_of :: "u8 \<Rightarrow> span \<Rightarrow> redir" where
  "redir_of tok f = (if tok = ch (CHR ''<'') then (f, O_IN, 0) else (f, O_OUT, 1))"

fun parseredirs :: "nat \<Rightarrow> u8 list \<Rightarrow> redir list \<Rightarrow> nat \<Rightarrow> redir list parse" where
  "parseredirs 0 b rs s = No_fuel"
| "parseredirs (Suc n) b rs s =
     (let (more, s1) = peek b ''<>'' s
      in if \<not> more then Parsed rs s1
         else let (tok, _, _, s2) = gettoken b s1; (tok2, q, eq, s3) = gettoken b s2
           in if tok2 \<noteq> WORD then Syntax ''missing file for redirection''
              else parseredirs n b (rs @ [redir_of tok (q, eq)]) s3)"

text \<open>The loop of \<open>parseexec\<close>: arguments and redirections up to one of \<open>|)&;\<close>.\<close>

fun parseargs :: "nat \<Rightarrow> u8 list \<Rightarrow> span list \<Rightarrow> redir list \<Rightarrow> nat \<Rightarrow> cmd parse" where
  "parseargs 0 b as rs s = No_fuel"
| "parseargs (Suc n) b as rs s =
     (let (stop, s1) = peek b ''|)&;'' s
      in if stop then Parsed (wrap (Exec as) rs) s1
         else let (tok, q, eq, s2) = gettoken b s1
           in if tok = 0 then Parsed (wrap (Exec as) rs) s2
              else if tok \<noteq> WORD then Syntax ''syntax''
              else if MAXARGS \<le> length as + 1 then Syntax ''too many args''
              else pbind (parseredirs n b rs s2) (\<lambda>rs s. parseargs n b (as @ [(q, eq)]) rs s))"

fun parsebacks :: "nat \<Rightarrow> u8 list \<Rightarrow> cmd \<Rightarrow> nat \<Rightarrow> cmd parse" where
  "parsebacks 0 b c s = No_fuel"
| "parsebacks (Suc n) b c s =
     (let (more, s1) = peek b ''&'' s
      in if \<not> more then Parsed c s1
         else let (_, _, _, s2) = gettoken b s1 in parsebacks n b (Back c) s2)"

fun parseline :: "nat \<Rightarrow> u8 list \<Rightarrow> nat \<Rightarrow> cmd parse"
  and parsepipe :: "nat \<Rightarrow> u8 list \<Rightarrow> nat \<Rightarrow> cmd parse"
  and parseexec :: "nat \<Rightarrow> u8 list \<Rightarrow> nat \<Rightarrow> cmd parse"
  and parseblock :: "nat \<Rightarrow> u8 list \<Rightarrow> nat \<Rightarrow> cmd parse" where
  "parseline 0 b s = No_fuel"
| "parseline (Suc n) b s =
     pbind (parsepipe n b s) (\<lambda>c s.
     pbind (parsebacks n b c s) (\<lambda>c s.
     let (more, s1) = peek b '';'' s
     in if more then let (_, _, _, s2) = gettoken b s1
          in pbind (parseline n b s2) (\<lambda>d s. Parsed (Seq c d) s)
        else Parsed c s1))"
| "parsepipe 0 b s = No_fuel"
| "parsepipe (Suc n) b s =
     pbind (parseexec n b s) (\<lambda>c s.
     let (more, s1) = peek b ''|'' s
     in if more then let (_, _, _, s2) = gettoken b s1
          in pbind (parsepipe n b s2) (\<lambda>d s. Parsed (Pipe c d) s)
        else Parsed c s1)"
| "parseexec 0 b s = No_fuel"
| "parseexec (Suc n) b s =
     (let (open, s1) = peek b ''('' s
      in if open then parseblock n b s1
         else pbind (parseredirs n b [] s1) (\<lambda>rs s. parseargs n b [] rs s))"
| "parseblock 0 b s = No_fuel"
| "parseblock (Suc n) b s =
     (let (open, s1) = peek b ''('' s
      in if \<not> open then Syntax ''parseblock''
         else let (_, _, _, s2) = gettoken b s1
           in pbind (parseline n b s2) (\<lambda>c s.
              let (close, s3) = peek b '')'' s
              in if \<not> close then Syntax ''syntax - missing )''
                 else let (_, _, _, s4) = gettoken b s3
                   in pbind (parseredirs n b [] s4) (\<lambda>rs s. Parsed (wrap c rs) s)))"

text \<open>\<open>nulterminate\<close> writes a NUL at the end of every string; at \<open>es\<close> there is one already.\<close>

fun nulterminate :: "cmd \<Rightarrow> u8 list \<Rightarrow> u8 list" where
  "nulterminate (Exec as) b = fold (\<lambda>(q, eq) b. b[eq := 0]) as b"
| "nulterminate (Redir c (q, eq) mode fd) b = (nulterminate c b)[eq := 0]"
| "nulterminate (Pipe l r) b = nulterminate r (nulterminate l b)"
| "nulterminate (Seq l r) b = nulterminate r (nulterminate l b)"
| "nulterminate (Back c) b = nulterminate c b"

definition parse_fuel :: "u8 list \<Rightarrow> nat" where
  "parse_fuel b = 5 * length b + 5"

text \<open>The command and the buffer it points into.\<close>

definition parsecmd :: "u8 list \<Rightarrow> (cmd \<times> u8 list) parse" where
  "parsecmd b = pbind (parseline (parse_fuel b) b 0) (\<lambda>c s.
     let (_, s1) = peek b '''' s
     in if s1 \<noteq> length b then Syntax ''syntax'' else Parsed (c, nulterminate c b) s1)"

end
