(* ===== verification/Shell_Correct.thy ===== *)
theory Shell_Correct
  imports Shell
begin

text \<open>The parser of the shell returns on every input, and its strings are the words of the line.\<close>

section \<open>Positions\<close>

lemma skip_le: "s \<le> length b \<Longrightarrow> skip b P s \<le> length b"
  using length_takeWhile_le[of P "drop s b"] by (simp add: skip_def)

lemma skip_ge: "s \<le> skip b P s"
  by (simp add: skip_def)

lemma skip_stop: "skip b P s < length b \<Longrightarrow> \<not> P (b ! skip b P s)"
  using nth_length_takeWhile[of P "drop s b"] by (simp add: skip_def)

lemma skip_run: "s \<le> j \<Longrightarrow> j < skip b P s \<Longrightarrow> P (b ! j)"
proof -
  assume j: "s \<le> j" "j < skip b P s"
  let ?t = "takeWhile P (drop s b)"
  have l: "j - s < length ?t" using j by (simp add: skip_def)
  then have "?t ! (j - s) \<in> set ?t" by (rule nth_mem)
  then have "P (?t ! (j - s))" by (rule set_takeWhileD[THEN conjunct2])
  moreover have "j - s < length (drop s b)" using l length_takeWhile_le[of P "drop s b"] by simp
  then have "?t ! (j - s) = b ! j" using takeWhile_nth[OF l] j(1) by simp
  ultimately show ?thesis by simp
qed

lemma skip_self: "s < length b \<Longrightarrow> \<not> P (b ! s) \<Longrightarrow> skip b P s = s"
  by (simp add: skip_def Cons_nth_drop_Suc[symmetric])

lemma skip_more: "s < length b \<Longrightarrow> P (b ! s) \<Longrightarrow> s < skip b P s"
  by (simp add: skip_def Cons_nth_drop_Suc[symmetric])

lemma byte_in: "byte b s \<noteq> 0 \<Longrightarrow> s < length b \<and> byte b s = b ! s"
  by (auto simp: byte_def split: if_splits)

lemma special_not_plain: "c \<in> set (map ch ''|();&<'') \<Longrightarrow> \<not> plain c" "\<not> plain GT"
  by (auto simp: plain_def symbols_def GT_def)

text \<open>The span of a word: plain bytes up to a byte that is not.\<close>

definition word_at :: "u8 list \<Rightarrow> span \<Rightarrow> bool" where
  "word_at b w = (case w of (q, eq) \<Rightarrow> q < eq \<and> eq \<le> length b \<and> (\<forall>j. q \<le> j \<longrightarrow> j < eq \<longrightarrow> plain (b ! j)) \<and>
     (eq < length b \<longrightarrow> \<not> plain (b ! eq)))"

lemma plain_special: "\<not> plain c \<Longrightarrow> c \<notin> set whitespace \<Longrightarrow> c \<in> set (map ch ''|();&<'') \<or> c = GT"
  by (auto simp: plain_def symbols_def GT_def)

lemma token_end_ok:
  assumes q: "q \<le> length b" and w: "q < length b \<Longrightarrow> b ! q \<notin> set whitespace" and t: "token_end b q = (tok, eq)"
  shows "q \<le> eq" "eq \<le> length b" "tok \<noteq> 0 \<Longrightarrow> q < eq" "tok = WORD \<Longrightarrow> word_at b (q, eq)"
    "byte b q \<noteq> 0 \<Longrightarrow> tok \<noteq> 0 \<and> q < eq"
proof -
  have W0: "WORD \<noteq> 0" "APPEND \<noteq> WORD" "GT \<noteq> WORD" "APPEND \<noteq> 0" "GT \<noteq> 0"
    by (simp_all add: WORD_def APPEND_def GT_def ch_def)
  have sp: "c \<in> set (map ch ''|();&<'') \<Longrightarrow> c \<noteq> WORD \<and> c \<noteq> 0" for c by (auto simp: WORD_def ch_def)
  have "q \<le> eq \<and> eq \<le> length b \<and> (tok \<noteq> 0 \<longrightarrow> q < eq) \<and> (tok = WORD \<longrightarrow> word_at b (q, eq)) \<and> (byte b q \<noteq> 0 \<longrightarrow> tok \<noteq> 0)"
  proof -
    consider (z) "byte b q = 0" | (s) "byte b q \<noteq> 0" "byte b q \<in> set (map ch ''|();&<'')"
      | (g) "byte b q \<notin> set (map ch ''|();&<'')" "byte b q = GT"
      | (w) "byte b q \<noteq> 0" "byte b q \<notin> set (map ch ''|();&<'')" "byte b q \<noteq> GT" by blast
    then show ?thesis
    proof cases
      case z
      then show ?thesis using t q W0 by (simp add: token_end_def)
    next
      case s
      then have "tok = byte b q" "eq = q + 1" using t by (simp_all add: token_end_def Let_def)
      then show ?thesis using byte_in[OF s(1)] sp[OF s(2)] by simp
    next
      case g
      have "byte b q \<noteq> 0" using g(2) W0 by simp
      note b = byte_in[OF this]
      have r: "(tok, eq) = (if byte b (q + 1) = GT then (APPEND, q + 2) else (GT, q + 1))"
        using t g W0 by (simp add: token_end_def)
      show ?thesis
      proof (cases "byte b (q + 1) = GT")
        case True
        then have "q + 1 < length b" using byte_in[of b "q + 1"] W0 by simp
        then show ?thesis using r True W0 by simp
      next
        case False
        then show ?thesis using r b W0 by simp
      qed
    next
      case w2: w
      note b = byte_in[OF w2(1)]
      have p: "plain (b ! q)" using plain_special[of "b ! q"] w w2 b by metis
      have r: "tok = WORD" "eq = skip b plain q" using t w2 by (simp_all add: token_end_def Let_def)
      have "word_at b (q, eq)"
        using skip_more[of q b plain] skip_le[OF q] skip_run[of q _ b plain] skip_stop[of b plain q] b p
        by (auto simp: word_at_def r(2))
      then show ?thesis using r(1) W0 by (simp add: word_at_def)
    qed
  qed
  then show "q \<le> eq" "eq \<le> length b" "tok \<noteq> 0 \<Longrightarrow> q < eq" "tok = WORD \<Longrightarrow> word_at b (q, eq)"
    "byte b q \<noteq> 0 \<Longrightarrow> tok \<noteq> 0 \<and> q < eq" by blast+
qed

lemma gettoken_ok:
  assumes "gettoken b s = (tok, q, eq, s')" "s \<le> length b"
  shows "s \<le> s'" "s' \<le> length b" "tok \<noteq> 0 \<Longrightarrow> s < s'" "tok = WORD \<Longrightarrow> word_at b (q, eq)"
    "s < length b \<Longrightarrow> b ! s \<notin> set whitespace \<Longrightarrow> byte b s \<noteq> 0 \<Longrightarrow> s < s'"
proof -
  obtain tok' eq' where t: "token_end b (skip_white b s) = (tok', eq')" by (cases "token_end b (skip_white b s)")
  have e: "tok = tok'" "eq = eq'" "q = skip_white b s" "s' = skip_white b eq'"
    using assms(1) t by (auto simp: gettoken_def)
  have q: "s \<le> q" "q \<le> length b" using skip_ge skip_le[OF assms(2)] by (simp_all add: e(3) skip_white_def)
  have w: "q < length b \<Longrightarrow> b ! q \<notin> set whitespace" using skip_stop e(3) by (simp add: skip_white_def)
  note T = token_end_ok[OF q(2) w, folded e(3), of tok eq, unfolded e(1,2), OF _ t[folded e(3)], folded e(1,2)]
  have s': "eq \<le> s'" "s' \<le> length b" using skip_ge skip_le[of eq b] T(2) e by (simp_all add: skip_white_def)
  show "s \<le> s'" "s' \<le> length b" "tok \<noteq> 0 \<Longrightarrow> s < s'" "tok = WORD \<Longrightarrow> word_at b (q, eq)"
    using q s' T by auto
  assume "s < length b" "b ! s \<notin> set whitespace" "byte b s \<noteq> 0"
  moreover from this have "q = s" using skip_self by (simp add: e(3) skip_white_def)
  ultimately show "s < s'" using T(5) s' by auto
qed

lemma peek_ok:
  assumes "peek b toks s = (more, s')" "s \<le> length b"
  shows "s \<le> s'" "s' \<le> length b" "more \<Longrightarrow> gettoken b s' = (tok, q, eq, s'') \<Longrightarrow> s' < s'' \<and> s'' \<le> length b"
proof -
  have e: "s' = skip_white b s" "more \<longleftrightarrow> byte b s' \<noteq> 0 \<and> byte b s' \<in> set (map ch toks)"
    using assms(1) by (auto simp: peek_def Let_def)
  show s': "s \<le> s'" "s' \<le> length b" using skip_ge skip_le[OF assms(2)] by (simp_all add: e(1) skip_white_def)
  assume more and g: "gettoken b s' = (tok, q, eq, s'')"
  then have b: "byte b s' \<noteq> 0" using e(2) by simp
  have "s' < length b" using byte_in[OF b] by simp
  moreover from this have "b ! s' \<notin> set whitespace" using skip_stop e(1) by (simp add: skip_white_def)
  ultimately show "s' < s'' \<and> s'' \<le> length b" using gettoken_ok[OF g s'(2)] b by simp
qed

section \<open>Parsers\<close>

text \<open>
  \<open>good b I s r\<close>: the parser did not run out of fuel, and if it returned, it did so at a position
  not before \<open>s\<close> with a result that satisfies \<open>I\<close>.
\<close>

fun good :: "u8 list \<Rightarrow> ('a \<Rightarrow> bool) \<Rightarrow> nat \<Rightarrow> 'a parse \<Rightarrow> bool" where
  "good b I s (Parsed x t) \<longleftrightarrow> I x \<and> s \<le> t \<and> t \<le> length b"
| "good b I s (Syntax m) \<longleftrightarrow> True"
| "good b I s No_fuel \<longleftrightarrow> False"

lemma good_bind:
  "good b I s r \<Longrightarrow> (\<And>x t. I x \<Longrightarrow> s \<le> t \<Longrightarrow> t \<le> length b \<Longrightarrow> good b J s (f x t)) \<Longrightarrow> good b J s (pbind r f)"
  by (cases r) auto

lemma good_mono: "good b I s r \<Longrightarrow> t \<le> s \<Longrightarrow> good b I t r"
  by (cases r) auto

text \<open>The strings of a command.\<close>

fun spans :: "cmd \<Rightarrow> span list" where
  "spans (Exec as) = as"
| "spans (Redir c f mode fd) = f # spans c"
| "spans (Pipe l r) = spans l @ spans r"
| "spans (Seq l r) = spans l @ spans r"
| "spans (Back c) = spans c"

definition words :: "u8 list \<Rightarrow> span list \<Rightarrow> bool" where
  "words b ws \<longleftrightarrow> (\<forall>w \<in> set ws. word_at b w)"

lemma words_simps [simp]:
  "words b []" "words b (w # ws) \<longleftrightarrow> word_at b w \<and> words b ws" "words b (vs @ ws) \<longleftrightarrow> words b vs \<and> words b ws"
  by (auto simp: words_def)

abbreviation redirs_ok :: "u8 list \<Rightarrow> redir list \<Rightarrow> bool" where
  "redirs_ok b rs \<equiv> words b (map fst rs)"

lemma spans_wrap: "words b (spans (wrap c rs)) \<longleftrightarrow> words b (spans c) \<and> redirs_ok b rs"
proof (induction rs arbitrary: c)
  case (Cons r rs)
  obtain f mode fd where r: "r = (f, mode, fd)" by (cases r)
  have "wrap c (r # rs) = wrap (Redir c f mode fd) rs" by (simp add: wrap_def r)
  then show ?case using Cons[of "Redir c f mode fd"] r by (simp add: conj_ac)
qed (simp add: wrap_def)

lemma parseredirs_good:
  "length b - s < n \<Longrightarrow> s \<le> length b \<Longrightarrow> words b (map fst rs) \<Longrightarrow>
    good b (redirs_ok b) s (parseredirs n b rs s)"
proof (induction n arbitrary: s rs)
  case (Suc n)
  obtain more s1 where p: "peek b ''<>'' s = (more, s1)" by (cases "peek b ''<>'' s")
  note pk = peek_ok[OF p Suc.prems(2)]
  show ?case
  proof (cases more)
    case True
    obtain tok q0 eq0 s2 where g: "gettoken b s1 = (tok, q0, eq0, s2)" by (cases "gettoken b s1")
    obtain tok2 q eq s3 where g2: "gettoken b s2 = (tok2, q, eq, s3)" by (cases "gettoken b s2")
    have s2: "s1 < s2" "s2 \<le> length b" using pk(3)[OF True g] by simp_all
    note t2 = gettoken_ok[OF g2 s2(2)]
    show ?thesis
    proof (cases "tok2 = WORD")
      case True
      have "good b (redirs_ok b) s3 (parseredirs n b (rs @ [redir_of tok (q, eq)]) s3)"
        using Suc.prems pk(1,2) s2 t2(1,2,4) True by (intro Suc.IH) (auto simp: redir_of_def)
      then have "good b (redirs_ok b) s (parseredirs n b (rs @ [redir_of tok (q, eq)]) s3)"
        by (rule good_mono) (use pk(1) s2 t2(1) in simp)
      then show ?thesis using p g g2 \<open>more\<close> True by simp
    qed (use p g g2 True in simp)
  qed (use p pk Suc.prems(3) in simp)
qed simp

lemma parseargs_good:
  "length b - s < n \<Longrightarrow> s \<le> length b \<Longrightarrow> words b as \<Longrightarrow> words b (map fst rs) \<Longrightarrow>
    good b (\<lambda>c. words b (spans c)) s (parseargs n b as rs s)"
proof (induction n arbitrary: s as rs)
  case (Suc n)
  obtain stop s1 where p: "peek b ''|)&;'' s = (stop, s1)" by (cases "peek b ''|)&;'' s")
  note pk = peek_ok(1,2)[OF p Suc.prems(2)]
  obtain tok q eq s2 where g: "gettoken b s1 = (tok, q, eq, s2)" by (cases "gettoken b s1")
  note t = gettoken_ok[OF g pk(2)]
  have W0: "WORD \<noteq> 0" by (simp add: WORD_def ch_def)
  consider "stop" | "\<not> stop" "tok = 0" | "\<not> stop" "tok \<noteq> 0" "tok \<noteq> WORD \<or> MAXARGS \<le> length as + 1"
    | (w) "\<not> stop" "tok = WORD" "\<not> MAXARGS \<le> length as + 1" by blast
  then show ?case
  proof cases
    case w
    have s2: "s1 < s2" using t(3) w W0 by simp
    have "good b (\<lambda>c. words b (spans c)) s2
      (pbind (parseredirs n b rs s2) (\<lambda>rs s. parseargs n b (as @ [(q, eq)]) rs s))"
    proof (rule good_bind)
      show "good b (redirs_ok b) s2 (parseredirs n b rs s2)"
        using Suc.prems pk s2 t(2) by (intro parseredirs_good) auto
    next
      fix rs' u assume "redirs_ok b rs'" "s2 \<le> u" "u \<le> length b"
      then have "good b (\<lambda>c. words b (spans c)) u (parseargs n b (as @ [(q, eq)]) rs' u)"
        using Suc.prems pk s2 t(2,4) w by (intro Suc.IH) auto
      then show "good b (\<lambda>c. words b (spans c)) s2 (parseargs n b (as @ [(q, eq)]) rs' u)"
        using \<open>s2 \<le> u\<close> by (rule good_mono)
    qed
    then have "good b (\<lambda>c. words b (spans c)) s
      (pbind (parseredirs n b rs s2) (\<lambda>rs s. parseargs n b (as @ [(q, eq)]) rs s))"
      by (rule good_mono) (use pk s2 in simp)
    then show ?thesis using p g w W0 by simp
  qed (use p g pk t(1,2) Suc.prems in \<open>simp_all add: spans_wrap\<close>)
qed simp

lemma parsebacks_good:
  "length b - s < n \<Longrightarrow> s \<le> length b \<Longrightarrow> words b (spans c) \<Longrightarrow>
    good b (\<lambda>c. words b (spans c)) s (parsebacks n b c s)"
proof (induction n arbitrary: s c)
  case (Suc n)
  obtain more s1 where p: "peek b ''&'' s = (more, s1)" by (cases "peek b ''&'' s")
  note pk = peek_ok[OF p Suc.prems(2)]
  obtain tok q eq s2 where g: "gettoken b s1 = (tok, q, eq, s2)" by (cases "gettoken b s1")
  show ?case
  proof (cases more)
    case True
    have s2: "s1 < s2" "s2 \<le> length b" using pk(3)[OF True g] by simp_all
    then have "good b (\<lambda>c. words b (spans c)) s2 (parsebacks n b (Back c) s2)"
      using Suc.prems pk(1) by (intro Suc.IH) auto
    then have "good b (\<lambda>c. words b (spans c)) s (parsebacks n b (Back c) s2)"
      by (rule good_mono) (use pk(1) s2 in simp)
    then show ?thesis using p g True by simp
  qed (use p pk Suc.prems in simp)
qed simp

abbreviation cmd_good :: "u8 list \<Rightarrow> nat \<Rightarrow> cmd parse \<Rightarrow> bool" where
  "cmd_good b \<equiv> good b (\<lambda>c. words b (spans c))"

text \<open>A symbol, the token behind it and the rest of the line.\<close>

lemma after_symbol:
  assumes p: "peek b toks s = (more, s1)" and s: "s0 \<le> s" "s \<le> length b"
    and yes: "\<And>tok q eq s2. s < s2 \<Longrightarrow> s2 \<le> length b \<Longrightarrow> good b I s2 (k s2)" and no: "good b I s1 r"
  shows "good b I s0 (if more then let (_, _, _, s2) = gettoken b s1 in k s2 else r)"
proof -
  note pk = peek_ok[OF p s(2)]
  obtain tok q eq s2 where g: "gettoken b s1 = (tok, q, eq, s2)" by (cases "gettoken b s1")
  show ?thesis
  proof (cases more)
    case True
    have s2: "s1 < s2" "s2 \<le> length b" using pk(3)[OF True g] by simp_all
    have "good b I s2 (k s2)" using yes s2 pk(1) by simp
    then have "good b I s0 (k s2)" by (rule good_mono) (use s s2 pk(1) in simp)
    then show ?thesis using True g by simp
  next
    case False
    have "good b I s0 r" by (rule good_mono[OF no]) (use pk(1) s in simp)
    then show ?thesis using False by simp
  qed
qed

lemma parse_good:
  "s \<le> length b \<Longrightarrow>
   (5 * (length b - s) + 5 \<le> n \<longrightarrow> cmd_good b s (parseline n b s)) \<and>
   (5 * (length b - s) + 4 \<le> n \<longrightarrow> cmd_good b s (parsepipe n b s)) \<and>
   (5 * (length b - s) + 3 \<le> n \<longrightarrow> cmd_good b s (parseexec n b s)) \<and>
   (5 * (length b - s) + 2 \<le> n \<longrightarrow> cmd_good b s (parseblock n b s))"
proof (induction n arbitrary: s)
  case (Suc n)
  note IHl = Suc.IH[THEN conjunct1, rule_format]
    and IHp = Suc.IH[THEN conjunct2, THEN conjunct1, rule_format]
    and IHe = Suc.IH[THEN conjunct2, THEN conjunct2, THEN conjunct1, rule_format]
    and IHb = Suc.IH[THEN conjunct2, THEN conjunct2, THEN conjunct2, rule_format]
  note s = Suc.prems
  have line: "cmd_good b s (parseline (Suc n) b s)" if n: "5 * (length b - s) + 5 \<le> Suc n"
    unfolding parseline.simps
  proof (rule good_bind[OF IHp[OF s]])
    show "5 * (length b - s) + 4 \<le> n" using n by simp
    fix c u assume c: "words b (spans c)" "s \<le> u" "u \<le> length b"
    show "cmd_good b s (pbind (parsebacks n b c u) (\<lambda>c s. let (more, s1) = peek b '';'' s
     in if more then let (_, _, _, s2) = gettoken b s1
          in pbind (parseline n b s2) (\<lambda>d s. Parsed (Seq c d) s)
        else Parsed c s1))"
    proof (rule good_bind)
      have "cmd_good b u (parsebacks n b c u)" using c n by (intro parsebacks_good) auto
      then show "cmd_good b s (parsebacks n b c u)" using c(2) by (rule good_mono)
      fix d v assume d: "words b (spans d)" "s \<le> v" "v \<le> length b"
      obtain more s1 where p: "peek b '';'' v = (more, s1)" by (cases "peek b '';'' v")
      note pk = peek_ok(1,2)[OF p d(3)]
      have "cmd_good b s (if more then let (_, _, _, s2) = gettoken b s1
          in pbind (parseline n b s2) (\<lambda>e s. Parsed (Seq d e) s) else Parsed d s1)"
      proof (rule after_symbol[OF p d(2,3)])
        fix s2 assume s2: "v < s2" "s2 \<le> length b"
        show "cmd_good b s2 (pbind (parseline n b s2) (\<lambda>e s. Parsed (Seq d e) s))"
          by (rule good_bind[OF IHl[OF s2(2)]]) (use n d s2 in auto)
      qed (use d pk in simp)
      then show "cmd_good b s (let (more, s1) = peek b '';'' v
     in if more then let (_, _, _, s2) = gettoken b s1
          in pbind (parseline n b s2) (\<lambda>e s. Parsed (Seq d e) s)
        else Parsed d s1)" using p by simp
    qed
  qed
  have pipe: "cmd_good b s (parsepipe (Suc n) b s)" if n: "5 * (length b - s) + 4 \<le> Suc n"
    unfolding parsepipe.simps
  proof (rule good_bind[OF IHe[OF s]])
    show "5 * (length b - s) + 3 \<le> n" using n by simp
    fix d v assume d: "words b (spans d)" "s \<le> v" "v \<le> length b"
    obtain more s1 where p: "peek b ''|'' v = (more, s1)" by (cases "peek b ''|'' v")
    note pk = peek_ok(1,2)[OF p d(3)]
    have "cmd_good b s (if more then let (_, _, _, s2) = gettoken b s1
          in pbind (parsepipe n b s2) (\<lambda>e s. Parsed (Pipe d e) s) else Parsed d s1)"
    proof (rule after_symbol[OF p d(2,3)])
      fix s2 assume s2: "v < s2" "s2 \<le> length b"
      show "cmd_good b s2 (pbind (parsepipe n b s2) (\<lambda>e s. Parsed (Pipe d e) s))"
        by (rule good_bind[OF IHp[OF s2(2)]]) (use n d s2 in auto)
    qed (use d pk in simp)
    then show "cmd_good b s (let (more, s1) = peek b ''|'' v
     in if more then let (_, _, _, s2) = gettoken b s1
          in pbind (parsepipe n b s2) (\<lambda>e s. Parsed (Pipe d e) s)
        else Parsed d s1)" using p by simp
  qed
  have exec: "cmd_good b s (parseexec (Suc n) b s)" if n: "5 * (length b - s) + 3 \<le> Suc n"
  proof -
    obtain more s1 where p: "peek b ''('' s = (more, s1)" by (cases "peek b ''('' s")
    note pk = peek_ok(1,2)[OF p s]
    have "cmd_good b s1 (if more then parseblock n b s1 else pbind (parseredirs n b [] s1) (\<lambda>rs s. parseargs n b [] rs s))"
    proof (cases more)
      case True
      have "5 * (length b - s1) + 2 \<le> n" using n pk(1) by simp
      then show ?thesis using IHb[OF pk(2)] True by simp
    next
      case False
      have "cmd_good b s1 (pbind (parseredirs n b [] s1) (\<lambda>rs s. parseargs n b [] rs s))"
      proof (rule good_bind)
        show "good b (redirs_ok b) s1 (parseredirs n b [] s1)"
          using n pk by (intro parseredirs_good) auto
        fix rs u assume u: "redirs_ok b rs" "s1 \<le> u" "u \<le> length b"
        then have "cmd_good b u (parseargs n b [] rs u)" using n pk by (intro parseargs_good) auto
        then show "cmd_good b s1 (parseargs n b [] rs u)" using u(2) by (rule good_mono)
      qed
      then show ?thesis using False by simp
    qed
    then have "cmd_good b s (if more then parseblock n b s1 else pbind (parseredirs n b [] s1) (\<lambda>rs s. parseargs n b [] rs s))"
      using pk(1) by (rule good_mono)
    then show ?thesis using p by simp
  qed
  have block: "cmd_good b s (parseblock (Suc n) b s)" if n: "5 * (length b - s) + 2 \<le> Suc n"
  proof -
    obtain more s1 where p: "peek b ''('' s = (more, s1)" by (cases "peek b ''('' s")
    have "cmd_good b s (if more then let (_, _, _, s2) = gettoken b s1
           in pbind (parseline n b s2) (\<lambda>c s.
              let (close, s3) = peek b '')'' s
              in if \<not> close then Syntax ''syntax - missing )''
                 else let (_, _, _, s4) = gettoken b s3
                   in pbind (parseredirs n b [] s4) (\<lambda>rs s. Parsed (wrap c rs) s))
         else Syntax ''parseblock'')"
    proof (rule after_symbol[OF p _ s])
      fix s2 assume s2: "s < s2" "s2 \<le> length b"
      show "cmd_good b s2 (pbind (parseline n b s2) (\<lambda>c s.
              let (close, s3) = peek b '')'' s
              in if \<not> close then Syntax ''syntax - missing )''
                 else let (_, _, _, s4) = gettoken b s3
                   in pbind (parseredirs n b [] s4) (\<lambda>rs s. Parsed (wrap c rs) s)))"
      proof (rule good_bind[OF IHl[OF s2(2)]])
        show "5 * (length b - s2) + 5 \<le> n" using n s2 by simp
        fix d v assume d: "words b (spans d)" "s2 \<le> v" "v \<le> length b"
        obtain close s3 where q: "peek b '')'' v = (close, s3)" by (cases "peek b '')'' v")
        have "cmd_good b s2 (if close then let (_, _, _, s4) = gettoken b s3
                   in pbind (parseredirs n b [] s4) (\<lambda>rs s. Parsed (wrap d rs) s)
            else Syntax ''syntax - missing )'')"
        proof (rule after_symbol[OF q d(2,3)])
          fix s4 assume s4: "v < s4" "s4 \<le> length b"
          have "good b (redirs_ok b) s4 (parseredirs n b [] s4)"
            using n s2 d s4 by (intro parseredirs_good) auto
          then show "cmd_good b s4 (pbind (parseredirs n b [] s4) (\<lambda>rs s. Parsed (wrap d rs) s))"
            by (rule good_bind) (use d in \<open>simp add: spans_wrap\<close>)
        qed simp
        then show "cmd_good b s2 (let (close, s3) = peek b '')'' v
              in if \<not> close then Syntax ''syntax - missing )''
                 else let (_, _, _, s4) = gettoken b s3
                   in pbind (parseredirs n b [] s4) (\<lambda>rs s. Parsed (wrap d rs) s))"
          using q by (cases close) simp_all
      qed
    qed simp_all
    then show ?thesis using p by (cases more) simp_all
  qed
  show ?case using line pipe exec block by blast
qed simp

section \<open>Termination\<close>

lemma parsecmd_line: "cmd_good b 0 (parseline (parse_fuel b) b 0)"
  using parse_good[of 0 b "parse_fuel b"] by (simp add: parse_fuel_def)

text \<open>
  C31. The parser of the shell terminates: on every line it returns a command or panics with a
  syntax error, within a recursion depth of five times the length of the line.
\<close>

theorem parser_terminates: "\<exists>c b' s m. parsecmd b = Parsed (c, b') s \<or> parsecmd b = Syntax m"
  using parsecmd_line[of b] by (cases "parseline (parse_fuel b) b 0") (auto simp: parsecmd_def split: prod.splits)

section \<open>The strings of a command\<close>

lemma zero_ends:
  "length (fold (\<lambda>(q, eq) b. b[eq := 0]) as b) = length b \<and>
   (j < length b \<longrightarrow> fold (\<lambda>(q, eq) b. b[eq := 0]) as b ! j = (if j \<in> snd ` set as then 0 else b ! j))"
proof (induction as arbitrary: b)
  case (Cons a as)
  obtain q eq where a: "a = (q, eq)" by (cases a)
  show ?case using Cons[of "b[eq := 0]"] by (auto simp: a nth_list_update)
qed simp

lemma nulterminate_nth:
  "length (nulterminate c b) = length b \<and>
   (j < length b \<longrightarrow> nulterminate c b ! j = (if j \<in> snd ` set (spans c) then 0 else b ! j))"
proof (induction c arbitrary: b)
  case (Exec as)
  show ?case using zero_ends[of as b j] by simp
next
  case (Redir c f mode fd)
  obtain q eq where f: "f = (q, eq)" by (cases f)
  show ?case using Redir[of b] by (cases "j = eq") (simp_all add: f)
next
  case (Pipe l r)
  show ?case using Pipe.IH(1)[of b] Pipe.IH(2)[of "nulterminate l b"] by (auto simp: image_Un)
next
  case (Seq l r)
  show ?case using Seq.IH(1)[of b] Seq.IH(2)[of "nulterminate l b"] by (auto simp: image_Un)
qed simp

definition c_string :: "u8 list \<Rightarrow> nat \<Rightarrow> u8 list" where
  "c_string b q = takeWhile (\<lambda>c. c \<noteq> 0) (drop q b)"

lemma takeWhile_until:
  assumes "q \<le> eq" "eq \<le> length b" "\<And>j. q \<le> j \<Longrightarrow> j < eq \<Longrightarrow> b ! j \<noteq> 0" "eq < length b \<Longrightarrow> b ! eq = 0"
  shows "c_string b q = take (eq - q) (drop q b)"
proof -
  have l: "eq - q \<le> length (drop q b)" using assms(2) by simp
  have "take (eq - q) (drop q b) @ drop (eq - q) (drop q b) = drop q b" by (rule append_take_drop_id)
  then have split: "drop q b = take (eq - q) (drop q b) @ drop eq b" using assms(1) by simp
  have "\<forall>x \<in> set (take (eq - q) (drop q b)). x \<noteq> 0"
    using assms(1,2,3) by (auto simp: in_set_conv_nth)
  moreover have "takeWhile (\<lambda>c. c \<noteq> 0) (drop eq b) = []"
    using assms(4) by (cases "eq < length b") (simp_all add: Cons_nth_drop_Suc[symmetric])
  ultimately show ?thesis unfolding c_string_def by (subst split) (subst takeWhile_append2, auto)
qed

text \<open>
  C32. The strings of a parsed command are the words of the line: every argument and file name is
  a maximal run of bytes that are neither white space nor symbols, and after \<open>nulterminate\<close> the
  C string at its start is exactly that run.
\<close>

theorem parsed_strings_are_words:
  assumes "0 \<notin> set b" "parsecmd b = Parsed (c, b') s"
  shows "s = length b \<and> length b' = length b \<and>
    (\<forall>(q, eq) \<in> set (spans c). word_at b (q, eq) \<and> c_string b' q = take (eq - q) (drop q b))"
proof -
  obtain c0 s0 where p: "parseline (parse_fuel b) b 0 = Parsed c0 s0"
    using assms(2) by (cases "parseline (parse_fuel b) b 0") (auto simp: parsecmd_def)
  then have c: "c = c0" "b' = nulterminate c b" "s = length b"
    using assms(2) by (auto simp: parsecmd_def split: prod.splits if_splits)
  have w: "words b (spans c)" using parsecmd_line[of b] p c(1) by simp
  note nt = nulterminate_nth[of c b, folded c(2)]
  have "c_string b' q = take (eq - q) (drop q b)" if "(q, eq) \<in> set (spans c)" for q eq
  proof -
    have wq: "q < eq" "eq \<le> length b" "\<And>j. q \<le> j \<Longrightarrow> j < eq \<Longrightarrow> plain (b ! j)"
      using w that by (auto simp: words_def word_at_def)
    have same: "b' ! j = b ! j" if j: "q \<le> j" "j < eq" for j
    proof -
      have "j \<notin> snd ` set (spans c)"
      proof
        assume "j \<in> snd ` set (spans c)"
        then obtain q' where "(q', j) \<in> set (spans c)" by auto
        then have "j < length b \<longrightarrow> \<not> plain (b ! j)" using w by (auto simp: words_def word_at_def)
        then show False using wq j by simp
      qed
      then show ?thesis using nt[of j] j wq(2) by simp
    qed
    have "c_string b' q = take (eq - q) (drop q b')"
    proof (rule takeWhile_until)
      show "b' ! j \<noteq> 0" if "q \<le> j" "j < eq" for j
      proof -
        have "b ! j \<in> set b" using that wq(2) by (intro nth_mem) simp
        then show ?thesis using same[OF that] assms(1) by metis
      qed
      show "eq < length b' \<Longrightarrow> b' ! eq = 0" using nt[of eq] \<open>(q, eq) \<in> set (spans c)\<close> by force
    qed (use wq nt in auto)
    also have "\<dots> = take (eq - q) (drop q b)"
      using same wq nt by (intro nth_equalityI) auto
    finally show ?thesis .
  qed
  then show ?thesis using w c(3) nt by (auto simp: words_def)
qed

lemma parsed_strings_are_words_witness:
  "\<exists>c b'. parsecmd (map ch ''ls>f'') = Parsed (c, b') 4 \<and> c_string b' 3 = map ch ''f''"
proof -
  have ev: "parsecmd (map ch ''ls>f'') = Parsed (Redir (Exec [(0, 2)]) (3, 4) O_OUT 1, [108, 115, 0, 102]) 4"
    by code_simp
  have "(0 :: u8) \<notin> set (map ch ''ls>f'')" by (simp add: ch_def)
  with ev show ?thesis
    using parsed_strings_are_words[of "map ch ''ls>f''" "Redir (Exec [(0, 2)]) (3, 4) O_OUT 1" "[108, 115, 0, 102]" 4]
    by (intro exI[of _ "Redir (Exec [(0, 2)]) (3, 4) O_OUT 1"] exI[of _ "[108, 115, 0, 102]"]) (simp add: ch_def)
qed

end
