(* ===== verification/Shell_Run.thy ===== *)
theory Shell_Run
  imports Shell_Correct Kernel_State
begin

text \<open>
  The rest of \<open>sh.c\<close>: \<open>runcmd\<close>, \<open>getcmd\<close> and \<open>main\<close>. A process of the shell is the list of what it
  does, with the processes it forks in it; the system calls act on its table of descriptors as
  \<open>sysfile.c\<close> does, a new descriptor is the first free one. Whether \<open>open\<close>, \<open>fork\<close>, \<open>pipe\<close> and
  \<open>exec\<close> succeed is an argument, \<open>os\<close>; calls that may fail are numbered, and the number names the
  file or pipe that they make.
\<close>

section \<open>Descriptors\<close>

datatype fobj =
    Opened "u8 list" u32 nat
  | Pipe_read nat
  | Pipe_write nat

type_synonym fdt = "nat \<Rightarrow> fobj option"

definition first_fd :: "fdt \<Rightarrow> nat option" where
  "first_fd t = find (\<lambda>fd. t fd = None) [0..<NOFILE]"

definition fd_close :: "nat \<Rightarrow> fdt \<Rightarrow> fdt" where
  "fd_close fd t = t(fd := None)"

definition fd_dup :: "nat \<Rightarrow> fdt \<Rightarrow> fdt" where
  "fd_dup fd t = (case t fd of None \<Rightarrow> t | Some f \<Rightarrow> (case first_fd t of None \<Rightarrow> t | Some k \<Rightarrow> t(k \<mapsto> f)))"

definition fd_pipe :: "nat \<Rightarrow> fdt \<Rightarrow> (nat \<times> nat \<times> fdt) option" where
  "fd_pipe n t = (case first_fd t of None \<Rightarrow> None | Some a \<Rightarrow>
     (case first_fd (t(a \<mapsto> Pipe_read n)) of None \<Rightarrow> None
      | Some b \<Rightarrow> Some (a, b, t(a \<mapsto> Pipe_read n, b \<mapsto> Pipe_write n))))"

text \<open>Which calls succeed: by the file and mode, the arguments, the directory, and the number of the call.\<close>

record os =
  o_open :: "u8 list \<Rightarrow> u32 \<Rightarrow> nat \<Rightarrow> bool"
  o_exec :: "u8 list list \<Rightarrow> bool"
  o_fork :: "nat \<Rightarrow> bool"
  o_pipe :: "nat \<Rightarrow> bool"
  o_chdir :: "u8 list \<Rightarrow> bool"

section \<open>What a process does\<close>

datatype act =
    Aexec "u8 list list" fdt
  | Afork "act list"
  | Await fdt
  | Achdir "u8 list"
  | Aprint "u8 list"

definition say :: "string \<Rightarrow> u8 list \<Rightarrow> string \<Rightarrow> act" where
  "say pre x post = Aprint (map ch pre @ x @ map ch post @ [10])"

section \<open>\<open>runcmd\<close>\<close>

text \<open>It never returns: the list is all the process does; the number is that of the next call.\<close>

definition argv_of :: "u8 list \<Rightarrow> span list \<Rightarrow> u8 list list" where
  "argv_of b as = map (\<lambda>(q, eq). c_string b q) as"

fun runcmd :: "os \<Rightarrow> u8 list \<Rightarrow> cmd \<Rightarrow> nat \<Rightarrow> fdt \<Rightarrow> act list \<times> nat" where
  "runcmd os b (Exec as) n t =
     (if as = [] then ([], n)
      else (Aexec (argv_of b as) t #
        (if o_exec os (argv_of b as) then [] else [say ''exec '' (hd (argv_of b as)) '' failed'']), n))"
| "runcmd os b (Redir c (q, eq) mode fd) n t =
     (let f = c_string b q; t1 = fd_close fd t
      in case (if o_open os f mode n then first_fd t1 else None) of
           None \<Rightarrow> ([say ''open '' f '' failed''], n + 1)
         | Some k \<Rightarrow> runcmd os b c (n + 1) (t1(k \<mapsto> Opened f mode n)))"
| "runcmd os b (Seq l r) n t =
     (if o_fork os n then
        let (child, n1) = runcmd os b l (n + 1) t; (rest, n2) = runcmd os b r n1 t
        in (Afork child # Await t # rest, n2)
      else ([say ''fork'' [] ''''], n + 1))"
| "runcmd os b (Pipe l r) n t =
     (case (if o_pipe os n then fd_pipe n t else None) of
        None \<Rightarrow> ([say ''pipe'' [] ''''], n + 1)
      | Some (p0, p1, t1) \<Rightarrow>
          if o_fork os (n + 1) then
            let (left, n1) = runcmd os b l (n + 2) (fd_close p1 (fd_close p0 (fd_dup p1 (fd_close 1 t1))))
            in if o_fork os n1 then
                 let t2 = fd_close p1 (fd_close p0 t1); (right, n2) = runcmd os b r (n1 + 1) (fd_close p1 (fd_close p0 (fd_dup p0 (fd_close 0 t1))))
                 in ([Afork left, Afork right, Await t2, Await t2], n2)
               else ([Afork left, say ''fork'' [] ''''], n1 + 1)
          else ([say ''fork'' [] ''''], n + 2))"
| "runcmd os b (Back c) n t =
     (if o_fork os n then let (child, n1) = runcmd os b c (n + 1) t in ([Afork child], n1)
      else ([say ''fork'' [] ''''], n + 1))"

section \<open>\<open>main\<close>\<close>

text \<open>
  \<open>gets\<close> of \<open>ulib.c\<close> on the bytes that the reads of the standard input deliver: it stops behind a
  newline or carriage return, at the end of the input, or when the buffer is full.
\<close>

fun gets :: "nat \<Rightarrow> u8 list \<Rightarrow> u8 list \<times> u8 list" where
  "gets 0 inp = ([], inp)"
| "gets (Suc k) [] = ([], [])"
| "gets (Suc k) (c # inp) = (if c = 10 \<or> c = 13 then ([c], inp) else let (l, r) = gets k inp in (c # l, r))"

text \<open>The buffer has \<open>nbuf\<close> zeros before \<open>gets\<close> fills it: its string is the line up to a NUL.\<close>

definition getcmd :: "nat \<Rightarrow> u8 list \<Rightarrow> (u8 list \<times> u8 list) option" where
  "getcmd nbuf inp = (let (l, r) = gets (nbuf - 1) inp
     in if l = [] \<or> hd l = 0 then None else Some (takeWhile (\<lambda>c. c \<noteq> 0) l, r))"

definition SHELL_BUF :: nat where "SHELL_BUF = 100"
definition O_RDWR :: u32 where "O_RDWR = 2"

definition CD :: "u8 list" where "CD = map ch ''cd ''"
definition PROMPT :: "u8 list" where "PROMPT = map ch ''$ ''"

text \<open>What the forked process does with the line.\<close>

definition run_line :: "os \<Rightarrow> u8 list \<Rightarrow> nat \<Rightarrow> fdt \<Rightarrow> act list \<times> nat" where
  "run_line os l n t = (case parsecmd l of
     Parsed (c, b) s \<Rightarrow> runcmd os b c n t
   | Syntax m \<Rightarrow> ([say m [] ''''], n)
   | No_fuel \<Rightarrow> ([], n))"

lemma gets_shorter: "snd (gets k inp) = drop (length (fst (gets k inp))) inp"
  by (induction k inp rule: gets.induct) (auto split: prod.splits)

lemma getcmd_shorter: "getcmd nbuf inp = Some (l, r) \<Longrightarrow> length r < length inp"
  using gets_shorter[of "nbuf - 1" inp] by (cases inp; cases "nbuf - 1") (auto simp: getcmd_def split: if_splits prod.splits)

text \<open>The loop of \<open>main\<close>.\<close>

function sh_loop :: "os \<Rightarrow> u8 list \<Rightarrow> nat \<Rightarrow> fdt \<Rightarrow> act list" where
  "sh_loop os inp n t = (case getcmd SHELL_BUF inp of
     None \<Rightarrow> [Aprint PROMPT]
   | Some (l, r) \<Rightarrow>
       Aprint PROMPT #
       (if take 3 l = CD then
          let d = drop 3 (butlast l)
          in Achdir d # (if o_chdir os d then [] else [say ''cannot cd '' d '''']) @ sh_loop os r n t
        else if o_fork os n then
          let (child, n1) = run_line os l (n + 1) t in Afork child # Await t # sh_loop os r n1 t
        else [say ''fork'' [] '''']))"
  by pat_completeness auto
termination by (relation "measure (\<lambda>(os, inp, n, t). length inp)") (auto dest: getcmd_shorter)

declare sh_loop.simps [simp del]

text \<open>The console is opened until a descriptor above 2 is free.\<close>

fun open_console :: "os \<Rightarrow> nat \<Rightarrow> nat \<Rightarrow> fdt \<Rightarrow> nat \<times> fdt" where
  "open_console os 0 n t = (n, t)"
| "open_console os (Suc k) n t =
     (case (if o_open os (map ch ''console'') O_RDWR n then first_fd t else None) of
        None \<Rightarrow> (n + 1, t)
      | Some fd \<Rightarrow> if 3 \<le> fd then (n + 1, t) else open_console os k (n + 1) (t(fd \<mapsto> Opened (map ch ''console'') O_RDWR n)))"

definition sh_main :: "os \<Rightarrow> u8 list \<Rightarrow> nat \<Rightarrow> fdt \<Rightarrow> act list" where
  "sh_main os inp n t = (let (n1, t1) = open_console os (Suc NOFILE) n t in sh_loop os inp n1 t1)"

end
