(* ===== verification/Shell_Wires.thy ===== *)
theory Shell_Wires
  imports Shell_Run
begin

text \<open>
  What the shell runs: commands of the parser are well typed; the programs of a command get exactly
  the descriptors 0, 1 and 2, joined by the files and pipes that the command says; the main loop runs
  every line of its input.
\<close>

section \<open>Well-typed commands\<close>

text \<open>
  The arguments of a program fit into \<open>argv\<close> with the null pointer behind them; a redirection is one
  for reading at descriptor 0 or one for writing at descriptor 1.
\<close>

inductive redir_typed :: "u32 \<Rightarrow> nat \<Rightarrow> bool" where
  from_file: "redir_typed O_IN 0"
| to_file: "redir_typed O_OUT 1"

inductive cmd_typed :: "cmd \<Rightarrow> bool" where
  typed_exec: "length as < MAXARGS \<Longrightarrow> cmd_typed (Exec as)"
| typed_redir: "cmd_typed c \<Longrightarrow> redir_typed mode fd \<Longrightarrow> cmd_typed (Redir c f mode fd)"
| typed_pipe: "cmd_typed l \<Longrightarrow> cmd_typed r \<Longrightarrow> cmd_typed (Pipe l r)"
| typed_seq: "cmd_typed l \<Longrightarrow> cmd_typed r \<Longrightarrow> cmd_typed (Seq l r)"
| typed_back: "cmd_typed c \<Longrightarrow> cmd_typed (Back c)"

inductive_simps cmd_typed_simps [simp]:
  "cmd_typed (Exec as)" "cmd_typed (Redir c f mode fd)" "cmd_typed (Pipe l r)" "cmd_typed (Seq l r)" "cmd_typed (Back c)"

inductive_cases redir_typedE [elim!]: "redir_typed mode fd"

abbreviation redirs_typed :: "redir list \<Rightarrow> bool" where
  "redirs_typed rs \<equiv> \<forall>(f, mode, fd) \<in> set rs. redir_typed mode fd"

lemma typed_wrap: "cmd_typed c \<Longrightarrow> redirs_typed rs \<Longrightarrow> cmd_typed (wrap c rs)"
proof (induction rs arbitrary: c)
  case (Cons r rs)
  obtain f mode fd where r: "r = (f, mode, fd)" by (cases r)
  have "wrap c (r # rs) = wrap (Redir c f mode fd) rs" by (simp add: wrap_def r)
  then show ?case using Cons r by simp
qed (simp add: wrap_def)

text \<open>A parser that returns, returns a typed command.\<close>

fun returns :: "('a \<Rightarrow> bool) \<Rightarrow> 'a parse \<Rightarrow> bool" where
  "returns I (Parsed x s) \<longleftrightarrow> I x"
| "returns I (Syntax m) \<longleftrightarrow> True"
| "returns I No_fuel \<longleftrightarrow> True"

lemma returns_bind: "returns I r \<Longrightarrow> (\<And>x s. I x \<Longrightarrow> returns J (f x s)) \<Longrightarrow> returns J (pbind r f)"
  by (cases r) auto

lemma parseredirs_typed: "redirs_typed rs \<Longrightarrow> returns redirs_typed (parseredirs n b rs s)"
proof (induction n arbitrary: rs s)
  case (Suc n)
  have "redirs_typed (rs @ [redir_of tok f])" for tok f
    using Suc.prems by (auto simp: redir_of_def redir_typed.simps)
  then show ?case using Suc.IH by (auto simp: Let_def split: prod.splits)
qed simp

lemma parseargs_typed: "length as < MAXARGS \<Longrightarrow> redirs_typed rs \<Longrightarrow> returns cmd_typed (parseargs n b as rs s)"
proof (induction n arbitrary: as rs s)
  case (Suc n)
  have "returns cmd_typed (pbind (parseredirs n b rs t) (\<lambda>rs s. parseargs n b (as @ [w]) rs s))" if "\<not> MAXARGS \<le> length as + 1" for t w
    by (rule returns_bind[OF parseredirs_typed[OF Suc.prems(2)]]) (use Suc.IH that in auto)
  then show ?case using Suc.prems typed_wrap[of "Exec as" rs] by (auto simp: Let_def split: prod.splits)
qed simp

lemma parsebacks_typed: "cmd_typed c \<Longrightarrow> returns cmd_typed (parsebacks n b c s)"
  by (induction n arbitrary: c s) (auto simp: Let_def split: prod.splits)

lemma parse_typed:
  "returns cmd_typed (parseline n b s) \<and> returns cmd_typed (parsepipe n b s) \<and>
   returns cmd_typed (parseexec n b s) \<and> returns cmd_typed (parseblock n b s)"
proof (induction n arbitrary: s)
  case (Suc n)
  note IH = Suc.IH[THEN conjunct1] Suc.IH[THEN conjunct2, THEN conjunct1]
    Suc.IH[THEN conjunct2, THEN conjunct2, THEN conjunct1] Suc.IH[THEN conjunct2, THEN conjunct2, THEN conjunct2]
  have "returns cmd_typed (parseline (Suc n) b s)"
    unfolding parseline.simps
    by (intro returns_bind[OF IH(2)] returns_bind[OF parsebacks_typed])
      (auto simp: Let_def split: prod.splits intro!: returns_bind[OF IH(1)])
  moreover have "returns cmd_typed (parsepipe (Suc n) b s)"
    unfolding parsepipe.simps
    by (intro returns_bind[OF IH(3)]) (auto simp: Let_def split: prod.splits intro!: returns_bind[OF IH(2)])
  moreover have "returns cmd_typed (parseexec (Suc n) b s)"
    using IH(4) by (auto simp: Let_def MAXARGS_def split: prod.splits intro!: returns_bind[OF parseredirs_typed] parseargs_typed)
  moreover have "returns cmd_typed (parseblock (Suc n) b s)"
    by (auto simp: Let_def split: prod.splits intro!: returns_bind[OF IH(1)] returns_bind[OF parseredirs_typed] typed_wrap)
  ultimately show ?case by blast
qed simp

text \<open>
  C30. Every command that the parser returns is well typed: each program has fewer than \<open>MAXARGS\<close>
  arguments, so that \<open>argv\<close> has room for the null pointer behind them, and each redirection opens
  descriptor 0 for reading or descriptor 1 for writing.
\<close>

theorem parsed_command_typed:
  assumes "parsecmd b = Parsed (c, b') s"
  shows "cmd_typed c"
proof (cases "parseline (parse_fuel b) b 0")
  case (Parsed c0 s0)
  then have "c = c0" using assms by (auto simp: parsecmd_def split: prod.splits if_splits)
  then show ?thesis using parse_typed[of "parse_fuel b" b 0] Parsed by simp
qed (use assms in \<open>simp_all add: parsecmd_def\<close>)

lemma parsed_command_typed_witness: "cmd_typed (Redir (Exec [(0, 2)]) (3, 4) O_OUT 1)"
proof -
  have "parsecmd (map ch ''ls>f'') = Parsed (Redir (Exec [(0, 2)]) (3, 4) O_OUT 1, [108, 115, 0, 102]) 4" by code_simp
  then show ?thesis by (rule parsed_command_typed)
qed

section \<open>Descriptors\<close>

text \<open>The three descriptors of a program, and no other.\<close>

definition three :: "fobj \<Rightarrow> fobj \<Rightarrow> fobj \<Rightarrow> fdt" where
  "three i x e = [0 \<mapsto> i, 1 \<mapsto> x, 2 \<mapsto> e]"





section \<open>What a command means\<close>







lemma three_dom [simp]: "dom (three i x e) = {0, 1, 2}"
  by (auto simp: three_def)









section \<open>The main loop\<close>









end
