(* ===== verification/Ring.thy ===== *)
theory Ring
  imports Bio
begin

text \<open>
  The circular doubly linked list of buffers (\<open>bcache.head\<close> with \<open>prev\<close> and \<open>next\<close>): a chain of
  links in each direction, and what unlinking a buffer, linking one in after the head, and the
  two loops of \<open>bget\<close> do.
\<close>

section \<open>Chains of links\<close>

text \<open>\<open>chain f x as y\<close>: from \<open>x\<close> the links \<open>f\<close> lead through \<open>as\<close> to \<open>y\<close>.\<close>

primrec chain :: "(nat \<Rightarrow> nat) \<Rightarrow> nat \<Rightarrow> nat list \<Rightarrow> nat \<Rightarrow> bool" where
  "chain f x [] y \<longleftrightarrow> f x = y"
| "chain f x (a # as) y \<longleftrightarrow> f x = a \<and> chain f a as y"

lemma chain_append [simp]: "chain f x (as @ b # bs) y \<longleftrightarrow> chain f x as b \<and> chain f b bs y"
  by (induction as arbitrary: x) auto

lemma chain_cong: "(\<And>a. a \<in> set (x # as) \<Longrightarrow> f a = g a) \<Longrightarrow> chain f x as y = chain g x as y"
  by (induction as arbitrary: x) auto

lemma chain_next: "chain f x as y \<Longrightarrow> f x = hd (as @ [y])"
  by (cases as) auto

lemma chain_upd_other: "u \<notin> set (x # as) \<Longrightarrow> chain (f(u := v)) x as y = chain f x as y"
  by (rule chain_cong) auto

lemma chain_upd_last: "distinct (x # as) \<Longrightarrow> chain f x as y \<Longrightarrow> chain (f(last (x # as) := z)) x as z"
proof (induction as arbitrary: x)
  case (Cons a as)
  then have "last (x # a # as) \<noteq> x" using last_in_set[of "a # as"] by auto
  then show ?case using Cons by simp
qed simp

lemma chain_unlink:
  assumes "chain f h (as @ b # bs) h" "distinct (h # as @ b # bs)"
  shows "chain (f(last (h # as) := f b)) h (as @ bs) h"
proof -
  let ?p = "last (h # as)"
  have c: "chain f h as b" "chain f b bs h" using assms(1) by auto
  have "?p \<in> set (h # as)" by (rule last_in_set) simp
  then have p: "?p \<notin> set (b # bs)" using assms(2) by auto
  have front: "chain (f(?p := f b)) h as (f b)" using chain_upd_last[OF _ c(1)] assms(2) by auto
  show ?thesis
  proof (cases bs)
    case Nil then show ?thesis using front c(2) by simp
  next
    case (Cons d ds)
    then have "f b = d" "chain f d ds h" using c(2) by auto
    moreover have "chain (f(?p := f b)) d ds h = chain f d ds h"
      using p Cons by (intro chain_upd_other) auto
    ultimately show ?thesis using front Cons by simp
  qed
qed

section \<open>The ring\<close>

definition nx :: "kernel \<Rightarrow> nat \<Rightarrow> nat" where "nx s b = b_next (bufof s b)"
definition pv :: "kernel \<Rightarrow> nat \<Rightarrow> nat" where "pv s b = b_prev (bufof s b)"

text \<open>The buffers in the order of the list, most recently used first.\<close>

definition lru :: "nat list \<Rightarrow> kernel \<Rightarrow> bool" where
  "lru xs s \<longleftrightarrow> length (k_bufs s) = Suc NBUF \<and> distinct xs \<and> set xs = {..<NBUF} \<and>
     chain (nx s) NBUF xs NBUF \<and> chain (pv s) NBUF (rev xs) NBUF"

lemma upd_buf_fields [simp]:
  "k_me (upd_buf b f s) = k_me s" "k_held (upd_buf b f s) = k_held s" "k_cpus (upd_buf b f s) = k_cpus s"
  "k_ptab (upd_buf b f s) = k_ptab s" "k_pq (upd_buf b f s) = k_pq s" "k_mq (upd_buf b f s) = k_mq s"
  "k_cfg (upd_buf b f s) = k_cfg s" "k_disk (upd_buf b f s) = k_disk s"
  "k_dwrites (upd_buf b f s) = k_dwrites s" "k_log (upd_buf b f s) = k_log s"
  "k_sleeplocks (upd_buf b f s) = k_sleeplocks s"
  "length (k_bufs (upd_buf b f s)) = length (k_bufs s)"
  "pr (upd_buf b f s) = pr s" "myproc (upd_buf b f s) = myproc s"
  by (simp_all add: upd_buf_def myproc_def mycpu_def pr_def fun_eq_iff)

lemma bufof_upd: "b < length (k_bufs s) \<Longrightarrow> bufof (upd_buf b f s) i = (if i = b then f (bufof s b) else bufof s i)"
  by (simp add: bufof_def upd_buf_def)

lemma nx_upd: "b < length (k_bufs s) \<Longrightarrow> nx (upd_buf b f s) = (nx s)(b := b_next (f (bufof s b)))"
  by (rule ext) (simp add: nx_def bufof_upd)

lemma pv_upd: "b < length (k_bufs s) \<Longrightarrow> pv (upd_buf b f s) = (pv s)(b := b_prev (f (bufof s b)))"
  by (rule ext) (simp add: pv_def bufof_upd)

text \<open>Everything in a buffer but its links.\<close>

definition info :: "kernel \<Rightarrow> nat \<Rightarrow> bool \<times> bool \<times> u32 \<times> u32 \<times> u32 \<times> u8 list" where
  "info s b = (let x = bufof s b in (b_valid x, b_dirty x, b_dev x, b_blockno x, b_refcnt x, b_data x))"

text \<open>What the writes of one link change.\<close>

lemma set_link:
  "nx (upd_buf b (\<lambda>x. x\<lparr>b_prev := v\<rparr>) s) = nx s" "pv (upd_buf b (\<lambda>x. x\<lparr>b_next := v\<rparr>) s) = pv s"
  "b < length (k_bufs s) \<Longrightarrow> nx (upd_buf b (\<lambda>x. x\<lparr>b_next := v\<rparr>) s) = (nx s)(b := v)"
  "b < length (k_bufs s) \<Longrightarrow> pv (upd_buf b (\<lambda>x. x\<lparr>b_prev := v\<rparr>) s) = (pv s)(b := v)"
  "info (upd_buf b (\<lambda>x. x\<lparr>b_prev := v\<rparr>) s) = info s" "info (upd_buf b (\<lambda>x. x\<lparr>b_next := v\<rparr>) s) = info s"
proof -
  have "\<not> b < length (k_bufs s) \<Longrightarrow> upd_buf b f s = s" for f
    by (simp add: upd_buf_def list_update_beyond)
  then consider "b < length (k_bufs s)" | "\<And>f. upd_buf b f s = s" by blast
  note cases = this
  show "nx (upd_buf b (\<lambda>x. x\<lparr>b_prev := v\<rparr>) s) = nx s"
    by (rule cases) (simp_all add: nx_upd fun_upd_idem nx_def)
  show "pv (upd_buf b (\<lambda>x. x\<lparr>b_next := v\<rparr>) s) = pv s"
    by (rule cases) (simp_all add: pv_upd fun_upd_idem pv_def)
  show "info (upd_buf b (\<lambda>x. x\<lparr>b_prev := v\<rparr>) s) = info s"
    by (rule ext, rule cases) (simp_all add: info_def bufof_upd Let_def)
  show "info (upd_buf b (\<lambda>x. x\<lparr>b_next := v\<rparr>) s) = info s"
    by (rule ext, rule cases) (simp_all add: info_def bufof_upd Let_def)
qed (simp_all add: nx_upd pv_upd)

lemma lru_cong: "k_bufs s = k_bufs t \<Longrightarrow> lru xs s = lru xs t"
proof -
  assume "k_bufs s = k_bufs t"
  then have "nx s = nx t" "pv s = pv t" by (auto simp: nx_def pv_def bufof_def fun_eq_iff)
  then show ?thesis using \<open>k_bufs s = k_bufs t\<close> by (simp add: lru_def)
qed

lemma lru_length: "lru xs s \<Longrightarrow> length xs = NBUF"
  by (metis lru_def card_lessThan distinct_card)

section \<open>Moving a buffer to the front\<close>

lemma last_Cons_rev: "last (x # rev w) = hd (w @ [x])"
  by (cases w) auto

lemma lru_unlink_link:
  assumes "lru (ys @ b # zs) s"
  shows "\<exists>t. kseq [unlink_buf b, link_first b] s = Ret () t \<and> lru (b # ys @ zs) t \<and>
    (\<forall>i < NBUF. info t i = info s i) \<and> (\<exists>bufs. t = s\<lparr>k_bufs := bufs\<rparr>)"
proof -
  let ?h = NBUF and ?N = "nx s" and ?P = "pv s"
  have len: "length (k_bufs s) = Suc NBUF" and d0: "distinct (ys @ b # zs)"
    and set0: "set (ys @ b # zs) = {..<NBUF}"
    and N: "chain ?N ?h (ys @ b # zs) ?h" and P0: "chain ?P ?h (rev (ys @ b # zs)) ?h"
    using assms unfolding lru_def by blast+
  have P: "chain ?P ?h (rev zs @ b # rev ys) ?h" using P0 by simp
  have nh: "?h \<notin> set (ys @ b # zs)" unfolding set0 by simp
  have dist: "distinct (?h # ys @ b # zs)" using d0 nh by (simp only: distinct.simps simp_thms)
  have "b \<in> set (ys @ b # zs)" by simp
  then have bN: "b < NBUF" unfolding set0 by simp
  have "set (ys @ zs) = set (ys @ b # zs) - {b}" using d0 by auto
  then have bs: "b < NBUF" "set (ys @ zs) = {..<NBUF} - {b}" using bN unfolding set0 by simp_all
  have inb: "i < length (k_bufs s)" if "i \<in> set (?h # ys @ b # zs)" for i
  proof -
    have "i \<in> insert ?h {..<NBUF}" using that unfolding set0[symmetric] by simp
    then show ?thesis unfolding len by auto
  qed
  have Pb: "?P b = last (?h # ys)" using chain_next[of ?P b "rev ys" ?h] P
    by (cases ys rule: rev_cases) auto
  have Nb: "?N b = hd (zs @ [?h])" using chain_next[of ?N b zs ?h] N by auto
  then have Nb': "?N b = last (?h # rev zs)" by (simp only: last_Cons_rev)
  have Pin: "?P b \<in> set (?h # ys)" unfolding Pb by (rule last_in_set) simp
  have Nin: "?N b \<in> set (?h # zs)" unfolding Nb by (cases zs) auto
  have PbL: "?P b < length (k_bufs s)" "?P b \<noteq> b" using Pin inb dist by auto
  have NbL: "?N b < length (k_bufs s)" "?N b \<noteq> b" using Nin inb dist by auto
  define s1 where "s1 = upd_buf (?N b) (\<lambda>x. x\<lparr>b_prev := ?P b\<rparr>) s"
  define s2 where "s2 = upd_buf (?P b) (\<lambda>x. x\<lparr>b_next := ?N b\<rparr>) s1"
  have b1: "b_prev (bufof s b) = ?P b" "b_next (bufof s b) = ?N b" by (simp_all add: nx_def pv_def)
  have b2: "b_prev (bufof s1 b) = ?P b" "b_next (bufof s1 b) = ?N b"
    unfolding nx_def[symmetric] pv_def[symmetric] s1_def using NbL by (simp_all add: set_link)
  have un: "unlink_buf b s = Ret () s2"
    unfolding unlink_buf_def kseq.simps kcombinators b1 s1_def[symmetric]
    by (simp add: b2 s2_def)
  have len2: "length (k_bufs s2) = Suc NBUF" using len by (simp add: s1_def s2_def)
  have N2: "nx s2 = ?N(?P b := ?N b)"
    unfolding s2_def s1_def using PbL by (simp add: set_link)
  have P2: "pv s2 = ?P(?N b := ?P b)"
    unfolding s2_def s1_def using NbL by (simp add: set_link)
  have cN: "chain (nx s2) ?h (ys @ zs) ?h" unfolding N2 Pb by (rule chain_unlink[OF N dist])
  have cP: "chain (pv s2) ?h (rev zs @ rev ys) ?h" unfolding P2 Nb'
    by (rule chain_unlink[OF P]) (use dist in auto)
  define f where "f = nx s2 ?h"
  have f: "f = hd ((ys @ zs) @ [?h])" using chain_next[OF cN] by (simp only: f_def)
  then have f': "f = last (?h # rev zs @ rev ys)" using last_Cons_rev[of ?h "ys @ zs"] by simp
  have "f \<in> set ((ys @ zs) @ [?h])" unfolding f by (rule hd_in_set) simp
  then have "f \<in> {..<NBUF} - {b} \<union> {NBUF}" unfolding set_append[of "ys @ zs"] bs(2) by simp
  then have fL: "f < Suc NBUF" "f \<noteq> b" using bs(1) by auto
  define s3 where "s3 = upd_buf b (\<lambda>x. x\<lparr>b_next := f\<rparr>) s2"
  define s4 where "s4 = upd_buf b (\<lambda>x. x\<lparr>b_prev := ?h\<rparr>) s3"
  define s5 where "s5 = upd_buf f (\<lambda>x. x\<lparr>b_prev := b\<rparr>) s4"
  define s6 where "s6 = upd_buf ?h (\<lambda>x. x\<lparr>b_next := b\<rparr>) s5"
  have lens: "length (k_bufs s3) = Suc NBUF" "length (k_bufs s4) = Suc NBUF" "length (k_bufs s5) = Suc NBUF"
    using len2 by (simp_all add: s3_def s4_def s5_def)
  have f2: "b_next (bufof s2 ?h) = f" by (simp add: f_def nx_def)
  have f4: "b_next (bufof s4 ?h) = f" unfolding nx_def[symmetric] s4_def s3_def using bs len2 by (simp add: set_link f_def)
  have li: "link_first b s2 = Ret () s6"
    unfolding link_first_def kseq.simps kcombinators f2 obind.simps s3_def[symmetric] s4_def[symmetric]
    by (simp add: f4 s5_def s6_def)
  have N6: "nx s6 = ((nx s2)(b := f))(?h := b)"
    unfolding s6_def s5_def s4_def s3_def using bs fL len2 by (simp add: set_link)
  have P6: "pv s6 = ((pv s2)(b := ?h))(f := b)"
    unfolding s6_def s5_def s4_def s3_def using bs fL len2 by (simp add: set_link)
  have hb: "?h \<noteq> b" using bs by simp
  have "chain (nx s6) b (ys @ zs) ?h"
  proof (cases "ys @ zs")
    case Nil then show ?thesis using f hb by (simp add: N6)
  next
    case (Cons d ds)
    then have "set (d # ds) = set (ys @ zs)" by (simp only: Cons)
    have "set (d # ds) = {..<NBUF} - {b}" using bs(2) by (simp only: Cons)
    then have "d \<in> {..<NBUF} - {b}" "set ds \<subseteq> {..<NBUF} - {b}" by auto
    then have d: "d \<noteq> b" "d \<noteq> ?h" "b \<notin> set ds" "?h \<notin> set ds" by auto
    have "f = d" using f by (simp only: Cons) simp
    have "chain (nx s6) d ds ?h = chain (nx s2) d ds ?h" unfolding N6 using d by (intro chain_cong) auto
    then show ?thesis using Cons d cN hb \<open>f = d\<close> by (simp add: N6)
  qed
  then have "chain (nx s6) ?h (b # ys @ zs) ?h" by (simp add: N6)
  moreover have "chain (pv s6) ?h (rev (b # ys @ zs)) ?h"
  proof -
    have "chain ((pv s2)(f := b)) ?h (rev zs @ rev ys) b" unfolding f'
      by (rule chain_upd_last[OF _ cP]) (use dist in auto)
    moreover have "chain (pv s6) ?h (rev zs @ rev ys) b = chain ((pv s2)(f := b)) ?h (rev zs @ rev ys) b"
      unfolding P6 using dist hb by (intro chain_cong) auto
    moreover have "rev (b # ys @ zs) = (rev zs @ rev ys) @ b # []" by simp
    moreover have "pv s6 b = ?h" using fL by (simp add: P6)
    ultimately show ?thesis by (simp only: chain_append chain.simps)
  qed
  moreover have "length (k_bufs s6) = Suc NBUF" using lens by (simp add: s6_def)
  ultimately have "lru (b # ys @ zs) s6" using dist bs by (auto simp: lru_def)
  moreover have "\<forall>i < NBUF. info s6 i = info s i"
    unfolding s6_def s5_def s4_def s3_def s2_def s1_def by (simp add: set_link)
  moreover have "s6 = s\<lparr>k_bufs := k_bufs s6\<rparr>"
    unfolding s6_def s5_def s4_def s3_def s2_def s1_def by (simp add: upd_buf_def)
  moreover have "kseq [unlink_buf b, link_first b] s = Ret () s6"
    using un li by (simp add: kbind_def)
  ultimately show ?thesis by blast
qed

section \<open>The loops of bget\<close>

lemma scan_chain:
  assumes "chain (\<lambda>b. step (bufof s b)) x xs NBUF" "NBUF \<notin> set xs" "length xs < n"
  shows "scan_bufs n step P (step (bufof s x)) s = Ret (find (\<lambda>b. P (bufof s b)) xs) s"
  using assms
proof (induction xs arbitrary: x n)
  case Nil
  then obtain m where "n = Suc m" by (cases n) auto
  then show ?case using Nil by (simp add: kexec)
next
  case (Cons a xs)
  then obtain m where m: "n = Suc m" by (cases n) auto
  have a: "step (bufof s x) = a" "a \<noteq> NBUF" using Cons.prems by auto
  have "scan_bufs m step P (step (bufof s a)) s = Ret (find (\<lambda>b. P (bufof s b)) xs) s"
    using Cons by (simp add: m)
  then show ?case using a by (simp add: m kexec)
qed

lemma scan_next:
  assumes "lru xs s"
  shows "scan_bufs (Suc NBUF) b_next P (b_next (bufof s NBUF)) s = Ret (find (\<lambda>b. P (bufof s b)) xs) s"
proof (rule scan_chain)
  show "chain (\<lambda>b. b_next (bufof s b)) NBUF xs NBUF" using assms by (simp add: lru_def nx_def[abs_def])
qed (use assms lru_length[OF assms] in \<open>auto simp: lru_def\<close>)

lemma scan_prev:
  assumes "lru xs s"
  shows "scan_bufs (Suc NBUF) b_prev P (b_prev (bufof s NBUF)) s = Ret (find (\<lambda>b. P (bufof s b)) (rev xs)) s"
proof (rule scan_chain)
  show "chain (\<lambda>b. b_prev (bufof s b)) NBUF (rev xs) NBUF" using assms by (simp add: lru_def pv_def[abs_def])
qed (use assms lru_length[OF assms] in \<open>auto simp: lru_def\<close>)

end
