(* ===== verification/Bcache.thy ===== *)
theory Bcache
  imports Ring Proc_Inv
begin

text \<open>
  What the buffer cache promises to a thread that no other thread disturbs: the invariant of
  the cache and one lemma per operation. The scheduler's tables may change on the way
  (\<open>releasesleep\<close> wakes processes), so an operation is described by what it does to the cache
  and the disk, and by \<open>cache_only\<close>, which says that the rest stays.
\<close>

section \<open>A thread that runs undisturbed\<close>

text \<open>The current process \<open>p\<close>, with pid \<open>pid\<close>, holds no spin lock, and no other CPU does.\<close>

definition calm :: "nat set \<Rightarrow> nat \<Rightarrow> u32 \<Rightarrow> kernel \<Rightarrow> bool" where
  "calm sw p pid s \<longleftrightarrow> kinv (k_cfg s) sw s \<and> k_held s = [] \<and> myproc s = Some p \<and> p < NPROC \<and> p_pid (pr s p) = pid"

lemma kinv_cong:
  assumes "k_ptab t = k_ptab s" "k_pq t = k_pq s" "k_mq t = k_mq s" "k_me t = k_me s" "k_cpus t = k_cpus s"
  shows "kinv cfg sw t = kinv cfg sw s"
proof -
  have *: "kinv cfg sw t" if "kinv cfg sw s" "k_ptab t = k_ptab s" "k_pq t = k_pq s" "k_mq t = k_mq s"
    "k_me t = k_me s" "k_cpus t = k_cpus s" for s t
    using that by (intro kinv_frame[OF that(1)]) (simp_all add: same_sched_def cpu_proc_def fun_eq_iff pr_def)
  from *[of s t] *[of t s] assms show ?thesis by metis
qed

lemma calm_cong:
  assumes "k_ptab t = k_ptab s" "k_pq t = k_pq s" "k_mq t = k_mq s" "k_me t = k_me s" "k_cpus t = k_cpus s"
    "k_held t = k_held s" "k_cfg t = k_cfg s"
  shows "calm sw p pid t = calm sw p pid s"
  using kinv_cong[of t s] assms by (simp add: calm_def myproc_def mycpu_def pr_def)

lemma upd_sl_fields [simp]:
  "k_me (upd_sl l f s) = k_me s" "k_held (upd_sl l f s) = k_held s" "k_cpus (upd_sl l f s) = k_cpus s"
  "k_ptab (upd_sl l f s) = k_ptab s" "k_pq (upd_sl l f s) = k_pq s" "k_mq (upd_sl l f s) = k_mq s"
  "k_cfg (upd_sl l f s) = k_cfg s" "k_bufs (upd_sl l f s) = k_bufs s" "k_disk (upd_sl l f s) = k_disk s"
  "k_dwrites (upd_sl l f s) = k_dwrites s" "k_log (upd_sl l f s) = k_log s"
  "pr (upd_sl l f s) = pr s" "myproc (upd_sl l f s) = myproc s" "bufof (upd_sl l f s) = bufof s"
  "k_sleeplocks (upd_sl l f s) = (k_sleeplocks s)(l := f (k_sleeplocks s l))"
  by (simp_all add: upd_sl_def myproc_def mycpu_def bufof_def[abs_def])

lemma calm_upd [simp]:
  "calm sw p pid (upd_sl l f s) = calm sw p pid s"
  "calm sw p pid (upd_buf b g s) = calm sw p pid s"
  "calm sw p pid (s\<lparr>k_disk := d, k_dwrites := w\<rparr>) = calm sw p pid s"
  "calm sw p pid (s\<lparr>k_log := lg\<rparr>) = calm sw p pid s"
  by (rule calm_cong; simp)+

lemma calm_acquire [kexec]: "calm sw p pid s \<Longrightarrow> acquire l s = Ret () (s\<lparr>k_held := [(l, k_me s)]\<rparr>)"
  by (simp add: calm_def acquire_def holding_def lock_free_def)

lemma release_single:
  "k_held s = [(l, k_me s)] \<Longrightarrow> release l s = Ret () (s\<lparr>k_held := []\<rparr>)"
  by (simp add: release_def holding_def)

lemma myproc_held [simp]: "myproc (s\<lparr>k_held := h\<rparr>) = myproc s" "bufof (s\<lparr>k_held := h\<rparr>) = bufof s"
  by (simp_all add: myproc_def mycpu_def bufof_def[abs_def])

lemma unheld [simp]: "k_held s = [] \<Longrightarrow> s\<lparr>k_held := []\<rparr> = s"
  by simp

section \<open>Sleep locks\<close>

lemma upd_sl_twice: "upd_sl l f (upd_sl l g s) = upd_sl l (\<lambda>x. f (g x)) s"
  by (simp add: upd_sl_def)

lemma sl_full: "x\<lparr>sl_locked := a, sl_pid := b\<rparr> = \<lparr>sl_locked = a, sl_pid = b\<rparr>"
  by (cases x) simp

lemma upd_sl_held: "upd_sl l f (s\<lparr>k_held := h\<rparr>) = (upd_sl l f s)\<lparr>k_held := h\<rparr>"
  by (simp add: upd_sl_def)

lemma sleep_while_done: "\<not> b s \<Longrightarrow> sleep_while b chn lk s = Ret () s"
  by (cases "k_patience s") (simp_all add: sleep_while_def kexec)

lemma my_pid_run: "myproc s = Some p \<Longrightarrow> my_pid s = Ret (p_pid (pr s p)) s"
  by (simp add: my_pid_def kexec)

lemma acquiresleep_calm:
  assumes "calm sw p pid s" "\<not> sl_locked (k_sleeplocks s l)"
  shows "acquiresleep l s = Ret () (upd_sl l (\<lambda>_. \<lparr>sl_locked = True, sl_pid = pid\<rparr>) s)"
proof -
  have c: "k_held s = []" "myproc s = Some p" "p_pid (pr s p) = pid" using assms(1) by (auto simp: calm_def)
  let ?s = "s\<lparr>k_held := [(L_sleep l, k_me s)]\<rparr>"
  let ?t = "upd_sl l (\<lambda>x. x\<lparr>sl_pid := pid\<rparr>) (upd_sl l (\<lambda>x. x\<lparr>sl_locked := True\<rparr>) ?s)"
  have "acquiresleep l s = release (L_sleep l) ?t"
    using assms(2) c my_pid_run[of "upd_sl l (\<lambda>x. x\<lparr>sl_locked := True\<rparr>) ?s" p]
    by (simp add: acquiresleep_def kbind_def kupd_def calm_acquire[OF assms(1)] sleep_while_done)
  also have "\<dots> = Ret () (?t\<lparr>k_held := []\<rparr>)" by (rule release_single) simp
  also have "?t\<lparr>k_held := []\<rparr> = upd_sl l (\<lambda>_. \<lparr>sl_locked = True, sl_pid = pid\<rparr>) s"
    using c by (simp add: upd_sl_twice sl_full upd_sl_held)
  finally show ?thesis .
qed

lemma holdingsleep_calm:
  assumes "calm sw p pid s" "sl_locked (k_sleeplocks s l)" "sl_pid (k_sleeplocks s l) = pid"
  shows "holdingsleep l s = Ret True s"
proof -
  have c: "k_held s = []" "myproc s = Some p" "p_pid (pr s p) = pid" using assms(1) by (auto simp: calm_def)
  let ?s = "s\<lparr>k_held := [(L_sleep l, k_me s)]\<rparr>"
  have "holdingsleep l s = obind (release (L_sleep l) ?s) (\<lambda>_. kret True)"
    using assms c my_pid_run[of ?s p]
    by (simp add: holdingsleep_def kbind_def kif_def kget_def calm_acquire[OF assms(1)])
  also have "release (L_sleep l) ?s = Ret () (?s\<lparr>k_held := []\<rparr>)" by (rule release_single) simp
  finally show ?thesis using c by (simp add: kret_def)
qed

lemma calm_procs:
  assumes "calm sw p pid s" "procs_only s t" "kinv (k_cfg s) sw t" "k_cfg t = k_cfg s"
    "\<And>q. q < NPROC \<Longrightarrow> p_pid (pr t q) = p_pid (pr s q)"
  shows "calm sw p pid t"
  using assms by (simp add: calm_def myproc_def mycpu_def procs_onlyD)

lemma procs_onlyD':
  assumes "procs_only s t"
  shows "k_bufs t = k_bufs s" "k_disk t = k_disk s" "k_dwrites t = k_dwrites s" "k_log t = k_log s"
    "k_sleeplocks t = k_sleeplocks s" "k_cfg t = k_cfg s" "bufof t = bufof s" "info t = info s"
  using assms by (auto simp: procs_only_def bufof_def[abs_def] info_def[abs_def])

text \<open>The end of many operations: wake the sleepers on a channel and release the lock.\<close>

lemma wake_release_calm:
  assumes "calm sw p pid u" "l \<noteq> L_ptable"
  shows "\<exists>t. kseq [wake chn, release l] (u\<lparr>k_held := [(l, k_me u)]\<rparr>) = Ret () t \<and> calm sw p pid t \<and> procs_only u t"
proof -
  have c: "k_held u = []" "kinv (k_cfg u) sw u" using assms(1) by (auto simp: calm_def)
  let ?s = "u\<lparr>k_held := (l, k_me u) # k_held u\<rparr>"
  have k: "kinv (k_cfg u) sw ?s" and free: "lock_free L_ptable ?s" using c assms(2) by (simp_all add: lock_free_def)
  from wakeup_ok[OF k free, of chn] obtain t where
    t: "wakeup (k_cfg u) chn ?s = Ret () t" "kinv (k_cfg u) sw t" "procs_only ?s t"
      "\<forall>q < NPROC. pr t q = (if wakes (Some chn) (pr ?s q) then woken (k_cfg u) (pr ?s q) else pr ?s q)"
    by blast
  note rel = release_after[OF t(3)]
  have "kseq [wake chn, release l] ?s = Ret () (t\<lparr>k_held := []\<rparr>)"
    using t(1) rel(1) c by (simp add: kbind_def wake_def)
  moreover have po: "procs_only u (t\<lparr>k_held := []\<rparr>)" using rel(2) c by simp
  moreover have "calm sw p pid (t\<lparr>k_held := []\<rparr>)"
  proof (rule calm_procs[OF assms(1) po])
    show "kinv (k_cfg u) sw (t\<lparr>k_held := []\<rparr>)" using t(2) by simp
    show "k_cfg (t\<lparr>k_held := []\<rparr>) = k_cfg u" using procs_onlyD'[OF po] by simp
    fix q assume "q < NPROC"
    then show "p_pid (pr (t\<lparr>k_held := []\<rparr>) q) = p_pid (pr u q)" using t(4) by (auto simp: woken_def)
  qed
  ultimately show ?thesis using c by auto
qed

lemma releasesleep_calm:
  assumes "calm sw p pid s"
  shows "\<exists>t. releasesleep l s = Ret () t \<and> calm sw p pid t \<and>
    procs_only (upd_sl l (\<lambda>_. \<lparr>sl_locked = False, sl_pid = 0\<rparr>) s) t"
proof -
  have c: "k_held s = []" using assms by (simp add: calm_def)
  let ?u = "upd_sl l (\<lambda>_. \<lparr>sl_locked = False, sl_pid = 0\<rparr>) s"
  have eq: "upd_sl l (\<lambda>x. x\<lparr>sl_pid := 0\<rparr>) (upd_sl l (\<lambda>x. x\<lparr>sl_locked := False\<rparr>) (s\<lparr>k_held := [(L_sleep l, k_me s)]\<rparr>)) =
      ?u\<lparr>k_held := [(L_sleep l, k_me ?u)]\<rparr>"
    using c by (simp add: upd_sl_twice sl_full upd_sl_held)
  have "calm sw p pid ?u" using assms by simp
  from wake_release_calm[OF this, of "L_sleep l" "Ch_sleeplock l"] show ?thesis
    unfolding releasesleep_def kseq.simps kbind_def kupd_def calm_acquire[OF assms] obind.simps eq by simp
qed

end
