(* ===== verification/Cache_Inv.thy ===== *)
theory Cache_Inv
  imports Bcache
begin

text \<open>
  The invariant of the buffer cache for a thread that holds the buffers \<open>L\<close> locked, the content
  of a disk block as the file system sees it, and what \<open>bread\<close>, a change of the data, \<open>bwrite\<close>,
  \<open>log_write\<close>'s mark and \<open>brelse\<close> do to them.
\<close>

section \<open>The invariant\<close>

definition buf_ok :: "nat set \<Rightarrow> u32 \<Rightarrow> kernel \<Rightarrow> nat \<Rightarrow> bool" where
  "buf_ok L pid s i \<longleftrightarrow> (let x = bufof s i; l = k_sleeplocks s (SL_buf i) in
     length (b_data x) = BSIZE \<and>
     (b_dev x = 0 \<or> b_dev x = 1) \<and> (b_valid x \<longleftrightarrow> b_dev x = 1) \<and> (b_dirty x \<longrightarrow> b_valid x) \<and>
     (b_valid x \<longrightarrow> unat (b_blockno x) < disksize s) \<and>
     (b_valid x \<and> \<not> b_dirty x \<and> i \<notin> L \<longrightarrow> b_data x = disk_block (k_disk s) (unat (b_blockno x))) \<and>
     b_refcnt x = (if i \<in> L then 1 else 0) \<and>
     (sl_locked l \<longleftrightarrow> i \<in> L) \<and> (i \<in> L \<longrightarrow> b_valid x \<and> sl_pid l = pid))"

definition cinv :: "nat set \<Rightarrow> u32 \<Rightarrow> kernel \<Rightarrow> bool" where
  "cinv L pid s \<longleftrightarrow> (\<exists>xs. lru xs s) \<and> L \<subseteq> {..<NBUF} \<and> (\<forall>i < NBUF. buf_ok L pid s i) \<and>
     (\<forall>i < NBUF. \<forall>j < NBUF. b_valid (bufof s i) \<and> b_valid (bufof s j) \<and>
        b_blockno (bufof s i) = b_blockno (bufof s j) \<longrightarrow> i = j)"

text \<open>Buffer \<open>i\<close> caches block \<open>n\<close>.\<close>

definition caches :: "kernel \<Rightarrow> nat \<Rightarrow> u32 \<Rightarrow> bool" where
  "caches s i n \<longleftrightarrow> i < NBUF \<and> b_valid (bufof s i) \<and> b_blockno (bufof s i) = n"

text \<open>The content of block \<open>n\<close>: the cached data, else the block on the disk.\<close>

definition content :: "kernel \<Rightarrow> u32 \<Rightarrow> u8 list" where
  "content s n = (case find (\<lambda>i. b_valid (bufof s i) \<and> b_blockno (bufof s i) = n) [0..<NBUF] of
     Some i \<Rightarrow> b_data (bufof s i) | None \<Rightarrow> disk_block (k_disk s) (unat n))"

definition pinned :: "kernel \<Rightarrow> u32 set" where
  "pinned s = {n. \<exists>i. caches s i n \<and> b_dirty (bufof s i)}"

text \<open>There is a buffer to recycle.\<close>

definition room :: "nat set \<Rightarrow> kernel \<Rightarrow> bool" where
  "room L s \<longleftrightarrow> (\<exists>i < NBUF. i \<notin> L \<and> \<not> b_dirty (bufof s i))"

section \<open>Content\<close>

lemma caches_unique: "cinv L pid s \<Longrightarrow> caches s i n \<Longrightarrow> caches s j n \<Longrightarrow> i = j"
  by (simp add: cinv_def caches_def)

lemma content_cached:
  assumes "cinv L pid s" "caches s i n"
  shows "content s n = b_data (bufof s i)"
proof -
  let ?P = "\<lambda>i. b_valid (bufof s i) \<and> b_blockno (bufof s i) = n"
  have "find ?P [0..<NBUF] \<noteq> None" using assms(2) by (auto simp: find_upt_None caches_def)
  then obtain j where j: "find ?P [0..<NBUF] = Some j" by blast
  from find_upt_Some[OF j] have "caches s j n" by (simp add: caches_def)
  then have "j = i" using caches_unique[OF assms(1) _ assms(2)] by simp
  then show ?thesis using j by (simp add: content_def)
qed

lemma content_uncached:
  assumes "\<And>i. \<not> caches s i n"
  shows "content s n = disk_block (k_disk s) (unat n)"
proof -
  have "find (\<lambda>i. b_valid (bufof s i) \<and> b_blockno (bufof s i) = n) [0..<NBUF] = None"
    using assms by (auto simp: find_upt_None caches_def)
  then show ?thesis by (simp add: content_def)
qed

lemma buf_ok_cong:
  assumes "info t i = info s i" "k_sleeplocks t (SL_buf i) = k_sleeplocks s (SL_buf i)" "k_disk t = k_disk s"
    "i \<in> L' \<longleftrightarrow> i \<in> L"
  shows "buf_ok L' pid t i = buf_ok L pid s i"
  using assms by (simp add: buf_ok_def info_def Let_def disksize_def)

lemma info_eqD:
  assumes "info t i = info s i"
  shows "b_valid (bufof t i) = b_valid (bufof s i)" "b_dirty (bufof t i) = b_dirty (bufof s i)"
    "b_dev (bufof t i) = b_dev (bufof s i)" "b_blockno (bufof t i) = b_blockno (bufof s i)"
    "b_refcnt (bufof t i) = b_refcnt (bufof s i)" "b_data (bufof t i) = b_data (bufof s i)"
  using assms by (simp_all add: info_def Let_def)

lemma caches_cong: "info t i = info s i \<Longrightarrow> caches t i n = caches s i n"
  using info_eqD(1,4)[of t i s] by (simp add: caches_def)

lemma cinvD:
  assumes "cinv L pid s" "i < NBUF"
  shows "length (b_data (bufof s i)) = BSIZE" "b_dev (bufof s i) = 0 \<or> b_dev (bufof s i) = 1"
    "b_valid (bufof s i) \<longleftrightarrow> b_dev (bufof s i) = 1" "b_dirty (bufof s i) \<Longrightarrow> b_valid (bufof s i)"
    "b_valid (bufof s i) \<Longrightarrow> unat (b_blockno (bufof s i)) < disksize s"
    "b_valid (bufof s i) \<Longrightarrow> \<not> b_dirty (bufof s i) \<Longrightarrow> i \<notin> L \<Longrightarrow>
       b_data (bufof s i) = disk_block (k_disk s) (unat (b_blockno (bufof s i)))"
    "b_refcnt (bufof s i) = (if i \<in> L then 1 else 0)"
    "sl_locked (k_sleeplocks s (SL_buf i)) \<longleftrightarrow> i \<in> L"
    "i \<in> L \<Longrightarrow> b_valid (bufof s i)" "i \<in> L \<Longrightarrow> sl_pid (k_sleeplocks s (SL_buf i)) = pid"
proof -
  have "buf_ok L pid s i" using assms by (simp add: cinv_def)
  note b = this[unfolded buf_ok_def Let_def]
  show "length (b_data (bufof s i)) = BSIZE" "b_dev (bufof s i) = 0 \<or> b_dev (bufof s i) = 1"
    "b_valid (bufof s i) \<longleftrightarrow> b_dev (bufof s i) = 1" "b_dirty (bufof s i) \<Longrightarrow> b_valid (bufof s i)"
    "b_valid (bufof s i) \<Longrightarrow> unat (b_blockno (bufof s i)) < disksize s"
    "b_valid (bufof s i) \<Longrightarrow> \<not> b_dirty (bufof s i) \<Longrightarrow> i \<notin> L \<Longrightarrow>
       b_data (bufof s i) = disk_block (k_disk s) (unat (b_blockno (bufof s i)))"
    "b_refcnt (bufof s i) = (if i \<in> L then 1 else 0)"
    "sl_locked (k_sleeplocks s (SL_buf i)) \<longleftrightarrow> i \<in> L"
    "i \<in> L \<Longrightarrow> b_valid (bufof s i)" "i \<in> L \<Longrightarrow> sl_pid (k_sleeplocks s (SL_buf i)) = pid"
    using b by blast+
qed

text \<open>A change of one buffer and its lock, perhaps of the disk.\<close>

lemma cinv_change:
  assumes s: "cinv L pid s" and L': "L' \<subseteq> {..<NBUF}" and b: "b < NBUF"
    and lru: "lru xs t" and info: "\<And>i. i < NBUF \<Longrightarrow> i \<noteq> b \<Longrightarrow> info t i = info s i"
    and sl: "\<And>i. i \<noteq> b \<Longrightarrow> k_sleeplocks t (SL_buf i) = k_sleeplocks s (SL_buf i)"
    and LL: "\<And>i. i \<noteq> b \<Longrightarrow> i \<in> L' \<longleftrightarrow> i \<in> L"
    and disk: "disksize t = disksize s"
      "\<And>i. i < NBUF \<Longrightarrow> i \<noteq> b \<Longrightarrow> b_valid (bufof s i) \<Longrightarrow>
        disk_block (k_disk t) (unat (b_blockno (bufof s i))) = disk_block (k_disk s) (unat (b_blockno (bufof s i)))"
    and ok: "buf_ok L' pid t b"
    and new: "\<And>i. i \<noteq> b \<Longrightarrow> caches s i (b_blockno (bufof t b)) \<Longrightarrow> b_valid (bufof t b) \<Longrightarrow> False"
  shows "cinv L' pid t"
proof -
  have bo: "buf_ok L' pid t i" if "i < NBUF" for i
  proof (cases "i = b")
    case False
    have "buf_ok L pid s i" using s that by (simp add: cinv_def)
    then show ?thesis using disk(2)[OF that False]
      unfolding buf_ok_def Let_def info_eqD[OF info[OF that False]] sl[OF False] LL[OF False] disk(1) by argo
  qed (use ok in simp)
  have "i = j" if "i < NBUF" "j < NBUF" "b_valid (bufof t i)" "b_valid (bufof t j)"
      "b_blockno (bufof t i) = b_blockno (bufof t j)" for i j
  proof (cases "i = b"; cases "j = b")
    assume "i = b" "j \<noteq> b"
    then show ?thesis using that new[of j] info_eqD[OF info[of j]] by (simp add: caches_def)
  next
    assume "i \<noteq> b" "j = b"
    then show ?thesis using that new[of i] info_eqD[OF info[of i]] by (simp add: caches_def)
  next
    assume "i \<noteq> b" "j \<noteq> b"
    then show ?thesis using that s info_eqD[OF info[of i]] info_eqD[OF info[of j]] by (simp add: cinv_def)
  qed simp
  then show ?thesis unfolding cinv_def using lru L' bo by blast
qed

section \<open>What stays\<close>

text \<open>Only the process tables, the locks of buffers and the buffers change.\<close>

definition cache_only :: "kernel \<Rightarrow> kernel \<Rightarrow> bool" where
  "cache_only s t \<longleftrightarrow> (\<exists>pt q m sl bs.
     t = s\<lparr>k_ptab := pt, k_pq := q, k_mq := m, k_sleeplocks := sl, k_bufs := bs\<rparr> \<and>
     (\<forall>i. sl (SL_inode i) = k_sleeplocks s (SL_inode i)))"

lemma cache_onlyD:
  assumes "cache_only s t"
  shows "k_disk t = k_disk s" "k_dwrites t = k_dwrites s" "k_log t = k_log s" "k_sb t = k_sb s"
    "k_inodes t = k_inodes s" "k_cfg t = k_cfg s" "k_me t = k_me s" "disksize t = disksize s"
    "k_patience t = k_patience s" "k_sleeplocks t (SL_inode i) = k_sleeplocks s (SL_inode i)"
  using assms by (auto simp: cache_only_def disksize_def)

lemma cache_only_trans: "cache_only s t \<Longrightarrow> cache_only t u \<Longrightarrow> cache_only s u"
proof -
  assume "cache_only s t" "cache_only t u"
  then obtain pt q m sl bs pt' q' m' sl' bs' where
    "t = s\<lparr>k_ptab := pt, k_pq := q, k_mq := m, k_sleeplocks := sl, k_bufs := bs\<rparr>"
    "\<forall>i. sl (SL_inode i) = k_sleeplocks s (SL_inode i)"
    "u = t\<lparr>k_ptab := pt', k_pq := q', k_mq := m', k_sleeplocks := sl', k_bufs := bs'\<rparr>"
    "\<forall>i. sl' (SL_inode i) = k_sleeplocks t (SL_inode i)" unfolding cache_only_def by blast
  then have "u = s\<lparr>k_ptab := pt', k_pq := q', k_mq := m', k_sleeplocks := sl', k_bufs := bs'\<rparr>"
    "\<forall>i. sl' (SL_inode i) = k_sleeplocks s (SL_inode i)" by simp_all
  then show ?thesis unfolding cache_only_def by blast
qed

lemma cache_only_procs: "procs_only s t \<Longrightarrow> cache_only s t"
proof -
  assume "procs_only s t"
  then obtain pt q m where "t = s\<lparr>k_ptab := pt, k_pq := q, k_mq := m\<rparr>" unfolding procs_only_def by blast
  then have "t = s\<lparr>k_ptab := pt, k_pq := q, k_mq := m, k_sleeplocks := k_sleeplocks s, k_bufs := k_bufs s\<rparr>" by simp
  then show ?thesis unfolding cache_only_def by blast
qed

lemma cache_only_bufs: "cache_only s (s\<lparr>k_bufs := bs\<rparr>)"
proof -
  have "s\<lparr>k_bufs := bs\<rparr> = s\<lparr>k_ptab := k_ptab s, k_pq := k_pq s, k_mq := k_mq s,
      k_sleeplocks := k_sleeplocks s, k_bufs := bs\<rparr>" by simp
  then show ?thesis unfolding cache_only_def by blast
qed

lemma cache_only_refl [simp]: "cache_only s s"
  by (rule cache_only_procs) simp

lemma cache_only_upd_buf [simp]: "cache_only s (upd_buf b f s)"
  unfolding upd_buf_def by (rule cache_only_bufs)

lemma cache_only_upd_sl [simp]: "cache_only s (upd_sl (SL_buf b) f s)"
proof -
  have "upd_sl (SL_buf b) f s = s\<lparr>k_ptab := k_ptab s, k_pq := k_pq s, k_mq := k_mq s,
      k_sleeplocks := (k_sleeplocks s)(SL_buf b := f (k_sleeplocks s (SL_buf b))), k_bufs := k_bufs s\<rparr>"
    by (simp add: upd_sl_def)
  moreover have "\<forall>i. ((k_sleeplocks s)(SL_buf b := f (k_sleeplocks s (SL_buf b)))) (SL_inode i) = k_sleeplocks s (SL_inode i)"
    by simp
  ultimately show ?thesis unfolding cache_only_def by blast
qed

section \<open>bget\<close>

lemma upd_buf_held: "upd_buf b f (s\<lparr>k_held := h\<rparr>) = (upd_buf b f s)\<lparr>k_held := h\<rparr>"
  by (simp add: upd_buf_def)

definition locked_by :: "u32 \<Rightarrow> nat \<Rightarrow> kernel \<Rightarrow> kernel" where
  "locked_by pid b = upd_sl (SL_buf b) (\<lambda>_. \<lparr>sl_locked = True, sl_pid = pid\<rparr>)"

text \<open>After the buffer is chosen: the update, the release of the cache lock, the sleep lock.\<close>

lemma bget_take:
  assumes "calm sw p pid s" "\<not> sl_locked (k_sleeplocks s (SL_buf b))"
  shows "kbind (kseq [kupd (upd_buf b f), release L_bcache, acquiresleep (SL_buf b)]) (\<lambda>_. kret b)
      (s\<lparr>k_held := [(L_bcache, k_me s)]\<rparr>) = Ret b (locked_by pid b (upd_buf b f s))"
proof -
  have h: "k_held s = []" using assms(1) by (simp add: calm_def)
  let ?u = "(upd_buf b f s)\<lparr>k_held := [(L_bcache, k_me s)]\<rparr>"
  have "release L_bcache ?u = Ret () (?u\<lparr>k_held := []\<rparr>)" by (rule release_single) simp
  also have "?u\<lparr>k_held := []\<rparr> = upd_buf b f s" using h by simp
  finally have r: "release L_bcache ?u = Ret () (upd_buf b f s)" .
  have "calm sw p pid (upd_buf b f s)" using assms(1) by simp
  then have "acquiresleep (SL_buf b) (upd_buf b f s) = Ret () (locked_by pid b (upd_buf b f s))"
    unfolding locked_by_def by (rule acquiresleep_calm) (simp add: assms(2))
  then show ?thesis using r by (simp add: kbind_def kupd_def kret_def upd_buf_held)
qed

lemma bget_hit:
  assumes c: "calm sw p pid s" and "lru xs s" "\<not> sl_locked (k_sleeplocks s (SL_buf b))"
    and "find (\<lambda>b. b_dev (bufof s b) = dev \<and> b_blockno (bufof s b) = n) xs = Some b"
  shows "bget dev n s = Ret b (locked_by pid b (upd_buf b (\<lambda>x. x\<lparr>b_refcnt := b_refcnt x + 1\<rparr>) s))"
proof -
  let ?s = "s\<lparr>k_held := [(L_bcache, k_me s)]\<rparr>"
  have "lru xs ?s" using assms(2) lru_cong[of ?s s] by simp
  note sc = scan_next[OF this, of "\<lambda>x. b_dev x = dev \<and> b_blockno x = n"]
  have "bget dev n s = kbind (kseq [kupd (upd_buf b (\<lambda>x. x\<lparr>b_refcnt := b_refcnt x + 1\<rparr>)), release L_bcache,
      acquiresleep (SL_buf b)]) (\<lambda>_. kret b) ?s"
    unfolding bget_def kbind_def[of "acquire L_bcache"] calm_acquire[OF c] obind.simps
    using sc assms(4) by (simp add: kbind_def kget_def del: scan_bufs.simps kseq.simps)
  then show ?thesis using bget_take[OF c assms(3)] by simp
qed

lemma bget_miss:
  assumes c: "calm sw p pid s" and "lru xs s" "\<not> sl_locked (k_sleeplocks s (SL_buf b))"
    and "find (\<lambda>b. b_dev (bufof s b) = dev \<and> b_blockno (bufof s b) = n) xs = None"
    and "find (\<lambda>b. b_refcnt (bufof s b) = 0 \<and> \<not> b_dirty (bufof s b)) (rev xs) = Some b"
  shows "bget dev n s = Ret b (locked_by pid b (upd_buf b (\<lambda>x. x\<lparr>b_dev := dev, b_blockno := n, b_valid := False,
                 b_dirty := False, b_refcnt := 1\<rparr>) s))"
proof -
  let ?s = "s\<lparr>k_held := [(L_bcache, k_me s)]\<rparr>"
  have l: "lru xs ?s" using assms(2) lru_cong[of ?s s] by simp
  note sc = scan_next[OF l, of "\<lambda>x. b_dev x = dev \<and> b_blockno x = n"]
    scan_prev[OF l, of "\<lambda>x. b_refcnt x = 0 \<and> \<not> b_dirty x"]
  have "bget dev n s = kbind (kseq [kupd (upd_buf b (\<lambda>x. x\<lparr>b_dev := dev, b_blockno := n, b_valid := False,
                 b_dirty := False, b_refcnt := 1\<rparr>)), release L_bcache,
      acquiresleep (SL_buf b)]) (\<lambda>_. kret b) ?s"
    unfolding bget_def kbind_def[of "acquire L_bcache"] calm_acquire[OF c] obind.simps
    using sc assms(4,5) by (simp add: kbind_def kget_def del: scan_bufs.simps kseq.simps)
  then show ?thesis using bget_take[OF c assms(3)] by simp
qed

end
