(* ===== verification/Cache_Ops.thy ===== *)
theory Cache_Ops
  imports Cache_Inv
begin

text \<open>The operations of the buffer cache over its invariant.\<close>

section \<open>Changes of one buffer\<close>

lemma upd_buf_twice: "upd_buf b f (upd_buf b g s) = upd_buf b (\<lambda>x. f (g x)) s"
proof (cases "b < length (k_bufs s)")
  case False
  then have "upd_buf b h s = s" for h by (simp add: upd_buf_def list_update_beyond)
  then show ?thesis by simp
qed (simp add: upd_buf_def)

lemma upd_buf_disk: "upd_buf b f (s\<lparr>k_disk := d, k_dwrites := w\<rparr>) = (upd_buf b f s)\<lparr>k_disk := d, k_dwrites := w\<rparr>"
  by (simp add: upd_buf_def)

lemma locked_by_fields [simp]:
  "k_bufs (locked_by pid b s) = k_bufs s" "k_disk (locked_by pid b s) = k_disk s" "bufof (locked_by pid b s) = bufof s"
  "k_dwrites (locked_by pid b s) = k_dwrites s" "disksize (locked_by pid b s) = disksize s"
  "calm sw p q (locked_by pid b s) = calm sw p q s"
  "k_sleeplocks (locked_by pid b s) = (k_sleeplocks s)(SL_buf b := \<lparr>sl_locked = True, sl_pid = pid\<rparr>)"
  by (simp_all add: locked_by_def disksize_def)

lemma disksize_upd_buf [simp]: "disksize (upd_buf b f s) = disksize s"
  by (simp add: disksize_def)

lemma lru_upd_buf:
  assumes "\<And>x. b_next (f x) = b_next x" "\<And>x. b_prev (f x) = b_prev x"
  shows "lru xs (upd_buf b f s) = lru xs s"
proof (cases "b < length (k_bufs s)")
  case True
  then have "nx (upd_buf b f s) = nx s" "pv (upd_buf b f s) = pv s"
    using assms by (simp_all add: nx_upd pv_upd fun_upd_idem nx_def pv_def)
  then show ?thesis by (simp add: lru_def)
next
  case False
  then have "upd_buf b f s = s" by (simp add: upd_buf_def list_update_beyond)
  then show ?thesis by simp
qed

lemma info_upd_other: "i \<noteq> b \<Longrightarrow> info (upd_buf b f s) i = info s i"
  by (simp add: info_def bufof_def upd_buf_def)

lemma info_locked [simp]: "info (locked_by pid b s) = info s"
  by (rule ext) (simp add: info_def)

lemma lru_locked [simp]: "lru xs (locked_by pid b s) = lru xs s"
  by (rule lru_cong) simp

lemma cinv_lru: "cinv L pid s \<Longrightarrow> \<exists>xs. lru xs s"
  by (simp add: cinv_def)

lemma lru_len: "lru xs s \<Longrightarrow> b < NBUF \<Longrightarrow> b < length (k_bufs s)"
  by (simp add: lru_def)

section \<open>Content and pins after a change\<close>

lemma content_eqI:
  assumes "cinv L pid s" "cinv L' pid t"
    and "\<And>i. caches t i m \<Longrightarrow> b_data (bufof t i) = content s m"
    and "\<And>i. caches s i m \<Longrightarrow> (\<And>j. \<not> caches t j m) \<Longrightarrow> b_data (bufof s i) = disk_block (k_disk t) (unat m)"
    and "(\<And>i. \<not> caches s i m) \<Longrightarrow> disk_block (k_disk t) (unat m) = disk_block (k_disk s) (unat m)"
  shows "content t m = content s m"
proof (cases "\<exists>i. caches t i m")
  case True
  then show ?thesis using content_cached[OF assms(2)] assms(3) by metis
next
  case False
  then have t: "content t m = disk_block (k_disk t) (unat m)" using content_uncached by blast
  show ?thesis
  proof (cases "\<exists>i. caches s i m")
    case True
    then show ?thesis using assms(4) False t content_cached[OF assms(1)] by metis
  next
    case c: False
    then have "content s m = disk_block (k_disk s) (unat m)" using content_uncached by blast
    then show ?thesis using t assms(5) c by simp
  qed
qed

lemma pinned_eqI:
  assumes "\<And>i m. caches t i m \<and> b_dirty (bufof t i) \<longleftrightarrow> caches s i m \<and> b_dirty (bufof s i)"
  shows "pinned t = pinned s"
  using assms by (simp add: pinned_def)

section \<open>The disk\<close>

lemma iderw_read:
  assumes c: "calm sw p pid s" and l: "k_sleeplocks s (SL_buf b) = \<lparr>sl_locked = True, sl_pid = pid\<rparr>"
    and b: "\<not> b_valid (bufof s b)" "\<not> b_dirty (bufof s b)" "b_dev (bufof s b) = 1"
      "unat (b_blockno (bufof s b)) < disksize s" "b < length (k_bufs s)"
  shows "iderw b s = Ret () (upd_buf b (\<lambda>x. x\<lparr>b_data := disk_block (k_disk s) (unat (b_blockno x)), b_valid := True\<rparr>) s)"
proof -
  have "holdingsleep (SL_buf b) s = Ret True s" using holdingsleep_calm[OF c] l by simp
  then show ?thesis using b by (simp add: iderw_def kexec upd_buf_twice)
qed

lemma iderw_write:
  assumes c: "calm sw p pid s" and l: "k_sleeplocks s (SL_buf b) = \<lparr>sl_locked = True, sl_pid = pid\<rparr>"
    and b: "b_dirty (bufof s b)" "b_dev (bufof s b) = 1"
      "unat (b_blockno (bufof s b)) < disksize s" "b < length (k_bufs s)"
  shows "iderw b s = Ret () (upd_buf b (\<lambda>x. x\<lparr>b_dirty := False, b_valid := True\<rparr>)
    (s\<lparr>k_disk := disk_write (unat (b_blockno (bufof s b))) (b_data (bufof s b)) (k_disk s),
       k_dwrites := (b_blockno (bufof s b), b_data (bufof s b)) # k_dwrites s\<rparr>))"
proof -
  have "holdingsleep (SL_buf b) s = Ret True s" using holdingsleep_calm[OF c] l by simp
  moreover have "disksize (upd_buf b f s) = disksize s" for f by simp
  ultimately show ?thesis using b
    by (simp add: iderw_def kexec bufof_upd upd_buf_disk upd_buf_twice)
qed

lemma get_put_range_after:
  "i + length xs \<le> length bs \<Longrightarrow> i + length xs \<le> j \<Longrightarrow> get_range j n (put_range i xs bs) = get_range j n bs"
  by (simp add: get_range_def put_range_def)

lemma get_put_range_before:
  "j + n \<le> i \<Longrightarrow> i \<le> length bs \<Longrightarrow> get_range j n (put_range i xs bs) = get_range j n bs"
  by (simp add: get_range_def put_range_def min_def take_drop)

lemma disk_write_block:
  assumes "length bs = BSIZE" "a < length d div BSIZE"
  shows "length (disk_write a bs d) = length d"
    "disk_block (disk_write a bs d) b = (if a = b then bs else disk_block d b)"
proof -
  have "(a + 1) * BSIZE \<le> (length d div BSIZE) * BSIZE" using assms(2) by (intro mult_le_mono1) simp
  also have "\<dots> \<le> length d" by (rule div_times_less_eq_dividend)
  finally have fit: "a * BSIZE + BSIZE \<le> length d" by simp
  show "length (disk_write a bs d) = length d" using fit assms(1) by (simp add: disk_write_def)
  show "disk_block (disk_write a bs d) b = (if a = b then bs else disk_block d b)"
  proof (cases "a = b")
    case True
    have "a * BSIZE \<le> length d" using fit by simp
    then show ?thesis using True assms(1) get_put_range[of "a * BSIZE" d bs] by (simp add: disk_block_def disk_write_def)
  next
    case False
    then consider "a + 1 \<le> b" | "b + 1 \<le> a" by linarith
    then show ?thesis
    proof cases
      case 1
      then have "(a + 1) * BSIZE \<le> b * BSIZE" by (rule mult_le_mono1)
      then show ?thesis using False fit assms(1)
        by (simp add: disk_block_def disk_write_def get_put_range_after)
    next
      case 2
      then have "(b + 1) * BSIZE \<le> a * BSIZE" by (rule mult_le_mono1)
      then show ?thesis using False fit by (simp add: disk_block_def disk_write_def get_put_range_before)
    qed
  qed
qed

section \<open>bread\<close>

text \<open>What holds after \<open>bread\<close> returned \<open>b\<close> for block \<open>n\<close>.\<close>

definition got :: "nat set \<Rightarrow> u32 \<Rightarrow> kernel \<Rightarrow> u32 \<Rightarrow> nat \<Rightarrow> kernel \<Rightarrow> bool" where
  "got L pid s n b t \<longleftrightarrow> cinv (insert b L) pid t \<and> b \<notin> L \<and> caches t b n \<and>
     b_data (bufof t b) = content s n \<and> (\<forall>m. content t m = content s m) \<and> pinned t = pinned s \<and>
     cache_only s t \<and> (\<forall>j \<in> L. info t j = info s j)"

lemma bread_hit:
  assumes c: "calm sw p pid s" and inv: "cinv L pid s" and b: "caches s b n" "b \<notin> L"
  shows "\<exists>t. bread 1 n s = Ret b t \<and> calm sw p pid t \<and> got L pid s n b t"
proof -
  obtain xs where xs: "lru xs s" using cinv_lru[OF inv] by blast
  have bN: "b < NBUF" "b_valid (bufof s b)" "b_blockno (bufof s b) = n" using b(1) by (auto simp: caches_def)
  note D = cinvD[OF inv]
  let ?P = "\<lambda>b. b_dev (bufof s b) = 1 \<and> b_blockno (bufof s b) = n"
  have P: "?P i \<longleftrightarrow> i = b" if "i < NBUF" for i
    using D(3)[OF that] D(3)[OF bN(1)] bN that caches_unique[OF inv, of i n b] by (auto simp: caches_def)
  have setxs: "set xs = {..<NBUF}" using xs by (simp add: lru_def)
  have "find ?P xs = Some b"
  proof -
    have "find ?P xs \<noteq> None" using P[OF bN(1)] bN(1) setxs by (auto simp: find_None_iff)
    then obtain j where j: "find ?P xs = Some j" by blast
    then have "j \<in> set xs" "?P j" by (auto simp: find_Some_iff)
    then show ?thesis using j P[of j] setxs by auto
  qed
  moreover have "\<not> sl_locked (k_sleeplocks s (SL_buf b))" using D(8)[OF bN(1)] b(2) by simp
  ultimately have g: "bget 1 n s = Ret b (locked_by pid b (upd_buf b (\<lambda>x. x\<lparr>b_refcnt := b_refcnt x + 1\<rparr>) s))"
    by (intro bget_hit[OF c xs])
  define t where "t = locked_by pid b (upd_buf b (\<lambda>x. x\<lparr>b_refcnt := b_refcnt x + 1\<rparr>) s)"
  have lb: "b < length (k_bufs s)" by (rule lru_len[OF xs bN(1)])
  have tb: "bufof t b = (bufof s b)\<lparr>b_refcnt := b_refcnt (bufof s b) + 1\<rparr>" using lb by (simp add: t_def bufof_upd)
  have r: "bread 1 n s = Ret b t" using g bN(2) tb unfolding t_def[symmetric] by (simp add: bread_def kexec)
  have other: "info t i = info s i" if "i \<noteq> b" for i using that by (simp add: t_def info_upd_other)
  have td: "k_disk t = k_disk s" "disksize t = disksize s" by (simp_all add: t_def)
  have ti: "cinv (insert b L) pid t"
  proof (rule cinv_change[OF inv _ bN(1)])
    show "insert b L \<subseteq> {..<NBUF}" using inv bN(1) by (auto simp: cinv_def)
    show "lru xs t" using xs by (simp add: t_def lru_upd_buf)
    show "buf_ok (insert b L) pid t b"
      using D[OF bN(1)] tb b(2) bN(2) by (simp add: buf_ok_def Let_def t_def)
    fix i assume "i \<noteq> b" "caches s i (b_blockno (bufof t b))" "b_valid (bufof t b)"
    then show False using caches_unique[OF inv b(1), of i] tb bN(3) by simp
  qed (simp_all add: other td, simp add: t_def)
  have cc: "caches t i m = caches s i m" "b_dirty (bufof t i) = b_dirty (bufof s i)" "b_data (bufof t i) = b_data (bufof s i)" for i m
    by (cases "i = b"; use tb info_eqD[OF other[of i]] in \<open>simp add: caches_def\<close>)+
  have "content t m = content s m" for m
    by (rule content_eqI[OF inv ti]) (use cc content_cached[OF inv] in \<open>auto simp: t_def\<close>)
  moreover have "pinned t = pinned s" by (rule pinned_eqI) (simp add: cc)
  moreover have "caches t b n" "b_data (bufof t b) = content s n" using cc b(1) content_cached[OF inv b(1)] by auto
  moreover have "cache_only s t"
    unfolding t_def locked_by_def by (rule cache_only_trans[OF cache_only_upd_buf cache_only_upd_sl])
  moreover have "\<forall>j \<in> L. info t j = info s j" using other b(2) by metis
  ultimately have "got L pid s n b t" using ti b(2) by (simp add: got_def)
  then show ?thesis using r c by (auto simp: t_def)
qed

lemma bread_miss:
  assumes c: "calm sw p pid s" and inv: "cinv L pid s" and un: "\<And>i. \<not> caches s i n"
    and room: "room L s" and n: "unat n < disksize s"
  shows "\<exists>b t. bread 1 n s = Ret b t \<and> calm sw p pid t \<and> got L pid s n b t"
proof -
  obtain xs where xs: "lru xs s" using cinv_lru[OF inv] by blast
  note D = cinvD[OF inv]
  have setxs: "set xs = {..<NBUF}" using xs by (simp add: lru_def)
  have none: "find (\<lambda>b. b_dev (bufof s b) = 1 \<and> b_blockno (bufof s b) = n) xs = None"
    unfolding find_None_iff setxs using un D(3) by (auto simp: caches_def)
  let ?Q = "\<lambda>b. b_refcnt (bufof s b) = 0 \<and> \<not> b_dirty (bufof s b)"
  obtain j where j: "j < NBUF" "j \<notin> L" "\<not> b_dirty (bufof s j)" using room by (auto simp: room_def)
  have "?Q j" using j D(7)[OF j(1)] by simp
  then have "find ?Q (rev xs) \<noteq> None" unfolding find_None_iff using j(1) setxs by auto
  then obtain b where fb: "find ?Q (rev xs) = Some b" by blast
  have "b \<in> set (rev xs)" "?Q b"
  proof -
    obtain i where "i < length (rev xs)" "b = rev xs ! i" "?Q (rev xs ! i)" using fb unfolding find_Some_iff by blast
    then show "b \<in> set (rev xs)" "?Q b" using nth_mem[of i "rev xs"] by metis+
  qed
  then have bN: "b < NBUF" "b_refcnt (bufof s b) = 0" "\<not> b_dirty (bufof s b)" using setxs by auto
  have bL: "b \<notin> L" using D(7)[OF bN(1)] bN(2) by auto
  have ul: "\<not> sl_locked (k_sleeplocks s (SL_buf b))" using D(8)[OF bN(1)] bL by simp
  have lb: "b < length (k_bufs s)" by (rule lru_len[OF xs bN(1)])
  define u where "u = locked_by pid b (upd_buf b (\<lambda>x. x\<lparr>b_dev := 1, b_blockno := n, b_valid := False,
                 b_dirty := False, b_refcnt := 1\<rparr>) s)"
  have g: "bget 1 n s = Ret b u" unfolding u_def by (rule bget_miss[OF c xs ul none fb])
  have ub: "bufof u b = (bufof s b)\<lparr>b_dev := 1, b_blockno := n, b_valid := False, b_dirty := False, b_refcnt := 1\<rparr>"
    using lb by (simp add: u_def bufof_upd)
  define t where "t = upd_buf b (\<lambda>x. x\<lparr>b_data := disk_block (k_disk u) (unat (b_blockno x)), b_valid := True\<rparr>) u"
  have "iderw b u = Ret () t" unfolding t_def
  proof (rule iderw_read[of sw p pid])
    show "calm sw p pid u" using c by (simp add: u_def)
    show "unat (b_blockno (bufof u b)) < disksize u" using ub n by (simp add: u_def)
    show "b < length (k_bufs u)" using lb by (simp add: u_def)
  qed (simp_all add: ub, simp add: u_def)
  then have r: "bread 1 n s = Ret b t" using g ub by (simp add: bread_def kexec)
  have tb: "bufof t b = (bufof s b)\<lparr>b_dev := 1, b_blockno := n, b_valid := True, b_dirty := False, b_refcnt := 1,
      b_data := disk_block (k_disk s) (unat n)\<rparr>"
    using lb ub by (simp add: t_def bufof_upd u_def)
  have other: "info t i = info s i" if "i \<noteq> b" for i using that by (simp add: t_def u_def info_upd_other)
  have td: "k_disk t = k_disk s" "disksize t = disksize s" by (simp_all add: t_def u_def)
  have un': "content s n = disk_block (k_disk s) (unat n)" using content_uncached un by blast
  have blk: "length (disk_block (k_disk s) (unat n)) = BSIZE"
  proof -
    have "(unat n + 1) * BSIZE \<le> (length (k_disk s) div BSIZE) * BSIZE"
      using n by (intro mult_le_mono1) (simp add: disksize_def)
    also have "\<dots> \<le> length (k_disk s)" by (rule div_times_less_eq_dividend)
    finally show ?thesis by (simp add: disk_block_def)
  qed
  have ti: "cinv (insert b L) pid t"
  proof (rule cinv_change[OF inv _ bN(1)])
    show "insert b L \<subseteq> {..<NBUF}" using inv bN(1) by (auto simp: cinv_def)
    show "lru xs t" using xs by (simp add: t_def u_def lru_upd_buf)
    show "buf_ok (insert b L) pid t b"
      using tb n td blk by (simp add: buf_ok_def Let_def) (simp add: t_def u_def)
    fix i assume "i \<noteq> b" "caches s i (b_blockno (bufof t b))" "b_valid (bufof t b)"
    then show False using un[of i] tb by simp
  next
    fix i assume "i \<noteq> b"
    show "k_sleeplocks t (SL_buf i) = k_sleeplocks s (SL_buf i)" using \<open>i \<noteq> b\<close> by (simp add: t_def u_def)
  qed (simp_all add: other td)
  have cb: "caches t b m \<longleftrightarrow> m = n" for m using tb bN(1) by (auto simp: caches_def)
  have co: "caches t i m = caches s i m" "b_dirty (bufof t i) = b_dirty (bufof s i)" "b_data (bufof t i) = b_data (bufof s i)"
    if "i \<noteq> b" for i m using info_eqD[OF other[OF that]] by (simp_all add: caches_def)
  have "content t m = content s m" for m
  proof (rule content_eqI[OF inv ti])
    fix i assume "caches t i m"
    then show "b_data (bufof t i) = content s m"
      by (cases "i = b") (use cb tb un' co content_cached[OF inv, of i m] in auto)
  next
    fix i assume i: "caches s i m" and no: "\<And>j. \<not> caches t j m"
    have "i = b" using co(1)[of i m] i no by blast
    then have "b_valid (bufof s b)" "b_blockno (bufof s b) = m" using i by (auto simp: caches_def)
    then show "b_data (bufof s i) = disk_block (k_disk t) (unat m)"
      using D(6)[OF bN(1)] bN(3) bL td \<open>i = b\<close> by simp
  qed (simp add: td)
  moreover have "pinned t = pinned s"
  proof (rule pinned_eqI)
    fix i m show "caches t i m \<and> b_dirty (bufof t i) \<longleftrightarrow> caches s i m \<and> b_dirty (bufof s i)"
      by (cases "i = b") (use tb bN(3) co in auto)
  qed
  moreover have "cache_only s t"
    unfolding t_def u_def locked_by_def
    by (rule cache_only_trans[OF cache_only_trans[OF cache_only_upd_buf cache_only_upd_sl] cache_only_upd_buf])
  moreover have "\<forall>j \<in> L. info t j = info s j" using other bL by metis
  ultimately have "got L pid s n b t" using ti bL cb[of n] tb un' by (simp add: got_def)
  moreover have "calm sw p pid t" using c by (simp add: t_def u_def)
  ultimately show ?thesis using r by blast
qed

lemma bread_ok:
  assumes c: "calm sw p pid s" and inv: "cinv L pid s" and n: "unat n < disksize s"
    and room: "(\<And>i. \<not> caches s i n) \<Longrightarrow> room L s" and free: "\<And>i. caches s i n \<Longrightarrow> i \<notin> L"
  shows "\<exists>b t. bread 1 n s = Ret b t \<and> calm sw p pid t \<and> got L pid s n b t"
proof (cases "\<exists>i. caches s i n")
  case True
  then show ?thesis using bread_hit[OF c inv] free by blast
next
  case False
  then show ?thesis using bread_miss[OF c inv _ _ n] room by blast
qed

end
