(* ===== verification/Cache_Write.thy ===== *)
theory Cache_Write
  imports Cache_Ops
begin

text \<open>Changing a locked buffer, writing it to the disk, and giving it back.\<close>

section \<open>A change of a buffer and of the disk\<close>

text \<open>
  What holds after a step that changed at most the locked buffer \<open>b\<close>, which caches block
  \<open>n\<close>, and block \<open>n\<close> of the disk.
\<close>

lemma buffer_step:
  assumes inv: "cinv L pid s" and b: "caches s b n" "b \<in> L"
    and lru: "lru xs t" and other: "\<And>i. i \<noteq> b \<Longrightarrow> info t i = info s i"
    and sl: "k_sleeplocks t = k_sleeplocks s"
    and tb: "b_valid (bufof t b)" "b_blockno (bufof t b) = n" "b_dev (bufof t b) = 1"
      "b_refcnt (bufof t b) = b_refcnt (bufof s b)" "length (b_data (bufof t b)) = BSIZE"
    and disk: "disksize t = disksize s"
      "\<And>m. m \<noteq> n \<Longrightarrow> disk_block (k_disk t) (unat m) = disk_block (k_disk s) (unat m)"
  shows "cinv L pid t" "content t = (content s)(n := b_data (bufof t b))" "caches t b n"
    "pinned t = (if b_dirty (bufof t b) then insert n (pinned s) else pinned s - {n})"
proof -
  note D = cinvD[OF inv]
  have bN: "b < NBUF" "b_valid (bufof s b)" "b_blockno (bufof s b) = n" using b(1) by (auto simp: caches_def)
  have LN: "L \<subseteq> {..<NBUF}" using inv by (simp add: cinv_def)
  show ti: "cinv L pid t"
  proof (rule cinv_change[OF inv LN bN(1) lru])
    show "buf_ok L pid t b"
      using tb b(2) D[OF bN(1)] bN disk(1) sl by (simp add: buf_ok_def Let_def)
    fix i assume i: "i < NBUF" "i \<noteq> b" "b_valid (bufof s i)"
    then have "b_blockno (bufof s i) \<noteq> n" using caches_unique[OF inv b(1), of i] by (auto simp: caches_def)
    then show "disk_block (k_disk t) (unat (b_blockno (bufof s i))) = disk_block (k_disk s) (unat (b_blockno (bufof s i)))"
      using disk(2) by simp
  next
    fix i assume "i \<noteq> b" "caches s i (b_blockno (bufof t b))" "b_valid (bufof t b)"
    then show False using caches_unique[OF inv b(1), of i] tb by simp
  qed (simp_all add: other sl disk(1))
  have cc: "caches t i m = caches s i m" for i m
  proof (cases "i = b")
    case True then show ?thesis using tb bN by (simp add: caches_def)
  qed (simp add: caches_cong[OF other])
  show cb: "caches t b n" using cc b(1) by simp
  have other_m: "b_data (bufof t i) = content s m" if "caches t i m" "m \<noteq> n" for i m
  proof -
    have "caches s i m" using that cc by simp
    moreover have "i \<noteq> b" using that tb by (auto simp: caches_def)
    ultimately show ?thesis using content_cached[OF inv] info_eqD(6)[OF other] by simp
  qed
  show "content t = (content s)(n := b_data (bufof t b))"
  proof (rule ext)
    fix m show "content t m = ((content s)(n := b_data (bufof t b))) m"
    proof (cases "m = n")
      case True then show ?thesis using content_cached[OF ti cb] by simp
    next
      case False
      have "content t m = content s m"
        by (rule content_eqI[OF inv ti]) (use False other_m cc disk(2) in auto)
      then show ?thesis using False by simp
    qed
  qed
  show "pinned t = (if b_dirty (bufof t b) then insert n (pinned s) else pinned s - {n})"
  proof -
    have "m \<in> pinned t \<longleftrightarrow> (if m = n then b_dirty (bufof t b) else m \<in> pinned s)" for m
    proof (cases "m = n")
      case True
      have "caches t i n \<longleftrightarrow> i = b" for i using caches_unique[OF ti cb, of i] cb by blast
      then show ?thesis using True by (simp add: pinned_def)
    next
      case False
      have "caches t i m \<and> b_dirty (bufof t i) \<longleftrightarrow> caches s i m \<and> b_dirty (bufof s i)" for i
      proof (cases "i = b")
        case True then show ?thesis using False tb(2) bN(3) by (simp add: caches_def)
      next
        case F: False then show ?thesis using cc info_eqD(2)[OF other[OF F]] by simp
      qed
      then show ?thesis using False by (simp add: pinned_def)
    qed
    then show ?thesis by (intro set_eqI) simp
  qed
qed

lemma info_disk [simp]: "info (s\<lparr>k_disk := d, k_dwrites := w\<rparr>) = info s"
  by (rule ext) (simp add: info_def bufof_def)

section \<open>The data of a buffer\<close>

lemma set_bdata_ok:
  assumes c: "calm sw p pid s" and inv: "cinv L pid s" and b: "caches s b n" "b \<in> L"
    and f: "length (f (b_data (bufof s b))) = BSIZE"
  shows "\<exists>t. set_bdata b f s = Ret () t \<and> calm sw p pid t \<and> cinv L pid t \<and> caches t b n \<and>
    content t = (content s)(n := f (content s n)) \<and> b_data (bufof t b) = f (content s n) \<and>
    pinned t = (if b_dirty (bufof s b) then insert n (pinned s) else pinned s - {n}) \<and>
    b_dirty (bufof t b) = b_dirty (bufof s b) \<and>
    cache_only s t \<and> (\<forall>j. j \<noteq> b \<longrightarrow> info t j = info s j)"
proof -
  obtain xs where xs: "lru xs s" using cinv_lru[OF inv] by blast
  have bN: "b < NBUF" "b_valid (bufof s b)" "b_blockno (bufof s b) = n" using b(1) by (auto simp: caches_def)
  note D = cinvD[OF inv bN(1)]
  define t where "t = upd_buf b (\<lambda>x. x\<lparr>b_data := f (b_data x)\<rparr>) s"
  have lb: "b < length (k_bufs s)" by (rule lru_len[OF xs bN(1)])
  have tb: "bufof t b = (bufof s b)\<lparr>b_data := f (b_data (bufof s b))\<rparr>" using lb by (simp add: t_def bufof_upd)
  have r: "set_bdata b f s = Ret () t" by (simp add: set_bdata_def t_def kexec)
  have other: "info t i = info s i" if "i \<noteq> b" for i using that by (simp add: t_def info_upd_other)
  have lt: "lru xs t" using xs by (simp add: t_def lru_upd_buf)
  have td: "k_disk t = k_disk s" "disksize t = disksize s" "k_sleeplocks t = k_sleeplocks s" by (simp_all add: t_def)
  have dev: "b_dev (bufof s b) = 1" using D(3) bN(2) by simp
  have e: "b_data (bufof s b) = content s n" using content_cached[OF inv b(1)] by simp
  note st = buffer_step[OF inv b lt other td(3)]
  have "cinv L pid t" "content t = (content s)(n := b_data (bufof t b))" "caches t b n"
    "pinned t = (if b_dirty (bufof t b) then insert n (pinned s) else pinned s - {n})"
    by (rule st; (simp add: tb bN dev f td)?)+
  then show ?thesis using r c other tb e by (simp add: t_def)
qed

section \<open>bwrite\<close>

lemma bwrite_ok:
  assumes c: "calm sw p pid s" and inv: "cinv L pid s" and b: "caches s b n" "b \<in> L"
  shows "\<exists>t. bwrite b s = Ret () t \<and> calm sw p pid t \<and> cinv L pid t \<and> caches t b n \<and>
    content t = content s \<and> pinned t = pinned s - {n} \<and> \<not> b_dirty (bufof t b) \<and>
    b_data (bufof t b) = content s n \<and> disk_block (k_disk t) (unat n) = content s n \<and>
    k_disk t = disk_write (unat n) (content s n) (k_disk s) \<and> k_dwrites t = (n, content s n) # k_dwrites s \<and>
    k_log t = k_log s \<and> (\<forall>j. j \<noteq> b \<longrightarrow> info t j = info s j)"
proof -
  obtain xs where xs: "lru xs s" using cinv_lru[OF inv] by blast
  have bN: "b < NBUF" "b_valid (bufof s b)" "b_blockno (bufof s b) = n" using b(1) by (auto simp: caches_def)
  note D = cinvD[OF inv bN(1)]
  have lb: "b < length (k_bufs s)" by (rule lru_len[OF xs bN(1)])
  have dev: "b_dev (bufof s b) = 1" using D(3) bN(2) by simp
  have l: "k_sleeplocks s (SL_buf b) = \<lparr>sl_locked = True, sl_pid = pid\<rparr>"
    using D(8,10) b(2) by (cases "k_sleeplocks s (SL_buf b)") simp
  have e: "b_data (bufof s b) = content s n" using content_cached[OF inv b(1)] by simp
  have n: "unat n < disksize s" using D(5) bN by simp
  have len: "length (content s n) = BSIZE" using D(1) e by simp
  define u where "u = upd_buf b (\<lambda>x. x\<lparr>b_dirty := True\<rparr>) s"
  have ub: "bufof u b = (bufof s b)\<lparr>b_dirty := True\<rparr>" using lb by (simp add: u_def bufof_upd)
  define t where "t = upd_buf b (\<lambda>x. x\<lparr>b_dirty := False, b_valid := True\<rparr>)
    (u\<lparr>k_disk := disk_write (unat n) (content s n) (k_disk s), k_dwrites := (n, content s n) # k_dwrites s\<rparr>)"
  have cu: "calm sw p pid u" using c by (simp add: u_def)
  have "iderw b u = Ret () t" unfolding t_def
    using iderw_write[OF cu, of b] ub l dev n lb bN(3) e by (simp add: u_def)
  moreover have "holdingsleep (SL_buf b) s = Ret True s" using holdingsleep_calm[OF c] l by simp
  ultimately have r: "bwrite b s = Ret () t" by (simp add: bwrite_def kexec u_def)
  have tb: "bufof t b = (bufof s b)\<lparr>b_dirty := False, b_valid := True\<rparr>"
    using lb ub by (simp add: t_def bufof_upd u_def upd_buf_disk) (simp add: bufof_def upd_buf_def)
  have other: "info t i = info s i" if "i \<noteq> b" for i
    using that by (simp add: t_def u_def upd_buf_disk info_disk info_upd_other)
  have lt: "lru xs t" using xs lru_cong[of t "upd_buf b (\<lambda>x. x\<lparr>b_dirty := False, b_valid := True\<rparr>) u"]
    by (simp add: t_def u_def upd_buf_disk lru_upd_buf)
  have td: "k_disk t = disk_write (unat n) (content s n) (k_disk s)" "k_sleeplocks t = k_sleeplocks s"
    by (simp_all add: t_def upd_buf_disk) (simp add: u_def)
  note dw = disk_write_block[OF len n[unfolded disksize_def]]
  have ds: "disksize t = disksize s" using td dw(1) by (simp add: disksize_def)
  have dwo: "disk_block (k_disk t) (unat m) = disk_block (k_disk s) (unat m)" if "m \<noteq> n" for m
  proof -
    have "unat n \<noteq> unat m" using that by (metis word_unat_eq_iff)
    then show ?thesis using dw(2)[of "unat m"] td(1) by simp
  qed
  note st = buffer_step[OF inv b lt other td(2)]
  have "cinv L pid t" "content t = (content s)(n := b_data (bufof t b))" "caches t b n"
    "pinned t = (if b_dirty (bufof t b) then insert n (pinned s) else pinned s - {n})"
    by (rule st; (simp add: tb bN dev D(1) dwo ds)?)+
  moreover have "calm sw p pid t" using cu by (simp add: t_def upd_buf_disk)
  moreover have "k_dwrites t = (n, content s n) # k_dwrites s" "k_log t = k_log s"
    by (simp_all add: t_def u_def upd_buf_disk)
  ultimately show ?thesis using r other tb e td(1) dw(2)[of "unat n"] by (simp add: fun_upd_idem)
qed

section \<open>brelse\<close>

lemma info_cong: "k_bufs t = k_bufs s \<Longrightarrow> info t = info s"
  by (rule ext) (simp add: info_def bufof_def)

text \<open>
  The buffer must carry what is on the disk, or be pinned: \<open>bread\<close> of the next thread gets the
  cached data.
\<close>

lemma brelse_ok:
  assumes c: "calm sw p pid s" and inv: "cinv L pid s" and b: "caches s b n" "b \<in> L"
    and clean: "b_dirty (bufof s b) \<or> content s n = disk_block (k_disk s) (unat n)"
  shows "\<exists>t. brelse b s = Ret () t \<and> calm sw p pid t \<and> cinv (L - {b}) pid t \<and>
    content t = content s \<and> pinned t = pinned s \<and> cache_only s t \<and> (\<forall>j. j \<noteq> b \<and> j < NBUF \<longrightarrow> info t j = info s j)"
proof -
  obtain xs where xs: "lru xs s" using cinv_lru[OF inv] by blast
  have bN: "b < NBUF" "b_valid (bufof s b)" "b_blockno (bufof s b) = n" using b(1) by (auto simp: caches_def)
  note D = cinvD[OF inv bN(1)]
  have lb: "b < length (k_bufs s)" by (rule lru_len[OF xs bN(1)])
  have l: "k_sleeplocks s (SL_buf b) = \<lparr>sl_locked = True, sl_pid = pid\<rparr>"
    using D(8,10) b(2) by (cases "k_sleeplocks s (SL_buf b)") simp
  have e: "b_data (bufof s b) = content s n" using content_cached[OF inv b(1)] by simp
  have h: "holdingsleep (SL_buf b) s = Ret True s" using holdingsleep_calm[OF c] l by simp
  obtain u where u: "releasesleep (SL_buf b) s = Ret () u" "calm sw p pid u"
    "procs_only (upd_sl (SL_buf b) (\<lambda>_. \<lparr>sl_locked = False, sl_pid = 0\<rparr>) s) u"
    using releasesleep_calm[OF c] by blast
  note U = procs_onlyD'[OF u(3)]
  define v where "v = upd_buf b (\<lambda>x. x\<lparr>b_refcnt := b_refcnt x - 1\<rparr>) u"
  have vh: "k_held v = []" "calm sw p pid v" using u(2) by (simp_all add: v_def calm_def[of _ _ _ u])
  have lv: "lru xs v" using xs lru_cong[of u s] U(1) by (simp add: v_def lru_upd_buf)
  have bu: "bufof u = bufof s" using U(7) by simp
  have vb: "bufof v b = (bufof s b)\<lparr>b_refcnt := 0\<rparr>"
    using lb D(7) b(2) U(1) bu by (simp add: v_def bufof_upd)
  let ?v = "v\<lparr>k_held := [(L_bcache, k_me u)]\<rparr>"
  have acq: "acquire L_bcache u = Ret () (u\<lparr>k_held := [(L_bcache, k_me u)]\<rparr>)" using calm_acquire[OF u(2)] .
  have "b \<in> set xs" using xs bN(1) by (auto simp: lru_def)
  then obtain ys zs where "xs = ys @ b # zs" by (meson split_list)
  then have "lru (ys @ b # zs) ?v" using lv lru_cong[of ?v v] by simp
  from lru_unlink_link[OF this] obtain w bufs where w: "kseq [unlink_buf b, link_first b] ?v = Ret () w"
    "lru (b # ys @ zs) w" "\<forall>i < NBUF. info w i = info ?v i" "w = ?v\<lparr>k_bufs := bufs\<rparr>" by blast
  define t where "t = v\<lparr>k_bufs := bufs\<rparr>"
  have "release L_bcache w = Ret () (w\<lparr>k_held := []\<rparr>)" by (rule release_single) (simp add: w(4) v_def)
  also have "w\<lparr>k_held := []\<rparr> = t" using vh(1) by (simp add: w(4) t_def)
  finally have rel: "release L_bcache w = Ret () t" .
  have r: "brelse b s = Ret () t"
  proof -
    have "brelse b s = kseq [releasesleep (SL_buf b), acquire L_bcache,
     kupd (upd_buf b (\<lambda>x. x\<lparr>b_refcnt := b_refcnt x - 1\<rparr>)),
     kwhen (\<lambda>s. b_refcnt (bufof s b) = 0) (kseq [unlink_buf b, link_first b]),
     release L_bcache] s"
      unfolding brelse_def kbind_def[of "holdingsleep (SL_buf b)"] h obind.simps
      by (simp add: kbind_def kwhen_def del: kseq.simps(1))
    also have "\<dots> = kseq [kwhen (\<lambda>s. b_refcnt (bufof s b) = 0) (kseq [unlink_buf b, link_first b]), release L_bcache] ?v"
      by (simp add: kbind_def u(1) acq kupd_def upd_buf_held v_def del: kseq.simps(1))
    also have "\<dots> = release L_bcache w"
      using vb w(1) by (simp add: kbind_def kwhen_def)
    finally show ?thesis using rel by simp
  qed
  have it: "info t i = info v i" if "i < NBUF" for i
    using w(3) that info_cong[of t w] info_cong[of ?v v] by (simp add: t_def w(4))
  have lt: "lru (b # ys @ zs) t" using w(2) lru_cong[of t w] by (simp add: t_def w(4))
  have other: "info t i = info s i" if "i \<noteq> b" "i < NBUF" for i
    using it[OF that(2)] info_upd_other[OF that(1)] info_cong[of u s] U(1) by (simp add: v_def)
  note ib = info_eqD[OF it[OF bN(1)]]
  have td: "k_disk t = k_disk s" "disksize t = disksize s"
    "k_sleeplocks t = (k_sleeplocks s)(SL_buf b := \<lparr>sl_locked = False, sl_pid = 0\<rparr>)"
    using U by (simp_all add: t_def v_def disksize_def)
  have ti: "cinv (L - {b}) pid t"
  proof (rule cinv_change[OF inv _ bN(1) lt])
    show "L - {b} \<subseteq> {..<NBUF}" using inv by (auto simp: cinv_def)
    show "buf_ok (L - {b}) pid t b"
      using D(1,3,5) bN clean e by (auto simp: buf_ok_def Let_def ib vb td)
    fix i assume "i \<noteq> b" "caches s i (b_blockno (bufof t b))" "b_valid (bufof t b)"
    then show False using caches_unique[OF inv b(1), of i] bN(3) by (simp add: ib vb)
  qed (simp_all add: other td)
  have cc: "caches t i m = caches s i m" "i < NBUF \<Longrightarrow> b_dirty (bufof t i) = b_dirty (bufof s i)"
    "i < NBUF \<Longrightarrow> b_data (bufof t i) = b_data (bufof s i)" for i m
    by (cases "i = b"; use vb ib info_eqD[OF other[of i]] in \<open>simp add: caches_def\<close>; fastforce)+
  have cN: "caches s i m \<Longrightarrow> i < NBUF" for i m by (simp add: caches_def)
  have "content t m = content s m" for m
    by (rule content_eqI[OF inv ti]) (use cc content_cached[OF inv] td(1) cN in auto)
  moreover have "pinned t = pinned s" by (rule pinned_eqI) (use cc cN in blast)
  moreover have "cache_only s t"
  proof -
    have "cache_only s u" by (rule cache_only_trans[OF cache_only_upd_sl cache_only_procs[OF u(3)]])
    then have "cache_only s v" unfolding v_def by (rule cache_only_trans) simp
    then show ?thesis unfolding t_def by (rule cache_only_trans) (rule cache_only_bufs)
  qed
  moreover have "calm sw p pid t" using vh(2) calm_cong[of t v] by (simp add: t_def)
  ultimately show ?thesis using r ti other by (simp add: fun_eq_iff)
qed

end
