(* ===== verification/Log_View.thy ===== *)
theory Log_View
  imports Cache_Write
begin

text \<open>
  The buffer cache as the log sees it: which buffers the thread holds for which blocks, the
  disk, the content of the blocks, the pinned (dirty) blocks, the writes so far and the log in
  memory. One lemma per operation of the cache.
\<close>

definition view ::
  "(nat \<Rightarrow> u32 option) \<Rightarrow> nat set \<times> nat \<times> u32 \<Rightarrow> u8 list \<Rightarrow> (u32 \<Rightarrow> u8 list) \<Rightarrow> u32 set \<Rightarrow>
     (u32 \<times> u8 list) list \<Rightarrow> log \<Rightarrow> kernel \<Rightarrow> bool" where
  "view H T D C P W lg s \<longleftrightarrow> (case T of (sw, p, pid) \<Rightarrow> calm sw p pid s \<and> cinv (dom H) pid s) \<and>
     (\<forall>i n. H i = Some n \<longrightarrow> caches s i n) \<and> k_disk s = D \<and> content s = C \<and> pinned s = P \<and>
     k_dwrites s = W \<and> k_log s = lg"

lemma dirty_pinned: "cinv L pid s \<Longrightarrow> caches s i n \<Longrightarrow> b_dirty (bufof s i) \<longleftrightarrow> n \<in> pinned s"
  unfolding pinned_def mem_Collect_eq using caches_unique by blast

lemma pinned_image:
  assumes "cinv L pid s"
  shows "pinned s = (\<lambda>i. b_blockno (bufof s i)) ` {i. i < NBUF \<and> b_dirty (bufof s i)}" 
    "inj_on (\<lambda>i. b_blockno (bufof s i)) {i. i < NBUF \<and> b_dirty (bufof s i)}"
proof -
  let ?g = "\<lambda>i. b_blockno (bufof s i)" and ?B = "{i. i < NBUF \<and> b_dirty (bufof s i)}"
  have v: "b_valid (bufof s i)" if "i < NBUF" "b_dirty (bufof s i)" for i using cinvD(4)[OF assms that] .
  then show "pinned s = ?g ` ?B" by (auto simp: pinned_def caches_def)
  show "inj_on ?g ?B" using v caches_unique[OF assms] by (auto simp: inj_on_def caches_def)
qed

lemma room_pinned:
  assumes inv: "cinv L pid s" and "card L + card (pinned s) < NBUF"
  shows "room L s"
proof (rule ccontr)
  let ?B = "{i. i < NBUF \<and> b_dirty (bufof s i)}"
  assume "\<not> room L s"
  then have "{..<NBUF} \<subseteq> L \<union> ?B" by (auto simp: room_def)
  moreover have "finite L" using inv finite_subset[of L "{..<NBUF}"] by (simp add: cinv_def)
  ultimately have "card {..<NBUF} \<le> card (L \<union> ?B)" by (intro card_mono) auto
  also have "\<dots> \<le> card L + card ?B" by (rule card_Un_le)
  also have "card ?B = card (pinned s)" using pinned_image[OF inv] by (simp add: card_image)
  finally show False using assms(2) by simp
qed

lemma content_length:
  assumes "cinv L pid s" "unat n < disksize s"
  shows "length (content s n) = BSIZE"
proof (cases "\<exists>i. caches s i n")
  case True
  then obtain i where i: "caches s i n" by blast
  then show ?thesis using content_cached[OF assms(1) i] cinvD(1)[OF assms(1), of i] by (simp add: caches_def)
next
  case False
  have "(unat n + 1) * BSIZE \<le> (length (k_disk s) div BSIZE) * BSIZE"
    using assms(2) by (intro mult_le_mono1) (simp add: disksize_def)
  also have "\<dots> \<le> length (k_disk s)" by (rule div_times_less_eq_dividend)
  finally show ?thesis using content_uncached False by (simp add: disk_block_def)
qed

lemma view_len: "view H T D C P W lg s \<Longrightarrow> unat n < length D div BSIZE \<Longrightarrow> length (C n) = BSIZE"
  using content_length by (auto simp: view_def disksize_def split: prod.splits)

text \<open>A block that is neither pinned nor held is on the disk.\<close>

lemma view_clean:
  assumes "view H T D C P W lg s" "n \<notin> P" "n \<notin> Map.ran H"
  shows "C n = disk_block D (unat n)"
proof -
  obtain sw p pid where T: "T = (sw, p, pid)" by (cases T)
  have v: "cinv (dom H) pid s" "k_disk s = D" "content s = C" "pinned s = P" "\<forall>i n. H i = Some n \<longrightarrow> caches s i n"
    using assms(1) by (auto simp: view_def T)
  show ?thesis
  proof (cases "\<exists>i. caches s i n")
    case True
    then obtain i where i: "caches s i n" by blast
    then have "i \<notin> dom H" using assms(3) v(5) by (auto simp: caches_def Map.ran_def)
    then have "b_data (bufof s i) = disk_block D (unat n)"
      using cinvD(6)[OF v(1), of i] dirty_pinned[OF v(1) i] assms(2) i v by (auto simp: caches_def)
    then show ?thesis using content_cached[OF v(1) i] v by simp
  next
    case False
    then show ?thesis using content_uncached[of s n] v by auto
  qed
qed

lemma view_bread_only:
  assumes v: "view H T D C P W lg s" and n: "unat n < length D div BSIZE" "n \<notin> Map.ran H"
    and room: "n \<in> P \<or> card (dom H) + card P < NBUF"
  shows "\<exists>b t. bread 1 n s = Ret b t \<and> b \<notin> dom H \<and> view (H(b \<mapsto> n)) T D C P W lg t \<and> cache_only s t"
proof -
  obtain sw p pid where T: "T = (sw, p, pid)" by (cases T)
  have V: "calm sw p pid s" "cinv (dom H) pid s" "\<And>i n. H i = Some n \<Longrightarrow> caches s i n"
    "k_disk s = D" "content s = C" "pinned s = P" "k_dwrites s = W" "k_log s = lg"
    using v by (auto simp: view_def T)
  have "room (dom H) s" if "\<And>i. \<not> caches s i n"
    using room_pinned[OF V(2)] room that V(6) by (auto simp: pinned_def)
  moreover have "i \<notin> dom H" if "caches s i n" for i
    using that V(3)[of i] n(2) by (auto simp: caches_def Map.ran_def)
  moreover have "unat n < disksize s" using n V(4) by (simp add: disksize_def)
  ultimately obtain b t where bt: "bread 1 n s = Ret b t" "calm sw p pid t" "got (dom H) pid s n b t"
    using bread_ok[OF V(1,2)] by blast
  have g: "cinv (insert b (dom H)) pid t" "b \<notin> dom H" "caches t b n" "\<And>m. content t m = content s m"
    "pinned t = pinned s" "cache_only s t" "\<And>j. j \<in> dom H \<Longrightarrow> info t j = info s j"
    using bt(3) by (auto simp: got_def)
  have "caches t i m" if "H i = Some m" for i m using V(3)[OF that] caches_cong[OF g(7)[of i], of m] that by auto
  then have "view (H(b \<mapsto> n)) T D C P W lg t"
    using bt(2) g V cache_onlyD[OF g(6)] by (auto simp: view_def T)
  then show ?thesis using bt(1) g(2,6) by blast
qed

lemma view_bread:
  assumes "view H T D C P W lg s" "unat n < length D div BSIZE" "n \<notin> Map.ran H" "n \<in> P \<or> card (dom H) + card P < NBUF"
  shows "\<exists>b t. bread 1 n s = Ret b t \<and> b \<notin> dom H \<and> view (H(b \<mapsto> n)) T D C P W lg t"
  using view_bread_only[OF assms] by blast

lemma view_bdata: "view H T D C P W lg s \<Longrightarrow> H b = Some n \<Longrightarrow> bdata b s = Ret (C n) s"
  using content_cached by (fastforce simp: view_def bdata_def kget_def split: prod.splits)

lemma view_set_bdata_only:
  assumes v: "view H T D C P W lg s" and b: "H b = Some n" and f: "length (f (C n)) = BSIZE"
  shows "\<exists>t. set_bdata b f s = Ret () t \<and> view H T D (C(n := f (C n))) P W lg t \<and> cache_only s t"
proof -
  obtain sw p pid where T: "T = (sw, p, pid)" by (cases T)
  have V: "calm sw p pid s" "cinv (dom H) pid s" "\<And>i n. H i = Some n \<Longrightarrow> caches s i n"
    "k_disk s = D" "content s = C" "pinned s = P" "k_dwrites s = W" "k_log s = lg"
    using v by (auto simp: view_def T)
  have e: "b_data (bufof s b) = C n" using content_cached[OF V(2) V(3)[OF b]] V(5) by simp
  have bl: "b \<in> dom H" using b by blast
  have f': "length (f (b_data (bufof s b))) = BSIZE" using f e by simp
  obtain t where t: "set_bdata b f s = Ret () t" "calm sw p pid t" "cinv (dom H) pid t" "caches t b n"
    "content t = (content s)(n := f (content s n))"
    "pinned t = (if b_dirty (bufof s b) then insert n (pinned s) else pinned s - {n})"
    "cache_only s t" "\<forall>j. j \<noteq> b \<longrightarrow> info t j = info s j"
    using set_bdata_ok[of sw p pid s "dom H" b n f, OF V(1,2) V(3)[OF b] bl f'] by blast
  have "pinned t = P" using t(6) dirty_pinned[OF V(2) V(3)[OF b]] V(6) by auto
  moreover have "caches t i m" if "H i = Some m" for i m
  proof (cases "i = b")
    case False
    have "info t i = info s i" using t(8) False by blast
    from caches_cong[OF this] show ?thesis using V(3)[OF that] by simp
  qed (use that b t(4) in simp)
  ultimately have "view H T D (C(n := f (C n))) P W lg t"
    using t V cache_onlyD[OF t(7)] by (simp add: view_def T)
  then show ?thesis using t(1,7) by blast
qed

lemma view_set_bdata:
  assumes "view H T D C P W lg s" "H b = Some n" "length (f (C n)) = BSIZE"
  shows "\<exists>t. set_bdata b f s = Ret () t \<and> view H T D (C(n := f (C n))) P W lg t"
  using view_set_bdata_only[of H T D C P W lg s b n f, OF assms] by blast

lemma view_bwrite:
  assumes v: "view H T D C P W lg s" and b: "H b = Some n"
  shows "\<exists>t. bwrite b s = Ret () t \<and>
    view H T (disk_write (unat n) (C n) D) C (P - {n}) ((n, C n) # W) lg t"
proof -
  obtain sw p pid where T: "T = (sw, p, pid)" by (cases T)
  have V: "calm sw p pid s" "cinv (dom H) pid s" "\<And>i n. H i = Some n \<Longrightarrow> caches s i n"
    "k_disk s = D" "content s = C" "pinned s = P" "k_dwrites s = W" "k_log s = lg"
    using v by (auto simp: view_def T)
  have bl: "b \<in> dom H" using b by blast
  obtain t where t: "bwrite b s = Ret () t" "calm sw p pid t" "cinv (dom H) pid t" "caches t b n"
    "content t = content s" "pinned t = pinned s - {n}"
    "k_disk t = disk_write (unat n) (content s n) (k_disk s)" "k_dwrites t = (n, content s n) # k_dwrites s"
    "k_log t = k_log s" "\<forall>j. j \<noteq> b \<longrightarrow> info t j = info s j"
    using bwrite_ok[OF V(1,2) V(3)[OF b] bl] by blast
  have "caches t i m" if "H i = Some m" for i m
  proof (cases "i = b")
    case False
    have "info t i = info s i" using t(10) False by blast
    from caches_cong[OF this] show ?thesis using V(3)[OF that] by simp
  qed (use that b t(4) in simp)
  then have "view H T (disk_write (unat n) (C n) D) C (P - {n}) ((n, C n) # W) lg t"
    using t V by (simp add: view_def T)
  then show ?thesis using t(1) by blast
qed

lemma view_brelse_only:
  assumes v: "view H T D C P W lg s" and b: "H b = Some n" and clean: "n \<in> P \<or> C n = disk_block D (unat n)"
  shows "\<exists>t. brelse b s = Ret () t \<and> view (H(b := None)) T D C P W lg t \<and> cache_only s t"
proof -
  obtain sw p pid where T: "T = (sw, p, pid)" by (cases T)
  have V: "calm sw p pid s" "cinv (dom H) pid s" "\<And>i n. H i = Some n \<Longrightarrow> caches s i n"
    "k_disk s = D" "content s = C" "pinned s = P" "k_dwrites s = W" "k_log s = lg"
    using v by (auto simp: view_def T)
  have bl: "b \<in> dom H" using b by blast
  have cl: "b_dirty (bufof s b) \<or> content s n = disk_block (k_disk s) (unat n)"
    using clean dirty_pinned[OF V(2) V(3)[OF b]] V by auto
  obtain t where t: "brelse b s = Ret () t" "calm sw p pid t" "cinv (dom H - {b}) pid t"
    "content t = content s" "pinned t = pinned s" "cache_only s t" "\<forall>j. j \<noteq> b \<and> j < NBUF \<longrightarrow> info t j = info s j"
    using brelse_ok[OF V(1,2) V(3)[OF b] bl cl] by blast
  have "caches t i m" if "H i = Some m" "i \<noteq> b" for i m
  proof -
    have "i < NBUF" using V(3)[OF that(1)] by (simp add: caches_def)
    then have "info t i = info s i" using t(7) that(2) by blast
    from caches_cong[OF this] show ?thesis using V(3)[OF that(1)] by simp
  qed
  then have "view (H(b := None)) T D C P W lg t"
    using t V cache_onlyD[OF t(6)] by (simp add: view_def T)
  then show ?thesis using t(1,6) by blast
qed

lemma view_brelse:
  assumes "view H T D C P W lg s" "H b = Some n" "n \<in> P \<or> C n = disk_block D (unat n)"
  shows "\<exists>t. brelse b s = Ret () t \<and> view (H(b := None)) T D C P W lg t"
  using view_brelse_only[OF assms] by blast

end
