(* ===== verification/File_Read.thy ===== *)
theory File_Read
  imports Dir Log_View
begin

text \<open>
  Reading files: \<open>readi\<close> returns the bytes of the file, through the map of its blocks and the
  buffer cache.
\<close>

section \<open>The content of a file\<close>

text \<open>
  The disk block that holds block \<open>k\<close> of the file, 0 when it has none, and the bytes of the file,
  when the blocks have the content \<open>C\<close>.
\<close>

definition file_block :: "(u32 \<Rightarrow> u8 list) \<Rightarrow> inode \<Rightarrow> nat \<Rightarrow> u32" where
  "file_block C x k = (if k < NDIRECT then i_addrs x ! k
     else if i_addrs x ! NDIRECT = 0 then 0 else get32 (C (i_addrs x ! NDIRECT)) (4 * (k - NDIRECT)))"

definition file_byte :: "(u32 \<Rightarrow> u8 list) \<Rightarrow> inode \<Rightarrow> nat \<Rightarrow> u8" where
  "file_byte C x i = (if file_block C x (i div BSIZE) = 0 then 0 else C (file_block C x (i div BSIZE)) ! (i mod BSIZE))"

definition file_bytes :: "(u32 \<Rightarrow> u8 list) \<Rightarrow> inode \<Rightarrow> nat \<Rightarrow> nat \<Rightarrow> u8 list" where
  "file_bytes C x off n = map (file_byte C x) [off..<off + n]"

text \<open>Every block of the file is allocated and on the disk of \<open>N\<close> blocks.\<close>

definition mapped :: "nat \<Rightarrow> (u32 \<Rightarrow> u8 list) \<Rightarrow> inode \<Rightarrow> bool" where
  "mapped N C x \<longleftrightarrow> i_dev x = 1 \<and> unat (i_size x) \<le> MAXFILE * BSIZE \<and>
     (\<forall>k < (unat (i_size x) + BSIZE - 1) div BSIZE. file_block C x k \<noteq> 0 \<and> unat (file_block C x k) < N) \<and>
     (NDIRECT * BSIZE < unat (i_size x) \<longrightarrow> i_addrs x ! NDIRECT \<noteq> 0 \<and> unat (i_addrs x ! NDIRECT) < N)"

section \<open>A thread that reads\<close>

text \<open>The view of the cache with no buffer held, and the inodes.\<close>

definition reading :: "nat set \<times> nat \<times> u32 \<Rightarrow> u8 list \<Rightarrow> (u32 \<Rightarrow> u8 list) \<Rightarrow> u32 set \<Rightarrow> inode list \<Rightarrow> kernel \<Rightarrow> bool" where
  "reading T D C P I s \<longleftrightarrow> view Map.empty T D C P (k_dwrites s) (k_log s) s \<and> k_inodes s = I \<and> card P < NBUF"

text \<open>The inodes and the superblock do not matter for the view.\<close>

lemma view_other:
  "view H T D C P W lg (s\<lparr>k_inodes := I\<rparr>) = view H T D C P W lg s" "view H T D C P W lg (s\<lparr>k_sb := b\<rparr>) = view H T D C P W lg s"
proof -
  have *: "view H T D C P W lg t = view H T D C P W lg s" if t: "t = s\<lparr>k_inodes := I, k_sb := b\<rparr>" for t I b
  proof -
    have bo: "bufof t = bufof s" by (simp add: bufof_def[abs_def] t)
    have "calm sw p pid t = calm sw p pid s" for sw p pid by (rule calm_cong) (simp_all add: t)
    moreover have "cinv L pid t = cinv L pid s" for L pid
      by (simp add: cinv_def lru_def nx_def[abs_def] pv_def[abs_def] buf_ok_def disksize_def bo) (simp add: t)
    moreover have "caches t = caches s" by (simp add: caches_def[abs_def] bo)
    moreover have "content t = content s" by (rule ext) (simp add: content_def t bo[unfolded t] split: option.split)
    moreover have "pinned t = pinned s" using calculation(3) by (simp add: pinned_def bo)
    ultimately show ?thesis by (simp add: view_def) (simp add: t)
  qed
  show "view H T D C P W lg (s\<lparr>k_inodes := I\<rparr>) = view H T D C P W lg s"
    by (rule *[of _ "k_sb s" I]) simp
  show "view H T D C P W lg (s\<lparr>k_sb := b\<rparr>) = view H T D C P W lg s"
    by (rule *[of _ b "k_inodes s"]) simp
qed

lemmas view_inodes = view_other(1)

lemma reading_block:
  assumes r: "reading T D C P I s" and n: "unat n < length D div BSIZE"
  shows "\<exists>b t. bread 1 n s = Ret b t \<and> bdata b t = Ret (C n) t \<and> k_inodes t = I \<and>
    (\<exists>u. brelse b t = Ret () u \<and> reading T D C P I u)"
proof -
  have v: "view Map.empty T D C P (k_dwrites s) (k_log s) s" "k_inodes s = I" "card P < NBUF"
    using r by (auto simp: reading_def)
  from view_bread_only[OF v(1) n] v(3) obtain b t where
    b: "bread 1 n s = Ret b t" "view [b \<mapsto> n] T D C P (k_dwrites s) (k_log s) t" "cache_only s t" by auto
  have clean: "n \<in> P \<or> C n = disk_block D (unat n)" using view_clean[OF v(1)] by auto
  have "[b \<mapsto> n](b := None) = Map.empty" by simp
  from view_brelse_only[OF b(2) fun_upd_same clean, unfolded this] obtain u where
    u: "brelse b t = Ret () u" "view Map.empty T D C P (k_dwrites s) (k_log s) u" "cache_only t u" by auto
  have "k_inodes t = I" "k_inodes u = I" "k_dwrites u = k_dwrites s" "k_log u = k_log s"
    using cache_onlyD[OF b(3)] cache_onlyD[OF u(3)] v(2) by auto
  then show ?thesis using b u v(3) view_bdata[OF b(2), of b n] by (auto simp: reading_def)
qed

lemma bmap_direct_mapped:
  "i_addrs (ino s ip) ! k \<noteq> 0 \<Longrightarrow> bmap_direct ip k s = Ret (i_addrs (ino s ip) ! k) s"
  by (simp add: bmap_direct_def inode_addr_def kexec)

lemma bmap_ok:
  assumes r: "reading T D C P I s" and m: "mapped (length D div BSIZE) C (I ! ip)"
    and k: "unat bn * BSIZE < unat (i_size (I ! ip))"
  shows "\<exists>t. bmap ip bn s = Ret (file_block C (I ! ip) (unat bn)) t \<and> reading T D C P I t"
proof -
  let ?x = "I ! ip"
  have x: "ino s ip = ?x" using r by (simp add: ino_def reading_def)
  have kb: "unat bn < (unat (i_size ?x) + BSIZE - 1) div BSIZE"
    using k by (simp add: BSIZE_def less_eq_div_iff_mult_less_eq Suc_le_eq[symmetric])
  then have a: "file_block C ?x (unat bn) \<noteq> 0" "unat (file_block C ?x (unat bn)) < length D div BSIZE" and dev: "i_dev ?x = 1"
    using m by (auto simp: mapped_def)
  show ?thesis
  proof (cases "unat bn < NDIRECT")
    case True
    then show ?thesis using a r x bmap_direct_mapped[of s ip "unat bn"] by (auto simp: bmap_def file_block_def)
  next
    case False
    let ?j = "unat bn - NDIRECT" and ?ind = "i_addrs ?x ! NDIRECT"
    have max: "unat bn < MAXFILE" using kb m by (auto simp: mapped_def BSIZE_def less_mult_imp_div_less)
    have j: "unat (bn - of_nat NDIRECT) = ?j" using False by (subst unat_sub) (auto simp: NDIRECT_def word_le_nat_alt)
    have jl: "?j < NINDIRECT" using max False by (simp add: MAXFILE_def)
    have "NDIRECT * BSIZE \<le> unat bn * BSIZE" using False by (intro mult_le_mono1) simp
    then have "NDIRECT * BSIZE < unat (i_size ?x)" using k by linarith
    then have ind: "?ind \<noteq> 0" "unat ?ind < length D div BSIZE" using m by (auto simp: mapped_def)
    from reading_block[OF r ind(2)] obtain b t u where
      b: "bread 1 ?ind s = Ret b t" "bdata b t = Ret (C ?ind) t" "brelse b t = Ret () u" "reading T D C P I u" by blast
    have "get32 (C ?ind) (4 * ?j) = file_block C ?x (unat bn)" using False ind(1) by (simp add: file_block_def)
    then have "bmap ip bn s = Ret (file_block C ?x (unat bn)) u"
      using False jl ind(1) a(1) b dev x bmap_direct_mapped[of s ip NDIRECT]
      by (simp add: bmap_def j Let_def kbind_def inode_dev_def kget_def kret_def)
    then show ?thesis using b(4) by blast
  qed
qed


section \<open>\<open>readi\<close>\<close>

lemma file_bytes_append: "file_bytes C x off m @ file_bytes C x (off + m) n = file_bytes C x off (m + n)"
  using upt_add_eq_append[of off "off + m" n] by (simp add: file_bytes_def add.assoc)

text \<open>A piece of one block.\<close>

lemma file_bytes_piece:
  assumes "length (C (file_block C x (off div BSIZE))) = BSIZE" "m \<le> BSIZE - off mod BSIZE" "file_block C x (off div BSIZE) \<noteq> 0"
  shows "get_range (off mod BSIZE) m (C (file_block C x (off div BSIZE))) = file_bytes C x off m"
proof (rule nth_equalityI)
  have le: "off mod BSIZE + m \<le> BSIZE" using assms(2) by (simp add: BSIZE_def)
  show "length (get_range (off mod BSIZE) m (C (file_block C x (off div BSIZE)))) = length (file_bytes C x off m)"
    using assms(1) le by (simp add: file_bytes_def)
  fix j assume "j < length (get_range (off mod BSIZE) m (C (file_block C x (off div BSIZE))))"
  then have j: "j < m" using assms(1) le by simp
  have "(off + j) div BSIZE = off div BSIZE \<and> (off + j) mod BSIZE = off mod BSIZE + j"
  proof -
    have e: "off + j = (off mod BSIZE + j) + off div BSIZE * BSIZE" using div_mult_mod_eq[of off BSIZE] by linarith
    have "off mod BSIZE + j < BSIZE" "BSIZE \<noteq> 0" using j le by (simp_all add: BSIZE_def)
    then have d: "(off + j) div BSIZE = off div BSIZE"
      using div_mult_self1[of BSIZE "off mod BSIZE + j" "off div BSIZE", folded e] by simp
    moreover have "(off + j) mod BSIZE = off mod BSIZE + j"
      using div_mult_mod_eq[of "off + j" BSIZE, unfolded d] e by linarith
    ultimately show ?thesis by blast
  qed
  then show "get_range (off mod BSIZE) m (C (file_block C x (off div BSIZE))) ! j = file_bytes C x off m ! j"
    using j le assms(1,3) by (simp add: get_range_def file_bytes_def file_byte_def)
qed

lemma readi_loop_ok:
  assumes "reading T D C P I s" "mapped (length D div BSIZE) C (I ! ip)" "unat off + (unat n - unat tot) \<le> unat (i_size (I ! ip))"
    and "tot \<le> n" "unat n - unat tot < k"
  shows "\<exists>t. readi_loop k ip To_local off tot n acc s = Ret (acc @ file_bytes C (I ! ip) (unat off) (unat n - unat tot)) t \<and>
    reading T D C P I t"
  using assms
proof (induction k arbitrary: off tot acc s)
  case (Suc k)
  let ?x = "I ! ip" and ?N = "length D div BSIZE"
  show ?case
  proof (cases "tot < n")
    case False
    then show ?thesis using Suc.prems by (auto simp: kret_def file_bytes_def word_less_nat_alt word_le_nat_alt)
  next
    case True
    let ?bn = "off div of_nat BSIZE" and ?m = "chunk off tot n"
    have bn: "unat ?bn = unat off div BSIZE" by (simp add: BSIZE_def unat_div)
    have lt: "unat tot < unat n" using True by (simp add: word_less_nat_alt)
    have m: "?m \<le> unat n - unat tot" "1 \<le> ?m" "?m \<le> BSIZE - unat off mod BSIZE"
      using lt by (auto simp: chunk_def unat_sub word_le_nat_alt BSIZE_def Suc_le_eq)
    have "unat off div BSIZE * BSIZE \<le> unat off" by (rule div_times_less_eq_dividend)
    then have "unat ?bn * BSIZE < unat (i_size ?x)" unfolding bn using lt Suc.prems(3) by linarith
    from bmap_ok[OF Suc.prems(1,2) this] obtain t where
      t: "bmap ip ?bn s = Ret (file_block C ?x (unat ?bn)) t" "reading T D C P I t" by blast
    have fb: "unat (file_block C ?x (unat ?bn)) < ?N" "file_block C ?x (unat ?bn) \<noteq> 0" and dev: "i_dev ?x = 1"
    proof -
      have "unat ?bn < (unat (i_size ?x) + BSIZE - 1) div BSIZE"
        using \<open>unat ?bn * BSIZE < _\<close> by (simp add: BSIZE_def less_eq_div_iff_mult_less_eq Suc_le_eq[symmetric])
      then show "unat (file_block C ?x (unat ?bn)) < ?N" "file_block C ?x (unat ?bn) \<noteq> 0" "i_dev ?x = 1" using Suc.prems(2) by (auto simp: mapped_def)
    qed
    from reading_block[OF t(2) fb(1)] obtain b u v where
      b: "bread 1 (file_block C ?x (unat ?bn)) t = Ret b u" "bdata b u = Ret (C (file_block C ?x (unat ?bn))) u"
        "brelse b u = Ret () v" "reading T D C P I v" by blast
    have len: "length (C (file_block C ?x (unat ?bn))) = BSIZE"
      using view_len[of Map.empty T D C P] t(2) fb(1) by (auto simp: reading_def)
    note piece = file_bytes_piece[of C ?x "unat off" ?m, folded bn, OF len m(3) fb(2)]
    have mw: "unat (of_nat ?m :: u32) = ?m" using m(1) unsigned_less[of n, where 'a = nat] by (simp add: unat_of_nat)
    have o': "unat (off + of_nat ?m) = unat off + ?m"
      using m(1) mw Suc.prems(3) unsigned_less[of "i_size ?x", where 'a = nat] by (simp add: unat_word_ariths)
    have t': "unat (tot + of_nat ?m) = unat tot + ?m"
      using m(1) mw lt unsigned_less[of n, where 'a = nat] by (simp add: unat_word_ariths)
    have ino: "ino t ip = ?x" using t(2) by (simp add: ino_def reading_def)
    have "readi_loop (Suc k) ip To_local off tot n acc s =
        readi_loop k ip To_local (off + of_nat ?m) (tot + of_nat ?m) n (acc @ file_bytes C ?x (unat off) ?m) v"
      using True t(1) b dev ino piece
      by (simp add: kbind_def inode_dev_def kget_def Let_def deliver_def kret_def)
    moreover have "\<exists>w. readi_loop k ip To_local (off + of_nat ?m) (tot + of_nat ?m) n (acc @ file_bytes C ?x (unat off) ?m) v =
        Ret ((acc @ file_bytes C ?x (unat off) ?m) @
          file_bytes C ?x (unat (off + of_nat ?m)) (unat n - unat (tot + of_nat ?m))) w \<and> reading T D C P I w"
    proof (rule Suc.IH[OF b(4) Suc.prems(2)])
      show "tot + of_nat ?m \<le> n" using t' m(1) lt by (simp add: word_le_nat_alt)
    qed (use o' t' m(1,2) lt Suc.prems(3,5) in auto)
    moreover have "file_bytes C ?x (unat off) ?m @ file_bytes C ?x (unat off + ?m) (unat n - (unat tot + ?m)) =
        file_bytes C ?x (unat off) (unat n - unat tot)"
    proof -
      have "?m + (unat n - (unat tot + ?m)) = unat n - unat tot" using m(1) lt by linarith
      then show ?thesis using file_bytes_append[of C ?x "unat off" ?m] by simp
    qed
    ultimately show ?thesis using o' t' by simp
  qed
qed simp

text \<open>The part of the range that lies in the file.\<close>

definition clip :: "u32 \<Rightarrow> u32 \<Rightarrow> u32 \<Rightarrow> nat" where
  "clip len off n = min (unat n) (unat len - unat off)"

lemma readi_ok:
  assumes r: "reading T D C P I s" and m: "mapped (length D div BSIZE) C (I ! ip)" and "i_type (I ! ip) \<noteq> T_DEV"
  shows "\<exists>t. readi ip To_local off n s =
      Ret (if unat (i_size (I ! ip)) < unat off \<or> 2 ^ 32 \<le> unat off + unat n then None
           else Some (file_bytes C (I ! ip) (unat off) (clip (i_size (I ! ip)) off n))) t \<and> reading T D C P I t"
proof -
  let ?x = "I ! ip"
  have x: "ino s ip = ?x" using r by (simp add: ino_def reading_def)
  have ov: "off + n < off \<longleftrightarrow> 2 ^ 32 \<le> unat off + unat n"
    using unsigned_less[of off, where 'a = nat] unsigned_less[of n, where 'a = nat]
    by (auto simp: word_less_nat_alt unat_word_ariths mod_if)
  show ?thesis
  proof (cases "i_size ?x < off \<or> off + n < off")
    case True
    then show ?thesis using r x assms(3) ov by (auto simp: readi_def kexec word_less_nat_alt)
  next
    case False
    define n' where "n' = (if i_size ?x < off + n then i_size ?x - off else n)"
    have le: "unat off \<le> unat (i_size ?x)" "unat (off + n) = unat off + unat n"
      using False ov by (auto simp: word_less_nat_alt unat_word_ariths not_less)
    have n': "unat n' = clip (i_size ?x) off n"
      using le by (auto simp: n'_def clip_def unat_sub word_le_nat_alt word_less_nat_alt)
    have "\<exists>t. readi_loop (Suc (unat n')) ip To_local off 0 n' [] s =
        Ret ([] @ file_bytes C ?x (unat off) (unat n' - unat (0 :: u32))) t \<and> reading T D C P I t"
      using le n' by (intro readi_loop_ok[OF r m]) (auto simp: clip_def word_le_nat_alt)
    moreover have "readi ip To_local off n s = kbind (readi_loop (Suc (unat n')) ip To_local off 0 n' []) (\<lambda>bs. kret (Some bs)) s"
      using False x assms(3) by (simp add: readi_def kbind_def kget_def Let_def n'_def)
    ultimately show ?thesis using False ov n' by (auto simp: kbind_def kret_def word_less_nat_alt)
  qed
qed

end
