(* ===== verification/Log_Steps.thy ===== *)
theory Log_Steps
  imports Log_View Log
begin

text \<open>
  The parts of a commit as lists of block writes: the two copying loops of the log
  (\<open>write_log\<close>, \<open>install_trans\<close>) and the header block.
\<close>

section \<open>Lists of writes\<close>

definition apply_writes :: "(u32 \<times> u8 list) list \<Rightarrow> u8 list \<Rightarrow> u8 list" where
  "apply_writes ws d = fold (\<lambda>(n, bs). disk_write (unat n) bs) ws d"

definition put_blocks :: "(u32 \<times> u8 list) list \<Rightarrow> (u32 \<Rightarrow> u8 list) \<Rightarrow> u32 \<Rightarrow> u8 list" where
  "put_blocks ws C = fold (\<lambda>(n, bs) C. C(n := bs)) ws C"

lemma apply_writes_simps [simp]:
  "apply_writes [] d = d" "apply_writes ((n, bs) # ws) d = apply_writes ws (disk_write (unat n) bs d)"
  "apply_writes (ws @ vs) d = apply_writes vs (apply_writes ws d)"
  by (simp_all add: apply_writes_def)

lemma put_blocks_simps [simp]:
  "put_blocks [] C = C" "put_blocks ((n, bs) # ws) C = put_blocks ws (C(n := bs))"
  "put_blocks (ws @ vs) C = put_blocks vs (put_blocks ws C)"
  by (simp_all add: put_blocks_def)

lemma put_blocks_other: "n \<notin> fst ` set ws \<Longrightarrow> put_blocks ws C n = C n"
  by (induction ws arbitrary: C) auto

lemma put_blocks_at: "(n, bs) \<in> set ws \<Longrightarrow> distinct (map fst ws) \<Longrightarrow> put_blocks ws C n = bs"
proof (induction ws arbitrary: C)
  case (Cons w ws)
  show ?case
  proof (cases "w = (n, bs)")
    case True
    then have "n \<notin> fst ` set ws" using Cons.prems by auto
    then show ?thesis using True put_blocks_other[of n ws] by simp
  next
    case False
    then show ?thesis using Cons by (cases w) auto
  qed
qed simp

definition writes_ok :: "nat \<Rightarrow> (u32 \<times> u8 list) list \<Rightarrow> bool" where
  "writes_ok N ws \<longleftrightarrow> (\<forall>(n, bs) \<in> set ws. unat n < N \<and> length bs = BSIZE)"

lemma apply_writes_block:
  assumes "writes_ok (length d div BSIZE) ws"
  shows "length (apply_writes ws d) = length d \<and>
    disk_block (apply_writes ws d) (unat n) = put_blocks ws (\<lambda>n. disk_block d (unat n)) n"
  using assms
proof (induction ws arbitrary: d)
  case (Cons w ws)
  obtain m bs where w: "w = (m, bs)" by (cases w)
  have m: "length bs = BSIZE" "unat m < length d div BSIZE" using Cons.prems by (auto simp: w writes_ok_def)
  note dw = disk_write_block[OF m]
  have "writes_ok (length (disk_write (unat m) bs d) div BSIZE) ws"
    using Cons.prems dw(1) by (simp add: writes_ok_def)
  note IH = Cons.IH[OF this]
  have "(\<lambda>n. disk_block (disk_write (unat m) bs d) (unat n)) = (\<lambda>n. disk_block d (unat n))(m := bs)"
    using dw(2) by (auto simp: fun_eq_iff word_unat_eq_iff)
  then show ?case using IH dw(1) by (simp add: w)
qed simp

section \<open>Copying blocks\<close>

lemma copy_tail:
  assumes v: "view [a \<mapsto> m, b \<mapsto> n] T D C P W lg s" and ne: "a \<noteq> b" "m \<noteq> n"
    and rng: "unat m < length D div BSIZE" "unat n < length D div BSIZE"
    and src: "m \<in> P \<or> C m = disk_block D (unat m)"
  shows "\<exists>t. kseq [copy_block b a, bwrite b, brelse a, brelse b] s = Ret () t \<and>
    view Map.empty T (disk_write (unat n) (C m) D) (C(n := C m)) (P - {n}) ((n, C m) # W) lg t"
proof -
  let ?H = "[a \<mapsto> m, b \<mapsto> n]"
  have Ha: "?H(a := None) = [b \<mapsto> n]" using ne(1) by (auto simp: fun_eq_iff)
  have H: "?H a = Some m" "?H b = Some n" using ne by simp_all
  have len: "length (C m) = BSIZE" using view_len[OF v] rng by simp
  note dw = disk_write_block[OF len rng(2)]
  from view_set_bdata[OF v H(2), of "\<lambda>_. C m"] len obtain u where
    u: "set_bdata b (\<lambda>_. C m) s = Ret () u" "view ?H T D (C(n := C m)) P W lg u" by blast
  have cp: "copy_block b a s = Ret () u"
    using view_bdata[OF v H(1)] u(1) by (simp add: copy_block_def kbind_def)
  from view_bwrite[OF u(2) H(2)] obtain v where
    v: "bwrite b u = Ret () v" "view ?H T (disk_write (unat n) (C m) D) (C(n := C m)) (P - {n}) ((n, C m) # W) lg v"
    unfolding fun_upd_same by blast
  have "m \<in> P - {n} \<or> (C(n := C m)) m = disk_block (disk_write (unat n) (C m) D) (unat m)"
    using src ne dw(2)[of "unat m"] by (auto simp: word_unat_eq_iff)
  from view_brelse[OF v(2) H(1) this, unfolded Ha] obtain w where
    w: "brelse a v = Ret () w" "view [b \<mapsto> n] T (disk_write (unat n) (C m) D) (C(n := C m)) (P - {n}) ((n, C m) # W) lg w"
    by blast
  have nd: "n \<in> P - {n} \<or> (C(n := C m)) n = disk_block (disk_write (unat n) (C m) D) (unat n)"
    using dw(2)[of "unat n"] by simp
  have Hb: "[b \<mapsto> n] b = Some n" "[b \<mapsto> n](b := None) = Map.empty" by simp_all
  from view_brelse[OF w(2) Hb(1) nd, unfolded Hb(2)] obtain x where
    x: "brelse b w = Ret () x" "view Map.empty T (disk_write (unat n) (C m) D) (C(n := C m)) (P - {n}) ((n, C m) # W) lg x"
    by blast
  show ?thesis using cp v(1) w(1) x by (simp add: kbind_def)
qed

lemma view_read2:
  assumes v: "view Map.empty T D C P W lg s" and ne: "m \<noteq> n"
    and rng: "unat m < length D div BSIZE" "unat n < length D div BSIZE"
    and room: "card P < NBUF" "n \<in> P \<or> card P + 1 < NBUF"
  shows "\<exists>a b t u. bread 1 m s = Ret a t \<and> bread 1 n t = Ret b u \<and> a \<noteq> b \<and>
    view [a \<mapsto> m] T D C P W lg t \<and> view [a \<mapsto> m, b \<mapsto> n] T D C P W lg u"
proof -
  from view_bread[OF v rng(1)] room obtain a t where a: "bread 1 m s = Ret a t" "view [a \<mapsto> m] T D C P W lg t"
    by auto
  have "n \<notin> Map.ran [a \<mapsto> m]" using ne by (simp add: Map.ran_def)
  from view_bread[OF a(2) rng(2) this] room obtain b u where
    b: "bread 1 n t = Ret b u" "b \<notin> dom [a \<mapsto> m]" "view [a \<mapsto> m, b \<mapsto> n] T D C P W lg u" by auto
  show ?thesis using a b by auto
qed

text \<open>A loop that copies, one after the other, blocks \<open>src i\<close> to blocks \<open>dst i\<close>.\<close>

lemma copy_loop:
  assumes v: "view Map.empty T D C P W lg s"
    and dist: "distinct is" "\<And>i j. i \<in> set is \<Longrightarrow> j \<in> set is \<Longrightarrow> src j \<noteq> dst i"
      "\<And>i j. i \<in> set is \<Longrightarrow> j \<in> set is \<Longrightarrow> i \<noteq> j \<Longrightarrow> late j \<noteq> dst i"
    and rng: "\<And>i. i \<in> set is \<Longrightarrow> unat (src i) < length D div BSIZE \<and> unat (dst i) < length D div BSIZE"
    and fin: "finite P" and room: "card P < NBUF" "\<And>i. i \<in> set is \<Longrightarrow> late i \<in> P \<or> card P + 1 < NBUF"
    and body: "\<And>i s D' C P W. i \<in> set is \<Longrightarrow> length D' = length D \<Longrightarrow> view Map.empty T D' C P W lg s \<Longrightarrow> card P < NBUF \<Longrightarrow>
      late i \<in> P \<or> card P + 1 < NBUF \<Longrightarrow>
      \<exists>t. body i s = Ret () t \<and> view Map.empty T (disk_write (unat (dst i)) (C (src i)) D')
        (C(dst i := C (src i))) (P - {dst i}) ((dst i, C (src i)) # W) lg t"
  shows "\<exists>t. kfor is body s = Ret () t \<and> view Map.empty T
    (apply_writes (map (\<lambda>i. (dst i, C (src i))) is) D) (put_blocks (map (\<lambda>i. (dst i, C (src i))) is) C)
    (P - dst ` set is) (rev (map (\<lambda>i. (dst i, C (src i))) is) @ W) lg t"
  using assms
proof (induction "is" arbitrary: s D C P W)
  case Nil
  then show ?case by simp
next
  case (Cons i "is")
  have i: "late i \<in> P \<or> card P + 1 < NBUF" using Cons.prems(8)[of i] by simp
  obtain t where t: "body i s = Ret () t" "view Map.empty T (disk_write (unat (dst i)) (C (src i)) D)
      (C(dst i := C (src i))) (P - {dst i}) ((dst i, C (src i)) # W) lg t"
    using Cons.prems(9)[OF list.set_intros(1) refl Cons.prems(1,7) i] by blast
  let ?C = "C(dst i := C (src i))" and ?P = "P - {dst i}"
  have ri: "unat (src i) < length D div BSIZE" "unat (dst i) < length D div BSIZE" using Cons.prems(5)[of i] by simp_all
  have len: "length (disk_write (unat (dst i)) (C (src i)) D) = length D"
    by (rule disk_write_block(1)[OF view_len[OF Cons.prems(1) ri(1)] ri(2)])
  have cP: "card ?P \<le> card P" using Cons.prems(6) by (simp add: card_mono)
  have "\<exists>u. kfor is body t = Ret () u \<and> view Map.empty T
    (apply_writes (map (\<lambda>j. (dst j, ?C (src j))) is) (disk_write (unat (dst i)) (C (src i)) D))
    (put_blocks (map (\<lambda>j. (dst j, ?C (src j))) is) ?C)
    (?P - dst ` set is) (rev (map (\<lambda>j. (dst j, ?C (src j))) is) @ (dst i, C (src i)) # W) lg u"
  proof (rule Cons.IH[OF t(2)])
    show "distinct is" using Cons.prems(2) by simp
    show "src j \<noteq> dst k" if "k \<in> set is" "j \<in> set is" for j k using Cons.prems(3) that by simp
    show "late j \<noteq> dst k" if "k \<in> set is" "j \<in> set is" "k \<noteq> j" for j k using Cons.prems(4) that by simp
    show "card ?P < NBUF" using cP Cons.prems(7) by simp
    show "late j \<in> ?P \<or> card ?P + 1 < NBUF" if "j \<in> set is" for j
      using Cons.prems(8)[of j] Cons.prems(2) Cons.prems(4)[of i j] that cP by auto
  qed (use Cons.prems(5,6,9) len in auto)
  moreover have "?C (src j) = C (src j)" if "j \<in> set is" for j using Cons.prems(3)[of i j] that by simp
  then have "map (\<lambda>j. (dst j, ?C (src j))) is = map (\<lambda>j. (dst j, C (src j))) is" by simp
  ultimately obtain u where u: "kfor is body t = Ret () u" "view Map.empty T
    (apply_writes (map (\<lambda>j. (dst j, C (src j))) is) (disk_write (unat (dst i)) (C (src i)) D))
    (put_blocks (map (\<lambda>j. (dst j, C (src j))) is) ?C)
    (?P - dst ` set is) (rev (map (\<lambda>j. (dst j, C (src j))) is) @ (dst i, C (src i)) # W) lg u" by (simp only:) blast
  have "?P - dst ` set is = P - dst ` set (i # is)" by auto
  then show ?case using t(1) u by (simp add: kbind_def)
qed

end
