(* ===== verification/Commit.thy ===== *)
theory Commit
  imports Log_Steps
begin

text \<open>\<open>write_log\<close>, \<open>write_head\<close>, \<open>install_trans\<close>, \<open>read_head\<close> and \<open>commit\<close> as lists of block writes.\<close>

section \<open>The log area\<close>

definition log_at :: "nat \<Rightarrow> nat \<Rightarrow> u32" where
  "log_at ls i = of_nat (ls + 1 + i)"

definition in_log :: "nat \<Rightarrow> u32 \<Rightarrow> bool" where
  "in_log ls n \<longleftrightarrow> ls \<le> unat n \<and> unat n < ls + LOGSIZE"

text \<open>
  \<open>log_ok N ls es lg\<close>: the log in memory lists the distinct home blocks \<open>es\<close> of a disk with \<open>N\<close>
  blocks, none of them in the log area, which starts at block \<open>ls\<close>.
\<close>

definition log_ok :: "nat \<Rightarrow> nat \<Rightarrow> u32 list \<Rightarrow> log \<Rightarrow> bool" where
  "log_ok N ls es lg \<longleftrightarrow> l_dev lg = 1 \<and> l_start lg = int ls \<and> l_n lg = int (length es) \<and>
     length (l_block lg) = LOGSIZE \<and> take (length es) (l_block lg) = es \<and> length es < LOGSIZE \<and>
     ls + LOGSIZE \<le> N \<and> N \<le> 2 ^ 32 \<and> distinct es \<and> (\<forall>e \<in> set es. unat e < N \<and> \<not> in_log ls e)"

lemma log_okD:
  assumes "log_ok N ls es lg"
  shows "l_dev lg = 1" "l_start lg = int ls" "l_n lg = int (length es)" "length (l_block lg) = LOGSIZE"
    "length es < LOGSIZE" "ls + LOGSIZE \<le> N" "N \<le> 2 ^ 32" "distinct es"
    "i < length es \<Longrightarrow> aget (l_block lg) (int i) = Some (es ! i)"
    "i < length es \<Longrightarrow> unat (es ! i) < N" "i < length es \<Longrightarrow> \<not> in_log ls (es ! i)"
proof -
  show "aget (l_block lg) (int i) = Some (es ! i)" if i: "i < length es"
  proof -
    have "take (length es) (l_block lg) = es" "length (l_block lg) = LOGSIZE" "length es < LOGSIZE"
      using assms by (simp_all add: log_ok_def)
    then have "l_block lg ! i = es ! i" "i < length (l_block lg)" using i by (metis nth_take, simp)
    then show ?thesis by simp
  qed
qed (use assms in \<open>auto simp: log_ok_def\<close>)

lemma log_block_at: "l_start (k_log s) = int ls \<Longrightarrow> log_block i s = log_at ls i"
  by (simp add: log_block_def log_at_def algebra_simps)

lemma unat_u32: "k < 2 ^ 32 \<Longrightarrow> unat (of_nat k :: u32) = k"
  by (simp add: unat_of_nat)

lemma sint_u32: "k < 2 ^ 31 \<Longrightarrow> sint (of_nat k :: u32) = int k"
proof -
  assume "k < 2 ^ 31"
  then have "signed_take_bit 31 (int k) = int k" by (intro signed_take_bit_int_eq_self) auto
  then show ?thesis using sint_sbintrunc'[where 'a = 32, of "int k"] by simp
qed

lemma unat_log_at: "ls + LOGSIZE \<le> N \<Longrightarrow> N \<le> 2 ^ 32 \<Longrightarrow> i + 1 < LOGSIZE \<Longrightarrow> unat (log_at ls i) = ls + 1 + i"
  unfolding log_at_def by (rule unat_u32) simp

lemma log_at_in: "ls + LOGSIZE \<le> N \<Longrightarrow> N \<le> 2 ^ 32 \<Longrightarrow> i + 1 < LOGSIZE \<Longrightarrow> in_log ls (log_at ls i)"
  by (simp add: in_log_def unat_log_at)

lemma log_at_inj: "ls + LOGSIZE \<le> N \<Longrightarrow> N \<le> 2 ^ 32 \<Longrightarrow> i + 1 < LOGSIZE \<Longrightarrow> j + 1 < LOGSIZE \<Longrightarrow>
    log_at ls i = log_at ls j \<longleftrightarrow> i = j"
  by (metis unat_log_at add_left_cancel)

lemma unat_log_start: "ls + LOGSIZE \<le> N \<Longrightarrow> N \<le> 2 ^ 32 \<Longrightarrow> unat (of_nat ls :: u32) = ls"
  by (simp add: unat_of_nat LOGSIZE_def MAXOPBLOCKS_def)

lemma log_start_in: "ls + LOGSIZE \<le> N \<Longrightarrow> N \<le> 2 ^ 32 \<Longrightarrow> in_log ls (of_nat ls)"
  by (simp add: in_log_def unat_log_start LOGSIZE_def MAXOPBLOCKS_def)

section \<open>The loops\<close>

definition log_writes :: "nat \<Rightarrow> u32 list \<Rightarrow> (u32 \<Rightarrow> u8 list) \<Rightarrow> (u32 \<times> u8 list) list" where
  "log_writes ls es C = map (\<lambda>i. (log_at ls i, C (es ! i))) [0..<length es]"

definition install_writes :: "nat \<Rightarrow> u32 list \<Rightarrow> (u32 \<Rightarrow> u8 list) \<Rightarrow> (u32 \<times> u8 list) list" where
  "install_writes ls es C = map (\<lambda>i. (es ! i, C (log_at ls i))) [0..<length es]"

lemma view_log: "view H T D C P W lg s \<Longrightarrow> k_log s = lg"
  by (simp add: view_def)

lemma write_log_ok:
  assumes v: "view Map.empty T D C P W lg s" and ok: "log_ok (length D div BSIZE) ls es lg"
    and P: "finite P" "card P < NBUF" "set es \<subseteq> P" "\<And>n. n \<in> P \<Longrightarrow> \<not> in_log ls n"
  shows "\<exists>t. write_log s = Ret () t \<and> view Map.empty T (apply_writes (log_writes ls es C) D)
    (put_blocks (log_writes ls es C) C) P (rev (log_writes ls es C) @ W) lg t"
proof -
  note L = log_okD[OF ok]
  note at = log_at_in[OF L(6,7)] log_at_inj[OF L(6,7)] unat_log_at[OF L(6,7)]
  let ?N = "length D div BSIZE"
  have i1: "i + 1 < LOGSIZE" if "i \<in> set [0..<length es]" for i using that L(5) by simp
  define body where "body tail = kbind (kget (\<lambda>s. l_dev (k_log s))) (\<lambda>dev.
     kbind (kget (log_block tail)) (\<lambda>dst.
     kbind (bread dev dst) (\<lambda>to.
     kbind (lh_block tail) (\<lambda>src.
     kbind (bread dev src) (\<lambda>from.
     kseq [copy_block to from, bwrite to, brelse from, brelse to])))))" for tail
  have "\<exists>t. kfor [0..<length es] body s = Ret () t \<and> view Map.empty T
    (apply_writes (map (\<lambda>i. (log_at ls i, C (es ! i))) [0..<length es]) D)
    (put_blocks (map (\<lambda>i. (log_at ls i, C (es ! i))) [0..<length es]) C)
    (P - log_at ls ` set [0..<length es]) (rev (map (\<lambda>i. (log_at ls i, C (es ! i))) [0..<length es]) @ W) lg t"
  proof (rule copy_loop[OF v, where late = "\<lambda>i. es ! i"])
    show "es ! j \<noteq> log_at ls i" if "i \<in> set [0..<length es]" "j \<in> set [0..<length es]" for i j
      using L(11)[of j] at(1)[OF i1[OF that(1)]] that by auto
    then show "es ! j \<noteq> log_at ls i" if "i \<in> set [0..<length es]" "j \<in> set [0..<length es]" "i \<noteq> j" for i j
      using that by blast
    show "unat (es ! i) < ?N \<and> unat (log_at ls i) < ?N" if "i \<in> set [0..<length es]" for i
      using L(6) L(10)[of i] at(3)[OF i1[OF that]] i1[OF that] that by simp
    show "es ! i \<in> P \<or> card P + 1 < NBUF" if "i \<in> set [0..<length es]" for i using that P(3) by auto
  next
    fix i s D' C P W assume i: "i \<in> set [0..<length es]" and D': "length D' = length D"
      and v: "view Map.empty T D' C P W lg s" and c: "card P < NBUF" "es ! i \<in> P \<or> card P + 1 < NBUF"
    have rng: "unat (log_at ls i) < length D' div BSIZE" "unat (es ! i) < length D' div BSIZE"
      using L(6) L(10)[of i] at(3)[OF i1[OF i]] i1[OF i] i D' by simp_all
    have ne: "log_at ls i \<noteq> es ! i" using L(11)[of i] at(1)[OF i1[OF i]] i by auto
    obtain a b t u where r: "bread 1 (log_at ls i) s = Ret a t" "bread 1 (es ! i) t = Ret b u" "a \<noteq> b"
      "view [a \<mapsto> log_at ls i] T D' C P W lg t" "view [a \<mapsto> log_at ls i, b \<mapsto> es ! i] T D' C P W lg u"
      using view_read2[OF v ne rng c] by blast
    have src: "es ! i \<in> P \<or> C (es ! i) = disk_block D' (unat (es ! i))" using view_clean[OF v] by auto
    have "view [b \<mapsto> es ! i, a \<mapsto> log_at ls i] T D' C P W lg u" using r(3,5) by (simp add: fun_upd_twist)
    from copy_tail[OF this r(3)[symmetric] ne[symmetric] rng(2,1) src] obtain w where
      w: "kseq [copy_block a b, bwrite a, brelse b, brelse a] u = Ret () w"
      "view Map.empty T (disk_write (unat (log_at ls i)) (C (es ! i)) D') (C(log_at ls i := C (es ! i)))
         (P - {log_at ls i}) ((log_at ls i, C (es ! i)) # W) lg w" by blast
    have "l_dev (k_log s) = 1" "log_block i s = log_at ls i" using view_log[OF v] L(1,2) log_block_at by auto
    moreover have "lh_block i t = Ret (es ! i) t"
      using view_log[OF r(4)] L(9) i by (simp add: lh_block_def kopt_def)
    ultimately have "body i s = Ret () w"
      using r(1,2) w(1) by (simp add: body_def kbind_def kget_def del: kseq.simps)
    then show "\<exists>t. body i s = Ret () t \<and> view Map.empty T (disk_write (unat (log_at ls i)) (C (es ! i)) D')
      (C(log_at ls i := C (es ! i))) (P - {log_at ls i}) ((log_at ls i, C (es ! i)) # W) lg t" using w(2) by blast
  qed (use P in simp_all)
  moreover have "P - log_at ls ` set [0..<length es] = P" using P(4) at(1) i1 by blast
  moreover have "log_entries s = [0..<length es]" using view_log[OF v] L(3) by (simp add: log_entries_def)
  then have "write_log s = kfor [0..<length es] body s"
    by (simp add: write_log_def body_def[abs_def])
  ultimately show ?thesis by (simp add: log_writes_def)
qed

lemma install_trans_ok:
  assumes v: "view Map.empty T D C P W lg s" and ok: "log_ok (length D div BSIZE) ls es lg"
    and P: "finite P" "card P < NBUF" "set es \<subseteq> P \<or> card P + 1 < NBUF"
  shows "\<exists>t. install_trans s = Ret () t \<and> view Map.empty T (apply_writes (install_writes ls es C) D)
    (put_blocks (install_writes ls es C) C) (P - set es) (rev (install_writes ls es C) @ W) lg t"
proof -
  note L = log_okD[OF ok]
  note at = log_at_in[OF L(6,7)] log_at_inj[OF L(6,7)] unat_log_at[OF L(6,7)]
  let ?N = "length D div BSIZE"
  have i1: "i + 1 < LOGSIZE" if "i \<in> set [0..<length es]" for i using that L(5) by simp
  define body where "body tail = kbind (kget (\<lambda>s. l_dev (k_log s))) (\<lambda>dev.
     kbind (kget (log_block tail)) (\<lambda>src.
     kbind (bread dev src) (\<lambda>lbuf.
     kbind (lh_block tail) (\<lambda>dst.
     kbind (bread dev dst) (\<lambda>dbuf.
     kseq [copy_block dbuf lbuf, bwrite dbuf, brelse lbuf, brelse dbuf])))))" for tail
  have "\<exists>t. kfor [0..<length es] body s = Ret () t \<and> view Map.empty T
    (apply_writes (map (\<lambda>i. (es ! i, C (log_at ls i))) [0..<length es]) D)
    (put_blocks (map (\<lambda>i. (es ! i, C (log_at ls i))) [0..<length es]) C)
    (P - (\<lambda>i. es ! i) ` set [0..<length es]) (rev (map (\<lambda>i. (es ! i, C (log_at ls i))) [0..<length es]) @ W) lg t"
  proof (rule copy_loop[OF v, where late = "\<lambda>i. es ! i"])
    show "log_at ls j \<noteq> es ! i" if "i \<in> set [0..<length es]" "j \<in> set [0..<length es]" for i j
      using L(11)[of i] at(1)[OF i1[OF that(2)]] that by auto
    show "es ! j \<noteq> es ! i" if "i \<in> set [0..<length es]" "j \<in> set [0..<length es]" "i \<noteq> j" for i j
      using that L(8) by (simp add: nth_eq_iff_index_eq)
    show "unat (log_at ls i) < ?N \<and> unat (es ! i) < ?N" if "i \<in> set [0..<length es]" for i
      using L(6) L(10)[of i] at(3)[OF i1[OF that]] i1[OF that] that by simp
    show "es ! i \<in> P \<or> card P + 1 < NBUF" if "i \<in> set [0..<length es]" for i using that P(3) by auto
  next
    fix i s D' C P W assume i: "i \<in> set [0..<length es]" and D': "length D' = length D"
      and v: "view Map.empty T D' C P W lg s" and c: "card P < NBUF" "es ! i \<in> P \<or> card P + 1 < NBUF"
    have rng: "unat (log_at ls i) < length D' div BSIZE" "unat (es ! i) < length D' div BSIZE"
      using L(6) L(10)[of i] at(3)[OF i1[OF i]] i1[OF i] i D' by simp_all
    have ne: "log_at ls i \<noteq> es ! i" using L(11)[of i] at(1)[OF i1[OF i]] i by auto
    obtain a b t u where r: "bread 1 (log_at ls i) s = Ret a t" "bread 1 (es ! i) t = Ret b u" "a \<noteq> b"
      "view [a \<mapsto> log_at ls i] T D' C P W lg t" "view [a \<mapsto> log_at ls i, b \<mapsto> es ! i] T D' C P W lg u"
      using view_read2[OF v ne rng c] by blast
    have src: "log_at ls i \<in> P \<or> C (log_at ls i) = disk_block D' (unat (log_at ls i))" using view_clean[OF v] by auto
    from copy_tail[OF r(5) r(3) ne rng src] obtain w where
      w: "kseq [copy_block b a, bwrite b, brelse a, brelse b] u = Ret () w"
      "view Map.empty T (disk_write (unat (es ! i)) (C (log_at ls i)) D') (C(es ! i := C (log_at ls i)))
         (P - {es ! i}) ((es ! i, C (log_at ls i)) # W) lg w" by blast
    have "l_dev (k_log s) = 1" "log_block i s = log_at ls i" using view_log[OF v] L(1,2) log_block_at by auto
    moreover have "lh_block i t = Ret (es ! i) t"
      using view_log[OF r(4)] L(9) i by (simp add: lh_block_def kopt_def)
    ultimately have "body i s = Ret () w"
      using r(1,2) w(1) by (simp add: body_def kbind_def kget_def del: kseq.simps)
    then show "\<exists>t. body i s = Ret () t \<and> view Map.empty T (disk_write (unat (es ! i)) (C (log_at ls i)) D')
      (C(es ! i := C (log_at ls i))) (P - {es ! i}) ((es ! i, C (log_at ls i)) # W) lg t" using w(2) by blast
  qed (use P L(8) in simp_all)
  moreover have "(\<lambda>i. es ! i) ` set [0..<length es] = set es" by (metis set_map map_nth)
  moreover have "log_entries s = [0..<length es]" using view_log[OF v] L(3) by (simp add: log_entries_def)
  then have "install_trans s = kfor [0..<length es] body s"
    by (simp add: install_trans_def body_def[abs_def])
  ultimately show ?thesis by (simp add: install_writes_def)
qed

section \<open>The header\<close>

text \<open>The header block that lists \<open>es\<close>; the bytes after the list stay.\<close>

definition log_head :: "u32 list \<Rightarrow> u8 list \<Rightarrow> u8 list" where
  "log_head es h = put_words 4 es (put32 0 (of_nat (length es)) h)"

lemma put_words_snoc: "put_words i (ws @ [w]) bs = put32 (i + 4 * length ws) w (put_words i ws bs)"
  by (induction ws arbitrary: i bs) (simp_all add: algebra_simps)

lemma log_head_read:
  assumes "length h = BSIZE" "length es < LOGSIZE"
  shows "length (log_head es h) = BSIZE" "sint (get32 (log_head es h) 0) = int (length es)"
    "i < length es \<Longrightarrow> get32 (log_head es h) (4 + 4 * i) = es ! i"
proof -
  have B: "length es < 30" "length h = 512" using assms by (simp_all add: LOGSIZE_def MAXOPBLOCKS_def BSIZE_def)
  show "length (log_head es h) = BSIZE" using assms by (simp add: log_head_def)
  have "get32 (log_head es h) 0 = get32 (put32 0 (of_nat (length es)) h) 0"
    unfolding log_head_def using B by (intro get32_nth_cong) (auto intro!: put_words_nth)
  also have "\<dots> = of_nat (length es)" using B by simp
  finally show "sint (get32 (log_head es h) 0) = int (length es)"
    using B by (simp add: sint_u32)
  show "i < length es \<Longrightarrow> get32 (log_head es h) (4 + 4 * i) = es ! i"
    using B get32_put_words[of i es 4 "put32 0 (of_nat (length es)) h"] by (simp add: log_head_def)
qed

lemma upt_split:
  assumes r: "[0..<n] = d @ i # rest"
  shows "i = length d" "i < n"
proof -
  have "length [0..<n] = length (d @ i # rest)" by (simp only: r)
  then have "length d < n" by simp
  moreover have "[0..<n] ! length d = i" by (simp only: r nth_append_length)
  ultimately show "i = length d" "i < n" by simp_all
qed

lemma write_head_ok:
  assumes v: "view Map.empty T D C P W lg s" and ok: "log_ok (length D div BSIZE) ls es lg"
    and P: "card P < NBUF" "of_nat ls \<notin> P"
  shows "\<exists>t. write_head s = Ret () t \<and> view Map.empty T (disk_write ls (log_head es (C (of_nat ls))) D)
    (C(of_nat ls := log_head es (C (of_nat ls)))) P ((of_nat ls, log_head es (C (of_nat ls))) # W) lg t"
proof -
  note L = log_okD[OF ok]
  define b0 :: u32 where "b0 = of_nat ls"
  have b0: "unat b0 = ls" "unat b0 < length D div BSIZE"
    using unat_log_start[OF L(6,7)] L(6) by (simp_all add: b0_def LOGSIZE_def MAXOPBLOCKS_def)
  have b0P: "b0 \<notin> P" using P(2) by (simp add: b0_def)
  have len: "length (C b0) = BSIZE" by (rule view_len[OF v b0(2)])
  define n where "n = length es"
  define g where "g k = put_words 4 (take k es) (put32 0 (of_nat n) (C b0))" for k
  have gl: "length (g k) = BSIZE" for k using len by (simp add: g_def)
  obtain b t where b: "bread 1 b0 s = Ret b t" "view [b \<mapsto> b0] T D C P W lg t"
    using view_bread[OF v b0(2)] P(1) by auto
  have "length (put32 0 (of_nat n) (C b0)) = BSIZE" using len by simp
  moreover have "put32 0 (of_nat n) (C b0) = g 0" by (simp add: g_def)
  ultimately obtain u where
    u: "set_bdata b (put32 0 (of_nat n)) t = Ret () u" "view [b \<mapsto> b0] T D (C(b0 := g 0)) P W lg u"
    using view_set_bdata[OF b(2) fun_upd_same, of "put32 0 (of_nat n)"] by metis
  have u': "kbind (kget (\<lambda>s. l_n (k_log s))) (\<lambda>n. set_bdata b (put32 0 (word_of_int n))) t = Ret () u"
    using u(1) view_log[OF b(2)] L(3) by (simp add: kbind_def kget_def n_def)
  have "\<exists>v. kfor [0..<n] (\<lambda>i. kbind (lh_block i) (\<lambda>v. set_bdata b (put32 (4 + 4 * i) v))) u = Ret () v \<and>
    view [b \<mapsto> b0] T D (C(b0 := g (length [0..<n]))) P W lg v"
  proof (rule kfor_rule[where I = "\<lambda>d v. view [b \<mapsto> b0] T D (C(b0 := g (length d))) P W lg v"])
    show "view [b \<mapsto> b0] T D (C(b0 := g (length []))) P W lg u" using u(2) by simp
  next
    fix d i w assume "\<exists>rest. [0..<n] = d @ i # rest" and w: "view [b \<mapsto> b0] T D (C(b0 := g (length d))) P W lg w"
    then obtain rest where r: "[0..<n] = d @ i # rest" by blast
    note i = upt_split[OF r]
    let ?C = "C(b0 := g (length d))"
    have "put32 (4 + 4 * i) (es ! i) (?C b0) = g (length (d @ [i]))"
      using i by (simp add: g_def n_def take_Suc_conv_app_nth put_words_snoc min_def)
    moreover have "length (put32 (4 + 4 * i) (es ! i) (?C b0)) = BSIZE" by (simp add: gl)
    note view_set_bdata[OF w fun_upd_same, of "put32 (4 + 4 * i) (es ! i)", OF this]
    ultimately obtain x where x: "set_bdata b (put32 (4 + 4 * i) (es ! i)) w = Ret () x"
      "view [b \<mapsto> b0] T D (C(b0 := g (length (d @ [i])))) P W lg x" by (simp only: fun_upd_upd) blast
    have "lh_block i w = Ret (es ! i) w" using view_log[OF w] L(9) i by (simp add: lh_block_def kopt_def n_def)
    then show "\<exists>u. kbind (lh_block i) (\<lambda>v. set_bdata b (put32 (4 + 4 * i) v)) w = Ret () u \<and>
        view [b \<mapsto> b0] T D (C(b0 := g (length (d @ [i])))) P W lg u"
      using x by (simp add: kbind_def)
  qed
  then obtain w where w: "kfor [0..<n] (\<lambda>i. kbind (lh_block i) (\<lambda>v. set_bdata b (put32 (4 + 4 * i) v))) u = Ret () w"
    "view [b \<mapsto> b0] T D (C(b0 := g n)) P W lg w" by auto
  have w': "(\<lambda>s. kfor (log_entries s) (\<lambda>i. kbind (lh_block i) (\<lambda>v. set_bdata b (put32 (4 + 4 * i) v))) s) u = Ret () w"
    using w(1) view_log[OF u(2)] L(3) by (simp add: log_entries_def n_def)
  obtain x where x: "bwrite b w = Ret () x" "view [b \<mapsto> b0] T (disk_write ls (g n) D) (C(b0 := g n)) P ((b0, g n) # W) lg x"
    using view_bwrite[OF w(2) fun_upd_same, unfolded fun_upd_same] b0 b0P by (metis Diff_insert_absorb insert_absorb Diff_empty Diff_insert0)
  have "(C(b0 := g n)) b0 = disk_block (disk_write ls (g n) D) (unat b0)"
    using disk_write_block(2)[of "g n" ls D ls] gl b0 by simp
  from view_brelse[OF x(2) fun_upd_same disjI2[OF this]] obtain y where
    y: "brelse b x = Ret () y" "view ([b \<mapsto> b0](b := None)) T (disk_write ls (g n) D) (C(b0 := g n)) P ((b0, g n) # W) lg y"
    by blast
  have "g n = log_head es (C b0)" by (simp add: g_def log_head_def n_def)
  moreover have "write_head s = Ret () y"
    using view_log[OF v] L(1,2) b(1) u' w' x(1) y(1)
    by (simp add: write_head_def kbind_def[abs_def] kget_def b0_def)
  ultimately show ?thesis using y(2) by (simp add: b0_def)
qed

end
