(* ===== verification/Recover.thy ===== *)
theory Recover
  imports Commit
begin

text \<open>\<open>read_head\<close>, \<open>commit\<close> and \<open>recover_from_log\<close> as lists of block writes.\<close>

section \<open>The log in memory\<close>

lemma calm_upd_log: "calm sw p pid (upd_log f s) = calm sw p pid s"
  by (rule calm_cong) (simp_all add: upd_log_def)

lemma view_upd_log:
  assumes "view H T D C P W lg s"
  shows "view H T D C P W (f lg) (upd_log f s)"
proof -
  let ?t = "upd_log f s"
  have b: "k_bufs ?t = k_bufs s" "k_sleeplocks ?t = k_sleeplocks s" "k_disk ?t = k_disk s" "k_dwrites ?t = k_dwrites s"
    "k_log ?t = f (k_log s)" by (simp_all add: upd_log_def)
  have bo: "bufof ?t = bufof s" by (simp add: bufof_def fun_eq_iff b)
  have "buf_ok L pid ?t = buf_ok L pid s" for L pid
    by (simp add: fun_eq_iff buf_ok_def bo b disksize_def)
  then have "cinv L pid ?t = cinv L pid s" for L pid using lru_cong[OF b(1)] by (simp add: cinv_def bo)
  moreover have "caches ?t = caches s" by (simp add: fun_eq_iff caches_def bo)
  moreover have "content ?t = content s" unfolding content_def bo b ..
  moreover have "pinned ?t = pinned s" using calculation(2) by (simp add: pinned_def bo)
  ultimately show ?thesis using assms b by (simp add: view_def calm_upd_log split: prod.splits)
qed

lemma log_ok_clear: "log_ok N ls es lg \<Longrightarrow> log_ok N ls [] (lg\<lparr>l_n := 0\<rparr>)"
  by (simp add: log_ok_def LOGSIZE_def MAXOPBLOCKS_def)

section \<open>read_head\<close>

definition log_entry :: "u8 list \<Rightarrow> nat \<Rightarrow> u32" where
  "log_entry h i = get32 h (4 + 4 * i)"

definition head_list :: "u8 list \<Rightarrow> u32 list" where
  "head_list h = map (log_entry h) [0..<nat (sint (get32 h 0))]"

lemma head_list_log_head:
  assumes "length h = BSIZE" "length es < LOGSIZE"
  shows "head_list (log_head es h) = es"
proof -
  note r = log_head_read[OF assms]
  have "map (log_entry (log_head es h)) [0..<length es] = map (\<lambda>i. es ! i) [0..<length es]"
    by (rule map_cong[OF refl]) (simp add: log_entry_def r(3))
  then show ?thesis unfolding head_list_def r(2) by (simp add: map_nth)
qed

definition log_geom :: "nat \<Rightarrow> nat \<Rightarrow> log \<Rightarrow> bool" where
  "log_geom N ls lg \<longleftrightarrow> l_dev lg = 1 \<and> l_start lg = int ls \<and> length (l_block lg) = LOGSIZE \<and>
     ls + LOGSIZE \<le> N \<and> N \<le> 2 ^ 32"

text \<open>A header that lists distinct home blocks of the disk.\<close>

definition head_ok :: "nat \<Rightarrow> nat \<Rightarrow> u8 list \<Rightarrow> bool" where
  "head_ok N ls h \<longleftrightarrow> 0 \<le> sint (get32 h 0) \<and> sint (get32 h 0) < int LOGSIZE \<and> distinct (head_list h) \<and>
     (\<forall>e \<in> set (head_list h). unat e < N \<and> \<not> in_log ls e)"

lemma read_head_ok:
  assumes v: "view Map.empty T D C P W lg s" and g: "log_geom (length D div BSIZE) ls lg"
    and P: "card P < NBUF" "of_nat ls \<notin> P" and h: "head_ok (length D div BSIZE) ls (C (of_nat ls))"
  shows "\<exists>t lg'. read_head s = Ret () t \<and> view Map.empty T D C P W lg' t \<and>
    log_ok (length D div BSIZE) ls (head_list (C (of_nat ls))) lg'"
proof -
  note G = g[unfolded log_geom_def]
  define b0 :: u32 where "b0 = of_nat ls"
  have b0: "unat b0 = ls" "unat b0 < length D div BSIZE"
    using unat_log_start[of ls "length D div BSIZE"] G by (simp_all add: b0_def LOGSIZE_def MAXOPBLOCKS_def)
  have b0P: "b0 \<notin> P" using P(2) by (simp add: b0_def)
  define bs where "bs = C b0"
  define n where "n = nat (sint (get32 bs 0))"
  have nL: "n < LOGSIZE" "sint (get32 bs 0) = int n" using h by (auto simp: n_def bs_def b0_def head_ok_def)
  obtain b t where b: "bread 1 b0 s = Ret b t" "view [b \<mapsto> b0] T D C P W lg t"
    using view_bread[OF v b0(2)] P(1) by auto
  have bd: "bdata b t = Ret bs t" using view_bdata[OF b(2) fun_upd_same] by (simp add: bs_def)
  define u where "u = upd_log (\<lambda>l. l\<lparr>l_n := sint (get32 bs 0)\<rparr>) t"
  have u: "view [b \<mapsto> b0] T D C P W (lg\<lparr>l_n := int n\<rparr>) u"
    using view_upd_log[OF b(2), of "\<lambda>l. l\<lparr>l_n := sint (get32 bs 0)\<rparr>"] nL by (simp add: u_def)
  define body where "body i = kbind (kopt (\<lambda>s. aset (l_block (k_log s)) (int i) (get32 bs (4 + 4 * i))))
    (\<lambda>blocks. kupd (upd_log (\<lambda>l. l\<lparr>l_block := blocks\<rparr>)))" for i
  let ?I = "\<lambda>k v. \<exists>bl. view [b \<mapsto> b0] T D C P W (lg\<lparr>l_n := int n, l_block := bl\<rparr>) v \<and>
      length bl = LOGSIZE \<and> take k bl = map (log_entry bs) [0..<k]"
  have "\<exists>w. kfor [0..<n] body u = Ret () w \<and> ?I (length [0..<n]) w"
  proof (rule kfor_rule[where I = "\<lambda>d. ?I (length d)"])
    have "lg\<lparr>l_n := int n\<rparr> = lg\<lparr>l_n := int n, l_block := l_block lg\<rparr>" by simp
    then show "?I (length []) u" using u G by (intro exI[of _ "l_block lg"]) simp
  next
    fix d i x assume "\<exists>rest. [0..<n] = d @ i # rest" and x: "?I (length d) x"
    then obtain rest where r: "[0..<n] = d @ i # rest" by blast
    note i = upt_split[OF r]
    from x obtain bl where bl: "view [b \<mapsto> b0] T D C P W (lg\<lparr>l_n := int n, l_block := bl\<rparr>) x"
      "length bl = LOGSIZE" "take (length d) bl = map (log_entry bs) [0..<length d]" by blast
    have il: "i < length bl" using i nL bl(2) by simp
    let ?bl = "bl[i := get32 bs (4 + 4 * i)]"
    have "body i x = Ret () (upd_log (\<lambda>l. l\<lparr>l_block := ?bl\<rparr>) x)"
      using view_log[OF bl(1)] il by (simp add: body_def kbind_def kopt_def kupd_def)
    moreover have "view [b \<mapsto> b0] T D C P W (lg\<lparr>l_n := int n, l_block := ?bl\<rparr>) (upd_log (\<lambda>l. l\<lparr>l_block := ?bl\<rparr>) x)"
      using view_upd_log[OF bl(1), of "\<lambda>l. l\<lparr>l_block := ?bl\<rparr>"] by simp
    moreover have "take (length (d @ [i])) ?bl = map (log_entry bs) [0..<length (d @ [i])]"
      using i il bl(3) by (simp add: take_Suc_conv_app_nth log_entry_def)
    ultimately show "\<exists>v. body i x = Ret () v \<and> ?I (length (d @ [i])) v" using bl(2) by (metis length_list_update)
  qed
  then obtain w bl where w: "kfor [0..<n] body u = Ret () w"
    "view [b \<mapsto> b0] T D C P W (lg\<lparr>l_n := int n, l_block := bl\<rparr>) w" "length bl = LOGSIZE"
    "take n bl = map (log_entry bs) [0..<n]" by auto
  have "C b0 = disk_block D (unat b0)" using view_clean[OF v b0P] by simp
  from view_brelse[OF w(2) fun_upd_same disjI2[OF this]] obtain y where
    y: "brelse b w = Ret () y" "view ([b \<mapsto> b0](b := None)) T D C P W (lg\<lparr>l_n := int n, l_block := bl\<rparr>) y" by blast
  have le: "log_entries u = [0..<n]" using view_log[OF u] by (simp add: log_entries_def)
  have "read_head s = Ret () y"
    using view_log[OF v] G b(1) bd w(1) y(1) le
    by (simp add: read_head_def kbind_def[abs_def] kget_def kupd_def b0_def u_def[symmetric] body_def[abs_def])
  moreover have hl: "head_list bs = map (log_entry bs) [0..<n]" by (simp add: head_list_def n_def)
  have "log_ok (length D div BSIZE) ls (head_list bs) (lg\<lparr>l_n := int n, l_block := bl\<rparr>)"
    using G h w(3,4) nL unfolding log_ok_def hl head_ok_def bs_def[unfolded b0_def, symmetric] by simp
  ultimately show ?thesis using y(2) by (auto simp: bs_def b0_def)
qed

section \<open>commit\<close>

definition home_writes :: "u32 list \<Rightarrow> (u32 \<Rightarrow> u8 list) \<Rightarrow> (u32 \<times> u8 list) list" where
  "home_writes es C = map (\<lambda>e. (e, C e)) es"

text \<open>The blocks a commit writes, in order.\<close>

definition commit_writes :: "nat \<Rightarrow> u32 list \<Rightarrow> (u32 \<Rightarrow> u8 list) \<Rightarrow> (u32 \<times> u8 list) list" where
  "commit_writes ls es C = log_writes ls es C @ [(of_nat ls, log_head es (C (of_nat ls)))] @
     home_writes es C @ [(of_nat ls, log_head [] (log_head es (C (of_nat ls))))]"

lemma log_writes_ok:
  assumes "log_ok N ls es lg" "\<forall>n. unat n < N \<longrightarrow> length (C n) = BSIZE"
  shows "writes_ok N (log_writes ls es C)" "writes_ok N (home_writes es C)" "writes_ok N (install_writes ls es C)"
    "distinct (map fst (log_writes ls es C))" "\<And>n. n \<in> fst ` set (log_writes ls es C) \<Longrightarrow> in_log ls n \<and> n \<noteq> of_nat ls"
    "writes_ok N [(of_nat ls, log_head fs (C (of_nat ls)))]"
proof -
  note L = log_okD[OF assms(1)]
  have i1: "i + 1 < LOGSIZE" if "i < length es" for i using that L(5) by simp
  note at = log_at_in[OF L(6,7) i1] log_at_inj[OF L(6,7) i1 i1] unat_log_at[OF L(6,7) i1]
  have rng: "unat (log_at ls i) < N" if "i < length es" for i using at(3)[OF that] L(6) i1[OF that] by simp
  show "writes_ok N (log_writes ls es C)"
    using rng L(10) assms(2) by (auto simp: writes_ok_def log_writes_def)
  show "writes_ok N (home_writes es C)"
    using L(10) assms(2) by (auto simp: writes_ok_def home_writes_def in_set_conv_nth)
  show "writes_ok N (install_writes ls es C)"
    using rng L(10) assms(2) by (auto simp: writes_ok_def install_writes_def)
  show "distinct (map fst (log_writes ls es C))"
    using at(2) by (auto simp: log_writes_def distinct_map inj_on_def)
  have "unat (of_nat ls :: u32) = ls" by (rule unat_log_start[OF L(6,7)])
  then show "\<And>n. n \<in> fst ` set (log_writes ls es C) \<Longrightarrow> in_log ls n \<and> n \<noteq> of_nat ls"
    using at(1,3) by (fastforce simp: log_writes_def)
  show "writes_ok N [(of_nat ls, log_head fs (C (of_nat ls)))]"
    using unat_log_start[OF L(6,7)] L(6) assms(2)[rule_format, of "of_nat ls"]
    by (simp add: writes_ok_def log_head_def LOGSIZE_def MAXOPBLOCKS_def)
qed

lemma commit_ok:
  assumes v: "view Map.empty T D C P W lg s" and ok: "log_ok (length D div BSIZE) ls es lg"
    and P: "finite P" "card P < NBUF" "set es \<subseteq> P" "\<And>n. n \<in> P \<Longrightarrow> \<not> in_log ls n" and ne: "es \<noteq> []"
  shows "\<exists>t. commit s = Ret () t \<and> view Map.empty T (apply_writes (commit_writes ls es C) D)
    (put_blocks (commit_writes ls es C) C) (P - set es) (rev (commit_writes ls es C) @ W) (lg\<lparr>l_n := 0\<rparr>) t"
proof -
  let ?N = "length D div BSIZE" and ?b = "of_nat ls :: u32"
  note L = log_okD[OF ok]
  have len: "\<forall>n. unat n < ?N \<longrightarrow> length (C n) = BSIZE" using view_len[OF v] by blast
  note lw = log_writes_ok[OF ok len]
  have ub: "unat ?b = ls" by (rule unat_log_start[OF L(6,7)])
  have bin: "in_log ls ?b" by (rule log_start_in[OF L(6,7)])
  define D1 C1 where "D1 = apply_writes (log_writes ls es C) D" and "C1 = put_blocks (log_writes ls es C) C"
  obtain s1 where s1: "write_log s = Ret () s1" "view Map.empty T D1 C1 P (rev (log_writes ls es C) @ W) lg s1"
    using write_log_ok[OF v ok P] unfolding D1_def C1_def by blast
  have l1: "length D1 = length D" using apply_writes_block[OF lw(1)] by (simp add: D1_def)
  have "?b \<notin> fst ` set (log_writes ls es C)" using lw(5) by (intro notI) blast
  then have C1b: "C1 ?b = C ?b" unfolding C1_def by (rule put_blocks_other)
  have C1l: "C1 (log_at ls i) = C (es ! i)" if "i < length es" for i
    unfolding C1_def by (rule put_blocks_at[OF _ lw(4)]) (use that in \<open>auto simp: log_writes_def\<close>)
  define h where "h = log_head es (C ?b)"
  have bP: "?b \<notin> P" using P(4) bin by blast
  obtain s2 where s2: "write_head s1 = Ret () s2"
    "view Map.empty T (disk_write ls h D1) (C1(?b := h)) P ((?b, h) # rev (log_writes ls es C) @ W) lg s2"
    using write_head_ok[OF s1(2) _ P(2) bP] ok l1 unfolding C1b h_def by auto
  have "length (C1 ?b) = BSIZE" using C1b len ub L(6) by (simp add: LOGSIZE_def MAXOPBLOCKS_def)
  then have l2: "length (disk_write ls h D1) = length D"
    using disk_write_block(1)[of h ls D1] l1 L(6) C1b by (simp add: h_def log_head_def LOGSIZE_def MAXOPBLOCKS_def)
  have iw: "install_writes ls es (C1(?b := h)) = home_writes es C"
  proof -
    have ne: "log_at ls i \<noteq> ?b" if "i < length es" for i
      using unat_log_at[OF L(6,7), of i] that L(5) ub by auto
    have "install_writes ls es (C1(?b := h)) = map (\<lambda>i. (es ! i, C (es ! i))) [0..<length es]"
      unfolding install_writes_def by (rule map_cong[OF refl]) (use ne C1l in auto)
    also have "\<dots> = map (\<lambda>e. (e, C e)) (map (\<lambda>i. es ! i) [0..<length es])" by simp
    finally show ?thesis by (simp add: home_writes_def map_nth)
  qed
  have ok2: "log_ok (length (disk_write ls h D1) div BSIZE) ls es lg" using ok l2 by simp
  obtain s3 where s3: "install_trans s2 = Ret () s3" "view Map.empty T (apply_writes (home_writes es C) (disk_write ls h D1))
    (put_blocks (home_writes es C) (C1(?b := h))) (P - set es)
    (rev (home_writes es C) @ (?b, h) # rev (log_writes ls es C) @ W) lg s3"
    using install_trans_ok[OF s2(2) ok2 P(1,2) disjI1[OF P(3)]] unfolding iw by blast
  define s4 where "s4 = upd_log (\<lambda>l. l\<lparr>l_n := 0\<rparr>) s3"
  note v4 = view_upd_log[OF s3(2), of "\<lambda>l. l\<lparr>l_n := 0\<rparr>", folded s4_def]
  have "length (apply_writes (home_writes es C) (disk_write ls h D1)) = length D"
    using apply_writes_block[of "disk_write ls h D1" "home_writes es C"] lw(2) l2 by simp
  then have ok4: "log_ok (length (apply_writes (home_writes es C) (disk_write ls h D1)) div BSIZE) ls [] (lg\<lparr>l_n := 0\<rparr>)"
    using log_ok_clear[OF ok] by simp
  have "card (P - set es) \<le> card P" using P(1) by (simp add: card_mono)
  then have c4: "card (P - set es) < NBUF" "?b \<notin> P - set es" using P(2) bP by auto
  have "?b \<notin> fst ` set (home_writes es C)" using ok bin by (auto simp: home_writes_def log_ok_def)
  then have C4b: "put_blocks (home_writes es C) (C1(?b := h)) ?b = h" by (simp add: put_blocks_other)
  obtain s5 where s5: "write_head s4 = Ret () s5"
    "view Map.empty T (disk_write ls (log_head [] h) (apply_writes (home_writes es C) (disk_write ls h D1)))
    ((put_blocks (home_writes es C) (C1(?b := h)))(?b := log_head [] h)) (P - set es)
    ((?b, log_head [] h) # rev (home_writes es C) @ (?b, h) # rev (log_writes ls es C) @ W) (lg\<lparr>l_n := 0\<rparr>) s5"
    using write_head_ok[OF v4 ok4 c4] unfolding C4b by blast
  have "0 < l_n (k_log s)" using view_log[OF v] L(3) ne by simp
  then have "commit s = Ret () s5"
    using s1(1) s2(1) s3(1) s5(1) by (simp add: commit_def kwhen_def kbind_def kupd_def s4_def)
  then show ?thesis using s5(2) ub
    by (simp add: commit_writes_def D1_def C1_def h_def)
qed

section \<open>Recovery\<close>

definition recover_writes :: "nat \<Rightarrow> (u32 \<Rightarrow> u8 list) \<Rightarrow> (u32 \<times> u8 list) list" where
  "recover_writes ls C = install_writes ls (head_list (C (of_nat ls))) C @
     [(of_nat ls, log_head [] (C (of_nat ls)))]"

lemma fst_install: "fst ` set (install_writes ls es C) = set es"
proof -
  have "map fst (install_writes ls es C) = es" by (simp add: install_writes_def o_def map_nth)
  then show ?thesis by (metis set_map)
qed

lemma recover_ok:
  assumes v: "view Map.empty T D C {} W lg s" and g: "log_geom (length D div BSIZE) ls lg"
    and h: "head_ok (length D div BSIZE) ls (C (of_nat ls))"
  shows "\<exists>t lg'. recover_from_log s = Ret () t \<and> view Map.empty T (apply_writes (recover_writes ls C) D)
    (put_blocks (recover_writes ls C) C) {} (rev (recover_writes ls C) @ W) lg' t"
proof -
  let ?N = "length D div BSIZE" and ?b = "of_nat ls :: u32"
  define es where "es = head_list (C ?b)"
  have B: "(0 :: nat) < NBUF" "(0 :: nat) + 1 < NBUF" by (simp_all add: NBUF_def MAXOPBLOCKS_def)
  obtain s1 lg1 where s1: "read_head s = Ret () s1" "view Map.empty T D C {} W lg1 s1" "log_ok ?N ls es lg1"
    using read_head_ok[OF v g _ _ h] B unfolding es_def by auto
  note L = log_okD[OF s1(3)]
  have ub: "unat ?b = ls" by (rule unat_log_start[OF L(6,7)])
  have bin: "in_log ls ?b" by (rule log_start_in[OF L(6,7)])
  have len: "\<forall>n. unat n < ?N \<longrightarrow> length (C n) = BSIZE" using view_len[OF v] by blast
  note lw = log_writes_ok[OF s1(3) len]
  obtain s2 where s2: "install_trans s1 = Ret () s2" "view Map.empty T (apply_writes (install_writes ls es C) D)
    (put_blocks (install_writes ls es C) C) {} (rev (install_writes ls es C) @ W) lg1 s2"
    using install_trans_ok[OF s1(2,3)] B by auto
  define s3 where "s3 = upd_log (\<lambda>l. l\<lparr>l_n := 0\<rparr>) s2"
  note v3 = view_upd_log[OF s2(2), of "\<lambda>l. l\<lparr>l_n := 0\<rparr>", folded s3_def]
  have "length (apply_writes (install_writes ls es C) D) = length D" using apply_writes_block[OF lw(3)] by simp
  then have ok3: "log_ok (length (apply_writes (install_writes ls es C) D) div BSIZE) ls [] (lg1\<lparr>l_n := 0\<rparr>)"
    using log_ok_clear[OF s1(3)] by simp
  have "?b \<notin> fst ` set (install_writes ls es C)" using s1(3) bin by (auto simp: fst_install log_ok_def)
  then have Cb: "put_blocks (install_writes ls es C) C ?b = C ?b" by (rule put_blocks_other)
  obtain s4 where s4: "write_head s3 = Ret () s4" "view Map.empty T (disk_write ls (log_head [] (C ?b)) (apply_writes (install_writes ls es C) D))
    ((put_blocks (install_writes ls es C) C)(?b := log_head [] (C ?b))) {}
    ((?b, log_head [] (C ?b)) # rev (install_writes ls es C) @ W) (lg1\<lparr>l_n := 0\<rparr>) s4"
    using write_head_ok[OF v3 ok3] B unfolding Cb by auto
  have "recover_from_log s = Ret () s4"
    using s1(1) s2(1) s4(1) by (simp add: recover_from_log_def kbind_def kupd_def s3_def)
  then show ?thesis using s4(2) ub by (auto simp: recover_writes_def es_def)
qed

end
