(* ===== verification/Binit.thy ===== *)
theory Binit
  imports Cache_Inv
begin

text \<open>\<open>binit\<close> turns the zeroed buffers into the circular list of an empty cache.\<close>

section \<open>Linking a buffer in after the head\<close>

lemma link_chain:
  assumes N: "chain N h w h" and P: "chain P h (rev w) h" and d: "distinct (h # b # w)" and f: "f = hd (w @ [h])"
  shows "chain ((N(b := f))(h := b)) h (b # w) h" "chain ((P(b := h))(f := b)) h (rev (b # w)) h"
proof -
  have "chain ((N(b := f))(h := b)) b w h"
  proof (cases w)
    case Nil then show ?thesis using f d by simp
  next
    case (Cons x xs)
    then have x: "f = x" "chain N x xs h" using f N by auto
    have "chain ((N(b := f))(h := b)) x xs h = chain N x xs h" by (rule chain_cong) (use d Cons in auto)
    then show ?thesis using x Cons d by simp
  qed
  then show "chain ((N(b := f))(h := b)) h (b # w) h" by simp
  have fl: "f = last (h # rev w)" using f by (cases w) auto
  have fw: "f \<in> set (h # w)" using f by (cases w) auto
  have "chain (P(f := b)) h (rev w) b" unfolding fl by (rule chain_upd_last[OF _ P]) (use d in auto)
  moreover have "chain ((P(b := h))(f := b)) h (rev w) b = chain (P(f := b)) h (rev w) b"
    by (rule chain_cong) (use d in auto)
  moreover have "((P(b := h))(f := b)) b = h" using fw d by auto
  ultimately show "chain ((P(b := h))(f := b)) h (rev (b # w)) h" by simp
qed

section \<open>The loop\<close>

definition zero_buf :: buf where
  "zero_buf = \<lparr>b_valid = False, b_dirty = False, b_dev = 0, b_blockno = 0, b_refcnt = 0, b_prev = 0, b_next = 0,
     b_data = replicate BSIZE 0\<rparr>"

text \<open>The buffers \<open>w\<close> are in the list; nothing but links and locks changed since \<open>s\<close>.\<close>

definition linking :: "kernel \<Rightarrow> nat list \<Rightarrow> kernel \<Rightarrow> bool" where
  "linking s w t \<longleftrightarrow> length (k_bufs t) = Suc NBUF \<and> chain (nx t) NBUF w NBUF \<and> chain (pv t) NBUF (rev w) NBUF \<and>
     info t = info s \<and> (\<exists>bs sl. t = s\<lparr>k_bufs := bs, k_sleeplocks := sl\<rparr>) \<and>
     (\<forall>b \<in> set w. k_sleeplocks t (SL_buf b) = \<lparr>sl_locked = False, sl_pid = 0\<rparr>) \<and>
     (\<forall>i. k_sleeplocks t (SL_inode i) = k_sleeplocks s (SL_inode i))"

lemma initsleeplock_run: "initsleeplock l s = Ret () (upd_sl l (\<lambda>_. \<lparr>sl_locked = False, sl_pid = 0\<rparr>) s)"
  by (simp add: initsleeplock_def kexec upd_sl_twice sl_full)

lemma upd_sl_links [simp]: "nx (upd_sl l f s) = nx s" "pv (upd_sl l f s) = pv s" "info (upd_sl l f s) = info s"
  by (simp_all add: nx_def[abs_def] pv_def[abs_def] info_def[abs_def])

lemma binit_step:
  assumes "linking s w t" "b < NBUF" "b \<notin> set w" "distinct w" "set w \<subseteq> {..<NBUF}"
  shows "\<exists>u. kseq [
       kupd (\<lambda>s. upd_buf b (\<lambda>x. x\<lparr>b_next := b_next (bufof s NBUF)\<rparr>) s),
       kupd (upd_buf b (\<lambda>x. x\<lparr>b_prev := NBUF\<rparr>)),
       initsleeplock (SL_buf b),
       kupd (\<lambda>s. upd_buf (b_next (bufof s NBUF)) (\<lambda>x. x\<lparr>b_prev := b\<rparr>) s),
       kupd (upd_buf NBUF (\<lambda>x. x\<lparr>b_next := b\<rparr>))] t = Ret () u \<and> linking s (b # w) u"
proof -
  let ?h = NBUF
  have T: "length (k_bufs t) = Suc NBUF" "chain (nx t) ?h w ?h" "chain (pv t) ?h (rev w) ?h" "info t = info s"
    using assms(1) by (simp_all add: linking_def)
  obtain bs sl where st: "t = s\<lparr>k_bufs := bs, k_sleeplocks := sl\<rparr>" using assms(1) unfolding linking_def by blast
  have sl: "\<And>b. b \<in> set w \<Longrightarrow> k_sleeplocks t (SL_buf b) = \<lparr>sl_locked = False, sl_pid = 0\<rparr>"
    "\<And>i. k_sleeplocks t (SL_inode i) = k_sleeplocks s (SL_inode i)" using assms(1) by (simp_all add: linking_def)
  define f where "f = b_next (bufof t ?h)"
  have f: "f = hd (w @ [?h])" using chain_next[OF T(2)] by (simp add: f_def nx_def)
  have "f \<in> set (w @ [?h])" unfolding f by (rule hd_in_set) simp
  then have fL: "f < Suc NBUF" "f \<noteq> b" using assms(2,3,5) by auto
  define t1 where "t1 = upd_buf b (\<lambda>x. x\<lparr>b_next := f\<rparr>) t"
  define t2 where "t2 = upd_buf b (\<lambda>x. x\<lparr>b_prev := ?h\<rparr>) t1"
  define t3 where "t3 = upd_sl (SL_buf b) (\<lambda>_. \<lparr>sl_locked = False, sl_pid = 0\<rparr>) t2"
  define t4 where "t4 = upd_buf f (\<lambda>x. x\<lparr>b_prev := b\<rparr>) t3"
  define t5 where "t5 = upd_buf ?h (\<lambda>x. x\<lparr>b_next := b\<rparr>) t4"
  have len: "length (k_bufs t1) = Suc NBUF" "length (k_bufs t2) = Suc NBUF" "length (k_bufs t3) = Suc NBUF"
    "length (k_bufs t4) = Suc NBUF" using T(1) by (simp_all add: t1_def t2_def t3_def t4_def)
  have "nx t3 ?h = f" unfolding t3_def t2_def t1_def using assms(2) T(1) by (simp add: set_link) (simp add: nx_def f_def)
  then have f3: "b_next (bufof t3 ?h) = f" by (simp add: nx_def)
  have run: "kseq [
       kupd (\<lambda>s. upd_buf b (\<lambda>x. x\<lparr>b_next := b_next (bufof s NBUF)\<rparr>) s),
       kupd (upd_buf b (\<lambda>x. x\<lparr>b_prev := NBUF\<rparr>)),
       initsleeplock (SL_buf b),
       kupd (\<lambda>s. upd_buf (b_next (bufof s NBUF)) (\<lambda>x. x\<lparr>b_prev := b\<rparr>) s),
       kupd (upd_buf NBUF (\<lambda>x. x\<lparr>b_next := b\<rparr>))] t = Ret () t5"
    unfolding kseq.simps kcombinators f_def[symmetric] obind.simps t1_def[symmetric] t2_def[symmetric] initsleeplock_run
      t3_def[symmetric] f3 t4_def[symmetric] t5_def[symmetric] ..
  have N: "nx t5 = ((nx t)(b := f))(?h := b)"
    unfolding t5_def t4_def t3_def t2_def t1_def using assms(2) fL T(1) by (simp add: set_link)
  have P: "pv t5 = ((pv t)(b := ?h))(f := b)"
    unfolding t5_def t4_def t3_def t2_def t1_def using assms(2) fL T(1) by (simp add: set_link)
  have "distinct (?h # b # w)" using assms(2-5) by auto
  note ch = link_chain[OF T(2,3) this f]
  have "info t5 = info s" unfolding t5_def t4_def t3_def t2_def t1_def by (simp add: set_link T(4))
  moreover have "\<exists>bs sl. t5 = s\<lparr>k_bufs := bs, k_sleeplocks := sl\<rparr>"
    unfolding t5_def t4_def t3_def t2_def t1_def upd_buf_def upd_sl_def st
    by (intro exI[of _ "k_bufs t5"] exI[of _ "k_sleeplocks t5"])
      (simp add: t5_def t4_def t3_def t2_def t1_def upd_buf_def upd_sl_def st)
  moreover have "k_sleeplocks t5 = (k_sleeplocks t)(SL_buf b := \<lparr>sl_locked = False, sl_pid = 0\<rparr>)"
    by (simp add: t5_def t4_def t3_def t2_def t1_def)
  ultimately have "linking s (b # w) t5" using ch N P len(4) sl by (simp add: linking_def t5_def)
  then show ?thesis using run by blast
qed

lemma binit_links:
  assumes len: "length (k_bufs s) = Suc NBUF"
  shows "\<exists>t. binit s = Ret () t \<and> linking s (rev [0..<NBUF]) t"
proof -
  define s1 where "s1 = upd_buf NBUF (\<lambda>x. x\<lparr>b_prev := NBUF\<rparr>) s"
  define s2 where "s2 = upd_buf NBUF (\<lambda>x. x\<lparr>b_next := NBUF\<rparr>) s1"
  have "s2 = s\<lparr>k_bufs := k_bufs s2, k_sleeplocks := k_sleeplocks s\<rparr>" by (simp add: s2_def s1_def upd_buf_def)
  then have "\<exists>bs sl. s2 = s\<lparr>k_bufs := bs, k_sleeplocks := sl\<rparr>" by blast
  then have "linking s [] s2"
    unfolding linking_def s2_def s1_def using len by (simp add: set_link)
  let ?I = "\<lambda>d t. linking s (rev d) t"
  have "\<exists>t. kfor [0..<NBUF] (\<lambda>b. kseq [
       kupd (\<lambda>s. upd_buf b (\<lambda>x. x\<lparr>b_next := b_next (bufof s NBUF)\<rparr>) s),
       kupd (upd_buf b (\<lambda>x. x\<lparr>b_prev := NBUF\<rparr>)),
       initsleeplock (SL_buf b),
       kupd (\<lambda>s. upd_buf (b_next (bufof s NBUF)) (\<lambda>x. x\<lparr>b_prev := b\<rparr>) s),
       kupd (upd_buf NBUF (\<lambda>x. x\<lparr>b_next := b\<rparr>))]) s2 = Ret () t \<and> ?I [0..<NBUF] t"
  proof (rule kfor_rule[where I = ?I])
    show "?I [] s2" using \<open>linking s [] s2\<close> by simp
  next
    fix d i t assume "\<exists>rest. [0..<NBUF] = d @ i # rest" "?I d t"
    then obtain rest where r: "[0..<NBUF] = d @ i # rest" by blast
    have "distinct (d @ i # rest)" "set (d @ i # rest) = {..<NBUF}" unfolding r[symmetric] by auto
    then have "distinct (rev d)" "i \<notin> set (rev d)" "i < NBUF" "set (rev d) \<subseteq> {..<NBUF}" by auto
    from binit_step[OF \<open>?I d t\<close> this(3,2,1,4)]
    show "\<exists>u. kseq [
       kupd (\<lambda>s. upd_buf i (\<lambda>x. x\<lparr>b_next := b_next (bufof s NBUF)\<rparr>) s),
       kupd (upd_buf i (\<lambda>x. x\<lparr>b_prev := NBUF\<rparr>)),
       initsleeplock (SL_buf i),
       kupd (\<lambda>s. upd_buf (b_next (bufof s NBUF)) (\<lambda>x. x\<lparr>b_prev := i\<rparr>) s),
       kupd (upd_buf NBUF (\<lambda>x. x\<lparr>b_next := i\<rparr>))] t = Ret () u \<and> ?I (d @ [i]) u" by simp
  qed
  then show ?thesis by (simp add: binit_def kbind_def kupd_def s1_def s2_def del: kseq.simps(1))
qed

section \<open>The empty cache\<close>

text \<open>
  From the zeroed array of buffers \<open>binit\<close> returns with the buffers in a circular doubly
  linked list of which each is a member once, none of them in use, locked or dirty, so that
  every block has the content it has on the disk.
\<close>

theorem binit_makes_empty_cache:
  assumes "k_bufs s = replicate (Suc NBUF) zero_buf"
  shows "\<exists>t. binit s = Ret () t \<and> lru (rev [0..<NBUF]) t \<and> cinv {} pid t \<and> pinned t = {} \<and>
    (\<forall>n. content t n = disk_block (k_disk s) (unat n)) \<and>
    k_disk t = k_disk s \<and> k_ptab t = k_ptab s \<and> k_cpus t = k_cpus s"
proof -
  obtain t where t: "binit s = Ret () t" "linking s (rev [0..<NBUF]) t"
    using binit_links[of s] assms by auto
  obtain bs sl where ts: "t = s\<lparr>k_bufs := bs, k_sleeplocks := sl\<rparr>" using t(2) unfolding linking_def by blast
  have lru: "lru (rev [0..<NBUF]) t" using t(2) by (auto simp: linking_def lru_def)
  have "bufof s i = zero_buf" if "i < NBUF" for i using assms that by (simp add: bufof_def del: replicate_Suc)
  moreover have "info t i = info s i" for i using t(2) by (simp add: linking_def)
  ultimately have i: "info t i = (False, False, 0, 0, 0, replicate BSIZE 0)" if "i < NBUF" for i
    using that by (simp add: info_def zero_buf_def)
  have b: "\<not> b_valid (bufof t i)" "\<not> b_dirty (bufof t i)" "b_dev (bufof t i) = 0" "b_refcnt (bufof t i) = 0"
    "b_data (bufof t i) = replicate BSIZE 0" if "i < NBUF" for i
    using i[OF that] by (simp_all add: info_def Let_def)
  have sl: "k_sleeplocks t (SL_buf i) = \<lparr>sl_locked = False, sl_pid = 0\<rparr>" if "i < NBUF" for i
    using t(2) that by (simp add: linking_def)
  have "cinv {} pid t" unfolding cinv_def buf_ok_def Let_def using lru b sl by auto
  moreover have nc: "\<not> caches t i n" for i n using b by (auto simp: caches_def)
  then have "pinned t = {}" by (simp add: pinned_def)
  moreover have "content t n = disk_block (k_disk s) (unat n)" for n using content_uncached[OF nc] ts by simp
  ultimately show ?thesis using t(1) lru ts by simp
qed

lemma binit_makes_empty_cache_witness:
  "\<exists>t. binit (sample_kernel\<lparr>k_bufs := replicate (Suc NBUF) zero_buf\<rparr>) = Ret () t \<and> cinv {} 1 t"
  using binit_makes_empty_cache[of "sample_kernel\<lparr>k_bufs := replicate (Suc NBUF) zero_buf\<rparr>" 1] by auto

section \<open>A thread that runs on a machine with one process\<close>

definition running_kernel :: kernel where
  "running_kernel = sample_kernel\<lparr>k_cpus := [\<lparr>c_proc = Some 0, c_cr3 = 0, c_esp0 = 0\<rparr>],
     k_ptab := (replicate NPROC (sample_proc\<lparr>p_state := UNUSED, p_pid := 0\<rparr>))[0 := sample_proc\<lparr>p_state := RUNNING\<rparr>],
     k_bufs := replicate (Suc NBUF) zero_buf,
     k_log := \<lparr>l_start = 0, l_size = 0, l_outstanding = 0, l_committing = False, l_dev = 0, l_n = 0,
       l_block = replicate LOGSIZE 0\<rparr>\<rparr>"

lemma running_calm: "calm {} 0 1 (running_kernel\<lparr>k_disk := d\<rparr>)" (is "calm _ _ _ ?s")
proof -
  have p: "pr ?s q = (if q = 0 then sample_proc\<lparr>p_state := RUNNING\<rparr> else sample_proc\<lparr>p_state := UNUSED, p_pid := 0\<rparr>)"
    if "q < NPROC" for q using that by (simp add: pr_def running_kernel_def nth_list_update)
  have c: "k_cpus ?s = [\<lparr>c_proc = Some 0, c_cr3 = 0, c_esp0 = 0\<rparr>]" "k_me ?s = 0" "k_cfg ?s = DEFAULT" "k_held ?s = []"
    by (simp_all add: running_kernel_def sample_kernel_def)
  have "ready_set ?s = {}" using p by (auto simp: ready_set_def sample_proc_def)
  then have "rq_inv DEFAULT ?s (ready_set ?s)" by (simp add: rq_inv_def has_levels_def)
  moreover have "cpus_ok {} ?s" using c p by (auto simp: cpus_ok_def cpu_proc_def sample_proc_def NPROC_def)
  moreover have "procs_ok DEFAULT ?s" using p
    by (auto simp: procs_ok_def live_def fits_rq_def sample_proc_def has_levels_def split: if_splits)
  moreover have "length (k_ptab ?s) = NPROC" by (simp add: running_kernel_def)
  ultimately show ?thesis using c p[of 0] by (simp add: calm_def kinv_def myproc_def mycpu_def NPROC_def sample_proc_def)
qed

end
