(* ===== verification/Log_Write.thy ===== *)
theory Log_Write
  imports Recover Binit
begin

text \<open>
  \<open>log_write\<close>: the buffer is pinned and its block enters the list of the transaction, once. And
  the state of the cache after \<open>binit\<close>.
\<close>

section \<open>Pinning a buffer\<close>

lemma view_mark_dirty:
  assumes v: "view H T D C P W lg s" and b: "H b = Some n"
  shows "view H T D C (insert n P) W lg (upd_buf b (\<lambda>x. x\<lparr>b_dirty := True\<rparr>) s)"
proof -
  obtain sw p pid where T: "T = (sw, p, pid)" by (cases T)
  have V: "calm sw p pid s" "cinv (dom H) pid s" "\<And>i n. H i = Some n \<Longrightarrow> caches s i n"
    "k_disk s = D" "content s = C" "pinned s = P" "k_dwrites s = W" "k_log s = lg"
    using v by (auto simp: view_def T)
  obtain xs where xs: "lru xs s" using cinv_lru[OF V(2)] by blast
  have bN: "b < NBUF" "b_valid (bufof s b)" "b_blockno (bufof s b) = n" using V(3)[OF b] by (auto simp: caches_def)
  note D = cinvD[OF V(2) bN(1)]
  define t where "t = upd_buf b (\<lambda>x. x\<lparr>b_dirty := True\<rparr>) s"
  have lb: "b < length (k_bufs s)" by (rule lru_len[OF xs bN(1)])
  have tb: "bufof t b = (bufof s b)\<lparr>b_dirty := True\<rparr>" using lb by (simp add: t_def bufof_upd)
  have other: "info t i = info s i" if "i \<noteq> b" for i using that by (simp add: t_def info_upd_other)
  have lt: "lru xs t" using xs by (simp add: t_def lru_upd_buf)
  have td: "k_disk t = k_disk s" "disksize t = disksize s" "k_sleeplocks t = k_sleeplocks s" by (simp_all add: t_def)
  have dev: "b_dev (bufof s b) = 1" using D(3) bN(2) by simp
  have bl: "b \<in> dom H" using b by blast
  note st = buffer_step[OF V(2) V(3)[OF b] bl lt other td(3)]
  have r: "cinv (dom H) pid t" "content t = (content s)(n := b_data (bufof t b))" "caches t b n"
    "pinned t = (if b_dirty (bufof t b) then insert n (pinned s) else pinned s - {n})"
    by (rule st; (simp add: tb bN dev D(1) td)?)+
  have "caches t i m" if "H i = Some m" for i m
  proof (cases "i = b")
    case False
    from caches_cong[OF other[OF False]] show ?thesis using V(3)[OF that] by simp
  qed (use that b r(3) in simp)
  moreover have "b_data (bufof s b) = C n" using content_cached[OF V(2) V(3)[OF b]] V(5) by simp
  then have "content t = C" using r(2) tb V(5) by (simp add: fun_upd_idem)
  ultimately have "view H T D C (insert n P) W lg t"
    using r V tb by (simp add: view_def T t_def)
  then show ?thesis by (simp add: t_def)
qed

section \<open>log_write\<close>

lemma absorb_index_ok:
  assumes "log_ok N ls es lg"
  shows "absorb_index n lg < length es \<and> es ! absorb_index n lg = n \<or>
    absorb_index n lg = length es \<and> n \<notin> set es"
proof -
  have t: "take (length es) (l_block lg) = es" "nat (l_n lg) = length es" using assms by (simp_all add: log_ok_def)
  have eq: "l_block lg ! i = es ! i" if "i < length es" for i using t(1) that by (metis nth_take)
  show ?thesis
  proof (cases "find (\<lambda>i. l_block lg ! i = n) [0..<length es]")
    case None
    then have "n \<notin> set es" using eq by (auto simp: find_upt_None in_set_conv_nth)
    then show ?thesis using None t(2) by (simp add: absorb_index_def)
  next
    case (Some i)
    then have "i < length es" "l_block lg ! i = n" using find_upt_Some by blast+
    then show ?thesis using Some eq t(2) by (simp add: absorb_index_def)
  qed
qed

definition log_add :: "u32 \<Rightarrow> u32 list \<Rightarrow> u32 list" where
  "log_add n es = (if n \<in> set es then es else es @ [n])"

text \<open>A calm thread can take and release a spin lock.\<close>

lemma view_calm: "view H T D C P W lg s \<Longrightarrow> calm (fst T) (fst (snd T)) (snd (snd T)) s"
  by (auto simp: view_def split: prod.splits)

text \<open>What \<open>log_write\<close> leaves alone.\<close>

definition log_only :: "kernel \<Rightarrow> kernel \<Rightarrow> bool" where
  "log_only s t \<longleftrightarrow> (\<exists>bs lg. t = s\<lparr>k_bufs := bs, k_log := lg\<rparr>)"

lemma log_write_only:
  assumes v: "view H T D C P W lg s" and b: "H b = Some n" and ok: "log_ok N ls es lg"
    and n: "unat n < N" "\<not> in_log ls n"
    and out: "1 \<le> l_outstanding lg" "length es + 1 < LOGSIZE" "int (length es) < l_size lg - 1"
  shows "\<exists>t lg'. log_write b s = Ret () t \<and> view H T D C (insert n P) W lg' t \<and> log_ok N ls (log_add n es) lg' \<and>
    l_outstanding lg' = l_outstanding lg \<and> l_size lg' = l_size lg \<and> log_only s t"
proof -
  have lg: "k_log s = lg" by (rule view_log[OF v])
  have c: "calm (fst T) (fst (snd T)) (snd (snd T)) s" by (rule view_calm[OF v])
  have h: "k_held s = []" using c by (simp add: calm_def)
  have bl: "b_blockno (bufof s b) = n" using v b by (auto simp: view_def caches_def)
  note L = log_okD[OF ok]
  define i where "i = absorb_index n lg"
  have i: "i < length es \<and> es ! i = n \<or> i = length es \<and> n \<notin> set es"
    using absorb_index_ok[OF ok] by (simp add: i_def)
  then have il: "i < length (l_block lg)" using L(4) out(2) by auto
  define f where "f l = (if int i = l_n lg then l\<lparr>l_block := (l_block lg)[i := n], l_n := l_n lg + 1\<rparr> else l\<lparr>l_block := (l_block lg)[i := n]\<rparr>)" for l :: log
  define t where "t = upd_buf b (\<lambda>x. x\<lparr>b_dirty := True\<rparr>) (upd_log f s)"
  let ?s = "s\<lparr>k_held := [(L_log, k_me s)]\<rparr>"
  have acq: "acquire L_log s = Ret () ?s" by (rule calm_acquire[OF c])
  have w1: "\<not> (int LOGSIZE \<le> l_n lg \<or> l_size lg - 1 \<le> l_n lg)" "\<not> l_outstanding lg < 1" using L(3) out by auto
  let ?t = "upd_buf b (\<lambda>x. x\<lparr>b_dirty := True\<rparr>) (upd_log f ?s)"
  have rel: "release L_log ?t = Ret () (?t\<lparr>k_held := []\<rparr>)" by (rule release_single) (simp add: upd_log_def)
  have tt: "?t\<lparr>k_held := []\<rparr> = t" using h by (simp add: t_def upd_log_def upd_buf_def)
  have set: "aset (l_block lg) (int i) n = Some ((l_block lg)[i := n])" using il by simp
  have run: "log_write b s = Ret () t"
  proof -
    have "log_write b s = kbind (kbind (kget (\<lambda>s. absorb_index (b_blockno (bufof s b)) (k_log s))) (\<lambda>i. kseq [
       kbind (kopt (\<lambda>s. aset (l_block (k_log s)) (int i) (b_blockno (bufof s b)))) (\<lambda>blocks.
         kupd (upd_log (\<lambda>l. l\<lparr>l_block := blocks\<rparr>))),
       kwhen (\<lambda>s. int i = l_n (k_log s)) (kupd (upd_log (\<lambda>l. l\<lparr>l_n := l_n l + 1\<rparr>)))]))
       (\<lambda>_. kseq [kupd (upd_buf b (\<lambda>x. x\<lparr>b_dirty := True\<rparr>)), release L_log]) ?s"
      using w1 acq by (simp add: log_write_def kbind_def kwhen_def lg)
    also have "\<dots> = kseq [kupd (upd_buf b (\<lambda>x. x\<lparr>b_dirty := True\<rparr>)), release L_log] (upd_log f ?s)"
      using lg bl set by (simp add: kbind_def kget_def kopt_def kwhen_def kupd_def i_def[symmetric] f_def upd_log_def del: kseq.simps(1))
    also have "\<dots> = release L_log ?t" by (simp add: kbind_def kupd_def)
    finally show ?thesis using rel tt by simp
  qed
  have "view H T D C (insert n P) W (f lg) t"
    unfolding t_def by (rule view_mark_dirty[OF view_upd_log[OF v] b])
  moreover have "log_ok N ls (log_add n es) (f lg)"
    using i
  proof
    assume i: "i < length es \<and> es ! i = n"
    then have "n \<in> set es" by auto
    moreover have "l_block lg ! i = n" using i ok by (metis log_ok_def nth_take)
    then have "(l_block lg)[i := n] = l_block lg" by (metis list_update_id)
    ultimately show ?thesis using i ok L(3) by (simp add: log_add_def f_def)
  next
    assume i: "i = length es \<and> n \<notin> set es"
    then have "take (length es + 1) ((l_block lg)[i := n]) = es @ [n]"
      using il ok by (simp add: take_Suc_conv_app_nth log_ok_def)
    then show ?thesis using i ok n out L(3) by (auto simp: log_add_def f_def log_ok_def)
  qed
  moreover have "l_outstanding (f lg) = l_outstanding lg" "l_size (f lg) = l_size lg" by (simp_all add: f_def)
  moreover have "log_only s t"
    unfolding log_only_def by (intro exI[of _ "k_bufs t"] exI[of _ "k_log t"]) (simp add: t_def upd_log_def upd_buf_def)
  ultimately show ?thesis using run by blast
qed

lemma log_write_ok:
  assumes "view H T D C P W lg s" "H b = Some n" "log_ok N ls es lg" "unat n < N" "\<not> in_log ls n"
    "1 \<le> l_outstanding lg" "length es + 1 < LOGSIZE" "int (length es) < l_size lg - 1"
  shows "\<exists>t lg'. log_write b s = Ret () t \<and> view H T D C (insert n P) W lg' t \<and> log_ok N ls (log_add n es) lg' \<and>
    l_outstanding lg' = l_outstanding lg \<and> l_size lg' = l_size lg"
  using log_write_only[OF assms] by blast

end
