(* ===== verification/Crash.thy ===== *)
theory Crash
  imports Recover
begin

text \<open>
  A commit that stops after any number of block writes: recovery at the next boot (\<open>initlog\<close>)
  restores either all of the old blocks or all of the new ones.
\<close>

section \<open>Blocks after a crash and after recovery\<close>

lemma home_writes_at: "put_blocks (home_writes es C) B m = (if m \<in> set es then C m else B m)"
  by (induction es arbitrary: B) (auto simp: home_writes_def)

lemma fst_home: "fst ` set (home_writes es C) = set es"
  by (force simp: home_writes_def)

text \<open>The three kinds of states a crash can leave.\<close>

lemma commit_prefix:
  assumes "k \<le> length (commit_writes ls es C)"
  obtains "k \<le> length es" "take k (commit_writes ls es C) = take k (log_writes ls es C)"
  | j where "length es < k" "take k (commit_writes ls es C) =
      log_writes ls es C @ [(of_nat ls, log_head es (C (of_nat ls)))] @ take j (home_writes es C)"
  | "length es < k" "take k (commit_writes ls es C) = commit_writes ls es C"
proof -
  have l: "length (log_writes ls es C) = length es" "length (home_writes es C) = length es"
    "length (commit_writes ls es C) = 2 * length es + 2"
    by (simp_all add: log_writes_def home_writes_def commit_writes_def)
  consider "k \<le> length es" | "length es < k" "k \<le> 2 * length es + 1" | "k = 2 * length es + 2"
    using assms l(3) by linarith
  then show thesis
  proof cases
    case 1
    then show ?thesis using that(1) l by (simp add: commit_writes_def)
  next
    case 2
    then have "take k (commit_writes ls es C) =
      log_writes ls es C @ [(of_nat ls, log_head es (C (of_nat ls)))] @ take (k - length es - 1) (home_writes es C)"
      using l by (simp add: commit_writes_def take_Cons')
    then show ?thesis using that(2) 2 by blast
  next
    case 3
    then show ?thesis using that(3) l(3) by simp
  qed
qed

lemma recovered_blocks:
  assumes ok: "log_ok N ls es lg" and len: "\<forall>n. unat n < N \<longrightarrow> length (C n) = BSIZE"
    and Call: "\<forall>n. n \<notin> set es \<longrightarrow> C n = B n" and empty: "get32 (B (of_nat ls)) 0 = 0"
    and k: "k \<le> length (commit_writes ls es C)" and B': "B' = put_blocks (take k (commit_writes ls es C)) B"
  shows "head_ok N ls (B' (of_nat ls))" "writes_ok N (recover_writes ls B')"
    "\<not> in_log ls m \<Longrightarrow> put_blocks (recover_writes ls B') B' m = (if k \<le> length es then B m else C m)"
    "\<not> in_log ls m \<Longrightarrow> m \<notin> set es \<Longrightarrow> B' m = B m"
proof -
  let ?b = "of_nat ls :: u32"
  note C = Call[rule_format]
  note L = log_okD[OF ok]
  note lw = log_writes_ok[OF ok len]
  have ub: "unat ?b < N" "in_log ls ?b"
    using unat_log_start[OF L(6,7)] log_start_in[OF L(6,7)] L(6) by (simp_all add: LOGSIZE_def MAXOPBLOCKS_def)
  have nes: "\<not> in_log ls e" if "e \<in> set es" for e using ok that by (simp add: log_ok_def)
  then have bes: "?b \<notin> set es" using ub(2) by blast
  have Cb: "C ?b = B ?b" using C bes by blast
  have lb: "length (C ?b) = BSIZE" using len ub(1) by blast
  have z: "get32 (C ?b) 0 = 0" using empty Cb by simp
  have in_lw: "in_log ls n" "n \<noteq> ?b" if "n \<in> fst ` set (take j (log_writes ls es C))" for n j
  proof -
    have "n \<in> fst ` set (log_writes ls es C)" using that by (meson image_mono set_take_subset subsetD)
    then show "in_log ls n" "n \<noteq> ?b" using lw(5) by blast+
  qed
  have fin: "head_ok N ls (B' ?b) \<and> writes_ok N (recover_writes ls B') \<and>
    (\<forall>m. \<not> in_log ls m \<longrightarrow> put_blocks (recover_writes ls B') B' m = (if k \<le> length es then B m else C m) \<and>
       (m \<notin> set es \<longrightarrow> B' m = B m))" using k
  proof (cases rule: commit_prefix)
    case 1
    have "?b \<notin> fst ` set (take k (log_writes ls es C))" using in_lw(2) by (intro notI) blast
    then have b: "B' ?b = C ?b" unfolding B' 1(2) using Cb by (simp add: put_blocks_other)
    have hl: "head_list (C ?b) = []" using z by (simp add: head_list_def)
    have m: "B' m = B m" if "\<not> in_log ls m" for m
      unfolding B' 1(2) by (rule put_blocks_other) (use in_lw(1) that in blast)
    have "recover_writes ls B' = [(?b, log_head [] (B' ?b))]"
      by (simp add: recover_writes_def install_writes_def b hl)
    then show ?thesis using 1(1) m ub b z hl lb by (auto simp: head_ok_def LOGSIZE_def MAXOPBLOCKS_def writes_ok_def log_head_def)
  next
    case (2 j)
    let ?h = "log_head es (C ?b)"
    have hw: "fst ` set (take j (home_writes es C)) \<subseteq> set es"
      using fst_home[of es C] by (metis image_mono set_take_subset)
    have put: "put_blocks (take j (home_writes es C)) X n = X n" if "n \<notin> set es" for X n
      by (rule put_blocks_other) (use hw that in blast)
    have b: "B' ?b = ?h" unfolding B' 2(2) using put[OF bes] by simp
    have hl: "head_list (B' ?b) = es" unfolding b by (rule head_list_log_head[OF lb L(5)])
    have at: "B' (log_at ls i) = C (es ! i)" if i: "i < length es" for i
    proof -
      have i1: "i + 1 < LOGSIZE" using i L(5) by simp
      have li: "in_log ls (log_at ls i)" "log_at ls i \<noteq> ?b"
        using log_at_in[OF L(6,7) i1] unat_log_at[OF L(6,7) i1] unat_log_start[OF L(6,7)] by auto
      then have "log_at ls i \<notin> set es" using nes by blast
      then have "B' (log_at ls i) = put_blocks (log_writes ls es C) B (log_at ls i)"
        unfolding B' 2(2) using put li(2) by simp
      also have "\<dots> = C (es ! i)"
        by (rule put_blocks_at[OF _ lw(4)]) (use i in \<open>auto simp: log_writes_def\<close>)
      finally show ?thesis .
    qed
    have "install_writes ls es B' = map (\<lambda>i. (es ! i, C (es ! i))) [0..<length es]"
      unfolding install_writes_def by (rule map_cong[OF refl]) (use at in simp)
    also have "\<dots> = map (\<lambda>e. (e, C e)) (map (\<lambda>i. es ! i) [0..<length es])" by simp
    finally have iw: "install_writes ls es B' = home_writes es C" by (simp add: home_writes_def map_nth)
    have rw: "recover_writes ls B' = home_writes es C @ [(?b, log_head [] ?h)]"
      using hl iw by (simp add: recover_writes_def b)
    have other: "B' m = B m" if "\<not> in_log ls m" "m \<notin> set es" for m
    proof -
      have "m \<noteq> ?b" using that ub(2) by blast
      moreover have "m \<notin> fst ` set (log_writes ls es C)" using lw(5) that by (intro notI) blast
      ultimately show ?thesis unfolding B' 2(2) using put[OF that(2)] by (simp add: put_blocks_other)
    qed
    have "head_ok N ls ?h"
      unfolding head_ok_def head_list_log_head[OF lb L(5)] log_head_read(2)[OF lb L(5)]
      using ok by (simp add: log_ok_def)
    moreover have "writes_ok N (recover_writes ls B')"
      using lw(2) ub lb unfolding rw by (simp add: writes_ok_def log_head_def)
    moreover have "put_blocks (recover_writes ls B') B' m = C m" if "\<not> in_log ls m" for m
    proof -
      have "m \<noteq> ?b" using that ub(2) by blast
      then show ?thesis using other[OF that] C[of m] by (simp add: rw home_writes_at)
    qed
    ultimately show ?thesis using 2(1) other b by simp
  next
    case 3
    let ?h = "log_head es (C ?b)"
    have b: "B' ?b = log_head [] ?h" unfolding B' 3(2) by (simp add: commit_writes_def)
    have lh: "length ?h = BSIZE" "length ([] :: u32 list) < LOGSIZE"
      using lb by (simp_all add: log_head_def LOGSIZE_def MAXOPBLOCKS_def)
    have hl: "head_list (B' ?b) = []" unfolding b by (rule head_list_log_head[OF lh])
    have z: "sint (get32 (B' ?b) 0) = 0" using log_head_read(2)[OF lh] b by simp
    have rw: "recover_writes ls B' = [(?b, log_head [] (B' ?b))]"
      unfolding recover_writes_def hl by (simp add: install_writes_def)
    have m: "B' m = C m" if "\<not> in_log ls m" for m
    proof -
      have "m \<noteq> ?b" using that ub(2) by blast
      moreover have "m \<notin> fst ` set (log_writes ls es C)" using lw(5) that by (intro notI) blast
      ultimately show ?thesis unfolding B' 3(2)
        using C[of m] by (simp add: commit_writes_def home_writes_at put_blocks_other)
    qed
    have "put_blocks (recover_writes ls B') B' m = C m" if "\<not> in_log ls m" for m
    proof -
      have "m \<noteq> ?b" using that ub(2) by blast
      then show ?thesis using m[OF that] by (simp add: rw)
    qed
    moreover have "length (B' ?b) = BSIZE" using b lh by (simp add: log_head_def)
    ultimately show ?thesis using 3(1) hl z m C ub
      by (simp add: head_ok_def rw writes_ok_def log_head_def LOGSIZE_def MAXOPBLOCKS_def)
  qed
  then show "head_ok N ls (B' ?b)" "writes_ok N (recover_writes ls B')"
    "\<not> in_log ls m \<Longrightarrow> put_blocks (recover_writes ls B') B' m = (if k \<le> length es then B m else C m)"
    "\<not> in_log ls m \<Longrightarrow> m \<notin> set es \<Longrightarrow> B' m = B m" by blast+
qed

section \<open>Boot\<close>

text \<open>
  \<open>booted T d s\<close>: the thread \<open>T\<close> runs undisturbed on the disk \<open>d\<close>, no buffer is locked or
  dirty and the array of the log header has its size; so at the start of \<open>initlog\<close>.
\<close>

definition booted :: "nat set \<times> nat \<times> u32 \<Rightarrow> u8 list \<Rightarrow> kernel \<Rightarrow> bool" where
  "booted T d s \<longleftrightarrow> (case T of (sw, p, pid) \<Rightarrow> calm sw p pid s \<and> cinv {} pid s) \<and> pinned s = {} \<and>
     k_disk s = d \<and> length (l_block (k_log s)) = LOGSIZE"

lemma initlog_ok:
  assumes b: "booted T d s"
    and geo: "ls + LOGSIZE \<le> length d div BSIZE" "length d div BSIZE \<le> 2 ^ 32" "ls < 2 ^ 31"
    and sb: "1 < length d div BSIZE" "sb_logstart (decode_sb (disk_block d 1)) = of_nat ls"
    and h: "head_ok (length d div BSIZE) ls (disk_block d ls)"
  shows "\<exists>t lg'. initlog 1 s = Ret () t \<and>
    view Map.empty T (apply_writes (recover_writes ls (\<lambda>n. disk_block d (unat n))) d)
      (put_blocks (recover_writes ls (\<lambda>n. disk_block d (unat n))) (\<lambda>n. disk_block d (unat n))) {}
      (rev (recover_writes ls (\<lambda>n. disk_block d (unat n))) @ k_dwrites s) lg' t"
proof -
  let ?C = "\<lambda>n :: u32. disk_block d (unat n)"
  have v0: "view Map.empty T d (content s) {} (k_dwrites s) (k_log s) s"
    using b by (auto simp: booted_def view_def split: prod.splits)
  have "content s n = ?C n" for n using view_clean[OF v0, of n] by simp
  then have "content s = ?C" by (intro ext)
  then have v: "view Map.empty T d ?C {} (k_dwrites s) (k_log s) s" using v0 by simp
  have u1: "unat (1 :: u32) = 1" by simp
  obtain b1 s1 where s1: "bread 1 1 s = Ret b1 s1" "view [b1 \<mapsto> 1] T d ?C {} (k_dwrites s) (k_log s) s1"
    using view_bread[OF v, of 1] sb(1) by (auto simp: NBUF_def MAXOPBLOCKS_def)
  have bd: "bdata b1 s1 = Ret (disk_block d 1) s1" using view_bdata[OF s1(2) fun_upd_same] by simp
  obtain s2 where s2: "brelse b1 s1 = Ret () s2" "view ([b1 \<mapsto> 1](b1 := None)) T d ?C {} (k_dwrites s) (k_log s) s2"
    using view_brelse[OF s1(2) fun_upd_same disjI2[OF refl]] by blast
  define sbk where "sbk = decode_sb (disk_block d 1)"
  have r: "readsb 1 s = Ret sbk s2"
    using s1(1) bd s2(1) by (simp add: readsb_def kbind_def kret_def sbk_def)
  let ?f = "\<lambda>l. l\<lparr>l_start := sint (sb_logstart sbk), l_size := sint (sb_nlog sbk), l_dev := 1\<rparr>"
  define s3 where "s3 = upd_log ?f s2"
  have v3: "view Map.empty T d ?C {} (k_dwrites s) (?f (k_log s)) s3"
    using view_upd_log[OF s2(2), of ?f] by (simp add: s3_def)
  have "log_geom (length d div BSIZE) ls (?f (k_log s))"
    using geo sb(2) b by (simp add: log_geom_def sbk_def sint_u32 booted_def)
  moreover have "head_ok (length d div BSIZE) ls (?C (of_nat ls))"
    using h unat_log_start[OF geo(1,2)] by simp
  ultimately obtain t lg' where t: "recover_from_log s3 = Ret () t"
    "view Map.empty T (apply_writes (recover_writes ls ?C) d) (put_blocks (recover_writes ls ?C) ?C) {}
      (rev (recover_writes ls ?C) @ k_dwrites s) lg' t"
    using recover_ok[OF v3] by blast
  have "initlog 1 s = Ret () t"
    using r t(1) by (simp add: initlog_def kbind_def kwhen_def kupd_def s3_def
      SIZEOF_LOGHEADER_def BSIZE_def LOGSIZE_def MAXOPBLOCKS_def)
  then show ?thesis using t(2) by blast
qed

section \<open>Atomicity\<close>

text \<open>
  \<open>ready_to_commit T ls es s\<close>: the transaction pinned the blocks \<open>es\<close>, which the log in memory
  lists; the log on the disk, which starts at block \<open>ls\<close>, is empty, and the superblock says
  where it is.
\<close>

definition ready_to_commit :: "nat set \<times> nat \<times> u32 \<Rightarrow> nat \<Rightarrow> u32 list \<Rightarrow> kernel \<Rightarrow> bool" where
  "ready_to_commit T ls es s \<longleftrightarrow> (case T of (sw, p, pid) \<Rightarrow> calm sw p pid s \<and> cinv {} pid s) \<and>
     pinned s = set es \<and> es \<noteq> [] \<and> log_ok (disksize s) ls es (k_log s) \<and> ls < 2 ^ 31 \<and>
     get32 (disk_block (k_disk s) ls) 0 = 0 \<and>
     1 < disksize s \<and> \<not> in_log ls 1 \<and> 1 \<notin> set es \<and>
     sb_logstart (decode_sb (disk_block (k_disk s) 1)) = of_nat ls"

lemma commit_crash_safe:
  assumes "ready_to_commit T ls es s"
  shows "\<exists>t ws. length es < length ws \<and> commit s = Ret () t \<and> k_dwrites t = rev ws @ k_dwrites s \<and>
    k_disk t = apply_writes ws (k_disk s) \<and> (\<forall>e \<in> set es. disk_block (k_disk t) (unat e) = content s e) \<and>
    (\<forall>k \<le> length ws. \<forall>T' u. booted T' (apply_writes (take k ws) (k_disk s)) u \<longrightarrow>
      (\<exists>v. initlog 1 u = Ret () v \<and> (\<forall>m. \<not> in_log ls m \<longrightarrow>
        disk_block (k_disk v) (unat m) = (if k \<le> length es then disk_block (k_disk s) (unat m) else content s m))))"
proof -
  let ?D = "k_disk s" and ?C = "content s" and ?B = "\<lambda>n :: u32. disk_block (k_disk s) (unat n)"
  let ?N = "length ?D div BSIZE" and ?ws = "commit_writes ls es (content s)"
  have R: "pinned s = set es" "es \<noteq> []" "log_ok ?N ls es (k_log s)" "ls < 2 ^ 31" "get32 (disk_block ?D ls) 0 = 0"
    "1 < ?N" "\<not> in_log ls 1" "1 \<notin> set es" "sb_logstart (decode_sb (disk_block ?D 1)) = of_nat ls"
    using assms by (simp_all add: ready_to_commit_def disksize_def)
  have v: "view Map.empty T ?D ?C (set es) (k_dwrites s) (k_log s) s"
    using assms by (auto simp: ready_to_commit_def view_def split: prod.splits)
  note L = log_okD[OF R(3)]
  have ub: "unat (of_nat ls :: u32) = ls" by (rule unat_log_start[OF L(6,7)])
  have len: "\<forall>n. unat n < ?N \<longrightarrow> length (?C n) = BSIZE" using view_len[OF v] by blast
  have C: "\<forall>n. n \<notin> set es \<longrightarrow> ?C n = ?B n" using view_clean[OF v] by simp
  have z: "get32 (?B (of_nat ls)) 0 = 0" using R(5) ub by simp
  have cP: "card (set es) < NBUF" using card_length[of es] L(5) by (simp add: NBUF_def LOGSIZE_def)
  have nl: "\<not> in_log ls n" if "n \<in> set es" for n using R(3) that by (simp add: log_ok_def)
  obtain t where t: "commit s = Ret () t" "view Map.empty T (apply_writes ?ws ?D) (put_blocks ?ws ?C)
      (set es - set es) (rev ?ws @ k_dwrites s) ((k_log s)\<lparr>l_n := 0\<rparr>) t"
    using commit_ok[OF v R(3) _ cP _ nl R(2)] by blast
  have T: "k_dwrites t = rev ?ws @ k_dwrites s" "k_disk t = apply_writes ?ws ?D" using t(2) by (auto simp: view_def)
  note lw = log_writes_ok[OF R(3) len]
  have "writes_ok ?N ?ws"
    using lw(1,2) lw(6)[of es] len[rule_format, of "of_nat ls"] ub L(6)
    by (auto simp: writes_ok_def commit_writes_def log_head_def LOGSIZE_def MAXOPBLOCKS_def)
  then have wk: "writes_ok ?N (take k ?ws)" for k
    unfolding writes_ok_def using set_take_subset by fastforce
  note blk = apply_writes_block[OF wk]
  have fin: "disk_block (k_disk t) (unat e) = ?C e" if "e \<in> set es" for e
  proof -
    have "e \<noteq> of_nat ls" using nl[OF that] log_start_in[OF L(6,7)] by blast
    then show ?thesis using blk[of "length ?ws" e] that T(2) by (simp add: commit_writes_def home_writes_at)
  qed
  have crash: "\<exists>v. initlog 1 u = Ret () v \<and> (\<forall>m. \<not> in_log ls m \<longrightarrow>
      disk_block (k_disk v) (unat m) = (if k \<le> length es then ?B m else ?C m))"
    if k: "k \<le> length ?ws" and u: "booted T' (apply_writes (take k ?ws) ?D) u" for k T' u
  proof -
    let ?d = "apply_writes (take k ?ws) ?D"
    let ?B' = "\<lambda>n :: u32. disk_block ?d (unat n)"
    have dl: "length ?d = length ?D" using blk[of k] by simp
    have B': "?B' = put_blocks (take k ?ws) ?B" using blk[of k] by (intro ext) simp
    note rec = recovered_blocks[where B = ?B and C = ?C, OF R(3) len C z k B']
    have 1: "disk_block ?d 1 = disk_block ?D 1" using rec(4)[OF R(7,8)] by simp
    have h: "head_ok ?N ls (disk_block ?d ls)" using rec(1) ub by simp
    obtain v lg' where w: "initlog 1 u = Ret () v"
      "view Map.empty T' (apply_writes (recover_writes ls ?B') ?d) (put_blocks (recover_writes ls ?B') ?B') {}
        (rev (recover_writes ls ?B') @ k_dwrites u) lg' v"
      using initlog_ok[OF u, of ls, unfolded dl 1, OF L(6,7) R(4,6,9) h] by blast
    have "k_disk v = apply_writes (recover_writes ls ?B') ?d" using w(2) by (simp add: view_def)
    moreover have "writes_ok (length ?d div BSIZE) (recover_writes ls ?B')" using rec(2) dl by simp
    ultimately have "disk_block (k_disk v) (unat m) = put_blocks (recover_writes ls ?B') ?B' m" for m
      using apply_writes_block by simp
    then show ?thesis using w(1) rec(3) by auto
  qed
  have "length es < length ?ws" by (simp add: commit_writes_def log_writes_def)
  then show ?thesis using t(1) T fin crash by blast
qed

text \<open>
  C2. A transaction is atomic across crashes. \<open>commit\<close> returns after a list \<open>ws\<close> of block writes,
  and then the blocks of the transaction are on the disk. If the machine stops after any \<open>k\<close> of
  these writes, then at the next boot \<open>initlog\<close> returns with every block outside the log area
  either as it was before the transaction (when the header was not yet written) or as the
  transaction left it.
\<close>

theorem commit_is_atomic:
  assumes "ready_to_commit T ls es s"
  shows "\<exists>t ws. commit s = Ret () t \<and> k_dwrites t = rev ws @ k_dwrites s \<and>
    k_disk t = apply_writes ws (k_disk s) \<and> (\<forall>e \<in> set es. disk_block (k_disk t) (unat e) = content s e) \<and>
    (\<forall>k \<le> length ws. \<forall>T' u. booted T' (apply_writes (take k ws) (k_disk s)) u \<longrightarrow>
      (\<exists>v. initlog 1 u = Ret () v \<and> (\<forall>m. \<not> in_log ls m \<longrightarrow>
        disk_block (k_disk v) (unat m) = (if k \<le> length es then disk_block (k_disk s) (unat m) else content s m))))"
  using commit_crash_safe[OF assms] by blast

end
