(* ===== verification/Transaction.thy ===== *)
theory Transaction
  imports Log_Write Crash
begin

text \<open>A transaction from boot to commit on a small disk: the hypotheses of atomicity can hold.\<close>

section \<open>A running thread after boot\<close>

lemma booted_binit:
  assumes c: "calm sw p pid s" and "k_bufs s = replicate (Suc NBUF) zero_buf" and l: "length (l_block (k_log s)) = LOGSIZE"
  shows "\<exists>t. binit s = Ret () t \<and> booted (sw, p, pid) (k_disk s) t \<and> k_log t = k_log s"
proof -
  obtain t where t: "binit s = Ret () t" "linking s (rev [0..<NBUF]) t"
    using binit_links[of s] assms by auto
  obtain bs sl where ts: "t = s\<lparr>k_bufs := bs, k_sleeplocks := sl\<rparr>" using t(2) unfolding linking_def by blast
  obtain u where u: "binit s = Ret () u" "cinv {} pid u" "pinned u = {}"
    using binit_makes_empty_cache[OF assms(2), of pid] by blast
  have "calm sw p pid t" using c calm_cong[of t s] ts by simp
  then show ?thesis using t(1) u ts l by (simp add: booted_def)
qed

section \<open>One transaction\<close>

text \<open>A disk of 64 zeroed blocks whose superblock puts the log at block 2.\<close>

definition small_disk :: "u8 list" where
  "small_disk = disk_write 1 (put32 16 2 (replicate BSIZE 0)) (replicate (64 * BSIZE) 0)"

lemma small_disk:
  "length small_disk div BSIZE = 64" "disk_block small_disk 1 = put32 16 2 (replicate BSIZE 0)"
  "n < 64 \<Longrightarrow> n \<noteq> 1 \<Longrightarrow> disk_block small_disk n = replicate BSIZE 0"
proof -
  have B: "0 < BSIZE" by (simp add: BSIZE_def)
  have l: "length (put32 16 2 (replicate BSIZE (0 :: u8))) = BSIZE" "1 < length (replicate (64 * BSIZE) (0 :: u8)) div BSIZE"
    using B by simp_all
  note dw = disk_write_block[OF l]
  show "length small_disk div BSIZE = 64" using dw(1) B by (simp add: small_disk_def)
  show "disk_block small_disk 1 = put32 16 2 (replicate BSIZE 0)" using dw(2)[of 1] by (simp add: small_disk_def)
  show "disk_block small_disk n = replicate BSIZE 0" if "n < 64" "n \<noteq> 1"
  proof -
    have "disk_block small_disk n = disk_block (replicate (64 * BSIZE) 0) n"
      using dw(2)[of n] that by (simp add: small_disk_def)
    moreover have "n * BSIZE + BSIZE \<le> 64 * BSIZE" using that(1) mult_le_mono1[of "n + 1" 64 BSIZE] by simp
    then have "min (64 * BSIZE - n * BSIZE) BSIZE = BSIZE" by linarith
    ultimately show ?thesis by (simp add: disk_block_def get_range_def min.commute)
  qed
qed

lemma unat_40: "unat (40 :: u32) < 64" "\<not> in_log 2 (40 :: u32)"
  by (simp_all add: in_log_def LOGSIZE_def MAXOPBLOCKS_def)

text \<open>Block 40 is locked and changed, in a transaction that has no block yet.\<close>

lemma example_locked:
  "\<exists>b s C lg. view [b \<mapsto> 40] ({}, 0, 1) small_disk C {} (k_dwrites s) lg s \<and> C 40 = replicate BSIZE 7 \<and>
     log_ok 64 2 [] lg \<and> 1 \<le> l_outstanding lg \<and> int (length ([] :: u32 list)) < l_size lg - 1"
proof -
  let ?T = "({}, 0, 1) :: nat set \<times> nat \<times> u32" and ?D = small_disk
  let ?s0 = "running_kernel\<lparr>k_disk := ?D\<rparr>"
  obtain s1 where s1: "booted ?T ?D s1" "k_log s1 = k_log ?s0"
    using booted_binit[OF running_calm[of ?D]] by (auto simp: running_kernel_def)
  have v1: "view Map.empty ?T ?D (content s1) {} (k_dwrites s1) (k_log s1) s1"
    using s1(1) by (auto simp: booted_def view_def)
  let ?f = "\<lambda>l. l\<lparr>l_start := 2, l_dev := 1, l_size := 30, l_outstanding := 1\<rparr>"
  note v2 = view_upd_log[OF v1, of ?f]
  obtain b s3 where s3: "view [b \<mapsto> 40] ?T ?D (content s1) {} (k_dwrites s1) (?f (k_log s1)) s3"
    using view_bread[OF v2, of 40] small_disk(1) by (auto simp: NBUF_def MAXOPBLOCKS_def)
  obtain s4 where s4: "view [b \<mapsto> 40] ?T ?D ((content s1)(40 := replicate BSIZE 7)) {} (k_dwrites s1) (?f (k_log s1)) s4"
    using view_set_bdata[OF s3 fun_upd_same, of "\<lambda>_. replicate BSIZE 7", OF length_replicate] by blast
  have "log_ok 64 2 [] (?f (k_log s1))"
    by (simp add: log_ok_def s1(2) running_kernel_def LOGSIZE_def MAXOPBLOCKS_def)
  moreover have "k_dwrites s4 = k_dwrites s1" using s4 by (simp add: view_def)
  ultimately show ?thesis using s4
    by (intro exI[of _ b] exI[of _ s4] exI[of _ "(content s1)(40 := replicate BSIZE 7)"] exI[of _ "?f (k_log s1)"]) simp
qed

lemma example_transaction:
  "\<exists>s. ready_to_commit ({}, 0, 1) 2 [40] s \<and> k_disk s = small_disk \<and> content s 40 = replicate BSIZE 7"
proof -
  obtain b s C lg where v: "view [b \<mapsto> 40] ({}, 0, 1) small_disk C {} (k_dwrites s) lg s" "C 40 = replicate BSIZE 7"
    "log_ok 64 2 [] lg" "1 \<le> l_outstanding lg" "int (length ([] :: u32 list)) < l_size lg - 1"
    using example_locked by blast
  have la: "log_add 40 [] = [40]" "length ([] :: u32 list) + 1 < LOGSIZE"
    by (simp_all add: log_add_def LOGSIZE_def MAXOPBLOCKS_def)
  obtain t lg' where t: "view [b \<mapsto> 40] ({}, 0, 1) small_disk C {40} (k_dwrites s) lg' t" "log_ok 64 2 [40] lg'"
    using log_write_ok[OF v(1) fun_upd_same v(3) unat_40 v(4) la(2) v(5), unfolded la] by blast
  obtain u where u: "view ([b \<mapsto> 40](b := None)) ({}, 0, 1) small_disk C {40} (k_dwrites s) lg' u"
    using view_brelse[OF t(1) fun_upd_same] by blast
  have "get32 (replicate BSIZE 0) 0 = 0" by (simp add: get32_def BSIZE_def)
  moreover have "get32 (put32 16 2 (replicate BSIZE 0)) 16 = 2" by (simp add: BSIZE_def)
  ultimately have "ready_to_commit ({}, 0, 1) 2 [40] u"
    using u t(2) small_disk(1,2) small_disk(3)[of 2]
    by (simp add: ready_to_commit_def view_def disksize_def decode_sb_def in_log_def)
  moreover have "k_disk u = small_disk" "content u 40 = replicate BSIZE 7" using u v(2) by (auto simp: view_def)
  ultimately show ?thesis by blast
qed

text \<open>
  C21. \<open>log_write\<close> pins the buffer and adds its block to the list of the transaction unless it is
  already there (absorption): the list stays free of duplicates and of log blocks, nothing is
  written, and the content of no block changes.
\<close>

theorem log_write_records_block:
  assumes "view H T D C P W lg s" "H b = Some n" "log_ok N ls es lg" "unat n < N" "\<not> in_log ls n"
    "1 \<le> l_outstanding lg" "length es + 1 < LOGSIZE" "int (length es) < l_size lg - 1"
  shows "\<exists>t lg'. log_write b s = Ret () t \<and> view H T D C (insert n P) W lg' t \<and>
    log_ok N ls (if n \<in> set es then es else es @ [n]) lg'"
  using log_write_ok[OF assms] unfolding log_add_def by blast

lemma log_write_records_block_witness:
  "\<exists>b s t C lg lg'. view [b \<mapsto> 40] ({}, 0, 1) small_disk C {} (k_dwrites s) lg s \<and> log_write b s = Ret () t \<and>
     view [b \<mapsto> 40] ({}, 0, 1) small_disk C {40} (k_dwrites s) lg' t"
proof -
  obtain b s C lg where v: "view [b \<mapsto> 40] ({}, 0, 1) small_disk C {} (k_dwrites s) lg s" "C 40 = replicate BSIZE 7"
    "log_ok 64 2 [] lg" "1 \<le> l_outstanding lg" "int (length ([] :: u32 list)) < l_size lg - 1"
    using example_locked by blast
  have "length ([] :: u32 list) + 1 < LOGSIZE" by (simp add: LOGSIZE_def MAXOPBLOCKS_def)
  from log_write_records_block[OF v(1) fun_upd_same v(3) unat_40 v(4) this v(5)] v(1) show ?thesis by blast
qed

lemma commit_is_atomic_witness:
  "\<exists>s t u v. ready_to_commit ({}, 0, 1) 2 [40] s \<and> commit s = Ret () t \<and>
     disk_block (k_disk t) 40 = replicate BSIZE 7 \<and> initlog 1 u = Ret () v \<and>
     disk_block (k_disk v) 40 = replicate BSIZE 0"
proof -
  obtain s where s: "ready_to_commit ({}, 0, 1) 2 [40] s" "k_disk s = small_disk" "content s 40 = replicate BSIZE 7"
    using example_transaction by blast
  obtain t ws where t: "commit s = Ret () t" "disk_block (k_disk t) 40 = replicate BSIZE 7"
    and crash: "\<forall>k \<le> length ws. \<forall>T' u. booted T' (apply_writes (take k ws) (k_disk s)) u \<longrightarrow>
      (\<exists>v. initlog 1 u = Ret () v \<and> (\<forall>m. \<not> in_log 2 m \<longrightarrow>
        disk_block (k_disk v) (unat m) = (if k \<le> length [40 :: u32] then disk_block (k_disk s) (unat m) else content s m)))"
    using commit_is_atomic[OF s(1)] s(3) by auto
  obtain u where "booted ({}, 0, 1) small_disk u"
    using booted_binit[OF running_calm[of small_disk]] by (auto simp: running_kernel_def)
  then have "booted ({}, 0, 1) (apply_writes (take 0 ws) (k_disk s)) u" using s(2) by simp
  from crash[rule_format, OF _ this] obtain v where v: "initlog 1 u = Ret () v"
    "\<forall>m. \<not> in_log 2 m \<longrightarrow> disk_block (k_disk v) (unat m) = disk_block (k_disk s) (unat m)"
    by auto
  have "\<not> in_log 2 (40 :: u32)" by (simp add: in_log_def LOGSIZE_def MAXOPBLOCKS_def)
  then have "disk_block (k_disk v) 40 = replicate BSIZE 0" using v(2)[rule_format, of 40] s(2) small_disk(3)[of 40] by simp
  then show ?thesis using s(1) t v(1) by blast
qed

end
