(* ===== verification/Dir_Lookup.thy ===== *)
theory Dir_Lookup
  imports File_Read Transaction
begin

text \<open>
  \<open>dirlookup\<close> searches the directory as its content says: through \<open>readi\<close>, the blocks of the
  file, the buffer cache and the inode cache.
\<close>

section \<open>Names\<close>

text \<open>A name as far as the comparison looks: at most 14 bytes, up to a NUL.\<close>

definition cut_name :: "u8 list \<Rightarrow> u8 list" where
  "cut_name s = takeWhile (\<lambda>c. c \<noteq> 0) (take DIRSIZ s)"

lemma byte_at_drop: "drop i s = c # cs \<Longrightarrow> byte_at s i = c \<and> drop (Suc i) s = cs"
proof -
  assume d: "drop i s = c # cs"
  then have "i < length s" by (metis drop_all list.distinct(1) not_le)
  then have "drop i s = s ! i # drop (Suc i) s" by (simp add: Cons_nth_drop_Suc)
  then show ?thesis using d \<open>i < length s\<close> by (simp add: byte_at_def)
qed

lemma byte_at_end: "drop i s = [] \<Longrightarrow> byte_at s i = 0"
  by (simp add: byte_at_def)

lemma strncmp_at_zero:
  "strncmp_at n i s t = 0 \<longleftrightarrow>
     takeWhile (\<lambda>c. c \<noteq> 0) (take n (drop i s)) = takeWhile (\<lambda>c. c \<noteq> 0) (take n (drop i t))"
proof (induction n arbitrary: i)
  case (Suc n)
  have eq: "uint a - uint b = 0 \<longleftrightarrow> a = b" for a b :: u8 by (simp add: word_uint_eq_iff)
  show ?case
  proof (cases "drop i s")
    case Nil
    note s = Nil byte_at_end[OF Nil]
    show ?thesis
    proof (cases "drop i t")
      case Nil then show ?thesis using s byte_at_end[OF Nil] by simp
    next
      case (Cons d ds) then show ?thesis using s byte_at_drop[OF Cons] eq[of 0 d] by auto
    qed
  next
    case (Cons c cs)
    note s = Cons byte_at_drop[OF Cons]
    show ?thesis
    proof (cases "drop i t")
      case Nil then show ?thesis using s byte_at_end[OF Nil] eq[of c 0] by auto
    next
      case (Cons d ds)
      then show ?thesis using s byte_at_drop[OF Cons] eq[of c d] Suc.IH[of "Suc i"] by auto
    qed
  qed
qed simp

lemma namecmp_zero: "namecmp s t = 0 \<longleftrightarrow> cut_name s = cut_name t"
  using strncmp_at_zero[of DIRSIZ 0 s t] by (simp add: namecmp_def cut_name_def)

section \<open>Entries\<close>

definition entry :: "(u32 \<Rightarrow> u8 list) \<Rightarrow> inode \<Rightarrow> nat \<Rightarrow> u8 list" where
  "entry C x k = file_bytes C x (16 * k) 16"

definition entry_is :: "u8 list \<Rightarrow> u8 list \<Rightarrow> bool" where
  "entry_is name de \<longleftrightarrow> de_inum de \<noteq> 0 \<and> cut_name (de_name de) = cut_name name"

text \<open>The first entry with the name.\<close>

definition find_entry :: "(u32 \<Rightarrow> u8 list) \<Rightarrow> inode \<Rightarrow> u8 list \<Rightarrow> nat option" where
  "find_entry C x name = find (\<lambda>k. entry_is name (entry C x k)) [0..<unat (i_size x) div 16]"

section \<open>The inode cache\<close>

text \<open>The entry that \<open>iget\<close> takes, and the inodes after it.\<close>

definition iget_slot :: "inode list \<Rightarrow> u32 \<Rightarrow> u32 \<Rightarrow> nat option" where
  "iget_slot I dev inum = (case find (\<lambda>i. 0 < i_ref (I ! i) \<and> i_dev (I ! i) = dev \<and> i_inum (I ! i) = inum) [0..<NINODE] of
     Some i \<Rightarrow> Some i | None \<Rightarrow> find (\<lambda>i. i_ref (I ! i) = 0) [0..<NINODE])"

definition iget_inodes :: "inode list \<Rightarrow> u32 \<Rightarrow> u32 \<Rightarrow> nat \<Rightarrow> inode list" where
  "iget_inodes I dev inum i = I[i := (if 0 < i_ref (I ! i) then (I ! i)\<lparr>i_ref := i_ref (I ! i) + 1\<rparr>
     else (I ! i)\<lparr>i_dev := dev, i_inum := inum, i_ref := 1, i_valid := False\<rparr>)]"

lemma iget_ok:
  assumes r: "reading T D C P I s"
  shows "case iget_slot I dev inum of
      None \<Rightarrow> iget dev inum s = Panic ''iget: no inodes''
    | Some i \<Rightarrow> \<exists>t. iget dev inum s = Ret i t \<and> reading T D C P (iget_inodes I dev inum i) t"
proof -
  have I: "k_inodes s = I" using r by (simp add: reading_def)
  obtain sw p pid where T: "T = (sw, p, pid)" by (cases T)
  have c: "calm sw p pid s" using r by (auto simp: reading_def view_def T)
  have h: "k_held s = []" using c by (simp add: calm_def)
  let ?s = "s\<lparr>k_held := [(L_icache, k_me s)]\<rparr>"
  have ino: "ino ?s = (!) I" using I by (simp add: ino_def[abs_def])
  have upd: "release L_icache (upd_ino i f ?s) = Ret () (s\<lparr>k_inodes := I[i := f (I ! i)]\<rparr>)" for i f
  proof -
    have "release L_icache (upd_ino i f ?s) = Ret () ((upd_ino i f ?s)\<lparr>k_held := []\<rparr>)"
      by (rule release_single) (simp add: upd_ino_def)
    also have "(upd_ino i f ?s)\<lparr>k_held := []\<rparr> = s\<lparr>k_inodes := I[i := f (I ! i)]\<rparr>"
      using h I by (simp add: upd_ino_def)
    finally show ?thesis .
  qed
  have rd: "reading T D C P I' (s\<lparr>k_inodes := I'\<rparr>)" for I'
    using r view_inodes by (simp add: reading_def)
  have ci: "cached_inode dev inum ?s = find (\<lambda>i. 0 < i_ref (I ! i) \<and> i_dev (I ! i) = dev \<and> i_inum (I ! i) = inum) [0..<NINODE]"
    "empty_inode ?s = find (\<lambda>i. i_ref (I ! i) = 0) [0..<NINODE]"
    by (simp_all add: cached_inode_def empty_inode_def ino)
  show ?thesis
  proof (cases "cached_inode dev inum ?s")
    case (Some i)
    have "0 < i_ref (I ! i)" using Some ci(1) by (auto simp: find_Some_iff)
    then show ?thesis using Some ci rd[of "iget_inodes I dev inum i"] calm_acquire[OF c] upd
      by (simp add: iget_def iget_slot_def iget_inodes_def kbind_def kget_def kupd_def kret_def)
  next
    case None
    show ?thesis
    proof (cases "empty_inode ?s")
      case None
      then show ?thesis using \<open>cached_inode dev inum ?s = None\<close> ci calm_acquire[OF c]
        by (simp add: iget_def iget_slot_def kbind_def kget_def kpanic_def)
    next
      case (Some i)
      have "i_ref (I ! i) = 0" using Some ci(2) by (auto simp: find_Some_iff)
      then show ?thesis using \<open>cached_inode dev inum ?s = None\<close> Some ci rd[of "iget_inodes I dev inum i"] calm_acquire[OF c] upd
        by (simp add: iget_def iget_slot_def iget_inodes_def kbind_def kget_def kupd_def kret_def)
    qed
  qed
qed


section \<open>\<open>dirlookup\<close>\<close>

lemma read_dirent_ok:
  assumes r: "reading T D C P I s" and m: "mapped (length D div BSIZE) C (I ! dp)" "i_type (I ! dp) = T_DIR"
    and k: "16 * k + 16 \<le> unat (i_size (I ! dp))"
  shows "\<exists>t. read_dirent msg dp (SIZEOF_DIRENT * of_nat k) s = Ret (entry C (I ! dp) k) t \<and> reading T D C P I t"
proof -
  have b: "unat (i_size (I ! dp)) < 2 ^ 32 - 16" using m(1) by (simp add: mapped_def MAXFILE_def NDIRECT_def NINDIRECT_def BSIZE_def)
  then have o: "unat (SIZEOF_DIRENT * of_nat k) = 16 * k" using k by (simp add: SIZEOF_DIRENT_def unat_word_ariths unat_of_nat)
  have "unat SIZEOF_DIRENT = 16" by (simp add: SIZEOF_DIRENT_def)
  then have "\<exists>t. readi dp To_local (SIZEOF_DIRENT * of_nat k) SIZEOF_DIRENT s = Ret (Some (entry C (I ! dp) k)) t \<and> reading T D C P I t"
  proof -
    have "min 16 (unat (i_size (I ! dp)) - 16 * k) = 16" using k by simp
    then show ?thesis
      using readi_ok[OF r m(1), of "SIZEOF_DIRENT * of_nat k" SIZEOF_DIRENT] m(2) o k b \<open>unat SIZEOF_DIRENT = 16\<close>
      by (simp add: clip_def entry_def T_DIR_def T_DEV_def)
  qed
  then show ?thesis using \<open>unat SIZEOF_DIRENT = 16\<close>
    by (auto simp: read_dirent_def kbind_def kret_def entry_def file_bytes_def)
qed

lemma sixteenths:
  fixes a :: nat
  assumes "a mod 16 = 0"
  shows "k < a div 16 \<Longrightarrow> 16 * k + 16 \<le> a" "(a + 15) div 16 = a div 16"
proof -
  obtain q where "a = 16 * q" using assms by (metis mod_0_imp_dvd dvdE)
  then show "k < a div 16 \<Longrightarrow> 16 * k + 16 \<le> a" "(a + 15) div 16 = a div 16" by auto
qed

lemma dirlookup_ok:
  assumes r: "reading T D C P I s" and m: "mapped (length D div BSIZE) C (I ! dp)" "i_type (I ! dp) = T_DIR"
    and sz: "unat (i_size (I ! dp)) mod 16 = 0"
  shows "case find_entry C (I ! dp) name of
      None \<Rightarrow> \<exists>t. dirlookup dp name s = Ret None t \<and> reading T D C P I t
    | Some k \<Rightarrow> let inum = ucast (de_inum (entry C (I ! dp) k)) in
       (case iget_slot I 1 inum of
          None \<Rightarrow> dirlookup dp name s = Panic ''iget: no inodes''
        | Some i \<Rightarrow> \<exists>t. dirlookup dp name s = Ret (Some (i, SIZEOF_DIRENT * of_nat k)) t \<and>
            reading T D C P (iget_inodes I 1 inum i) t)"
proof -
  let ?x = "I ! dp" and ?n = "unat (i_size (I ! dp)) div 16"
  let ?body = "\<lambda>off. kbind (read_dirent ''dirlookup read'' dp off) (\<lambda>de.
       if de_inum de = 0 then kret None
       else if namecmp name (de_name de) = 0 then
         kbind (inode_dev dp) (\<lambda>dev.
         kbind (iget dev (ucast (de_inum de))) (\<lambda>ip. kret (Some (ip, off))))
       else kret None)"
  let ?P = "\<lambda>k. entry_is name (entry C ?x k)"
  have x: "ino s dp = ?x" using r by (simp add: ino_def reading_def)
  have dev: "inode_dev dp u = Ret 1 u" if "reading T D C P I u" for u
    using that m(1) by (simp add: inode_dev_def kget_def ino_def reading_def mapped_def)
  have room: "16 * k + 16 \<le> unat (i_size ?x)" if "k < ?n" for k
    using sixteenths(1)[OF sz that] .
  have step: "\<exists>t. ?body (SIZEOF_DIRENT * of_nat k) u =
      (if ?P k then kbind (iget 1 (ucast (de_inum (entry C ?x k)))) (\<lambda>ip. kret (Some (ip, SIZEOF_DIRENT * of_nat k))) t
       else Ret None t) \<and> reading T D C P I t" if kn: "k < ?n" and ru: "reading T D C P I u" for k u
  proof -
    obtain t where t: "read_dirent ''dirlookup read'' dp (SIZEOF_DIRENT * of_nat k) u = Ret (entry C ?x k) t" "reading T D C P I t"
      using read_dirent_ok[OF ru m room[OF kn]] by blast
    then show ?thesis using dev[OF t(2)] namecmp_zero[of name]
      by (auto simp: kbind_def kret_def entry_is_def intro!: exI[of _ t])
  qed
  have map: "kfind (map f ks) b = kfind ks (\<lambda>k. b (f k))" for f :: "nat \<Rightarrow> u32" and ks and b :: "u32 \<Rightarrow> kernel \<Rightarrow> ((nat \<times> u32) option, kernel) outcome"
  proof (induction ks)
    case (Cons k ks) then show ?case by (intro ext) (simp add: kbind_def split: outcome.split option.split)
  qed simp
  have "(unat (i_size ?x) + 15) div 16 = ?n"
    using sixteenths(2)[OF sz] .
  then have run: "dirlookup dp name s = kfind [0..<?n] (\<lambda>k. ?body (SIZEOF_DIRENT * of_nat k)) s"
    using x m(2) by (simp add: dirlookup_def kbind_def kwhen_def kget_def dirent_offsets_def map)
  have "case find ?P [0..<?n] of
      None \<Rightarrow> \<exists>t. kfind [0..<?n] (\<lambda>k. ?body (SIZEOF_DIRENT * of_nat k)) s = Ret None t \<and> reading T D C P I t
    | Some j \<Rightarrow> \<exists>u rest. reading T D C P I u \<and> kfind [0..<?n] (\<lambda>k. ?body (SIZEOF_DIRENT * of_nat k)) s =
       kbind (?body (SIZEOF_DIRENT * of_nat j)) (\<lambda>r. case r of None \<Rightarrow> kfind rest (\<lambda>k. ?body (SIZEOF_DIRENT * of_nat k)) | Some x \<Rightarrow> kret (Some x)) u"
    by (rule kfind_search[where Q = "reading T D C P I", OF r]) (use step in force)
  then show ?thesis
  proof (cases "find ?P [0..<?n]")
    case None
    then show ?thesis using \<open>case find ?P [0..<?n] of None \<Rightarrow> _ | Some j \<Rightarrow> _ j\<close> run by (simp add: find_entry_def)
  next
    case (Some k)
    then obtain u rest where u: "reading T D C P I u" "dirlookup dp name s = kbind (?body (SIZEOF_DIRENT * of_nat k))
        (\<lambda>r. case r of None \<Rightarrow> kfind rest (\<lambda>k. ?body (SIZEOF_DIRENT * of_nat k)) | Some x \<Rightarrow> kret (Some x)) u"
      using \<open>case find ?P [0..<?n] of None \<Rightarrow> _ | Some j \<Rightarrow> _ j\<close> run by auto
    have k: "k < ?n" "?P k" using Some by (auto simp: find_Some_iff)
    let ?inum = "ucast (de_inum (entry C ?x k)) :: u32"
    obtain t where t: "?body (SIZEOF_DIRENT * of_nat k) u = kbind (iget 1 ?inum) (\<lambda>ip. kret (Some (ip, SIZEOF_DIRENT * of_nat k))) t"
      "reading T D C P I t" using step[OF k(1) u(1)] k(2) by auto
    have "dirlookup dp name s = kbind (kbind (iget 1 ?inum) (\<lambda>ip. kret (Some (ip, SIZEOF_DIRENT * of_nat k))))
        (\<lambda>r. case r of None \<Rightarrow> kfind rest (\<lambda>k. ?body (SIZEOF_DIRENT * of_nat k)) | Some x \<Rightarrow> kret (Some x)) t"
      using u(2) t(1) by (simp only: kbind_def)
    then have "dirlookup dp name s = obind (iget 1 ?inum t) (\<lambda>ip. Ret (Some (ip, SIZEOF_DIRENT * of_nat k)))"
      by (simp add: kbind_assoc) (simp add: kbind_def kret_def[abs_def])
    then show ?thesis using iget_ok[OF t(2), of 1 ?inum] Some
      by (simp add: find_entry_def Let_def split: option.splits) auto
  qed
qed

section \<open>The results\<close>

text \<open>
  C23. \<open>readi\<close> into the kernel's own memory gives the bytes of the file, block after block through
  the map of the inode and the buffer cache, clipped at the end of the file; an offset behind the
  end, or a sum of offset and length that wraps around, gives -1.
\<close>

theorem readi_reads_file:
  assumes "reading T D C P I s" "mapped (length D div BSIZE) C (I ! ip)" "i_type (I ! ip) \<noteq> T_DEV"
  shows "\<exists>t. readi ip To_local off n s =
      Ret (if unat (i_size (I ! ip)) < unat off \<or> 2 ^ 32 \<le> unat off + unat n then None
           else Some (file_bytes C (I ! ip) (unat off) (min (unat n) (unat (i_size (I ! ip)) - unat off)))) t \<and>
    reading T D C P I t"
  unfolding clip_def[symmetric] by (rule readi_ok[OF assms])

text \<open>
  C24. \<open>dirlookup\<close> finds the first entry of the directory that is in use and has the name, both
  names cut at 14 bytes or a NUL: it returns the offset of the entry and the slot of the inode cache
  that \<open>iget\<close> gives to its inode, with a reference more. Without such an entry it returns
  nothing, and it panics only when the inode cache is full.
\<close>

theorem dirlookup_finds_first:
  assumes "reading T D C P I s" "mapped (length D div BSIZE) C (I ! dp)" "i_type (I ! dp) = T_DIR"
    "unat (i_size (I ! dp)) mod 16 = 0"
  shows "case find_entry C (I ! dp) name of
      None \<Rightarrow> \<exists>t. dirlookup dp name s = Ret None t \<and> reading T D C P I t
    | Some k \<Rightarrow> let inum = ucast (de_inum (entry C (I ! dp) k)) in
       (case iget_slot I 1 inum of
          None \<Rightarrow> dirlookup dp name s = Panic ''iget: no inodes''
        | Some i \<Rightarrow> \<exists>t. dirlookup dp name s = Ret (Some (i, SIZEOF_DIRENT * of_nat k)) t \<and>
            reading T D C P (iget_inodes I 1 inum i) t)"
  by (rule dirlookup_ok[OF assms])

text \<open>A disk with one directory of two entries, \<open>.\<close> and \<open>a\<close>, in block 40.\<close>

definition dir_block :: "u8 list" where
  "dir_block = [1, 0, 46] @ replicate 13 0 @ [5, 0, 97] @ replicate (BSIZE - 19) 0"

definition dir_disk :: "u8 list" where
  "dir_disk = disk_write 40 dir_block (replicate (64 * BSIZE) 0)"

definition dir_inode :: inode where
  "dir_inode = \<lparr>i_dev = 1, i_inum = 1, i_ref = 1, i_valid = True, i_type = T_DIR, i_major = 0, i_minor = 0,
     i_nlink = 1, i_size = 32, i_addrs = 40 # replicate NDIRECT 0\<rparr>"

definition dir_inodes :: "inode list" where
  "dir_inodes = dir_inode # replicate (NINODE - 1) (dir_inode\<lparr>i_ref := 0\<rparr>)"

lemma boot_reading: "\<exists>s. reading ({}, 0, 1) D (\<lambda>n. disk_block D (unat n)) {} I s"
proof -
  obtain s where s: "booted ({}, 0, 1) D s"
    using booted_binit[OF running_calm[of D]] by (auto simp: running_kernel_def)
  then have v: "view Map.empty ({}, 0, 1) D (content s) {} (k_dwrites s) (k_log s) s" by (auto simp: booted_def view_def)
  have "content s = (\<lambda>n. disk_block D (unat n))" using view_clean[OF v] by auto
  then have "reading ({}, 0, 1) D (\<lambda>n. disk_block D (unat n)) {} I (s\<lparr>k_inodes := I\<rparr>)"
    using v by (simp add: reading_def view_inodes NBUF_def MAXOPBLOCKS_def)
  then show ?thesis by blast
qed

lemma dir_disk:
  "length dir_disk div BSIZE = 64" "disk_block dir_disk 40 = dir_block"
proof -
  have l: "length dir_block = BSIZE" "40 < length (replicate (64 * BSIZE) (0 :: u8)) div BSIZE"
    by (simp_all add: dir_block_def BSIZE_def)
  show "length dir_disk div BSIZE = 64" "disk_block dir_disk 40 = dir_block"
    using disk_write_block[OF l] by (simp_all add: dir_disk_def BSIZE_def)
qed

lemma dir_mapped: "mapped 64 (\<lambda>n. disk_block dir_disk (unat n)) dir_inode"
  by (simp add: mapped_def dir_inode_def file_block_def BSIZE_def NDIRECT_def MAXFILE_def NINDIRECT_def)

lemma dir_inodes_0 [simp]: "dir_inodes ! 0 = dir_inode"
  by (simp add: dir_inodes_def)

lemma dir_entries:
  "file_bytes (\<lambda>n. disk_block dir_disk (unat n)) dir_inode off n = map (\<lambda>i. dir_block ! i) [off..<off + n]" if "off + n \<le> BSIZE"
  using that by (auto simp: file_bytes_def file_byte_def file_block_def dir_inode_def NDIRECT_def dir_disk(2))

lemma readi_reads_file_witness:
  "\<exists>s t. readi 0 To_local 16 100 s = Ret (Some ([5, 0, 97] @ replicate 13 0)) t"
proof -
  obtain s where s: "reading ({}, 0, 1) dir_disk (\<lambda>n. disk_block dir_disk (unat n)) {} dir_inodes s"
    using boot_reading by blast
  have "file_bytes (\<lambda>n. disk_block dir_disk (unat n)) dir_inode 16 16 = [5, 0, 97] @ replicate 13 0"
    by (subst dir_entries) (simp_all add: BSIZE_def dir_block_def upt_rec nth_append numeral_nat)
  then show ?thesis using readi_reads_file[OF s, of 0 16 100] dir_mapped dir_disk(1)
    by (auto simp: dir_inode_def T_DIR_def T_DEV_def)
qed

lemma dirlookup_finds_first_witness:
  "\<exists>s t. dirlookup 0 [97] s = Ret (Some (1, 16)) t \<and> i_inum (k_inodes t ! 1) = 5"
proof -
  obtain s where s: "reading ({}, 0, 1) dir_disk (\<lambda>n. disk_block dir_disk (unat n)) {} dir_inodes s"
    using boot_reading by blast
  have "entry (\<lambda>n. disk_block dir_disk (unat n)) dir_inode 0 = [1, 0, 46] @ replicate 13 0"
    "entry (\<lambda>n. disk_block dir_disk (unat n)) dir_inode 1 = [5, 0, 97] @ replicate 13 0"
    by (simp_all add: entry_def dir_entries BSIZE_def dir_block_def upt_rec nth_append numeral_nat)
  then have "\<not> entry_is [97] (entry (\<lambda>n. disk_block dir_disk (unat n)) dir_inode 0)"
    "entry_is [97] (entry (\<lambda>n. disk_block dir_disk (unat n)) dir_inode 1)"
    "de_inum (entry (\<lambda>n. disk_block dir_disk (unat n)) dir_inode 1) = 5"
    by (simp_all add: entry_is_def cut_name_def de_inum_def de_name_def get_range_def DIRSIZ_def get16_def)
  then have f: "find_entry (\<lambda>n. disk_block dir_disk (unat n)) dir_inode [97] = Some 1"
    "ucast (de_inum (entry (\<lambda>n. disk_block dir_disk (unat n)) dir_inode 1)) = (5 :: u32)"
    by (simp_all add: find_entry_def upt_rec) (simp_all add: dir_inode_def)
  have i: "iget_slot dir_inodes 1 5 = Some 1"
  proof -
    have n: "dir_inodes ! i = (if i = 0 then dir_inode else dir_inode\<lparr>i_ref := 0\<rparr>)" if "i < NINODE" for i
      using that by (cases i) (simp_all add: dir_inodes_def)
    have "find (\<lambda>i. 0 < i_ref (dir_inodes ! i) \<and> i_dev (dir_inodes ! i) = 1 \<and> i_inum (dir_inodes ! i) = 5) [0..<NINODE] = None"
      using n by (auto simp: find_upt_None dir_inode_def)
    moreover have "find (\<lambda>i. i_ref (dir_inodes ! i) = 0) [0..<NINODE] = Some 1"
      using n[of 0] n[of 1] by (simp add: upt_conv_Cons[of 0] upt_conv_Cons[of "Suc 0"] NINODE_def dir_inode_def del: upt_Suc)
    ultimately show ?thesis by (simp add: iget_slot_def)
  qed
  have "i_inum (iget_inodes dir_inodes 1 5 1 ! 1) = 5"
    by (simp add: iget_inodes_def dir_inodes_def NINODE_def numeral_nat)
  then have inum: "i_inum (k_inodes t ! 1) = 5" if "reading T D C P (iget_inodes dir_inodes 1 5 1) t" for T D C P t
    using that by (simp add: reading_def)
  have "i_type dir_inode = T_DIR" "unat (i_size dir_inode) mod 16 = 0" by (simp_all add: dir_inode_def)
  with dirlookup_finds_first[OF s, of 0 "[97]"] dir_mapped dir_disk(1) f i obtain t where
    t: "dirlookup 0 [97] s = Ret (Some (1, SIZEOF_DIRENT * of_nat 1)) t" and
    r: "reading ({}, 0, 1) dir_disk (\<lambda>n. disk_block dir_disk (unat n)) {} (iget_inodes dir_inodes 1 5 1) t" by auto
  then show ?thesis using inum[OF r] by (auto simp: SIZEOF_DIRENT_def)
qed

end
