(* ===== verification/File_Map.thy ===== *)
theory File_Map
  imports File_Read
begin

text \<open>
  The blocks of a file as a map from the entries of the inode to the blocks of the disk: how writing
  a block and allocating one change the content of the file. The same lemmas serve the kernel
  (\<open>fs.c\<close>) and the builder of the disk image (\<open>mkfs.c\<close>).
\<close>

section \<open>The blocks a file owns\<close>

text \<open>The entries \<open>k < MAXFILE\<close> are the data blocks; entry \<open>MAXFILE\<close> is the indirect block.\<close>

definition owned :: "(u32 \<Rightarrow> u8 list) \<Rightarrow> inode \<Rightarrow> nat \<Rightarrow> u32" where
  "owned C x k = (if k < MAXFILE then file_block C x k else i_addrs x ! NDIRECT)"

definition blocks_of :: "(u32 \<Rightarrow> u8 list) \<Rightarrow> inode \<Rightarrow> u32 set" where
  "blocks_of C x = owned C x ` {..MAXFILE} - {0}"

text \<open>All blocks of the file are allocated, and none is used twice.\<close>

definition file_ok :: "(u32 \<Rightarrow> bool) \<Rightarrow> (u32 \<Rightarrow> u8 list) \<Rightarrow> inode \<Rightarrow> bool" where
  "file_ok A C x \<longleftrightarrow> length (i_addrs x) = Suc NDIRECT \<and>
     (\<forall>k \<le> MAXFILE. owned C x k \<noteq> 0 \<longrightarrow> A (owned C x k) \<and> length (C (owned C x k)) = BSIZE) \<and>
     (\<forall>j \<le> MAXFILE. \<forall>k \<le> MAXFILE. owned C x j = owned C x k \<longrightarrow> owned C x j \<noteq> 0 \<longrightarrow> j = k)"

lemma file_okD:
  assumes "file_ok A C x"
  shows "length (i_addrs x) = Suc NDIRECT"
    "k \<le> MAXFILE \<Longrightarrow> owned C x k \<noteq> 0 \<Longrightarrow> A (owned C x k)"
    "k \<le> MAXFILE \<Longrightarrow> owned C x k \<noteq> 0 \<Longrightarrow> length (C (owned C x k)) = BSIZE"
    "j \<le> MAXFILE \<Longrightarrow> k \<le> MAXFILE \<Longrightarrow> owned C x j = owned C x k \<Longrightarrow> owned C x j \<noteq> 0 \<Longrightarrow> j = k"
  using assms by (auto simp: file_ok_def)

lemma file_ok_mono: "file_ok A C x \<Longrightarrow> (\<And>b. b \<in> blocks_of C x \<Longrightarrow> A b \<Longrightarrow> A' b) \<Longrightarrow> file_ok A' C x"
  by (auto simp: file_ok_def blocks_of_def)

lemma owned_block: "k \<le> MAXFILE \<Longrightarrow> owned C x k \<noteq> 0 \<Longrightarrow> owned C x k \<in> blocks_of C x"
  by (simp add: blocks_of_def)

lemma blocks_ofE:
  assumes "b \<in> blocks_of C x"
  obtains k where "k \<le> MAXFILE" "b = owned C x k" "b \<noteq> 0"
  using assms by (auto simp: blocks_of_def)

lemma MAXFILE_bounds [simp]: "NDIRECT < MAXFILE" "k < MAXFILE \<Longrightarrow> k - NDIRECT < NINDIRECT" "j < NINDIRECT \<Longrightarrow> NDIRECT + j < MAXFILE"
  by (auto simp: MAXFILE_def NINDIRECT_def BSIZE_def)

lemma less_MAXFILE [simp]: "k < NDIRECT \<Longrightarrow> k < MAXFILE"
  by (rule less_trans[OF _ MAXFILE_bounds(1)])

lemma owned_simps:
  "k < MAXFILE \<Longrightarrow> owned C x k = file_block C x k" "owned C x MAXFILE = i_addrs x ! NDIRECT"
  "k < NDIRECT \<Longrightarrow> owned C x k = i_addrs x ! k"
  by (auto simp: owned_def file_block_def)

section \<open>Changes elsewhere and in one block\<close>

text \<open>Only the indirect block decides which blocks a file has.\<close>

lemma owned_cong: "(i_addrs x ! NDIRECT \<noteq> 0 \<Longrightarrow> C' (i_addrs x ! NDIRECT) = C (i_addrs x ! NDIRECT)) \<Longrightarrow> owned C' x k = owned C x k"
  by (auto simp: owned_def file_block_def)

lemma file_cong:
  assumes "\<And>b. b \<in> blocks_of C x \<Longrightarrow> C' b = C b"
  shows "owned C' x k = owned C x k" "blocks_of C' x = blocks_of C x"
    "i < MAXFILE * BSIZE \<Longrightarrow> file_byte C' x i = file_byte C x i" "file_ok A C' x = file_ok A C x"
proof -
  show o: "owned C' x k = owned C x k" for k
    using assms owned_block[of MAXFILE C x] by (intro owned_cong) (simp add: owned_simps)
  then show "blocks_of C' x = blocks_of C x" by (simp add: blocks_of_def)
  show "file_byte C' x i = file_byte C x i" if "i < MAXFILE * BSIZE"
  proof -
    have k: "i div BSIZE < MAXFILE" using that by (simp add: less_mult_imp_div_less)
    then show ?thesis using o[of "i div BSIZE"] assms[of "file_block C x (i div BSIZE)"] owned_block[of "i div BSIZE" C x]
      by (simp add: file_byte_def owned_simps)
  qed
  show "file_ok A C' x = file_ok A C x"
    using o assms owned_block[of _ C x] by (simp add: file_ok_def cong: conj_cong)
qed

text \<open>A write into data block \<open>k\<close>.\<close>

lemma write_block:
  assumes ok: "file_ok A C x" and k: "k < MAXFILE" "file_block C x k \<noteq> 0" and l: "length bs = BSIZE"
  shows "owned (C(file_block C x k := bs)) x j = owned C x j"
    "file_ok A (C(file_block C x k := bs)) x"
    "i < MAXFILE * BSIZE \<Longrightarrow> file_byte (C(file_block C x k := bs)) x i = (if i div BSIZE = k then bs ! (i mod BSIZE) else file_byte C x i)"
proof -
  let ?b = "file_block C x k"
  have b: "?b = owned C x k" using k by (simp add: owned_simps)
  have ne: "?b \<noteq> owned C x MAXFILE" using file_okD(4)[OF ok, of k MAXFILE] k b by auto
  show o: "owned (C(?b := bs)) x j = owned C x j" for j
    using ne by (intro owned_cong) (auto simp: owned_simps)
  show "file_ok A (C(?b := bs)) x" using ok l unfolding file_ok_def o by simp
  show "file_byte (C(?b := bs)) x i = (if i div BSIZE = k then bs ! (i mod BSIZE) else file_byte C x i)" if i: "i < MAXFILE * BSIZE"
  proof -
    have d: "i div BSIZE < MAXFILE" using i by (simp add: less_mult_imp_div_less)
    note o1 = owned_simps(1)[OF d, of C x]
    have "i div BSIZE = k" if "file_block C x (i div BSIZE) = ?b"
      by (rule file_okD(4)[OF ok less_imp_le[OF d] less_imp_le[OF k(1)]]) (simp_all only: o1 b[symmetric] that k(2) not_False_eq_True)
    then have "file_block C x (i div BSIZE) = ?b \<longleftrightarrow> i div BSIZE = k" by blast
    then show ?thesis using o[of "i div BSIZE"] owned_simps(1)[OF d] k by (cases "i div BSIZE = k") (simp_all add: file_byte_def)
  qed
qed

section \<open>A new block\<close>

text \<open>
  Entry \<open>k\<close> gets the zeroed block \<open>a\<close>, which no file had: the bytes of the file stay, since a file
  reads zeros where it has no block.
\<close>

definition grows :: "(u32 \<Rightarrow> u8 list) \<Rightarrow> inode \<Rightarrow> (u32 \<Rightarrow> u8 list) \<Rightarrow> inode \<Rightarrow> nat \<Rightarrow> u32 \<Rightarrow> bool" where
  "grows C x C' x' k a \<longleftrightarrow> k \<le> MAXFILE \<and> owned C x k = 0 \<and> a \<noteq> 0 \<and> a \<notin> blocks_of C x \<and>
     C' a = replicate BSIZE 0 \<and> length (i_addrs x') = length (i_addrs x) \<and>
     (\<forall>j \<le> MAXFILE. owned C' x' j = ((owned C x)(k := a)) j) \<and>
     (\<forall>j < MAXFILE. owned C x j \<noteq> 0 \<longrightarrow> C' (owned C x j) = C (owned C x j)) \<and>
     (owned C x MAXFILE \<noteq> 0 \<longrightarrow> length (C' (owned C x MAXFILE)) = BSIZE)"

lemma grows_owned: "grows C x C' x' k a \<Longrightarrow> j < MAXFILE \<Longrightarrow> j \<noteq> k \<Longrightarrow> owned C' x' j = owned C x j"
  by (simp add: grows_def)

lemma grows_ok:
  assumes g: "grows C x C' x' k a" and ok: "file_ok A C x" and a: "A a"
  shows "file_ok A C' x'" "i < MAXFILE * BSIZE \<Longrightarrow> file_byte C' x' i = file_byte C x i" "blocks_of C' x' = insert a (blocks_of C x)"
proof -
  have G: "k \<le> MAXFILE" "owned C x k = 0" "a \<noteq> 0" "a \<notin> blocks_of C x" "C' a = replicate BSIZE 0"
    "length (i_addrs x') = length (i_addrs x)" "\<And>j. j \<le> MAXFILE \<Longrightarrow> owned C' x' j = ((owned C x)(k := a)) j"
    "\<And>j. j < MAXFILE \<Longrightarrow> owned C x j \<noteq> 0 \<Longrightarrow> C' (owned C x j) = C (owned C x j)"
    "owned C x MAXFILE \<noteq> 0 \<Longrightarrow> length (C' (owned C x MAXFILE)) = BSIZE"
    using g by (auto simp: grows_def)
  have new: "owned C x j \<noteq> a" if "j \<le> MAXFILE" for j using G(3,4) owned_block[OF that, of C x] by auto
  have len: "length (C' (owned C x j)) = BSIZE" if "j \<le> MAXFILE" "owned C x j \<noteq> 0" for j
    using G(8,9) file_okD(3)[OF ok that] that by (cases "j = MAXFILE") auto
  show "file_ok A C' x'"
    unfolding file_ok_def
  proof (intro conjI allI impI)
    show "length (i_addrs x') = Suc NDIRECT" using G(6) file_okD(1)[OF ok] by simp
    fix j assume j: "j \<le> MAXFILE" "owned C' x' j \<noteq> 0"
    show "A (owned C' x' j)" using G(7)[OF j(1)] a file_okD(2)[OF ok j(1)] j(2) by (auto split: if_splits)
    show "length (C' (owned C' x' j)) = BSIZE" using G(5) G(7)[OF j(1)] len[OF j(1)] j(2) by (auto split: if_splits)
  next
    fix i j assume ij: "i \<le> MAXFILE" "j \<le> MAXFILE" "owned C' x' i = owned C' x' j" "owned C' x' i \<noteq> 0"
    show "i = j"
      using G(7)[OF ij(1)] G(7)[OF ij(2)] ij(3,4) file_okD(4)[OF ok ij(1,2)] new[OF ij(1)] new[OF ij(2)]
      by (metis fun_upd_apply)
  qed
  show "blocks_of C' x' = insert a (blocks_of C x)"
  proof -
    have "owned C' x' ` {..MAXFILE} = (owned C x)(k := a) ` {..MAXFILE}" using G(7) by (intro image_cong) auto
    also have "\<dots> - {0} = insert a (owned C x ` {..MAXFILE} - {0})"
      using G(1,2,3) by (auto simp: fun_upd_def image_iff split: if_splits) 
    finally show ?thesis by (simp add: blocks_of_def)
  qed
  show "file_byte C' x' i = file_byte C x i" if i: "i < MAXFILE * BSIZE"
  proof -
    have d: "i div BSIZE < MAXFILE" using i by (simp add: less_mult_imp_div_less)
    have m: "i mod BSIZE < BSIZE" by (simp add: BSIZE_def)
    have "file_block C' x' (i div BSIZE) = ((owned C x)(k := a)) (i div BSIZE)"
      using G(7)[of "i div BSIZE"] d by (simp add: owned_simps)
    moreover have "file_block C x (i div BSIZE) = owned C x (i div BSIZE)" using d by (simp add: owned_simps)
    ultimately show ?thesis using G(2,3,5) G(8)[OF d] m by (auto simp: file_byte_def)
  qed
qed

lemma grows_addr:
  assumes l: "length (i_addrs x) = Suc NDIRECT" and k: "k \<le> NDIRECT" "i_addrs x ! k = 0" and a: "a \<noteq> 0" "a \<notin> blocks_of C x"
    and C': "C' a = replicate BSIZE 0" "\<And>b. b \<in> blocks_of C x \<Longrightarrow> C' b = C b"
    and len: "\<And>k. k \<le> MAXFILE \<Longrightarrow> owned C x k \<noteq> 0 \<Longrightarrow> length (C (owned C x k)) = BSIZE"
    and x': "i_addrs x' = (i_addrs x)[k := a]"
  shows "grows C x C' x' (if k < NDIRECT then k else MAXFILE) a"
proof -
  let ?k = "if k < NDIRECT then k else MAXFILE"
  have z: "get32 (replicate BSIZE 0) (4 * (j - NDIRECT)) = 0" if "j < MAXFILE" for j
    using that by (auto simp: get32_def BSIZE_def MAXFILE_def NINDIRECT_def NDIRECT_def)
  have ind: "C' (i_addrs x ! NDIRECT) = C (i_addrs x ! NDIRECT)" if "i_addrs x ! NDIRECT \<noteq> 0"
    using C'(2) owned_block[of MAXFILE C x] that by (simp add: owned_simps)
  have "owned C' x' j = ((owned C x)(?k := a)) j" if "j \<le> MAXFILE" for j
    using that k l C'(1) z[of j] ind a(1) MAXFILE_bounds(1)[THEN less_not_sym] by (auto simp: owned_def file_block_def x' nth_list_update)
  moreover have "owned C x ?k = 0" "?k \<le> MAXFILE" using k MAXFILE_bounds(1)[THEN less_imp_le] by (auto simp: owned_simps(2,3))
  moreover have "C' (owned C x j) = C (owned C x j)" if "j \<le> MAXFILE" "owned C x j \<noteq> 0" for j
    using C'(2) owned_block[OF that] by simp
  ultimately show ?thesis using assms by (auto simp: grows_def)
qed

lemma grows_entry:
  assumes l: "i_addrs x ! NDIRECT = ind" "ind \<noteq> 0" and k: "NDIRECT \<le> k" "k < MAXFILE" "file_block C x k = 0"
    and a: "a \<noteq> 0" "a \<notin> blocks_of C x" and len: "length (C ind) = BSIZE"
    and C': "C' a = replicate BSIZE 0" "C' ind = put32 (4 * (k - NDIRECT)) a (C ind)"
      "\<And>b. b \<in> blocks_of C x \<Longrightarrow> b \<noteq> ind \<Longrightarrow> C' b = C b"
    and inj: "\<And>j. j < MAXFILE \<Longrightarrow> owned C x j \<noteq> ind"
  shows "grows C x C' x k a"
proof -
  have g: "get32 (C' ind) (4 * (j - NDIRECT)) = (if j = k then a else get32 (C ind) (4 * (j - NDIRECT)))" if "NDIRECT \<le> j" "j < MAXFILE" for j
  proof (cases "j = k")
    case True
    then show ?thesis using C'(2) len k by (auto simp: MAXFILE_def NINDIRECT_def BSIZE_def)
  next
    case False
    then have "4 * (j - NDIRECT) + 3 < 4 * (k - NDIRECT) \<or> 4 * (k - NDIRECT) + 3 < 4 * (j - NDIRECT)" using that k by auto
    then show ?thesis using False C'(2) len k that
      by (auto simp: get32_put32_other MAXFILE_def NINDIRECT_def BSIZE_def)
  qed
  have "owned C' x j = ((owned C x)(k := a)) j" if "j \<le> MAXFILE" for j
    using that l k g[of j] by (auto simp: owned_def file_block_def)
  moreover have "C' (owned C x j) = C (owned C x j)" if "j < MAXFILE" "owned C x j \<noteq> 0" for j
    using C'(3)[OF owned_block[of j C x]] inj[OF that(1)] that by simp
  ultimately show ?thesis using k a C'(1,2) l len
    by (auto simp: grows_def owned_simps)
qed

section \<open>The content of the file\<close>

text \<open>The size of the inode does not matter for its blocks.\<close>

lemma owned_size [simp]: "file_block C (x\<lparr>i_size := v\<rparr>) = file_block C x" "owned C (x\<lparr>i_size := v\<rparr>) = owned C x" "file_byte C (x\<lparr>i_size := v\<rparr>) = file_byte C x"
  "blocks_of C (x\<lparr>i_size := v\<rparr>) = blocks_of C x" "file_ok A C (x\<lparr>i_size := v\<rparr>) = file_ok A C x"
proof -
  show f: "file_block C (x\<lparr>i_size := v\<rparr>) = file_block C x" by (rule ext) (simp add: file_block_def)
  show o: "owned C (x\<lparr>i_size := v\<rparr>) = owned C x" by (rule ext) (simp add: owned_def f)
  show "file_byte C (x\<lparr>i_size := v\<rparr>) = file_byte C x" by (rule ext) (simp add: file_byte_def f)
  show "blocks_of C (x\<lparr>i_size := v\<rparr>) = blocks_of C x" "file_ok A C (x\<lparr>i_size := v\<rparr>) = file_ok A C x"
    by (simp_all add: blocks_of_def file_ok_def o)
qed

text \<open>The file has a block for each of its bytes.\<close>

definition no_holes :: "(u32 \<Rightarrow> u8 list) \<Rightarrow> inode \<Rightarrow> bool" where
  "no_holes C x \<longleftrightarrow> unat (i_size x) \<le> MAXFILE * BSIZE \<and> (\<forall>i < unat (i_size x). owned C x (i div BSIZE) \<noteq> 0)"

text \<open>The bytes of the file up to its size, and what a write makes of them.\<close>

definition file_content :: "(u32 \<Rightarrow> u8 list) \<Rightarrow> inode \<Rightarrow> u8 list" where
  "file_content C x = map (file_byte C x) [0..<unat (i_size x)]"

definition overwrite :: "nat \<Rightarrow> 'a list \<Rightarrow> 'a list \<Rightarrow> 'a list" where
  "overwrite off bs xs = take off xs @ bs @ drop (off + length bs) xs"

lemma overwrite_content:
  assumes "\<forall>i < M. f' i = (if off \<le> i \<and> i < off + length bs then bs ! (i - off) else f i)"
    and "n' = max n (off + length bs)" "off \<le> n" "n' \<le> M"
  shows "map f' [0..<n'] = overwrite off bs (map f [0..<n])"
proof (rule nth_equalityI)
  show "length (map f' [0..<n']) = length (overwrite off bs (map f [0..<n]))"
    using assms(2,3) by (simp add: overwrite_def)
  fix i assume "i < length (map f' [0..<n'])"
  then have i: "i < n'" by simp
  show "map f' [0..<n'] ! i = overwrite off bs (map f [0..<n]) ! i"
    using i assms by (auto simp: overwrite_def nth_append)
qed

end
