(* ===== verification/Inode_Disk.thy ===== *)
theory Inode_Disk
  imports Inode
begin

unbundle bit_operations_syntax

text \<open>
  The free map and the inodes on the disk: a bit that is set or cleared is the only one that
  changes, \<open>ilock\<close> reads back what \<open>iupdate\<close> wrote, and the neighbours stay.
\<close>

section \<open>The free map\<close>

lemma bit_free_bit: "bit_free bs bi \<longleftrightarrow> \<not> bit (bs ! (bi div 8)) (bi mod 8)"
  by (simp add: bit_free_def bit_mask_def bit_iff_and_push_bit_not_eq_0)

lemma bit_mask_bit: "k < 8 \<Longrightarrow> bit (bit_mask bi) k \<longleftrightarrow> k = bi mod 8"
  by (auto simp: bit_mask_def bit_simps)

lemma same_bit: "bi div 8 = bj div 8 \<Longrightarrow> bi mod 8 = bj mod 8 \<Longrightarrow> bi = (bj :: nat)"
  by (metis div_mult_mod_eq)

lemma mark_used_free:
  assumes "bi div 8 < length bs"
  shows "bit_free (mark_used bi bs) bj \<longleftrightarrow> bj \<noteq> bi \<and> bit_free bs bj"
proof (cases "bj div 8 = bi div 8")
  case True
  have "bit (bit_mask bi) (bj mod 8) \<longleftrightarrow> bj = bi" using bit_mask_bit[of "bj mod 8" bi] same_bit[OF True] by auto
  then show ?thesis using True assms by (auto simp: bit_free_bit mark_used_def bit_or_iff)
next
  case False
  then show ?thesis by (auto simp: bit_free_bit mark_used_def)
qed

lemma mark_free_free:
  assumes "bi div 8 < length bs"
  shows "bit_free (mark_free bi bs) bj \<longleftrightarrow> bj = bi \<or> bit_free bs bj"
proof (cases "bj div 8 = bi div 8")
  case True
  have "bit (bit_mask bi) (bj mod 8) \<longleftrightarrow> bj = bi" using bit_mask_bit[of "bj mod 8" bi] same_bit[OF True] by auto
  then show ?thesis using True assms by (auto simp: bit_free_bit mark_free_def bit_and_iff bit_not_iff)
next
  case False
  then show ?thesis by (auto simp: bit_free_bit mark_free_def)
qed

text \<open>
  The free map: the search of \<open>balloc\<close> finds the first clear bit of a block of the map that
  stands for a block of the disk, or none if there is none; setting it takes exactly this block
  out of the free ones, and the clearing of \<open>bfree\<close> puts exactly its block back.
\<close>

theorem free_map_correct:
  assumes "length bs = BSIZE" "bi < BPB"
  shows "(first_free b nblk bs = Some bi \<longleftrightarrow>
      b + bi < nblk \<and> bit_free bs bi \<and> (\<forall>bj < bi. \<not> (b + bj < nblk \<and> bit_free bs bj))) \<and>
    (first_free b nblk bs = None \<longleftrightarrow> (\<forall>bj < BPB. b + bj < nblk \<longrightarrow> \<not> bit_free bs bj)) \<and>
    (\<forall>bj. bit_free (mark_used bi bs) bj \<longleftrightarrow> bj \<noteq> bi \<and> bit_free bs bj) \<and>
    (\<forall>bj. bit_free (mark_free bi bs) bj \<longleftrightarrow> bj = bi \<or> bit_free bs bj)"
proof -
  have l: "bi div 8 < length bs" using assms by (simp add: BPB_def less_mult_imp_div_less)
  have "first_free b nblk bs = Some bi \<longleftrightarrow>
      b + bi < nblk \<and> bit_free bs bi \<and> (\<forall>bj < bi. \<not> (b + bj < nblk \<and> bit_free bs bj))"
    using assms(2) unfolding first_free_def find_Some_iff by auto
  moreover have "first_free b nblk bs = None \<longleftrightarrow> (\<forall>bj < BPB. b + bj < nblk \<longrightarrow> \<not> bit_free bs bj)"
    unfolding first_free_def find_upt_None by auto
  ultimately show ?thesis using mark_used_free[OF l] mark_free_free[OF l] by blast
qed

lemma free_map_correct_witness:
  "bit_free (mark_free 9 (replicate BSIZE 0xFF)) 9 \<and> \<not> bit_free (mark_free 9 (replicate BSIZE 0xFF)) 10"
proof -
  have "(9 :: nat) < BPB" "\<not> bit_free (replicate BSIZE 0xFF) 10"
    by (simp_all add: BPB_def BSIZE_def bit_free_def bit_mask_def)
  then show ?thesis using free_map_correct[of "replicate BSIZE 0xFF" 9 0 0] by simp
qed

section \<open>Inodes\<close>

lemma encode_nth:
  assumes "i + SIZEOF_DINODE \<le> length bs" "length (i_addrs ip) = NDIRECT + 1" "k < length bs"
    "k < i \<or> i + SIZEOF_DINODE \<le> k"
  shows "encode_dinode i ip bs ! k = bs ! k"
  using assms by (auto simp: encode_dinode_def put_words_nth put32_nth put16_nth SIZEOF_DINODE_def NDIRECT_def)

lemma get16_put_words_other: "j + 1 < length bs \<Longrightarrow> j + 2 \<le> i \<Longrightarrow> get16 (put_words i ws bs) j = get16 bs j"
  by (rule get16_nth_cong) (auto intro!: put_words_nth)

lemma get32_put_words_other: "j + 3 < length bs \<Longrightarrow> j + 4 \<le> i \<Longrightarrow> get32 (put_words i ws bs) j = get32 bs j"
  by (rule get32_nth_cong) (auto intro!: put_words_nth)

lemma decode_encode_same:
  assumes "i + SIZEOF_DINODE \<le> length bs" "length (i_addrs ip) = NDIRECT + 1"
  shows "decode_dinode i (encode_dinode i ip bs) jp = jp\<lparr>i_type := i_type ip, i_major := i_major ip,
    i_minor := i_minor ip, i_nlink := i_nlink ip, i_size := i_size ip, i_addrs := i_addrs ip\<rparr>"
proof -
  have L: "i + 64 \<le> length bs" "length (i_addrs ip) = 13" using assms by (simp_all add: SIZEOF_DINODE_def NDIRECT_def)
  have a: "get_words (encode_dinode i ip bs) (i + 12) 13 = i_addrs ip"
    using get_put_words[of "i + 12" "i_addrs ip"] L by (simp add: encode_dinode_def)
  show ?thesis
    using L a by (simp add: decode_dinode_def NDIRECT_def)
      (simp add: encode_dinode_def get16_put_words_other get32_put_words_other get16_put32_other get16_put16_other)
qed

lemma get_words_cong: "(\<And>k. i \<le> k \<Longrightarrow> k < i + 4 * n \<Longrightarrow> bs ! k = cs ! k) \<Longrightarrow> get_words bs i n = get_words cs i n"
  unfolding get_words_def by (rule map_cong[OF refl], rule get32_nth_cong) auto

lemma decode_cong:
  assumes "\<And>k. i \<le> k \<Longrightarrow> k < i + SIZEOF_DINODE \<Longrightarrow> bs ! k = cs ! k"
  shows "decode_dinode i bs jp = decode_dinode i cs jp"
proof -
  have e: "bs ! k = cs ! k" if "i \<le> k" "k < i + 64" for k using assms that by (simp add: SIZEOF_DINODE_def)
  have "get16 bs (i + d) = get16 cs (i + d)" if "d + 2 \<le> 64" for d by (rule get16_nth_cong) (use e that in auto)
  from this[of 0] this[of 2] this[of 4] this[of 6]
  have h: "get16 bs i = get16 cs i" "get16 bs (i + 2) = get16 cs (i + 2)" "get16 bs (i + 4) = get16 cs (i + 4)"
    "get16 bs (i + 6) = get16 cs (i + 6)" by simp_all
  have "get32 bs (i + 8) = get32 cs (i + 8)" by (rule get32_nth_cong) (use e in auto)
  moreover have "get_words bs (i + 12) 13 = get_words cs (i + 12) 13" by (rule get_words_cong) (use e in auto)
  ultimately show ?thesis using h by (simp add: decode_dinode_def NDIRECT_def)
qed

lemma dinode_at_slot: "dinode_at n = unat n mod 8 * 64"
  by (simp add: dinode_at_def IPB_def SIZEOF_DINODE_def BSIZE_def unat_mod)

lemma dinode_fits [simp]: "length bs = BSIZE \<Longrightarrow> dinode_at n + SIZEOF_DINODE \<le> length bs"
  by (simp add: dinode_at_slot SIZEOF_DINODE_def BSIZE_def)

lemma decode_encode_other:
  assumes "length bs = BSIZE" "length (i_addrs ip) = NDIRECT + 1" "dinode_at m \<noteq> dinode_at n"
  shows "decode_dinode (dinode_at m) (encode_dinode (dinode_at n) ip bs) jp = decode_dinode (dinode_at m) bs jp"
proof (rule decode_cong)
  fix k assume k: "dinode_at m \<le> k" "k < dinode_at m + SIZEOF_DINODE"
  have "unat m mod 8 < unat n mod 8 \<or> unat n mod 8 < unat m mod 8" using assms(3) by (auto simp: dinode_at_slot)
  then have "k < dinode_at n \<or> dinode_at n + SIZEOF_DINODE \<le> k"
    using k by (auto simp: dinode_at_slot SIZEOF_DINODE_def)
  then show "encode_dinode (dinode_at n) ip bs ! k = bs ! k"
    using k dinode_fits[OF assms(1), of m] by (intro encode_nth[OF dinode_fits[OF assms(1)] assms(2)]) auto
qed

text \<open>
  C35. The inode that \<open>iupdate\<close> copies into a block is the inode that \<open>ilock\<close> reads back from the
  same slot, and the inode in every other slot of the block is unchanged.
\<close>

theorem dinode_roundtrip:
  assumes "length bs = BSIZE" "length (i_addrs ip) = NDIRECT + 1"
  shows "decode_dinode (dinode_at n) (encode_dinode (dinode_at n) ip bs) jp =
      jp\<lparr>i_type := i_type ip, i_major := i_major ip, i_minor := i_minor ip, i_nlink := i_nlink ip,
        i_size := i_size ip, i_addrs := i_addrs ip\<rparr> \<and>
    (\<forall>m. dinode_at m \<noteq> dinode_at n \<longrightarrow>
      decode_dinode (dinode_at m) (encode_dinode (dinode_at n) ip bs) jp = decode_dinode (dinode_at m) bs jp)"
  using decode_encode_same[OF dinode_fits[OF assms(1)] assms(2)] decode_encode_other[OF assms] by blast

definition some_inode :: inode where
  "some_inode = \<lparr>i_dev = 1, i_inum = 9, i_ref = 1, i_valid = True, i_type = 2, i_major = 0, i_minor = 0, i_nlink = 1,
     i_size = 700, i_addrs = [70, 71] @ replicate 11 0\<rparr>"

lemma dinode_roundtrip_witness:
  "decode_dinode (dinode_at 9) (encode_dinode (dinode_at 9) some_inode (replicate BSIZE 0)) some_inode = some_inode"
  using dinode_roundtrip[of "replicate BSIZE 0" some_inode 9 some_inode]
  by (simp add: some_inode_def NDIRECT_def)

end
