(* ===== verification/Fs_Tx.thy ===== *)
theory Fs_Tx
  imports Log_Write File_Map Inode_Disk
begin

text \<open>
  A thread inside a transaction of the file system: it reads blocks and changes them through the
  log. The block allocator.
\<close>

section \<open>The state in a transaction\<close>

text \<open>A byte as the kernel reads it through a pointer; \<open>None\<close> is a page fault.\<close>

definition seen_byte :: "kernel \<Rightarrow> u32 \<Rightarrow> u8 option" where
  "seen_byte s va = map_option (k_mem s) (reach s va)"

text \<open>What does not change during the transaction: the thread, the disk, the memory and the superblock.\<close>

record fsenv =
  e_thread :: "nat set \<times> nat \<times> u32"
  e_disk :: "u8 list"
  e_mem :: "u32 \<Rightarrow> u8 option"
  e_sb :: superblock

definition e_blocks :: "fsenv \<Rightarrow> nat" where
  "e_blocks E = length (e_disk E) div BSIZE"

text \<open>The blocks that no transaction changes: the boot block, the superblock and the log.\<close>

definition before_inodes :: "superblock \<Rightarrow> u32 \<Rightarrow> bool" where
  "before_inodes sb n \<longleftrightarrow> unat n < unat (sb_inodestart sb) \<or> in_log (unat (sb_logstart sb)) n"

text \<open>
  The thread holds the buffers \<open>H\<close>, the blocks have the content \<open>C\<close>, the transaction has changed the
  blocks \<open>es\<close>, and the inode cache is \<open>I\<close>.
\<close>

definition tx :: "fsenv \<Rightarrow> (nat \<Rightarrow> u32 option) \<Rightarrow> (u32 \<Rightarrow> u8 list) \<Rightarrow> u32 list \<Rightarrow> inode list \<Rightarrow> kernel \<Rightarrow> bool" where
  "tx E H C es I s \<longleftrightarrow> (\<exists>lg. view H (e_thread E) (e_disk E) C (set es) (k_dwrites s) lg s \<and>
       log_ok (e_blocks E) (unat (sb_logstart (e_sb E))) es lg \<and> 1 \<le> l_outstanding lg \<and> l_size lg = int LOGSIZE) \<and>
     (\<forall>e \<in> set es. \<not> before_inodes (e_sb E) e) \<and> seen_byte s = e_mem E \<and> k_sb s = e_sb E \<and> k_inodes s = I"

lemma seen_byte_cong: "k_mem t = k_mem s \<Longrightarrow> k_cpus t = k_cpus s \<Longrightarrow> k_me t = k_me s \<Longrightarrow> seen_byte t = seen_byte s"
  by (rule ext) (simp add: seen_byte_def reach_def mycpu_def)

lemma cache_only_mem: "cache_only s t \<Longrightarrow> seen_byte t = seen_byte s"
  by (rule seen_byte_cong) (auto simp: cache_only_def)

lemma tx_keep:
  assumes "tx E H C es I s" "\<And>lg. view H (e_thread E) (e_disk E) C (set es) (k_dwrites s) lg s \<Longrightarrow>
      view H' (e_thread E) (e_disk E) C' (set es) (k_dwrites s) lg t" "cache_only s t"
  shows "tx E H' C' es I t"
  using assms(1) assms(2) cache_onlyD(2-5)[OF assms(3)] cache_only_mem[OF assms(3)] by (auto simp: tx_def)

lemma tx_room: "length es + 1 < LOGSIZE \<Longrightarrow> card (dom H) \<le> 1 \<Longrightarrow> card (dom H) + card (set es) < NBUF"
  using card_length[of es] by (simp add: NBUF_def LOGSIZE_def MAXOPBLOCKS_def)

lemma tx_bread:
  assumes v: "tx E H C es I s" and n: "unat n < e_blocks E" "n \<notin> Map.ran H" and r: "card (dom H) + card (set es) < NBUF"
  shows "\<exists>b t. bread 1 n s = Ret b t \<and> b \<notin> dom H \<and> tx E (H(b \<mapsto> n)) C es I t"
proof -
  obtain lg where lg: "view H (e_thread E) (e_disk E) C (set es) (k_dwrites s) lg s" using v by (auto simp: tx_def)
  note vb = view_bread_only[OF _ n(1)[unfolded e_blocks_def] n(2) disjI2[OF r]]
  obtain b t where b: "bread 1 n s = Ret b t" "b \<notin> dom H" "cache_only s t" using vb[OF lg] by blast
  have "view (H(b \<mapsto> n)) (e_thread E) (e_disk E) C (set es) (k_dwrites s) l t"
    if "view H (e_thread E) (e_disk E) C (set es) (k_dwrites s) l s" for l
    using vb[OF that] b(1) by auto
  from tx_keep[OF v this b(3)] show ?thesis using b(1,2) by blast
qed

lemma tx_bdata: "tx E H C es I s \<Longrightarrow> H b = Some n \<Longrightarrow> bdata b s = Ret (C n) s"
  using view_bdata by (fastforce simp: tx_def)

lemma tx_len: "tx E H C es I s \<Longrightarrow> unat n < e_blocks E \<Longrightarrow> length (C n) = BSIZE"
  using view_len by (fastforce simp: tx_def e_blocks_def)

lemma tx_lens: "tx E H C es I s \<Longrightarrow> \<forall>n. unat n < e_blocks E \<longrightarrow> length (C n) = BSIZE"
  using tx_len by blast

lemma tx_clean: "tx E H C es I s \<Longrightarrow> n \<notin> Map.ran H \<Longrightarrow> n \<in> set es \<or> C n = disk_block (e_disk E) (unat n)"
  using view_clean by (fastforce simp: tx_def)

lemma tx_brelse:
  assumes v: "tx E H C es I s" and b: "H b = Some n" and c: "n \<in> set es \<or> C n = disk_block (e_disk E) (unat n)"
  shows "\<exists>t. brelse b s = Ret () t \<and> tx E (H(b := None)) C es I t"
proof -
  obtain lg where lg: "view H (e_thread E) (e_disk E) C (set es) (k_dwrites s) lg s" using v by (auto simp: tx_def)
  note vb = view_brelse_only[where H = H and b = b and n = n and C = C, OF _ b c]
  obtain t where t: "brelse b s = Ret () t" "cache_only s t" using vb[OF lg] by blast
  have "view (H(b := None)) (e_thread E) (e_disk E) C (set es) (k_dwrites s) l t"
    if "view H (e_thread E) (e_disk E) C (set es) (k_dwrites s) l s" for l
    using vb[OF that] t(1) by auto
  from tx_keep[OF v this t(2)] show ?thesis using t(1) by blast
qed

lemma tx_set_bdata:
  assumes v: "tx E H C es I s" and b: "H b = Some n" and f: "length (f (C n)) = BSIZE"
  shows "\<exists>t. set_bdata b f s = Ret () t \<and> tx E H (C(n := f (C n))) es I t"
proof -
  obtain lg where lg: "view H (e_thread E) (e_disk E) C (set es) (k_dwrites s) lg s" using v by (auto simp: tx_def)
  note vb = view_set_bdata_only[where f = f and H = H and b = b and n = n and C = C, OF _ b f]
  obtain t where t: "set_bdata b f s = Ret () t" "cache_only s t" using vb[OF lg] by blast
  have "view H (e_thread E) (e_disk E) (C(n := f (C n))) (set es) (k_dwrites s) l t"
    if "view H (e_thread E) (e_disk E) C (set es) (k_dwrites s) l s" for l
    using vb[OF that] t(1) by auto
  from tx_keep[OF v this t(2)] show ?thesis using t(1) by blast
qed

lemma set_log_add [simp]: "set (log_add n es) = insert n (set es)"
  by (auto simp: log_add_def)

lemma length_log_add: "length (log_add n es) \<le> Suc (length es)"
  by (simp add: log_add_def)

lemma tx_log_write:
  assumes v: "tx E H C es I s" and b: "H b = Some n" and n: "unat n < e_blocks E" "\<not> before_inodes (e_sb E) n"
    and l: "length es + 1 < LOGSIZE"
  shows "\<exists>t. log_write b s = Ret () t \<and> tx E H C (log_add n es) I t"
proof -
  obtain lg where lg: "view H (e_thread E) (e_disk E) C (set es) (k_dwrites s) lg s"
    "log_ok (e_blocks E) (unat (sb_logstart (e_sb E))) es lg" "1 \<le> l_outstanding lg" "l_size lg = int LOGSIZE"
    using v by (auto simp: tx_def)
  have nl: "\<not> in_log (unat (sb_logstart (e_sb E))) n" using n(2) by (simp add: before_inodes_def)
  have "int (length es) < l_size lg - 1" using l lg(4) by simp
  from log_write_only[OF lg(1) b lg(2) n(1) nl lg(3) l this] obtain t lg' where
    t: "log_write b s = Ret () t" "view H (e_thread E) (e_disk E) C (insert n (set es)) (k_dwrites s) lg' t"
      "log_ok (e_blocks E) (unat (sb_logstart (e_sb E))) (log_add n es) lg'" "l_outstanding lg' = l_outstanding lg"
      "l_size lg' = l_size lg" "log_only s t" by blast
  have "k_sb t = k_sb s" "k_inodes t = k_inodes s" "k_dwrites t = k_dwrites s" using t(6) by (auto simp: log_only_def)
  moreover have "seen_byte t = seen_byte s" using t(6) by (intro seen_byte_cong) (auto simp: log_only_def)
  ultimately show ?thesis using t v lg(3,4) n(2) by (auto simp: tx_def)
qed

text \<open>Reading a block, and changing one.\<close>

lemma upd_None: "b \<notin> dom H \<Longrightarrow> (H(b \<mapsto> n))(b := None) = H"
  by (auto simp: fun_eq_iff)

lemma tx_read:
  assumes v: "tx E H C es I s" and n: "unat n < e_blocks E" "n \<notin> Map.ran H" and r: "card (dom H) + card (set es) < NBUF"
  shows "\<exists>b t u. bread 1 n s = Ret b t \<and> bdata b t = Ret (C n) t \<and> brelse b t = Ret () u \<and> tx E H C es I u"
proof -
  obtain b t where b: "bread 1 n s = Ret b t" "b \<notin> dom H" "tx E (H(b \<mapsto> n)) C es I t" using tx_bread[OF v n r] by blast
  have "n \<in> set es \<or> C n = disk_block (e_disk E) (unat n)" by (rule tx_clean[OF v n(2)])
  from tx_brelse[OF b(3) fun_upd_same this] obtain u where "brelse b t = Ret () u" "tx E ((H(b \<mapsto> n))(b := None)) C es I u"
    by blast
  then show ?thesis using b tx_bdata[OF b(3), of b n] upd_None[OF b(2)] by auto
qed

lemma tx_update:
  assumes v: "tx E H C es I s" and n: "unat n < e_blocks E" "n \<notin> Map.ran H" and r: "card (dom H) \<le> 1"
    and log: "\<not> before_inodes (e_sb E) n" "length es + 1 < LOGSIZE"
  shows "\<exists>b t. bread 1 n s = Ret b t \<and> bdata b t = Ret (C n) t \<and> (\<forall>f. length (f (C n)) = BSIZE \<longrightarrow>
    (\<exists>u v w. set_bdata b f t = Ret () u \<and> log_write b u = Ret () v \<and> brelse b v = Ret () w \<and>
      tx E H (C(n := f (C n))) (log_add n es) I w))"
proof -
  obtain b t where b: "bread 1 n s = Ret b t" "b \<notin> dom H" "tx E (H(b \<mapsto> n)) C es I t"
    using tx_bread[OF v n tx_room[OF log(2) r]] by blast
  have "\<exists>u v w. set_bdata b f t = Ret () u \<and> log_write b u = Ret () v \<and> brelse b v = Ret () w \<and>
      tx E H (C(n := f (C n))) (log_add n es) I w" if f: "length (f (C n)) = BSIZE" for f
  proof -
    obtain u where u: "set_bdata b f t = Ret () u" "tx E (H(b \<mapsto> n)) (C(n := f (C n))) es I u"
      using tx_set_bdata[where f = f, OF b(3) fun_upd_same f] by blast
    obtain w where w: "log_write b u = Ret () w" "tx E (H(b \<mapsto> n)) (C(n := f (C n))) (log_add n es) I w"
      using tx_log_write[OF u(2) fun_upd_same n(1) log] by blast
    have "n \<in> set (log_add n es) \<or> (C(n := f (C n))) n = disk_block (e_disk E) (unat n)" by simp
    from tx_brelse[OF w(2) fun_upd_same this, unfolded upd_None[OF b(2)]] show ?thesis using u w by blast
  qed
  then show ?thesis using b tx_bdata[OF b(3), of b n] by auto
qed

section \<open>The layout of the disk\<close>

definition data_start :: "superblock \<Rightarrow> nat" where
  "data_start sb = unat (sb_bmapstart sb) + unat (sb_size sb) div BPB + 1"

definition layout :: "nat \<Rightarrow> superblock \<Rightarrow> bool" where
  "layout N sb \<longleftrightarrow> unat (sb_size sb) = N \<and> N + BPB < 2 ^ 32 \<and> 2 \<le> unat (sb_logstart sb) \<and>
     unat (sb_logstart sb) + LOGSIZE \<le> unat (sb_inodestart sb) \<and>
     unat (sb_inodestart sb) + unat (sb_ninodes sb) div 8 + 1 \<le> unat (sb_bmapstart sb) \<and> data_start sb \<le> N"

text \<open>The free map; every block before the data is in use.\<close>

definition block_used :: "superblock \<Rightarrow> (u32 \<Rightarrow> u8 list) \<Rightarrow> u32 \<Rightarrow> bool" where
  "block_used sb C b \<longleftrightarrow> \<not> bit_free (C (BBLOCK b sb)) (unat b mod BPB)"

definition allocated :: "superblock \<Rightarrow> (u32 \<Rightarrow> u8 list) \<Rightarrow> u32 \<Rightarrow> bool" where
  "allocated sb C b \<longleftrightarrow> data_start sb \<le> unat b \<and> unat b < unat (sb_size sb) \<and> block_used sb C b"

definition fs_ok :: "superblock \<Rightarrow> (u32 \<Rightarrow> u8 list) \<Rightarrow> bool" where
  "fs_ok sb C \<longleftrightarrow> (\<forall>b. unat b < data_start sb \<longrightarrow> block_used sb C b)"

lemma unat_BBLOCK:
  assumes "layout N sb" "unat b < N"
  shows "unat (BBLOCK b sb) = unat (sb_bmapstart sb) + unat b div BPB"
    "unat (sb_bmapstart sb) \<le> unat (BBLOCK b sb)" "unat (BBLOCK b sb) < data_start sb" "unat (BBLOCK b sb) < N"
proof -
  have le: "unat b div BPB \<le> N div BPB" using assms(2) by (intro div_le_mono) simp
  have L: "unat (sb_bmapstart sb) + N div BPB + 1 \<le> N" "N < 2 ^ 32" using assms(1) by (auto simp: layout_def data_start_def)
  have bp: "unat (of_nat BPB :: u32) = BPB" by (simp add: BPB_def BSIZE_def)
  show 1: "unat (BBLOCK b sb) = unat (sb_bmapstart sb) + unat b div BPB"
    using L le bp by (simp add: BBLOCK_def unat_word_ariths unat_div)
  show "unat (sb_bmapstart sb) \<le> unat (BBLOCK b sb)" "unat (BBLOCK b sb) < data_start sb" "unat (BBLOCK b sb) < N"
    using 1 L le assms(1) by (auto simp: data_start_def layout_def)
qed

lemma not_in_log: "layout N sb \<Longrightarrow> unat (sb_inodestart sb) \<le> unat n \<Longrightarrow> \<not> before_inodes sb n"
  by (auto simp: layout_def in_log_def before_inodes_def)

lemma layout_order: "layout N sb \<Longrightarrow> unat (sb_inodestart sb) \<le> unat (sb_bmapstart sb)" "layout N sb \<Longrightarrow> unat (sb_bmapstart sb) \<le> data_start sb"
  "layout N sb \<Longrightarrow> data_start sb \<le> N" "layout N sb \<Longrightarrow> unat (sb_size sb) = N"
  by (auto simp: layout_def data_start_def)

section \<open>The block allocator\<close>

lemma bzero_ok:
  assumes v: "tx E H C es I s" and n: "unat n < e_blocks E" "n \<notin> Map.ran H" and r: "card (dom H) \<le> 1"
    and log: "\<not> before_inodes (e_sb E) n" "length es + 1 < LOGSIZE"
  shows "\<exists>t. bzero 1 n s = Ret () t \<and> tx E H (C(n := replicate BSIZE 0)) (log_add n es) I t"
proof -
  obtain b t where b: "bread 1 n s = Ret b t" and f: "\<And>f. length (f (C n)) = BSIZE \<Longrightarrow>
    \<exists>u v w. set_bdata b f t = Ret () u \<and> log_write b u = Ret () v \<and> brelse b v = Ret () w \<and>
      tx E H (C(n := f (C n))) (log_add n es) I w"
    using tx_update[OF v n r log] by blast
  then show ?thesis using f[of "\<lambda>_. replicate BSIZE 0"] by (auto simp: bzero_def kbind_def)
qed

lemma first_free_Some:
  "first_free b N bs = Some bi \<Longrightarrow> bi < BPB \<and> b + bi < N \<and> bit_free bs bi \<and> (\<forall>j < bi. \<not> bit_free bs j)"
  by (auto simp: first_free_def dest!: find_upt_Some)

lemma first_free_None: "first_free b N bs = None \<longleftrightarrow> (\<forall>j < BPB. b + j < N \<longrightarrow> \<not> bit_free bs j)"
  by (simp add: first_free_def find_upt_None)

lemma length_mark_used [simp]: "length (mark_used bi bs) = length bs"
  by (simp add: mark_used_def)

text \<open>The blocks of one group share a block of the free map.\<close>

lemma group_block:
  assumes "k * BPB + j < N" "j < BPB" "N < 2 ^ 32"
  shows "BBLOCK (of_nat (k * BPB + j)) sb = BBLOCK (of_nat (k * BPB)) sb" "unat (of_nat (k * BPB + j) :: u32) = k * BPB + j"
    "(k * BPB + j) mod BPB = j"
proof -
  have bp: "unat (of_nat BPB :: u32) = BPB" by (simp add: BPB_def BSIZE_def)
  show u: "unat (of_nat (k * BPB + j) :: u32) = k * BPB + j" using assms by (simp add: unat_of_nat del: of_nat_add of_nat_mult)
  have "k * BPB < 2 ^ 32" using assms by simp
  then have u0: "unat (of_nat (k * BPB) :: u32) = k * BPB" by (simp add: unat_of_nat del: of_nat_mult)
  have "(k * BPB + j) div BPB = k" "k * BPB div BPB = k" "(k * BPB + j) mod BPB = j" using assms(2) by simp_all
  then show "BBLOCK (of_nat (k * BPB + j)) sb = BBLOCK (of_nat (k * BPB)) sb" "(k * BPB + j) mod BPB = j"
    using u u0 bp by (simp_all add: BBLOCK_def word_unat_eq_iff unat_div unat_word_ariths)
qed

text \<open>
  The entries of the log that a transaction uses, if it still changes every block of the free map:
  the first allocation counts the block of the map already.
\<close>

definition bitmaps :: "superblock \<Rightarrow> u32 set" where
  "bitmaps sb = {n. unat (sb_bmapstart sb) \<le> unat n \<and> unat n < data_start sb}"

definition log_use :: "superblock \<Rightarrow> u32 list \<Rightarrow> nat" where
  "log_use sb es = length es + card (bitmaps sb - set es)"

lemma log_use_length: "length es \<le> log_use sb es"
  by (simp add: log_use_def)

lemma log_use_add: "log_use sb (log_add n es) \<le> log_use sb es + 1"
proof -
  have "card (bitmaps sb - set (log_add n es)) \<le> card (bitmaps sb - set es)" by (intro card_mono) auto
  then show ?thesis using length_log_add[of n es] by (simp add: log_use_def)
qed

lemma log_use_bitmap:
  assumes "layout N sb" "unat b < N"
  shows "log_use sb (log_add (BBLOCK b sb) es) = log_use sb es"
proof (cases "BBLOCK b sb \<in> set es")
  case False
  have "BBLOCK b sb \<in> bitmaps sb - set es" using unat_BBLOCK(2,3)[OF assms] False by (simp add: bitmaps_def)
  then have "Suc (card (bitmaps sb - set es - {BBLOCK b sb})) = card (bitmaps sb - set es)"
    by (intro card_Suc_Diff1) simp_all
  moreover have "bitmaps sb - set (log_add (BBLOCK b sb) es) = bitmaps sb - set es - {BBLOCK b sb}" by auto
  ultimately show ?thesis using False by (simp add: log_use_def log_add_def)
qed (simp add: log_add_def)

definition after_balloc :: "superblock \<Rightarrow> u32 \<Rightarrow> (u32 \<Rightarrow> u8 list) \<Rightarrow> u32 \<Rightarrow> u8 list" where
  "after_balloc sb a C = (C(BBLOCK a sb := mark_used (unat a mod BPB) (C (BBLOCK a sb))))(a := replicate BSIZE 0)"

lemma balloc_ok:
  assumes v: "tx E H C es I s" and lay: "layout (e_blocks E) (e_sb E)" and fs: "fs_ok (e_sb E) C"
    and H: "\<And>n. n \<in> Map.ran H \<Longrightarrow> allocated (e_sb E) C n" "card (dom H) \<le> 1"
    and l: "log_use (e_sb E) es + 1 < LOGSIZE"
  shows "if \<forall>b. unat b < e_blocks E \<longrightarrow> block_used (e_sb E) C b then balloc 1 s = Panic ''balloc: out of blocks''
    else \<exists>a t. balloc 1 s = Ret a t \<and> unat a < e_blocks E \<and> \<not> block_used (e_sb E) C a \<and>
      (\<forall>b. unat b < unat a \<longrightarrow> block_used (e_sb E) C b) \<and>
      tx E H (after_balloc (e_sb E) a C) (log_add a (log_add (BBLOCK a (e_sb E)) es)) I t"
proof -
  let ?sb = "e_sb E" and ?N = "e_blocks E"
  let ?bs = "\<lambda>b. C (BBLOCK (of_nat b) ?sb)"
  let ?P = "\<lambda>b. first_free b ?N (?bs b) \<noteq> None"
  let ?body = "\<lambda>b. kbind (bread 1 (BBLOCK (of_nat b) ?sb)) (\<lambda>bp.
       kbind (bdata bp) (\<lambda>bs. case first_free b ?N bs of
         None \<Rightarrow> kbind (brelse bp) (\<lambda>_. kret None)
       | Some bi \<Rightarrow> kbind (kseq [
           set_bdata bp (mark_used bi),
           log_write bp,
           brelse bp,
           bzero 1 (of_nat (b + bi))]) (\<lambda>_. kret (Some (of_nat (b + bi) :: u32)))))"
  have N: "?N < 2 ^ 32" "unat (sb_size ?sb) = ?N" using lay by (auto simp: layout_def)
  have l1: "length es + 1 < LOGSIZE" using l by (simp add: log_use_def)
  have grp: "b < ?N \<and> (\<exists>k. b = k * BPB)" if bm: "b \<in> set (map_groups ?N)" for b
  proof -
    obtain k where k: "b = k * BPB" "k \<in> {0..<(?N + BPB - 1) div BPB}" using bm unfolding map_groups_def set_map set_upt by blast
    have "Suc k * BPB \<le> (?N + BPB - 1) div BPB * BPB" using k(2) by (intro mult_le_mono1) simp_all
    also have "\<dots> \<le> ?N + BPB - 1" by (rule div_times_less_eq_dividend)
    finally show ?thesis using k(1) by (auto simp: BPB_def BSIZE_def)
  qed
  have mb: "unat (BBLOCK (of_nat b) ?sb) < ?N" "BBLOCK (of_nat b) ?sb \<notin> Map.ran H"
    "\<not> before_inodes ?sb (BBLOCK (of_nat b) ?sb)" if "b \<in> set (map_groups ?N)" for b
  proof -
    have "unat (of_nat b :: u32) < ?N" using grp[OF that] N by (simp add: unat_of_nat)
    note B = unat_BBLOCK[OF lay this]
    show "unat (BBLOCK (of_nat b) ?sb) < ?N" by (rule B(4))
    show "BBLOCK (of_nat b) ?sb \<notin> Map.ran H" using H(1) B(3) by (force simp: allocated_def)
    show "\<not> before_inodes ?sb (BBLOCK (of_nat b) ?sb)"
      using not_in_log[OF lay] B(2) layout_order(1)[OF lay] by force
  qed
  have "case find ?P (map_groups ?N) of
      None \<Rightarrow> \<exists>t. kfind (map_groups ?N) ?body s = Ret None t \<and> tx E H C es I t
    | Some j \<Rightarrow> \<exists>u rest. tx E H C es I u \<and> kfind (map_groups ?N) ?body s =
       kbind (?body j) (\<lambda>r. case r of None \<Rightarrow> kfind rest ?body | Some x \<Rightarrow> kret (Some x)) u"
  proof (rule kfind_search[where Q = "tx E H C es I", OF v])
    fix b u assume b: "b \<in> set (map_groups ?N)" and u: "tx E H C es I u" and p: "\<not> ?P b"
    from tx_read[OF u mb(1,2)[OF b] tx_room[OF l1 H(2)]] p
    show "\<exists>t. ?body b u = Ret None t \<and> tx E H C es I t" by (auto simp: kbind_def kret_def)
  qed
  moreover have run: "balloc 1 s = kbind (kfind (map_groups ?N) ?body) (\<lambda>found. case found of
       Some bno \<Rightarrow> kret bno | None \<Rightarrow> kpanic ''balloc: out of blocks'') s"
    using v N(2) by (simp add: balloc_def kbind_def kget_def tx_def)
  have used: "block_used ?sb C c \<longleftrightarrow> \<not> bit_free (?bs (unat c div BPB * BPB)) (unat c mod BPB)" if "unat c < ?N" for c
    using group_block(1)[of "unat c div BPB" "unat c mod BPB" ?N ?sb] that N(1) mod_less_divisor[of BPB "unat c"]
    by (simp add: block_used_def BPB_def BSIZE_def)
  note search = calculation
  show ?thesis
  proof (cases "find ?P (map_groups ?N)")
    case None
    have "block_used ?sb C c" if c: "unat c < ?N" for c
    proof -
      have "unat c div BPB * BPB \<in> set (map_groups ?N)"
        using c by (auto simp: map_groups_def BPB_def BSIZE_def)
      with None have "first_free (unat c div BPB * BPB) ?N (?bs (unat c div BPB * BPB)) = None" by (auto simp: find_None_iff)
      then have "\<not> bit_free (?bs (unat c div BPB * BPB)) (unat c mod BPB)"
        using c by (simp add: first_free_None BPB_def BSIZE_def)
      then show ?thesis using used[OF c] by simp
    qed
    moreover have "balloc 1 s = Panic ''balloc: out of blocks''"
      using search None run by (auto simp: kbind_def kpanic_def)
    ultimately show ?thesis by simp
  next
    case (Some b)
    then obtain k where k: "k < length (map_groups ?N)" "?P (map_groups ?N ! k)" "b = map_groups ?N ! k"
      "\<forall>j < k. \<not> ?P (map_groups ?N ! j)" by (auto simp: find_Some_iff)
    have nth: "map_groups ?N ! j = j * BPB" if "j \<le> k" for j using k(1) that by (simp add: map_groups_def)
    have b: "b = k * BPB" "b \<in> set (map_groups ?N)" using nth[of k] k(1,3) nth_mem[OF k(1)] by simp_all
    obtain bi where bi: "first_free b ?N (?bs b) = Some bi" using k(2,3) by auto
    note ff = first_free_Some[OF bi]
    define a where "a = (of_nat (b + bi) :: u32)"
    have a: "BBLOCK a ?sb = BBLOCK (of_nat b) ?sb" "unat a = b + bi" "unat a mod BPB = bi"
      using group_block(1)[of k bi ?N ?sb] group_block(2,3)[of k bi ?N] ff N(1) by (simp_all add: a_def b(1))
    have aN: "unat a < ?N" using ff a(2) by simp
    have free: "\<not> block_used ?sb C a" using ff a by (simp add: block_used_def)
    have first: "block_used ?sb C c" if "unat c < unat a" for c
    proof -
      have c: "unat c < ?N" using that aN by simp
      have "unat c div BPB \<le> unat a div BPB" using that by (intro div_le_mono) simp
      moreover have "unat a div BPB = k" using a(2) b(1) ff by simp
      ultimately consider "unat c div BPB < k" | "unat c div BPB = k" by linarith
      then have "\<not> bit_free (?bs (unat c div BPB * BPB)) (unat c mod BPB)"
      proof cases
        case 1
        then have "first_free (unat c div BPB * BPB) ?N (?bs (unat c div BPB * BPB)) = None"
          using k(4) nth[of "unat c div BPB"] by auto
        then show ?thesis using c by (simp add: first_free_None BPB_def BSIZE_def)
      next
        case 2
        then have "unat c = b + unat c mod BPB" using b(1) div_mult_mod_eq[of "unat c" BPB] by simp
        then have "unat c mod BPB < bi" using that a(2) by linarith
        then show ?thesis using ff 2 b(1) by simp
      qed
      then show ?thesis using used[OF c] by simp
    qed
    have ds: "data_start ?sb \<le> unat a" using fs free by (auto simp: fs_ok_def not_le[symmetric])
    have aH: "a \<notin> Map.ran H" "\<not> before_inodes ?sb a"
      using H(1) free not_in_log[OF lay, of a] ds layout_order[OF lay] by (auto simp: allocated_def)
    obtain u rest where u: "tx E H C es I u" "kfind (map_groups ?N) ?body s =
       kbind (?body b) (\<lambda>r. case r of None \<Rightarrow> kfind rest ?body | Some x \<Rightarrow> kret (Some x)) u"
      using search Some by auto
    obtain bp v where bp: "bread 1 (BBLOCK (of_nat b) ?sb) u = Ret bp v" "bdata bp v = Ret (?bs b) v"
      and f: "\<And>f. length (f (?bs b)) = BSIZE \<Longrightarrow>
      \<exists>w x y. set_bdata bp f v = Ret () w \<and> log_write bp w = Ret () x \<and> brelse bp x = Ret () y \<and>
        tx E H (C(BBLOCK (of_nat b) ?sb := f (?bs b))) (log_add (BBLOCK (of_nat b) ?sb) es) I y"
      using tx_update[OF u(1) mb(1,2)[OF b(2)] H(2) mb(3)[OF b(2)] l1] by blast
    obtain w x y where w: "set_bdata bp (mark_used bi) v = Ret () w" "log_write bp w = Ret () x" "brelse bp x = Ret () y"
        "tx E H (C(BBLOCK (of_nat b) ?sb := mark_used bi (?bs b))) (log_add (BBLOCK (of_nat b) ?sb) es) I y"
      using f[of "mark_used bi"] tx_len[OF u(1) mb(1)[OF b(2)]] by auto
    have l2: "length (log_add (BBLOCK (of_nat b) ?sb) es) + 1 < LOGSIZE"
      using l log_use_bitmap[OF lay aN, of es] log_use_length[of "log_add (BBLOCK a ?sb) es" ?sb] by (simp add: a(1))
    obtain t where t: "bzero 1 a y = Ret () t" "tx E H (after_balloc ?sb a C) (log_add a (log_add (BBLOCK a ?sb) es)) I t"
      using bzero_ok[OF w(4) aN aH(1) H(2) aH(2) l2] unfolding after_balloc_def a(1,3) by blast
    have "?body b u = Ret (Some a) t"
      using bp w(1-3) t(1) bi by (simp add: kbind_def kret_def a_def)
    then have "balloc 1 s = Ret a t" using run u(2) by (simp add: kbind_def kret_def)
    then show ?thesis using aN free first t(2) by auto
  qed
qed

text \<open>What the allocation of \<open>a\<close> changes.\<close>

lemma after_balloc_ok:
  assumes lay: "layout N sb" and fs: "fs_ok sb C" and a: "unat a < N" "\<not> block_used sb C a"
    and len: "\<forall>n. unat n < N \<longrightarrow> length (C n) = BSIZE"
  shows "unat c < N \<Longrightarrow> block_used sb (after_balloc sb a C) c \<longleftrightarrow> c = a \<or> block_used sb C c"
    "fs_ok sb (after_balloc sb a C)" "data_start sb \<le> unat a" "allocated sb (after_balloc sb a C) a"
    "after_balloc sb a C a = replicate BSIZE 0" "c \<noteq> a \<Longrightarrow> c \<notin> bitmaps sb \<Longrightarrow> after_balloc sb a C c = C c"
    "unat n < N \<Longrightarrow> length (after_balloc sb a C n) = BSIZE"
proof -
  note B = unat_BBLOCK[OF lay]
  show ds: "data_start sb \<le> unat a" using fs a(2) by (auto simp: fs_ok_def not_le[symmetric])
  have map: "after_balloc sb a C (BBLOCK c sb) = (if BBLOCK c sb = BBLOCK a sb then mark_used (unat a mod BPB) (C (BBLOCK a sb)) else C (BBLOCK c sb))"
    if "unat c < N" for c
    using B(3)[OF that] ds by (auto simp: after_balloc_def)
  have bit: "(unat a mod BPB) div 8 < length (C (BBLOCK a sb))"
    using len[rule_format, OF B(4)[OF a(1)]] by (simp add: BPB_def less_mult_imp_div_less BSIZE_def)
  show used: "block_used sb (after_balloc sb a C) c \<longleftrightarrow> c = a \<or> block_used sb C c" if c: "unat c < N" for c
  proof (cases "BBLOCK c sb = BBLOCK a sb")
    case True
    then have "unat c div BPB = unat a div BPB" using B(1)[OF c] B(1)[OF a(1)] by simp
    then have "unat c mod BPB = unat a mod BPB \<longleftrightarrow> c = a" by (metis div_mult_mod_eq word_unat_eq_iff)
    then show ?thesis using True map[OF c] mark_used_free[OF bit] by (auto simp: block_used_def)
  next
    case False
    then show ?thesis using map[OF c] by (auto simp: block_used_def)
  qed
  show "fs_ok sb (after_balloc sb a C)"
    using fs used layout_order(3)[OF lay] by (auto simp: fs_ok_def)
  show "allocated sb (after_balloc sb a C) a"
    using used[OF a(1)] ds a(1) layout_order(4)[OF lay] by (simp add: allocated_def)
  show "after_balloc sb a C a = replicate BSIZE 0" by (simp add: after_balloc_def)
  show "after_balloc sb a C c = C c" if "c \<noteq> a" "c \<notin> bitmaps sb"
    using that B(2,3)[OF a(1)] by (auto simp: after_balloc_def bitmaps_def)
  show "length (after_balloc sb a C n) = BSIZE" if "unat n < N"
    using len[rule_format, OF that] len[rule_format, OF B(4)[OF a(1)]] by (simp add: after_balloc_def)
qed

text \<open>
  C12. \<open>balloc\<close> returns the first free block of the disk, zeroed, and marks it in the free map; no
  other block changes its mark, and no other block outside the map changes at all. It panics
  exactly when no block is free.
\<close>

theorem balloc_takes_first_free:
  assumes "tx E Map.empty C es I s" "layout (e_blocks E) (e_sb E)" "fs_ok (e_sb E) C" "log_use (e_sb E) es + 1 < LOGSIZE"
  shows "if \<forall>b. unat b < e_blocks E \<longrightarrow> block_used (e_sb E) C b then balloc 1 s = Panic ''balloc: out of blocks''
    else \<exists>a t C' es'. balloc 1 s = Ret a t \<and> tx E Map.empty C' es' I t \<and> unat a < e_blocks E \<and>
      \<not> block_used (e_sb E) C a \<and> (\<forall>b. unat b < unat a \<longrightarrow> block_used (e_sb E) C b) \<and> C' a = replicate BSIZE 0 \<and>
      (\<forall>b. unat b < e_blocks E \<longrightarrow> (block_used (e_sb E) C' b \<longleftrightarrow> b = a \<or> block_used (e_sb E) C b)) \<and>
      (\<forall>b. b \<noteq> a \<longrightarrow> b \<notin> bitmaps (e_sb E) \<longrightarrow> C' b = C b)"
proof (cases "\<forall>b. unat b < e_blocks E \<longrightarrow> block_used (e_sb E) C b")
  case True
  then show ?thesis using balloc_ok[OF assms(1-3) _ _ assms(4)] by simp
next
  case False
  then obtain a t where a: "balloc 1 s = Ret a t" "unat a < e_blocks E" "\<not> block_used (e_sb E) C a"
    "\<forall>b. unat b < unat a \<longrightarrow> block_used (e_sb E) C b"
    "tx E Map.empty (after_balloc (e_sb E) a C) (log_add a (log_add (BBLOCK a (e_sb E)) es)) I t"
    using balloc_ok[OF assms(1-3) _ _ assms(4), unfolded if_not_P[OF False]] by auto
  note ab = after_balloc_ok[OF assms(2,3) a(2,3) tx_lens[OF assms(1)]]
  show ?thesis unfolding if_not_P[OF False] using a ab(1,5,6)
    by (intro exI[of _ a] exI[of _ t] exI[of _ "after_balloc (e_sb E) a C"]
        exI[of _ "log_add a (log_add (BBLOCK a (e_sb E)) es)"]) simp
qed

end
