(* ===== verification/File_Write.thy ===== *)
theory File_Write
  imports Fs_Tx
begin

text \<open>
  Writing files inside a transaction: \<open>bmap\<close> finds or allocates the block, \<open>writei\<close> puts the bytes
  into the file, \<open>iupdate\<close> copies the inode to its block.
\<close>

section \<open>A file that is written\<close>

text \<open>The file in slot \<open>ip\<close> of the inode cache.\<close>

definition file_at :: "fsenv \<Rightarrow> nat \<Rightarrow> (u32 \<Rightarrow> u8 list) \<Rightarrow> inode list \<Rightarrow> bool" where
  "file_at E ip C I \<longleftrightarrow> layout (e_blocks E) (e_sb E) \<and> fs_ok (e_sb E) C \<and> ip < length I \<and> i_dev (I ! ip) = 1 \<and>
     unat (i_inum (I ! ip)) < unat (sb_ninodes (e_sb E)) \<and> file_ok (allocated (e_sb E) C) C (I ! ip)"

definition free_blocks :: "fsenv \<Rightarrow> (u32 \<Rightarrow> u8 list) \<Rightarrow> u32 set" where
  "free_blocks E C = {b. unat b < e_blocks E \<and> \<not> block_used (e_sb E) C b}"

text \<open>
  What an operation on the file leaves alone: the inodes but for the addresses of this one, the
  blocks of other files, and the blocks before the free map. The blocks it gets were free.
\<close>

definition evolves :: "fsenv \<Rightarrow> nat \<Rightarrow> (u32 \<Rightarrow> u8 list) \<Rightarrow> inode list \<Rightarrow> (u32 \<Rightarrow> u8 list) \<Rightarrow> inode list \<Rightarrow> bool" where
  "evolves E ip C I C' I' \<longleftrightarrow>
     I' = I[ip := (I ! ip)\<lparr>i_addrs := i_addrs (I' ! ip)\<rparr>] \<and>
     (\<forall>b. unat b < e_blocks E \<longrightarrow> block_used (e_sb E) C b \<longrightarrow> block_used (e_sb E) C' b) \<and>
     blocks_of C (I ! ip) \<subseteq> blocks_of C' (I' ! ip) \<and>
     blocks_of C' (I' ! ip) \<subseteq> blocks_of C (I ! ip) \<union> free_blocks E C \<and>
     (\<forall>b. b \<notin> blocks_of C (I ! ip) \<longrightarrow> allocated (e_sb E) C b \<or> unat b < unat (sb_bmapstart (e_sb E)) \<longrightarrow> C' b = C b)"

lemma evolves_refl: "ip < length I \<Longrightarrow> evolves E ip C I C I"
  by (auto simp: evolves_def list_eq_iff_nth_eq nth_list_update)

lemma allocated_used: "allocated sb C b \<Longrightarrow> block_used sb C b"
  by (simp add: allocated_def)

lemma evolves_trans:
  assumes a: "evolves E ip C I C1 I1" and b: "evolves E ip C1 I1 C2 I2" and f: "file_at E ip C I"
  shows "evolves E ip C I C2 I2"
proof -
  have lay: "layout (e_blocks E) (e_sb E)" and fs: "fs_ok (e_sb E) C" and ip: "ip < length I" using f by (simp_all add: file_at_def)
  have I1: "I1 = I[ip := (I ! ip)\<lparr>i_addrs := i_addrs (I1 ! ip)\<rparr>]" and I2: "I2 = I1[ip := (I1 ! ip)\<lparr>i_addrs := i_addrs (I2 ! ip)\<rparr>]"
    using a b by (simp_all only: evolves_def)
  have "I2 = I[ip := (I ! ip)\<lparr>i_addrs := i_addrs (I2 ! ip)\<rparr>]"
    by (subst I2, subst (1 2) I1) (simp add: ip)
  moreover have N: "unat (sb_size (e_sb E)) = e_blocks E" "data_start (e_sb E) \<le> e_blocks E" "unat (sb_bmapstart (e_sb E)) \<le> data_start (e_sb E)"
    using layout_order[OF lay] by simp_all
  have u1: "block_used (e_sb E) C1 b" if "unat b < e_blocks E" "block_used (e_sb E) C b" for b using a that by (simp add: evolves_def)
  have al: "allocated (e_sb E) C1 b" if "allocated (e_sb E) C b" for b using that u1 N by (simp add: allocated_def)
  have "C2 b = C b" if "b \<notin> blocks_of C (I ! ip)" "allocated (e_sb E) C b \<or> unat b < unat (sb_bmapstart (e_sb E))" for b
  proof -
    have "block_used (e_sb E) C b" using that(2) fs N by (auto simp: allocated_def fs_ok_def)
    then have "b \<notin> blocks_of C1 (I1 ! ip)" using a that(1) unfolding evolves_def free_blocks_def by blast
    moreover have "allocated (e_sb E) C1 b \<or> unat b < unat (sb_bmapstart (e_sb E))" using that(2) al by blast
    ultimately have "C2 b = C1 b" using b unfolding evolves_def by blast
    also have "C1 b = C b" using a that unfolding evolves_def by blast
    finally show ?thesis .
  qed
  moreover have "blocks_of C2 (I2 ! ip) \<subseteq> blocks_of C (I ! ip) \<union> free_blocks E C"
    using a b u1 unfolding evolves_def free_blocks_def by blast
  ultimately show ?thesis using a b u1 unfolding evolves_def by blast
qed

section \<open>Allocating a block for the file\<close>

lemma file_atD:
  assumes "file_at E ip C I"
  shows "layout (e_blocks E) (e_sb E)" "fs_ok (e_sb E) C" "ip < length I" "i_dev (I ! ip) = 1"
    "unat (i_inum (I ! ip)) < unat (sb_ninodes (e_sb E))" "file_ok (allocated (e_sb E) C) C (I ! ip)"
  using assms by (simp_all add: file_at_def)

lemma tx_inodes: "tx E H C es I s \<Longrightarrow> tx E H C es I' (s\<lparr>k_inodes := I'\<rparr>)"
  using view_inodes seen_byte_cong[of "s\<lparr>k_inodes := I'\<rparr>" s] by (auto simp: tx_def)

lemma tx_ino: "tx E H C es I s \<Longrightarrow> ino s ip = I ! ip"
  by (simp add: tx_def ino_def)

lemma block_used_cong: "layout N sb \<Longrightarrow> (\<And>n. n \<in> bitmaps sb \<Longrightarrow> C' n = C n) \<Longrightarrow> unat b < N \<Longrightarrow> block_used sb C' b = block_used sb C b"
  using unat_BBLOCK(2,3)[of N sb b] by (simp add: block_used_def bitmaps_def)

lemma blocks_allocated: "file_at E ip C I \<Longrightarrow> b \<in> blocks_of C (I ! ip) \<Longrightarrow> allocated (e_sb E) C b \<and> b \<noteq> 0"
  using file_okD(2)[OF file_atD(6)] by (auto elim!: blocks_ofE)

lemma allocated_data:
  assumes "layout N sb" "allocated sb C b"
  shows "unat b < N" "\<not> before_inodes sb b" "b \<notin> bitmaps sb" "block_used sb C b" "unat (sb_bmapstart sb) \<le> unat b"
  using assms(2) layout_order[OF assms(1)] not_in_log[OF assms(1), of b] by (auto simp: allocated_def bitmaps_def)

text \<open>A free block for the file.\<close>

lemma alloc_ok:
  assumes v: "tx E H C es I s" and f: "file_at E ip C I" and H: "Map.ran H \<subseteq> blocks_of C (I ! ip)" "card (dom H) \<le> 1"
    and l: "log_use (e_sb E) es + 1 < LOGSIZE" and free: "free_blocks E C \<noteq> {}"
  shows "\<exists>a t. balloc 1 s = Ret a t \<and> a \<in> free_blocks E C \<and> a \<noteq> 0 \<and> a \<notin> blocks_of C (I ! ip) \<and>
    tx E H (after_balloc (e_sb E) a C) (log_add a (log_add (BBLOCK a (e_sb E)) es)) I t"
proof -
  have H': "allocated (e_sb E) C n" if "n \<in> Map.ran H" for n using blocks_allocated[OF f, of n] H(1) that by blast
  note bo = balloc_ok[OF v file_atD(1,2)[OF f] H' H(2) l]
  have "\<not> (\<forall>b. unat b < e_blocks E \<longrightarrow> block_used (e_sb E) C b)" using free by (auto simp: free_blocks_def)
  with bo obtain a t where a: "balloc 1 s = Ret a t" "unat a < e_blocks E" "\<not> block_used (e_sb E) C a"
    "tx E H (after_balloc (e_sb E) a C) (log_add a (log_add (BBLOCK a (e_sb E)) es)) I t" by auto
  have "a \<noteq> 0" using after_balloc_ok(3)[OF file_atD(1,2)[OF f] a(2,3) tx_lens[OF v]] by (auto simp: data_start_def)
  moreover have "a \<notin> blocks_of C (I ! ip)" using blocks_allocated[OF f, of a] a(3) by (auto simp: allocated_def)
  ultimately show ?thesis using a by (auto simp: free_blocks_def)
qed

lemma free_after_balloc:
  assumes "layout (e_blocks E) (e_sb E)" "fs_ok (e_sb E) C" "a \<in> free_blocks E C" "\<forall>n. unat n < e_blocks E \<longrightarrow> length (C n) = BSIZE"
  shows "free_blocks E (after_balloc (e_sb E) a C) = free_blocks E C - {a}"
  using after_balloc_ok(1)[OF assms(1,2) _ _ assms(4)] assms(3) by (auto simp: free_blocks_def)

text \<open>The file after entry \<open>k\<close> got a new block: \<open>C'\<close> differs from the content after \<open>balloc\<close> at most in the indirect block.\<close>

lemma file_at_grows:
  assumes f: "file_at E ip C I" and a: "a \<in> free_blocks E C"
    and len: "\<forall>n. unat n < e_blocks E \<longrightarrow> length (C n) = BSIZE"
    and g: "grows C (I ! ip) C' x' k a" and x': "x' = (I ! ip)\<lparr>i_addrs := i_addrs x'\<rparr>"
    and C': "\<And>b. b \<notin> blocks_of C (I ! ip) \<Longrightarrow> C' b = after_balloc (e_sb E) a C b"
  shows "file_at E ip C' (I[ip := x'])" "evolves E ip C I C' (I[ip := x'])"
    "i < MAXFILE * BSIZE \<Longrightarrow> file_byte C' x' i = file_byte C (I ! ip) i" "free_blocks E C' = free_blocks E C - {a}"
proof -
  let ?x = "I ! ip" and ?sb = "e_sb E" and ?A = "after_balloc (e_sb E) a C"
  note F = file_atD[OF f]
  have aN: "unat a < e_blocks E" "\<not> block_used ?sb C a" using a by (auto simp: free_blocks_def)
  note ab = after_balloc_ok[OF F(1,2) aN len]
  have bm: "C' n = ?A n" if "n \<in> bitmaps ?sb" for n
    using C'[of n] blocks_allocated[OF f, of n] allocated_data(3)[OF F(1), of C n] that by blast
  have used: "block_used ?sb C' b \<longleftrightarrow> b = a \<or> block_used ?sb C b" if "unat b < e_blocks E" for b
    using block_used_cong[OF F(1) bm that] ab(1)[OF that] by simp
  have N: "unat (sb_size ?sb) = e_blocks E" "data_start ?sb \<le> e_blocks E" using layout_order[OF F(1)] by simp_all
  have al: "allocated ?sb C' b" if "allocated ?sb C b" for b using that used N by (simp add: allocated_def)
  have ala: "allocated ?sb C' a" using used[OF aN(1)] aN(1) ab(3) N by (simp add: allocated_def)
  have ok: "file_ok (allocated ?sb C') C ?x" using F(6) al by (rule file_ok_mono)
  note G = grows_ok[OF g ok ala]
  have ix: "I[ip := x'] ! ip = x'" using F(3) by simp
  have keep: "C' b = C b" if "b \<notin> blocks_of C ?x" "allocated ?sb C b \<or> unat b < unat (sb_bmapstart ?sb)" for b
  proof -
    have "b \<notin> bitmaps ?sb" using that(2) allocated_data(3)[OF F(1)] by (auto simp: bitmaps_def)
    moreover have "b \<noteq> a" using that(2) aN ab(3) layout_order(2)[OF F(1)] by (auto simp: allocated_def)
    ultimately show ?thesis using C'[OF that(1)] ab(6) by simp
  qed
  show "file_at E ip C' (I[ip := x'])"
    using F G(1) used N(2) F(2) unfolding file_at_def ix by (subst (1 2) x') (auto simp: fs_ok_def)
  show "evolves E ip C I C' (I[ip := x'])"
    unfolding evolves_def ix using keep G(3) used a x' by auto
  show "file_byte C' x' i = file_byte C ?x i" if "i < MAXFILE * BSIZE" using G(2) that .
  show "free_blocks E C' = free_blocks E C - {a}" using used by (auto simp: free_blocks_def)
qed

section \<open>\<open>bmap\<close>\<close>

text \<open>
  The entries of the log in use, counting the blocks of the free map and the indirect block; and the
  blocks still free, with the indirect block counted while there is none.
\<close>

definition log_pot :: "fsenv \<Rightarrow> nat \<Rightarrow> u32 list \<Rightarrow> inode list \<Rightarrow> nat" where
  "log_pot E ip es I = log_use (e_sb E) es +
     (if i_addrs (I ! ip) ! NDIRECT \<noteq> 0 \<and> i_addrs (I ! ip) ! NDIRECT \<in> set es then 0 else 1)"

definition free_pot :: "fsenv \<Rightarrow> nat \<Rightarrow> (u32 \<Rightarrow> u8 list) \<Rightarrow> inode list \<Rightarrow> nat" where
  "free_pot E ip C I = card (free_blocks E C) + (if i_addrs (I ! ip) ! NDIRECT = 0 then 0 else 1)"

text \<open>Entry \<open>k\<close> of the file has the block \<open>a\<close> now.\<close>

definition gets_block :: "fsenv \<Rightarrow> nat \<Rightarrow> nat \<Rightarrow> (u32 \<Rightarrow> u8 list) \<Rightarrow> u32 list \<Rightarrow> inode list \<Rightarrow> u32 \<Rightarrow>
    (u32 \<Rightarrow> u8 list) \<Rightarrow> u32 list \<Rightarrow> inode list \<Rightarrow> bool" where
  "gets_block E ip k C es I a C' es' I' \<longleftrightarrow> file_at E ip C' I' \<and> evolves E ip C I C' I' \<and>
     (\<forall>i < MAXFILE * BSIZE. file_byte C' (I' ! ip) i = file_byte C (I ! ip) i) \<and>
     (\<forall>j < MAXFILE. j \<noteq> k \<longrightarrow> owned C' (I' ! ip) j = owned C (I ! ip) j) \<and>
     (owned C (I ! ip) k \<noteq> 0 \<longrightarrow> I' = I \<and> owned C (I ! ip) k = a) \<and>
     owned C' (I' ! ip) k = a \<and> a \<noteq> 0 \<and> set es \<subseteq> set es' \<and> (owned C (I ! ip) k = 0 \<longrightarrow> a \<in> set es') \<and>
     log_pot E ip es' I' \<le> log_pot E ip es I + (if k < MAXFILE \<and> owned C (I ! ip) k = 0 then 1 else 0) \<and>
     free_pot E ip C I \<le> free_pot E ip C' I' + (if k < MAXFILE then 1 else 0)"

lemma gets_same: "file_at E ip C I \<Longrightarrow> owned C (I ! ip) k = a \<Longrightarrow> a \<noteq> 0 \<Longrightarrow> gets_block E ip k C es I a C es I"
  by (simp add: gets_block_def evolves_refl file_at_def)

lemma card_free: "a \<in> free_blocks E C \<Longrightarrow> Suc (card (free_blocks E C - {a})) = card (free_blocks E C)"
  by (rule card_Suc_Diff1) simp_all

lemma log_use_alloc:
  assumes "layout (e_blocks E) (e_sb E)" "a \<in> free_blocks E C"
  shows "log_use (e_sb E) (log_add a (log_add (BBLOCK a (e_sb E)) es)) \<le> log_use (e_sb E) es + 1"
  using log_use_add[of "e_sb E" a "log_add (BBLOCK a (e_sb E)) es"] log_use_bitmap[OF assms(1), of a es] assms(2)
  by (simp add: free_blocks_def)

lemma bmap_direct_ok:
  assumes v: "tx E Map.empty C es I s" and f: "file_at E ip C I" and k: "k \<le> NDIRECT"
    and l: "log_pot E ip es I + 1 < LOGSIZE" and free: "2 \<le> free_pot E ip C I"
  shows "\<exists>a t C' es' I'. bmap_direct ip k s = Ret a t \<and> tx E Map.empty C' es' I' t \<and>
    gets_block E ip (if k < NDIRECT then k else MAXFILE) C es I a C' es' I'"
proof -
  let ?x = "I ! ip" and ?k = "if k < NDIRECT then k else MAXFILE"
  note F = file_atD[OF f]
  have x: "ino s ip = ?x" by (rule tx_ino[OF v])
  have kk: "owned C ?x ?k = i_addrs ?x ! k" using k by (auto simp: owned_simps(2,3))
  have le: "?k \<le> MAXFILE" using MAXFILE_bounds(1)[THEN less_imp_le] by auto
  show ?thesis
  proof (cases "i_addrs ?x ! k = 0")
    case False
    then have "bmap_direct ip k s = Ret (i_addrs ?x ! k) s" using bmap_direct_mapped[of s ip k] x by simp
    then show ?thesis using gets_same[OF f kk False, of es] v by blast
  next
    case True
    have fr: "free_blocks E C \<noteq> {}" using free by (auto simp: free_pot_def split: if_splits)
    have lu: "log_use (e_sb E) es + 1 < LOGSIZE" using l by (simp add: log_pot_def)
    obtain a t where a: "balloc 1 s = Ret a t" "a \<in> free_blocks E C" "a \<noteq> 0" "a \<notin> blocks_of C ?x"
      "tx E Map.empty (after_balloc (e_sb E) a C) (log_add a (log_add (BBLOCK a (e_sb E)) es)) I t"
      using alloc_ok[OF v f _ _ lu fr] by auto
    define x' where "x' = ?x\<lparr>i_addrs := (i_addrs ?x)[k := a]\<rparr>"
    let ?C = "after_balloc (e_sb E) a C" and ?es = "log_add a (log_add (BBLOCK a (e_sb E)) es)" and ?I = "I[ip := x']"
    have aN: "unat a < e_blocks E" "\<not> block_used (e_sb E) C a" using a(2) by (auto simp: free_blocks_def)
    note ab = after_balloc_ok[OF F(1,2) aN tx_lens[OF v]]
    have same: "?C b = C b" if "b \<in> blocks_of C ?x" for b
      using ab(6)[of b] that a(4) allocated_data(3)[OF F(1)] blocks_allocated[OF f that] by metis
    have g: "grows C ?x ?C x' ?k a"
      by (rule grows_addr[OF file_okD(1)[OF F(6)] k True a(3,4) ab(5) same])
        (use file_okD(3)[OF F(6)] in \<open>simp_all add: x'_def\<close>)
    have x': "x' = ?x\<lparr>i_addrs := i_addrs x'\<rparr>" by (simp add: x'_def)
    note fg = file_at_grows[OF f a(2) tx_lens[OF v] g x' refl]
    have ix: "?I ! ip = x'" using F(3) by simp
    have run: "bmap_direct ip k s = Ret a (t\<lparr>k_inodes := ?I\<rparr>)"
      using True x a(1,5) F(4) by (simp add: bmap_direct_def inode_addr_def inode_dev_def set_addr_def kbind_def kget_def
        kupd_def kret_def upd_ino_def tx_def x'_def)
    have ow: "owned ?C x' ?k = a" using g le by (simp add: grows_def)
    have ind: "i_addrs x' ! NDIRECT = (if k < NDIRECT then i_addrs ?x ! NDIRECT else a)"
      using k file_okD(1)[OF F(6)] by (auto simp: x'_def)
    have kz: "\<not> k < NDIRECT \<Longrightarrow> i_addrs ?x ! NDIRECT = 0" using k True by (simp add: not_less)
    have lp: "log_pot E ip ?es ?I \<le> log_pot E ip es I + (if ?k < MAXFILE \<and> owned C ?x ?k = 0 then 1 else 0)"
      using log_use_alloc[OF F(1) a(2), of es] ind kz kk True a(3) F(3) MAXFILE_bounds(1)
      by (auto simp: log_pot_def ix)
    have fp: "free_pot E ip C I \<le> free_pot E ip ?C ?I + (if ?k < MAXFILE then 1 else 0)"
      using card_free[OF a(2)] fg(4) ind kz a(3) MAXFILE_bounds(1) by (auto simp: free_pot_def ix)
    have "gets_block E ip ?k C es I a ?C ?es ?I"
      unfolding gets_block_def ix using fg(1-3) ow a(3) lp fp grows_owned[OF g] kk True by auto
    then show ?thesis using run tx_inodes[OF a(5), of ?I] by blast
  qed
qed

text \<open>Two steps, the first for the indirect block.\<close>

lemma gets_block_trans:
  assumes f: "file_at E ip C I" and 1: "gets_block E ip MAXFILE C es I ind C1 es1 I1" and 2: "gets_block E ip k C1 es1 I1 a C2 es2 I2"
    and k: "NDIRECT \<le> k" "k < MAXFILE" "owned C1 (I1 ! ip) k = owned C (I ! ip) k"
  shows "gets_block E ip k C es I a C2 es2 I2"
proof -
  have "owned C (I ! ip) MAXFILE \<noteq> 0" if "owned C (I ! ip) k \<noteq> 0"
    using that k(1,2) by (auto simp: owned_simps(1,2) file_block_def split: if_splits)
  moreover have G: "evolves E ip C I C1 I1" "\<forall>i < MAXFILE * BSIZE. file_byte C1 (I1 ! ip) i = file_byte C (I ! ip) i"
    "\<And>j. j < MAXFILE \<Longrightarrow> owned C1 (I1 ! ip) j = owned C (I ! ip) j" "owned C (I ! ip) MAXFILE \<noteq> 0 \<Longrightarrow> I1 = I"
    "set es \<subseteq> set es1" "log_pot E ip es1 I1 \<le> log_pot E ip es I" "free_pot E ip C I \<le> free_pot E ip C1 I1"
    using 1 by (simp_all add: gets_block_def)
  have H: "file_at E ip C2 I2" "evolves E ip C1 I1 C2 I2" "\<forall>i < MAXFILE * BSIZE. file_byte C2 (I2 ! ip) i = file_byte C1 (I1 ! ip) i"
    "\<forall>j < MAXFILE. j \<noteq> k \<longrightarrow> owned C2 (I2 ! ip) j = owned C1 (I1 ! ip) j"
    "owned C1 (I1 ! ip) k \<noteq> 0 \<longrightarrow> I2 = I1 \<and> owned C1 (I1 ! ip) k = a" "owned C2 (I2 ! ip) k = a" "a \<noteq> 0" "set es1 \<subseteq> set es2"
    "owned C1 (I1 ! ip) k = 0 \<longrightarrow> a \<in> set es2"
    "log_pot E ip es2 I2 \<le> log_pot E ip es1 I1 + (if k < MAXFILE \<and> owned C1 (I1 ! ip) k = 0 then 1 else 0)"
    "free_pot E ip C1 I1 \<le> free_pot E ip C2 I2 + (if k < MAXFILE then 1 else 0)"
    using 2 by (simp_all add: gets_block_def)
  ultimately show ?thesis
    unfolding gets_block_def
  proof (intro conjI)
    show "\<forall>i < MAXFILE * BSIZE. file_byte C2 (I2 ! ip) i = file_byte C (I ! ip) i" using G(2) H(3) by simp
    show "\<forall>j < MAXFILE. j \<noteq> k \<longrightarrow> owned C2 (I2 ! ip) j = owned C (I ! ip) j" using G(3) H(4) by simp
    show "owned C (I ! ip) k \<noteq> 0 \<longrightarrow> I2 = I \<and> owned C (I ! ip) k = a"
      using H(5) G(4) k(3) \<open>owned C (I ! ip) k \<noteq> 0 \<Longrightarrow> owned C (I ! ip) MAXFILE \<noteq> 0\<close> by metis
    show "owned C (I ! ip) k = 0 \<longrightarrow> a \<in> set es2" using H(9) k(3) by simp
    show "log_pot E ip es2 I2 \<le> log_pot E ip es I + (if k < MAXFILE \<and> owned C (I ! ip) k = 0 then 1 else 0)"
      using H(10) G(6) k(3) by simp
    show "free_pot E ip C I \<le> free_pot E ip C2 I2 + (if k < MAXFILE then 1 else 0)" using H(11) G(7) by linarith
    show "set es \<subseteq> set es2" using G(5) H(8) by blast
  qed (rule H(1) H(6,7) evolves_trans[OF G(1) H(2) f])+
qed

lemma bmap_alloc_entry:
  assumes v: "tx E Map.empty C es I s" and f: "file_at E ip C I" and k: "NDIRECT \<le> k" "k < MAXFILE"
    and ind: "i_addrs (I ! ip) ! NDIRECT = ind" "ind \<noteq> 0"
    and l: "log_pot E ip es I + 2 < LOGSIZE" and free: "2 \<le> free_pot E ip C I"
  shows "\<exists>bp u v w a C' es'. bread 1 ind s = Ret bp u \<and> bdata bp u = Ret (C ind) u \<and>
    (if file_block C (I ! ip) k \<noteq> 0 then v = u \<and> a = file_block C (I ! ip) k
     else \<exists>y z. balloc 1 u = Ret a y \<and> set_bdata bp (put32 (4 * (k - NDIRECT)) a) y = Ret () z \<and> log_write bp z = Ret () v) \<and>
    brelse bp v = Ret () w \<and> tx E Map.empty C' es' I w \<and> gets_block E ip k C es I a C' es' I"
proof -
  let ?x = "I ! ip"
  note F = file_atD[OF f]
  have oi: "owned C ?x MAXFILE = ind" using ind by (simp add: owned_simps(2))
  have ib: "ind \<in> blocks_of C ?x" using owned_block[of MAXFILE C ?x] oi ind(2) by simp
  note al = allocated_data[OF F(1) conjunct1[OF blocks_allocated[OF f ib]]]
  have lu: "log_use (e_sb E) es + 1 < LOGSIZE" "length es + 1 < LOGSIZE"
    using l log_use_length[of es "e_sb E"] by (simp_all add: log_pot_def)
  have room: "card (dom (Map.empty :: nat \<Rightarrow> u32 option)) + card (set es) < NBUF" by (rule tx_room[OF lu(2)]) simp
  obtain bp u where b: "bread 1 ind s = Ret bp u" "tx E [bp \<mapsto> ind] C es I u"
    using tx_bread[OF v al(1) _ room] by auto
  have bd: "bdata bp u = Ret (C ind) u" using tx_bdata[OF b(2), of bp ind] by simp
  have ok: "owned C ?x k = file_block C ?x k" using k(2) by (simp add: owned_simps(1))
  show ?thesis
  proof (cases "file_block C ?x k = 0")
    case False
    have "ind \<in> set es \<or> C ind = disk_block (e_disk E) (unat ind)" using tx_clean[OF v, of ind] by simp
    from tx_brelse[OF b(2) fun_upd_same this] obtain w where "brelse bp u = Ret () w" "tx E ([bp \<mapsto> ind](bp := None)) C es I w"
      by blast
    then show ?thesis using b(1) bd False gets_same[OF f ok False, of es] upd_None[of bp Map.empty ind] by auto
  next
    case True
    have fr: "free_blocks E C \<noteq> {}" using free by (auto simp: free_pot_def split: if_splits)
    have H: "Map.ran [bp \<mapsto> ind] \<subseteq> blocks_of C ?x" "card (dom [bp \<mapsto> ind]) \<le> 1" using ib by auto
    obtain a y where a: "balloc 1 u = Ret a y" "a \<in> free_blocks E C" "a \<noteq> 0" "a \<notin> blocks_of C ?x"
      "tx E [bp \<mapsto> ind] (after_balloc (e_sb E) a C) (log_add a (log_add (BBLOCK a (e_sb E)) es)) I y"
      using alloc_ok[OF b(2) f H lu(1) fr] by blast
    let ?A = "after_balloc (e_sb E) a C" and ?es = "log_add a (log_add (BBLOCK a (e_sb E)) es)"
    let ?f = "put32 (4 * (k - NDIRECT)) a"
    have aN: "unat a < e_blocks E" "\<not> block_used (e_sb E) C a" using a(2) by (auto simp: free_blocks_def)
    note ab = after_balloc_ok[OF F(1,2) aN tx_lens[OF v]]
    have ai: "?A ind = C ind" "a \<noteq> ind" using ab(6)[of ind] a(4) ib al(3) by auto
    have len: "length (C ind) = BSIZE" by (rule tx_len[OF v al(1)])
    have lf: "length (?f (?A ind)) = BSIZE" using ai(1) len by simp
    obtain z where z: "set_bdata bp ?f y = Ret () z" "tx E [bp \<mapsto> ind] (?A(ind := ?f (?A ind))) ?es I z"
      using tx_set_bdata[where f = ?f, OF a(5) fun_upd_same lf] by blast
    have "length ?es + 1 < LOGSIZE"
      using log_use_alloc[OF F(1) a(2), of es] log_use_length[of ?es "e_sb E"] l by (simp add: log_pot_def)
    from tx_log_write[OF z(2) fun_upd_same al(1,2) this] obtain vv where
      vv: "log_write bp z = Ret () vv" "tx E [bp \<mapsto> ind] (?A(ind := ?f (?A ind))) (log_add ind ?es) I vv" by blast
    define C2 where "C2 = ?A(ind := ?f (?A ind))"
    have "ind \<in> set (log_add ind ?es) \<or> C2 ind = disk_block (e_disk E) (unat ind)" by simp
    from tx_brelse[OF vv(2)[folded C2_def] fun_upd_same this] obtain w where
      w: "brelse bp vv = Ret () w" "tx E ([bp \<mapsto> ind](bp := None)) C2 (log_add ind ?es) I w" by blast
    have same: "C2 b = C b" if "b \<in> blocks_of C ?x" "b \<noteq> ind" for b
      using ab(6)[of b] that a(4) allocated_data(3)[OF F(1)] blocks_allocated[OF f that(1)] unfolding C2_def by (metis fun_upd_apply)
    have inj: "owned C ?x j \<noteq> ind" if "j < MAXFILE" for j
      using file_okD(4)[OF F(6), of j MAXFILE] oi ind(2) that by auto
    have Ca: "C2 a = replicate BSIZE 0" "C2 ind = put32 (4 * (k - NDIRECT)) a (C ind)" using ab(5) ai by (simp_all add: C2_def)
    have g: "grows C ?x C2 ?x k a"
      by (rule grows_entry[OF ind k True a(3,4) len Ca same inj])
    have x': "?x = ?x\<lparr>i_addrs := i_addrs ?x\<rparr>" by simp
    have C': "C2 b = ?A b" if "b \<notin> blocks_of C ?x" for b using that ib by (auto simp: C2_def)
    note fg = file_at_grows[OF f a(2) tx_lens[OF v] g x' C']
    have II: "I[ip := ?x] = I" by simp
    have ow: "owned C2 ?x k = a" using g k(2) by (simp add: grows_def)
    have lp: "log_pot E ip (log_add ind ?es) I \<le> log_pot E ip es I + 1"
    proof (cases "ind \<in> set ?es")
      case True
      then have "log_add ind ?es = ?es" by (simp add: log_add_def)
      moreover have "ind \<in> set es" using True a(4) ib al(3) unat_BBLOCK(2,3)[OF F(1) aN(1)] ai(2) by (auto simp: bitmaps_def)
      ultimately show ?thesis using log_use_alloc[OF F(1) a(2), of es] ind by (simp add: log_pot_def)
    next
      case False
      then have "ind \<notin> set es" by simp
      then show ?thesis using log_use_alloc[OF F(1) a(2), of es] ind log_use_add[of "e_sb E" ind ?es] by (simp add: log_pot_def)
    qed
    have fe: "free_blocks E C2 = free_blocks E C - {a}" by (rule fg(4))
    have fp: "free_pot E ip C I \<le> free_pot E ip C2 I + 1"
      using card_free[OF a(2)] unfolding free_pot_def fe by simp
    have "gets_block E ip k C es I a C2 (log_add ind ?es) I"
      unfolding gets_block_def using fg(1-3) ow a(3) lp fp k(2) True ok grows_owned[OF g] unfolding II by auto
    then show ?thesis using b(1) bd True a(1) z(1) vv(1) w upd_None[of bp Map.empty ind] by auto
  qed
qed

text \<open>\<open>bmap\<close> returns the block of the file, which it allocates when there is none.\<close>

lemma bmap_gets:
  assumes v: "tx E Map.empty C es I s" and f: "file_at E ip C I" and k: "unat bn < MAXFILE"
    and l: "log_pot E ip es I + 2 < LOGSIZE" and free: "2 \<le> free_pot E ip C I"
  shows "\<exists>a t C' es' I'. bmap ip bn s = Ret a t \<and> tx E Map.empty C' es' I' t \<and> gets_block E ip (unat bn) C es I a C' es' I'"
proof (cases "unat bn < NDIRECT")
  case True
  then show ?thesis using bmap_direct_ok[OF v f _ _ free, of "unat bn"] l by (simp add: bmap_def)
next
  case False
  let ?k = "unat bn"
  have j: "unat (bn - of_nat NDIRECT) = ?k - NDIRECT" using False by (subst unat_sub) (auto simp: NDIRECT_def word_le_nat_alt)
  obtain ind t C1 es1 I1 where d: "bmap_direct ip NDIRECT s = Ret ind t" "tx E Map.empty C1 es1 I1 t"
    "gets_block E ip MAXFILE C es I ind C1 es1 I1"
    using bmap_direct_ok[OF v f order_refl _ free] l by auto
  have G: "file_at E ip C1 I1" "i_addrs (I1 ! ip) ! NDIRECT = ind" "ind \<noteq> 0"
    "log_pot E ip es1 I1 + 2 < LOGSIZE" "2 \<le> free_pot E ip C1 I1"
    using d(3) l free by (auto simp: gets_block_def owned_simps(2))
  have k': "NDIRECT \<le> ?k" "?k < MAXFILE" using False k by simp_all
  obtain bp u w x a C' es' where e: "bread 1 ind t = Ret bp u" "bdata bp u = Ret (C1 ind) u"
    "if file_block C1 (I1 ! ip) ?k \<noteq> 0 then w = u \<and> a = file_block C1 (I1 ! ip) ?k
     else \<exists>y z. balloc 1 u = Ret a y \<and> set_bdata bp (put32 (4 * (?k - NDIRECT)) a) y = Ret () z \<and> log_write bp z = Ret () w"
    "brelse bp w = Ret () x" "tx E Map.empty C' es' I1 x" "gets_block E ip ?k C1 es1 I1 a C' es' I1"
    using bmap_alloc_entry[OF d(2) G(1) k' G(2-5)] by blast
  have fb: "file_block C1 (I1 ! ip) ?k = get32 (C1 ind) (4 * (?k - NDIRECT))" using False G(2,3) by (simp add: file_block_def)
  have "i_dev (ino t ip) = 1" using tx_ino[OF d(2), of ip] file_atD(4)[OF G(1)] by simp
  then have "bmap ip bn s = Ret a x"
    using False j k d(1) e(1-4) fb
    by (cases "file_block C1 (I1 ! ip) ?k = 0") (auto simp: bmap_def Let_def kbind_def inode_dev_def kget_def kret_def)
  moreover have "gets_block E ip ?k C es I a C' es' I1"
  proof (rule gets_block_trans[OF f d(3) e(6) k'])
    show "owned C1 (I1 ! ip) ?k = owned C (I ! ip) ?k"
      using d(3) k'(2) unfolding gets_block_def by simp
  qed
  ultimately show ?thesis using e(5) by blast
qed

section \<open>Writing into a block of the file\<close>

text \<open>A change outside the free map that keeps the file.\<close>

lemma file_at_content:
  assumes f: "file_at E ip C I" and C': "\<And>n. n \<in> bitmaps (e_sb E) \<Longrightarrow> C' n = C n" and ok: "file_ok (allocated (e_sb E) C) C' (I ! ip)"
  shows "file_at E ip C' I" "free_blocks E C' = free_blocks E C" "unat b < e_blocks E \<Longrightarrow> block_used (e_sb E) C' b = block_used (e_sb E) C b"
proof -
  note F = file_atD[OF f]
  show u: "block_used (e_sb E) C' b = block_used (e_sb E) C b" if "unat b < e_blocks E" for b
    by (rule block_used_cong[OF F(1) C' that])
  have N: "unat (sb_size (e_sb E)) = e_blocks E" "data_start (e_sb E) \<le> e_blocks E" using layout_order[OF F(1)] by simp_all
  have al: "allocated (e_sb E) C' b" if "allocated (e_sb E) C b" for b using that u N by (simp add: allocated_def)
  then have "file_ok (allocated (e_sb E) C') C' (I ! ip)" using ok by (auto simp: file_ok_def)
  moreover have "fs_ok (e_sb E) C'" using F(2) u N(2) by (auto simp: fs_ok_def)
  ultimately show "file_at E ip C' I" using F by (simp add: file_at_def)
  show "free_blocks E C' = free_blocks E C" using u by (auto simp: free_blocks_def)
qed

lemma write_at_ok:
  assumes v: "tx E Map.empty C es I s" and f: "file_at E ip C I" and k: "k < MAXFILE" "owned C (I ! ip) k = a" "a \<noteq> 0"
    and l: "length es + 1 < LOGSIZE" and p: "o' + length piece \<le> BSIZE"
  shows "\<exists>b t u v w. bread 1 a s = Ret b t \<and> seen_byte t = seen_byte s \<and> set_bdata b (put_range o' piece) t = Ret () u \<and>
    log_write b u = Ret () v \<and> brelse b v = Ret () w \<and>
    tx E Map.empty (C(a := put_range o' piece (C a))) (log_add a es) I w"
    "file_at E ip (C(a := put_range o' piece (C a))) I" "evolves E ip C I (C(a := put_range o' piece (C a))) I"
    "i < MAXFILE * BSIZE \<Longrightarrow> file_byte (C(a := put_range o' piece (C a))) (I ! ip) i =
      (if k * BSIZE + o' \<le> i \<and> i < k * BSIZE + o' + length piece then piece ! (i - (k * BSIZE + o')) else file_byte C (I ! ip) i)"
    "log_pot E ip (log_add a es) I \<le> log_pot E ip es I + (if a \<in> set es then 0 else 1)"
    "free_pot E ip (C(a := put_range o' piece (C a))) I = free_pot E ip C I"
    "owned (C(a := put_range o' piece (C a))) (I ! ip) j = owned C (I ! ip) j"
proof -
  let ?x = "I ! ip" and ?f = "put_range o' piece" and ?C = "C(a := put_range o' piece (C a))"
  note F = file_atD[OF f]
  have fb: "file_block C ?x k = a" using k by (simp add: owned_simps(1))
  have ab: "a \<in> blocks_of C ?x" using owned_block[of k C ?x] k by simp
  note al = allocated_data[OF F(1) conjunct1[OF blocks_allocated[OF f ab]]]
  have len: "length (C a) = BSIZE" by (rule tx_len[OF v al(1)])
  have lf: "length (?f (C a)) = BSIZE" using len p by simp
  have room: "card (dom (Map.empty :: nat \<Rightarrow> u32 option)) + card (set es) < NBUF" by (rule tx_room[OF l]) simp
  obtain b t where b: "bread 1 a s = Ret b t" "tx E [b \<mapsto> a] C es I t" using tx_bread[OF v al(1) _ room] by auto
  obtain u where u: "set_bdata b ?f t = Ret () u" "tx E [b \<mapsto> a] ?C es I u"
    using tx_set_bdata[where f = ?f, OF b(2) fun_upd_same lf] by blast
  obtain vv where vv: "log_write b u = Ret () vv" "tx E [b \<mapsto> a] ?C (log_add a es) I vv"
    using tx_log_write[OF u(2) fun_upd_same al(1,2) l] by blast
  have "a \<in> set (log_add a es) \<or> ?C a = disk_block (e_disk E) (unat a)" by simp
  from tx_brelse[OF vv(2) fun_upd_same this] obtain w where w: "brelse b vv = Ret () w" "tx E ([b \<mapsto> a](b := None)) ?C (log_add a es) I w"
    by blast
  have "seen_byte t = seen_byte s" using b(2) v by (simp add: tx_def)
  then show "\<exists>b t u v w. bread 1 a s = Ret b t \<and> seen_byte t = seen_byte s \<and> set_bdata b ?f t = Ret () u \<and>
    log_write b u = Ret () v \<and> brelse b v = Ret () w \<and> tx E Map.empty ?C (log_add a es) I w"
    using b(1) u(1) vv(1) w upd_None[of b Map.empty a] by auto
  have k': "file_block C ?x k \<noteq> 0" using fb k(3) by simp
  note wb = write_block[OF F(6) k(1) k' lf, unfolded fb]
  have bm: "?C n = C n" if "n \<in> bitmaps (e_sb E)" for n using al(3) that by auto
  note fc = file_at_content[OF f bm wb(2)]
  show "file_at E ip ?C I" by (rule fc(1))
  have bo: "blocks_of ?C ?x = blocks_of C ?x" using wb(1) by (simp add: blocks_of_def)
  have "C a = ?C a \<or> a \<in> blocks_of C ?x" using ab by simp
  show "evolves E ip C I ?C I"
    unfolding evolves_def bo using ab fc(3) F(3) by (auto simp: list_eq_iff_nth_eq nth_list_update)
  show "log_pot E ip (log_add a es) I \<le> log_pot E ip es I + (if a \<in> set es then 0 else 1)"
    using log_use_add[of "e_sb E" a es] by (auto simp: log_pot_def log_add_def)
  show "owned ?C ?x j = owned C ?x j" by (rule wb(1))
  show "free_pot E ip ?C I = free_pot E ip C I" using fc(2) by (simp add: free_pot_def)
  show "file_byte ?C ?x i = (if k * BSIZE + o' \<le> i \<and> i < k * BSIZE + o' + length piece then piece ! (i - (k * BSIZE + o')) else file_byte C ?x i)"
    if i: "i < MAXFILE * BSIZE"
  proof (cases "i div BSIZE = k")
    case True
    have im: "i mod BSIZE < BSIZE" "i = k * BSIZE + i mod BSIZE" using True div_mult_mod_eq[of i BSIZE] by (simp_all add: BSIZE_def)
    have "?f (C a) ! (i mod BSIZE) = (if o' \<le> i mod BSIZE \<and> i mod BSIZE < o' + length piece then piece ! (i mod BSIZE - o') else C a ! (i mod BSIZE))"
      using nth_put_range[of o' piece "C a" "i mod BSIZE"] len p im(1) by simp
    moreover have "file_byte C ?x i = C a ! (i mod BSIZE)" using True fb k(3) by (simp add: file_byte_def)
    moreover have "k * BSIZE + o' \<le> i \<longleftrightarrow> o' \<le> i mod BSIZE" "i < k * BSIZE + o' + length piece \<longleftrightarrow> i mod BSIZE < o' + length piece"
      "i - (k * BSIZE + o') = i mod BSIZE - o'" using im(2) by linarith+
    ultimately show ?thesis using wb(3)[OF i] True by simp
  next
    case False
    have "\<not> (k * BSIZE + o' \<le> i \<and> i < k * BSIZE + o' + length piece)"
    proof
      assume h: "k * BSIZE + o' \<le> i \<and> i < k * BSIZE + o' + length piece"
      then have "k * BSIZE \<le> i" "i < Suc k * BSIZE" using p by auto
      then have "i div BSIZE = k" by (intro div_nat_eqI) (simp_all add: mult.commute)
      then show False using False by simp
    qed
    then show ?thesis using wb(3)[OF i] False by auto
  qed
qed

section \<open>\<open>writei\<close>\<close>

text \<open>The number of blocks that \<open>len\<close> bytes at \<open>off\<close> reach into.\<close>

definition span :: "nat \<Rightarrow> nat \<Rightarrow> nat" where
  "span off len = (if len = 0 then 0 else (off + len - 1) div BSIZE - off div BSIZE + 1)"

lemma span_step:
  assumes "0 < len" "m = min len (BSIZE - off mod BSIZE)"
  shows "span off len = span (off + m) (len - m) + 1"
proof -
  define q where "q = off div BSIZE"
  define r where "r = off mod BSIZE"
  have o: "off = q * BSIZE + r" "r < BSIZE" using div_mult_mod_eq[of off BSIZE] by (simp_all add: q_def r_def BSIZE_def)
  show ?thesis
  proof (cases "len \<le> BSIZE - r")
    case True
    then have m: "m = len" using assms(2) by (simp add: r_def)
    have "(off + len - 1) div BSIZE = q" using o True assms(1) by (intro div_nat_eqI) (simp_all add: mult.commute)
    then show ?thesis using m assms(1) by (simp add: span_def q_def)
  next
    case False
    then have m: "m = BSIZE - r" "m < len" using assms(2) by (simp_all add: r_def)
    have om: "off + m = Suc q * BSIZE" using o m by simp
    have "Suc q * BSIZE \<le> off + len - 1" using om m(2) by linarith
    then have "Suc q \<le> (off + len - 1) div BSIZE" by (simp add: less_eq_div_iff_mult_less_eq BSIZE_def)
    moreover have "(off + m) div BSIZE = Suc q" unfolding om by (simp add: BSIZE_def)
    moreover have "off + m + (len - m) - 1 = off + len - 1" using m(2) by simp
    ultimately show ?thesis using m(2) assms(1) by (simp add: span_def q_def)
  qed
qed

text \<open>The source holds the bytes \<open>bs\<close>, in the memory that the kernel sees or in a variable of the kernel.\<close>

definition source_gives :: "(u32 \<Rightarrow> u8 option) \<Rightarrow> source \<Rightarrow> u8 list \<Rightarrow> bool" where
  "source_gives M src bs \<longleftrightarrow> (case src of
     From_mem a \<Rightarrow> \<forall>i < length bs. M (a + of_nat i) = Some (bs ! i)
   | From_local xs \<Rightarrow> take (length bs) xs = bs)"

lemma mem_get_ok:
  "(\<forall>i < length cs. seen_byte s (a + of_nat i) = Some (cs ! i)) \<Longrightarrow> mem_get (length cs) a s = Ret cs s"
proof (induction cs arbitrary: a)
  case (Cons c cs)
  have "seen_byte s (a + 1 + of_nat i) = Some (cs ! i)" if "i < length cs" for i
    using Cons.prems[rule_format, of "Suc i"] that by (simp add: add.assoc)
  note IH = Cons.IH[of "a + 1"]
  have "load8 a s = Ret c s" using Cons.prems[rule_format, of 0] by (auto simp: load8_def seen_byte_def kbind_def kopt_def kget_def)
  then show ?case using IH \<open>\<And>i. i < length cs \<Longrightarrow> _\<close> by (simp add: kbind_def kret_def)
qed (simp add: kret_def)

lemma fetch_ok:
  assumes "source_gives (seen_byte s) src bs" "at + m \<le> length bs"
  shows "fetch src at m s = Ret (take m (drop at bs)) s"
proof (cases src)
  case (From_mem a)
  let ?cs = "take m (drop at bs)"
  have "length ?cs = m" "\<forall>i < length ?cs. seen_byte s (a + of_nat at + of_nat i) = Some (?cs ! i)"
    using assms From_mem by (auto simp: source_gives_def add.assoc of_nat_add[symmetric] simp del: of_nat_add)
  then show ?thesis using From_mem mem_get_ok[of ?cs s "a + of_nat at"] by (simp add: fetch_def)
next
  case (From_local xs)
  have "take m (drop at xs) = take m (drop at (take (length bs) xs))" using assms(2) by (simp add: drop_take)
  then show ?thesis using From_local assms(1) by (simp add: fetch_def source_gives_def kret_def)
qed

text \<open>The file after \<open>bs\<close> was written at \<open>off\<close>, and what the log and the free map gave for it.\<close>

definition wrote :: "fsenv \<Rightarrow> nat \<Rightarrow> nat \<Rightarrow> u8 list \<Rightarrow> nat \<Rightarrow> (u32 \<Rightarrow> u8 list) \<Rightarrow> u32 list \<Rightarrow> inode list \<Rightarrow>
    (u32 \<Rightarrow> u8 list) \<Rightarrow> u32 list \<Rightarrow> inode list \<Rightarrow> bool" where
  "wrote E ip off bs n C es I C' es' I' \<longleftrightarrow> file_at E ip C' I' \<and> evolves E ip C I C' I' \<and>
     (\<forall>i < MAXFILE * BSIZE. file_byte C' (I' ! ip) i =
       (if off \<le> i \<and> i < off + length bs then bs ! (i - off) else file_byte C (I ! ip) i)) \<and>
     (\<forall>k < MAXFILE. owned C (I ! ip) k \<noteq> 0 \<longrightarrow> owned C' (I' ! ip) k = owned C (I ! ip) k) \<and>
     (\<forall>j < length bs. owned C' (I' ! ip) ((off + j) div BSIZE) \<noteq> 0) \<and>
     ((\<forall>j < length bs. owned C (I ! ip) ((off + j) div BSIZE) \<noteq> 0) \<longrightarrow> I' = I) \<and>
     (bs \<noteq> [] \<longrightarrow> es' \<noteq> []) \<and> (es \<noteq> [] \<longrightarrow> es' \<noteq> []) \<and>
     log_pot E ip es' I' \<le> log_pot E ip es I + n \<and> free_pot E ip C I \<le> free_pot E ip C' I' + n"

lemma wrote_nothing: "file_at E ip C I \<Longrightarrow> wrote E ip off [] 0 C es I C es I"
  using evolves_refl file_atD(3) by (auto simp: wrote_def)

lemma wrote_trans:
  assumes f: "file_at E ip C I" and a: "wrote E ip off bs m C es I C1 es1 I1" and b: "wrote E ip (off + length bs) cs n C1 es1 I1 C2 es2 I2"
    and max: "off + length (bs @ cs) \<le> MAXFILE * BSIZE"
  shows "wrote E ip off (bs @ cs) (m + n) C es I C2 es2 I2"
proof -
  have A: "evolves E ip C I C1 I1"
    "\<And>i. i < MAXFILE * BSIZE \<Longrightarrow> file_byte C1 (I1 ! ip) i = (if off \<le> i \<and> i < off + length bs then bs ! (i - off) else file_byte C (I ! ip) i)"
    "\<And>k. k < MAXFILE \<Longrightarrow> owned C (I ! ip) k \<noteq> 0 \<Longrightarrow> owned C1 (I1 ! ip) k = owned C (I ! ip) k"
    "\<And>j. j < length bs \<Longrightarrow> owned C1 (I1 ! ip) ((off + j) div BSIZE) \<noteq> 0"
    "(\<forall>j < length bs. owned C (I ! ip) ((off + j) div BSIZE) \<noteq> 0) \<longrightarrow> I1 = I" "bs \<noteq> [] \<longrightarrow> es1 \<noteq> []" "es \<noteq> [] \<longrightarrow> es1 \<noteq> []"
    "log_pot E ip es1 I1 \<le> log_pot E ip es I + m" "free_pot E ip C I \<le> free_pot E ip C1 I1 + m"
    using a by (simp_all add: wrote_def)
  have B: "file_at E ip C2 I2" "evolves E ip C1 I1 C2 I2"
    "\<And>i. i < MAXFILE * BSIZE \<Longrightarrow> file_byte C2 (I2 ! ip) i =
      (if off + length bs \<le> i \<and> i < off + length bs + length cs then cs ! (i - (off + length bs)) else file_byte C1 (I1 ! ip) i)"
    "\<And>k. k < MAXFILE \<Longrightarrow> owned C1 (I1 ! ip) k \<noteq> 0 \<Longrightarrow> owned C2 (I2 ! ip) k = owned C1 (I1 ! ip) k"
    "\<And>j. j < length cs \<Longrightarrow> owned C2 (I2 ! ip) ((off + length bs + j) div BSIZE) \<noteq> 0"
    "(\<forall>j < length cs. owned C1 (I1 ! ip) ((off + length bs + j) div BSIZE) \<noteq> 0) \<longrightarrow> I2 = I1" "cs \<noteq> [] \<longrightarrow> es2 \<noteq> []" "es1 \<noteq> [] \<longrightarrow> es2 \<noteq> []"
    "log_pot E ip es2 I2 \<le> log_pot E ip es1 I1 + n" "free_pot E ip C1 I1 \<le> free_pot E ip C2 I2 + n"
    using b by (simp_all add: wrote_def)
  have in_file: "(off + j) div BSIZE < MAXFILE" if "j < length (bs @ cs)" for j
    using that max by (simp add: less_mult_imp_div_less)
  have byte: "file_byte C2 (I2 ! ip) i = (if off \<le> i \<and> i < off + length (bs @ cs) then (bs @ cs) ! (i - off) else file_byte C (I ! ip) i)"
    if "i < MAXFILE * BSIZE" for i
    using A(2)[OF that] B(3)[OF that] by (auto simp: nth_append)
  have new: "owned C2 (I2 ! ip) ((off + j) div BSIZE) \<noteq> 0" if j: "j < length (bs @ cs)" for j
  proof (cases "j < length bs")
    case True
    then show ?thesis using A(4)[OF True] B(4)[OF in_file[OF j]] by simp
  next
    case False
    then show ?thesis using B(5)[of "j - length bs"] j by simp
  qed
  have same: "I2 = I" if all: "\<forall>j < length (bs @ cs). owned C (I ! ip) ((off + j) div BSIZE) \<noteq> 0"
  proof -
    have "\<forall>j < length bs. owned C (I ! ip) ((off + j) div BSIZE) \<noteq> 0" using all by simp
    then have "I1 = I" using A(5) by blast
    moreover have "owned C1 (I1 ! ip) ((off + length bs + j) div BSIZE) \<noteq> 0" if "j < length cs" for j
    proof -
      have "owned C (I ! ip) ((off + (length bs + j)) div BSIZE) \<noteq> 0" using all that by simp
      then show ?thesis using A(3)[OF in_file[of "length bs + j"]] that by (simp add: add.assoc)
    qed
    ultimately show ?thesis using B(6) by blast
  qed
  show ?thesis unfolding wrote_def
  proof (intro conjI)
    show "\<forall>k < MAXFILE. owned C (I ! ip) k \<noteq> 0 \<longrightarrow> owned C2 (I2 ! ip) k = owned C (I ! ip) k" using A(3) B(4) by metis
    show "bs @ cs \<noteq> [] \<longrightarrow> es2 \<noteq> []" "es \<noteq> [] \<longrightarrow> es2 \<noteq> []" using A(6,7) B(7,8) by auto
    show "log_pot E ip es2 I2 \<le> log_pot E ip es I + (m + n)" "free_pot E ip C I \<le> free_pot E ip C2 I2 + (m + n)"
      using A(8,9) B(9,10) by linarith+
    show "file_at E ip C2 I2" by (rule B(1))
    show "evolves E ip C I C2 I2" by (rule evolves_trans[OF A(1) B(2) f])
  qed (use byte new same in blast)+
qed

text \<open>One round of the loop.\<close>

lemma write_round:
  assumes v: "tx E Map.empty C es I s" and f: "file_at E ip C I" and off: "unat off div BSIZE < MAXFILE"
    and l: "log_pot E ip es I + 2 < LOGSIZE" and free: "2 \<le> free_pot E ip C I"
    and p: "unat off mod BSIZE + length piece \<le> BSIZE" and ne: "piece \<noteq> []"
  shows "\<exists>a b s1 t u v w C' es' I'. bmap ip (off div of_nat BSIZE) s = Ret a s1 \<and> i_dev (ino s1 ip) = 1 \<and> bread 1 a s1 = Ret b t \<and>
    seen_byte t = e_mem E \<and> set_bdata b (put_range (unat off mod BSIZE) piece) t = Ret () u \<and> log_write b u = Ret () v \<and>
    brelse b v = Ret () w \<and> tx E Map.empty C' es' I' w \<and> wrote E ip (unat off) piece 1 C es I C' es' I'"
proof -
  let ?k = "unat off div BSIZE" and ?o = "unat off mod BSIZE"
  have bn: "unat (off div of_nat BSIZE) = ?k" by (simp add: BSIZE_def unat_div)
  obtain a s1 C1 es1 I1 where b: "bmap ip (off div of_nat BSIZE) s = Ret a s1" "tx E Map.empty C1 es1 I1 s1"
    "gets_block E ip ?k C es I a C1 es1 I1"
    using bmap_gets[OF v f _ l free, of "off div of_nat BSIZE"] off unfolding bn by blast
  have G: "file_at E ip C1 I1" "owned C1 (I1 ! ip) ?k = a" "a \<noteq> 0" "evolves E ip C I C1 I1"
    "\<forall>i < MAXFILE * BSIZE. file_byte C1 (I1 ! ip) i = file_byte C (I ! ip) i"
    "free_pot E ip C I \<le> free_pot E ip C1 I1 + 1"
    using b(3) off by (auto simp: gets_block_def)
  have lp: "log_pot E ip es1 I1 + (if a \<in> set es1 then 0 else 1) \<le> log_pot E ip es I + 1"
    using b(3) by (auto simp: gets_block_def split: if_splits)
  have le: "length es1 + 1 < LOGSIZE"
    using lp l log_use_length[of es1 "e_sb E"] by (simp add: log_pot_def split: if_splits)
  let ?C = "C1(a := put_range ?o piece (C1 a))"
  note w = write_at_ok[OF b(2) G(1) off G(2,3) le p]
  have ok: "?k * BSIZE + ?o = unat off" by (rule div_mult_mod_eq)
  have dk: "(unat off + j) div BSIZE = ?k" if "j < length piece" for j
  proof (rule div_nat_eqI)
    note mult_div_mod_eq[of BSIZE "unat off"]
    then show "BSIZE * ?k \<le> unat off + j" "unat off + j < BSIZE * Suc ?k" using that p by (simp_all only: mult_Suc_right)
  qed
  have own: "\<forall>k < MAXFILE. owned C (I ! ip) k \<noteq> 0 \<longrightarrow> owned ?C (I1 ! ip) k = owned C (I ! ip) k"
    "owned ?C (I1 ! ip) ?k \<noteq> 0" "owned C (I ! ip) ?k \<noteq> 0 \<Longrightarrow> I1 = I"
    unfolding w(7) using b(3) G(2,3) by (auto simp: gets_block_def)
  have "wrote E ip (unat off) piece 1 C es I ?C (log_add a es1) I1"
    unfolding wrote_def
  proof (intro conjI)
    show "(\<forall>j < length piece. owned C (I ! ip) ((unat off + j) div BSIZE) \<noteq> 0) \<longrightarrow> I1 = I"
      using own(3) dk[of 0] ne by auto
    show "piece \<noteq> [] \<longrightarrow> log_add a es1 \<noteq> []" "es \<noteq> [] \<longrightarrow> log_add a es1 \<noteq> []" by (auto simp: log_add_def)
    show "log_pot E ip (log_add a es1) I1 \<le> log_pot E ip es I + 1" using w(5) lp by linarith
    show "free_pot E ip C I \<le> free_pot E ip ?C I1 + 1" unfolding w(6) by (rule G(6))
    show "\<forall>i < MAXFILE * BSIZE. file_byte ?C (I1 ! ip) i =
       (if unat off \<le> i \<and> i < unat off + length piece then piece ! (i - unat off) else file_byte C (I ! ip) i)"
      using w(4) G(5) unfolding ok by simp
    show "\<forall>j < length piece. owned ?C (I1 ! ip) ((unat off + j) div BSIZE) \<noteq> 0" using own(2) dk by simp
  qed (use w(2) own(1) evolves_trans[OF G(4) w(3) f] in simp_all)
  moreover have "i_dev (ino s1 ip) = 1" using tx_ino[OF b(2)] file_atD(4)[OF G(1)] by simp
  moreover have "seen_byte s1 = e_mem E" using b(2) by (simp add: tx_def)
  ultimately show ?thesis using b(1) w(1) by metis
qed

lemma writei_loop_ok:
  assumes "tx E Map.empty C es I s" "file_at E ip C I" "tot \<le> n" "unat n - unat tot < k"
    and "unat off + (unat n - unat tot) \<le> MAXFILE * BSIZE" "source_gives (e_mem E) src bs" "length bs = unat n"
    and "log_pot E ip es I + span (unat off) (unat n - unat tot) + 1 < LOGSIZE"
    and "span (unat off) (unat n - unat tot) < free_pot E ip C I"
  shows "\<exists>t C' es' I'. writei_loop k ip src off tot n s = Ret (off + (n - tot)) t \<and> tx E Map.empty C' es' I' t \<and>
    wrote E ip (unat off) (drop (unat tot) bs) (span (unat off) (unat n - unat tot)) C es I C' es' I'"
  using assms
proof (induction k arbitrary: off tot s C es I)
  case (Suc k)
  show ?case
  proof (cases "tot < n")
    case False
    then have "tot = n" using Suc.prems(3) by simp
    then show ?thesis using Suc.prems wrote_nothing by (fastforce simp: kret_def span_def)
  next
    case True
    let ?m = "chunk off tot n" and ?len = "unat n - unat tot"
    have lt: "unat tot < unat n" using True by (simp add: word_less_nat_alt)
    have m: "?m = min ?len (BSIZE - unat off mod BSIZE)" using Suc.prems(3) by (simp add: chunk_def unat_sub)
    have B: "unat off mod BSIZE < BSIZE" by (simp add: BSIZE_def)
    have m1: "1 \<le> ?m" "?m \<le> ?len" "unat off mod BSIZE + ?m \<le> BSIZE" using m lt B by auto
    have sp: "span (unat off) ?len = span (unat off + ?m) (?len - ?m) + 1" using span_step[OF _ m] lt by simp
    let ?piece = "take ?m (drop (unat tot) bs)"
    have pl: "length ?piece = ?m" using m1(2) lt Suc.prems(7) by simp
    have pB: "unat off mod BSIZE + length ?piece \<le> BSIZE" using pl m1(3) by simp
    have "unat off < MAXFILE * BSIZE" using Suc.prems(5) lt by linarith
    then have k: "unat off div BSIZE < MAXFILE" by (simp add: less_mult_imp_div_less)
    have r: "log_pot E ip es I + 2 < LOGSIZE" "2 \<le> free_pot E ip C I" using Suc.prems(8,9) sp by simp_all
    have "?piece \<noteq> []" using pl m1(1) by auto
    from write_round[OF Suc.prems(1,2) k r pB this] obtain a b s1 t u v w C1 es1 I1 where
      q: "bmap ip (off div of_nat BSIZE) s = Ret a s1" "i_dev (ino s1 ip) = 1" "bread 1 a s1 = Ret b t" "seen_byte t = e_mem E"
        "set_bdata b (put_range (unat off mod BSIZE) ?piece) t = Ret () u" "log_write b u = Ret () v" "brelse b v = Ret () w"
        "tx E Map.empty C1 es1 I1 w" and wr: "wrote E ip (unat off) ?piece 1 C es I C1 es1 I1" by blast
    have ft: "fetch src (unat tot) ?m t = Ret ?piece t"
      by (rule fetch_ok) (use q(4) Suc.prems(6,7) m1(2) lt in simp_all)
    have mw: "unat (of_nat ?m :: u32) = ?m" using m1(2) unsigned_less[of n, where 'a = nat] by (simp add: unat_of_nat)
    have o': "unat (off + of_nat ?m) = unat off + ?m"
      using m1(2) mw Suc.prems(5) by (simp add: unat_word_ariths MAXFILE_def NDIRECT_def NINDIRECT_def BSIZE_def)
    have t': "unat (tot + of_nat ?m) = unat tot + ?m"
      using m1(2) mw lt unsigned_less[of n, where 'a = nat] by (simp add: unat_word_ariths)
    have run: "writei_loop (Suc k) ip src off tot n s = writei_loop k ip src (off + of_nat ?m) (tot + of_nat ?m) n w"
      using True q(1-3,5-7) ft by (simp add: kbind_def inode_dev_def kget_def Let_def)
    have W: "file_at E ip C1 I1" "log_pot E ip es1 I1 \<le> log_pot E ip es I + 1" "free_pot E ip C I \<le> free_pot E ip C1 I1 + 1"
      using wr by (auto simp: wrote_def)
    have len': "unat n - unat (tot + of_nat ?m) = ?len - ?m" using t' by simp
    have "\<exists>x C' es' I'. writei_loop k ip src (off + of_nat ?m) (tot + of_nat ?m) n w =
        Ret (off + of_nat ?m + (n - (tot + of_nat ?m))) x \<and> tx E Map.empty C' es' I' x \<and>
      wrote E ip (unat (off + of_nat ?m)) (drop (unat (tot + of_nat ?m)) bs) (span (unat (off + of_nat ?m)) (unat n - unat (tot + of_nat ?m)))
        C1 es1 I1 C' es' I'"
    proof (rule Suc.IH[OF q(8) W(1)])
      show "tot + of_nat ?m \<le> n" using t' m1(2) lt by (simp add: word_le_nat_alt)
      show "unat n - unat (tot + of_nat ?m) < k" unfolding t' using m1 lt Suc.prems(4) by linarith
    qed (use o' len' m1 lt sp W Suc.prems in auto)
    then obtain x C' es' I' where x: "writei_loop k ip src (off + of_nat ?m) (tot + of_nat ?m) n w = Ret (off + (n - tot)) x"
      "tx E Map.empty C' es' I' x"
      "wrote E ip (unat off + length ?piece) (drop (unat tot + ?m) bs) (span (unat off + ?m) (?len - ?m)) C1 es1 I1 C' es' I'"
      unfolding o' len' t' pl by (auto simp: algebra_simps)
    have "?piece @ drop (unat tot + ?m) bs = drop (unat tot) bs" by (metis append_take_drop_id drop_drop add.commute)
    moreover have "length (drop (unat tot) bs) = ?len" using Suc.prems(7) by simp
    ultimately have "unat off + length (?piece @ drop (unat tot + ?m) bs) \<le> MAXFILE * BSIZE" using Suc.prems(5) by simp
    with \<open>?piece @ _ = _\<close> show ?thesis using wrote_trans[OF Suc.prems(2) wr x(3)] run x(1,2) sp by auto
  qed
qed simp

end
