(* ===== verification/Write_Correct.thy ===== *)
theory Write_Correct
  imports File_Write Transaction
begin

text \<open>
  \<open>writei\<close> and the transaction around it: the content of the file after a write, and after a crash
  during its commit.
\<close>

section \<open>\<open>iupdate\<close>\<close>

text \<open>The block of the disk that holds the inode.\<close>

definition inode_block :: "fsenv \<Rightarrow> inode \<Rightarrow> u32" where
  "inode_block E x = IBLOCK (i_inum x) (e_sb E)"

lemma inode_block:
  assumes "file_at E ip C I"
  shows "unat (sb_inodestart (e_sb E)) \<le> unat (inode_block E (I ! ip))" "unat (inode_block E (I ! ip)) < unat (sb_bmapstart (e_sb E))"
    "inode_block E (I ! ip) \<notin> bitmaps (e_sb E)" "b \<in> blocks_of C y \<Longrightarrow> file_ok (allocated (e_sb E) C) C y \<Longrightarrow> b \<noteq> inode_block E (I ! ip)"
    "unat (inode_block E (I ! ip)) < e_blocks E" "\<not> before_inodes (e_sb E) (inode_block E (I ! ip))"
proof -
  let ?sb = "e_sb E" and ?n = "i_inum (I ! ip)"
  note F = file_atD[OF assms]
  have L: "unat (sb_inodestart ?sb) + unat (sb_ninodes ?sb) div 8 + 1 \<le> unat (sb_bmapstart ?sb)"
    using F(1) by (simp add: layout_def)
  have "unat ?n div 8 \<le> unat (sb_ninodes ?sb) div 8" using F(5) by (intro div_le_mono) simp
  moreover have "unat (IPB :: u32) = 8" by (simp add: IPB_def BSIZE_def SIZEOF_DINODE_def)
  ultimately have e: "unat (inode_block E (I ! ip)) = unat ?n div 8 + unat (sb_inodestart ?sb)"
    using L unsigned_less[of "sb_bmapstart ?sb", where 'a = nat] by (simp add: inode_block_def IBLOCK_def unat_word_ariths unat_div)
  show 1: "unat (sb_inodestart ?sb) \<le> unat (inode_block E (I ! ip))" "unat (inode_block E (I ! ip)) < unat (sb_bmapstart ?sb)"
    using e L \<open>unat ?n div 8 \<le> unat (sb_ninodes ?sb) div 8\<close> by simp_all
  show "inode_block E (I ! ip) \<notin> bitmaps ?sb" using 1 by (simp add: bitmaps_def)
  show "b \<noteq> inode_block E (I ! ip)" if "b \<in> blocks_of C y" "file_ok (allocated ?sb C) C y"
  proof
    note b1 = that(1)
    assume b: "b = inode_block E (I ! ip)"
    obtain k where k: "k \<le> MAXFILE" "b = owned C y k" "b \<noteq> 0" using b1 by (rule blocks_ofE)
    then have "data_start ?sb \<le> unat b" using file_okD(2)[OF that(2) k(1)] by (simp add: allocated_def)
    then show False using 1(2) b layout_order(2)[OF F(1)] by simp
  qed
  show "unat (inode_block E (I ! ip)) < e_blocks E" using 1(2) layout_order(2,3)[OF F(1)] by simp
  show "\<not> before_inodes ?sb (inode_block E (I ! ip))" by (rule not_in_log[OF F(1) 1(1)])
qed

lemma length_put_words [simp]: "length (put_words i ws bs) = length bs"
  by (induction ws arbitrary: i bs) simp_all

lemma length_encode_dinode [simp]: "length (encode_dinode i x bs) = length bs"
  by (simp add: encode_dinode_def)

definition put_inode :: "fsenv \<Rightarrow> inode \<Rightarrow> (u32 \<Rightarrow> u8 list) \<Rightarrow> u32 \<Rightarrow> u8 list" where
  "put_inode E x C = C(inode_block E x := encode_dinode (dinode_at (i_inum x)) x (C (inode_block E x)))"

lemma iupdate_ok:
  assumes v: "tx E Map.empty C es I s" and f: "file_at E ip C I" and l: "length es + 1 < LOGSIZE"
  shows "\<exists>t. iupdate ip s = Ret () t \<and> tx E Map.empty (put_inode E (I ! ip) C) (log_add (inode_block E (I ! ip)) es) I t"
proof -
  let ?x = "I ! ip" and ?b = "inode_block E (I ! ip)"
  note ib = inode_block[OF f]
  have r: "card (dom (Map.empty :: nat \<Rightarrow> u32 option)) \<le> 1" and e: "?b \<notin> Map.ran (Map.empty :: nat \<Rightarrow> u32 option)" by simp_all
  have room: "card (dom (Map.empty :: nat \<Rightarrow> u32 option)) + card (set es) < NBUF" by (rule tx_room[OF l r])
  obtain b t where b: "bread 1 ?b s = Ret b t" "tx E [b \<mapsto> ?b] C es I t" using tx_bread[OF v ib(5) e room] by auto
  let ?f = "encode_dinode (dinode_at (i_inum ?x)) ?x"
  have lf: "length (?f (C ?b)) = BSIZE" using tx_len[OF v ib(5)] by simp
  obtain u where u: "set_bdata b ?f t = Ret () u" "tx E [b \<mapsto> ?b] (C(?b := ?f (C ?b))) es I u"
    using tx_set_bdata[where f = ?f, OF b(2) fun_upd_same lf] by blast
  obtain w where w: "log_write b u = Ret () w" "tx E [b \<mapsto> ?b] (C(?b := ?f (C ?b))) (log_add ?b es) I w"
    using tx_log_write[OF u(2) fun_upd_same ib(5,6) l] by blast
  have "?b \<in> set (log_add ?b es) \<or> (C(?b := ?f (C ?b))) ?b = disk_block (e_disk E) (unat ?b)" by simp
  from tx_brelse[OF w(2) fun_upd_same this] obtain z where
    z: "brelse b w = Ret () z" "tx E ([b \<mapsto> ?b](b := None)) (C(?b := ?f (C ?b))) (log_add ?b es) I z" by blast
  have "k_sb s = e_sb E" "ino s ip = ?x" "ino t ip = ?x" using v tx_ino[OF v] tx_ino[OF b(2)] by (simp_all add: tx_def)
  then have "iupdate ip s = Ret () z"
    using b(1) u(1) w(1) z(1) file_atD(4)[OF f] by (simp add: iupdate_def kbind_def kget_def inode_block_def)
  then show ?thesis using z(2) upd_None[of b Map.empty ?b] by (auto simp: put_inode_def)
qed

lemma inode_block_size [simp]: "inode_block E (x\<lparr>i_size := v\<rparr>) = inode_block E x"
  by (simp add: inode_block_def)

section \<open>A file in order\<close>

text \<open>The inode on the disk is the one in the cache.\<close>

definition synced :: "fsenv \<Rightarrow> (u32 \<Rightarrow> u8 list) \<Rightarrow> inode \<Rightarrow> bool" where
  "synced E C x \<longleftrightarrow> decode_dinode (dinode_at (i_inum x)) (C (inode_block E x)) x = x"

definition good_file :: "fsenv \<Rightarrow> nat \<Rightarrow> (u32 \<Rightarrow> u8 list) \<Rightarrow> inode list \<Rightarrow> bool" where
  "good_file E ip C I \<longleftrightarrow> file_at E ip C I \<and> synced E C (I ! ip) \<and> no_holes C (I ! ip)"

lemma synced_put_inode:
  assumes "file_at E ip C I" "length (C (inode_block E (I ! ip))) = BSIZE"
  shows "synced E (put_inode E (I ! ip) C) (I ! ip)"
proof -
  have "dinode_at n + SIZEOF_DINODE \<le> BSIZE" for n
    by (simp add: dinode_at_slot SIZEOF_DINODE_def BSIZE_def)
  then show ?thesis
    using decode_encode_same[of "dinode_at (i_inum (I ! ip))" "C (inode_block E (I ! ip))" "I ! ip" "I ! ip"] assms(2)
      file_okD(1)[OF file_atD(6)[OF assms(1)]]
    by (simp add: synced_def put_inode_def)
qed

lemma put_inode_file:
  assumes f: "file_at E ip C I"
  shows "file_at E ip (put_inode E (I ! ip) C) I" "owned (put_inode E (I ! ip) C) (I ! ip) k = owned C (I ! ip) k"
    "i < MAXFILE * BSIZE \<Longrightarrow> file_byte (put_inode E (I ! ip) C) (I ! ip) i = file_byte C (I ! ip) i"
proof -
  note ib = inode_block[OF f]
  note F = file_atD[OF f]
  have same: "put_inode E (I ! ip) C b = C b" if "b \<in> blocks_of C (I ! ip)" for b
    using ib(4)[OF that F(6)] by (simp add: put_inode_def)
  note fc = file_cong[of C "I ! ip" "put_inode E (I ! ip) C", OF same]
  have bm: "put_inode E (I ! ip) C n = C n" if "n \<in> bitmaps (e_sb E)" for n using ib(3) that by (auto simp: put_inode_def)
  show "file_at E ip (put_inode E (I ! ip) C) I"
    by (rule file_at_content(1)[OF f bm]) (use fc(4) F(6) in simp_all)
  show "owned (put_inode E (I ! ip) C) (I ! ip) k = owned C (I ! ip) k" by (rule fc(1))
  show "file_byte (put_inode E (I ! ip) C) (I ! ip) i = file_byte C (I ! ip) i" if "i < MAXFILE * BSIZE" by (rule fc(3)[OF _ that])
qed

section \<open>\<open>writei\<close>\<close>

lemma file_at_size: "file_at E ip C I \<Longrightarrow> file_at E ip C (I[ip := (I ! ip)\<lparr>i_size := v\<rparr>])"
  by (simp add: file_at_def)

text \<open>A write in the range of the file, into a file in order.\<close>

definition may_write :: "fsenv \<Rightarrow> nat \<Rightarrow> source \<Rightarrow> u8 list \<Rightarrow> u32 \<Rightarrow> (u32 \<Rightarrow> u8 list) \<Rightarrow> u32 list \<Rightarrow> inode list \<Rightarrow> bool" where
  "may_write E ip src bs off C es I \<longleftrightarrow> good_file E ip C I \<and> i_type (I ! ip) \<noteq> T_DEV \<and> source_gives (e_mem E) src bs \<and>
     unat off \<le> unat (i_size (I ! ip)) \<and> unat off + length bs \<le> MAXFILE * BSIZE \<and>
     log_pot E ip es I + span (unat off) (length bs) + 1 < LOGSIZE \<and> span (unat off) (length bs) < free_pot E ip C I"

lemma writei_ok:
  assumes v: "tx E Map.empty C es I s" and m: "may_write E ip src bs off C es I" and n: "length bs = unat n"
  shows "\<exists>t C' es' I'. writei ip src off n s = Ret (uint n) t \<and> tx E Map.empty C' es' I' t \<and> good_file E ip C' I' \<and>
    (\<forall>i < MAXFILE * BSIZE. file_byte C' (I' ! ip) i =
      (if unat off \<le> i \<and> i < unat off + length bs then bs ! (i - unat off) else file_byte C (I ! ip) i)) \<and>
    unat (i_size (I' ! ip)) = max (unat (i_size (I ! ip))) (unat off + length bs) \<and> i_inum (I' ! ip) = i_inum (I ! ip) \<and>
    (\<forall>j. j \<noteq> ip \<longrightarrow> I' ! j = I ! j) \<and> (bs \<noteq> [] \<longrightarrow> es' \<noteq> []) \<and>
    (\<forall>b. b \<notin> blocks_of C (I ! ip) \<longrightarrow> allocated (e_sb E) C b \<longrightarrow> C' b = C b) \<and>
    length es' \<le> log_pot E ip es I + span (unat off) (length bs) + 1"
proof -
  let ?x = "I ! ip"
  have M: "file_at E ip C I" "synced E C ?x" "no_holes C ?x" "i_type ?x \<noteq> T_DEV" "source_gives (e_mem E) src bs"
    "unat off \<le> unat (i_size ?x)" "unat off + unat n \<le> MAXFILE * BSIZE"
    "log_pot E ip es I + span (unat off) (unat n) + 1 < LOGSIZE" "span (unat off) (unat n) < free_pot E ip C I"
    using m n by (simp_all add: may_write_def good_file_def)
  note F = file_atD[OF M(1)]
  have max: "MAXFILE * BSIZE = 71680" by (simp add: MAXFILE_def NDIRECT_def NINDIRECT_def BSIZE_def)
  have on: "unat (off + n) = unat off + unat n" using M(7) max by (simp add: unat_word_ariths)
  have "\<exists>t C' es' I'. writei_loop (Suc (unat n)) ip src off 0 n s = Ret (off + (n - 0)) t \<and> tx E Map.empty C' es' I' t \<and>
    wrote E ip (unat off) (drop (unat (0 :: u32)) bs) (span (unat off) (unat n - unat (0 :: u32))) C es I C' es' I'"
    by (rule writei_loop_ok[OF v M(1)]) (use M n in simp_all)
  then obtain t1 C1 es1 I1 where t1: "writei_loop (Suc (unat n)) ip src off 0 n s = Ret (off + n) t1" "tx E Map.empty C1 es1 I1 t1"
    and w: "wrote E ip (unat off) bs (span (unat off) (unat n)) C es I C1 es1 I1" by auto
  let ?x1 = "I1 ! ip"
  have W: "file_at E ip C1 I1" "evolves E ip C I C1 I1"
    "\<And>i. i < MAXFILE * BSIZE \<Longrightarrow> file_byte C1 ?x1 i = (if unat off \<le> i \<and> i < unat off + length bs then bs ! (i - unat off) else file_byte C ?x i)"
    "\<And>k. k < MAXFILE \<Longrightarrow> owned C ?x k \<noteq> 0 \<Longrightarrow> owned C1 ?x1 k = owned C ?x k"
    "\<And>j. j < length bs \<Longrightarrow> owned C1 ?x1 ((unat off + j) div BSIZE) \<noteq> 0"
    "(\<forall>j < length bs. owned C ?x ((unat off + j) div BSIZE) \<noteq> 0) \<longrightarrow> I1 = I" "bs \<noteq> [] \<longrightarrow> es1 \<noteq> []"
    "log_pot E ip es1 I1 \<le> log_pot E ip es I + span (unat off) (unat n)"
    using w by (simp_all add: wrote_def)
  have I1: "I1 = I[ip := ?x\<lparr>i_addrs := i_addrs ?x1\<rparr>]" using W(2) by (simp only: evolves_def)
  have x1: "?x1 = ?x\<lparr>i_addrs := i_addrs ?x1\<rparr>" by (subst I1) (simp add: F(3))
  have sz: "i_size ?x1 = i_size ?x" "i_inum ?x1 = i_inum ?x" by (subst x1, simp)+
  have ib: "inode_block E ?x1 = inode_block E ?x" using sz(2) by (simp add: inode_block_def)
  have other: "I1 ! j = I ! j" if "j \<noteq> ip" for j using that by (subst I1) simp
  have keep: "C1 b = C b" if "b \<notin> blocks_of C ?x" "allocated (e_sb E) C b \<or> unat b < unat (sb_bmapstart (e_sb E))" for b
    using W(2) that unfolding evolves_def by blast
  have holes: "owned C1 ?x1 (i div BSIZE) \<noteq> 0" if "i < max (unat (i_size ?x)) (unat off + length bs)" for i
  proof (cases "i < unat (i_size ?x)")
    case True
    then have "owned C ?x (i div BSIZE) \<noteq> 0" "i div BSIZE < MAXFILE"
      using M(3) by (auto simp: no_holes_def less_mult_imp_div_less)
    then show ?thesis using W(4) by simp
  next
    case False
    then have "i = unat off + (i - unat off)" "i - unat off < length bs" using that M(6) by auto
    then show ?thesis using W(5) by metis
  qed
  have le1: "length es1 + 1 < LOGSIZE" using W(8) M(8) log_use_length[of es1 "e_sb E"] by (simp add: log_pot_def split: if_splits)
  have le2: "length es1 \<le> log_pot E ip es I + span (unat off) (length bs)"
    using W(8) log_use_length[of es1 "e_sb E"] n by (simp add: log_pot_def split: if_splits)
  have run: "writei ip src off n s = kbind (kwhen (\<lambda>s. 0 < n \<and> i_size (ino s ip) < off + n) (kseq [
         kupd (upd_ino ip (\<lambda>x. x\<lparr>i_size := off + n\<rparr>)), iupdate ip])) (\<lambda>_. kret (uint n)) t1"
  proof -
    have "\<not> i_size ?x < off" "\<not> off + n < off" "\<not> of_nat (MAXFILE * BSIZE) < off + n"
      using M(6,7) on max by (simp_all add: word_less_nat_alt)
    then show ?thesis using t1(1) tx_ino[OF v, of ip] M(4) by (simp add: writei_def kbind_def kget_def)
  qed
  have x1s: "ino t1 ip = ?x1" by (rule tx_ino[OF t1(2)])
  show ?thesis
  proof (cases "0 < n \<and> i_size ?x < off + n")
    case True
    then have gr: "unat (i_size ?x) < unat off + unat n" "0 < unat n" using on by (simp_all add: word_less_nat_alt)
    define I2 where "I2 = I1[ip := ?x1\<lparr>i_size := off + n\<rparr>]"
    have ipl: "ip < length I1" by (rule file_atD(3)[OF W(1)])
    have x2: "I2 ! ip = ?x1\<lparr>i_size := off + n\<rparr>" using ipl by (simp add: I2_def)
    have f2: "file_at E ip C1 I2" using file_at_size[OF W(1)] by (simp add: I2_def)
    have t2: "tx E Map.empty C1 es1 I2 (upd_ino ip (\<lambda>x. x\<lparr>i_size := off + n\<rparr>) t1)"
      using tx_inodes[OF t1(2), of I2] t1(2) by (simp add: upd_ino_def tx_def I2_def)
    obtain t3 where t3: "iupdate ip (upd_ino ip (\<lambda>x. x\<lparr>i_size := off + n\<rparr>) t1) = Ret () t3"
      "tx E Map.empty (put_inode E (I2 ! ip) C1) (log_add (inode_block E (I2 ! ip)) es1) I2 t3"
      using iupdate_ok[OF t2 f2 le1] by blast
    let ?C = "put_inode E (I2 ! ip) C1" and ?es = "log_add (inode_block E (I2 ! ip)) es1"
    note pf = put_inode_file[OF f2]
    have "good_file E ip ?C I2"
    proof -
      have "synced E ?C (I2 ! ip)" using synced_put_inode[OF f2] tx_len[OF t2 inode_block(5)[OF f2]] by simp
      moreover have "no_holes ?C (I2 ! ip)"
        using holes gr M(7) n on by (simp add: no_holes_def pf(2)) (simp add: x2)
      ultimately show ?thesis using pf(1) by (simp add: good_file_def)
    qed
    moreover have "writei ip src off n s = Ret (uint n) t3"
      using run True t3(1) x1s sz by (simp add: kwhen_def kbind_def kupd_def kret_def)
    moreover have "file_byte ?C (I2 ! ip) i = (if unat off \<le> i \<and> i < unat off + length bs then bs ! (i - unat off) else file_byte C ?x i)"
      if "i < MAXFILE * BSIZE" for i using pf(3)[OF that] W(3)[OF that] x2 by simp
    moreover have "unat (i_size (I2 ! ip)) = max (unat (i_size ?x)) (unat off + length bs)" using gr on n x2 by simp
    moreover have "I2 ! j = I ! j" if "j \<noteq> ip" for j using that other by (simp add: I2_def)
    moreover have "?C b = C b" if "b \<notin> blocks_of C ?x" "allocated (e_sb E) C b" for b
    proof -
      have "b \<noteq> inode_block E (I2 ! ip)"
        using that(2) inode_block(2)[OF M(1)] layout_order(2)[OF F(1)] x2 ib by (auto simp: allocated_def)
      then show ?thesis using keep[OF that(1)] that(2) by (simp add: put_inode_def)
    qed
    moreover have "length ?es \<le> log_pot E ip es I + span (unat off) (length bs) + 1" using le2 length_log_add[of "inode_block E (I2 ! ip)" es1] by simp
    moreover have "?es \<noteq> []" by (auto simp: log_add_def)
    moreover have "i_inum (I2 ! ip) = i_inum ?x" using x2 sz by simp
    ultimately show ?thesis using t3(2)
      by (intro exI[of _ t3] exI[of _ ?C] exI[of _ ?es] exI[of _ I2] conjI allI impI) assumption+
  next
    case False
    then have ng: "unat off + unat n \<le> unat (i_size ?x)"
      using on M(6) by (auto simp: word_less_nat_alt not_less)
    have "\<forall>j < length bs. owned C ?x ((unat off + j) div BSIZE) \<noteq> 0" using M(3) ng n by (simp add: no_holes_def)
    then have II: "I1 = I" using W(6) by blast
    have "good_file E ip C1 I1"
    proof -
      have "C1 (inode_block E ?x) = C (inode_block E ?x)"
        using keep[of "inode_block E ?x"] inode_block(2,4)[OF M(1)] F(6) by blast
      then have "synced E C1 ?x1" using M(2) II by (simp add: synced_def)
      moreover have "no_holes C1 ?x1" using holes M(3) sz by (simp add: no_holes_def)
      ultimately show ?thesis using W(1) by (simp add: good_file_def)
    qed
    moreover have "writei ip src off n s = Ret (uint n) t1"
      using run False x1s sz by (auto simp: kwhen_def kbind_def kret_def)
    moreover have "unat (i_size ?x1) = max (unat (i_size ?x)) (unat off + length bs)" using ng n sz by simp
    moreover have "length es1 \<le> log_pot E ip es I + span (unat off) (length bs) + 1" using le2 by simp
    moreover have "C1 b = C b" if "b \<notin> blocks_of C ?x" "allocated (e_sb E) C b" for b using keep that by blast
    ultimately show ?thesis using t1(2) W(3) W(7)[rule_format] other sz(2)
      by (intro exI[of _ t1] exI[of _ C1] exI[of _ es1] exI[of _ I1] conjI allI impI) assumption+
  qed
qed

section \<open>A write that is committed\<close>

text \<open>The superblock is on the disk, and its log is empty.\<close>

definition clean_log :: "fsenv \<Rightarrow> bool" where
  "clean_log E \<longleftrightarrow> unat (sb_logstart (e_sb E)) < 2 ^ 31 \<and>
     get32 (disk_block (e_disk E) (unat (sb_logstart (e_sb E)))) 0 = 0 \<and> decode_sb (disk_block (e_disk E) 1) = e_sb E"

lemma tx_ready:
  assumes v: "tx E Map.empty C es I s" and lay: "layout (e_blocks E) (e_sb E)" and cl: "clean_log E" and ne: "es \<noteq> []"
  shows "ready_to_commit (e_thread E) (unat (sb_logstart (e_sb E))) es s" "content s = C" "k_disk s = e_disk E"
proof -
  let ?ls = "unat (sb_logstart (e_sb E))"
  obtain lg where lg: "view Map.empty (e_thread E) (e_disk E) C (set es) (k_dwrites s) lg s" "log_ok (e_blocks E) ?ls es lg"
    "\<forall>e \<in> set es. \<not> before_inodes (e_sb E) e"
    using v by (auto simp: tx_def)
  show C: "content s = C" "k_disk s = e_disk E" using lg(1) by (simp_all add: view_def)
  have L: "2 \<le> ?ls" "?ls + LOGSIZE \<le> unat (sb_inodestart (e_sb E))" "data_start (e_sb E) \<le> e_blocks E"
    using lay by (simp_all add: layout_def)
  then have "before_inodes (e_sb E) 1" "\<not> in_log ?ls 1" "1 < e_blocks E"
    using layout_order[OF lay] by (auto simp: before_inodes_def in_log_def LOGSIZE_def MAXOPBLOCKS_def)
  then show "ready_to_commit (e_thread E) ?ls es s"
    using lg ne cl C(2) by (auto simp: ready_to_commit_def view_def clean_log_def disksize_def e_blocks_def)
qed

text \<open>The inode as \<open>ilock\<close> reads it from the blocks \<open>D\<close>.\<close>

definition disk_inode :: "fsenv \<Rightarrow> (u32 \<Rightarrow> u8 list) \<Rightarrow> inode \<Rightarrow> inode" where
  "disk_inode E D x = decode_dinode (dinode_at (i_inum x)) (D (inode_block E x)) x"

lemma disk_inode_content:
  assumes g: "good_file E ip C I" and D: "\<And>b. \<not> in_log (unat (sb_logstart (e_sb E))) b \<Longrightarrow> D b = C b"
    and x: "i_inum x = i_inum (I ! ip)"
  shows "file_content D (disk_inode E D x) = file_content C (I ! ip)"
proof -
  let ?y = "I ! ip"
  have G: "file_at E ip C I" "synced E C ?y" "no_holes C ?y" using g by (simp_all add: good_file_def)
  note F = file_atD[OF G(1)] and ib = inode_block[OF G(1)]
  have nl: "\<not> in_log (unat (sb_logstart (e_sb E))) b" if "\<not> before_inodes (e_sb E) b" for b
    using that by (simp add: before_inodes_def)
  have e: "inode_block E x = inode_block E ?y" using x by (simp add: inode_block_def)
  have "disk_inode E D x = decode_dinode (dinode_at (i_inum ?y)) (C (inode_block E ?y)) x"
    using D[OF nl[OF ib(6)]] x e by (simp add: disk_inode_def)
  moreover have "i_addrs (decode_dinode k bs x) = i_addrs (decode_dinode k bs ?y)" "i_size (decode_dinode k bs x) = i_size (decode_dinode k bs ?y)"
    for k bs by (simp_all add: decode_dinode_def)
  ultimately have y: "i_addrs (disk_inode E D x) = i_addrs ?y" "i_size (disk_inode E D x) = i_size ?y"
    using G(2) by (simp_all add: synced_def)
  have "file_block D (disk_inode E D x) = file_block D ?y" by (rule ext) (simp add: file_block_def y)
  then have b: "file_byte D (disk_inode E D x) i = file_byte D ?y i" for i by (simp add: file_byte_def)
  have "D b = C b" if "b \<in> blocks_of C ?y" for b
    using D[OF nl] allocated_data(2)[OF F(1)] blocks_allocated[OF G(1) that] by blast
  from file_cong(3)[OF this] have "file_byte D ?y i = file_byte C ?y i" if "i < unat (i_size ?y)" for i
    using that G(3) by (simp add: no_holes_def)
  then show ?thesis using b y(2) by (simp add: file_content_def)
qed

text \<open>
  C4. A write into a file, in a transaction with room in the log and on the disk: \<open>writei\<close> returns the
  number of bytes, the file has the new bytes at its place and the old ones elsewhere, it grows
  when it must, its inode on the disk is the one in the cache, and no other file changes. It
  enters at most as many blocks into the log as it reaches into, besides the indirect block, the
  inode and the free map.
\<close>

theorem writei_writes_file:
  assumes "tx E Map.empty C es I s" "may_write E ip src bs off C es I" "length bs = unat n"
  shows "\<exists>t C' es' I'. writei ip src off n s = Ret (uint n) t \<and> tx E Map.empty C' es' I' t \<and> good_file E ip C' I' \<and>
    file_content C' (I' ! ip) = overwrite (unat off) bs (file_content C (I ! ip)) \<and>
    (\<forall>j. j \<noteq> ip \<longrightarrow> I' ! j = I ! j) \<and>
    (\<forall>y. file_ok (allocated (e_sb E) C) C y \<and> blocks_of C y \<inter> blocks_of C (I ! ip) = {} \<longrightarrow>
      (\<forall>i < MAXFILE * BSIZE. file_byte C' y i = file_byte C y i)) \<and>
    length es' \<le> log_pot E ip es I + span (unat off) (length bs) + 1"
proof -
  obtain t C' es' I' where t: "writei ip src off n s = Ret (uint n) t" "tx E Map.empty C' es' I' t" "good_file E ip C' I'"
    and b: "\<forall>i < MAXFILE * BSIZE. file_byte C' (I' ! ip) i =
      (if unat off \<le> i \<and> i < unat off + length bs then bs ! (i - unat off) else file_byte C (I ! ip) i)"
    and z: "unat (i_size (I' ! ip)) = max (unat (i_size (I ! ip))) (unat off + length bs)"
    and o: "\<forall>j. j \<noteq> ip \<longrightarrow> I' ! j = I ! j" "\<forall>b. b \<notin> blocks_of C (I ! ip) \<longrightarrow> allocated (e_sb E) C b \<longrightarrow> C' b = C b"
      "length es' \<le> log_pot E ip es I + span (unat off) (length bs) + 1"
    using writei_ok[OF assms] by blast
  have m: "unat off \<le> unat (i_size (I ! ip))" "unat (i_size (I' ! ip)) \<le> MAXFILE * BSIZE"
    using assms(2) t(3) by (simp_all add: may_write_def good_file_def no_holes_def)
  have "file_content C' (I' ! ip) = overwrite (unat off) bs (file_content C (I ! ip))"
    unfolding file_content_def by (rule overwrite_content[OF b z m])
  moreover have "file_byte C' y i = file_byte C y i"
    if y: "file_ok (allocated (e_sb E) C) C y" "blocks_of C y \<inter> blocks_of C (I ! ip) = {}" and i: "i < MAXFILE * BSIZE" for y i
  proof (rule file_cong(3)[OF _ i])
    fix b assume b: "b \<in> blocks_of C y"
    then have "allocated (e_sb E) C b" using file_okD(2)[OF y(1)] by (auto elim!: blocks_ofE)
    then show "C' b = C b" using o(2) b y(2) by blast
  qed
  ultimately show ?thesis using t o by blast
qed

text \<open>
  C3. A write is atomic across crashes. When the transaction of a \<open>writei\<close> is committed, and the
  machine stops after any number of the block writes of the commit, then after the recovery at the
  next boot the file that the inode on the disk describes has either its old content or the new one;
  it has the new one when the commit returned.
\<close>

theorem write_survives_crash:
  assumes "tx E Map.empty C [] I s" "may_write E ip src bs off C [] I" "length bs = unat n" "bs \<noteq> []" "clean_log E"
  shows "\<exists>t u ws m. writei ip src off n s = Ret (uint n) t \<and> commit t = Ret () u \<and> k_disk u = apply_writes ws (e_disk E) \<and>
    m < length ws \<and> (\<forall>k \<le> length ws. \<forall>T' r. booted T' (apply_writes (take k ws) (e_disk E)) r \<longrightarrow>
      (\<exists>v. initlog 1 r = Ret () v \<and>
        (let D = \<lambda>b. disk_block (k_disk v) (unat b) in file_content D (disk_inode E D (I ! ip)) =
          (if k \<le> m then file_content C (I ! ip) else overwrite (unat off) bs (file_content C (I ! ip))))))"
proof -
  let ?ls = "unat (sb_logstart (e_sb E))"
  obtain t C' es' I' where t: "writei ip src off n s = Ret (uint n) t" "tx E Map.empty C' es' I' t" "good_file E ip C' I'"
    and b: "\<forall>i < MAXFILE * BSIZE. file_byte C' (I' ! ip) i =
      (if unat off \<le> i \<and> i < unat off + length bs then bs ! (i - unat off) else file_byte C (I ! ip) i)"
    and z: "unat (i_size (I' ! ip)) = max (unat (i_size (I ! ip))) (unat off + length bs)" "i_inum (I' ! ip) = i_inum (I ! ip)"
    and ne: "es' \<noteq> []"
    using writei_ok[OF assms(1-3)] assms(4) by blast
  have g: "good_file E ip C I" "unat off \<le> unat (i_size (I ! ip))" "unat (i_size (I' ! ip)) \<le> MAXFILE * BSIZE"
    using assms(2) t(3) by (simp_all add: may_write_def good_file_def no_holes_def)
  have new: "file_content C' (I' ! ip) = overwrite (unat off) bs (file_content C (I ! ip))"
    unfolding file_content_def by (rule overwrite_content[OF b z(1) g(2,3)])
  have lay: "layout (e_blocks E) (e_sb E)" using g(1) by (simp add: good_file_def file_at_def)
  note R = tx_ready[OF t(2) lay assms(5) ne]
  obtain u ws where c: "length es' < length ws" "commit t = Ret () u" "k_disk u = apply_writes ws (k_disk t)"
    and crash: "\<forall>k \<le> length ws. \<forall>T' r. booted T' (apply_writes (take k ws) (k_disk t)) r \<longrightarrow>
      (\<exists>v. initlog 1 r = Ret () v \<and> (\<forall>m. \<not> in_log ?ls m \<longrightarrow>
        disk_block (k_disk v) (unat m) = (if k \<le> length es' then disk_block (k_disk t) (unat m) else content t m)))"
    using commit_crash_safe[OF R(1)] by blast
  have old: "disk_block (e_disk E) (unat m) = C m" for m using tx_clean[OF assms(1), of m] by simp
  have "\<exists>v. initlog 1 r = Ret () v \<and> (let D = \<lambda>b. disk_block (k_disk v) (unat b) in file_content D (disk_inode E D (I ! ip)) =
      (if k \<le> length es' then file_content C (I ! ip) else overwrite (unat off) bs (file_content C (I ! ip))))"
    if k: "k \<le> length ws" and r: "booted T' (apply_writes (take k ws) (e_disk E)) r" for k T' r
  proof -
    obtain v where v: "initlog 1 r = Ret () v" "\<forall>m. \<not> in_log ?ls m \<longrightarrow>
        disk_block (k_disk v) (unat m) = (if k \<le> length es' then C m else C' m)"
      using crash[rule_format, OF k, of T' r] r unfolding R(2,3) old by blast
    let ?D = "\<lambda>b. disk_block (k_disk v) (unat b)"
    have "file_content ?D (disk_inode E ?D (I ! ip)) =
      (if k \<le> length es' then file_content C (I ! ip) else file_content C' (I' ! ip))"
      using disk_inode_content[OF g(1), of ?D "I ! ip"] disk_inode_content[OF t(3), of ?D "I ! ip"] v(2) z(2) by auto
    then show ?thesis using v(1) new by (simp add: Let_def)
  qed
  then show ?thesis using t(1) c R(3) by (intro exI[of _ t] exI[of _ u] exI[of _ ws] exI[of _ "length es'"]) auto
qed

end
