(* ===== verification/Write_Example.thy ===== *)
theory Write_Example
  imports Write_Correct
begin

text \<open>A disk with an empty file: the hypotheses of the theorems on writing can hold.\<close>

section \<open>The disk\<close>

definition ex_sb :: superblock where
  "ex_sb = \<lparr>sb_size = 64, sb_nblocks = 29, sb_ninodes = 8, sb_nlog = 30, sb_logstart = 2, sb_inodestart = 32, sb_bmapstart = 34\<rparr>"

definition ex_file :: inode where
  "ex_file = \<lparr>i_dev = 1, i_inum = 1, i_ref = 1, i_valid = True, i_type = T_FILE, i_major = 0, i_minor = 0,
     i_nlink = 1, i_size = 0, i_addrs = replicate (Suc NDIRECT) 0\<rparr>"

definition ex_super :: "u8 list" where
  "ex_super = put_words 0 [64, 29, 8, 30, 2, 32, 34] (replicate BSIZE 0)"

definition ex_inodes :: "u8 list" where
  "ex_inodes = encode_dinode (dinode_at 1) ex_file (replicate BSIZE 0)"

definition ex_map :: "u8 list" where
  "ex_map = [0xFF, 0xFF, 0xFF, 0xFF, 7] @ replicate (BSIZE - 5) 0"

definition ex_disk :: "u8 list" where
  "ex_disk = disk_write 1 ex_super (disk_write 32 ex_inodes (disk_write 34 ex_map (replicate (64 * BSIZE) 0)))"

lemma ex_lengths: "length ex_super = BSIZE" "length ex_inodes = BSIZE" "length ex_map = BSIZE"
  by (simp_all add: ex_super_def ex_inodes_def ex_map_def BSIZE_def)

lemma zero_block: "n < 64 \<Longrightarrow> disk_block (replicate (64 * BSIZE) 0) n = replicate BSIZE (0 :: u8)"
proof -
  assume "n < 64"
  then have "n * BSIZE + BSIZE \<le> 64 * BSIZE" using mult_le_mono1[of "n + 1" 64 BSIZE] by simp
  then have "min (64 * BSIZE - n * BSIZE) BSIZE = BSIZE" by linarith
  then show ?thesis by (simp add: disk_block_def get_range_def min.commute)
qed

lemma ex_disk:
  "length ex_disk div BSIZE = 64"
  "n < 64 \<Longrightarrow> disk_block ex_disk n = (if n = 1 then ex_super else if n = 32 then ex_inodes else if n = 34 then ex_map else replicate BSIZE 0)"
proof -
  let ?d0 = "replicate (64 * BSIZE) (0 :: u8)"
  have 0: "34 < length ?d0 div BSIZE" by (simp add: BSIZE_def)
  note a = disk_write_block[OF ex_lengths(3) 0]
  have 1: "32 < length (disk_write 34 ex_map ?d0) div BSIZE" using a(1) by (simp add: BSIZE_def)
  note b = disk_write_block[OF ex_lengths(2) 1]
  have 2: "1 < length (disk_write 32 ex_inodes (disk_write 34 ex_map ?d0)) div BSIZE" using a(1) b(1) by (simp add: BSIZE_def)
  note c = disk_write_block[OF ex_lengths(1) 2]
  show "length ex_disk div BSIZE = 64" using a(1) b(1) c(1) by (simp add: ex_disk_def BSIZE_def)
  show "disk_block ex_disk n = (if n = 1 then ex_super else if n = 32 then ex_inodes else if n = 34 then ex_map else replicate BSIZE 0)"
    if "n < 64" unfolding ex_disk_def a(2) b(2) c(2) zero_block[OF that] by auto
qed

definition ex_content :: "u32 \<Rightarrow> u8 list" where
  "ex_content n = disk_block ex_disk (unat n)"

lemma ex_content: "unat n < 64 \<Longrightarrow> ex_content n =
    (if n = 1 then ex_super else if n = 32 then ex_inodes else if n = 34 then ex_map else replicate BSIZE 0)"
  using ex_disk(2)[of "unat n"] by (auto simp: ex_content_def word_unat_eq_iff)

lemma ex_map_bits: "j < BPB \<Longrightarrow> bit_free ex_map j \<longleftrightarrow> 35 \<le> j"
proof -
  assume j: "j < BPB"
  then have d: "j div 8 < BSIZE" "j mod 8 < 8" by (simp_all add: BPB_def less_mult_imp_div_less)
  have m: "bit (0xFF :: u8) i" if "i < 8" for i
  proof -
    have "i = 0 \<or> i = 1 \<or> i = 2 \<or> i = 3 \<or> i = 4 \<or> i = 5 \<or> i = 6 \<or> i = 7" using that by linarith
    then show ?thesis by auto
  qed
  have s: "bit (7 :: u8) i \<longleftrightarrow> i < 3" if "i < 8" for i
  proof -
    have "i = 0 \<or> i = 1 \<or> i = 2 \<or> i = 3 \<or> i = 4 \<or> i = 5 \<or> i = 6 \<or> i = 7" using that by linarith
    then show ?thesis by auto
  qed
  have e: "ex_map ! k = (if k < 4 then 0xFF else if k = 4 then 7 else 0)" if "k < BSIZE" for k
  proof (cases "k < 5")
    case True
    then have "k = 0 \<or> k = 1 \<or> k = 2 \<or> k = 3 \<or> k = 4" by linarith
    then show ?thesis by (auto simp: ex_map_def)
  next
    case False
    then show ?thesis using that by (simp add: ex_map_def nth_append)
  qed
  have jj: "j = 8 * (j div 8) + j mod 8" by simp
  show ?thesis
  proof (cases "j div 8 < 4")
    case True
    then show ?thesis using m[OF d(2)] e[OF d(1)] jj by (simp add: bit_free_bit)
  next
    case False
    then show ?thesis using s[OF d(2)] e[OF d(1)] jj d(2) by (cases "j div 8 = 4") (auto simp: bit_free_bit)
  qed
qed

definition ex_env :: "kernel \<Rightarrow> fsenv" where
  "ex_env s = \<lparr>e_thread = ({}, 0, 1), e_disk = ex_disk, e_mem = seen_byte s, e_sb = ex_sb\<rparr>"

lemma ex_env [simp]: "e_sb (ex_env s) = ex_sb" "e_blocks (ex_env s) = 64" "e_mem (ex_env s) = seen_byte s"
  "e_disk (ex_env s) = ex_disk" "e_thread (ex_env s) = ({}, 0, 1)"
  by (simp_all add: ex_env_def e_blocks_def ex_disk(1))

lemma ex_layout: "layout 64 ex_sb" "data_start ex_sb = 35"
  by (simp_all add: layout_def ex_sb_def data_start_def BPB_def BSIZE_def LOGSIZE_def MAXOPBLOCKS_def)

lemma ex_used: "unat b < 64 \<Longrightarrow> block_used ex_sb ex_content b \<longleftrightarrow> unat b < 35"
proof -
  assume b: "unat b < 64"
  have "BBLOCK b ex_sb = 34" using unat_BBLOCK(1)[OF ex_layout(1) b] b by (simp add: ex_sb_def BPB_def BSIZE_def word_unat_eq_iff)
  then show ?thesis using b ex_map_bits[of "unat b mod BPB"]
    by (simp add: block_used_def ex_content BPB_def BSIZE_def not_le)
qed

lemma ex_owned: "k \<le> MAXFILE \<Longrightarrow> owned C ex_file k = 0"
  by (auto simp: owned_def file_block_def ex_file_def simp del: replicate_Suc)

lemma ex_good: "good_file (ex_env s) 0 ex_content [ex_file]"
proof -
  have "file_at (ex_env s) 0 ex_content [ex_file]"
    using ex_layout(1) ex_owned ex_used ex_layout(2)
    by (simp add: file_at_def fs_ok_def file_ok_def) (simp add: ex_file_def ex_sb_def)
  moreover have "inode_block (ex_env s) ex_file = 32"
    by (simp add: inode_block_def IBLOCK_def IPB_def SIZEOF_DINODE_def BSIZE_def ex_file_def ex_sb_def)
  then have "synced (ex_env s) ex_content ex_file"
    using decode_encode_same[of "dinode_at 1" "replicate BSIZE 0" ex_file ex_file]
    by (simp add: synced_def ex_content ex_inodes_def dinode_at_slot SIZEOF_DINODE_def BSIZE_def)
      (simp add: ex_file_def NDIRECT_def)
  moreover have "no_holes ex_content ex_file" by (simp add: no_holes_def ex_file_def)
  ultimately show ?thesis by (simp add: good_file_def)
qed

lemma ex_may_write: "may_write (ex_env s) 0 (From_local [1, 2, 3]) [1, 2, 3] 0 ex_content [] [ex_file]"
proof -
  have "bitmaps ex_sb = {34}" using ex_layout(2) by (auto simp: bitmaps_def ex_sb_def word_unat_eq_iff)
  moreover have "span 0 (length [1, 2, 3 :: u8]) = 1" by (simp add: span_def BSIZE_def)
  moreover have "2 \<le> card (free_blocks (ex_env s) ex_content)"
  proof -
    have "{40, 41} \<subseteq> free_blocks (ex_env s) ex_content" using ex_used[of 40] ex_used[of 41] by (simp add: free_blocks_def)
    from card_mono[OF _ this] show ?thesis by simp
  qed
  moreover have "i_addrs ex_file ! NDIRECT = 0" "i_size ex_file = 0" "i_type ex_file \<noteq> T_DEV"
    by (simp_all add: ex_file_def T_FILE_def T_DEV_def del: replicate_Suc)
  moreover have "(3 :: nat) \<le> MAXFILE * BSIZE" by (simp add: MAXFILE_def NDIRECT_def NINDIRECT_def BSIZE_def)
  ultimately show ?thesis using ex_good
    unfolding may_write_def source_gives_def log_pot_def free_pot_def log_use_def by (simp add: LOGSIZE_def MAXOPBLOCKS_def)
qed

lemma ex_tx: "\<exists>s. tx (ex_env s) Map.empty ex_content [] [ex_file] s"
proof -
  let ?T = "({}, 0, 1) :: nat set \<times> nat \<times> u32"
  obtain s1 where s1: "booted ?T ex_disk s1" "k_log s1 = k_log (running_kernel\<lparr>k_disk := ex_disk\<rparr>)"
    using booted_binit[OF running_calm[of ex_disk]] by (auto simp: running_kernel_def)
  have v1: "view Map.empty ?T ex_disk (content s1) {} (k_dwrites s1) (k_log s1) s1"
    using s1(1) by (auto simp: booted_def view_def)
  have C: "content s1 = ex_content" using view_clean[OF v1] by (auto simp: ex_content_def)
  let ?f = "\<lambda>l. l\<lparr>l_start := 2, l_dev := 1, l_size := 30, l_outstanding := 1\<rparr>"
  define s where "s = (upd_log ?f s1)\<lparr>k_inodes := [ex_file], k_sb := ex_sb\<rparr>"
  have "view Map.empty ?T ex_disk ex_content {} (k_dwrites s) (?f (k_log s1)) s"
    using view_upd_log[OF v1, of ?f] C by (simp add: s_def view_other upd_log_def)
  moreover have "log_ok 64 2 [] (?f (k_log s1))"
    by (simp add: log_ok_def s1(2) running_kernel_def LOGSIZE_def MAXOPBLOCKS_def)
  moreover have "k_sb s = ex_sb" "k_inodes s = [ex_file]" by (simp_all add: s_def)
  moreover have "unat (sb_logstart ex_sb) = 2" by (simp add: ex_sb_def)
  ultimately have "tx (ex_env s) Map.empty ex_content [] [ex_file] s"
    by (auto simp: tx_def LOGSIZE_def MAXOPBLOCKS_def intro!: exI[of _ "?f (k_log s1)"])
  then show ?thesis by blast
qed

lemma balloc_takes_first_free_witness: "\<exists>s t. balloc 1 s = Ret 35 t"
proof -
  obtain s where s: "tx (ex_env s) Map.empty ex_content [] [ex_file] s" using ex_tx by blast
  have "bitmaps ex_sb = {34}" using ex_layout(2) by (auto simp: bitmaps_def ex_sb_def word_unat_eq_iff)
  then have l: "log_use ex_sb [] + 1 < LOGSIZE" by (simp add: log_use_def LOGSIZE_def MAXOPBLOCKS_def)
  have free: "\<not> block_used ex_sb ex_content 35" using ex_used[of 35] by simp
  have fs: "fs_ok ex_sb ex_content" using ex_used by (simp add: fs_ok_def ex_layout(2))
  from balloc_takes_first_free[OF s] ex_layout(1) fs l free obtain a t where
    a: "balloc 1 s = Ret a t" "unat a < 64" "\<not> block_used ex_sb ex_content a" "\<forall>b. unat b < unat a \<longrightarrow> block_used ex_sb ex_content b"
    by (auto split: if_splits)
  have "\<not> 35 < unat a" using a(4)[rule_format, of 35] free by auto
  then have "a = 35" using a(2,3) ex_used[of a] by (simp add: word_unat_eq_iff)
  then show ?thesis using a(1) by blast
qed

lemma ex_content_empty: "file_content C ex_file = []"
  by (simp add: file_content_def ex_file_def)

lemma writei_writes_file_witness:
  "\<exists>s t C I. writei 0 (From_local [1, 2, 3]) 0 3 s = Ret 3 t \<and> k_inodes t = I \<and> content t = C \<and> file_content C (I ! 0) = [1, 2, 3]"
proof -
  obtain s where s: "tx (ex_env s) Map.empty ex_content [] [ex_file] s" using ex_tx by blast
  from writei_writes_file[OF s ex_may_write, of 3] obtain t C I es where
    "writei 0 (From_local [1, 2, 3]) 0 3 s = Ret 3 t" "tx (ex_env s) Map.empty C es I t"
    "file_content C (I ! 0) = overwrite 0 [1, 2, 3] (file_content ex_content ex_file)" by auto
  then show ?thesis by (auto simp: tx_def view_def ex_content_empty overwrite_def)
qed

lemma write_survives_crash_witness:
  "\<exists>s t u. writei 0 (From_local [1, 2, 3]) 0 3 s = Ret 3 t \<and> commit t = Ret () u \<and> k_disk s = ex_disk"
proof -
  obtain s where s: "tx (ex_env s) Map.empty ex_content [] [ex_file] s" using ex_tx by blast
  have "decode_sb ex_super = ex_sb"
    by (simp add: decode_sb_def ex_super_def ex_sb_def BSIZE_def get32_put32_other)
  then have "clean_log (ex_env s)"
    by (simp add: clean_log_def ex_disk(2) ex_sb_def get32_def BSIZE_def)
  from write_survives_crash[OF s ex_may_write, of 3, OF _ _ this] show ?thesis using s by (auto simp: tx_def view_def)
qed

end
