(* ===== verification/Path_Names.thy ===== *)
theory Path_Names
  imports Dir
begin

text \<open>The path names of the file system: \<open>skipelem\<close> against splitting a path at its slashes.\<close>

text \<open>The elements that the loop of \<open>namex\<close> takes from a path, one \<open>skipelem\<close> after the other.\<close>

function path_elems :: "u8 list \<Rightarrow> u8 list list" where
  "path_elems path = (case skipelem path of None \<Rightarrow> [] | Some (rest, name) \<Rightarrow> name # path_elems rest)"
  by auto
termination by (relation "measure length") (auto dest: skipelem_shorter)

declare path_elems.simps [simp del]

text \<open>The reference: the parts between slashes that are not empty.\<close>

fun split_slash :: "u8 list \<Rightarrow> u8 list list" where
  "split_slash [] = [[]]"
| "split_slash (c # cs) = (if c = SLASH then [] # split_slash cs
     else (c # hd (split_slash cs)) # tl (split_slash cs))"

lemma split_nonempty [simp]: "split_slash p \<noteq> []"
  by (cases p) auto

lemma split_first: "split_slash p = takeWhile (\<lambda>c. c \<noteq> SLASH) p #
    (case dropWhile (\<lambda>c. c \<noteq> SLASH) p of [] \<Rightarrow> [] | _ # q \<Rightarrow> split_slash q)"
  by (induction p) auto

definition parts :: "u8 list \<Rightarrow> u8 list list" where
  "parts p = filter (\<lambda>e. e \<noteq> []) (split_slash p)"

lemma parts_Nil [simp]: "parts [] = []"
  by (simp add: parts_def)

lemma parts_slash [simp]: "parts (SLASH # p) = parts p"
  by (simp add: parts_def)

lemma parts_skip: "parts (dropWhile (\<lambda>c. c = SLASH) p) = parts p"
  by (induction p) auto

lemma parts_elem:
  assumes "p \<noteq> []" "hd p \<noteq> SLASH"
  shows "parts p = takeWhile (\<lambda>c. c \<noteq> SLASH) p # parts (dropWhile (\<lambda>c. c \<noteq> SLASH) p)"
proof -
  let ?q = "dropWhile (\<lambda>c. c \<noteq> SLASH) p"
  have t: "takeWhile (\<lambda>c. c \<noteq> SLASH) p \<noteq> []" using assms by (cases p) auto
  show ?thesis
  proof (cases ?q)
    case Nil
    have "split_slash p = [takeWhile (\<lambda>c. c \<noteq> SLASH) p]" by (subst split_first) (simp only: Nil list.case)
    then have "parts p = [takeWhile (\<lambda>c. c \<noteq> SLASH) p]" using t by (simp add: parts_def)
    moreover have "parts ?q = []" by (simp only: Nil parts_Nil)
    ultimately show ?thesis by simp
  next
    case (Cons c q)
    then have "c = SLASH" using hd_dropWhile[of "\<lambda>c. c \<noteq> SLASH" p] by simp
    then show ?thesis using t split_first[of p] Cons by (simp add: parts_def)
  qed
qed

text \<open>
  C37. The elements that \<open>namex\<close> walks through are the non-empty parts of the path between its
  slashes, each cut to the 14 bytes of a directory entry; leading, repeated and trailing slashes
  do not matter.
\<close>

theorem path_elems_are_parts: "path_elems p = map (take DIRSIZ) (filter (\<lambda>e. e \<noteq> []) (split_slash p))"
proof (induction "length p" arbitrary: p rule: less_induct)
  case less
  let ?p = "dropWhile (\<lambda>c. c = SLASH) p"
  show ?case
  proof (cases "?p = []")
    case True
    have "parts ?p = []" by (simp only: True parts_Nil)
    then have "parts p = []" by (simp only: parts_skip)
    moreover have "skipelem p = None" unfolding skipelem_def Let_def by (simp only: True simp_thms if_True)
    ultimately show ?thesis by (simp add: path_elems.simps[of p] parts_def)
  next
    case False
    let ?q = "dropWhile (\<lambda>c. c \<noteq> SLASH) ?p" and ?n = "takeWhile (\<lambda>c. c \<noteq> SLASH) ?p"
    have s: "skipelem p = Some (dropWhile (\<lambda>c. c = SLASH) ?q, take DIRSIZ ?n)"
      unfolding skipelem_def Let_def by (simp only: False if_False)
    have "path_elems (dropWhile (\<lambda>c. c = SLASH) ?q) = map (take DIRSIZ) (parts (dropWhile (\<lambda>c. c = SLASH) ?q))"
      using less skipelem_shorter[OF s] by (simp add: parts_def)
    then have "path_elems p = take DIRSIZ ?n # map (take DIRSIZ) (parts ?q)"
      using s parts_skip[of ?q] by (simp add: path_elems.simps[of p])
    moreover have "parts p = ?n # parts ?q"
      using parts_skip[of p] parts_elem[OF False] hd_dropWhile[OF False] by simp
    ultimately show ?thesis by (simp add: parts_def)
  qed
qed

end
