(* ===== verification/Arg_Bounds.thy ===== *)
theory Arg_Bounds
  imports Sysargs
begin

text \<open>
  What the argument functions of \<open>syscall.c\<close> let through: only addresses inside the memory of
  the process.
\<close>

lemma curproc_run: "myproc s = Some p \<Longrightarrow> curproc s = Ret p s"
  by (simp add: kexec)

lemma kret_Ret: "kret x s = Ret y t \<longleftrightarrow> x = y \<and> s = t"
  by (auto simp: kret_def)

text \<open>Loads leave the state alone.\<close>

lemma load8_state: "load8 a s = Ret c t \<Longrightarrow> t = s"
  by (auto simp: load8_def kexec split: option.splits)

lemma uload32_state: "uload32 a s = Ret v t \<Longrightarrow> t = s"
  unfolding uload32_def by (elim kbind_RetE) (auto dest!: load8_state simp: kret_Ret)

lemma fetchint_bounds:
  assumes "fetchint a s = Ret (Some v) t" "myproc s = Some p" "p_sz (pr s p) \<le> KERNBASE"
  shows "t = s \<and> unat a + 4 \<le> unat (p_sz (pr s p))"
proof -
  let ?sz = "p_sz (pr s p)"
  have "\<not> (?sz \<le> a \<or> ?sz < a + 4)" and u: "kbind (uload32 a) (\<lambda>v. kret (Some v)) s = Ret (Some v) t"
    using assms(1,2) by (auto simp: fetchint_def kbind_def[of curproc] curproc_run[OF assms(2)] kif_def kret_Ret split: if_splits)
  then have b: "a < ?sz" "a + 4 \<le> ?sz" by auto
  have "unat a < unat ?sz" "unat ?sz \<le> 0x80000000"
    using b(1) assms(3) by (simp_all add: word_less_nat_alt word_le_nat_alt KERNBASE_def)
  then have "unat (a + 4) = unat a + 4" by (simp add: unat_plus_if_size word_size)
  then have "unat a + 4 \<le> unat ?sz" using b(2) by (simp add: word_le_nat_alt)
  then show ?thesis using u uload32_state by (auto simp: kbind_Ret_iff kret_Ret)
qed

lemma argptr_bounds:
  assumes "argptr n len s = Ret (Some i) t" "myproc s = Some p" "p_sz (pr s p) \<le> KERNBASE" "len < 2 ^ 31"
  shows "t = s \<and> 0 \<le> len \<and> unat i + nat len \<le> unat (p_sz (pr s p))"
proof -
  let ?sz = "p_sz (pr s p)"
  obtain u where a: "argint n s = Ret (Some i) u" and b: "kif (\<lambda>s. len < 0 \<or> p_sz (pr s p) \<le> i \<or> p_sz (pr s p) < i + word_of_int len)
      (kret None) (kret (Some i)) u = Ret (Some i) t"
    using assms(1) by (auto simp: argptr_def kbind_def[of curproc] curproc_run[OF assms(2)] ok_or_def kbind_Ret_iff kret_Ret
        kif_def split: option.splits if_splits)
  have "argint n s = fetchint (load32 (k_mem s) (p_tf (pr s p) + TF_ESP) + 4 + 4 * of_nat n) s"
    by (simp add: argint_def kbind_def curproc_run[OF assms(2)] tf_load_def kget_def mload_def)
  then have "fetchint (load32 (k_mem s) (p_tf (pr s p) + TF_ESP) + 4 + 4 * of_nat n) s = Ret (Some i) u" using a by simp
  from fetchint_bounds[OF this assms(2,3)] have "u = s" by blast
  then have "t = s" "\<not> (len < 0 \<or> ?sz \<le> i \<or> ?sz < i + word_of_int len)"
    using b by (auto simp: kif_def kret_Ret split: if_splits)
  then have l: "0 \<le> len" "i < ?sz" "i + word_of_int len \<le> ?sz" by auto
  have "unat i < 0x80000000" using l(2) assms(3) by (simp add: word_less_nat_alt word_le_nat_alt KERNBASE_def)
  moreover have "unat (word_of_int len :: u32) = nat (uint (word_of_int len :: u32))" by simp
  then have ul: "unat (word_of_int len :: u32) = nat len" using assms(4) l(1) by (simp add: uint_word_of_int)
  moreover have "nat len < 0x80000000" using assms(4) by simp
  ultimately have "unat (i + word_of_int len) = unat i + nat len"
    by (simp add: unat_plus_if_size word_size)
  then show ?thesis using l \<open>t = s\<close> by (simp add: word_le_nat_alt)
qed

lemma fetchstr_loop_reads:
  "fetchstr_loop n a got s = Ret (Some str) t \<Longrightarrow> t = s \<and> (\<exists>cs. str = got @ cs \<and> length cs < n \<and> 0 \<notin> set cs \<and>
     (\<forall>k < length cs. load8 (a + of_nat k) s = Ret (cs ! k) s) \<and> load8 (a + of_nat (length cs)) s = Ret 0 s)"
proof (induction n arbitrary: a got)
  case 0
  then show ?case by (simp add: kret_def)
next
  case (Suc n)
  obtain c u where c: "load8 a s = Ret c u" "(if c = 0 then kret (Some got) else fetchstr_loop n (a + 1) (got @ [c])) u = Ret (Some str) t"
    using Suc.prems by (auto simp: kbind_Ret_iff)
  have u: "u = s" using load8_state[OF c(1)] .
  show ?case
  proof (cases "c = 0")
    case True
    then show ?thesis using c u by (intro conjI exI[of _ "[]"]) (auto simp: kret_Ret)
  next
    case False
    then obtain cs where cs: "t = s" "str = (got @ [c]) @ cs" "length cs < n" "0 \<notin> set cs"
      "\<forall>k < length cs. load8 (a + 1 + of_nat k) s = Ret (cs ! k) s" "load8 (a + 1 + of_nat (length cs)) s = Ret 0 s"
      using Suc.IH[of "a + 1" "got @ [c]"] c(2) u by auto
    have "load8 (a + of_nat k) s = Ret ((c # cs) ! k) s" if "k < Suc (length cs)" for k
      using that cs(5) c(1) u by (cases k) (auto simp: algebra_simps)
    then show ?thesis using cs False by (intro conjI exI[of _ "c # cs"]) (auto simp: algebra_simps)
  qed
qed

lemma fetchstr_bounds:
  assumes "fetchstr a s = Ret (Some str) t" "myproc s = Some p" "p_sz (pr s p) \<le> KERNBASE"
  shows "t = s \<and> 0 \<notin> set str \<and> unat a + length str < unat (p_sz (pr s p)) \<and>
    (\<forall>k < length str. load8 (a + of_nat k) s = Ret (str ! k) s) \<and> load8 (a + of_nat (length str)) s = Ret 0 s"
proof -
  let ?sz = "p_sz (pr s p)"
  have f: "\<not> ?sz \<le> a" "fetchstr_loop (unat (?sz - a)) a [] s = Ret (Some str) t"
    using assms(1) by (auto simp: fetchstr_def kbind_def curproc_run[OF assms(2)] kget_def kret_Ret split: if_splits)
  then have "unat (?sz - a) = unat ?sz - unat a" by (intro unat_sub) simp
  then show ?thesis using fetchstr_loop_reads[OF f(2)] by auto
qed

text \<open>
  C22. System calls see only their process's own memory: an integer that \<open>fetchint\<close> returns, a
  buffer that \<open>argptr\<close> accepts and a string that \<open>fetchstr\<close> returns, with its NUL, lie below the
  size of the process. No sum of an address and a length wraps around.
\<close>

theorem syscall_arguments_in_bounds:
  assumes "myproc s = Some p" "p_sz (pr s p) \<le> KERNBASE"
  shows "(fetchint a s = Ret (Some v) t \<longrightarrow> t = s \<and> unat a + 4 \<le> unat (p_sz (pr s p))) \<and>
    (argptr n len s = Ret (Some i) t \<and> len < 2 ^ 31 \<longrightarrow>
       t = s \<and> 0 \<le> len \<and> unat i + nat len \<le> unat (p_sz (pr s p))) \<and>
    (fetchstr a s = Ret (Some str) t \<longrightarrow> t = s \<and> 0 \<notin> set str \<and> unat a + length str < unat (p_sz (pr s p)) \<and>
       (\<forall>k < length str. load8 (a + of_nat k) s = Ret (str ! k) s) \<and> load8 (a + of_nat (length str)) s = Ret 0 s)"
  using fetchint_bounds argptr_bounds fetchstr_bounds assms by blast

text \<open>A memory in which every byte is 7 maps every user page to the page frame \<open>0x07070\<close>.\<close>

definition sevens :: kernel where
  "sevens = sample_kernel\<lparr>k_cpus := [\<lparr>c_proc = Some 0, c_cr3 = 0, c_esp0 = 0\<rparr>], k_ptab := [sample_proc], k_mem := (\<lambda>_. 7)\<rparr>"

lemma syscall_arguments_in_bounds_witness:
  "fetchint 100 sevens = Ret (Some 0x07070707) sevens \<and> unat (100 :: u32) + 4 \<le> unat (p_sz (pr sevens 0))"
proof -
  have m: "myproc sevens = Some 0" "p_sz (pr sevens 0) = 4096" "mycpu sevens = \<lparr>c_proc = Some 0, c_cr3 = 0, c_esp0 = 0\<rparr>"
    by (simp_all add: sevens_def sample_kernel_def sample_proc_def myproc_def mycpu_def pr_def)
  have "load32 (\<lambda>_. 7) a = 0x07070707" for a by (simp add: load32_def)
  then have "reach sevens a \<noteq> None" if "a < KERNBASE" for a
    using that m by (simp add: reach_def translate_def pte_addr_def sevens_def PTE_P_def)
  then have "load8 a sevens = Ret 7 sevens" if "a < KERNBASE" for a
    using that by (auto simp: load8_def kexec sevens_def split: option.splits)
  then have "uload32 100 sevens = Ret 0x07070707 sevens"
    by (simp add: uload32_def kbind_def kret_def KERNBASE_def)
  then have f: "fetchint 100 sevens = Ret (Some 0x07070707) sevens"
    by (simp add: fetchint_def kbind_def curproc_run[OF m(1)] kif_def kret_def m)
  then show ?thesis
    using syscall_arguments_in_bounds[of sevens 0 100 "0x07070707" sevens 0 0 0 "[]"] m by (simp add: KERNBASE_def)
qed

end
