(* ===== verification/Kbd_Keys.thy ===== *)
theory Kbd_Keys
  imports Kbd
begin

unbundle bit_operations_syntax

text \<open>The letter keys of the keyboard under every state of the modifiers.\<close>

definition letter_keys :: "(u8 \<times> char) list" where
  "letter_keys = map (\<lambda>(k, c). (of_nat k, c))
     (zip [0x10..<0x1A] ''qwertyuiop'' @ zip [0x1E..<0x27] ''asdfghjkl'' @ zip [0x2C..<0x33] ''zxcvbnm'')"

text \<open>What the tables hold for a letter key, and what Caps Lock makes of it.\<close>

definition letter_row :: "u8 \<Rightarrow> u8 \<Rightarrow> bool" where
  "letter_row k c \<longleftrightarrow> (let d = ucast k :: u32; j = unat d in
     normalmap j = c \<and> shiftmap j = c - 32 \<and> ctlmap j = c - 96 \<and> shiftcode j = 0 \<and> togglecode j = 0 \<and>
     d \<noteq> 0xE0 \<and> d AND 0x80 = 0 \<and> swap_case (ucast c) = ucast (c - 32) \<and> swap_case (ucast (c - 32)) = ucast c \<and>
     swap_case (ucast (c - 96)) = ucast (c - 96) \<and> sint (ucast c :: u32) = uint c \<and>
     sint (ucast (c - 32) :: u32) = uint c - 32 \<and> sint (ucast (c - 96) :: u32) = uint c - 96)"

lemma small_words: "\<not> (65 :: u32) \<le> 1" "\<not> (97 :: u32) \<le> 1"
  by (simp_all add: word_le_nat_alt)

lemma letters_checked: "list_all (\<lambda>(k, c). letter_row k (ch c)) letter_keys"
  unfolding letter_keys_def letter_row_def normalmap_def shiftmap_def ctlmap_def shiftcode_def togglecode_def
    keypad_def numpad_def C_key_def ch_def NO_def
  by (simp add: upt_rec nth_append swap_case_def lower_def upper_def ch_def small_words)

lemma and3_cases:
  assumes "i = (m :: u32) AND 3"
  obtains "i = 0" | "i = 1" | "i = 2" | "i = 3"
proof -
  have "i \<le> 3" unfolding assms by (rule word_and_le1)
  then have "unat i \<le> 3" by (simp add: word_le_nat_alt)
  then have "unat i = 0 \<or> unat i = 1 \<or> unat i = 2 \<or> unat i = 3" by linarith
  then have "i = 0 \<or> i = 1 \<or> i = 2 \<or> i = 3" by (simp add: word_unat_eq_iff)
  then show thesis using that by blast
qed

text \<open>The character of a letter key: Control before Shift and Caps Lock, which cancel out.\<close>

definition letter :: "u32 \<Rightarrow> int \<Rightarrow> int" where
  "letter m c = (if m AND CTL \<noteq> 0 then c - 96
     else if (m AND SHIFT \<noteq> 0) \<noteq> (m AND CAPSLOCK \<noteq> 0) then c - 32 else c)"

text \<open>
  A letter key gives its letter: with Control the control character, otherwise the capital
  exactly when one of Shift and Caps Lock is on, in every state of the modifiers in which no
  escape code is pending; the modifiers do not change.
\<close>

theorem letter_keys_correct:
  assumes "(k, c) \<in> set letter_keys" "m AND E0ESC = 0"
  shows "kbdgetc 1 k m = (letter m (uint (ch c)), m)"
proof -
  define d :: u32 where "d = ucast k"
  define x where "x = ch c"
  have "letter_row k x" using letters_checked assms(1) by (auto simp: list_all_iff x_def)
  note row = this[unfolded letter_row_def Let_def d_def[symmetric]]
  define i where "i = m AND 3"
  have b: "m AND 2 = i AND 2" "m AND 1 = i AND 1" by (simp_all add: i_def and.assoc)
  have run: "kbdgetc 1 k m = (sint (if m AND CAPSLOCK \<noteq> 0 then swap_case (ucast (charcode i (unat d)))
      else (ucast (charcode i (unat d)) :: u32)), m)"
    using row assms(2) by (simp add: kbdgetc_def Let_def d_def[symmetric] KBS_DIB_def E0ESC_def CTL_def SHIFT_def i_def)
  show ?thesis
    using and3_cases[OF i_def]
    by cases (use row b run in \<open>simp_all add: charcode_def letter_def CTL_def SHIFT_def x_def\<close>)
qed

lemma letter_keys_correct_witness: "kbdgetc 1 0x1E (SHIFT OR CAPSLOCK) = (97, SHIFT OR CAPSLOCK)"
proof -
  have "(0x1E, CHR ''a'') \<in> set letter_keys" by (simp add: letter_keys_def upt_rec)
  moreover have "(SHIFT OR CAPSLOCK) AND E0ESC = 0" by (simp add: SHIFT_def CAPSLOCK_def E0ESC_def)
  ultimately show ?thesis using letter_keys_correct[where k = "0x1E" and c = "CHR ''a''" and m = "SHIFT OR CAPSLOCK"]
    by (simp add: letter_def SHIFT_def CAPSLOCK_def CTL_def ch_def)
qed

end
