(* ===== verification/Sched_Control.thy ===== *)
theory Sched_Control
  imports Trap Proc_Machine
begin

text \<open>
  What changes a process's place in the schedule from outside: the time slice of \<open>trap\<close> with
  the demotion of \<open>DMLQ\<close>, \<open>wakeup\<close>, \<open>kill\<close> and \<open>chpr\<close>, with their error cases.
\<close>

section \<open>Time slices\<close>

lemma kinv_priority:
  assumes inv: "kinv cfg sw s" and p: "p < NPROC" "p_state (pr s p) = RUNNING" and l: "has_levels cfg \<Longrightarrow> valid_pr l"
  shows "kinv cfg sw (upd_proc p (\<lambda>x. x\<lparr>p_priority := l\<rparr>) s)" (is "kinv cfg sw ?t")
proof -
  have len: "length (k_ptab s) = NPROC" using inv by (simp add: kinv_def)
  have pr: "pr ?t q = (if q = p then (pr s p)\<lparr>p_priority := l\<rparr> else pr s q)" for q
    using p(1) len by (simp add: pr_upd_proc)
  have r: "ready_set ?t = ready_set s" using p(2) by (auto simp: ready_set_def pr)
  have "rq_inv cfg ?t (ready_set s)"
  proof (rule rq_inv_cong[of cfg s])
    show "rq_inv cfg s (ready_set s)" using inv by (simp add: kinv_def)
  qed (use p(2) in \<open>auto simp: ready_set_def pr\<close>)
  moreover have "cpus_ok sw ?t"
    using inv p(2) by (auto simp: kinv_def cpus_ok_def pr cpu_proc_def)
  moreover have "procs_ok cfg ?t"
    using inv l by (auto simp: kinv_def procs_ok_def live_def fits_rq_def pr)
  ultimately show ?thesis using len r by (simp add: kinv_def)
qed

text \<open>The priority after a demotion.\<close>

definition demoted :: "int \<Rightarrow> int" where
  "demoted l = (if l < LWPR then l + 1 else l)"

lemma upd_priority_same: "upd_proc p (\<lambda>x. x\<lparr>p_priority := p_priority x\<rparr>) s = s"
  by (simp add: upd_proc_def)

lemma demote_run:
  assumes "myproc s = Some p" "p < length (k_ptab s)"
  shows "demote s = Ret () (upd_proc p (\<lambda>x. x\<lparr>p_priority := demoted (p_priority (pr s p))\<rparr>) s)"
proof (cases "p_priority (pr s p) < LWPR")
  case True
  then show ?thesis using assms by (simp add: demote_def kexec demoted_def upd_proc_def pr_def)
next
  case False
  then show ?thesis using assms by (simp add: demote_def kexec demoted_def upd_proc_def pr_def)
qed

text \<open>
  C11. The time slice at a timer interrupt. Under \<open>FCFS\<close> the process keeps the CPU. Under the other
  configurations it keeps it until it has run for \<open>QUANTA\<close> ticks since it was scheduled; then it
  becomes \<open>RUNNABLE\<close> and switches to the scheduler, and under \<open>DMLQ\<close> its priority has dropped by
  one level, but not below the lowest. No other process changes.
\<close>

theorem time_slice_policy:
  assumes "kinv (k_cfg s) {} s" "running s p" "my_locks s = []" "lock_free L_ptable s" "\<not> p_killed (pr s p)"
  shows "if k_cfg s = FCFS \<or> k_ticks s < p_timescheduled (pr s p) + QUANTA
    then time_slice (T_IRQ0 + IRQ_TIMER) cs s = Ret () s
    else \<exists>t k. time_slice (T_IRQ0 + IRQ_TIMER) cs s = Swtch t k \<and> switching (k_cfg s) t \<and>
      pr t = (pr s)(p := (pr s p)\<lparr>p_state := RUNNABLE, p_switchnum := p_switchnum (pr s p) + 1,
        p_priority := (if k_cfg s = DMLQ then demoted (p_priority (pr s p)) else p_priority (pr s p))\<rparr>)"
proof -
  have p: "myproc s = Some p" "p < NPROC" "p_state (pr s p) = RUNNING" using assms(2) by (simp_all add: running_def)
  have len: "length (k_ptab s) = NPROC" using assms(1) by (simp add: kinv_def)
  have nk: "exit_if_killed cs s = Ret () s" using p assms(5) by (simp add: exit_if_killed_def kwhen_def)
  have over: "slice_over (T_IRQ0 + IRQ_TIMER) s \<longleftrightarrow> p_timescheduled (pr s p) + QUANTA \<le> k_ticks s"
    using p by (simp add: slice_over_def)
  show ?thesis
  proof (cases "k_cfg s = FCFS \<or> k_ticks s < p_timescheduled (pr s p) + QUANTA")
    case True
    then have "time_slice (T_IRQ0 + IRQ_TIMER) cs s = Ret () s"
      using over nk by (cases "k_cfg s") (auto simp: time_slice_def kbind_def kwhen_def kret_def)
    then show ?thesis using True by simp
  next
    case False
    then have o: "slice_over (T_IRQ0 + IRQ_TIMER) s" using over by auto
    let ?u = "upd_proc p (\<lambda>x. x\<lparr>p_priority := demoted (p_priority (pr s p))\<rparr>) s"
    have switch: "\<exists>t k. time_slice (T_IRQ0 + IRQ_TIMER) cs s = Swtch t k \<and> switching (k_cfg s) t \<and>
      pr t = (pr u)(p := (pr u p)\<lparr>p_state := RUNNABLE, p_switchnum := p_switchnum (pr u p) + 1\<rparr>)"
      if "time_slice (T_IRQ0 + IRQ_TIMER) cs s = kbind (yield (k_cfg s)) (\<lambda>_. exit_if_killed cs) u"
        "kinv (k_cfg s) {} u" "running u p" "my_locks u = []" "lock_free L_ptable u" for u
      using yield_ok[OF that(2-5)] that(1) by (auto simp: kbind_def)
    show ?thesis
    proof (cases "k_cfg s = DMLQ")
      case True
      have d: "demote s = Ret () ?u" using demote_run p len by simp
      have ts: "time_slice (T_IRQ0 + IRQ_TIMER) cs s = kbind (yield DMLQ) (\<lambda>_. exit_if_killed cs) ?u"
        using True o d by (simp add: time_slice_def kbind_def kwhen_def)
      have "live s p" using p(3) by (simp add: live_def)
      then have "fits_rq (k_cfg s) s p" using assms(1) p(2) by (simp add: kinv_def procs_ok_def)
      then have "valid_pr (demoted (p_priority (pr s p)))"
        using True by (auto simp: fits_rq_def has_levels_def valid_pr_cases demoted_def LWPR_def)
      then have i: "kinv (k_cfg s) {} ?u" using kinv_priority[OF assms(1) p(2,3)] by simp
      have r: "running ?u p" using assms(2) len by (simp add: running_def pr_upd_proc myproc_def mycpu_def)
      have l: "my_locks ?u = []" "lock_free L_ptable ?u" using assms(3,4) by (simp_all add: my_locks_def lock_free_def)
      obtain t k where t: "time_slice (T_IRQ0 + IRQ_TIMER) cs s = Swtch t k" "switching (k_cfg s) t"
        "pr t = (pr ?u)(p := (pr ?u p)\<lparr>p_state := RUNNABLE, p_switchnum := p_switchnum (pr ?u p) + 1\<rparr>)"
        using switch[OF _ i r l] ts True by auto
      have "pr t = (pr s)(p := (pr s p)\<lparr>p_state := RUNNABLE, p_switchnum := p_switchnum (pr s p) + 1,
          p_priority := demoted (p_priority (pr s p))\<rparr>)"
        using t(3) p(2) len by (simp add: fun_eq_iff pr_upd_proc)
      then show ?thesis using t False True by auto
    next
      case notd: False
      then have "time_slice (T_IRQ0 + IRQ_TIMER) cs s = kbind (yield (k_cfg s)) (\<lambda>_. exit_if_killed cs) s"
        using False o by (cases "k_cfg s") (simp_all add: time_slice_def kbind_def kwhen_def)
      from switch[OF this assms(1-4)] show ?thesis using False notd by auto
    qed
  qed
qed

text \<open>One CPU runs process 0, which was scheduled at tick 0; the time is tick 5.\<close>

definition slice_kernel :: kernel where
  "slice_kernel = sample_kernel\<lparr>k_cpus := [\<lparr>c_proc = Some 0, c_cr3 = 0, c_esp0 = 0\<rparr>],
     k_ptab := (replicate NPROC (sample_proc\<lparr>p_state := UNUSED, p_pid := 0\<rparr>))[0 := sample_proc\<lparr>p_state := RUNNING\<rparr>],
     k_ticks := 5, k_cfg := DMLQ\<rparr>"

lemma slice_pr: "q < NPROC \<Longrightarrow> pr slice_kernel q =
    (if q = 0 then sample_proc\<lparr>p_state := RUNNING\<rparr> else sample_proc\<lparr>p_state := UNUSED, p_pid := 0\<rparr>)"
  by (simp add: pr_def slice_kernel_def nth_list_update)

lemma slice_fields:
  "k_cpus slice_kernel = [\<lparr>c_proc = Some 0, c_cr3 = 0, c_esp0 = 0\<rparr>]" "k_me slice_kernel = 0" "k_cfg slice_kernel = DMLQ"
  "k_held slice_kernel = []" "k_mq slice_kernel = mq_init" "k_ticks slice_kernel = 5" "length (k_ptab slice_kernel) = NPROC"
  by (simp_all add: slice_kernel_def sample_kernel_def)

lemma slice_kinv: "kinv DMLQ {} slice_kernel" "running slice_kernel 0"
proof -
  note p = slice_pr and c = slice_fields
  have "ready_set slice_kernel = {}" using p by (auto simp: ready_set_def sample_proc_def)
  moreover have "rq_levels slice_kernel {}" using c by (simp add: rq_levels_def)
  then have "rq_inv DMLQ slice_kernel {}" by (simp add: rq_inv_def)
  moreover have "cpus_ok {} slice_kernel" using c p by (auto simp: cpus_ok_def cpu_proc_def sample_proc_def NPROC_def)
  moreover have "procs_ok DMLQ slice_kernel" using p
    by (auto simp: procs_ok_def live_def fits_rq_def sample_proc_def has_levels_def valid_pr_cases split: if_splits)
  ultimately show "kinv DMLQ {} slice_kernel" using c by (simp add: kinv_def)
  show "running slice_kernel 0" using c p[of 0] by (simp add: running_def myproc_def mycpu_def NPROC_def sample_proc_def)
qed

lemma time_slice_policy_witness:
  "\<exists>t k. time_slice (T_IRQ0 + IRQ_TIMER) 0 slice_kernel = Swtch t k \<and> p_priority (pr t 0) = 3"
proof -
  have p: "pr slice_kernel 0 = sample_proc\<lparr>p_state := RUNNING\<rparr>" using slice_pr[of 0] by (simp add: NPROC_def)
  have l: "my_locks slice_kernel = []" "lock_free L_ptable slice_kernel"
    using slice_fields by (simp_all add: my_locks_def lock_free_def)
  have "\<not> p_killed (pr slice_kernel 0)" using p by (simp add: sample_proc_def)
  from time_slice_policy[of slice_kernel 0 0, OF _ slice_kinv(2) l this] slice_kinv(1) slice_fields p
  show ?thesis by (auto simp: sample_proc_def QUANTA_def demoted_def LWPR_def)
qed

section \<open>Waking and killing\<close>

text \<open>
  C33. \<open>wakeup\<close> makes exactly the processes that sleep on the channel \<open>RUNNABLE\<close>, under \<open>DMLQ\<close> with
  the highest priority, and queues each of them; every other process is as before.
\<close>

theorem wakeup_wakes_sleepers:
  assumes "kinv cfg sw s" "lock_free L_ptable s"
  shows "\<exists>t. wakeup cfg chn s = Ret () t \<and> kinv cfg sw t \<and>
    (\<forall>p < NPROC. pr t p = (if p_state (pr s p) = SLEEPING \<and> p_chan (pr s p) = Some chn
       then (pr s p)\<lparr>p_state := RUNNABLE, p_priority := (if cfg = DMLQ then HIPR else p_priority (pr s p))\<rparr>
       else pr s p))"
  using wakeup_ok[OF assms, of chn] unfolding wakes_def woken_def by blast

lemma wakeup_wakes_sleepers_witness:
  "\<exists>t. wakeup DMLQ Ch_ticks slice_kernel = Ret () t \<and> kinv DMLQ {} t"
proof -
  have "lock_free L_ptable slice_kernel" using slice_fields by (simp add: lock_free_def)
  from wakeup_wakes_sleepers[OF slice_kinv(1) this, of Ch_ticks] show ?thesis by blast
qed

text \<open>
  \<open>kill\<close> marks the first process with the pid and wakes it if it sleeps; no other process
  changes, and without such a process the result is -1.
\<close>

theorem kill_marks_process:
  assumes "kinv cfg sw s" "lock_free L_ptable s"
  shows "\<exists>r t. kill cfg pid s = Ret r t \<and> kinv cfg sw t \<and>
    (case find (\<lambda>p. p_pid (pr s p) = pid) [0..<NPROC] of
       None \<Rightarrow> r = - 1 \<and> pr t = pr s
     | Some p \<Rightarrow> r = 0 \<and> p_killed (pr t p) \<and>
         p_state (pr t p) = (if p_state (pr s p) = SLEEPING then RUNNABLE else p_state (pr s p)) \<and>
         (\<forall>q. q \<noteq> p \<longrightarrow> pr t q = pr s q))"
proof -
  obtain r t where k: "kill cfg pid s = Ret r t" "kinv cfg sw t"
    "case proc_by_pid s pid of None \<Rightarrow> r = - 1 \<and> pr t = pr s
     | Some p \<Rightarrow> r = 0 \<and> pr t = (pr s)(p := killed cfg (pr s p))"
    using kill_ok[OF assms] by blast
  then show ?thesis
    by (intro exI[of _ r] exI[of _ t])
      (auto simp: proc_by_pid_def killed_def woken_def split: option.splits)
qed

lemma kill_marks_process_witness:
  "\<exists>t. kill DMLQ 1 slice_kernel = Ret 0 t \<and> p_killed (pr t 0)"
proof -
  have "lock_free L_ptable slice_kernel" using slice_fields by (simp add: lock_free_def)
  moreover have "find (\<lambda>p. p_pid (pr slice_kernel p) = 1) [0..<NPROC] = Some 0"
    using slice_pr[of 0] by (simp add: upt_rec NPROC_def sample_proc_def)
  ultimately show ?thesis using kill_marks_process[OF slice_kinv(1), of 1] by auto
qed

section \<open>A kill of pid 0\<close>

text \<open>Locks and \<open>kalloc\<close> leave the process table alone.\<close>

lemma acquire_ptab: "acquire l s = Ret () t \<Longrightarrow> k_ptab t = k_ptab s"
  by (auto simp: acquire_def split: if_splits)

lemma release_ptab: "release l s = Ret () t \<Longrightarrow> k_ptab t = k_ptab s"
  by (auto simp: release_def split: if_splits)

lemma kalloc_ptab: "kalloc s = Ret k t \<Longrightarrow> k_ptab t = k_ptab s"
  by (auto simp: kalloc_def kexec obind_Ret_iff split: if_splits dest!: acquire_ptab release_ptab)

lemma allocproc_keeps_killed:
  assumes "allocproc s = Ret (Some p) t" "length (k_ptab s) = NPROC"
  shows "find (\<lambda>i. p_state (pr s i) = UNUSED) [0..<NPROC] = Some p \<and> p_killed (pr t p) = p_killed (pr s p)"
proof -
  obtain s1 where s1: "acquire L_ptable s = Ret () s1"
    using assms(1) by (auto simp: allocproc_def kbind_def obind_Ret_iff)
  have pr1: "pr s1 = pr s" using acquire_ptab[OF s1] by (simp add: pr_def fun_eq_iff)
  show ?thesis
  proof (cases "find (\<lambda>i. p_state (pr s i) = UNUSED) [0..<NPROC]")
    case None
    then show ?thesis using assms(1) s1 pr1
      by (auto simp: allocproc_def kbind_def kget_def kret_def obind_Ret_iff)
  next
    case (Some q)
    then have q: "q < NPROC" using find_upt_Some by blast
    define f where "f x = x\<lparr>p_state := EMBRYO, p_pid := k_nextpid s1, p_timecreated := k_ticks s1,
       p_timeready := 0, p_timerun := 0, p_timeslept := 0, p_switchnum := 0\<rparr>" for x :: proc
    obtain s2 where s2: "release L_ptable (upd_proc q f (s1\<lparr>k_nextpid := k_nextpid s1 + 1\<rparr>)) = Ret () s2"
      and rest: "kbind kalloc (\<lambda>k. kbind (kupd (upd_proc q (\<lambda>x. x\<lparr>p_kstack := k\<rparr>))) (\<lambda>_.
         if k = 0 then kbind (set_state q UNUSED) (\<lambda>_. kret None)
         else
           let sp = k + KSTACKSIZE; tf = sp - SIZEOF_TRAPFRAME; ret = tf - 4; ctx = ret - SIZEOF_CONTEXT
           in kbind (kseq [
             kupd (upd_proc q (\<lambda>x. x\<lparr>p_tf := tf\<rparr>)),
             kbind (kget k_trapret) (\<lambda>v. mstore ret v),
             kupd (upd_proc q (\<lambda>x. x\<lparr>p_context := ctx\<rparr>)),
             mmemset ctx 0 SIZEOF_CONTEXT,
             kbind (kget k_forkret) (\<lambda>v. mstore (ctx + CONTEXT_EIP) v)]) (\<lambda>_. kret (Some q)))) s2 = Ret (Some p) t"
      using assms(1) s1 pr1 Some q acquire_ptab[OF s1] assms(2)
      by (auto simp: allocproc_def kbind_def kget_def kupd_def set_state_def obind_Ret_iff upd_proc_def f_def
          simp del: Let_def)
    have k2: "p_killed (pr s2 q) = p_killed (pr s q)" "length (k_ptab s2) = NPROC"
      using q assms(2) acquire_ptab[OF s1] release_ptab[OF s2]
      by (simp_all add: pr_def f_def upd_proc_def)
    obtain k s3 where s3: "kalloc s2 = Ret k s3" using rest by (auto simp: kbind_def obind_Ret_iff)
    have pr3: "pr s3 = pr s2" "length (k_ptab s3) = NPROC" using kalloc_ptab[OF s3] k2(2) by (simp_all add: pr_def fun_eq_iff)
    have "k \<noteq> 0" using rest s3 by (auto simp: kbind_def kupd_def set_state_def kret_def)
    then have "p = q \<and> p_killed (pr t q) = p_killed (pr s3 q)"
      using rest s3 q pr3(2) by (auto simp: kexec kmemory Let_def pr_def upd_proc_def)
    then show ?thesis using Some k2 pr3 by simp
  qed
qed

text \<open>
  A process that nobody killed can be born killed: \<open>kill(0)\<close> finds a free slot, whose pid is
  0, and marks it, and \<open>allocproc\<close> gives the slot to the next process without clearing the mark.
\<close>

theorem kill_zero_kills_next_process:
  assumes "kinv cfg sw s" "lock_free L_ptable s"
    and "find (\<lambda>p. p_pid (pr s p) = 0) [0..<NPROC] = Some p" "p_state (pr s p) = UNUSED"
    and "\<And>q. q < p \<Longrightarrow> p_state (pr s q) \<noteq> UNUSED"
  shows "\<exists>t. kill cfg 0 s = Ret 0 t \<and>
    (\<forall>q u. allocproc t = Ret (Some q) u \<longrightarrow> q = p \<and> p_killed (pr u q))"
proof -
  obtain t where t: "kill cfg 0 s = Ret 0 t" "kinv cfg sw t" "pr t = (pr s)(p := killed cfg (pr s p))"
    using kill_ok[OF assms(1,2), of 0] assms(3) by (auto simp: proc_by_pid_def)
  have k: "p_killed (pr t p)" "p_state (pr t p) = UNUSED" using t(3) assms(4) by (simp_all add: killed_def)
  have p: "p < NPROC" using assms(3) find_upt_Some by blast
  have "q = p \<and> p_killed (pr u q)" if a: "allocproc t = Ret (Some q) u" for q u
  proof -
    have f: "find (\<lambda>i. p_state (pr t i) = UNUSED) [0..<NPROC] = Some q" "p_killed (pr u q) = p_killed (pr t q)"
      using allocproc_keeps_killed[OF a kinv_len[OF t(2)]] by auto
    have "p_state (pr t q) = UNUSED" "\<forall>j. j < q \<longrightarrow> p_state (pr t j) \<noteq> UNUSED" using find_upt_Some[OF f(1)] by auto
    then have "\<not> p < q" "\<not> q < p" using k(2) t(3) assms(5)[of q] by auto
    then show ?thesis using f(2) k(1) by simp
  qed
  then show ?thesis using t(1) by blast
qed

lemma kill_zero_kills_next_process_witness: "\<exists>t. kill DMLQ 0 slice_kernel = Ret 0 t"
proof -
  have "find (\<lambda>p. p_pid (pr slice_kernel p) = 0) [0..<NPROC] = Some 1"
  proof -
    have "[0..<NPROC] = 0 # 1 # [2..<NPROC]" by (simp add: NPROC_def upt_rec)
    then show ?thesis using slice_pr[of 0] slice_pr[of 1] by (simp add: NPROC_def sample_proc_def)
  qed
  moreover have "p_state (pr slice_kernel q) \<noteq> UNUSED" if "q < 1" for q
    using that slice_pr[of 0] by (simp add: NPROC_def sample_proc_def)
  moreover have "p_state (pr slice_kernel 1) = UNUSED" using slice_pr[of 1] by (simp add: NPROC_def)
  moreover have "lock_free L_ptable slice_kernel" using slice_fields by (simp add: lock_free_def)
  ultimately show ?thesis using kill_zero_kills_next_process[OF slice_kinv(1)] by blast
qed

end
