(* ===== verification/Chpr.thy ===== *)
theory Chpr
  imports Sched_Control
begin

text \<open>\<open>chpr\<close>, which changes the priority of a process under \<open>MLQ\<close>, and the queue it corrupts.\<close>

section \<open>A process changes its level\<close>






section \<open>Errors\<close>

text \<open>
  \<open>chpr\<close> with a pid that no process has goes on with the element behind the process table:
  an access outside the array.
\<close>

theorem chpr_unknown_pid:
  assumes "lock_free L_ptable s" "\<forall>q < NPROC. p_pid (pr s q) \<noteq> pid"
  shows "chpr MLQ pid new s = Fault"
proof -
  have "find (\<lambda>i. p_pid (pr s i) = pid) [0..<NPROC] = None" using assms(2) by (simp add: find_upt_None)
  moreover have "acquire L_ptable s = Ret () (s\<lparr>k_held := (L_ptable, k_me s) # k_held s\<rparr>)"
    using assms(1) by (rule acquire_free)
  ultimately show ?thesis by (simp add: chpr_def kbind_def kopt_def)
qed

lemma chpr_unknown_pid_witness: "chpr MLQ 9 3 boot_kernel = Fault"
proof -
  have "lock_free L_ptable boot_kernel" by (simp add: lock_free_def boot_kernel_def sample_kernel_def)
  moreover have "\<forall>q < NPROC. p_pid (pr boot_kernel q) \<noteq> 9" using boot_pr by (auto simp: sample_proc_def)
  ultimately show ?thesis by (rule chpr_unknown_pid)
qed





end
