(* ===== verification/Pipe_Fifo.thy ===== *)
theory Pipe_Fifo
  imports Pipe Binit
begin

text \<open>A pipe is a bounded queue of bytes: what \<open>pipewrite\<close> appends, \<open>piperead\<close> delivers in order.\<close>

section \<open>Bounded queues of bytes\<close>

locale byte_queue =
  fixes wf :: "'q \<Rightarrow> bool"
    and items :: "'q \<Rightarrow> 'a list"
    and cap :: nat
    and put :: "'a \<Rightarrow> 'q \<Rightarrow> 'q"
    and get :: "'q \<Rightarrow> 'a \<times> 'q"
  assumes put_ok: "wf q \<Longrightarrow> length (items q) < cap \<Longrightarrow> wf (put x q) \<and> items (put x q) = items q @ [x]"
    and get_ok: "wf q \<Longrightarrow> items q = x # xs \<Longrightarrow> fst (get q) = x \<and> wf (snd (get q)) \<and> items (snd (get q)) = xs"
begin

lemma put_all: "wf q \<Longrightarrow> length (items q) + length xs \<le> cap \<Longrightarrow>
    wf (fold put xs q) \<and> items (fold put xs q) = items q @ xs"
proof (induction xs arbitrary: q)
  case (Cons x xs)
  then have "wf (put x q)" "items (put x q) = items q @ [x]" using put_ok[of q x] by auto
  then show ?case using Cons.IH[of "put x q"] Cons.prems by simp
qed simp

primrec get_n :: "nat \<Rightarrow> 'q \<Rightarrow> 'a list \<times> 'q" where
  "get_n 0 q = ([], q)"
| "get_n (Suc n) q = (let (x, q1) = get q; (xs, q2) = get_n n q1 in (x # xs, q2))"

lemma get_n_ok: "wf q \<Longrightarrow> n \<le> length (items q) \<Longrightarrow>
    fst (get_n n q) = take n (items q) \<and> wf (snd (get_n n q)) \<and> items (snd (get_n n q)) = drop n (items q)"
proof (induction n arbitrary: q)
  case (Suc n)
  obtain x xs where i: "items q = x # xs" using Suc.prems(2) by (cases "items q") auto
  obtain y q1 where g: "get q = (y, q1)" by (cases "get q")
  have "y = x" "wf q1" "items q1 = xs" using get_ok[OF Suc.prems(1) i] g by auto
  then show ?case using Suc.IH[of q1] Suc.prems(2) i g by (simp add: split_beta)
qed simp

text \<open>What was put in comes out, in order, behind what was there before.\<close>

lemma put_get: "wf q \<Longrightarrow> items q = [] \<Longrightarrow> length xs \<le> cap \<Longrightarrow> fst (get_n (length xs) (fold put xs q)) = xs"
  using put_all[of q xs] get_n_ok[of "fold put xs q" "length xs"] by simp

end

section \<open>The ring of a pipe\<close>

definition pipe_len :: "pipe \<Rightarrow> nat" where
  "pipe_len x = unat (pi_nwrite x - pi_nread x)"

definition pipe_items :: "pipe \<Rightarrow> u8 list" where
  "pipe_items x = map (\<lambda>k. pi_data x ! ((unat (pi_nread x) + k) mod 512)) [0..<pipe_len x]"

definition pipe_wf :: "pipe \<Rightarrow> bool" where
  "pipe_wf x \<longleftrightarrow> length (pi_data x) = 512 \<and> pipe_len x \<le> 512"

lemma pipe_items_length [simp]: "length (pipe_items x) = pipe_len x"
  by (simp add: pipe_items_def)

lemma ring_index: "unat (a mod PIPESIZE) = unat a mod 512"
  by (simp add: PIPESIZE_def unat_mod)

lemma add_index: "unat ((a :: u32) + of_nat k) mod 512 = (unat a + k) mod 512"
proof -
  have "unat (a + of_nat k) = (unat a + k) mod 2 ^ 32" by (simp add: unat_word_ariths unat_of_nat mod_add_right_eq)
  moreover have "(512 :: nat) dvd 2 ^ 32" by simp
  ultimately show ?thesis by (simp add: mod_mod_cancel)
qed

lemma full_iff: "pipe_wf x \<Longrightarrow> pipe_full x \<longleftrightarrow> pipe_len x = 512"
proof -
  assume "pipe_wf x"
  have "pipe_full x \<longleftrightarrow> pi_nwrite x - pi_nread x = 512" by (auto simp: pipe_full_def PIPESIZE_def algebra_simps)
  then show ?thesis by (simp add: pipe_len_def word_unat_eq_iff)
qed

lemma empty_iff: "pipe_empty x \<longleftrightarrow> pipe_len x = 0"
  by (auto simp: pipe_empty_def pipe_len_def unat_eq_zero)

lemma pipe_put_ok:
  assumes "pipe_wf x" "length (pipe_items x) < 512"
  shows "pipe_wf (pipe_put c x) \<and> pipe_items (pipe_put c x) = pipe_items x @ [c]"
proof -
  let ?d = "pi_nwrite x - pi_nread x" and ?y = "pipe_put c x"
  have l: "unat ?d < 512" "length (pi_data x) = 512" using assms by (auto simp: pipe_wf_def pipe_len_def)
  have "unat (?d + 1) = unat ?d + 1" using l(1) by (simp add: unat_word_ariths)
  moreover have "pipe_len ?y = unat (?d + 1)" by (simp add: pipe_len_def pipe_put_def algebra_simps)
  ultimately have len: "pipe_len ?y = Suc (pipe_len x)" by (simp add: pipe_len_def)
  have w: "unat (pi_nwrite x mod PIPESIZE) = (unat (pi_nread x) + pipe_len x) mod 512"
    using add_index[of "pi_nread x" "pipe_len x"] by (simp add: ring_index pipe_len_def)
  have other: "(unat (pi_nread x) + k) mod 512 \<noteq> (unat (pi_nread x) + pipe_len x) mod 512" if "k < pipe_len x" for k
  proof
    assume "(unat (pi_nread x) + k) mod 512 = (unat (pi_nread x) + pipe_len x) mod 512"
    then have "(512 :: nat) dvd (unat (pi_nread x) + pipe_len x) - (unat (pi_nread x) + k)"
      using that by (metis mod_eq_dvd_iff_nat nat_add_left_cancel_le less_imp_le)
    then show False using that l(1) by (auto simp: pipe_len_def dest!: dvd_imp_le)
  qed
  have "pipe_items ?y = map (\<lambda>k. pi_data ?y ! ((unat (pi_nread x) + k) mod 512)) [0..<pipe_len x] @ [c]"
    using l(2) by (simp add: pipe_items_def len) (simp add: pipe_put_def w)
  also have "map (\<lambda>k. pi_data ?y ! ((unat (pi_nread x) + k) mod 512)) [0..<pipe_len x] = pipe_items x"
    unfolding pipe_items_def using other by (intro map_cong[OF refl]) (simp add: pipe_put_def w nth_list_update_neq[OF not_sym])
  finally show ?thesis using l len by (simp add: pipe_wf_def pipe_len_def) (simp add: pipe_put_def)
qed

lemma pipe_get_ok:
  assumes "pipe_wf x" "pipe_items x = c # cs"
  shows "fst (pipe_get x) = c \<and> pipe_wf (snd (pipe_get x)) \<and> pipe_items (snd (pipe_get x)) = cs"
proof -
  let ?d = "pi_nwrite x - pi_nread x" and ?y = "snd (pipe_get x)"
  have "pipe_len x = Suc (length cs)" using arg_cong[OF assms(2), of length] by simp
  then have d: "unat ?d = Suc (length cs)" by (simp add: pipe_len_def)
  then have "unat (?d - 1) = length cs" by (metis unat_minus_one unat_0 diff_Suc_1 nat.distinct(1))
  moreover have "pipe_len ?y = unat (?d - 1)" by (simp add: pipe_len_def pipe_get_def algebra_simps)
  ultimately have len: "pipe_len ?y = length cs" by simp
  have it: "pipe_items x = pi_data x ! (unat (pi_nread x) mod 512) #
      map (\<lambda>k. pi_data x ! ((unat (pi_nread x) + Suc k) mod 512)) [0..<length cs]"
    unfolding pipe_items_def pipe_len_def d by (simp add: upt_conv_Cons map_Suc_upt[symmetric] del: upt_Suc)
  have nxt: "(unat (pi_nread x + 1) + k) mod 512 = Suc (unat (pi_nread x) + k) mod 512" for k
  proof -
    have "(unat (pi_nread x + 1) + k) mod 512 = (unat (pi_nread x + 1) mod 512 + k) mod 512" by (simp add: mod_add_left_eq)
    also have "unat (pi_nread x + 1) mod 512 = (unat (pi_nread x) + 1) mod 512" using add_index[of "pi_nread x" 1] by simp
    finally show ?thesis by (simp add: mod_add_left_eq)
  qed
  have "pipe_items ?y = map (\<lambda>k. pi_data x ! ((unat (pi_nread x) + Suc k) mod 512)) [0..<length cs]"
    unfolding pipe_items_def len by (rule map_cong[OF refl]) (simp add: pipe_get_def nxt)
  then show ?thesis using it assms len d
    by (simp add: pipe_get_def ring_index pipe_wf_def pipe_len_def)
qed

interpretation pipe: byte_queue pipe_wf pipe_items 512 pipe_put pipe_get
  by unfold_locales (use pipe_put_ok pipe_get_ok in auto)


section \<open>Moving bytes between a process and a pipe\<close>

lemma reach_cong: "k_mem t = k_mem s \<Longrightarrow> mycpu t = mycpu s \<Longrightarrow> reach t = reach s"
  by (rule ext) (simp add: reach_def)

lemma upd_pipe_fields [simp]:
  "k_pipes (upd_pipe p f s) = (k_pipes s)(p := f (k_pipes s p))" "k_mem (upd_pipe p f s) = k_mem s"
  "k_held (upd_pipe p f s) = k_held s" "k_me (upd_pipe p f s) = k_me s" "mycpu (upd_pipe p f s) = mycpu s"
  "k_cpus (upd_pipe p f s) = k_cpus s"
  by (simp_all add: upd_pipe_def mycpu_def)

lemma reach_upd_pipe [simp]: "reach (upd_pipe p f s) = reach s"
  by (rule reach_cong) simp_all

lemma reach_held [simp]: "reach (s\<lparr>k_held := h\<rparr>) = reach s" "mycpu (s\<lparr>k_held := h\<rparr>) = mycpu s"
  by (rule reach_cong; simp add: mycpu_def) (simp add: mycpu_def)

lemma upd_pipe_twice: "upd_pipe p f (upd_pipe p g s) = upd_pipe p (\<lambda>x. f (g x)) s"
  by (simp add: upd_pipe_def)

text \<open>The bytes \<open>cs\<close> are readable at the virtual address \<open>a\<close>.\<close>

definition bytes_at :: "kernel \<Rightarrow> u32 \<Rightarrow> u8 list \<Rightarrow> bool" where
  "bytes_at s a cs \<longleftrightarrow> (\<forall>k < length cs. map_option (k_mem s) (reach s (a + of_nat k)) = Some (cs ! k))"

lemma bytes_at_Cons:
  assumes "bytes_at s a (c # cs)"
  shows "load8 a s = Ret c s" "bytes_at s (a + 1) cs"
proof -
  have "map_option (k_mem s) (reach s (a + of_nat 0)) = Some ((c # cs) ! 0)"
    using assms unfolding bytes_at_def by blast
  then show "load8 a s = Ret c s" by (auto simp: load8_def kexec)
  show "bytes_at s (a + 1) cs" unfolding bytes_at_def
  proof (intro allI impI)
    fix k assume "k < length cs"
    then have "map_option (k_mem s) (reach s (a + of_nat (Suc k))) = Some ((c # cs) ! Suc k)"
      using assms unfolding bytes_at_def by (metis length_Cons Suc_less_eq)
    then show "map_option (k_mem s) (reach s (a + 1 + of_nat k)) = Some (cs ! k)" by (simp add: algebra_simps)
  qed
qed

lemma pipe_room_free: "\<not> pipe_full (k_pipes s p) \<Longrightarrow> pipe_room n p s = Ret True s"
  by (cases n) (simp_all add: kexec)

lemma pipewrite_loop_ok:
  "bytes_at s a cs \<Longrightarrow> pipe_wf (k_pipes s p) \<Longrightarrow> length (pipe_items (k_pipes s p)) + length cs \<le> 512 \<Longrightarrow>
    pipewrite_loop (length cs) p a s = Ret True (upd_pipe p (fold pipe_put cs) s)"
proof (induction cs arbitrary: a s)
  case (Cons c cs)
  let ?s = "upd_pipe p (pipe_put c) s"
  have room: "length (pipe_items (k_pipes s p)) < 512" using Cons.prems(3) by simp
  have "pipe_room (k_patience s) p s = Ret True s"
    using full_iff[OF Cons.prems(2)] room by (intro pipe_room_free) simp
  then have "pipewrite_loop (length (c # cs)) p a s = pipewrite_loop (length cs) p (a + 1) ?s"
    using bytes_at_Cons(1)[OF Cons.prems(1)] by (simp add: kbind_def kupd_def)
  also have "\<dots> = Ret True (upd_pipe p (fold pipe_put cs) ?s)"
  proof (rule Cons.IH)
    show "bytes_at ?s (a + 1) cs" using bytes_at_Cons(2)[OF Cons.prems(1)] by (simp add: bytes_at_def)
  qed (use pipe_put_ok[OF Cons.prems(2) room] Cons.prems(3) in auto)
  finally show ?case by (simp add: upd_pipe_twice)
qed (simp add: kret_def upd_pipe_def)

text \<open>
  The buffer at \<open>a\<close> lies in the physical bytes \<open>pas\<close>, and the page table that maps it does not:
  whatever is written there, the translation stays.
\<close>

definition buffer_at :: "kernel \<Rightarrow> u32 \<Rightarrow> u32 list \<Rightarrow> bool" where
  "buffer_at s a pas \<longleftrightarrow> distinct pas \<and> (\<forall>m. (\<forall>x. x \<notin> set pas \<longrightarrow> m x = k_mem s x) \<longrightarrow>
     (\<forall>k < length pas. reach (s\<lparr>k_mem := m\<rparr>) (a + of_nat k) = Some (pas ! k)))"

lemma buffer_at_upd_pipe [simp]: "buffer_at (upd_pipe p f s) a pas = buffer_at s a pas"
proof -
  have "reach (upd_pipe p f s\<lparr>k_mem := m\<rparr>) = reach (s\<lparr>k_mem := m\<rparr>)" for m
    by (rule reach_cong) (simp_all add: upd_pipe_def mycpu_def)
  then show ?thesis by (simp add: buffer_at_def)
qed

lemma buffer_at_held [simp]: "buffer_at (s\<lparr>k_held := h\<rparr>) a pas = buffer_at s a pas"
proof -
  have "reach (s\<lparr>k_held := h, k_mem := m\<rparr>) = reach (s\<lparr>k_mem := m\<rparr>)" for m
    by (rule reach_cong) (simp_all add: mycpu_def)
  then show ?thesis by (simp add: buffer_at_def)
qed

lemma mycpu_mem [simp]: "mycpu (s\<lparr>k_mem := m\<rparr>) = mycpu s"
  by (simp add: mycpu_def)

lemma buffer_at_Cons:
  assumes "buffer_at s a (pa # pas)"
  shows "reach s a = Some pa" "buffer_at (s\<lparr>k_mem := (k_mem s)(pa := c)\<rparr>) (a + 1) pas"
proof -
  have b: "\<forall>k < Suc (length pas). reach (s\<lparr>k_mem := m\<rparr>) (a + of_nat k) = Some ((pa # pas) ! k)"
    if "\<forall>x. x \<notin> set (pa # pas) \<longrightarrow> m x = k_mem s x" for m
    using assms that unfolding buffer_at_def by simp
  show "reach s a = Some pa" using b[of "k_mem s"] by (auto dest: spec[of _ 0])
  show "buffer_at (s\<lparr>k_mem := (k_mem s)(pa := c)\<rparr>) (a + 1) pas" unfolding buffer_at_def
  proof (intro conjI allI impI)
    show "distinct pas" using assms by (simp add: buffer_at_def)
    fix m k assume "\<forall>x. x \<notin> set pas \<longrightarrow> m x = k_mem (s\<lparr>k_mem := (k_mem s)(pa := c)\<rparr>) x" and k: "k < length pas"
    then have "\<forall>x. x \<notin> set (pa # pas) \<longrightarrow> m x = k_mem s x" by simp
    then have "reach (s\<lparr>k_mem := m\<rparr>) (a + of_nat (Suc k)) = Some ((pa # pas) ! Suc k)" using b k by blast
    then show "reach (s\<lparr>k_mem := (k_mem s)(pa := c), k_mem := m\<rparr>) (a + 1 + of_nat k) = Some (pas ! k)"
      by (simp add: algebra_simps)
  qed
qed

lemma pipes_mem_swap: "s\<lparr>k_pipes := x, k_mem := y\<rparr> = s\<lparr>k_mem := y, k_pipes := x\<rparr>"
  by simp

lemma piperead_loop_ok:
  "buffer_at s a pas \<Longrightarrow> pipe_wf (k_pipes s p) \<Longrightarrow> m = min (length pas) (length (pipe_items (k_pipes s p))) \<Longrightarrow>
    \<exists>mm. piperead_loop (length pas) i p a s = Ret (i + m) (upd_pipe p (\<lambda>x. snd (pipe.get_n m x)) (s\<lparr>k_mem := mm\<rparr>)) \<and>
      map mm (take m pas) = take m (pipe_items (k_pipes s p)) \<and> (\<forall>x. x \<notin> set (take m pas) \<longrightarrow> mm x = k_mem s x)"
proof (induction pas arbitrary: a s i m)
  case Nil
  then show ?case by (intro exI[of _ "k_mem s"]) (simp add: kret_def upd_pipe_def)
next
  case (Cons pa pas)
  show ?case
  proof (cases "pipe_items (k_pipes s p)")
    case Nil
    then have "pipe_empty (k_pipes s p)" using empty_iff pipe_items_length by (metis list.size(3))
    then show ?thesis using Nil Cons.prems(3)
      by (intro exI[of _ "k_mem s"]) (simp add: kexec upd_pipe_def)
  next
    case (Cons c cs)
    let ?x = "k_pipes s p"
    let ?s = "upd_pipe p (\<lambda>_. snd (pipe_get ?x)) (s\<lparr>k_mem := (k_mem s)(pa := c)\<rparr>)"
    have g: "fst (pipe_get ?x) = c" "pipe_wf (snd (pipe_get ?x))" "pipe_items (snd (pipe_get ?x)) = cs"
      using pipe_get_ok[OF Cons.prems(2) Cons] by auto
    have ne: "\<not> pipe_empty ?x" using empty_iff[of ?x] pipe_items_length[of ?x] Cons by auto
    let ?n = "min (length pas) (length cs)"
    have m: "m = Suc ?n" using Cons.prems(3) Cons by simp
    have "buffer_at ?s (a + 1) pas"
      using buffer_at_Cons(2)[OF Cons.prems(1), of c] by (simp add: buffer_at_upd_pipe)
    from Cons.IH[OF this, where m = ?n and i = "Suc i"] g obtain mm where
      r: "piperead_loop (length pas) (Suc i) p (a + 1) ?s =
          Ret (Suc i + ?n) (upd_pipe p (\<lambda>x. snd (pipe.get_n ?n x)) (?s\<lparr>k_mem := mm\<rparr>))"
        "map mm (take ?n pas) = take ?n cs" "\<forall>x. x \<notin> set (take ?n pas) \<longrightarrow> mm x = (if x = pa then c else k_mem s x)"
      by auto
    have "piperead_loop (length (pa # pas)) i p a s = piperead_loop (length pas) (Suc i) p (a + 1) ?s"
      using ne buffer_at_Cons(1)[OF Cons.prems(1)] g(1)
      by (simp add: kif_def kbind_def kget_def kupd_def store8_def kopt_def split_beta) (simp add: upd_pipe_def pipes_mem_swap)
    moreover have "upd_pipe p (\<lambda>x. snd (pipe.get_n ?n x)) (?s\<lparr>k_mem := mm\<rparr>) =
        upd_pipe p (\<lambda>x. snd (pipe.get_n m x)) (s\<lparr>k_mem := mm\<rparr>)"
      by (simp add: upd_pipe_def m split_beta)
    moreover have "pa \<notin> set pas" using Cons.prems(1) by (simp add: buffer_at_def)
    then have "pa \<notin> set (take ?n pas)" using in_set_takeD by fast
    ultimately show ?thesis using r m Cons by (intro exI[of _ mm]) auto
  qed
qed


lemma upd_pipe_held: "upd_pipe p f (s\<lparr>k_held := h\<rparr>) = (upd_pipe p f s)\<lparr>k_held := h\<rparr>"
  "upd_pipe p f (s\<lparr>k_held := h, k_mem := m\<rparr>) = (upd_pipe p f (s\<lparr>k_mem := m\<rparr>))\<lparr>k_held := h\<rparr>"
  by (simp_all add: upd_pipe_def)

lemma calm_pipe [simp]: "calm sw q pid (upd_pipe p f s) = calm sw q pid s"
  "calm sw q pid (s\<lparr>k_mem := m\<rparr>) = calm sw q pid s"
  by (rule calm_cong; simp add: upd_pipe_def)+

lemma procs_only_pipes: "procs_only s t \<Longrightarrow> k_pipes t = k_pipes s \<and> k_mem t = k_mem s"
  by (auto simp: procs_only_def)

lemma pipe_wait_done: "\<not> pipe_empty (k_pipes s p) \<or> \<not> pi_writeopen (k_pipes s p) \<Longrightarrow> pipe_wait n p s = Ret True s"
  by (cases n) (auto simp: kexec)

text \<open>
  C20. A pipe with room for them takes all the bytes of a write: \<open>pipewrite\<close> returns their number,
  appends them in order behind the bytes already there, whatever the wrap-around of the two
  counters, and touches no other pipe and no memory. It does so even when nobody can read any more.
\<close>

theorem pipewrite_appends:
  assumes "calm sw q pid s" "pipe_wf (k_pipes s p)" "length (pipe_items (k_pipes s p)) + length cs \<le> 512" "bytes_at s a cs"
  shows "\<exists>t. pipewrite p a (length cs) s = Ret (int (length cs)) t \<and> calm sw q pid t \<and>
    pipe_wf (k_pipes t p) \<and> pipe_items (k_pipes t p) = pipe_items (k_pipes s p) @ cs \<and>
    k_mem t = k_mem s \<and> (\<forall>p'. p' \<noteq> p \<longrightarrow> k_pipes t p' = k_pipes s p')"
proof -
  let ?s = "s\<lparr>k_held := [(L_pipe p, k_me s)]\<rparr>" and ?u = "upd_pipe p (fold pipe_put cs) s"
  have "bytes_at ?s a cs" using assms(4) by (simp add: bytes_at_def)
  then have l: "pipewrite_loop (length cs) p a ?s = Ret True (?u\<lparr>k_held := [(L_pipe p, k_me ?u)]\<rparr>)"
    using assms(2,3) by (simp add: pipewrite_loop_ok upd_pipe_held)
  have "calm sw q pid ?u" using assms(1) by simp
  from wake_release_calm[OF this, of "L_pipe p" "Ch_nread p"] obtain t where
    t: "kseq [wake (Ch_nread p), release (L_pipe p)] (?u\<lparr>k_held := [(L_pipe p, k_me ?u)]\<rparr>) = Ret () t"
      "calm sw q pid t" "procs_only ?u t" by auto
  have "pipewrite p a (length cs) s = Ret (int (length cs)) t"
    unfolding pipewrite_def kbind_def calm_acquire[OF assms(1)] obind.simps l by (simp only: obind.simps t(1) if_True not_True_eq_False if_False kbind_def kret_def)
  then show ?thesis using t(2) procs_only_pipes[OF t(3)] pipe.put_all[OF assms(2,3)] by auto
qed

text \<open>
  C19. A read takes what is there: when a pipe holds bytes, or nobody can write any more,
  \<open>piperead\<close> does not sleep, delivers the oldest bytes in order, as many as the buffer and the
  pipe allow, and leaves the others; from an empty pipe without writers it returns 0.
\<close>

theorem piperead_delivers:
  assumes "calm sw q pid s" "pipe_wf (k_pipes s p)" "buffer_at s a pas"
    "pipe_items (k_pipes s p) \<noteq> [] \<or> \<not> pi_writeopen (k_pipes s p)"
    "m = min (length pas) (length (pipe_items (k_pipes s p)))"
  shows "\<exists>t. piperead p a (length pas) s = Ret (int m) t \<and> calm sw q pid t \<and>
    map (k_mem t) (take m pas) = take m (pipe_items (k_pipes s p)) \<and>
    (\<forall>x. x \<notin> set (take m pas) \<longrightarrow> k_mem t x = k_mem s x) \<and>
    pipe_wf (k_pipes t p) \<and> pipe_items (k_pipes t p) = drop m (pipe_items (k_pipes s p)) \<and>
    (\<forall>p'. p' \<noteq> p \<longrightarrow> k_pipes t p' = k_pipes s p')"
proof -
  let ?h = "[(L_pipe p, k_me s)]"
  let ?s = "s\<lparr>k_held := ?h\<rparr>" and ?f = "\<lambda>x. snd (pipe.get_n m x)"
  have "\<not> pipe_empty (k_pipes ?s p) \<or> \<not> pi_writeopen (k_pipes ?s p)"
    using assms(4) by (auto simp: empty_iff pipe_items_def)
  then have w: "pipe_wait (k_patience ?s) p ?s = Ret True ?s" by (rule pipe_wait_done)
  have "buffer_at ?s a pas" using assms(3) by simp
  from piperead_loop_ok[OF this, of p m 0] assms(2,5) obtain mm where
    l: "piperead_loop (length pas) 0 p a ?s = Ret m (upd_pipe p ?f (?s\<lparr>k_mem := mm\<rparr>))"
    and mm: "map mm (take m pas) = take m (pipe_items (k_pipes s p))" "\<forall>x. x \<notin> set (take m pas) \<longrightarrow> mm x = k_mem s x"
    by auto
  let ?u = "upd_pipe p ?f (s\<lparr>k_mem := mm\<rparr>)"
  have e: "upd_pipe p ?f (?s\<lparr>k_mem := mm\<rparr>) = ?u\<lparr>k_held := [(L_pipe p, k_me ?u)]\<rparr>" by (simp add: upd_pipe_held)
  have "calm sw q pid ?u" using assms(1) by simp
  from wake_release_calm[OF this, of "L_pipe p" "Ch_nwrite p"] obtain t where
    t: "kseq [wake (Ch_nwrite p), release (L_pipe p)] (?u\<lparr>k_held := [(L_pipe p, k_me ?u)]\<rparr>) = Ret () t"
      "calm sw q pid t" "procs_only ?u t" by auto
  have "piperead p a (length pas) s = Ret (int m) t"
    unfolding piperead_def kbind_def calm_acquire[OF assms(1)] obind.simps w
    by (simp only: obind.simps l e t(1) if_True not_True_eq_False if_False kbind_def kret_def)
  then show ?thesis using t(2) procs_only_pipes[OF t(3)] pipe.get_n_ok[OF assms(2), of m] assms(5) mm by auto
qed

text \<open>A pipe whose counters are about to wrap around, with two bytes in it.\<close>

definition wrapping_pipe :: pipe where
  "wrapping_pipe = \<lparr>pi_data = (replicate 512 0)[511 := 5, 0 := 6], pi_nread = 0xFFFFFFFF, pi_nwrite = 1,
     pi_readopen = True, pi_writeopen = True\<rparr>"

definition pipe_kernel :: kernel where
  "pipe_kernel = running_kernel\<lparr>k_pipes := (\<lambda>_. wrapping_pipe), k_mem := (\<lambda>_. 7)\<rparr>"

lemma pipe_kernel_calm: "calm {} 0 1 pipe_kernel"
  using running_calm[of "k_disk running_kernel"] calm_cong[of pipe_kernel running_kernel] by (simp add: pipe_kernel_def)

lemma wrapping_pipe_ok: "pipe_wf wrapping_pipe" "pipe_items wrapping_pipe = [5, 6]"
proof -
  have l: "pipe_len wrapping_pipe = 2" by (simp add: pipe_len_def wrapping_pipe_def)
  then show "pipe_wf wrapping_pipe" by (simp add: pipe_wf_def) (simp add: wrapping_pipe_def)
  have "[0..<2] = [0, 1 :: nat]" by (simp add: upt_rec)
  then show "pipe_items wrapping_pipe = [5, 6]" unfolding pipe_items_def l by (simp add: wrapping_pipe_def)
qed

lemma pipewrite_appends_witness:
  "\<exists>t. pipewrite 0x1000 KERNBASE 2 pipe_kernel = Ret 2 t \<and> pipe_items (k_pipes t 0x1000) = [5, 6, 7, 7]"
proof -
  have "reach pipe_kernel (KERNBASE + of_nat k) = Some (KERNBASE + of_nat k)" if "k < 2" for k
    using that by (auto simp: reach_def KERNBASE_def less_2_cases_iff)
  then have "bytes_at pipe_kernel KERNBASE [7, 7]"
    by (auto simp: bytes_at_def pipe_kernel_def less_2_cases_iff numeral_2_eq_2 less_Suc_eq)
  then show ?thesis
    using pipewrite_appends[OF pipe_kernel_calm, of "0x1000" "[7, 7]" KERNBASE] wrapping_pipe_ok
    by (auto simp: pipe_kernel_def numeral_2_eq_2)
qed

lemma piperead_delivers_witness:
  "\<exists>t. piperead 0x1000 KERNBASE 3 pipe_kernel = Ret 2 t \<and> k_mem t KERNBASE = 5 \<and> k_mem t (KERNBASE + 1) = 6 \<and>
     pipe_items (k_pipes t 0x1000) = []"
proof -
  let ?pas = "[KERNBASE, KERNBASE + 1, KERNBASE + 2]"
  have "buffer_at pipe_kernel KERNBASE ?pas"
    by (auto simp: buffer_at_def reach_def KERNBASE_def less_Suc_eq numeral_3_eq_3)
  moreover have "k_pipes pipe_kernel 0x1000 = wrapping_pipe" by (simp add: pipe_kernel_def)
  ultimately show ?thesis
    using piperead_delivers[OF pipe_kernel_calm, of "0x1000" KERNBASE ?pas 2] wrapping_pipe_ok
    by (auto simp: numeral_2_eq_2 numeral_3_eq_3)
qed

end
