(* ===== verification/Umalloc.thy ===== *)
theory Umalloc
  imports Cmem
begin

text \<open>
  \<open>umalloc.c\<close>: the allocator of the user library. The memory is that of the process; the headers
  of the blocks, with the links of the circular free list, are in it.
\<close>

section \<open>The state\<close>

text \<open>
  \<open>h_base\<close> is the address of the static header \<open>base\<close>, \<open>h_brk\<close> the size of the process and
  \<open>h_avail\<close> the number of bytes for which the kernel still finds pages.
\<close>

record uheap =
  h_mem :: memory
  h_base :: u32
  h_freep :: u32
  h_brk :: u32
  h_avail :: nat

type_synonym 'a umon = "uheap \<Rightarrow> ('a, uheap) outcome"

definition SIZEOF_HEADER :: u32 where "SIZEOF_HEADER = 8"
definition USER_LIMIT :: u32 where "USER_LIMIT = 0x80000000"

text \<open>Words of the process; an access outside its memory is a fault.\<close>

definition getw :: "u32 \<Rightarrow> u32 umon" where
  "getw a = kopt (\<lambda>s. if unat a + 4 \<le> unat (h_brk s) then Some (load32 (h_mem s) a) else None)"

definition setw :: "u32 \<Rightarrow> u32 \<Rightarrow> unit umon" where
  "setw a v = (\<lambda>s. if unat a + 4 \<le> unat (h_brk s) then Ret () (s\<lparr>h_mem := store32 (h_mem s) a v\<rparr>) else Fault)"

text \<open>\<open>p->s.ptr\<close> and \<open>p->s.size\<close>.\<close>

definition get_ptr :: "u32 \<Rightarrow> u32 umon" where "get_ptr p = getw p"
definition get_size :: "u32 \<Rightarrow> u32 umon" where "get_size p = getw (p + 4)"
definition set_ptr :: "u32 \<Rightarrow> u32 \<Rightarrow> unit umon" where "set_ptr p v = setw p v"
definition set_size :: "u32 \<Rightarrow> u32 \<Rightarrow> unit umon" where "set_size p v = setw (p + 4) v"
definition set_freep :: "u32 \<Rightarrow> unit umon" where "set_freep p = kupd (\<lambda>s. s\<lparr>h_freep := p\<rparr>)"

text \<open>The system call \<open>sbrk\<close>: the size of the process after it, or \<open>None\<close> when it fails.\<close>

definition brk_after :: "u32 \<Rightarrow> uheap \<Rightarrow> u32 option" where
  "brk_after n s = (let sz = h_brk s; new = sz + n in
     if 0 < sint n then
       (if USER_LIMIT \<le> new then None
        else if new < sz then Some sz
        else if unat n \<le> h_avail s then Some new else None)
     else if sint n < 0 then
       (if sz \<le> new then Some sz else if new = 0 then None else Some new)
     else Some sz)"

definition sbrk :: "u32 \<Rightarrow> u32 umon" where
  "sbrk n s = (case brk_after n s of
     None \<Rightarrow> Ret (- 1) s
   | Some new \<Rightarrow> Ret (h_brk s)
       (s\<lparr>h_mem := (\<lambda>a. if h_brk s \<le> a \<and> a < new then 0 else h_mem s a), h_brk := new,
          h_avail := h_avail s + unat (h_brk s) - unat new\<rparr>))"

section \<open>\<open>free\<close>\<close>

text \<open>
  The loops walk along the free list. Their bound is the size of the process, which is larger
  than twice the number of headers it can hold; a list that is not circular runs into it.
\<close>

fun free_search :: "nat \<Rightarrow> u32 \<Rightarrow> u32 \<Rightarrow> u32 umon" where
  "free_search 0 bp p = (\<lambda>s. Spin)"
| "free_search (Suc n) bp p = kbind (get_ptr p) (\<lambda>next.
     if p < bp \<and> bp < next then kret p
     else if next \<le> p \<and> (p < bp \<or> bp < next) then kret p
     else free_search n bp next)"

definition join_upper :: "u32 \<Rightarrow> u32 \<Rightarrow> unit umon" where
  "join_upper bp p =
     kbind (get_size bp) (\<lambda>sz. kbind (get_ptr p) (\<lambda>next.
     if bp + SIZEOF_HEADER * sz = next
     then kbind (get_size next) (\<lambda>nsize. kbind (set_size bp (sz + nsize)) (\<lambda>_.
       kbind (get_ptr next) (\<lambda>after. set_ptr bp after)))
     else set_ptr bp next))"

definition join_lower :: "u32 \<Rightarrow> u32 \<Rightarrow> unit umon" where
  "join_lower bp p =
     kbind (get_size p) (\<lambda>psize.
     if p + SIZEOF_HEADER * psize = bp
     then kbind (get_size bp) (\<lambda>sz. kbind (set_size p (psize + sz)) (\<lambda>_.
       kbind (get_ptr bp) (\<lambda>after. set_ptr p after)))
     else set_ptr p bp)"

definition ufree :: "u32 \<Rightarrow> unit umon" where
  "ufree ap = (let bp = ap - SIZEOF_HEADER in
     kbind (\<lambda>s. free_search (unat (h_brk s)) bp (h_freep s) s) (\<lambda>p.
     kseq [join_upper bp p, join_lower bp p, set_freep p]))"

section \<open>\<open>malloc\<close>\<close>

definition morecore :: "u32 \<Rightarrow> u32 umon" where
  "morecore nu0 = (let nu = if nu0 < 4096 then 4096 else nu0 in
     kbind (sbrk (nu * SIZEOF_HEADER)) (\<lambda>p.
     if p = - 1 then kret 0
     else kbind (set_size p nu) (\<lambda>_. kbind (ufree (p + SIZEOF_HEADER)) (\<lambda>_. kget h_freep))))"

text \<open>What \<open>malloc\<close> does with a block that is large enough: take it whole, or cut off its tail.\<close>

definition take_block :: "u32 \<Rightarrow> u32 \<Rightarrow> u32 \<Rightarrow> u32 \<Rightarrow> u32 umon" where
  "take_block nunits prevp p sz =
     (if sz = nunits then
        kbind (get_ptr p) (\<lambda>next. kbind (set_ptr prevp next) (\<lambda>_.
        kbind (set_freep prevp) (\<lambda>_. kret (p + SIZEOF_HEADER))))
      else let q = p + SIZEOF_HEADER * (sz - nunits) in
        kbind (set_size p (sz - nunits)) (\<lambda>_. kbind (set_size q nunits) (\<lambda>_.
        kbind (set_freep prevp) (\<lambda>_. kret (q + SIZEOF_HEADER)))))"

fun malloc_loop :: "nat \<Rightarrow> u32 \<Rightarrow> u32 \<Rightarrow> u32 \<Rightarrow> u32 umon" where
  "malloc_loop 0 nunits prevp p = (\<lambda>s. Spin)"
| "malloc_loop (Suc n) nunits prevp p =
     kbind (get_size p) (\<lambda>sz.
     if nunits \<le> sz then take_block nunits prevp p sz
     else kbind (kget h_freep) (\<lambda>freep.
       if p = freep then
         kbind (morecore nunits) (\<lambda>p1.
         if p1 = 0 then kret 0 else kbind (get_ptr p1) (\<lambda>next. malloc_loop n nunits p1 next))
       else kbind (get_ptr p) (\<lambda>next. malloc_loop n nunits p next)))"

definition units :: "u32 \<Rightarrow> u32" where
  "units nbytes = (nbytes + SIZEOF_HEADER - 1) div SIZEOF_HEADER + 1"

definition malloc :: "u32 \<Rightarrow> u32 umon" where
  "malloc nbytes =
     kbind (kget h_base) (\<lambda>base.
     kbind (kwhen (\<lambda>s. h_freep s = 0) (kseq [set_ptr base base, set_freep base, set_size base 0])) (\<lambda>_.
     kbind (kget h_freep) (\<lambda>prevp.
     kbind (get_ptr prevp) (\<lambda>p.
     (\<lambda>s. malloc_loop (unat (h_brk s)) (units nbytes) prevp p s)))))"

end
