(* ===== verification/Umalloc_Correct.thy ===== *)
theory Umalloc_Correct
  imports Umalloc
begin

text \<open>
  The allocator is correct: \<open>malloc\<close> returns memory that no other block has, \<open>free\<close> gives it
  back, and neither touches the contents of the blocks in use.
\<close>

section \<open>Headers in memory\<close>

lemma load_store_sep:
  assumes "unat a + 4 \<le> unat b \<or> unat b + 4 \<le> unat a" "unat a + 4 \<le> 2 ^ 32" "unat b + 4 \<le> 2 ^ 32"
  shows "load32 (store32 m a v) b = load32 m b"
proof (rule load_store_apart)
  have sub: "unat (y - x) = (if unat x \<le> unat y then unat y - unat x else unat y + 2 ^ 32 - unat x)" for x y :: u32
    by (simp add: unat_sub_if' )
  show "apart a b" unfolding apart_def word_le_nat_alt using assms by (auto simp: sub)
qed

lemma store32_out:
  assumes "unat x < unat a \<or> unat a + 4 \<le> unat x" "unat a + 4 \<le> 2 ^ 32"
  shows "store32 m a v x = m x"
proof (rule store32_other)
  have sub: "unat (x - a) = (if unat a \<le> unat x then unat x - unat a else unat x + 2 ^ 32 - unat a)"
    by (simp add: unat_sub_if')
  show "4 \<le> x - a" unfolding word_le_nat_alt using assms by (auto simp: sub)
qed

definition ptr :: "memory \<Rightarrow> u32 \<Rightarrow> u32" where "ptr m a = load32 m a"
definition sz :: "memory \<Rightarrow> u32 \<Rightarrow> u32" where "sz m a = load32 m (a + 4)"
definition ptr_upd :: "u32 \<Rightarrow> u32 \<Rightarrow> memory \<Rightarrow> memory" where "ptr_upd a v m = store32 m a v"
definition sz_upd :: "u32 \<Rightarrow> u32 \<Rightarrow> memory \<Rightarrow> memory" where "sz_upd a v m = store32 m (a + 4) v"

text \<open>A header that lies in the lower half of the memory, and two of them that do not overlap.\<close>

definition low :: "u32 \<Rightarrow> bool" where "low a \<longleftrightarrow> unat a + 8 \<le> 2 ^ 31"
definition clear :: "u32 \<Rightarrow> u32 \<Rightarrow> bool" where "clear a b \<longleftrightarrow> unat a + 8 \<le> unat b \<or> unat b + 8 \<le> unat a"

lemma low_4: "low a \<Longrightarrow> unat (a + 4) = unat a + 4"
  by (simp add: low_def unat_word_ariths)

lemma header_upd [simp]:
  assumes "low a"
  shows "ptr (ptr_upd a v m) a = v" "sz (ptr_upd a v m) a = sz m a"
    "ptr (sz_upd a v m) a = ptr m a" "sz (sz_upd a v m) a = v"
  using low_4[OF assms] assms
  by (simp_all add: ptr_def sz_def ptr_upd_def sz_upd_def low_def load_store_sep)

lemma header_upd_other [simp]:
  assumes "clear a b" "low a" "low b"
  shows "ptr (ptr_upd a v m) b = ptr m b" "sz (ptr_upd a v m) b = sz m b"
    "ptr (sz_upd a v m) b = ptr m b" "sz (sz_upd a v m) b = sz m b"
  using low_4[OF assms(2)] low_4[OF assms(3)] assms
  by (auto simp: ptr_def sz_def ptr_upd_def sz_upd_def low_def clear_def intro!: load_store_sep)

text \<open>The bytes outside the header.\<close>

lemma header_upd_byte:
  assumes "low a" "unat x < unat a \<or> unat a + 8 \<le> unat x"
  shows "ptr_upd a v m x = m x" "sz_upd a v m x = m x"
  using low_4[OF assms(1)] assms by (auto simp: ptr_upd_def sz_upd_def low_def store32_out)

section \<open>Blocks and the free list\<close>

type_synonym block = "u32 \<times> u32"

definition lo :: "block \<Rightarrow> nat" where "lo x = unat (fst x)"
definition hi :: "block \<Rightarrow> nat" where "hi x = unat (fst x) + 8 * unat (snd x)"

text \<open>Two blocks of which the first lies before the second; two that do not overlap.\<close>

definition before :: "block \<Rightarrow> block \<Rightarrow> bool" where
  "before x y \<longleftrightarrow> lo x + 8 \<le> lo y \<and> hi x \<le> lo y"

definition sep :: "block \<Rightarrow> block \<Rightarrow> bool" where
  "sep x y \<longleftrightarrow> hi x \<le> lo y \<or> hi y \<le> lo x"

definition first :: "block list \<Rightarrow> u32 \<Rightarrow> u32" where
  "first xs e = (case xs of [] \<Rightarrow> e | x # _ \<Rightarrow> fst x)"

lemma first_simps [simp]: "first [] e = e" "first (x # xs) e = fst x" "first (xs @ ys) e = first xs (first ys e)"
  by (cases xs; simp add: first_def)+

text \<open>\<open>links m xs e\<close>: the headers in the memory describe the blocks \<open>xs\<close>, linked in this order; the last leads to \<open>e\<close>.\<close>

primrec links :: "memory \<Rightarrow> block list \<Rightarrow> u32 \<Rightarrow> bool" where
  "links m [] e \<longleftrightarrow> True"
| "links m (x # xs) e \<longleftrightarrow> ptr m (fst x) = first xs e \<and> sz m (fst x) = snd x \<and> links m xs e"

lemma links_append [simp]: "links m (xs @ ys) e \<longleftrightarrow> links m xs (first ys e) \<and> links m ys e"
  by (induction xs) auto

text \<open>Memories that differ in nothing but the headers at \<open>H\<close>.\<close>

definition only_headers :: "u32 list \<Rightarrow> memory \<Rightarrow> memory \<Rightarrow> bool" where
  "only_headers H m m' \<longleftrightarrow> (\<forall>x. (\<forall>a \<in> set H. unat x < unat a \<or> unat a + 8 \<le> unat x) \<longrightarrow> m' x = m x)"

lemma only_headers_refl [simp]: "only_headers H m m"
  by (simp add: only_headers_def)

lemma only_headers_trans: "only_headers H m m1 \<Longrightarrow> only_headers K m1 m2 \<Longrightarrow> only_headers (H @ K) m m2"
  by (simp add: only_headers_def)

lemma only_headers_upd [simp]: "low a \<Longrightarrow> only_headers [a] m (ptr_upd a v m)" "low a \<Longrightarrow> only_headers [a] m (sz_upd a v m)"
  by (simp_all add: only_headers_def header_upd_byte)

lemma only_headers_two [simp]: "low a \<Longrightarrow> only_headers [a] m (ptr_upd a v (sz_upd a w m))"
  by (simp add: only_headers_def header_upd_byte)

lemma only_headers_mono: "only_headers H m m' \<Longrightarrow> set H \<subseteq> set K \<Longrightarrow> only_headers K m m'"
  unfolding only_headers_def by blast

lemma header_cong:
  assumes "low b" "\<And>x. unat b \<le> unat x \<Longrightarrow> unat x < unat b + 8 \<Longrightarrow> m' x = m x"
  shows "ptr m' b = ptr m b" "sz m' b = sz m b"
proof -
  have b: "m' (b + of_nat k) = m (b + of_nat k)" if "k < 8" for k
  proof (rule assms(2))
    have "unat (b + of_nat k) = unat b + k" using assms(1) that by (simp add: low_def unat_word_ariths unat_of_nat)
    then show "unat b \<le> unat (b + of_nat k)" "unat (b + of_nat k) < unat b + 8" using that by auto
  qed
  show "ptr m' b = ptr m b" using b[of 0] b[of 1] b[of 2] b[of 3] by (simp add: ptr_def load32_def)
  show "sz m' b = sz m b" using b[of 4] b[of 5] b[of 6] b[of 7] by (simp add: sz_def load32_def add.assoc)
qed

lemma only_headers_load:
  assumes "only_headers H m m'" "low b" "\<And>a. a \<in> set H \<Longrightarrow> clear a b"
  shows "ptr m' b = ptr m b" "sz m' b = sz m b"
proof -
  have "m' x = m x" if "unat b \<le> unat x" "unat x < unat b + 8" for x
    using assms(1,3) that unfolding only_headers_def clear_def by (meson le_trans not_le le_less_trans)
  then show "ptr m' b = ptr m b" "sz m' b = sz m b" using header_cong[OF assms(2)] by blast+
qed

lemma links_only_headers:
  assumes "only_headers H m m'" "\<And>x a. x \<in> set xs \<Longrightarrow> a \<in> set H \<Longrightarrow> clear a (fst x)" "\<And>x. x \<in> set xs \<Longrightarrow> low (fst x)"
  shows "links m' xs e = links m xs e"
  using assms(2,3) by (induction xs) (auto simp: only_headers_load[OF assms(1)])

section \<open>The state of the heap\<close>

text \<open>
  The free list \<open>xs\<close> begins with the static header, which has size 0, and is in the order of the
  addresses. The blocks \<open>as\<close> are in use.
\<close>

definition free_ok :: "u32 \<Rightarrow> u32 \<Rightarrow> block list \<Rightarrow> bool" where
  "free_ok base brk xs \<longleftrightarrow> xs \<noteq> [] \<and> hd xs = (base, 0) \<and> sorted_wrt before xs \<and>
     (\<forall>x \<in> set (tl xs). 1 \<le> snd x) \<and> (\<forall>x \<in> set xs. hi x \<le> unat brk \<and> lo x + 8 \<le> unat brk) \<and> unat brk \<le> 2 ^ 31"

definition used_ok :: "memory \<Rightarrow> u32 \<Rightarrow> u32 \<Rightarrow> block list \<Rightarrow> bool" where
  "used_ok m base brk as \<longleftrightarrow> sorted_wrt sep as \<and>
     (\<forall>a \<in> set as. 1 \<le> snd a \<and> unat base + 8 \<le> lo a \<and> hi a \<le> unat brk \<and> sz m (fst a) = snd a)"

definition apart_from :: "block list \<Rightarrow> block list \<Rightarrow> bool" where
  "apart_from as xs \<longleftrightarrow> (\<forall>x \<in> set (tl xs). \<forall>a \<in> set as. sep x a)"

text \<open>The bytes of the blocks \<open>as\<close> are the same.\<close>

definition same_contents :: "block list \<Rightarrow> memory \<Rightarrow> memory \<Rightarrow> bool" where
  "same_contents as m m' \<longleftrightarrow> (\<forall>a \<in> set as. \<forall>x. lo a \<le> unat x \<and> unat x < hi a \<longrightarrow> m' x = m x)"

definition heap_with :: "block list \<Rightarrow> block list \<Rightarrow> uheap \<Rightarrow> bool" where
  "heap_with xs as s \<longleftrightarrow> free_ok (h_base s) (h_brk s) xs \<and> used_ok (h_mem s) (h_base s) (h_brk s) as \<and>
     apart_from as xs \<and>
     links (h_mem s) xs (h_base s) \<and> h_freep s \<in> fst ` set xs \<and> h_base s \<noteq> 0"

lemma before_lo: "before x y \<Longrightarrow> lo x + 8 \<le> lo y" by (simp add: before_def)

lemma in_tl: "free_ok base brk xs \<Longrightarrow> x \<in> set xs \<Longrightarrow> x \<noteq> (base, 0) \<Longrightarrow> x \<in> set (tl xs)"
  by (cases xs) (auto simp: free_ok_def)

lemma free_ok_low: "free_ok base brk xs \<Longrightarrow> x \<in> set xs \<Longrightarrow> low (fst x)"
  by (auto simp: free_ok_def low_def lo_def)

text \<open>A list in address order holds at most as many headers as there is room for.\<close>

lemma sorted_room: "sorted_wrt before xs \<Longrightarrow> xs \<noteq> [] \<Longrightarrow> lo (hd xs) + 8 * length xs \<le> lo (last xs) + 8"
proof (induction xs)
  case (Cons x xs)
  show ?case
  proof (cases "xs = []")
    case False
    then have "before x (hd xs)" using Cons.prems(1) by simp
    then show ?thesis using Cons False before_lo[of x "hd xs"] by simp
  qed simp
qed simp

lemma free_ok_length: "free_ok base brk xs \<Longrightarrow> 8 * length xs \<le> unat brk \<and> 1 \<le> length xs"
proof -
  assume f: "free_ok base brk xs"
  then have "xs \<noteq> []" "sorted_wrt before xs" "lo (last xs) + 8 \<le> unat brk" by (auto simp: free_ok_def)
  then show ?thesis using sorted_room[of xs] by (cases xs) auto
qed

section \<open>The search of \<open>free\<close>\<close>

lemma free_ok_ge: "free_ok base brk xs \<Longrightarrow> y \<in> set xs \<Longrightarrow> base \<le> fst y"
  by (cases xs) (auto simp: free_ok_def before_def lo_def word_le_nat_alt)

lemma heap_freep: "heap_with xs as s \<Longrightarrow> h_freep s \<noteq> 0"
proof -
  assume h: "heap_with xs as s"
  then obtain x where "x \<in> set xs" "h_freep s = fst x" "free_ok (h_base s) (h_brk s) xs" "h_base s \<noteq> 0"
    by (auto simp: heap_with_def)
  then show ?thesis using free_ok_ge[of "h_base s" "h_brk s" xs x] by (metis word_le_0_iff)
qed

text \<open>Reads and writes of headers inside the process.\<close>

definition readable :: "uheap \<Rightarrow> u32 \<Rightarrow> bool" where
  "readable s a \<longleftrightarrow> low a \<and> unat a + 8 \<le> unat (h_brk s)"

lemma header_ops [kexec]:
  assumes "readable s a"
  shows "get_ptr a s = Ret (ptr (h_mem s) a) s" "get_size a s = Ret (sz (h_mem s) a) s"
    "set_ptr a v s = Ret () (s\<lparr>h_mem := ptr_upd a v (h_mem s)\<rparr>)" "set_size a v s = Ret () (s\<lparr>h_mem := sz_upd a v (h_mem s)\<rparr>)"
  using assms low_4[of a]
  by (simp_all add: readable_def get_ptr_def get_size_def set_ptr_def set_size_def getw_def setw_def kopt_def
      ptr_def sz_def ptr_upd_def sz_upd_def)

definition stops :: "u32 \<Rightarrow> u32 \<Rightarrow> u32 \<Rightarrow> bool" where
  "stops bp p next \<longleftrightarrow> p < bp \<and> bp < next \<or> next \<le> p \<and> (p < bp \<or> bp < next)"

lemma free_search_step:
  "readable s p \<Longrightarrow> free_search (Suc n) bp p s =
     (if stops bp p (ptr (h_mem s) p) then Ret p s else free_search n bp (ptr (h_mem s) p) s)"
  by (auto simp: stops_def kbind_def header_ops kret_def)

declare free_search.simps [simp del]

primrec passes :: "u32 \<Rightarrow> block list \<Rightarrow> u32 \<Rightarrow> bool" where
  "passes bp [] e \<longleftrightarrow> True"
| "passes bp (x # xs) e \<longleftrightarrow> \<not> stops bp (fst x) (first xs e) \<and> passes bp xs e"

lemma free_search_passes:
  "links (h_mem s) ys e \<Longrightarrow> passes bp ys e \<Longrightarrow> (\<And>y. y \<in> set ys \<Longrightarrow> readable s (fst y)) \<Longrightarrow>
    free_search (length ys + n) bp (first ys e) s = free_search n bp e s"
proof (induction ys)
  case (Cons y ys)
  have "readable s (fst y)" using Cons.prems(3) by simp
  from free_search_step[OF this, of "length ys + n" bp] Cons show ?case by simp
qed simp

lemma passes_below:
  "sorted_wrt before (ys @ [p]) \<Longrightarrow> \<forall>y \<in> set (ys @ [p]). fst y < bp \<Longrightarrow> passes bp ys (fst p)"
proof (induction ys)
  case (Cons y ys)
  have "before y (hd (ys @ [p]))" "hd (ys @ [p]) \<in> set (ys @ [p])" using Cons.prems(1) by (cases ys; auto)+
  moreover have "first ys (fst p) = fst (hd (ys @ [p]))" by (cases ys) auto
  ultimately have "fst y < first ys (fst p)" "first ys (fst p) < bp"
    using Cons.prems(2) by (auto simp: before_def lo_def word_less_nat_alt)
  then show ?case using Cons by (auto simp: stops_def)
qed simp

lemma passes_above:
  "sorted_wrt before ys \<Longrightarrow> \<forall>y \<in> set ys. bp < fst y \<Longrightarrow> base < bp \<Longrightarrow> passes bp ys base"
proof (induction ys)
  case (Cons y ys)
  have "\<not> stops bp (fst y) (first ys base)"
    using Cons.prems by (cases ys) (auto simp: stops_def before_def lo_def word_less_nat_alt word_le_nat_alt)
  then show ?case using Cons by simp
qed simp

lemma free_search_finds:
  assumes f: "free_ok base (h_brk s) xs" and l: "links (h_mem s) xs base" and xs: "xs = us @ p # vs"
    and below: "\<forall>y \<in> set us. fst y < bp" "fst p < bp" and above: "\<forall>y \<in> set vs. bp < fst y" and b: "base < bp"
    and start: "q \<in> fst ` set xs" and n: "length xs < n"
  shows "free_search n bp q s = Ret (fst p) s"
proof -
  have srt: "sorted_wrt before xs" and hd: "hd xs = (base, 0)" using f by (auto simp: free_ok_def)
  have rd: "readable s (fst y)" if "y \<in> set xs" for y
    using free_ok_low[OF f that] f that by (auto simp: readable_def free_ok_def lo_def)
  have at: "free_search (Suc k) bp (fst p) s = Ret (fst p) s" for k
  proof -
    have "ptr (h_mem s) (fst p) = first vs base" using l xs by simp
    moreover have "stops bp (fst p) (first vs base)"
      using below(2) above free_ok_ge[OF f, of p] xs by (cases vs) (auto simp: stops_def)
    ultimately show ?thesis using rd[of p] xs by (simp add: free_search_step)
  qed
  have up: "free_search (length w + Suc k) bp (first (w @ [p]) base) s = Ret (fst p) s" if "us = v @ w" for v w k
  proof -
    have "passes bp w (fst p)"
      using srt below unfolding xs that by (intro passes_below) (auto simp: sorted_wrt_append)
    then show ?thesis
      using free_search_passes[of s w "fst p" bp "Suc k"] l rd at unfolding xs that by auto
  qed
  obtain y where y: "y \<in> set xs" "q = fst y" using start by auto
  then consider "y \<in> set us" | "y = p" | "y \<in> set vs" unfolding xs by auto
  then consider v w where "us = v @ w" "q = first (w @ [p]) base" | v w where "vs = v @ y # w"
  proof cases
    case 1
    then obtain v w where "us = v @ y # w" by (auto dest: split_list)
    then show ?thesis using that(1)[of v "y # w"] y(2) by simp
  next
    case 2
    then show ?thesis using that(1)[of us "[]"] y(2) by simp
  next
    case 3
    then show ?thesis using that(2) by (auto dest: split_list)
  qed
  then show ?thesis
  proof cases
    case (1 v w)
    have "n = length w + Suc (n - length w - 1)" using n xs 1 by simp
    then show ?thesis using up[OF 1(1), of "n - length w - 1"] 1(2) by metis
  next
    case (2 v w)
    have "passes bp (y # w) base"
      using srt above b unfolding xs 2 by (intro passes_above) (auto simp: sorted_wrt_append)
    moreover have "links (h_mem s) (y # w) base" using l unfolding xs 2 by simp
    moreover have "readable s (fst z)" if "z \<in> set (y # w)" for z
      by (rule rd) (use that in \<open>auto simp: xs 2\<close>)
    moreover define k where "k = n - length us - length w - 2"
    ultimately have "free_search (length (y # w) + (length us + Suc k)) bp q s = free_search (length us + Suc k) bp base s"
      using free_search_passes[of s "y # w" base bp] y(2) by (metis first_simps(2))
    moreover have "first (us @ [p]) base = base" using hd xs by (cases us) auto
    then have "free_search (length us + Suc k) bp base s = Ret (fst p) s" using up[of "[]" us k] by simp
    moreover have "n = length (y # w) + (length us + Suc k)" using n xs 2 by (simp add: k_def)
    ultimately show ?thesis by metis
  qed
qed


section \<open>The joins of \<open>free\<close>\<close>

definition merge_up :: "block \<Rightarrow> block list \<Rightarrow> block list" where
  "merge_up b vs = (case vs of [] \<Rightarrow> [b] | v # vs' \<Rightarrow> if hi b = lo v then (fst b, snd b + snd v) # vs' else b # vs)"

definition merge_down :: "block \<Rightarrow> block list \<Rightarrow> block list" where
  "merge_down p ws = (case ws of [] \<Rightarrow> [p] | w # ws' \<Rightarrow> if hi p = lo w then (fst p, snd p + snd w) # ws' else p # ws)"

text \<open>The end of a block as the code computes it.\<close>

lemma end_eq:
  assumes "hi x \<le> 2 ^ 31"
  shows "fst x + SIZEOF_HEADER * snd x = a \<longleftrightarrow> hi x = unat a"
proof -
  have "8 * unat (snd x) < 2 ^ 32" using assms by (simp add: hi_def)
  then have "unat (8 * snd x) = 8 * unat (snd x)" by (simp add: unat_word_ariths)
  then have "unat (fst x + 8 * snd x) = hi x" using assms by (simp add: hi_def unat_word_ariths)
  then show ?thesis by (auto simp: SIZEOF_HEADER_def word_unat_eq_iff)
qed

lemma sum_units:
  assumes "hi x = lo y" "hi y \<le> 2 ^ 31"
  shows "unat (snd x + snd y) = unat (snd x) + unat (snd y)"
proof -
  have "unat (snd x) + unat (snd y) < 2 ^ 32" using assms by (simp add: hi_def lo_def)
  then show ?thesis by (simp add: unat_word_ariths)
qed

lemma merged_span: "hi x = lo y \<Longrightarrow> hi y \<le> 2 ^ 31 \<Longrightarrow> lo (fst x, snd x + snd y) = lo x \<and> hi (fst x, snd x + snd y) = hi y"
  using sum_units[of x y] by (simp add: lo_def hi_def)

lemma join_upper_ok:
  assumes p: "readable s (fst p)" "ptr (h_mem s) (fst p) = first vs base"
    and b: "readable s (fst b)" "sz (h_mem s) (fst b) = snd b" "hi b \<le> 2 ^ 31" "unat base < hi b"
    and vs: "links (h_mem s) vs base" "\<And>v. v \<in> set vs \<Longrightarrow> readable s (fst v) \<and> before b v"
  shows "\<exists>m. join_upper (fst b) (fst p) s = Ret () (s\<lparr>h_mem := m\<rparr>) \<and> links m (merge_up b vs) base \<and>
    only_headers [fst b] (h_mem s) m"
proof (cases "\<exists>v vs'. vs = v # vs' \<and> hi b = lo v")
  case True
  then obtain v vs' where v: "vs = v # vs'" "hi b = lo v" by blast
  let ?m1 = "sz_upd (fst b) (snd b + snd v) (h_mem s)"
  let ?m = "ptr_upd (fst b) (first vs' base) ?m1"
  have c: "clear (fst b) (fst x)" "low (fst x)" if "x \<in> set vs" for x
    using vs(2)[OF that] by (auto simp: clear_def before_def lo_def readable_def)
  have r: "readable (s\<lparr>h_mem := m\<rparr>) a = readable s a" for m a by (simp add: readable_def)
  have lb: "low (fst b)" using b(1) by (simp add: readable_def)
  have "join_upper (fst b) (fst p) s = Ret () (s\<lparr>h_mem := ?m\<rparr>)"
    using v p b vs c[of v] lb end_eq[OF b(3), of "fst v"]
    by (simp add: join_upper_def kbind_def header_ops r lo_def)
  moreover have "links ?m vs' base = links (h_mem s) vs' base"
    by (rule links_only_headers[where H = "[fst b]"]) (use c v lb in auto)
  ultimately show ?thesis using v vs(1) lb b by (intro exI[of _ ?m]) (simp add: merge_up_def)
next
  case False
  let ?m = "ptr_upd (fst b) (first vs base) (h_mem s)"
  have c: "clear (fst b) (fst x)" "low (fst x)" if "x \<in> set vs" for x
    using vs(2)[OF that] by (auto simp: clear_def before_def lo_def readable_def)
  have lb: "low (fst b)" using b(1) by (simp add: readable_def)
  have "hi b \<noteq> unat (first vs base)" using False b(4) by (cases vs) (auto simp: lo_def)
  then have "join_upper (fst b) (fst p) s = Ret () (s\<lparr>h_mem := ?m\<rparr>)"
    using p b end_eq[OF b(3), of "first vs base"] by (simp add: join_upper_def kbind_def header_ops)
  moreover have "links ?m vs base = links (h_mem s) vs base"
    by (rule links_only_headers[where H = "[fst b]"]) (use c lb in auto)
  ultimately show ?thesis using False vs(1) lb b
    by (intro exI[of _ ?m]) (auto simp: merge_up_def split: list.splits)
qed

lemma join_lower_ok:
  assumes p: "readable s (fst p)" "sz (h_mem s) (fst p) = snd p" "hi p \<le> 2 ^ 31"
    and ws: "ws = w # ws'" "links (h_mem s) ws base" "\<And>v. v \<in> set ws \<Longrightarrow> readable s (fst v) \<and> before p v"
  shows "\<exists>m. join_lower (fst w) (fst p) s = Ret () (s\<lparr>h_mem := m\<rparr>) \<and> links m (merge_down p ws) base \<and>
    only_headers [fst p] (h_mem s) m"
proof -
  have c: "clear (fst p) (fst x)" "low (fst x)" if "x \<in> set ws" for x
    using ws(3)[OF that] by (auto simp: clear_def before_def lo_def readable_def)
  have r: "readable (s\<lparr>h_mem := m\<rparr>) a = readable s a" for m a by (simp add: readable_def)
  have lp: "low (fst p)" using p(1) by (simp add: readable_def)
  have w: "readable s (fst w)" "sz (h_mem s) (fst w) = snd w" "ptr (h_mem s) (fst w) = first ws' base" "links (h_mem s) ws' base"
    using ws by auto
  show ?thesis
  proof (cases "hi p = lo w")
    case True
    let ?m1 = "sz_upd (fst p) (snd p + snd w) (h_mem s)"
    let ?m = "ptr_upd (fst p) (first ws' base) ?m1"
    have "join_lower (fst w) (fst p) s = Ret () (s\<lparr>h_mem := ?m\<rparr>)"
      using True p w c[of w] lp ws(1) end_eq[OF p(3), of "fst w"]
      by (simp add: join_lower_def kbind_def header_ops r lo_def)
    moreover have "links ?m ws' base = links (h_mem s) ws' base"
      by (rule links_only_headers[where H = "[fst p]"]) (use c ws(1) lp in auto)
    ultimately show ?thesis using True ws(1) w lp p by (intro exI[of _ ?m]) (simp add: merge_down_def)
  next
    case False
    let ?m = "ptr_upd (fst p) (fst w) (h_mem s)"
    have "join_lower (fst w) (fst p) s = Ret () (s\<lparr>h_mem := ?m\<rparr>)"
      using False p w end_eq[OF p(3), of "fst w"] by (simp add: join_lower_def kbind_def header_ops lo_def)
    moreover have "links ?m ws base = links (h_mem s) ws base"
      by (rule links_only_headers[where H = "[fst p]"]) (use c lp in auto)
    ultimately show ?thesis using False ws lp p by (intro exI[of _ ?m]) (auto simp: merge_down_def)
  qed
qed


section \<open>\<open>free\<close>\<close>

lemma split_at:
  assumes "sorted_wrt before xs" "xs \<noteq> []" "fst (hd xs) < bp" "\<forall>y \<in> set xs. fst y \<noteq> bp"
  shows "\<exists>us p vs. xs = us @ p # vs \<and> (\<forall>y \<in> set us. fst y < bp) \<and> fst p < bp \<and> (\<forall>y \<in> set vs. bp < fst y)"
proof -
  let ?A = "takeWhile (\<lambda>y. fst y < bp) xs" and ?V = "dropWhile (\<lambda>y. fst y < bp) xs"
  have ne: "?A \<noteq> []" using assms(2,3) by (cases xs) auto
  have A: "\<forall>y \<in> set ?A. fst y < bp" using set_takeWhileD by fastforce
  have "sorted_wrt before (?A @ ?V)" using assms(1) by simp
  then have V: "sorted_wrt before ?V" by (simp only: sorted_wrt_append)
  have "bp < fst y" if "y \<in> set ?V" for y
  proof -
    obtain v vs where v: "?V = v # vs" using \<open>y \<in> set ?V\<close> by (cases ?V) auto
    have "\<not> fst v < bp" "v \<in> set xs" using hd_dropWhile[of "\<lambda>y. fst y < bp" xs] v set_dropWhileD[of v "\<lambda>y. fst y < bp" xs] by auto
    then have "bp < fst v" using assms(4) by force
    then show ?thesis using that V v by (auto simp: before_def lo_def word_less_nat_alt)
  qed
  moreover obtain us p where "?A = us @ [p]" using ne by (metis rev_exhaust)
  then have "xs = us @ p # ?V" "\<forall>y \<in> set us. fst y < bp" "fst p < bp"
    using A takeWhile_dropWhile_id[of "\<lambda>y. fst y < bp" xs] by (auto simp del: takeWhile_dropWhile_id)
  ultimately show ?thesis by blast
qed

definition free_wf :: "u32 \<Rightarrow> u32 \<Rightarrow> block list \<Rightarrow> block list \<Rightarrow> bool" where
  "free_wf base brk as xs \<longleftrightarrow> free_ok base brk xs \<and> apart_from as xs \<and> (\<forall>a \<in> set as. 1 \<le> snd a)"

lemma one_le_unat: "(1 :: u32) \<le> n \<longleftrightarrow> 1 \<le> unat n"
  by (simp add: word_le_nat_alt)

lemma coalesce_wf:
  assumes "free_wf base brk as (us @ x # y # vs)" "hi x = lo y"
  shows "free_wf base brk as (us @ (fst x, snd x + snd y) # vs)"
proof -
  let ?z = "(fst x, snd x + snd y)"
  have f: "free_ok base brk (us @ x # y # vs)" and a: "apart_from as (us @ x # y # vs)" "\<forall>a \<in> set as. 1 \<le> snd a"
    using assms(1) by (auto simp: free_wf_def)
  have xy: "before x y" "hi y \<le> 2 ^ 31" using f by (auto simp: free_ok_def sorted_wrt_append)
  note z = merged_span[OF assms(2) xy(2)]
  have us: "us \<noteq> []"
    using f assms(2) xy(1) by (cases us) (auto simp: free_ok_def before_def lo_def hi_def)
  have z': "lo ?z = lo x" "hi ?z = hi y" using z by simp_all
  have "1 \<le> snd ?z" using us f sum_units[OF assms(2) xy(2)] by (auto simp: free_ok_def one_le_unat)
  moreover have "before w ?z" if "w \<in> set us" for w
    using that f z' by (auto simp: free_ok_def sorted_wrt_append before_def)
  moreover have "before ?z w" if "w \<in> set vs" for w
    using that f z' xy by (auto simp: free_ok_def sorted_wrt_append before_def)
  ultimately have "free_ok base brk (us @ ?z # vs)"
    using f us z' by (auto simp: free_ok_def sorted_wrt_append)
  moreover have "sep ?z c" if "c \<in> set as" for c
  proof -
    have "sep x c" "sep y c" using a(1) us that by (auto simp: apart_from_def)
    moreover have "lo c < hi c" using a(2) that by (auto simp: lo_def hi_def one_le_unat)
    ultimately show ?thesis using z' assms(2) unfolding sep_def by linarith
  qed
  ultimately show ?thesis using a us by (auto simp: free_wf_def apart_from_def)
qed

lemma merge_up_wf:
  assumes "free_wf base brk as (us @ b # vs)"
  shows "free_wf base brk as (us @ merge_up b vs) \<and> (\<exists>w ws'. merge_up b vs = w # ws' \<and> fst w = fst b \<and> snd b \<le> snd w)"
proof (cases "\<exists>v vs'. vs = v # vs' \<and> hi b = lo v")
  case True
  then obtain v vs' where v: "vs = v # vs'" "hi b = lo v" by blast
  have "hi v \<le> 2 ^ 31" using assms v by (auto simp: free_wf_def free_ok_def)
  then have "snd b \<le> snd b + snd v" using sum_units[OF v(2)] by (simp add: word_le_nat_alt)
  then show ?thesis using coalesce_wf[of base brk as us b v vs'] assms v by (simp add: merge_up_def)
next
  case False
  then have "merge_up b vs = b # vs" by (auto simp: merge_up_def split: list.splits)
  then show ?thesis using assms by simp
qed

lemma merge_down_wf:
  assumes "free_wf base brk as (us @ p # w # ws)"
  shows "free_wf base brk as (us @ merge_down p (w # ws)) \<and> first (merge_down p (w # ws)) e = fst p \<and>
    (\<exists>x \<in> set (merge_down p (w # ws)). snd w \<le> snd x)"
proof (cases "hi p = lo w")
  case True
  have "hi w \<le> 2 ^ 31" using assms by (auto simp: free_wf_def free_ok_def)
  then have "snd w \<le> snd p + snd w" using sum_units[OF True] by (simp add: word_le_nat_alt)
  then show ?thesis using coalesce_wf[OF assms True] True by (simp add: merge_down_def)
next
  case False
  then show ?thesis using assms by (auto simp: merge_down_def)
qed


lemma heap_header:
  assumes "free_ok base brk xs" "h_brk s = brk" "x \<in> set xs"
  shows "readable s (fst x)"
  using assms free_ok_low[OF assms(1,3)] by (auto simp: readable_def free_ok_def lo_def)

lemma used_header:
  assumes "used_ok m base (h_brk s) as" "unat (h_brk s) \<le> 2 ^ 31" "a \<in> set as"
  shows "readable s (fst a)" "hi a \<le> 2 ^ 31" "unat base + 8 \<le> lo a" "lo a + 8 \<le> hi a" "base < fst a" "sz m (fst a) = snd a"
  using assms by (auto simp: used_ok_def readable_def low_def lo_def hi_def one_le_unat word_less_nat_alt)

text \<open>Blocks in use keep their size and their bytes when only the headers of free blocks change.\<close>

lemma used_only_headers:
  assumes u: "used_ok m base brk as" and o: "only_headers H m m'" and brk: "unat brk \<le> 2 ^ 31"
    and H: "\<And>a h. a \<in> set as \<Longrightarrow> h \<in> set H \<Longrightarrow> unat h + 8 \<le> lo a \<or> hi a \<le> unat h"
  shows "used_ok m' base brk as" "same_contents as m m'"
proof -
  have "sz m' (fst a) = sz m (fst a)" if "a \<in> set as" for a
  proof (rule only_headers_load(2)[OF o])
    show "low (fst a)" using u brk that by (auto simp: used_ok_def low_def hi_def one_le_unat)
    show "clear h (fst a)" if "h \<in> set H" for h
      using H[OF \<open>a \<in> set as\<close> that] u \<open>a \<in> set as\<close> by (auto simp: clear_def used_ok_def lo_def hi_def one_le_unat)
  qed
  then show "used_ok m' base brk as" using u by (auto simp: used_ok_def)
  show "same_contents as m m'" unfolding same_contents_def
  proof (intro ballI allI impI)
    fix a and x :: u32 assume "a \<in> set as" "lo a \<le> unat x \<and> unat x < hi a"
    then have "\<forall>h \<in> set H. unat x < unat h \<or> unat h + 8 \<le> unat x" using H by fastforce
    then show "m' x = m x" using o unfolding only_headers_def by blast
  qed
qed

lemma insert_wf:
  assumes "free_ok base brk (us @ p # vs)" "apart_from (l @ b # r) (us @ p # vs)" "used_ok m base brk (l @ b # r)"
    and "\<forall>y \<in> set us. fst y < fst b" "fst p < fst b" "\<forall>y \<in> set vs. fst b < fst y"
  shows "free_wf base brk (l @ r) (us @ p # b # vs)"
proof -
  let ?xs = "us @ p # vs"
  have b: "1 \<le> snd b" "unat base + 8 \<le> lo b" "hi b \<le> unat brk" "lo b + 8 \<le> hi b"
    using assms(3) by (auto simp: used_ok_def one_le_unat lo_def hi_def)
  have sp: "sep x b" if "x \<in> set ?xs" "x \<noteq> (base, 0)" for x
  proof -
    have "x \<in> set (tl ?xs)" by (rule in_tl[OF assms(1) that])
    then show ?thesis using assms(2) by (simp add: apart_from_def)
  qed
  have sz1: "lo x < hi x" if "x \<in> set ?xs" "x \<noteq> (base, 0)" for x
  proof -
    have "x \<in> set (tl ?xs)" by (rule in_tl[OF assms(1) that])
    then have "1 \<le> snd x" using assms(1) by (simp add: free_ok_def)
    then show ?thesis by (simp add: lo_def hi_def one_le_unat)
  qed
  have lower: "before x b" if "x \<in> set ?xs" "fst x < fst b" for x
  proof (cases "x = (base, 0)")
    case True then show ?thesis using b by (simp add: before_def lo_def hi_def)
  next
    case False
    have x: "1 \<le> snd x" using that(1) False assms(1) by (cases us) (auto simp: free_ok_def)
    have "hi x \<le> lo b" using sp[OF that(1) False] b that(2) by (auto simp: sep_def lo_def word_less_nat_alt)
    then show ?thesis using x by (simp add: before_def lo_def hi_def one_le_unat)
  qed
  have upper: "before b x" if "x \<in> set vs" for x
  proof -
    have lt: "lo b < lo x" using that assms(6) by (simp add: lo_def word_less_nat_alt)
    then have "x \<noteq> (base, 0)" using b by (auto simp: lo_def)
    then have "hi b \<le> lo x" using sp[of x] sz1[of x] that lt by (auto simp: sep_def)
    then show ?thesis using b by (simp add: before_def)
  qed
  have "free_ok base brk (us @ p # b # vs)"
    using assms(1) lower upper assms(4,5) b by (cases us) (auto simp: free_ok_def sorted_wrt_append)
  moreover have "sep b a" if "a \<in> set (l @ r)" for a
    using that assms(3) by (auto simp: used_ok_def sorted_wrt_append sep_def)
  then have "apart_from (l @ r) (us @ p # b # vs)"
    using assms(2) by (cases us) (auto simp: apart_from_def)
  ultimately show ?thesis using assms(3) by (auto simp: free_wf_def used_ok_def)
qed


lemma readable_mem [simp]: "readable (s\<lparr>h_mem := m\<rparr>) a = readable s a"
  by (simp add: readable_def)

text \<open>A header of the free list lies outside every block in use.\<close>

lemma header_outside:
  assumes "free_wf base brk as xs" "used_ok m base brk as" "x \<in> set xs" "a \<in> set as"
  shows "unat (fst x) + 8 \<le> lo a \<or> hi a \<le> unat (fst x)"
proof (cases "x = (base, 0)")
  case True then show ?thesis using assms(2,4) by (auto simp: used_ok_def)
next
  case False
  then have "x \<in> set (tl xs)" using assms(1,3) by (auto simp: free_wf_def intro: in_tl)
  then have "sep x a" "1 \<le> snd x" using assms(1,4) by (auto simp: free_wf_def apart_from_def free_ok_def)
  then show ?thesis by (auto simp: sep_def lo_def hi_def one_le_unat)
qed

lemma ufree_ok:
  assumes h: "heap_with xs (l @ b # r) s"
  shows "\<exists>xs' m p. ufree (fst b + SIZEOF_HEADER) s = Ret () (s\<lparr>h_mem := m, h_freep := p\<rparr>) \<and>
    heap_with xs' (l @ r) (s\<lparr>h_mem := m, h_freep := p\<rparr>) \<and> same_contents (l @ r) (h_mem s) m \<and>
    length xs' \<le> Suc (length xs) \<and> (\<exists>x \<in> set (tl xs'). snd b \<le> snd x)"
proof -
  let ?base = "h_base s" and ?as = "l @ r"
  have f: "free_ok ?base (h_brk s) xs" and u: "used_ok (h_mem s) ?base (h_brk s) (l @ b # r)"
    and ap: "apart_from (l @ b # r) xs" and lk: "links (h_mem s) xs ?base"
    and fp: "h_freep s \<in> fst ` set xs" and b0: "?base \<noteq> 0" using h by (auto simp: heap_with_def)
  have brk: "unat (h_brk s) \<le> 2 ^ 31" using f by (simp add: free_ok_def)
  note bh = used_header[OF u brk, of b, simplified]
  have srt: "sorted_wrt before xs" "xs \<noteq> []" "fst (hd xs) < fst b" using f bh(5) by (auto simp: free_ok_def)
  have "fst y \<noteq> fst b" if "y \<in> set xs" for y
  proof (cases "y = (?base, 0)")
    case False
    then have "y \<in> set (tl xs)" using in_tl[OF f that] by simp
    then have "sep y b" "1 \<le> snd y" using ap f by (auto simp: apart_from_def free_ok_def)
    then show ?thesis using bh(4) by (auto simp: sep_def lo_def hi_def one_le_unat)
  qed (use bh(5) in auto)
  with split_at[OF srt] obtain us p vs where xs: "xs = us @ p # vs" "\<forall>y \<in> set us. fst y < fst b" "fst p < fst b"
    "\<forall>y \<in> set vs. fst b < fst y" by blast
  have wf0: "free_wf ?base (h_brk s) ?as (us @ p # b # vs)"
    using insert_wf[of ?base "h_brk s" us p vs l b r "h_mem s"] f ap u xs by auto
  obtain w ws where w: "merge_up b vs = w # ws" "fst w = fst b" "snd b \<le> snd w"
    and wf1: "free_wf ?base (h_brk s) ?as (us @ p # w # ws)"
    using merge_up_wf[of ?base "h_brk s" ?as "us @ [p]" b vs] wf0 by auto
  note wf2 = merge_down_wf[OF wf1, of ?base]
  have ok: "free_ok ?base (h_brk s) (us @ p # b # vs)" "free_ok ?base (h_brk s) (us @ p # w # ws)"
    using wf0 wf1 by (auto simp: free_wf_def)
  have search: "free_search (unat (h_brk s)) (fst b) (h_freep s) s = Ret (fst p) s"
    using free_ok_length[OF f] by (intro free_search_finds[OF f lk xs bh(5) fp]) linarith
  have "\<exists>m. join_upper (fst b) (fst p) s = Ret () (s\<lparr>h_mem := m\<rparr>) \<and> links m (merge_up b vs) ?base \<and>
      only_headers [fst b] (h_mem s) m"
  proof (rule join_upper_ok)
    show "v \<in> set vs \<Longrightarrow> readable s (fst v) \<and> before b v" for v
      using heap_header[OF ok(1) refl, of v] ok(1) by (auto simp: free_ok_def sorted_wrt_append)
  qed (use heap_header[OF f refl, of p] lk xs bh in \<open>auto simp: lo_def\<close>)
  then obtain m1 where m1: "join_upper (fst b) (fst p) s = Ret () (s\<lparr>h_mem := m1\<rparr>)"
    "links m1 (w # ws) ?base" "only_headers [fst b] (h_mem s) m1" using w by auto
  have clb: "clear (fst b) (fst y)" "low (fst y)" if "y \<in> set (us @ [p])" for y
    using ok(1) that free_ok_low[OF ok(1), of y] by (auto simp: free_ok_def sorted_wrt_append clear_def before_def lo_def)
  have "\<exists>m. join_lower (fst w) (fst p) (s\<lparr>h_mem := m1\<rparr>) = Ret () (s\<lparr>h_mem := m1\<rparr>\<lparr>h_mem := m\<rparr>) \<and>
      links m (merge_down p (w # ws)) ?base \<and> only_headers [fst p] (h_mem (s\<lparr>h_mem := m1\<rparr>)) m"
  proof (rule join_lower_ok[OF _ _ _ refl])
    show "sz (h_mem (s\<lparr>h_mem := m1\<rparr>)) (fst p) = snd p"
      using only_headers_load(2)[OF m1(3), of "fst p"] clb[of p] lk xs by simp
    show "hi p \<le> 2 ^ 31" using f xs by (auto simp: free_ok_def)
    show "v \<in> set (w # ws) \<Longrightarrow> readable (s\<lparr>h_mem := m1\<rparr>) (fst v) \<and> before p v" for v
      using heap_header[OF ok(2) refl, of v] ok(2) by (auto simp: free_ok_def sorted_wrt_append)
  qed (use heap_header[OF f refl, of p] xs m1(2) in auto)
  then obtain m2 where m2: "join_lower (fst b) (fst p) (s\<lparr>h_mem := m1\<rparr>) = Ret () (s\<lparr>h_mem := m2\<rparr>)"
    "links m2 (merge_down p (w # ws)) ?base" "only_headers [fst p] m1 m2" using w by auto
  have run: "ufree (fst b + SIZEOF_HEADER) s = Ret () (s\<lparr>h_mem := m2, h_freep := fst p\<rparr>)"
    by (simp add: ufree_def Let_def kbind_def search m1(1) m2(1) set_freep_def kupd_def)
  have oh: "only_headers ([fst b] @ [fst p]) (h_mem s) m2" by (rule only_headers_trans[OF m1(3) m2(3)])
  have u': "used_ok (h_mem s) ?base (h_brk s) ?as" using u by (auto simp: used_ok_def sorted_wrt_append)
  have out: "unat c + 8 \<le> lo a \<or> hi a \<le> unat c" if "a \<in> set ?as" "c \<in> set ([fst b] @ [fst p])" for a c
  proof (cases "c = fst p")
    case True then show ?thesis using header_outside[OF wf0 u' _ that(1), of p] by simp
  next
    case False
    have "sep b a" using that(1) u by (auto simp: used_ok_def sorted_wrt_append sep_def)
    then show ?thesis using False that(2) bh(4) by (auto simp: sep_def lo_def)
  qed
  note used = used_only_headers[OF u' oh brk out]
  have "links m2 us (fst p) = links (h_mem s) us (fst p)"
  proof (rule links_only_headers[OF oh])
    show "clear a (fst x)" if "x \<in> set us" "a \<in> set ([fst b] @ [fst p])" for x a
      using that clb(1)[of x] ok(1) by (auto simp: free_ok_def sorted_wrt_append clear_def before_def lo_def)
  qed (use clb in auto)
  then have links: "links m2 (us @ merge_down p (w # ws)) ?base" using lk xs m2(2) wf2 by simp
  have "fst p \<in> fst ` set (merge_down p (w # ws))" using wf2 by (cases "merge_down p (w # ws)") (auto simp: merge_down_def)
  then have hw: "heap_with (us @ merge_down p (w # ws)) ?as (s\<lparr>h_mem := m2, h_freep := fst p\<rparr>)"
    using wf2 used(1) links b0 by (auto simp: heap_with_def free_wf_def)
  have "length (w # ws) \<le> Suc (length vs)" using w(1) by (auto simp: merge_up_def split: list.splits if_splits)
  then have len: "length (us @ merge_down p (w # ws)) \<le> Suc (length xs)" using xs by (simp add: merge_down_def)
  obtain x where x: "x \<in> set (merge_down p (w # ws))" "snd b \<le> snd x" using wf2 w(3) by force
  moreover have "1 \<le> snd b" using u by (auto simp: used_ok_def)
  then have "x \<noteq> (?base, 0)" using x(2) by auto
  then have "x \<in> set (tl (us @ merge_down p (w # ws)))" using x(1) wf2 by (intro in_tl) (auto simp: free_wf_def)
  ultimately show ?thesis using run hw used(2) len by blast
qed


section \<open>\<open>morecore\<close>\<close>

lemma grow_ok:
  assumes h: "heap_with xs as s" and n: "1 \<le> n" "8 * unat n < 2 ^ 31" "unat (h_brk s) + 8 * unat n \<le> 2 ^ 31"
    and t: "h_base t = h_base s" "h_freep t = h_freep s" "h_brk t = h_brk s + 8 * n"
      "h_mem t = sz_upd (h_brk s) n (\<lambda>a. if h_brk s \<le> a \<and> a < h_brk t then 0 else h_mem s a)"
  shows "heap_with xs ((h_brk s, n) # as) t" "same_contents as (h_mem s) (h_mem t)"
proof -
  let ?B = "h_brk s"
  have f: "free_ok (h_base s) ?B xs" and u: "used_ok (h_mem s) (h_base s) ?B as" using h by (auto simp: heap_with_def)
  have n1: "1 \<le> unat n" using n(1) by (simp add: one_le_unat)
  have "unat (8 * n) = 8 * unat n" using n(2) by (simp add: unat_word_ariths)
  then have brk: "unat (h_brk t) = unat ?B + 8 * unat n" using t(3) n(3) by (simp add: unat_word_ariths)
  have low: "low ?B" using n(3) n1 by (simp add: low_def)
  have same: "h_mem t x = h_mem s x" if "unat x < unat ?B" for x
    using that low t(4) by (simp add: header_upd_byte word_le_nat_alt)
  have hd: "ptr (h_mem t) a = ptr (h_mem s) a \<and> sz (h_mem t) a = sz (h_mem s) a" if "low a" "unat a + 8 \<le> unat ?B" for a
    using header_cong[OF that(1), of "h_mem t" "h_mem s"] same that(2) by simp
  have "links (h_mem t) ys e = links (h_mem s) ys e" if "set ys \<subseteq> set xs" for ys e
    using that
  proof (induction ys)
    case (Cons y ys)
    have "y \<in> set xs" using Cons.prems by simp
    then have "low (fst y)" "unat (fst y) + 8 \<le> unat ?B" using free_ok_low[OF f] f by (auto simp: free_ok_def lo_def)
    then show ?case using hd[of "fst y"] Cons by simp
  qed simp
  moreover have "free_ok (h_base s) (h_brk t) xs" using f brk n(3) by (fastforce simp: free_ok_def)
  moreover have "used_ok (h_mem t) (h_base s) (h_brk t) ((?B, n) # as)"
  proof -
    have "sep (?B, n) a" if "a \<in> set as" for a using u that by (auto simp: used_ok_def sep_def lo_def)
    moreover have "sz (h_mem t) (fst a) = snd a" if "a \<in> set as" for a
      using used_header[OF u _ that] f hd[of "fst a"] u that by (auto simp: free_ok_def readable_def lo_def used_ok_def)
    moreover have "unat (h_base s) + 8 \<le> unat ?B" using f by (cases xs) (auto simp: free_ok_def lo_def)
    ultimately show ?thesis using u brk n(1) t(4) low by (fastforce simp: used_ok_def lo_def hi_def)
  qed
  moreover have "sep x (?B, n)" if "x \<in> set (tl xs)" for x
    using f that by (auto simp: free_ok_def sep_def lo_def dest: list.set_sel(2)[rotated])
  ultimately show "heap_with xs ((?B, n) # as) t"
    using h t(1,2) by (auto simp: heap_with_def apart_from_def)
  show "same_contents as (h_mem s) (h_mem t)"
    using same u by (fastforce simp: same_contents_def used_ok_def)
qed


lemma sint_pos: "unat (n :: u32) < 2 ^ 31 \<Longrightarrow> 0 < n \<Longrightarrow> 0 < sint n"
proof -
  assume n: "unat n < 2 ^ 31" "0 < n"
  have "uint n < 2 ^ 31" "0 \<le> uint n" using n(1) of_nat_less_iff[of "unat n" "2 ^ 31", where 'a = int] by simp_all
  moreover have "- (2 ^ 31) \<le> uint n" using order_trans[of "- (2 ^ 31)" 0 "uint n"] by simp
  ultimately have "sint n = uint n" unfolding sint_uint by (intro signed_take_bit_int_eq_self) auto
  then show "0 < sint n" using n(2) by (simp add: word_less_def)
qed

lemma same_contents_trans:
  "same_contents as m m1 \<Longrightarrow> same_contents as m1 m2 \<Longrightarrow> same_contents as m m2"
  by (simp add: same_contents_def)

text \<open>The kernel refuses memory when it has no page left or the process would reach the kernel.\<close>

definition refused :: "u32 \<Rightarrow> uheap \<Rightarrow> bool" where
  "refused nu s \<longleftrightarrow> brk_after ((if nu < 4096 then 4096 else nu) * SIZEOF_HEADER) s = None"

lemma morecore_ok:
  assumes h: "heap_with xs as s" and nu: "8 * unat nu < 2 ^ 31"
  shows "morecore nu s = Ret 0 s \<and> refused nu s \<or>
    (\<exists>xs' t. morecore nu s = Ret (h_freep t) t \<and> h_freep t \<noteq> 0 \<and> heap_with xs' as t \<and> same_contents as (h_mem s) (h_mem t) \<and>
      length xs' \<le> Suc (length xs) \<and> (\<exists>x \<in> set (tl xs'). nu \<le> snd x))"
proof -
  define n where "n = (if nu < 4096 then 4096 else nu)"
  have n: "1 \<le> n" "8 * unat n < 2 ^ 31" "nu \<le> n" using nu by (auto simp: n_def word_le_nat_alt word_less_nat_alt)
  have f: "free_ok (h_base s) (h_brk s) xs" using h by (simp add: heap_with_def)
  have brk: "unat (h_brk s) \<le> 2 ^ 31" using f by (simp add: free_ok_def)
  have u8: "unat (8 * n) = 8 * unat n" using n(2) by (simp add: unat_word_ariths)
  have pos: "0 < sint (8 * n)" using n(1,2) u8 by (intro sint_pos) (auto simp: word_less_nat_alt word_le_nat_alt)
  have new: "unat (h_brk s + 8 * n) = unat (h_brk s) + 8 * unat n" using brk n(2) u8 by (simp add: unat_word_ariths)
  show ?thesis
  proof (cases "brk_after (n * SIZEOF_HEADER) s")
    case None
    then show ?thesis by (simp add: morecore_def n_def[symmetric] Let_def kbind_def sbrk_def kret_def refused_def)
  next
    case (Some brk')
    then have b: "brk' = h_brk s + 8 * n" "unat (h_brk s) + 8 * unat n < 2 ^ 31"
      using pos new n(1) unfolding brk_after_def Let_def SIZEOF_HEADER_def mult.commute[of n]
      by (auto simp: USER_LIMIT_def word_less_nat_alt word_le_nat_alt split: if_splits)
    let ?B = "h_brk s" and ?z = "\<lambda>a. if h_brk s \<le> a \<and> a < brk' then 0 else h_mem s a"
    let ?s1 = "s\<lparr>h_mem := ?z, h_brk := brk', h_avail := h_avail s + unat (h_brk s) - unat brk'\<rparr>"
    let ?s2 = "?s1\<lparr>h_mem := sz_upd ?B n ?z\<rparr>"
    have g: "heap_with xs ((?B, n) # as) ?s2" "same_contents as (h_mem s) (h_mem ?s2)"
      using grow_ok[OF h n(1,2), of ?s2] b by auto
    from ufree_ok[of xs "[]" "(?B, n)" as ?s2] g(1) obtain xs' m p where r:
      "ufree (?B + SIZEOF_HEADER) ?s2 = Ret () (?s2\<lparr>h_mem := m, h_freep := p\<rparr>)"
      "heap_with xs' as (?s2\<lparr>h_mem := m, h_freep := p\<rparr>)" "same_contents as (h_mem ?s2) m"
      "length xs' \<le> Suc (length xs)" "\<exists>x \<in> set (tl xs'). n \<le> snd x" by auto
    have "readable ?s1 ?B" using b new n(1) by (simp add: readable_def low_def one_le_unat)
    moreover have "unat (- 1 :: u32) = 2 ^ 32 - 1" by (simp add: unsigned_minus_1_eq_mask mask_eq_exp_minus_1)
    then have "?B \<noteq> - 1" using b(2) by force
    ultimately have "morecore nu s = Ret p (?s2\<lparr>h_mem := m, h_freep := p\<rparr>)"
      using Some r(1) by (simp add: morecore_def n_def[symmetric] Let_def kbind_def sbrk_def header_ops kget_def)
    moreover have "p \<noteq> 0" using heap_freep[OF r(2)] by simp
    moreover have "\<exists>x \<in> set (tl xs'). nu \<le> snd x" using r(5) n(3) by (meson order_trans)
    moreover have "same_contents as (h_mem s) m" by (rule same_contents_trans[OF g(2) r(3)])
    ultimately show ?thesis using r(2,4)
      by (intro disjI2 exI[of _ xs'] exI[of _ "?s2\<lparr>h_mem := m, h_freep := p\<rparr>"]) simp
  qed
qed

section \<open>Taking a block\<close>

lemma links_map: "links m xs e \<Longrightarrow> xs \<noteq> [] \<Longrightarrow> map (\<lambda>x. ptr m (fst x)) xs = map fst (tl xs) @ [e]"
proof (induction xs)
  case (Cons x xs)
  then show ?case by (cases xs) auto
qed simp

lemma free_ok_distinct: "free_ok base brk xs \<Longrightarrow> distinct (map fst xs)"
proof -
  assume "free_ok base brk xs"
  then have "sorted_wrt before xs" by (simp add: free_ok_def)
  then have "sorted_wrt (\<lambda>x y. fst x < fst y) xs"
    by (rule sorted_wrt_mono_rel[rotated]) (auto simp: before_def lo_def word_less_nat_alt)
  then have "sorted_wrt (<) (map fst xs)" by (simp add: sorted_wrt_map)
  then show ?thesis by (simp add: strict_sorted_iff)
qed

text \<open>A block has one predecessor in the circle.\<close>

lemma one_predecessor:
  assumes f: "free_ok base brk xs" and l: "links m xs base"
    and "x \<in> set xs" "y \<in> set xs" "ptr m (fst x) = ptr m (fst y)"
  shows "x = y"
proof -
  have ne: "xs \<noteq> []" "fst (hd xs) = base" using f by (auto simp: free_ok_def)
  have "distinct (map fst (tl xs) @ [base])" using free_ok_distinct[OF f] ne by (cases xs) auto
  then have "distinct (map (\<lambda>x. ptr m (fst x)) xs)" using links_map[OF l ne(1)] by simp
  then show ?thesis using assms(3-5) by (auto simp: distinct_map inj_on_def)
qed


text \<open>The state after an allocation: the block \<open>q\<close> is in use, the others and their bytes as before.\<close>

definition allocated :: "u32 \<Rightarrow> block list \<Rightarrow> uheap \<Rightarrow> u32 \<Rightarrow> uheap \<Rightarrow> bool" where
  "allocated nu as s r t \<longleftrightarrow> (\<exists>q xs. r = q + SIZEOF_HEADER \<and> r \<noteq> 0 \<and> heap_with xs ((q, nu) # as) t \<and>
     same_contents as (h_mem s) (h_mem t))"

lemma block_not_null: "low q \<Longrightarrow> q + SIZEOF_HEADER \<noteq> 0"
proof
  assume "low q" "q + SIZEOF_HEADER = 0"
  then have "unat (q + 8) = 0" by (simp add: SIZEOF_HEADER_def)
  then show False using \<open>low q\<close> by (simp add: low_def unat_word_ariths)
qed

lemma take_whole:
  assumes h: "heap_with (l @ w # z # r) as s" and z: "1 \<le> snd z"
  shows "\<exists>t. take_block (snd z) (fst w) (fst z) (snd z) s = Ret (fst z + SIZEOF_HEADER) t \<and>
    allocated (snd z) as s (fst z + SIZEOF_HEADER) t"
proof -
  let ?xs = "l @ w # z # r" and ?base = "h_base s"
  let ?m = "ptr_upd (fst w) (first r ?base) (h_mem s)"
  let ?t = "s\<lparr>h_mem := ?m, h_freep := fst w\<rparr>"
  have f: "free_ok ?base (h_brk s) ?xs" and u: "used_ok (h_mem s) ?base (h_brk s) as" and ap: "apart_from as ?xs"
    and lk: "links (h_mem s) ?xs ?base" and b0: "?base \<noteq> 0" using h by (auto simp: heap_with_def)
  have wf: "free_wf ?base (h_brk s) as ?xs" using f ap u by (auto simp: free_wf_def used_ok_def)
  have brk: "unat (h_brk s) \<le> 2 ^ 31" using f by (simp add: free_ok_def)
  have rd: "readable s (fst x)" "low (fst x)" if "x \<in> set ?xs" for x
    using heap_header[OF f refl that] free_ok_low[OF f that] by auto
  have run: "take_block (snd z) (fst w) (fst z) (snd z) s = Ret (fst z + SIZEOF_HEADER) ?t"
    using rd(1)[of w] rd(1)[of z] lk by (simp add: take_block_def kbind_def header_ops set_freep_def kupd_def kret_def)
  have oh: "only_headers [fst w] (h_mem s) ?m" using rd(2)[of w] by simp
  have clw: "clear (fst w) (fst x)" if "x \<in> set l \<union> set r" for x
    using f that by (auto simp: free_ok_def sorted_wrt_append clear_def before_def lo_def)
  have "links ?m l (fst w) = links (h_mem s) l (fst w)" "links ?m r ?base = links (h_mem s) r ?base"
    by (rule links_only_headers[OF oh]; use clw rd(2) in auto)+
  then have links: "links ?m (l @ w # r) ?base" using lk rd(2)[of w] by simp
  have outw: "unat (fst w) + 8 \<le> lo a \<or> hi a \<le> unat (fst w)" if "a \<in> set as" for a
    using header_outside[OF wf u _ that, of w] by simp
  note used = used_only_headers[OF u oh brk, simplified, OF outw]
  have hz: "hi z \<le> unat (h_brk s)" "unat ?base + 8 \<le> lo z" "z \<in> set (tl ?xs)"
    using f by (cases l; auto simp: free_ok_def before_def lo_def)+
  have "sz ?m (fst z) = snd z"
    using only_headers_load(2)[OF oh rd(2)[of z]] f lk by (auto simp: free_ok_def sorted_wrt_append clear_def before_def lo_def)
  then have "used_ok ?m ?base (h_brk s) (z # as)"
    using used(1) hz z ap by (auto simp: used_ok_def apart_from_def)
  moreover have "free_ok ?base (h_brk s) (l @ w # r)"
    using f by (cases l) (auto simp: free_ok_def sorted_wrt_append)
  moreover have "sep x z" if "x \<in> set (l @ w # r)" for x
    using f that by (auto simp: free_ok_def sorted_wrt_append before_def sep_def)
  then have "apart_from (z # as) (l @ w # r)" using ap by (cases l) (auto simp: apart_from_def)
  ultimately have "heap_with (l @ w # r) ((fst z, snd z) # as) ?t" using links b0 by (auto simp: heap_with_def)
  then show ?thesis using run used(2) block_not_null[OF rd(2)[of z]] unfolding allocated_def by force
qed


lemma take_tail:
  assumes h: "heap_with (l @ z # r) as s" and ne: "l \<noteq> []" and nu: "1 \<le> nu" "nu < snd z" and prev: "prev \<in> fst ` set l"
  shows "\<exists>t. take_block nu prev (fst z) (snd z) s = Ret (fst z + SIZEOF_HEADER * (snd z - nu) + SIZEOF_HEADER) t \<and>
    allocated nu as s (fst z + SIZEOF_HEADER * (snd z - nu) + SIZEOF_HEADER) t"
proof -
  let ?xs = "l @ z # r" and ?base = "h_base s"
  define q where "q = fst z + SIZEOF_HEADER * (snd z - nu)"
  define z' where "z' = (fst z, snd z - nu)"
  let ?m1 = "sz_upd (fst z) (snd z - nu) (h_mem s)"
  let ?m = "sz_upd q nu ?m1"
  let ?t = "s\<lparr>h_mem := ?m, h_freep := prev\<rparr>"
  have f: "free_ok ?base (h_brk s) ?xs" and u: "used_ok (h_mem s) ?base (h_brk s) as" and ap: "apart_from as ?xs"
    and lk: "links (h_mem s) ?xs ?base" and b0: "?base \<noteq> 0" using h by (auto simp: heap_with_def)
  have wf: "free_wf ?base (h_brk s) as ?xs" using f ap u by (auto simp: free_wf_def used_ok_def)
  have brk: "unat (h_brk s) \<le> 2 ^ 31" using f by (simp add: free_ok_def)
  have zt: "z \<in> set (tl ?xs)" "hi z \<le> unat (h_brk s)" using f ne by (cases l; auto simp: free_ok_def)+
  have sub: "unat (snd z - nu) = unat (snd z) - unat nu" "unat nu < unat (snd z)" "1 \<le> unat nu"
    using nu by (simp_all add: word_less_nat_alt word_le_nat_alt unat_sub)
  have z': "lo z' = lo z" "hi z' = hi z - 8 * unat nu" "hi z' + 8 * unat nu = hi z" "lo z + 8 \<le> hi z'"
    using sub by (simp_all add: z'_def lo_def hi_def)
  have q: "unat q = hi z'" "hi (q, nu) = hi z"
  proof -
    have "hi z' \<le> 2 ^ 31" using z' zt(2) brk by simp
    then have "q = q \<longleftrightarrow> hi z' = unat q" using end_eq[of z' q] by (simp add: q_def z'_def)
    then show "unat q = hi z'" by simp
    then show "hi (q, nu) = hi z" using z' by (simp add: hi_def)
  qed
  have rdq: "readable s q" "low q" using q z' zt(2) brk sub(3) by (auto simp: readable_def low_def)
  have rd: "readable s (fst x)" "low (fst x)" if "x \<in> set ?xs" for x
    using heap_header[OF f refl that] free_ok_low[OF f that] by auto
  have clq: "clear (fst z) q" using q z' by (simp add: clear_def lo_def)
  have run: "take_block nu prev (fst z) (snd z) s = Ret (q + SIZEOF_HEADER) ?t"
    using rd(1)[of z] rdq nu
    by (auto simp: take_block_def Let_def q_def[symmetric] kbind_def header_ops set_freep_def kupd_def kret_def)
  have oh: "only_headers ([fst z] @ [q]) (h_mem s) ?m"
    using rd(2)[of z] rdq by (intro only_headers_trans[where ?m1.0 = ?m1]) auto
  have clz: "clear (fst z) (fst x)" "clear q (fst x)" if "x \<in> set l \<union> set r" for x
    using f that q z' sub by (auto simp: free_ok_def sorted_wrt_append clear_def before_def lo_def)
  have "links ?m l (fst z) = links (h_mem s) l (fst z)" "links ?m r ?base = links (h_mem s) r ?base"
    by (rule links_only_headers[OF oh]; use clz rd(2) in auto)+
  moreover have "ptr ?m (fst z) = ptr (h_mem s) (fst z)" "sz ?m (fst z) = snd z - nu" "sz ?m q = nu"
    using rd(2)[of z] rdq(2) clq by (simp_all add: clear_def header_upd_other disj_commute)
  ultimately have links: "links ?m (l @ z' # r) ?base" using lk by (simp add: z'_def)
  have spz: "sep z a" if "a \<in> set as" for a using ap zt(1) that by (auto simp: apart_from_def)
  have out: "unat c + 8 \<le> lo a \<or> hi a \<le> unat c" if "a \<in> set as" "c \<in> set ([fst z] @ [q])" for a c
    using spz[OF that(1)] that(2) q z' sub by (auto simp: sep_def lo_def)
  note used = used_only_headers[OF u oh brk out]
  have lz: "unat ?base + 8 \<le> lo z" using f ne by (cases l) (auto simp: free_ok_def before_def lo_def)
  have "sep (q, nu) a" if "a \<in> set as" for a using spz[OF that] q z' by (auto simp: sep_def lo_def)
  then have "used_ok ?m ?base (h_brk s) ((q, nu) # as)"
    using used(1) q z' zt(2) lz nu(1) \<open>sz ?m q = nu\<close> by (auto simp: used_ok_def lo_def)
  moreover have "free_ok ?base (h_brk s) (l @ z' # r)"
    using f ne z' zt(2) sub by (cases l) (auto simp: free_ok_def sorted_wrt_append before_def z'_def one_le_unat)
  moreover have "sep x (q, nu)" if "x \<in> set (l @ z' # r)" for x
    using f that q z' by (auto simp: free_ok_def sorted_wrt_append before_def sep_def lo_def)
  moreover have "sep z' a" if "a \<in> set as" for a using spz[OF that] z' by (auto simp: sep_def)
  then have "apart_from as (l @ z' # r)" using ap ne by (cases l) (auto simp: apart_from_def)
  moreover have "prev \<in> fst ` set (l @ z' # r)" using prev by auto
  ultimately have "heap_with (l @ z' # r) ((q, nu) # as) ?t"
    using links b0 ne by (cases l) (auto simp: heap_with_def apart_from_def)
  then show ?thesis using run used(2) block_not_null[OF rdq(2)] unfolding allocated_def q_def by force
qed


section \<open>The search of \<open>malloc\<close>\<close>

lemma freep_readable: "heap_with xs as s \<Longrightarrow> readable s (h_freep s)"
  using heap_header[OF _ refl, of "h_base s" s xs] by (fastforce simp: heap_with_def)

declare malloc_loop.simps [simp del]

lemma malloc_loop_skip:
  assumes "readable s p" "\<not> nu \<le> sz (h_mem s) p" "p \<noteq> h_freep s"
  shows "malloc_loop (Suc n) nu prev p s = malloc_loop n nu p (ptr (h_mem s) p) s"
  using assms by (simp add: malloc_loop.simps kbind_def header_ops kget_def)

lemma malloc_loop_walk:
  "links (h_mem s) ys e \<Longrightarrow> (\<And>y. y \<in> set ys \<Longrightarrow> readable s (fst y) \<and> \<not> nu \<le> snd y \<and> fst y \<noteq> h_freep s) \<Longrightarrow>
    malloc_loop (length ys + n) nu prev (first ys e) s =
      malloc_loop n nu (if ys = [] then prev else fst (last ys)) e s"
proof (induction ys arbitrary: prev)
  case (Cons y ys)
  have "readable s (fst y)" "\<not> nu \<le> sz (h_mem s) (fst y)" "fst y \<noteq> h_freep s"
    using Cons.prems(2)[of y] Cons.prems(1) by auto
  from malloc_loop_skip[OF this, of "length ys + n" prev] Cons show ?case by simp
qed simp

text \<open>The circle as the search goes through it: from the block behind \<open>freep\<close> to \<open>freep\<close>.\<close>

lemma rotation:
  assumes h: "heap_with xs as s"
  obtains f rot where "f \<in> set xs" "fst f = h_freep s" "set rot = set xs" "length rot = length xs" "distinct (map fst rot)"
    "last rot = f" "rot \<noteq> []" "links (h_mem s) rot (ptr (h_mem s) (h_freep s))" "first rot e = ptr (h_mem s) (h_freep s)"
proof -
  let ?base = "h_base s"
  have f: "free_ok ?base (h_brk s) xs" and lk: "links (h_mem s) xs ?base" using h by (auto simp: heap_with_def)
  obtain us f vs where xs: "xs = us @ f # vs" "fst f = h_freep s"
    using h by (auto simp: heap_with_def dest!: split_list)
  have b: "first (us @ [f]) x = ?base" for x using f xs(1) by (cases us) (auto simp: free_ok_def)
  have "links (h_mem s) (vs @ us @ [f]) (first vs ?base)" "first vs ?base = ptr (h_mem s) (h_freep s)"
    using lk xs b[of "first vs ?base"] by auto
  moreover have "first (vs @ us @ [f]) e = first vs ?base" using b[of e] by simp
  moreover have "distinct (map fst (vs @ us @ [f]))" using free_ok_distinct[OF f] xs(1) by auto
  ultimately show ?thesis using that[of f "vs @ us @ [f]"] xs by auto
qed

lemma malloc_loop_hit:
  assumes h: "heap_with xs as s" and nu: "1 \<le> nu" and fit: "\<exists>x \<in> set xs. nu \<le> snd x" and n: "length xs \<le> n"
  shows "\<exists>r t. malloc_loop n nu (h_freep s) (ptr (h_mem s) (h_freep s)) s = Ret r t \<and> allocated nu as s r t"
proof -
  let ?base = "h_base s"
  have f: "free_ok ?base (h_brk s) xs" and lk: "links (h_mem s) xs ?base" using h by (auto simp: heap_with_def)
  obtain fr rot where rot: "fr \<in> set xs" "fst fr = h_freep s" "set rot = set xs" "length rot = length xs"
    "distinct (map fst rot)" "last rot = fr" "rot \<noteq> []" "links (h_mem s) rot (ptr (h_mem s) (h_freep s))"
    "first rot 0 = ptr (h_mem s) (h_freep s)"
    using rotation[OF h, of 0] by metis
  obtain ys z zs where sp: "rot = ys @ z # zs" "nu \<le> snd z" "\<forall>y \<in> set ys. \<not> nu \<le> snd y"
    using split_list_first_prop[of rot "\<lambda>x. nu \<le> snd x"] fit rot(3) by auto
  have rd: "readable s (fst y)" if "y \<in> set xs" for y using heap_header[OF f refl that] .
  have zs: "z \<in> set xs" "sz (h_mem s) (fst z) = snd z" using rot(3,8) sp(1) by auto
  define prev where "prev = (if ys = [] then h_freep s else fst (last ys))"
  have walk: "malloc_loop (length ys + k) nu (h_freep s) (ptr (h_mem s) (h_freep s)) s = malloc_loop k nu prev (fst z) s" for k
  proof -
    have "fst y \<noteq> h_freep s" if "y \<in> set ys" for y
    proof -
      have "last (z # zs) = fr" "fr \<in> set (z # zs)" using rot(6) sp(1) last_in_set[of "z # zs"] by auto
      then have "fst fr \<in> fst ` set (z # zs)" by blast
      moreover have "fst ` set ys \<inter> fst ` set (z # zs) = {}" using rot(5) sp(1) by auto
      moreover have "fst y \<in> fst ` set ys" using that by blast
      ultimately show ?thesis using rot(2) by (metis disjoint_iff)
    qed
    moreover have "links (h_mem s) ys (fst z)" using rot(8) sp(1) by simp
    moreover have "first ys (fst z) = ptr (h_mem s) (h_freep s)" using rot(9) sp(1) by simp
    moreover have "readable s (fst y)" if "y \<in> set ys" for y by (rule rd) (use rot(3) sp(1) that in auto)
    ultimately show ?thesis using malloc_loop_walk[of s ys "fst z" nu k "h_freep s"] sp(3) unfolding prev_def by auto
  qed
  have "z \<noteq> (?base, 0)" using sp(2) nu by auto
  then have "z \<in> set (tl xs)" using in_tl[OF f zs(1)] by simp
  then obtain l r where xs: "xs = l @ z # r" "l \<noteq> []"
    using f by (cases xs) (auto dest!: split_list, metis append_Cons list.distinct(1))
  obtain l0 w where w: "l = l0 @ [w]" using xs(2) by (metis rev_exhaust)
  have "\<exists>v \<in> set xs. prev = fst v \<and> ptr (h_mem s) (fst v) = fst z"
  proof (cases "ys = []")
    case True then show ?thesis using rot(2,9) sp(1) by (intro bexI[OF _ rot(1)]) (auto simp: prev_def)
  next
    case False
    then obtain y0 y where y: "ys = y0 @ [y]" by (metis rev_exhaust)
    then show ?thesis using rot(3,8) sp(1) by (auto simp: prev_def)
  qed
  moreover have "ptr (h_mem s) (fst w) = fst z" "w \<in> set xs" using lk xs w by auto
  ultimately have prev: "prev = fst w" using one_predecessor[OF f lk] by metis
  have hit: "malloc_loop (Suc k) nu prev (fst z) s = take_block nu prev (fst z) (snd z) s" for k
    using rd[OF zs(1)] zs(2) sp(2) by (simp add: malloc_loop.simps kbind_def header_ops)
  have "n = length ys + Suc (n - length ys - 1)" using n rot(4) sp(1) by simp
  then have "malloc_loop n nu (h_freep s) (ptr (h_mem s) (h_freep s)) s = take_block nu prev (fst z) (snd z) s"
    using walk hit by metis
  moreover have "\<exists>r t. take_block nu (fst w) (fst z) (snd z) s = Ret r t \<and> allocated nu as s r t"
  proof (cases "snd z = nu")
    case True
    then show ?thesis using take_whole[of l0 w z r as s] h xs w nu by auto
  next
    case False
    then show ?thesis using take_tail[of l z r as s nu "fst w"] h xs w nu sp(2) by fastforce
  qed
  ultimately show ?thesis using prev by simp
qed


lemma malloc_loop_ok:
  assumes h: "heap_with xs as s" and nu: "1 \<le> nu" "8 * unat nu < 2 ^ 31" and n: "2 * length xs + 1 \<le> n"
  shows "malloc_loop n nu (h_freep s) (ptr (h_mem s) (h_freep s)) s = Ret 0 s \<and> refused nu s \<or>
    (\<exists>r t. malloc_loop n nu (h_freep s) (ptr (h_mem s) (h_freep s)) s = Ret r t \<and> allocated nu as s r t)"
proof (cases "\<exists>x \<in> set xs. nu \<le> snd x")
  case True
  then show ?thesis using malloc_loop_hit[OF h nu(1)] n by auto
next
  case False
  let ?p = "ptr (h_mem s) (h_freep s)"
  have f: "free_ok (h_base s) (h_brk s) xs" using h by (simp add: heap_with_def)
  obtain fr rot where rot: "fr \<in> set xs" "fst fr = h_freep s" "set rot = set xs" "length rot = length xs"
    "distinct (map fst rot)" "last rot = fr" "rot \<noteq> []" "links (h_mem s) rot ?p" "first rot 0 = ?p"
    using rotation[OF h, of 0] by metis
  obtain ys where ys: "rot = ys @ [fr]" using rot(6,7) by (metis append_butlast_last_id)
  have rd: "readable s (fst y)" if "y \<in> set xs" for y using heap_header[OF f refl that] .
  have "malloc_loop (length ys + k) nu (h_freep s) (first ys (fst fr)) s =
      malloc_loop k nu (if ys = [] then h_freep s else fst (last ys)) (fst fr) s" for k
  proof (rule malloc_loop_walk)
    show "links (h_mem s) ys (fst fr)" using rot(8) ys by simp
    fix y assume y: "y \<in> set ys"
    have "y \<in> set xs" using y rot(3) ys by auto
    have "fst y \<in> fst ` set ys" using y by blast
    moreover have "fst fr \<notin> fst ` set ys" using rot(5) ys by simp
    ultimately have "fst y \<noteq> fst fr" by metis
    then show "readable s (fst y) \<and> \<not> nu \<le> snd y \<and> fst y \<noteq> h_freep s" using rd[OF \<open>y \<in> set xs\<close>] False rot(2) \<open>y \<in> set xs\<close> by auto
  qed
  moreover have "first ys (fst fr) = ?p" using rot(9) ys by simp
  moreover have "n = length ys + Suc (n - length xs)" using n rot(4) ys by simp
  ultimately obtain prev where w: "malloc_loop n nu (h_freep s) ?p s = malloc_loop (Suc (n - length xs)) nu prev (fst fr) s"
    by metis
  have "sz (h_mem s) (fst fr) = snd fr" using rot(8) ys by simp
  then have step: "malloc_loop (Suc k) nu prev (fst fr) s =
      obind (morecore nu s) (\<lambda>p1. if p1 = 0 then kret 0 else kbind (get_ptr p1) (\<lambda>next. malloc_loop k nu p1 next))" for k
    using rd[OF rot(1)] rot(1,2) False by (auto simp: malloc_loop.simps kbind_def header_ops kget_def)
  from morecore_ok[OF h nu(2)] show ?thesis
  proof (elim disjE exE conjE)
    assume "morecore nu s = Ret 0 s" "refused nu s"
    then show ?thesis using w step by (simp add: kret_def)
  next
    fix xs' t
    assume m: "morecore nu s = Ret (h_freep t) t" "h_freep t \<noteq> 0" "heap_with xs' as t" "same_contents as (h_mem s) (h_mem t)"
      "length xs' \<le> Suc (length xs)" "\<exists>x \<in> set (tl xs'). nu \<le> snd x"
    have "\<exists>x \<in> set xs'. nu \<le> snd x" using m(6) by (cases xs') auto
    moreover have "length xs' \<le> n - length xs" using m(5) n by simp
    ultimately obtain r u where r: "malloc_loop (n - length xs) nu (h_freep t) (ptr (h_mem t) (h_freep t)) t = Ret r u"
      "allocated nu as t r u" using malloc_loop_hit[OF m(3) nu(1)] by blast
    have "malloc_loop n nu (h_freep s) ?p s = Ret r u" using w step m(1,2) r(1) freep_readable[OF m(3)] by (simp add: kbind_def header_ops)
    moreover have "allocated nu as s r u" using r(2) same_contents_trans[OF m(4)] unfolding allocated_def by blast
    ultimately show ?thesis by blast
  qed
qed

section \<open>The allocator\<close>

text \<open>
  The heap with the blocks \<open>as\<close> in use, each given by the address of its header and its size in
  units of eight bytes: before the first call, or with a free list.
\<close>

definition heap :: "block list \<Rightarrow> uheap \<Rightarrow> bool" where
  "heap as s \<longleftrightarrow> (h_freep s = 0 \<and> as = [] \<and> h_base s \<noteq> 0 \<and> readable s (h_base s) \<and> unat (h_brk s) \<le> 2 ^ 31) \<or>
     (\<exists>xs. heap_with xs as s)"



lemma first_call:
  assumes "h_freep s = 0" "h_base s \<noteq> 0" "readable s (h_base s)" "unat (h_brk s) \<le> 2 ^ 31"
  shows "\<exists>t. kseq [set_ptr (h_base s) (h_base s), set_freep (h_base s), set_size (h_base s) 0] s = Ret () t \<and>
    heap_with [(h_base s, 0)] [] t \<and> brk_after n t = brk_after n s"
proof -
  let ?b = "h_base s"
  let ?t = "s\<lparr>h_mem := sz_upd ?b 0 (ptr_upd ?b ?b (h_mem s)), h_freep := ?b\<rparr>"
  have lo: "low ?b" "unat ?b + 8 \<le> unat (h_brk s)" using assms(3) by (auto simp: readable_def)
  have "readable (s\<lparr>h_mem := m, h_freep := p\<rparr>) a = readable s a" for m p a by (simp add: readable_def)
  then have "kseq [set_ptr ?b ?b, set_freep ?b, set_size ?b 0] s = Ret () ?t"
    using assms(3) by (simp add: kbind_def header_ops set_freep_def kupd_def)
  moreover have "heap_with [(?b, 0)] [] ?t"
    using lo assms by (auto simp: heap_with_def free_ok_def used_ok_def apart_from_def lo_def hi_def)
  ultimately show ?thesis by (auto simp: brk_after_def Let_def)
qed


lemma malloc_ok:
  assumes h: "heap as s" and nu: "units nbytes = nu" "1 \<le> nu" "8 * unat nu < 2 ^ 31"
  shows "\<exists>r t. malloc nbytes s = Ret r t \<and>
    (r = 0 \<and> refused nu s \<and> heap as t \<and> same_contents as (h_mem s) (h_mem t) \<or> allocated nu as s r t)"
proof -
  obtain xs u where u: "heap_with xs as u" "same_contents as (h_mem s) (h_mem u)" "refused nu u = refused nu s"
    and init: "kwhen (\<lambda>s. h_freep s = 0) (kseq [set_ptr (h_base s) (h_base s), set_freep (h_base s), set_size (h_base s) 0]) s = Ret () u"
  proof (cases "h_freep s = 0")
    case True
    then have "as = []" "h_base s \<noteq> 0" "readable s (h_base s)" "unat (h_brk s) \<le> 2 ^ 31"
      using h heap_freep by (auto simp: heap_def)
    then show ?thesis
      using first_call[OF True, of "(if nu < 4096 then 4096 else nu) * SIZEOF_HEADER"] True that
      by (auto simp: kwhen_def same_contents_def refused_def)
  next
    case False
    then show ?thesis using h that by (auto simp: heap_def kwhen_def same_contents_def)
  qed
  have f: "free_ok (h_base u) (h_brk u) xs" using u(1) by (simp add: heap_with_def)
  have run: "malloc nbytes s = malloc_loop (unat (h_brk u)) nu (h_freep u) (ptr (h_mem u) (h_freep u)) u"
    using init freep_readable[OF u(1)] by (simp add: malloc_def kbind_def kget_def header_ops nu(1))
  have "2 * length xs + 1 \<le> unat (h_brk u)" using free_ok_length[OF f] by linarith
  from malloc_loop_ok[OF u(1) nu(2,3) this] show ?thesis
  proof (elim disjE exE conjE)
    fix r t
    assume "malloc_loop (unat (h_brk u)) nu (h_freep u) (ptr (h_mem u) (h_freep u)) u = Ret r t" "allocated nu as u r t"
    then show ?thesis using run same_contents_trans[OF u(2)] unfolding allocated_def by metis
  qed (use run u in \<open>auto simp: heap_def\<close>)
qed

text \<open>What an allocated block is to its user.\<close>

lemma allocatedD:
  assumes "allocated nu as s r t" "n \<le> 8 * (unat nu - 1)"
  shows "r \<noteq> 0" "heap ((r - SIZEOF_HEADER, nu) # as) t" "same_contents as (h_mem s) (h_mem t)"
    "unat r + n \<le> unat (h_brk t)" "a \<in> set as \<Longrightarrow> unat r + n \<le> lo a \<or> hi a \<le> unat r"
proof -
  obtain q xs where q: "r = q + SIZEOF_HEADER" "r \<noteq> 0" "heap_with xs ((q, nu) # as) t" "same_contents as (h_mem s) (h_mem t)"
    using assms(1) by (auto simp: allocated_def)
  then show "r \<noteq> 0" "heap ((r - SIZEOF_HEADER, nu) # as) t" "same_contents as (h_mem s) (h_mem t)" by (auto simp: heap_def)
  have u: "used_ok (h_mem t) (h_base t) (h_brk t) ((q, nu) # as)" "unat (h_brk t) \<le> 2 ^ 31"
    using q(3) by (auto simp: heap_with_def free_ok_def)
  note b = used_header[OF u, of "(q, nu)", simplified]
  have r: "unat r = unat q + 8" using b(1) q(1) by (simp add: readable_def low_def SIZEOF_HEADER_def unat_word_ariths)
  have n: "unat r + n \<le> hi (q, nu)" using r assms(2) b(4) by (auto simp: hi_def lo_def)
  then show "unat r + n \<le> unat (h_brk t)" using u(1) by (auto simp: used_ok_def)
  show "unat r + n \<le> lo a \<or> hi a \<le> unat r" if "a \<in> set as"
  proof -
    have "sep (q, nu) a" using u(1) that by (auto simp: used_ok_def)
    then show ?thesis using n r by (auto simp: sep_def lo_def)
  qed
qed


definition new_process :: uheap where
  "new_process = \<lparr>h_mem = (\<lambda>_. 0), h_base = 100, h_freep = 0, h_brk = 16384, h_avail = 100000\<rparr>"

lemma new_process_ok: "heap [] new_process" "n \<in> {1, 14} \<Longrightarrow> \<not> refused n new_process"
  by (auto simp: heap_def new_process_def readable_def low_def refused_def brk_after_def Let_def SIZEOF_HEADER_def
      USER_LIMIT_def)





text \<open>
  A request of nearly 4 GB succeeds with no memory at all: the sum in \<open>malloc\<close> wraps around
  and the block has room for its header only.
\<close>

theorem malloc_huge_request:
  assumes "heap as s" "0xFFFFFFF9 \<le> nbytes" "\<not> refused 1 s"
  shows "\<exists>r t. malloc nbytes s = Ret r t \<and> r \<noteq> 0 \<and> heap ((r - SIZEOF_HEADER, 1) # as) t"
proof -
  have n: "0xFFFFFFF9 \<le> unat nbytes" "unat nbytes < 2 ^ 32" using assms(2) unsigned_less[of nbytes, where 'a = nat]
    by (simp_all add: word_le_nat_alt)
  then have "(unat nbytes + 7) mod 2 ^ 32 = unat nbytes + 7 - 2 ^ 32" by (simp add: mod_if)
  then have "unat (nbytes + 7) < 8" using n by (simp add: unat_word_ariths)
  then have "(nbytes + 7) div 8 = 0" by (simp add: word_unat_eq_iff unat_div)
  then have u: "units nbytes = 1" by (simp add: units_def SIZEOF_HEADER_def add.commute)
  from malloc_ok[OF assms(1) u] obtain r t where "malloc nbytes s = Ret r t" "allocated 1 as s r t" using assms(3) by auto
  then show ?thesis using allocatedD[of 1 as s r t 0] by auto
qed


lemma malloc_huge_request_witness: "\<exists>r t. malloc (- 1) new_process = Ret r t \<and> r \<noteq> 0 \<and> heap [(r - SIZEOF_HEADER, 1)] t"
  using malloc_huge_request[OF new_process_ok(1), of "- 1"] new_process_ok(2)[of 1] by simp

end
