(* ===== verification/Mp.thy ===== *)
theory Mp
  imports Cmem
begin

text \<open>
  \<open>mp.c\<close>: the search of the BIOS memory for the multiprocessor structures and the walk through the
  table of processors and I/O APICs at boot.
\<close>

section \<open>Structures in memory\<close>

definition NCPU :: nat where "NCPU = 8"
definition KERN :: u32 where "KERN = 0x80000000"

definition MPPROC :: u8 where "MPPROC = 0"
definition MPBUS :: u8 where "MPBUS = 1"
definition MPIOAPIC :: u8 where "MPIOAPIC = 2"
definition MPIOINTR :: u8 where "MPIOINTR = 3"
definition MPLINTR :: u8 where "MPLINTR = 4"

definition SIZEOF_MP :: u32 where "SIZEOF_MP = 16"
definition SIZEOF_MPCONF :: u32 where "SIZEOF_MPCONF = 44"
definition SIZEOF_MPPROC :: u32 where "SIZEOF_MPPROC = 20"
definition SIZEOF_MPIOAPIC :: u32 where "SIZEOF_MPIOAPIC = 8"

definition load16 :: "memory \<Rightarrow> u32 \<Rightarrow> u32" where
  "load16 m a = ucast (m a) OR push_bit 8 (ucast (m (a + 1)))"

definition mp_physaddr :: "memory \<Rightarrow> u32 \<Rightarrow> u32" where "mp_physaddr m p = load32 m (p + 4)"
definition mp_imcrp :: "memory \<Rightarrow> u32 \<Rightarrow> u8" where "mp_imcrp m p = m (p + 12)"
definition conf_length :: "memory \<Rightarrow> u32 \<Rightarrow> u32" where "conf_length m p = load16 m (p + 4)"
definition conf_version :: "memory \<Rightarrow> u32 \<Rightarrow> u8" where "conf_version m p = m (p + 6)"
definition conf_lapicaddr :: "memory \<Rightarrow> u32 \<Rightarrow> u32" where "conf_lapicaddr m p = load32 m (p + 36)"

text \<open>What \<open>mpinit\<close> finds out; the number \<open>ncpu\<close> is the length of \<open>m_apicids\<close>.\<close>

record mpstate =
  m_lapic :: u32
  m_apicids :: "u8 list"
  m_ioapicid :: u8
  m_ports :: "(u32 \<times> u8) list"

section \<open>The search\<close>

fun sum_loop :: "nat \<Rightarrow> u32 \<Rightarrow> u32 \<Rightarrow> memory \<Rightarrow> u32" where
  "sum_loop 0 addr acc m = acc"
| "sum_loop (Suc n) addr acc m = sum_loop n (addr + 1) (acc + ucast (m addr)) m"

definition mp_sum :: "u32 \<Rightarrow> nat \<Rightarrow> memory \<Rightarrow> u8" where
  "mp_sum addr len m = ucast (sum_loop len addr 0 m)"

text \<open>\<open>memcmp\<close> with the four characters of a signature.\<close>

definition signature :: "string \<Rightarrow> memory \<Rightarrow> u32 \<Rightarrow> bool" where
  "signature sig m p \<longleftrightarrow> [m p, m (p + 1), m (p + 2), m (p + 3)] = map of_char sig"

fun mpsearch_loop :: "nat \<Rightarrow> u32 \<Rightarrow> memory \<Rightarrow> u32 option" where
  "mpsearch_loop 0 p m = None"
| "mpsearch_loop (Suc n) p m =
     (if signature ''_MP_'' m p \<and> mp_sum p (unat SIZEOF_MP) m = 0 then Some p
      else mpsearch_loop n (p + SIZEOF_MP) m)"

text \<open>The number of steps of \<open>for(p = addr; p < addr + len; p += sizeof(struct mp))\<close>.\<close>

definition mpsearch1 :: "u32 \<Rightarrow> nat \<Rightarrow> memory \<Rightarrow> u32 option" where
  "mpsearch1 a len m = mpsearch_loop ((len + 15) div 16) (a + KERN) m"

definition mpsearch :: "memory \<Rightarrow> u32 option" where
  "mpsearch m = (let bda = KERN + 0x400;
       ebda = push_bit 4 (push_bit 8 (ucast (m (bda + 0x0F))) OR ucast (m (bda + 0x0E)));
       base = (push_bit 8 (ucast (m (bda + 0x14))) OR ucast (m (bda + 0x13))) * 1024
     in case (if ebda \<noteq> 0 then mpsearch1 ebda 1024 m else mpsearch1 (base - 1024) 1024 m) of
          Some mp \<Rightarrow> Some mp
        | None \<Rightarrow> mpsearch1 0xF0000 0x10000 m)"

text \<open>The addresses of the table and of the structure that points to it.\<close>

definition mpconfig :: "memory \<Rightarrow> (u32 \<times> u32) option" where
  "mpconfig m = (case mpsearch m of
     None \<Rightarrow> None
   | Some mp \<Rightarrow>
       if mp_physaddr m mp = 0 then None
       else let conf = mp_physaddr m mp + KERN in
         if \<not> signature ''PCMP'' m conf then None
         else if conf_version m conf \<noteq> 1 \<and> conf_version m conf \<noteq> 4 then None
         else if mp_sum conf (unat (conf_length m conf)) m \<noteq> 0 then None
         else Some (conf, mp))"

section \<open>The walk through the table\<close>

text \<open>
  The loop as it is: the \<open>break\<close> after an unknown entry leaves the \<open>switch\<close> and not the loop, which
  goes on with the same entry. The value is \<open>None\<close> when it does not end.
\<close>

definition add_cpu :: "u8 \<Rightarrow> mpstate \<Rightarrow> mpstate" where
  "add_cpu apicid s = (if length (m_apicids s) < NCPU then s\<lparr>m_apicids := m_apicids s @ [apicid]\<rparr> else s)"

partial_function (option) mp_walk :: "memory \<Rightarrow> u32 \<Rightarrow> u32 \<Rightarrow> bool \<Rightarrow> mpstate \<Rightarrow> (bool \<times> mpstate) option" where
  "mp_walk m p e ismp s =
     (if p < e then
        (if m p = MPPROC then mp_walk m (p + SIZEOF_MPPROC) e ismp (add_cpu (m (p + 1)) s)
         else if m p = MPIOAPIC then mp_walk m (p + SIZEOF_MPIOAPIC) e ismp (s\<lparr>m_ioapicid := m (p + 1)\<rparr>)
         else if m p \<in> {MPBUS, MPIOINTR, MPLINTR} then mp_walk m (p + 8) e ismp s
         else mp_walk m p e False s)
      else Some (ismp, s))"

text \<open>\<open>inb23\<close> is what port \<open>0x23\<close> gives.\<close>

definition mpinit :: "memory \<Rightarrow> u8 \<Rightarrow> mpstate \<Rightarrow> (unit, mpstate) outcome" where
  "mpinit m inb23 s = (case mpconfig m of
     None \<Rightarrow> Panic ''Expect to run on an SMP''
   | Some (conf, mp) \<Rightarrow>
      (case mp_walk m (conf + SIZEOF_MPCONF) (conf + conf_length m conf) True (s\<lparr>m_lapic := conf_lapicaddr m conf\<rparr>) of
         None \<Rightarrow> Spin
       | Some (ismp, t) \<Rightarrow>
           if \<not> ismp then Panic ''Didn't find a suitable machine''
           else if mp_imcrp m mp \<noteq> 0 then Ret () (t\<lparr>m_ports := m_ports t @ [(0x22, 0x70), (0x23, inb23 OR 1)]\<rparr>)
           else Ret () t))"

section \<open>Tables of entries\<close>

datatype mp_entry = Processor u8 | Ioapic u8 | Other u8

definition entry_ok :: "mp_entry \<Rightarrow> bool" where
  "entry_ok x = (case x of Other t \<Rightarrow> t \<in> {MPBUS, MPIOINTR, MPLINTR} | _ \<Rightarrow> True)"

definition entry_size :: "mp_entry \<Rightarrow> u32" where
  "entry_size x = (case x of Processor _ \<Rightarrow> SIZEOF_MPPROC | Ioapic _ \<Rightarrow> SIZEOF_MPIOAPIC | Other _ \<Rightarrow> 8)"

definition entry_at :: "memory \<Rightarrow> u32 \<Rightarrow> mp_entry \<Rightarrow> bool" where
  "entry_at m p x \<longleftrightarrow> (case x of Processor a \<Rightarrow> m p = MPPROC \<and> m (p + 1) = a
     | Ioapic a \<Rightarrow> m p = MPIOAPIC \<and> m (p + 1) = a | Other t \<Rightarrow> m p = t)"

primrec table_at :: "memory \<Rightarrow> u32 \<Rightarrow> mp_entry list \<Rightarrow> u32 \<Rightarrow> bool" where
  "table_at m p [] e \<longleftrightarrow> p = e"
| "table_at m p (x # xs) e \<longleftrightarrow> p < e \<and> entry_ok x \<and> entry_at m p x \<and> p < p + entry_size x \<and>
     p + entry_size x \<le> e \<and> table_at m (p + entry_size x) xs e"

definition note_entry :: "mp_entry \<Rightarrow> mpstate \<Rightarrow> mpstate" where
  "note_entry x s = (case x of Processor a \<Rightarrow> add_cpu a s | Ioapic a \<Rightarrow> s\<lparr>m_ioapicid := a\<rparr> | Other _ \<Rightarrow> s)"

lemmas mp_types = MPPROC_def MPBUS_def MPIOAPIC_def MPIOINTR_def MPLINTR_def

lemma walk_step:
  assumes "p < e" "entry_ok x" "entry_at m p x"
  shows "mp_walk m p e ismp s = mp_walk m (p + entry_size x) e ismp (note_entry x s)"
  using assms by (subst mp_walk.simps)
    (auto simp: entry_at_def entry_ok_def entry_size_def note_entry_def mp_types split: mp_entry.splits)

lemma walk_entries: "table_at m p xs q \<Longrightarrow> q \<le> e \<Longrightarrow> mp_walk m p e ismp s = mp_walk m q e ismp (fold note_entry xs s)"
proof (induction xs arbitrary: p s)
  case (Cons x xs)
  then have "mp_walk m p e ismp s = mp_walk m (p + entry_size x) e ismp (note_entry x s)" by (intro walk_step) auto
  then show ?case using Cons by simp
qed simp

lemma walk_end: "mp_walk m e e ismp s = Some (ismp, s)"
  by (subst mp_walk.simps) simp

text \<open>An entry of an unknown type is never left.\<close>

lemma walk_result_known:
  assumes "mp_walk m p e ismp s = Some r"
  shows "p < e \<longrightarrow> m p \<in> {MPPROC, MPBUS, MPIOAPIC, MPIOINTR, MPLINTR}"
  by (rule mp_walk.raw_induct[where P = "\<lambda>m p e ismp s r. p < e \<longrightarrow> m p \<in> {MPPROC, MPBUS, MPIOAPIC, MPIOINTR, MPLINTR}",
        OF _ assms]) (auto split: if_splits, blast)

lemma walk_hangs: "p < e \<Longrightarrow> m p \<notin> {MPPROC, MPBUS, MPIOAPIC, MPIOINTR, MPLINTR} \<Longrightarrow> mp_walk m p e ismp s = None"
  using walk_result_known[of m p e ismp s] by (cases "mp_walk m p e ismp s") auto


definition processors :: "mp_entry list \<Rightarrow> u8 list" where
  "processors xs = concat (map (\<lambda>x. case x of Processor a \<Rightarrow> [a] | _ \<Rightarrow> []) xs)"

definition ioapics :: "mp_entry list \<Rightarrow> u8 list" where
  "ioapics xs = concat (map (\<lambda>x. case x of Ioapic a \<Rightarrow> [a] | _ \<Rightarrow> []) xs)"

lemma processors_simps [simp]:
  "processors [] = []" "processors (Processor a # xs) = a # processors xs"
  "processors (Ioapic a # xs) = processors xs" "processors (Other a # xs) = processors xs"
  "ioapics [] = []" "ioapics (Processor a # xs) = ioapics xs"
  "ioapics (Ioapic a # xs) = a # ioapics xs" "ioapics (Other a # xs) = ioapics xs"
  by (simp_all add: processors_def ioapics_def)

lemma fold_entries:
  "length (m_apicids s) \<le> NCPU \<Longrightarrow>
    fold note_entry xs s = s\<lparr>m_apicids := take NCPU (m_apicids s @ processors xs), m_ioapicid := last (m_ioapicid s # ioapics xs)\<rparr>"
proof (induction xs arbitrary: s)
  case (Cons x xs)
  have "length (m_apicids (note_entry x s)) \<le> NCPU"
    using Cons.prems by (cases x) (auto simp: note_entry_def add_cpu_def)
  note IH = Cons.IH[OF this]
  have "take NCPU (m_apicids s @ a # ys) = take NCPU ((m_apicids s @ [a]) @ ys)" for a ys by simp
  moreover have "take NCPU (m_apicids s @ ys) = m_apicids s" if "length (m_apicids s) = NCPU" for ys using that by simp
  ultimately show ?case using IH Cons.prems
    by (cases x) (auto simp: note_entry_def add_cpu_def le_less simp del: take_append)
qed simp

text \<open>
  C25. The walk of \<open>mpinit\<close> through a table whose entries up to \<open>q\<close> are well formed. When they are
  the whole table, the kernel knows the APIC ids of the first eight processors in the order of the
  table, the last I/O APIC and the address of the local APICs. When the entry at \<open>q\<close> has a type
  the code does not know, \<open>mpinit\<close> does not panic as it means to: it never ends.
\<close>

theorem mpinit_reads_table:
  assumes "mpconfig m = Some (conf, mp)" "table_at m (conf + SIZEOF_MPCONF) xs q" "q \<le> conf + conf_length m conf"
    and "q < conf + conf_length m conf \<Longrightarrow> m q \<notin> {MPPROC, MPBUS, MPIOAPIC, MPIOINTR, MPLINTR}" "m_apicids s = []"
  shows "mpinit m b s =
    (if q < conf + conf_length m conf then Spin
     else Ret () (s\<lparr>m_lapic := conf_lapicaddr m conf, m_apicids := take NCPU (processors xs),
       m_ioapicid := last (m_ioapicid s # ioapics xs),
       m_ports := m_ports s @ (if mp_imcrp m mp = 0 then [] else [(0x22, 0x70), (0x23, b OR 1)])\<rparr>))"
proof -
  let ?s = "s\<lparr>m_lapic := conf_lapicaddr m conf\<rparr>" and ?e = "conf + conf_length m conf"
  have w: "mp_walk m (conf + SIZEOF_MPCONF) ?e True ?s = mp_walk m q ?e True (fold note_entry xs ?s)"
    by (rule walk_entries[OF assms(2,3)])
  show ?thesis
  proof (cases "q < ?e")
    case True
    then show ?thesis using walk_hangs[of q ?e m True] assms(4) w assms(1) by (simp add: mpinit_def)
  next
    case False
    then have "q = ?e" using assms(3) by simp
    then show ?thesis using w assms(1,5) fold_entries[of ?s xs] by (simp add: mpinit_def walk_end)
  qed
qed

text \<open>A machine with two processors and one I/O APIC.\<close>

definition image :: "u32 \<Rightarrow> u8 list \<Rightarrow> memory \<Rightarrow> memory" where
  "image a bs m x = (if unat (x - a) < length bs then bs ! unat (x - a) else m x)"

lemma ucast_add: "(ucast (x + y :: u32) :: u8) = ucast x + ucast y"
proof -
  have "uint (ucast (x + y) :: u8) = uint (x + y) mod 2 ^ 8" by (simp add: unsigned_ucast_eq take_bit_eq_mod)
  also have "\<dots> = (uint x + uint y) mod 2 ^ 8" by (simp add: uint_word_ariths mod_mod_cancel)
  also have "\<dots> = uint (ucast x + ucast y :: u8)"
    by (simp add: uint_word_ariths unsigned_ucast_eq take_bit_eq_mod mod_add_eq)
  finally show ?thesis by (simp add: word_uint_eq_iff)
qed

lemma ucast_byte: "(ucast (ucast (c :: u8) :: u32) :: u8) = c"
  by (rule bit_word_eqI) (auto simp: bit_simps)

lemma sum_loop_bytes: "(ucast (sum_loop n a acc m) :: u8) = ucast acc + sum_list (map (\<lambda>i. m (a + of_nat i)) [0..<n])"
proof (induction n arbitrary: a acc)
  case (Suc n)
  have "map (\<lambda>i. m (a + of_nat i)) [0..<Suc n] = m a # map (\<lambda>i. m (a + 1 + of_nat i)) [0..<n]"
    by (simp add: upt_conv_Cons map_Suc_upt[symmetric] add.assoc del: upt_Suc)
  then show ?case using Suc[of "a + 1" "acc + ucast (m a)"] by (simp add: ucast_add ucast_byte add.assoc del: upt_Suc)
qed simp

lemma image_bytes:
  assumes "length bs < 2 ^ 32"
  shows "map (\<lambda>i. image a bs m (a + of_nat i)) [0..<length bs] = bs"
  by (rule nth_equalityI) (use assms in \<open>auto simp: image_def unat_of_nat\<close>)


text \<open>A checksum over an image is the sum of its bytes.\<close>

lemma mp_sum_bytes: "(\<And>i. i < length bs \<Longrightarrow> m (a + of_nat i) = bs ! i) \<Longrightarrow> n = length bs \<Longrightarrow> mp_sum a n m = sum_list bs"
proof -
  assume "\<And>i. i < length bs \<Longrightarrow> m (a + of_nat i) = bs ! i" "n = length bs"
  then have "map (\<lambda>i. m (a + of_nat i)) [0..<n] = bs" by (intro nth_equalityI) auto
  then show ?thesis by (simp add: mp_sum_def sum_loop_bytes)
qed

definition mp_bytes :: "u8 list" where
  "mp_bytes = [95, 77, 80, 95, 0, 16, 0, 0, 1, 4, 16, 0, 128, 0, 0, 0]"

definition conf_bytes :: "u8 list" where
  "conf_bytes = [80, 67, 77, 80, 92, 0, 4, 126] @ replicate 28 0 @ [0, 0, 0xE0, 0xFE] @ replicate 4 0 @
     [0, 5] @ replicate 18 0 @ [0, 6] @ replicate 18 0 @ [2, 7] @ replicate 6 0"

definition two_cpus :: memory where
  "two_cpus = image (KERN + 0x40E) [0xC0, 0x9F] (image (KERN + 0x9FC00) mp_bytes (image (KERN + 0x1000) conf_bytes (\<lambda>_. 0)))"

lemma image_hit: "unat (x - a) < length bs \<Longrightarrow> image a bs m x = bs ! unat (x - a)"
  by (simp add: image_def)

lemma image_skip: "length bs \<le> unat (x - a) \<Longrightarrow> image a bs m x = m x"
  by (simp add: image_def)

lemma two_cpus_bytes:
  "i < 2 \<Longrightarrow> two_cpus (KERN + 0x40E + of_nat i) = [0xC0, 0x9F] ! i"
  "i < 16 \<Longrightarrow> two_cpus (KERN + 0x9FC00 + of_nat i) = mp_bytes ! i"
  "i < 92 \<Longrightarrow> two_cpus (KERN + 0x1000 + of_nat i) = conf_bytes ! i"
proof -
  have l: "length mp_bytes = 16" "length conf_bytes = 92" by (simp_all add: mp_bytes_def conf_bytes_def)
  have u: "unat (c + of_nat i :: u32) = unat c + i" if "i < 92" "unat c + 92 < 2 ^ 32" for c i
    using that by (simp add: unat_word_ariths unat_of_nat)
  show "i < 2 \<Longrightarrow> two_cpus (KERN + 0x40E + of_nat i) = [0xC0, 0x9F] ! i"
    unfolding two_cpus_def by (subst image_hit) (simp_all add: unat_of_nat)
  have d: "KERN + 0x9FC00 + of_nat i - (KERN + 0x40E) = 0x9F7F2 + of_nat i"
    "KERN + 0x1000 + of_nat i - (KERN + 0x40E) = 0xBF2 + of_nat i"
    "KERN + 0x1000 + of_nat i - (KERN + 0x9FC00) = 0xFFF61400 + of_nat i" for i by simp_all
  show "i < 16 \<Longrightarrow> two_cpus (KERN + 0x9FC00 + of_nat i) = mp_bytes ! i"
    unfolding two_cpus_def using u[of i "0x9F7F2"]
    by (subst image_skip) (simp_all only: d, simp, subst image_hit, simp_all add: l unat_of_nat)
  show "i < 92 \<Longrightarrow> two_cpus (KERN + 0x1000 + of_nat i) = conf_bytes ! i"
    unfolding two_cpus_def using u[of i "0xBF2"] u[of i "0xFFF61400"]
    by (subst image_skip) (simp_all only: d, simp, subst image_skip, simp only: d, simp add: l, subst image_hit,
      simp_all add: l unat_of_nat)
qed

lemma mpsearch_hit: "0 < n \<Longrightarrow> signature ''_MP_'' m p \<Longrightarrow> mp_sum p (unat SIZEOF_MP) m = 0 \<Longrightarrow> mpsearch_loop n p m = Some p"
  by (cases n) auto

lemma two_cpus_at:
  "unat k < 16 \<Longrightarrow> two_cpus (KERN + 0x9FC00 + k) = mp_bytes ! unat k"
  "unat k < 92 \<Longrightarrow> two_cpus (KERN + 0x1000 + k) = conf_bytes ! unat k"
  using two_cpus_bytes(2)[of "unat k"] two_cpus_bytes(3)[of "unat k"] by simp_all

lemma two_cpus_search: "mpsearch two_cpus = Some (KERN + 0x9FC00)"
proof -
  have "mp_sum (KERN + 0x9FC00) 16 two_cpus = sum_list mp_bytes"
    by (rule mp_sum_bytes) (use two_cpus_bytes(2) in \<open>auto simp: mp_bytes_def\<close>)
  also have "\<dots> = 0" by (simp add: mp_bytes_def)
  finally have s: "mp_sum (KERN + 0x9FC00) (unat SIZEOF_MP) two_cpus = 0" by (simp add: SIZEOF_MP_def)
  have "signature ''_MP_'' two_cpus (KERN + 0x9FC00)"
    using two_cpus_at(1)[of 0] two_cpus_at(1)[of 1] two_cpus_at(1)[of 2] two_cpus_at(1)[of 3]
    by (simp add: signature_def mp_bytes_def)
  note hit = mpsearch_hit[OF _ this s, of 64]
  have "two_cpus (KERN + 0x40E) = 0xC0" "two_cpus (KERN + 0x40F) = 0x9F"
    using two_cpus_bytes(1)[of 0] two_cpus_bytes(1)[of 1] by (simp_all add: algebra_simps)
  then have "mpsearch1 0x9FC00 1024 two_cpus = Some (KERN + 0x9FC00)" using hit by (simp add: mpsearch1_def add.commute)
  then show ?thesis
    using \<open>two_cpus (KERN + 0x40E) = 0xC0\<close> \<open>two_cpus (KERN + 0x40F) = 0x9F\<close>
    by (simp add: mpsearch_def Let_def add.commute[of _ KERN])
qed


lemma two_cpus_config: "mpconfig two_cpus = Some (KERN + 0x1000, KERN + 0x9FC00)" "conf_length two_cpus (KERN + 0x1000) = 92"
proof -
  have at: "two_cpus (KERN + 0x1000 + k) = conf_bytes ! unat k" if "k < 92" for k
    using two_cpus_at(2)[of k] that by (simp add: word_less_nat_alt)
  have "two_cpus (KERN + 0x9FC00 + k) = mp_bytes ! unat k" if "k < 16" for k
    using two_cpus_at(1)[of k] that by (simp add: word_less_nat_alt)
  from this[of 4] this[of 5] this[of 6] this[of 7] have "mp_physaddr two_cpus (KERN + 0x9FC00) = 0x1000"
    by (simp add: mp_physaddr_def load32_def add.assoc mp_bytes_def)
  moreover show len: "conf_length two_cpus (KERN + 0x1000) = 92"
    using at[of 4] at[of 5] by (simp add: conf_length_def load16_def add.assoc conf_bytes_def)
  moreover have "conf_version two_cpus (KERN + 0x1000) = 4" using at[of 6] by (simp add: conf_version_def add.assoc conf_bytes_def)
  moreover have "signature ''PCMP'' two_cpus (KERN + 0x1000)"
    using at[of 0] at[of 1] at[of 2] at[of 3] by (simp add: signature_def add.assoc conf_bytes_def)
  moreover have "mp_sum (KERN + 0x1000) 92 two_cpus = sum_list conf_bytes"
    by (rule mp_sum_bytes) (use two_cpus_bytes(3) in \<open>auto simp: conf_bytes_def\<close>)
  then have "mp_sum (KERN + 0x1000) 92 two_cpus = 0" by (simp add: conf_bytes_def sum_list_replicate)
  ultimately show "mpconfig two_cpus = Some (KERN + 0x1000, KERN + 0x9FC00)"
    by (simp add: mpconfig_def two_cpus_search Let_def add.commute[of _ KERN])
qed

lemma two_cpus_table: "table_at two_cpus (KERN + 0x1000 + SIZEOF_MPCONF) [Processor 5, Processor 6, Ioapic 7] (KERN + 0x1000 + 92)"
proof -
  have at: "two_cpus (KERN + 0x1000 + k) = conf_bytes ! unat k" if "k < 92" for k
    using two_cpus_at(2)[of k] that by (simp add: word_less_nat_alt)
  from at[of 44] at[of 45] at[of 64] at[of 65] at[of 84] at[of 85] show ?thesis
    by (simp add: entry_ok_def entry_at_def entry_size_def mp_types SIZEOF_MPCONF_def SIZEOF_MPPROC_def SIZEOF_MPIOAPIC_def
        KERN_def conf_bytes_def nth_append)
qed

lemma mpinit_reads_table_witness:
  "\<exists>t. mpinit two_cpus 0 \<lparr>m_lapic = 0, m_apicids = [], m_ioapicid = 0, m_ports = []\<rparr> = Ret () t \<and>
     m_apicids t = [5, 6] \<and> m_ioapicid t = 7"
  using mpinit_reads_table[OF two_cpus_config(1) two_cpus_table, of "\<lparr>m_lapic = 0, m_apicids = [], m_ioapicid = 0, m_ports = []\<rparr>" 0]
  by (simp add: two_cpus_config(2) NCPU_def)

end
