(* ===== verification/Mkfs.thy ===== *)
theory Mkfs
  imports Dir
begin

text \<open>
  \<open>mkfs.c\<close>: the program of the build machine that makes the disk image. The image file is a map
  from sectors to their bytes; reading a sector behind its end and a failed assertion end the
  program, as the outcome \<open>Panic\<close>. The calls of the host that open, seek and write the image are
  taken to succeed. The bytes of an inode are those of \<open>struct dinode\<close>, which the kernel uses too.
\<close>

section \<open>Parameters\<close>

definition NINODES :: nat where "NINODES = 200"

definition nbitmap :: nat where "nbitmap = FSSIZE div (BSIZE * 8) + 1"
definition ninodeblocks :: nat where "ninodeblocks = NINODES div unat IPB + 1"
definition nlog :: nat where "nlog = LOGSIZE"
definition nmeta :: nat where "nmeta = 2 + nlog + ninodeblocks + nbitmap"

record mk =
  mk_img :: "u32 \<Rightarrow> u8 list option"
  mk_sb :: superblock
  mk_freeinode :: u32
  mk_freeblock :: u32

type_synonym 'a mkm = "mk \<Rightarrow> ('a, mk) outcome"

text \<open>The bytes that \<open>xshort\<close> and \<open>xint\<close> lay down.\<close>

definition xshort :: "u16 \<Rightarrow> u8 list" where
  "xshort x = [ucast x, ucast (drop_bit 8 x)]"

definition xint :: "u32 \<Rightarrow> u8 list" where
  "xint x = [ucast x, ucast (drop_bit 8 x), ucast (drop_bit 16 x), ucast (drop_bit 24 x)]"

section \<open>Sectors and inodes\<close>

definition wsect :: "u32 \<Rightarrow> u8 list \<Rightarrow> unit mkm" where
  "wsect sec buf = kupd (\<lambda>s. s\<lparr>mk_img := (mk_img s)(sec \<mapsto> buf)\<rparr>)"

definition rsect :: "u32 \<Rightarrow> u8 list mkm" where
  "rsect sec = kbind (kget (\<lambda>s. mk_img s sec)) (\<lambda>b. case b of None \<Rightarrow> kpanic ''read'' | Some buf \<Rightarrow> kret buf)"

definition winode :: "u32 \<Rightarrow> inode \<Rightarrow> unit mkm" where
  "winode inum ip =
     kbind (kget (\<lambda>s. IBLOCK inum (mk_sb s))) (\<lambda>bn.
     kbind (rsect bn) (\<lambda>buf.
     wsect bn (encode_dinode (dinode_at inum) ip buf)))"

text \<open>What \<open>struct dinode\<close> does not have is 0.\<close>

definition no_inode :: inode where
  "no_inode = \<lparr>i_dev = 0, i_inum = 0, i_ref = 0, i_valid = False, i_type = 0, i_major = 0, i_minor = 0,
     i_nlink = 0, i_size = 0, i_addrs = replicate (NDIRECT + 1) 0\<rparr>"

definition rinode :: "u32 \<Rightarrow> inode mkm" where
  "rinode inum =
     kbind (kget (\<lambda>s. IBLOCK inum (mk_sb s))) (\<lambda>bn.
     kbind (rsect bn) (\<lambda>buf.
     kret (decode_dinode (dinode_at inum) buf no_inode)))"

definition mk_ialloc :: "u16 \<Rightarrow> u32 mkm" where
  "mk_ialloc type =
     kbind (kget mk_freeinode) (\<lambda>inum.
     kbind (kupd (\<lambda>s. s\<lparr>mk_freeinode := inum + 1\<rparr>)) (\<lambda>_.
     kbind (winode inum (no_inode\<lparr>i_type := type, i_nlink := 1, i_size := 0\<rparr>)) (\<lambda>_.
     kret inum)))"

text \<open>The loop of \<open>balloc\<close>: the bits of the first \<open>used\<close> blocks.\<close>

fun mark_blocks :: "nat \<Rightarrow> u8 list \<Rightarrow> u8 list" where
  "mark_blocks 0 buf = buf"
| "mark_blocks (Suc i) buf = mark_used i (mark_blocks i buf)"

definition mk_balloc :: "u32 \<Rightarrow> unit mkm" where
  "mk_balloc used =
     kbind (kwhen (\<lambda>s. \<not> sint used < int (BSIZE * 8)) (kpanic ''assert'')) (\<lambda>_.
     kbind (kget (\<lambda>s. sb_bmapstart (mk_sb s))) (\<lambda>bm.
     wsect bm (mark_blocks (nat (sint used)) (replicate BSIZE 0))))"

section \<open>Appending to a file\<close>

text \<open>\<open>xint(freeblock++)\<close>.\<close>

definition next_block :: "u32 mkm" where
  "next_block = kbind (kget mk_freeblock) (\<lambda>b. kbind (kupd (\<lambda>s. s\<lparr>mk_freeblock := b + 1\<rparr>)) (\<lambda>_. kret b))"

text \<open>An address of the inode, allocated when it is 0.\<close>

definition own_addr :: "nat \<Rightarrow> inode \<Rightarrow> inode mkm" where
  "own_addr k din = (if i_addrs din ! k = 0
     then kbind next_block (\<lambda>b. kret (din\<lparr>i_addrs := (i_addrs din)[k := b]\<rparr>)) else kret din)"

text \<open>The block of the file for block number \<open>fbn\<close>: lines 271 to 286.\<close>

definition file_sector :: "nat \<Rightarrow> inode \<Rightarrow> (u32 \<times> inode) mkm" where
  "file_sector fbn din =
     (if fbn < NDIRECT then kbind (own_addr fbn din) (\<lambda>din. kret (i_addrs din ! fbn, din))
      else kbind (own_addr NDIRECT din) (\<lambda>din.
        let ind = i_addrs din ! NDIRECT; j = 4 * (fbn - NDIRECT)
        in kbind (rsect ind) (\<lambda>indirect.
           if get32 indirect j = 0 then
             kbind next_block (\<lambda>b. kbind (wsect ind (put32 j b indirect)) (\<lambda>_. kret (b, din)))
           else kret (get32 indirect j, din))))"

text \<open>
  The loop of \<open>iappend\<close> over the bytes \<open>xs\<close> that are left; every round takes at least one, so a
  fuel above their number is enough.
\<close>

fun iappend_loop :: "nat \<Rightarrow> u32 \<Rightarrow> u8 list \<Rightarrow> inode \<Rightarrow> (u32 \<times> inode) mkm" where
  "iappend_loop 0 off xs din = (\<lambda>s. Spin)"
| "iappend_loop (Suc k) off xs din =
     (if xs = [] then kret (off, din)
      else let fbn = unat off div BSIZE in
        kbind (kwhen (\<lambda>s. \<not> fbn < MAXFILE) (kpanic ''assert'')) (\<lambda>_.
        kbind (file_sector fbn din) (\<lambda>(x, din).
        let n1 = min (length xs) (unat (of_nat ((fbn + 1) * BSIZE) - off))
        in kbind (rsect x) (\<lambda>buf.
           kbind (wsect x (put_range (unat off - fbn * BSIZE) (take n1 xs) buf)) (\<lambda>_.
           iappend_loop k (off + of_nat n1) (drop n1 xs) din)))))"

definition iappend :: "u32 \<Rightarrow> u8 list \<Rightarrow> unit mkm" where
  "iappend inum xs =
     kbind (rinode inum) (\<lambda>din.
     kbind (iappend_loop (Suc (length xs)) (i_size din) xs din) (\<lambda>(off, din).
     winode inum (din\<lparr>i_size := off\<rparr>)))"

section \<open>The program\<close>

text \<open>
  A file argument: its name, and the pieces that the reads of the file deliver, \<open>None\<close> when it
  cannot be opened.
\<close>

type_synonym mk_file = "u8 list \<times> u8 list list option"

definition strip_underscore :: "u8 list \<Rightarrow> u8 list" where
  "strip_underscore name = (if name \<noteq> [] \<and> hd name = 95 then tl name else name)"

definition add_file :: "u32 \<Rightarrow> mk_file \<Rightarrow> unit mkm" where
  "add_file rootino f = (case f of (name, pieces) \<Rightarrow>
     kbind (kwhen (\<lambda>s. SLASH \<in> set name) (kpanic ''assert'')) (\<lambda>_.
     case pieces of None \<Rightarrow> kpanic ''open''
     | Some reads \<Rightarrow>
         kbind (mk_ialloc T_FILE) (\<lambda>inum. kseq [
           iappend rootino (make_dirent (strip_underscore name) (ucast inum)),
           kfor reads (iappend inum)])))"

definition mk_super :: superblock where
  "mk_super = \<lparr>sb_size = of_nat FSSIZE, sb_nblocks = of_nat (FSSIZE - nmeta), sb_ninodes = of_nat NINODES,
     sb_nlog = of_nat nlog, sb_logstart = 2, sb_inodestart = of_nat (2 + nlog),
     sb_bmapstart = of_nat (2 + nlog + ninodeblocks)\<rparr>"

definition encode_sb :: "superblock \<Rightarrow> u8 list \<Rightarrow> u8 list" where
  "encode_sb sb = put_words 0 [sb_size sb, sb_nblocks sb, sb_ninodes sb, sb_nlog sb, sb_logstart sb,
     sb_inodestart sb, sb_bmapstart sb]"

definition fix_root :: "u32 \<Rightarrow> unit mkm" where
  "fix_root rootino = kbind (rinode rootino) (\<lambda>din.
     winode rootino (din\<lparr>i_size := (i_size din div of_nat BSIZE + 1) * of_nat BSIZE\<rparr>))"

definition mkfs :: "mk_file list \<Rightarrow> unit mkm" where
  "mkfs files = kseq [
     kupd (\<lambda>s. s\<lparr>mk_img := Map.empty, mk_sb := mk_super, mk_freeinode := 1, mk_freeblock := of_nat nmeta\<rparr>),
     kfor [0..<FSSIZE] (\<lambda>i. wsect (of_nat i) (replicate BSIZE 0)),
     kbind (kget mk_sb) (\<lambda>sb. wsect 1 (encode_sb sb (replicate BSIZE 0))),
     kbind (mk_ialloc T_DIR) (\<lambda>rootino. kseq [
       kwhen (\<lambda>s. rootino \<noteq> ROOTINO) (kpanic ''assert''),
       iappend rootino (make_dirent [46] (ucast rootino)),
       iappend rootino (make_dirent [46, 46] (ucast rootino)),
       kfor files (add_file rootino),
       fix_root rootino]),
     kbind (kget mk_freeblock) mk_balloc]"

end
