(* ===== verification/Mkfs_File.thy ===== *)
theory Mkfs_File
  imports Mkfs File_Map Inode_Disk
begin

text \<open>
  The files that \<open>mkfs.c\<close> builds: \<open>iappend\<close> puts its bytes behind the content that the kernel's map
  of blocks gives the file, allocating exactly the blocks that the new size needs, and leaves the
  blocks of all other files alone.
\<close>

section \<open>The image\<close>

definition sec :: "mk \<Rightarrow> u32 \<Rightarrow> u8 list" where
  "sec s b = the (mk_img s b)"

text \<open>All sectors are there, and those that are not allocated are still zero.\<close>

definition img_ok :: "mk \<Rightarrow> bool" where
  "img_ok s \<longleftrightarrow> mk_sb s = mk_super \<and> (\<forall>b. unat b < FSSIZE \<longrightarrow> (\<exists>xs. mk_img s b = Some xs \<and> length xs = BSIZE)) \<and>
     nmeta \<le> unat (mk_freeblock s) \<and> unat (mk_freeblock s) \<le> FSSIZE \<and>
     (\<forall>b. unat (mk_freeblock s) \<le> unat b \<longrightarrow> unat b < FSSIZE \<longrightarrow> sec s b = replicate BSIZE 0)"

definition data_block :: "mk \<Rightarrow> u32 \<Rightarrow> bool" where
  "data_block s b \<longleftrightarrow> nmeta \<le> unat b \<and> unat b < unat (mk_freeblock s)"

definition file_in :: "mk \<Rightarrow> inode \<Rightarrow> bool" where
  "file_in s x \<longleftrightarrow> file_ok (data_block s) (sec s) x"

lemma mkfs_sizes [simp]: "nmeta = 59" "FSSIZE = 1000"
  by (simp_all add: nmeta_def nlog_def LOGSIZE_def MAXOPBLOCKS_def ninodeblocks_def nbitmap_def NINODES_def FSSIZE_def
      BSIZE_def IPB_def SIZEOF_DINODE_def)

lemma img_okD:
  assumes "img_ok s"
  shows "mk_sb s = mk_super" "unat b < 1000 \<Longrightarrow> mk_img s b = Some (sec s b)" "unat b < 1000 \<Longrightarrow> length (sec s b) = BSIZE"
    "59 \<le> unat (mk_freeblock s)" "unat (mk_freeblock s) \<le> 1000"
    "unat (mk_freeblock s) \<le> unat b \<Longrightarrow> unat b < 1000 \<Longrightarrow> sec s b = replicate BSIZE 0"
  using assms by (auto simp: img_ok_def sec_def)

lemma rsect_ok: "img_ok s \<Longrightarrow> unat b < 1000 \<Longrightarrow> rsect b s = Ret (sec s b) s"
  using img_okD(2) by (simp add: rsect_def kexec)

definition put_sec :: "u32 \<Rightarrow> u8 list \<Rightarrow> mk \<Rightarrow> mk" where
  "put_sec b bs s = s\<lparr>mk_img := (mk_img s)(b \<mapsto> bs)\<rparr>"

lemma wsect_exec: "wsect b bs s = Ret () (put_sec b bs s)"
  by (simp add: wsect_def put_sec_def kexec)

lemma put_sec_simps [simp]: "sec (put_sec b bs s) = (sec s)(b := bs)" "mk_sb (put_sec b bs s) = mk_sb s"
  "mk_freeblock (put_sec b bs s) = mk_freeblock s" "mk_freeinode (put_sec b bs s) = mk_freeinode s"
  "data_block (put_sec b bs s) = data_block s"
  by (auto simp: put_sec_def sec_def data_block_def)

lemma img_ok_put: "img_ok s \<Longrightarrow> length bs = BSIZE \<Longrightarrow> unat b < unat (mk_freeblock s) \<Longrightarrow> img_ok (put_sec b bs s)"
  by (auto simp: img_ok_def) (auto simp: put_sec_def)

text \<open>The block that \<open>freeblock++\<close> takes.\<close>

definition took :: "mk \<Rightarrow> mk" where
  "took s = s\<lparr>mk_freeblock := mk_freeblock s + 1\<rparr>"

lemma next_block_exec: "next_block s = Ret (mk_freeblock s) (took s)"
  by (simp add: next_block_def took_def kexec)

lemma took_simps [simp]: "sec (took s) = sec s" "mk_sb (took s) = mk_sb s" "mk_freeinode (took s) = mk_freeinode s"
  "mk_freeblock (took s) = mk_freeblock s + 1"
  by (auto simp: took_def sec_def)

lemma took_freeblock: "img_ok s \<Longrightarrow> unat (mk_freeblock s + 1) = unat (mk_freeblock s) + 1"
  using img_okD(5)[of s] by (simp add: unat_word_ariths)

lemma img_ok_took: "img_ok s \<Longrightarrow> unat (mk_freeblock s) < 1000 \<Longrightarrow> img_ok (took s)"
  using took_freeblock[of s] by (auto simp: img_ok_def) (simp add: took_def)

lemma data_block_took: "img_ok s \<Longrightarrow> data_block (took s) b \<longleftrightarrow> data_block s b \<or> b = mk_freeblock s"
  using took_freeblock[of s] img_okD(4)[of s] by (auto simp: data_block_def word_unat_eq_iff)

section \<open>A file that grows\<close>

text \<open>
  What an operation on file \<open>x\<close> leaves alone: the blocks allocated before that are not its own, and
  the fields of the inode other than the addresses. Its new blocks were free.
\<close>

definition extends :: "mk \<Rightarrow> inode \<Rightarrow> mk \<Rightarrow> inode \<Rightarrow> bool" where
  "extends s x t x' \<longleftrightarrow> img_ok t \<and> file_in t x' \<and> x' = x\<lparr>i_addrs := i_addrs x'\<rparr> \<and>
     unat (mk_freeblock s) \<le> unat (mk_freeblock t) \<and> mk_freeinode t = mk_freeinode s \<and>
     (\<forall>b. unat b < unat (mk_freeblock s) \<longrightarrow> b \<notin> blocks_of (sec s) x \<longrightarrow> sec t b = sec s b) \<and>
     blocks_of (sec t) x' \<subseteq> blocks_of (sec s) x \<union> {b. unat (mk_freeblock s) \<le> unat b \<and> unat b < unat (mk_freeblock t)}"

lemma extends_refl: "img_ok s \<Longrightarrow> file_in s x \<Longrightarrow> extends s x s x"
  by (simp add: extends_def)

lemma extends_trans:
  assumes a: "extends s x t y" and b: "extends t y u z"
  shows "extends s x u z"
proof -
  have y: "y = x\<lparr>i_addrs := i_addrs y\<rparr>" and z: "z = y\<lparr>i_addrs := i_addrs z\<rparr>" using a b by (simp_all only: extends_def)
  have "z = x\<lparr>i_addrs := i_addrs z\<rparr>" by (subst z, subst y) simp
  moreover have "sec u b = sec s b" if "unat b < unat (mk_freeblock s)" "b \<notin> blocks_of (sec s) x" for b
  proof -
    have "b \<notin> blocks_of (sec t) y" using a that by (auto simp: extends_def)
    then show ?thesis using a b that by (simp add: extends_def)
  qed
  moreover have "blocks_of (sec u) z \<subseteq> blocks_of (sec s) x \<union> {b. unat (mk_freeblock s) \<le> unat b \<and> unat b < unat (mk_freeblock u)}"
    using a b unfolding extends_def by fastforce
  ultimately show ?thesis using a b unfolding extends_def by auto
qed

text \<open>Entry \<open>k\<close> of the file has a block now; nothing else changed.\<close>

definition gets :: "mk \<Rightarrow> inode \<Rightarrow> nat \<Rightarrow> mk \<Rightarrow> inode \<Rightarrow> bool" where
  "gets s x k t x' \<longleftrightarrow> extends s x t x' \<and> owned (sec t) x' k \<noteq> 0 \<and>
     (\<forall>j \<le> MAXFILE. j \<noteq> k \<longrightarrow> owned (sec t) x' j = owned (sec s) x j) \<and>
     (\<forall>i < MAXFILE * BSIZE. file_byte (sec t) x' i = file_byte (sec s) x i) \<and>
     unat (mk_freeblock t) = unat (mk_freeblock s) + (if owned (sec s) x k = 0 then 1 else 0)"

lemma gets_owned: "img_ok s \<Longrightarrow> file_in s x \<Longrightarrow> owned (sec s) x k \<noteq> 0 \<Longrightarrow> gets s x k s x"
  by (simp add: gets_def extends_refl)


text \<open>The new block is no block of any file.\<close>

lemma freeblock_new:
  assumes "img_ok s" "file_in s x" "unat (mk_freeblock s) < 1000"
  shows "mk_freeblock s \<noteq> 0" "mk_freeblock s \<notin> blocks_of (sec s) x" "sec s (mk_freeblock s) = replicate BSIZE 0"
proof -
  show "mk_freeblock s \<noteq> 0" using img_okD(4)[OF assms(1)] by auto
  show "mk_freeblock s \<notin> blocks_of (sec s) x"
    using assms(2) by (auto elim!: blocks_ofE dest!: file_okD(2) simp: file_in_def data_block_def)
  show "sec s (mk_freeblock s) = replicate BSIZE 0" using img_okD(6)[OF assms(1)] assms(3) by simp
qed

lemma file_in_block: "img_ok s \<Longrightarrow> file_in s x \<Longrightarrow> b \<in> blocks_of (sec s) x \<Longrightarrow>
    unat b < unat (mk_freeblock s) \<and> unat b < 1000 \<and> b \<noteq> 0"
  using img_okD(5)[of s] by (auto elim!: blocks_ofE dest!: file_okD(2) simp: file_in_def data_block_def)

lemma gets_grows:
  assumes s: "img_ok s" "file_in s x" "unat (mk_freeblock s) < 1000"
    and g: "grows (sec s) x (sec t) x' k (mk_freeblock s)"
    and t: "img_ok t" "mk_freeblock t = mk_freeblock s + 1" "mk_freeinode t = mk_freeinode s" "x' = x\<lparr>i_addrs := i_addrs x'\<rparr>"
    and same: "\<And>b. unat b < unat (mk_freeblock s) \<Longrightarrow> b \<notin> blocks_of (sec s) x \<Longrightarrow> sec t b = sec s b"
  shows "gets s x k t x'"
proof -
  have fb: "unat (mk_freeblock t) = unat (mk_freeblock s) + 1" using took_freeblock[OF s(1)] t(2) by simp
  have ok: "file_ok (data_block t) (sec s) x"
    by (rule file_ok_mono[OF s(2)[unfolded file_in_def]]) (use fb in \<open>auto simp: data_block_def\<close>)
  have a: "data_block t (mk_freeblock s)" using img_okD(4)[OF s(1)] fb by (simp add: data_block_def)
  note G = grows_ok[OF g ok a]
  have k: "k \<le> MAXFILE" "owned (sec s) x k = 0" and o: "\<And>j. j \<le> MAXFILE \<Longrightarrow> owned (sec t) x' j = ((owned (sec s) x)(k := mk_freeblock s)) j"
    using g by (auto simp: grows_def)
  have "extends s x t x'" unfolding extends_def file_in_def using G(1,3) t fb same by auto
  then show ?thesis using G(2) k o[OF k(1)] o fb freeblock_new(1)[OF s] by (simp add: gets_def)
qed

text \<open>Addresses of the inode.\<close>

lemma own_addr_ok:
  assumes s: "img_ok s" "file_in s x" and k: "k \<le> NDIRECT" and free: "i_addrs x ! k = 0 \<Longrightarrow> unat (mk_freeblock s) < 1000"
  shows "\<exists>t x'. own_addr k x s = Ret x' t \<and> gets s x (if k < NDIRECT then k else MAXFILE) t x'"
proof (cases "i_addrs x ! k = 0")
  case False
  then have "owned (sec s) x (if k < NDIRECT then k else MAXFILE) \<noteq> 0" using k by (auto simp: owned_simps(2,3))
  then show ?thesis using False gets_owned[OF s] by (auto simp: own_addr_def kexec)
next
  case True
  let ?x' = "x\<lparr>i_addrs := (i_addrs x)[k := mk_freeblock s]\<rparr>" and ?k = "if k < NDIRECT then k else MAXFILE"
  note F = s(2)[unfolded file_in_def]
  note n = freeblock_new[OF s free[OF True]]
  have g: "grows (sec s) x (sec (took s)) ?x' ?k (mk_freeblock s)"
    by (rule grows_addr[OF file_okD(1)[OF F] k True n(1,2)]) (use n file_okD(3)[OF F] in auto)
  have "gets s x ?k (took s) ?x'"
    by (rule gets_grows[OF s free[OF True] g img_ok_took[OF s(1) free[OF True]]]) auto
  moreover have "own_addr k x s = Ret ?x' (took s)" using True by (simp add: own_addr_def kbind_def next_block_exec kret_def)
  ultimately show ?thesis by blast
qed

text \<open>Entries of the indirect block.\<close>

lemma entry_ok:
  assumes s: "img_ok s" "file_in s x" and k: "NDIRECT \<le> k" "k < MAXFILE" "owned (sec s) x k = 0"
    and ind: "owned (sec s) x MAXFILE \<noteq> 0" and free: "unat (mk_freeblock s) < 1000"
  defines "t \<equiv> put_sec (i_addrs x ! NDIRECT) (put32 (4 * (k - NDIRECT)) (mk_freeblock s) (sec s (i_addrs x ! NDIRECT))) (took s)"
  shows "gets s x k t x"
proof -
  let ?ind = "i_addrs x ! NDIRECT"
  note F = s(2)[unfolded file_in_def]
  note n = freeblock_new[OF s free]
  have i: "?ind \<noteq> 0" "?ind \<in> blocks_of (sec s) x" using ind owned_block[OF le_refl ind] by (simp_all add: owned_simps(2))
  have len: "length (sec s ?ind) = BSIZE" using file_okD(3)[OF F le_refl ind] by (simp add: owned_simps(2))
  have inj: "owned (sec s) x j \<noteq> ?ind" if "j < MAXFILE" for j
    using file_okD(4)[OF F, of j MAXFILE] that ind by (auto simp: owned_simps(2))
  have g: "grows (sec s) x (sec t) x k (mk_freeblock s)"
  proof (rule grows_entry[OF refl i(1) k(1,2)])
    show "file_block (sec s) x k = 0" using k by (simp add: owned_simps(1))
  qed (use n i(2) len inj in \<open>auto simp: t_def\<close>)
  have "img_ok t" unfolding t_def
    using img_ok_put[OF img_ok_took[OF s(1) free]] file_in_block[OF s i(2)] took_freeblock[OF s(1)] len by simp
  then show ?thesis by (rule gets_grows[OF s free g]) (use i(2) in \<open>auto simp: t_def\<close>)
qed

text \<open>The blocks that are allocated for block \<open>k\<close> of the file.\<close>

definition wanting :: "(u32 \<Rightarrow> u8 list) \<Rightarrow> inode \<Rightarrow> nat \<Rightarrow> nat" where
  "wanting C x k = (if owned C x k = 0 then 1 else 0) + (if NDIRECT \<le> k \<and> owned C x MAXFILE = 0 then 1 else 0)"

definition gets_sector :: "mk \<Rightarrow> inode \<Rightarrow> nat \<Rightarrow> mk \<Rightarrow> inode \<Rightarrow> bool" where
  "gets_sector s x k t x' \<longleftrightarrow> extends s x t x' \<and> owned (sec t) x' k \<noteq> 0 \<and>
     (NDIRECT \<le> k \<longrightarrow> owned (sec t) x' MAXFILE \<noteq> 0) \<and>
     (\<forall>j \<le> MAXFILE. j \<noteq> k \<longrightarrow> (j = MAXFILE \<longrightarrow> k < NDIRECT) \<longrightarrow> owned (sec t) x' j = owned (sec s) x j) \<and>
     (\<forall>i < MAXFILE * BSIZE. file_byte (sec t) x' i = file_byte (sec s) x i) \<and>
     unat (mk_freeblock t) = unat (mk_freeblock s) + wanting (sec s) x k"

lemma file_sector_ok:
  assumes s: "img_ok s" "file_in s x" and k: "k < MAXFILE" and free: "unat (mk_freeblock s) + wanting (sec s) x k \<le> 1000"
  shows "\<exists>t x'. file_sector k x s = Ret (owned (sec t) x' k, x') t \<and> gets_sector s x k t x'"
proof (cases "k < NDIRECT")
  case True
  then have "i_addrs x ! k = 0 \<Longrightarrow> unat (mk_freeblock s) < 1000" using free by (simp add: wanting_def owned_simps(3))
  from own_addr_ok[OF s less_imp_le[OF True] this] obtain t x' where
    t: "own_addr k x s = Ret x' t" "gets s x k t x'" using True by auto
  have "file_sector k x s = Ret (owned (sec t) x' k, x') t" using t(1) True by (simp add: file_sector_def kexec owned_simps(3))
  moreover have "gets_sector s x k t x'" using t(2) True by (simp add: gets_sector_def gets_def wanting_def)
  ultimately show ?thesis by blast
next
  case False
  then have k2: "NDIRECT \<le> k" "k \<noteq> MAXFILE" using k by auto
  have z: "owned (sec s) x k = 0" if "i_addrs x ! NDIRECT = 0" using that k2(1) k by (simp add: owned_simps(1) file_block_def)
  have "i_addrs x ! NDIRECT = 0 \<Longrightarrow> unat (mk_freeblock s) < 1000" using free k2 z by (simp add: wanting_def owned_simps(2))
  from own_addr_ok[OF s le_refl this] obtain t y where
    t: "own_addr NDIRECT x s = Ret y t" "gets s x MAXFILE t y" by auto
  have T: "img_ok t" "file_in t y" "owned (sec t) y MAXFILE \<noteq> 0" "owned (sec t) y k = owned (sec s) x k"
    using t(2) k k2 by (auto simp: gets_def extends_def)
  let ?ind = "i_addrs y ! NDIRECT" and ?j = "4 * (k - NDIRECT)"
  have i: "?ind \<noteq> 0" "unat ?ind < 1000"
    using T(3) file_in_block[OF T(1,2) owned_block[OF le_refl T(3)]] by (simp_all add: owned_simps(2))
  have g: "get32 (sec t ?ind) ?j = owned (sec t) y k" using k2 k i(1) by (simp add: owned_simps(1) file_block_def)
  note rs = rsect_ok[OF T(1) i(2)]
  show ?thesis
  proof (cases "owned (sec t) y k = 0")
    case True
    have "unat (mk_freeblock t) < 1000" using t(2) free True T(4) k2 by (auto simp: gets_def wanting_def)
    from entry_ok[OF T(1,2) k2(1) k True T(3) this] obtain u where
      u: "u = put_sec ?ind (put32 ?j (mk_freeblock t) (sec t ?ind)) (took t)" "gets t y k u y" by blast
    have g2: "get32 (sec u ?ind) ?j = mk_freeblock t"
      using k2 k img_okD(3)[OF T(1) i(2)] by (simp add: u(1)) (subst get_put32; simp add: MAXFILE_def NINDIRECT_def BSIZE_def NDIRECT_def)
    then have "owned (sec u) y k = mk_freeblock t" using k k2 i(1) by (simp add: owned_simps(1) file_block_def)
    then have "file_sector k x s = Ret (owned (sec u) y k, y) u"
      using False t(1) rs g True by (simp add: file_sector_def kbind_def Let_def next_block_exec wsect_exec kret_def u(1))
    moreover have "gets_sector s x k u y"
      using t(2) u(2) k2 T(4) extends_trans[of s x t y u y] by (auto simp: gets_sector_def gets_def wanting_def)
    ultimately show ?thesis by blast
  next
    case f: False
    have "file_sector k x s = Ret (owned (sec t) y k, y) t"
      using False t(1) rs g f by (simp add: file_sector_def kbind_def Let_def kret_def)
    moreover have "gets_sector s x k t y" using t(2) f k2 T(3,4) by (auto simp: gets_sector_def gets_def wanting_def)
    ultimately show ?thesis by blast
  qed
qed

section \<open>\<open>iappend\<close>\<close>

text \<open>The file has exactly the blocks that \<open>n\<close> bytes need, and their number with the indirect block.\<close>

definition exact :: "(u32 \<Rightarrow> u8 list) \<Rightarrow> inode \<Rightarrow> nat \<Rightarrow> bool" where
  "exact C x n \<longleftrightarrow> (\<forall>k < MAXFILE. owned C x k \<noteq> 0 \<longleftrightarrow> k * BSIZE < n) \<and> (owned C x MAXFILE \<noteq> 0 \<longleftrightarrow> NDIRECT * BSIZE < n)"

definition blocks_for :: "nat \<Rightarrow> nat" where
  "blocks_for n = (n + BSIZE - 1) div BSIZE + (if NDIRECT * BSIZE < n then 1 else 0)"

text \<open>A round of the loop adds at most the rest of a block.\<close>

lemma round_blocks:
  assumes "1 \<le> m" "n mod BSIZE + m \<le> BSIZE"
  shows "(n + m + BSIZE - 1) div BSIZE = n div BSIZE + 1"
    "(n + BSIZE - 1) div BSIZE = n div BSIZE + (if n mod BSIZE = 0 then 0 else 1)"
    "k * BSIZE < n + m \<longleftrightarrow> k \<le> n div BSIZE" "k * BSIZE < n \<longleftrightarrow> k < n div BSIZE \<or> k = n div BSIZE \<and> n mod BSIZE \<noteq> 0"
proof -
  obtain q r where q: "n div BSIZE = q" "n mod BSIZE = r" "n = q * 512 + r" "r < 512"
    by (metis BSIZE_def div_mult_mod_eq mod_less_divisor zero_less_numeral)
  have m: "r + m \<le> 512" using assms(2) q by (simp add: BSIZE_def)
  show "(n + m + BSIZE - 1) div BSIZE = n div BSIZE + 1" using q m assms(1) by (simp add: BSIZE_def)
  show "(n + BSIZE - 1) div BSIZE = n div BSIZE + (if n mod BSIZE = 0 then 0 else 1)" unfolding q(1,2) using q(3,4) by (auto simp: BSIZE_def)
  show "k * BSIZE < n + m \<longleftrightarrow> k \<le> n div BSIZE" unfolding q(1) using q(3,4) m assms(1) by (auto simp: BSIZE_def)
  show "k * BSIZE < n \<longleftrightarrow> k < n div BSIZE \<or> k = n div BSIZE \<and> n mod BSIZE \<noteq> 0"
    unfolding q(1,2) using q(3,4) by (auto simp: BSIZE_def)
qed

lemma wanting_exact:
  assumes e: "exact C x n" and m: "1 \<le> m" "n mod BSIZE + m \<le> BSIZE" and k: "n div BSIZE < MAXFILE"
  shows "blocks_for (n + m) = blocks_for n + wanting C x (n div BSIZE)"
proof -
  note r = round_blocks[OF m]
  have o: "owned C x (n div BSIZE) = 0 \<longleftrightarrow> n mod BSIZE = 0" "owned C x MAXFILE = 0 \<longleftrightarrow> \<not> NDIRECT * BSIZE < n"
    using e k r(4)[of "n div BSIZE"] by (auto simp: exact_def)
  show ?thesis unfolding blocks_for_def wanting_def o r by auto
qed

lemma exact_gets:
  assumes e: "exact (sec s) x n" and g: "gets_sector s x (n div BSIZE) t x'" and m: "1 \<le> m" "n mod BSIZE + m \<le> BSIZE"
    and k: "n div BSIZE < MAXFILE"
  shows "exact (sec t) x' (n + m)"
proof -
  note r = round_blocks[OF m]
  have "owned (sec t) x' j \<noteq> 0 \<longleftrightarrow> j \<le> n div BSIZE" if "j < MAXFILE" for j
    using g e that k r(4)[of j] by (cases "j = n div BSIZE") (auto simp: gets_sector_def exact_def)
  moreover have "owned (sec t) x' MAXFILE \<noteq> 0 \<longleftrightarrow> NDIRECT \<le> n div BSIZE"
    using g e less_imp_neq[OF k] r(4)[of NDIRECT] by (cases "NDIRECT \<le> n div BSIZE") (auto simp: gets_sector_def exact_def)
  ultimately show ?thesis by (simp add: exact_def r(3))
qed

text \<open>The write of a sector of the file.\<close>

lemma sector_written:
  assumes s: "img_ok s" "file_in s x" and k: "k < MAXFILE" "owned (sec s) x k \<noteq> 0" and l: "length bs = BSIZE"
  defines "t \<equiv> put_sec (owned (sec s) x k) bs s"
  shows "extends s x t x" "owned (sec t) x j = owned (sec s) x j"
    "i < MAXFILE * BSIZE \<Longrightarrow> file_byte (sec t) x i = (if i div BSIZE = k then bs ! (i mod BSIZE) else file_byte (sec s) x i)"
proof -
  have b: "owned (sec s) x k = file_block (sec s) x k" using k by (simp add: owned_simps(1))
  note W = write_block[OF s(2)[unfolded file_in_def] k(1) k(2)[unfolded b] l, folded b]
  have ob: "owned (sec s) x k \<in> blocks_of (sec s) x" using owned_block[of k] k by simp
  have o: "owned (sec t) x = owned (sec s) x" using W(1) by (intro ext) (simp add: t_def)
  have B: "blocks_of (sec t) x = blocks_of (sec s) x" by (simp add: blocks_of_def o)
  have "img_ok t" unfolding t_def using img_ok_put[OF s(1) l] file_in_block[OF s ob] by blast
  moreover have "file_in t x" using W(2) by (simp add: t_def file_in_def)
  ultimately show "extends s x t x" using ob B by (auto simp: extends_def) (auto simp: t_def)
  show "owned (sec t) x j = owned (sec s) x j" by (simp add: o)
  show "i < MAXFILE * BSIZE \<Longrightarrow> file_byte (sec t) x i = (if i div BSIZE = k then bs ! (i mod BSIZE) else file_byte (sec s) x i)"
    using W(3) by (simp add: t_def)
qed

definition appended :: "mk \<Rightarrow> inode \<Rightarrow> nat \<Rightarrow> u8 list \<Rightarrow> mk \<Rightarrow> inode \<Rightarrow> bool" where
  "appended s x n xs t x' \<longleftrightarrow> extends s x t x' \<and> exact (sec t) x' (n + length xs) \<and>
     unat (mk_freeblock t) + blocks_for n = unat (mk_freeblock s) + blocks_for (n + length xs) \<and>
     (\<forall>i < MAXFILE * BSIZE. file_byte (sec t) x' i = (if n \<le> i \<and> i < n + length xs then xs ! (i - n) else file_byte (sec s) x i))"

lemma appended_trans: "appended s x n xs t y \<Longrightarrow> appended t y (n + length xs) ys u z \<Longrightarrow> appended s x n (xs @ ys) u z"
  using extends_trans[of s x t y u z] by (auto simp: appended_def nth_append add.assoc)

text \<open>One round of the loop.\<close>

lemma append_round:
  assumes s: "img_ok s" "file_in s x" and e: "exact (sec s) x n" and m: "xs \<noteq> []" "n mod BSIZE + length xs \<le> BSIZE"
    and k: "n div BSIZE < MAXFILE" and free: "unat (mk_freeblock s) + blocks_for (n + length xs) \<le> 1000 + blocks_for n"
  shows "\<exists>b t u x'. file_sector (n div BSIZE) x s = Ret (b, x') t \<and> rsect b t = Ret (sec t b) t \<and>
    wsect b (put_range (n mod BSIZE) xs (sec t b)) t = Ret () u \<and> appended s x n xs u x'"
proof -
  let ?k = "n div BSIZE"
  have m1: "1 \<le> length xs" using m(1) by (cases xs) auto
  have w: "blocks_for (n + length xs) = blocks_for n + wanting (sec s) x ?k" by (rule wanting_exact[OF e m1 m(2) k])
  from file_sector_ok[OF s k] free w obtain t x' where
    t: "file_sector ?k x s = Ret (owned (sec t) x' ?k, x') t" "gets_sector s x ?k t x'" by auto
  have T: "img_ok t" "file_in t x'" "owned (sec t) x' ?k \<noteq> 0" using t(2) by (auto simp: gets_sector_def extends_def)
  let ?b = "owned (sec t) x' ?k"
  have b: "unat ?b < 1000" using file_in_block[OF T(1,2) owned_block[OF less_imp_le[OF k] T(3)]] by simp
  have l: "length (put_range (n mod BSIZE) xs (sec t ?b)) = BSIZE" using m(2) img_okD(3)[OF T(1) b] by simp
  note W = sector_written[OF T(1,2) k T(3) l]
  let ?u = "put_sec ?b (put_range (n mod BSIZE) xs (sec t ?b)) t"
  have byte: "file_byte (sec ?u) x' i = (if n \<le> i \<and> i < n + length xs then xs ! (i - n) else file_byte (sec s) x i)" if iM: "i < MAXFILE * BSIZE" for i
  proof -
    have ts: "file_byte (sec t) x' i = file_byte (sec s) x i" using t(2) iM by (simp add: gets_sector_def)
    show ?thesis
    proof (cases "i div BSIZE = ?k")
      case False
      have "i div BSIZE \<le> ?k" if "i < n + length xs"
        using round_blocks(3)[OF m1 m(2), of "i div BSIZE"] that div_mult_mod_eq[of i BSIZE] by linarith
      moreover have "?k \<le> i div BSIZE" if "n \<le> i" using that by (rule div_le_mono)
      ultimately have "\<not> (n \<le> i \<and> i < n + length xs)" using False by auto
      then show ?thesis using False W(3)[OF iM] ts by auto
    next
      case True
      have eq: "i + n mod BSIZE = n + i mod BSIZE" using div_mult_mod_eq[of i BSIZE, unfolded True] div_mult_mod_eq[of n BSIZE] by linarith
      have sb: "file_byte (sec t) x' i = sec t ?b ! (i mod BSIZE)" using True T(3) k by (simp add: file_byte_def owned_simps(1))
      have "i mod BSIZE < BSIZE" by (simp add: BSIZE_def)
      then show ?thesis
        using True W(3)[OF iM] ts sb eq m(2) img_okD(3)[OF T(1) b] by (auto simp: nth_put_range intro!: arg_cong[of _ _ "(!) xs"])
    qed
  qed
  have "extends s x ?u x'" using t(2) W(1) by (auto simp: gets_sector_def intro: extends_trans)
  moreover have "exact (sec ?u) x' (n + length xs)" using exact_gets[OF e t(2) m1 m(2) k] W(2) by (simp add: exact_def)
  moreover have "unat (mk_freeblock ?u) + blocks_for n = unat (mk_freeblock s) + blocks_for (n + length xs)"
    using t(2) w by (simp add: gets_sector_def)
  ultimately have "appended s x n xs ?u x'" using byte by (simp add: appended_def)
  then show ?thesis using t(1) rsect_ok[OF T(1) b] wsect_exec by blast
qed

text \<open>The number of bytes of a round.\<close>

lemma round_length:
  assumes "unat off + length xs \<le> MAXFILE * BSIZE" "xs \<noteq> []"
  defines "m \<equiv> min (length xs) (unat (of_nat ((unat off div BSIZE + 1) * BSIZE) - off :: u32))"
  shows "m = min (length xs) (BSIZE - unat off mod BSIZE)" "unat off div BSIZE < MAXFILE"
    "unat (off + of_nat m) = unat off + m" "1 \<le> m" "unat off mod BSIZE + m \<le> BSIZE"
    "unat off - unat off div BSIZE * BSIZE = unat off mod BSIZE" "off + of_nat m + of_nat (length xs - m) = off + of_nat (length xs)"
proof -
  have M: "MAXFILE * BSIZE = 71680" by (simp add: MAXFILE_def NINDIRECT_def NDIRECT_def BSIZE_def)
  let ?q = "unat off div BSIZE" and ?r = "unat off mod BSIZE"
  have q: "?q * BSIZE + ?r = unat off" "?r < BSIZE" by (simp_all add: BSIZE_def)
  have lt: "unat off < 71680" using assms(1,2) M by (cases xs) auto
  then show "?q < MAXFILE" using M by (simp add: div_less_iff_less_mult BSIZE_def MAXFILE_def NINDIRECT_def NDIRECT_def)
  have e: "unat (of_nat ((?q + 1) * BSIZE) :: u32) = (?q + 1) * BSIZE" using q lt by (subst unat_of_nat, intro mod_less) (simp add: BSIZE_def)
  have "unat off \<le> (?q + 1) * BSIZE" using q by (simp only: distrib_right)
  then have "unat (of_nat ((?q + 1) * BSIZE) - off) = (?q + 1) * BSIZE - unat off" by (subst unat_sub) (simp_all only: word_le_nat_alt e)
  also have "\<dots> = BSIZE - ?r" using q by (simp only: distrib_right)
  finally show m: "m = min (length xs) (BSIZE - ?r)" by (simp only: m_def)
  show "unat off - ?q * BSIZE = ?r" using q by linarith
  show "1 \<le> m" using m q(2) assms(2) by (simp add: Suc_le_eq)
  show "?r + m \<le> BSIZE" using m q(2) by simp
  have "unat (of_nat m :: u32) = m" using m by (subst unat_of_nat, intro mod_less) (simp add: BSIZE_def)
  moreover have "m \<le> 512" using m by (simp add: BSIZE_def)
  ultimately show "unat (off + of_nat m) = unat off + m" using lt by (simp add: unat_word_ariths)
  show "off + of_nat m + of_nat (length xs - m) = off + of_nat (length xs)" using m by (simp add: of_nat_diff)
qed

lemma blocks_for_mono: "m \<le> n \<Longrightarrow> blocks_for m \<le> blocks_for n"
  unfolding blocks_for_def by (intro add_mono div_le_mono) auto

lemma iappend_loop_ok:
  assumes "img_ok s" "file_in s x" "exact (sec s) x (unat off)" "unat off + length xs \<le> MAXFILE * BSIZE"
    and "unat (mk_freeblock s) + blocks_for (unat off + length xs) \<le> 1000 + blocks_for (unat off)" "length xs < k"
  shows "\<exists>t x'. iappend_loop k off xs x s = Ret (off + of_nat (length xs), x') t \<and> appended s x (unat off) xs t x'"
  using assms
proof (induction k arbitrary: off xs x s)
  case (Suc k)
  show ?case
  proof (cases "xs = []")
    case True
    then show ?thesis using Suc.prems by (auto simp: kret_def appended_def extends_refl)
  next
    case False
    define m where "m = min (length xs) (unat (of_nat ((unat off div BSIZE + 1) * BSIZE) - off :: u32))"
    note R = round_length[OF Suc.prems(4) False, folded m_def]
    have l: "length (take m xs) = m" using R(1) by simp
    have ne: "take m xs \<noteq> []" using R(4) False by auto
    have "blocks_for (unat off + m) \<le> blocks_for (unat off + length xs)" using R(1) by (intro blocks_for_mono) simp
    with append_round[OF Suc.prems(1,2,3) ne _ R(2)] R(5) l Suc.prems(5) obtain b t u y where
      t: "file_sector (unat off div BSIZE) x s = Ret (b, y) t" "rsect b t = Ret (sec t b) t"
        "wsect b (put_range (unat off mod BSIZE) (take m xs) (sec t b)) t = Ret () u" "appended s x (unat off) (take m xs) u y"
      by auto
    have A: "img_ok u" "file_in u y" "exact (sec u) y (unat (off + of_nat m))"
      "unat (mk_freeblock u) + blocks_for (unat off) = unat (mk_freeblock s) + blocks_for (unat (off + of_nat m))"
      using t(4) l R(3) by (auto simp: appended_def extends_def)
    have "\<exists>v z. iappend_loop k (off + of_nat m) (drop m xs) y u = Ret (off + of_nat m + of_nat (length (drop m xs)), z) v \<and>
        appended u y (unat (off + of_nat m)) (drop m xs) v z"
    proof (rule Suc.IH[OF A(1,2,3)])
      have s: "unat (off + of_nat m) + length (drop m xs) = unat off + length xs" using R(1,3) by simp
      show "unat (off + of_nat m) + length (drop m xs) \<le> MAXFILE * BSIZE" unfolding s by (rule Suc.prems(4))
      show "unat (mk_freeblock u) + blocks_for (unat (off + of_nat m) + length (drop m xs)) \<le> 1000 + blocks_for (unat (off + of_nat m))"
        unfolding s using A(4) Suc.prems(5) by linarith
      show "length (drop m xs) < k" using R(4) Suc.prems(6) False by (cases xs) auto
    qed
    then obtain v z where
      v: "iappend_loop k (off + of_nat m) (drop m xs) y u = Ret (off + of_nat (length xs), z) v"
        "appended u y (unat off + length (take m xs)) (drop m xs) v z" using R(3,7) l by auto
    have "iappend_loop (Suc k) off xs x s = Ret (off + of_nat (length xs), z) v"
      unfolding iappend_loop.simps Let_def m_def[symmetric] R(6) using False R(2) t v(1) by (simp add: kbind_def kwhen_def)
    then show ?thesis using appended_trans[OF t(4) v(2)] by auto
  qed
qed simp

end
