(* ===== verification/Mkfs_Correct.thy ===== *)
theory Mkfs_Correct
  imports Mkfs_File
begin

text \<open>
  The image that \<open>mkfs.c\<close> makes, seen with the kernel's layout of inodes and maps of blocks: the
  invariant of the program, what \<open>iappend\<close> does to the files, and the files at the end.
\<close>

section \<open>The inodes of the image\<close>

definition inode_of :: "mk \<Rightarrow> u32 \<Rightarrow> inode" where
  "inode_of s n = decode_dinode (dinode_at n) (sec s (IBLOCK n mk_super)) no_inode"

definition content_of :: "mk \<Rightarrow> u32 \<Rightarrow> u8 list" where
  "content_of s n = file_content (sec s) (inode_of s n)"

text \<open>An inode as the disk has it.\<close>

definition bare :: "inode \<Rightarrow> bool" where
  "bare x \<longleftrightarrow> x = no_inode\<lparr>i_type := i_type x, i_major := i_major x, i_minor := i_minor x, i_nlink := i_nlink x,
     i_size := i_size x, i_addrs := i_addrs x\<rparr>"

lemma bare_simps [simp]: "bare no_inode" "bare (x\<lparr>i_size := v\<rparr>) = bare x" "bare (x\<lparr>i_addrs := a\<rparr>) = bare x" "bare (x\<lparr>i_type := c\<rparr>) = bare x"
  "bare (x\<lparr>i_nlink := c\<rparr>) = bare x" "bare (inode_of s n)"
  by (cases x; auto simp: bare_def no_inode_def inode_of_def decode_dinode_def)+

lemma IBLOCK_range:
  assumes "unat n < 200"
  shows "unat (IBLOCK n mk_super) = 32 + unat n div 8" "32 \<le> unat (IBLOCK n mk_super)" "unat (IBLOCK n mk_super) < 57"
proof -
  have "unat (n div 8) = unat n div 8" by (simp add: unat_div)
  then show "unat (IBLOCK n mk_super) = 32 + unat n div 8"
    using assms by (simp add: IBLOCK_def mk_super_def IPB_def BSIZE_def SIZEOF_DINODE_def nlog_def LOGSIZE_def MAXOPBLOCKS_def unat_word_ariths)
  then show "32 \<le> unat (IBLOCK n mk_super)" "unat (IBLOCK n mk_super) < 57" using assms by auto
qed

lemma same_slot: "unat m < 200 \<Longrightarrow> unat n < 200 \<Longrightarrow> IBLOCK m mk_super = IBLOCK n mk_super \<Longrightarrow> dinode_at m = dinode_at n \<Longrightarrow> m = n"
  using IBLOCK_range(1)[of m] IBLOCK_range(1)[of n] same_bit[of "unat m" "unat n"] by (simp add: dinode_at_slot word_unat_eq_iff)

text \<open>The state after \<open>winode\<close>.\<close>

definition stored :: "u32 \<Rightarrow> inode \<Rightarrow> mk \<Rightarrow> mk" where
  "stored n x s = put_sec (IBLOCK n mk_super) (encode_dinode (dinode_at n) x (sec s (IBLOCK n mk_super))) s"

lemma rinode_exec: "img_ok s \<Longrightarrow> unat n < 200 \<Longrightarrow> rinode n s = Ret (inode_of s n) s"
  using IBLOCK_range(3)[of n] by (simp add: rinode_def inode_of_def kbind_def kget_def kret_def img_okD(1) rsect_ok)

lemma winode_exec: "img_ok s \<Longrightarrow> unat n < 200 \<Longrightarrow> winode n x s = Ret () (stored n x s)"
  using IBLOCK_range(3)[of n] by (simp add: winode_def stored_def kbind_def kget_def img_okD(1) rsect_ok wsect_exec)

lemma length_encode [simp]: "length (encode_dinode i x bs) = length bs"
  by (simp add: encode_dinode_def)

lemma stored_simps [simp]: "mk_freeblock (stored n x s) = mk_freeblock s" "mk_freeinode (stored n x s) = mk_freeinode s"
  "data_block (stored n x s) = data_block s" "b \<noteq> IBLOCK n mk_super \<Longrightarrow> sec (stored n x s) b = sec s b"
  by (simp_all add: stored_def)

lemma stored_ok:
  assumes s: "img_ok s" and n: "unat n < 200"
  shows "img_ok (stored n x s)" "unat m < 200 \<Longrightarrow> length (i_addrs x) = Suc NDIRECT \<Longrightarrow> bare x \<Longrightarrow> inode_of (stored n x s) m = (if m = n then x else inode_of s m)"
proof -
  have r: "unat (IBLOCK n mk_super) < 57" using IBLOCK_range[OF n] by simp
  have l: "length (sec s (IBLOCK n mk_super)) = BSIZE" using img_okD(3)[OF s] r by simp
  show "img_ok (stored n x s)" unfolding stored_def using img_ok_put[OF s] l img_okD(4)[OF s] r by simp
  assume m: "unat m < 200" and a: "length (i_addrs x) = Suc NDIRECT" and b: "bare x"
  show "inode_of (stored n x s) m = (if m = n then x else inode_of s m)"
  proof (cases "m = n")
    case True
    have "decode_dinode (dinode_at n) (encode_dinode (dinode_at n) x (sec s (IBLOCK n mk_super))) no_inode = x"
      using decode_encode_same[OF dinode_fits[OF l], of x n no_inode] a b[unfolded bare_def, symmetric] by simp
    then show ?thesis using True by (simp add: inode_of_def stored_def)
  next
    case False
    show ?thesis
    proof (cases "IBLOCK m mk_super = IBLOCK n mk_super")
      case True
      then have "dinode_at m \<noteq> dinode_at n" using same_slot[OF m n] False by blast
      then show ?thesis using True False l a by (simp add: inode_of_def stored_def decode_encode_other)
    next
      case ne: False
      then show ?thesis using False by (simp add: inode_of_def)
    qed
  qed
qed

section \<open>The invariant\<close>

text \<open>
  Every inode that is allocated has exactly the blocks of its size, all of them allocated, with zeros
  behind the end of the file, and no two inodes have a block in common.
\<close>

definition live_inodes :: "mk \<Rightarrow> u32 set" where
  "live_inodes s = {n. 1 \<le> unat n \<and> unat n < unat (mk_freeinode s)}"

definition sound :: "mk \<Rightarrow> inode \<Rightarrow> bool" where
  "sound s x \<longleftrightarrow> file_in s x \<and> exact (sec s) x (unat (i_size x)) \<and> unat (i_size x) \<le> MAXFILE * BSIZE \<and>
     (\<forall>i < MAXFILE * BSIZE. unat (i_size x) \<le> i \<longrightarrow> file_byte (sec s) x i = 0)"

definition mk_inv :: "mk \<Rightarrow> bool" where
  "mk_inv s \<longleftrightarrow> img_ok s \<and> 1 \<le> unat (mk_freeinode s) \<and> unat (mk_freeinode s) \<le> 200 \<and>
     (\<forall>n \<in> live_inodes s. sound s (inode_of s n)) \<and>
     (\<forall>m \<in> live_inodes s. \<forall>n \<in> live_inodes s. m \<noteq> n \<longrightarrow> blocks_of (sec s) (inode_of s m) \<inter> blocks_of (sec s) (inode_of s n) = {})"

lemma mk_invD:
  assumes "mk_inv s"
  shows "img_ok s" "unat (mk_freeinode s) \<le> 200" "1 \<le> unat (mk_freeinode s)" "n \<in> live_inodes s \<Longrightarrow> sound s (inode_of s n)"
    "m \<in> live_inodes s \<Longrightarrow> n \<in> live_inodes s \<Longrightarrow> m \<noteq> n \<Longrightarrow> blocks_of (sec s) (inode_of s m) \<inter> blocks_of (sec s) (inode_of s n) = {}"
    "n \<in> live_inodes s \<Longrightarrow> unat n < 200"
  using assms by (auto simp: mk_inv_def live_inodes_def)

text \<open>A file whose blocks did not change.\<close>

lemma sound_cong:
  assumes "sound s x" "\<And>b. b \<in> blocks_of (sec s) x \<Longrightarrow> sec t b = sec s b" "unat (mk_freeblock s) \<le> unat (mk_freeblock t)"
  shows "sound t x" "blocks_of (sec t) x = blocks_of (sec s) x" "file_content (sec t) x = file_content (sec s) x"
proof -
  have c: "owned (sec t) x = owned (sec s) x" "file_ok A (sec t) x = file_ok A (sec s) x"
    "\<And>i. i < MAXFILE * BSIZE \<Longrightarrow> file_byte (sec t) x i = file_byte (sec s) x i" for A
    using file_cong[of "sec s" x "sec t"] assms(2) by auto
  show "blocks_of (sec t) x = blocks_of (sec s) x" by (simp add: blocks_of_def c)
  show "sound t x" using assms(1,3) c(2) file_ok_mono[of "data_block s" "sec s" x "data_block t"]
    by (auto simp: sound_def file_in_def exact_def c data_block_def)
  show "file_content (sec t) x = file_content (sec s) x" using assms(1) c(3) by (auto simp: file_content_def sound_def)
qed

section \<open>\<open>iappend\<close>\<close>

definition size_of :: "mk \<Rightarrow> u32 \<Rightarrow> nat" where
  "size_of s n = unat (i_size (inode_of s n))"

lemma length_content [simp]: "length (content_of s n) = size_of s n"
  by (simp add: content_of_def file_content_def size_of_def)

text \<open>The inodes other than \<open>n\<close> and their contents, and the sectors before the inodes.\<close>

definition others_same :: "u32 \<Rightarrow> mk \<Rightarrow> mk \<Rightarrow> bool" where
  "others_same n s t \<longleftrightarrow>
     (\<forall>m \<in> live_inodes s. m \<noteq> n \<longrightarrow> inode_of t m = inode_of s m \<and> content_of t m = content_of s m) \<and>
     (\<forall>b. unat b < 32 \<longrightarrow> sec t b = sec s b)"

lemma append_content:
  assumes "appended s x (unat (i_size x)) xs t y" "i_size z = i_size x + of_nat (length xs)" "file_byte (sec t) z = file_byte (sec t) y"
    and "unat (i_size x) + length xs \<le> MAXFILE * BSIZE"
  shows "unat (i_size z) = unat (i_size x) + length xs" "file_content (sec t) z = file_content (sec s) x @ xs"
proof -
  have "unat (i_size x) + length xs < 2 ^ 32" using assms(4) by (simp add: MAXFILE_def NINDIRECT_def NDIRECT_def BSIZE_def)
  then show u: "unat (i_size z) = unat (i_size x) + length xs"
    using assms(2) by (simp add: unat_word_ariths unat_of_nat)
  show "file_content (sec t) z = file_content (sec s) x @ xs"
    using assms(1,4) unfolding file_content_def u assms(3)
    by (intro nth_equalityI) (auto simp: appended_def nth_append)
qed

lemma file_in_data: "file_in s x \<Longrightarrow> b \<in> blocks_of (sec s) x \<Longrightarrow> 59 \<le> unat b"
  by (auto elim!: blocks_ofE dest!: file_okD(2) simp: file_in_def data_block_def)

text \<open>
  File \<open>n\<close> was extended up to the state \<open>t\<close>, which leaves the inode block of every other file and
  its blocks as they were.
\<close>

lemma extends_others:
  assumes s: "mk_inv s" and n: "n \<in> live_inodes s" and e: "extends s (inode_of s n) t y" and m: "m \<in> live_inodes s" "m \<noteq> n"
  shows "inode_of t m = inode_of s m" "\<And>b. b \<in> blocks_of (sec s) (inode_of s m) \<Longrightarrow> sec t b = sec s b"
    "blocks_of (sec s) (inode_of s m) \<inter> blocks_of (sec t) y = {}"
proof -
  note I = mk_invD[OF s]
  have x: "file_in s (inode_of s n)" "file_in s (inode_of s m)" using I(4) n m by (auto simp: sound_def)
  have keep: "sec t b = sec s b" if "unat b < unat (mk_freeblock s)" "b \<notin> blocks_of (sec s) (inode_of s n)" for b
    using e that by (simp add: extends_def)
  have M: "unat (IBLOCK m mk_super) < 57" using IBLOCK_range(3)[OF I(6)[OF m(1)]] .
  then have "IBLOCK m mk_super \<notin> blocks_of (sec s) (inode_of s n)" using file_in_data[OF x(1)] by fastforce
  then show "inode_of t m = inode_of s m" using keep[of "IBLOCK m mk_super"] M img_okD(4)[OF I(1)] by (simp add: inode_of_def)
  show "sec t b = sec s b" if b: "b \<in> blocks_of (sec s) (inode_of s m)" for b
    using keep[of b] file_in_block[OF I(1) x(2) b] I(5)[OF m(1) n m(2)] b by auto
  show "blocks_of (sec s) (inode_of s m) \<inter> blocks_of (sec t) y = {}"
    using e I(5)[OF m(1) n m(2)] file_in_block[OF I(1) x(2)] unfolding extends_def by fastforce
qed

text \<open>Then its inode \<open>z\<close> is written.\<close>

lemma store_extended:
  assumes s: "mk_inv s" and n: "n \<in> live_inodes s" and e: "extends s (inode_of s n) t y" and z: "sound t z" "bare z" "blocks_of (sec t) z = blocks_of (sec t) y"
  defines "u \<equiv> stored n z t"
  shows "mk_inv u" "others_same n s u" "inode_of u n = z" "content_of u n = file_content (sec t) z"
proof -
  note I = mk_invD[OF s]
  have n200: "unat n < 200" using I(6)[OF n] .
  have T: "img_ok t" "mk_freeinode t = mk_freeinode s" "unat (mk_freeblock s) \<le> unat (mk_freeblock t)" using e by (simp_all add: extends_def)
  have nb: "unat (IBLOCK n mk_super) < 57" "32 \<le> unat (IBLOCK n mk_super)" using IBLOCK_range[OF n200] by simp_all
  have su: "sec u b = sec t b" if "59 \<le> unat b \<or> unat b < 32" for b
    unfolding u_def by (rule stored_simps(4)) (use that nb in auto)
  have lz: "length (i_addrs z) = Suc NDIRECT" using z(1) by (auto simp: sound_def file_in_def dest: file_okD(1))
  have ino: "inode_of u m = (if m = n then z else inode_of t m)" if "unat m < 200" for m
    using stored_ok(2)[OF T(1) n200 that lz z(2)] by (simp add: u_def)
  show zn: "inode_of u n = z" using ino[OF n200] by simp
  have zu: "sound u z" "blocks_of (sec u) z = blocks_of (sec t) y" "file_content (sec u) z = file_content (sec t) z"
    using sound_cong[OF z(1), of u] su file_in_data[of t z] z by (auto simp: u_def sound_def)
  then show "content_of u n = file_content (sec t) z" by (simp add: content_of_def zn)
  have other: "inode_of u m = inode_of s m" "sound u (inode_of s m)" "blocks_of (sec u) (inode_of s m) = blocks_of (sec s) (inode_of s m)"
    "file_content (sec u) (inode_of s m) = file_content (sec s) (inode_of s m)" if m: "m \<in> live_inodes s" "m \<noteq> n" for m
  proof -
    note E = extends_others[OF s n e m]
    show "inode_of u m = inode_of s m" using ino[OF I(6)[OF m(1)]] m(2) E(1) by simp
    have sm: "sound s (inode_of s m)" by (rule I(4)[OF m(1)])
    have "sec u b = sec s b" if b: "b \<in> blocks_of (sec s) (inode_of s m)" for b
      using su[of b] file_in_data[of s "inode_of s m" b] sm E(2)[OF b] b by (simp add: sound_def)
    from sound_cong[OF sm this] T(3) show "sound u (inode_of s m)" "blocks_of (sec u) (inode_of s m) = blocks_of (sec s) (inode_of s m)"
      "file_content (sec u) (inode_of s m) = file_content (sec s) (inode_of s m)" by (simp_all add: u_def)
  qed
  have live: "live_inodes u = live_inodes s" using T(2) by (simp add: live_inodes_def u_def)
  show "mk_inv u" unfolding mk_inv_def live
  proof (intro conjI ballI impI)
    show "img_ok u" unfolding u_def by (rule stored_ok(1)[OF T(1) n200])
    show "1 \<le> unat (mk_freeinode u)" "unat (mk_freeinode u) \<le> 200" using I(2,3) T(2) by (simp_all add: u_def)
    show "sound u (inode_of u m)" if "m \<in> live_inodes s" for m using other(1,2)[OF that] zn zu(1) by (cases "m = n") auto
    show "blocks_of (sec u) (inode_of u l) \<inter> blocks_of (sec u) (inode_of u m) = {}" if "l \<in> live_inodes s" "m \<in> live_inodes s" "l \<noteq> m" for l m
      using other(1,3)[OF that(1)] other(1,3)[OF that(2)] zn zu(2) that(3) extends_others(3)[OF s n e that(1)]
        extends_others(3)[OF s n e that(2)] I(5)[OF that] by (cases "l = n"; cases "m = n") auto
  qed
  have "sec u b = sec s b" if b: "unat b < 32" for b
  proof -
    have "b \<notin> blocks_of (sec s) (inode_of s n)" using file_in_data[of s "inode_of s n" b] I(4)[OF n] b by (auto simp: sound_def)
    moreover have "unat b < unat (mk_freeblock s)" using b img_okD(4)[OF I(1)] by simp
    ultimately show ?thesis using su[of b] e b by (simp add: extends_def)
  qed
  then show "others_same n s u" using other(1,4) by (simp add: others_same_def content_of_def)
qed

lemma iappend_ok:
  assumes s: "mk_inv s" and n: "n \<in> live_inodes s" and size: "size_of s n + length xs \<le> MAXFILE * BSIZE"
    and free: "unat (mk_freeblock s) + blocks_for (size_of s n + length xs) \<le> 1000 + blocks_for (size_of s n)"
  shows "\<exists>t. iappend n xs s = Ret () t \<and> mk_inv t \<and> mk_freeinode t = mk_freeinode s \<and>
    content_of t n = content_of s n @ xs \<and> i_type (inode_of t n) = i_type (inode_of s n) \<and>
    unat (mk_freeblock t) + blocks_for (size_of s n) = unat (mk_freeblock s) + blocks_for (size_of s n + length xs) \<and>
    others_same n s t"
proof -
  note I = mk_invD[OF s]
  let ?x = "inode_of s n"
  have x: "file_in s ?x" "exact (sec s) ?x (unat (i_size ?x))" using I(4)[OF n] by (simp_all add: sound_def)
  from iappend_loop_ok[OF I(1) x, of xs "Suc (length xs)"] size free obtain t y where
    t: "iappend_loop (Suc (length xs)) (i_size ?x) xs ?x s = Ret (i_size ?x + of_nat (length xs), y) t"
      "appended s ?x (unat (i_size ?x)) xs t y" by (auto simp: size_of_def)
  have e: "extends s ?x t y" and ex: "exact (sec t) y (unat (i_size ?x) + length xs)" using t(2) by (simp_all add: appended_def)
  have T: "img_ok t" "file_in t y" "y = ?x\<lparr>i_addrs := i_addrs y\<rparr>" "mk_freeinode t = mk_freeinode s" using e by (simp_all add: extends_def)
  define z where "z = y\<lparr>i_size := i_size ?x + of_nat (length xs)\<rparr>"
  have bz: "bare z" using T(3) unfolding z_def by (metis bare_simps(2,3,6))
  have cz: "unat (i_size z) = size_of s n + length xs" "file_content (sec t) z = content_of s n @ xs"
    using append_content[OF t(2), of z] size by (simp_all add: z_def size_of_def content_of_def)
  have "\<forall>i < MAXFILE * BSIZE. unat (i_size ?x) \<le> i \<longrightarrow> file_byte (sec s) ?x i = 0" using I(4)[OF n] by (simp add: sound_def)
  then have "\<forall>i < MAXFILE * BSIZE. unat (i_size z) \<le> i \<longrightarrow> file_byte (sec t) z i = 0"
    using t(2) cz(1) by (simp add: appended_def z_def size_of_def)
  then have zt: "sound t z" using T(2) ex cz(1) size by (simp add: sound_def file_in_def exact_def size_of_def) (simp add: z_def)
  have "blocks_of (sec t) z = blocks_of (sec t) y" by (simp add: z_def)
  note S = store_extended[OF s n e zt bz this]
  have "iappend n xs s = Ret () (stored n z t)"
    using t(1) rinode_exec[OF I(1) I(6)[OF n]] winode_exec[OF T(1) I(6)[OF n]] by (simp add: iappend_def kbind_def z_def)
  moreover have "i_type z = i_type ?x" unfolding z_def by (subst T(3)) simp
  ultimately show ?thesis using S cz(2) t(2) T(4) by (auto simp: appended_def size_of_def)
qed

end
