(* ===== verification/Mkfs_Image.thy ===== *)
theory Mkfs_Image
  imports Mkfs_Correct Fs_Tx
begin

text \<open>
  The image that \<open>mkfs\<close> makes, as a list of files: inode \<open>i + 1\<close> is file \<open>i\<close>. Every step of the
  program is an operation on this list, and the list decides how many blocks are allocated.
\<close>

section \<open>The files of the image\<close>

type_synonym mk_files = "(u16 \<times> u8 list) list"

definition blocks_needed :: "mk_files \<Rightarrow> nat" where
  "blocks_needed fs = nmeta + sum_list (map (\<lambda>f. blocks_for (length (snd f))) fs)"

definition image_fits :: "mk_files \<Rightarrow> bool" where
  "image_fits fs \<longleftrightarrow> blocks_needed fs \<le> FSSIZE \<and> length fs < NINODES \<and> (\<forall>f \<in> set fs. length (snd f) \<le> MAXFILE * BSIZE)"

definition low_sector :: "u32 \<Rightarrow> u8 list" where
  "low_sector b = (if b = 1 then encode_sb mk_super (replicate BSIZE 0) else replicate BSIZE 0)"

definition has_files :: "mk \<Rightarrow> mk_files \<Rightarrow> bool" where
  "has_files s fs \<longleftrightarrow> mk_inv s \<and> unat (mk_freeinode s) = Suc (length fs) \<and> unat (mk_freeblock s) = blocks_needed fs \<and>
     (\<forall>i < length fs. fs ! i = (i_type (inode_of s (of_nat (Suc i))), content_of s (of_nat (Suc i)))) \<and>
     (\<forall>b. unat b < 32 \<longrightarrow> sec s b = low_sector b)"

text \<open>A list with fewer or shorter files fits too.\<close>

definition below :: "mk_files \<Rightarrow> mk_files \<Rightarrow> bool" where
  "below fs gs \<longleftrightarrow> length fs \<le> length gs \<and> (\<forall>i < length fs. length (snd (fs ! i)) \<le> length (snd (gs ! i)))"

lemma below_trans: "below fs gs \<Longrightarrow> below gs hs \<Longrightarrow> below fs hs"
  by (auto simp: below_def) (meson le_trans less_le_trans)

lemma NINODES_val [simp]: "NINODES = 200"
  by (simp add: NINODES_def)

lemma below_image_fits:
  assumes b: "below fs gs" and g: "image_fits gs"
  shows "image_fits fs"
proof -
  have "(\<Sum>i<length fs. blocks_for (length (snd (fs ! i)))) \<le> (\<Sum>i<length fs. blocks_for (length (snd (gs ! i))))"
    using b by (intro sum_mono blocks_for_mono) (auto simp: below_def)
  also have "\<dots> \<le> (\<Sum>i<length gs. blocks_for (length (snd (gs ! i))))"
    using b by (intro sum_mono2) (auto simp: below_def)
  finally have "blocks_needed fs \<le> blocks_needed gs"
    by (simp add: blocks_needed_def sum_list_sum_nth atLeast0LessThan)
  moreover have "length (snd f) \<le> MAXFILE * BSIZE" if "f \<in> set fs" for f
  proof -
    from that obtain i where i: "i < length fs" "f = fs ! i" by (auto simp: in_set_conv_nth)
    then have "length (snd f) \<le> length (snd (gs ! i))" "gs ! i \<in> set gs" using b by (auto simp: below_def)
    then show ?thesis using g by (force simp: image_fits_def)
  qed
  ultimately show ?thesis using b g by (auto simp: image_fits_def below_def)
qed

lemma blocks_needed_update:
  assumes "i < length fs"
  shows "blocks_needed (fs[i := (c, ys)]) + blocks_for (length (snd (fs ! i))) = blocks_needed fs + blocks_for (length ys)"
  using assms elem_le_sum_list[of i "map (\<lambda>f. blocks_for (length (snd f))) fs"]
  by (simp add: blocks_needed_def map_update sum_list_update)

lemma live_files: "has_files s fs \<Longrightarrow> i < length fs \<Longrightarrow> of_nat (Suc i) \<in> live_inodes s \<and> unat (of_nat (Suc i) :: u32) = Suc i"
  using mk_invD(2)[of s] by (auto simp: has_files_def live_inodes_def unat_of_nat simp del: of_nat_Suc)

lemma live_index: "has_files s fs \<Longrightarrow> n \<in> live_inodes s \<Longrightarrow> \<exists>i < length fs. n = of_nat (Suc i) \<and> unat n = Suc i"
  by (rule exI[of _ "unat n - 1"]) (auto simp: has_files_def live_inodes_def Suc_diff_1 simp del: of_nat_Suc)

section \<open>The steps of the program\<close>

text \<open>\<open>iappend\<close> appends to a file.\<close>

definition append_to :: "nat \<Rightarrow> u8 list \<Rightarrow> mk_files \<Rightarrow> mk_files" where
  "append_to i xs fs = fs[i := (fst (fs ! i), snd (fs ! i) @ xs)]"

lemma iappend_files:
  assumes s: "has_files s fs" and i: "i < length fs" and f: "image_fits (append_to i xs fs)"
  shows "\<exists>t. iappend (of_nat (Suc i)) xs s = Ret () t \<and> has_files t (append_to i xs fs)"
proof -
  let ?n = "of_nat (Suc i) :: u32"
  have n: "?n \<in> live_inodes s" "unat ?n = Suc i" using live_files[OF s i] by simp_all
  have inv: "mk_inv s" and fsi: "fs ! i = (i_type (inode_of s ?n), content_of s ?n)" and fb: "unat (mk_freeblock s) = blocks_needed fs"
    using s i by (auto simp: has_files_def)
  have l: "length (snd (fs ! i)) = size_of s ?n" using fsi by simp
  have "(fst (fs ! i), snd (fs ! i) @ xs) \<in> set (append_to i xs fs)" unfolding append_to_def using i by (rule set_update_memI)
  then have max: "size_of s ?n + length xs \<le> MAXFILE * BSIZE" using f l by (force simp: image_fits_def)
  note bn = blocks_needed_update[OF i, of "fst (fs ! i)" "snd (fs ! i) @ xs", folded append_to_def]
  have "unat (mk_freeblock s) + blocks_for (size_of s ?n + length xs) \<le> 1000 + blocks_for (size_of s ?n)"
    using bn f fb l by (simp add: image_fits_def)
  from iappend_ok[OF inv n(1) max this] obtain t where
    t: "iappend ?n xs s = Ret () t" "mk_inv t" "mk_freeinode t = mk_freeinode s" "content_of t ?n = content_of s ?n @ xs"
      "i_type (inode_of t ?n) = i_type (inode_of s ?n)"
      "unat (mk_freeblock t) + blocks_for (size_of s ?n) = unat (mk_freeblock s) + blocks_for (size_of s ?n + length xs)"
      "others_same ?n s t" by blast
  have "append_to i xs fs ! j = (i_type (inode_of t (of_nat (Suc j))), content_of t (of_nat (Suc j)))" if j: "j < length fs" for j
  proof (cases "j = i")
    case True
    then show ?thesis using t(4,5) i fsi by (simp add: append_to_def)
  next
    case False
    then have "of_nat (Suc j) \<noteq> ?n" using live_files[OF s j] n(2) by (metis Suc_inject)
    then show ?thesis using False t(7) live_files[OF s j] s j by (auto simp: append_to_def others_same_def has_files_def)
  qed
  moreover have "unat (mk_freeblock t) = blocks_needed (append_to i xs fs)" using t(6) bn fb l by simp
  ultimately have "has_files t (append_to i xs fs)"
    using t(2,3,7) s by (auto simp: has_files_def others_same_def append_to_def)
  then show ?thesis using t(1) by blast
qed

text \<open>\<open>ialloc\<close> adds an empty file.\<close>

definition new_inode :: "u16 \<Rightarrow> inode" where
  "new_inode c = no_inode\<lparr>i_type := c, i_nlink := 1, i_size := 0\<rparr>"

lemma new_inode_blocks: "owned C (new_inode c) k = 0" "blocks_of C (new_inode c) = {}" "file_content C (new_inode c) = []"
  "file_byte C (new_inode c) i = 0" "length (i_addrs (new_inode c)) = Suc NDIRECT" "bare (new_inode c)" "i_type (new_inode c) = c"
proof -
  have a: "i_addrs (new_inode c) ! j = 0" if "j \<le> NDIRECT" for j
    using that by (simp add: new_inode_def no_inode_def del: replicate.simps)
  have f: "file_block C (new_inode c) j = 0" for j using a by (simp add: file_block_def)
  show o: "owned C (new_inode c) k = 0" for k using f a by (simp add: owned_def)
  show "blocks_of C (new_inode c) = {}" by (auto simp: blocks_of_def o)
  show "file_byte C (new_inode c) i = 0" by (simp add: file_byte_def f)
  show "bare (new_inode c)" by (simp add: new_inode_def)
qed (simp_all add: file_content_def new_inode_def no_inode_def)

lemma new_inode_sound: "sound s (new_inode c)"
  unfolding sound_def file_in_def file_ok_def exact_def by (simp add: new_inode_blocks) (simp add: new_inode_def)

lemma new_inode_inv:
  fixes c :: u16
  assumes s: "mk_inv s" and n: "unat (mk_freeinode s) < 200"
  defines "t \<equiv> stored (mk_freeinode s) (new_inode c) (s\<lparr>mk_freeinode := mk_freeinode s + 1\<rparr>)"
  shows "mk_inv t" "live_inodes t = insert (mk_freeinode s) (live_inodes s)" "mk_freeblock t = mk_freeblock s"
    "unat (mk_freeinode t) = Suc (unat (mk_freeinode s))" "others_same (mk_freeinode s) s t" "inode_of t (mk_freeinode s) = new_inode c"
proof -
  define s1 where "s1 = s\<lparr>mk_freeinode := mk_freeinode s + 1\<rparr>"
  note I = mk_invD[OF s]
  have s1: "sec s1 = sec s" "img_ok s1" "inode_of s1 m = inode_of s m" for m
    using I(1) by (auto simp: s1_def sec_def[abs_def] img_ok_def inode_of_def)
  have t: "t = stored (mk_freeinode s) (new_inode c) s1" by (simp add: t_def s1_def)
  have fi: "unat (mk_freeinode s + 1) = Suc (unat (mk_freeinode s))" using n by (simp add: unat_word_ariths)
  then show fit: "unat (mk_freeinode t) = Suc (unat (mk_freeinode s))" by (simp add: t_def)
  show fb: "mk_freeblock t = mk_freeblock s" by (simp add: t_def)
  show live: "live_inodes t = insert (mk_freeinode s) (live_inodes s)"
    using I(3) unfolding live_inodes_def fit by (auto simp: less_Suc_eq word_unat_eq_iff)
  have ino: "inode_of t m = (if m = mk_freeinode s then new_inode c else inode_of s m)" if "unat m < 200" for m
    using stored_ok(2)[OF s1(2) n that new_inode_blocks(5,6)] by (simp add: t s1(3))
  then show "inode_of t (mk_freeinode s) = new_inode c" using n by simp
  have su: "sec t b = sec s b" if "59 \<le> unat b \<or> unat b < 32" for b
    unfolding t s1(1)[symmetric] using IBLOCK_range[OF n] that by (intro stored_simps(4)) auto
  have old: "inode_of t m = inode_of s m" "sound t (inode_of s m)" "blocks_of (sec t) (inode_of s m) = blocks_of (sec s) (inode_of s m)"
    "file_content (sec t) (inode_of s m) = file_content (sec s) (inode_of s m)" if m: "m \<in> live_inodes s" for m
  proof -
    show "inode_of t m = inode_of s m" using ino[OF I(6)[OF m]] m by (auto simp: live_inodes_def)
    have "sec t b = sec s b" if "b \<in> blocks_of (sec s) (inode_of s m)" for b
      using su file_in_data[OF _ that] I(4)[OF m] by (simp add: sound_def)
    from sound_cong[OF I(4)[OF m] this] fb show "sound t (inode_of s m)"
      "blocks_of (sec t) (inode_of s m) = blocks_of (sec s) (inode_of s m)"
      "file_content (sec t) (inode_of s m) = file_content (sec s) (inode_of s m)" by simp_all
  qed
  show "mk_inv t" unfolding mk_inv_def live
    using stored_ok(1)[OF s1(2) n, of "new_inode c", folded t] fit n I(5) old ino[OF n] new_inode_sound new_inode_blocks(2)
    by (simp add: Int_commute)
  show "others_same (mk_freeinode s) s t" using old su by (simp add: others_same_def content_of_def)
qed

lemma ialloc_files:
  assumes s: "has_files s fs" and n: "length fs < 199"
  shows "\<exists>t. mk_ialloc c s = Ret (of_nat (Suc (length fs))) t \<and> has_files t (fs @ [(c, [])])"
proof -
  let ?n = "mk_freeinode s" and ?t = "stored (mk_freeinode s) (new_inode c) (s\<lparr>mk_freeinode := mk_freeinode s + 1\<rparr>)"
  have inv: "mk_inv s" and u: "unat ?n = Suc (length fs)" using s by (simp_all add: has_files_def)
  have n200: "unat ?n < 200" using u n by simp
  note N = new_inode_inv[OF inv n200, of c]
  have nn: "?n = of_nat (Suc (length fs))" using word_of_nat_eq_iff[of "unat ?n"] u by (metis of_nat_unat ucast_id)
  have "img_ok (s\<lparr>mk_freeinode := ?n + 1\<rparr>)" using mk_invD(1)[OF inv] by (auto simp: img_ok_def sec_def)
  from winode_exec[OF this n200] have "mk_ialloc c s = Ret ?n ?t"
    by (simp add: mk_ialloc_def kexec new_inode_def)
  moreover have "has_files ?t (fs @ [(c, [])])"
  proof -
    have "(fs @ [(c, [])]) ! j = (i_type (inode_of ?t (of_nat (Suc j))), content_of ?t (of_nat (Suc j)))" if j: "j < Suc (length fs)" for j
    proof (cases "j = length fs")
      case True
      then show ?thesis using N(6) by (simp only: nn[symmetric] content_of_def) (simp add: new_inode_blocks)
    next
      case False
      then have j: "j < length fs" using j by simp
      then have "of_nat (Suc j) \<noteq> ?n" using live_files[OF s j] u by auto
      then show ?thesis using N(5) live_files[OF s j] s j by (auto simp: others_same_def has_files_def nth_append)
    qed
    moreover have "blocks_needed (fs @ [(c, [])]) = blocks_needed fs" by (simp add: blocks_needed_def blocks_for_def BSIZE_def)
    ultimately show ?thesis using N(1,3,4,5) s u by (auto simp: has_files_def others_same_def)
  qed
  ultimately show ?thesis using nn by auto
qed

text \<open>The files of the command line.\<close>

lemma append_last: "append_to (length gs) xs (gs @ [(c, acc)]) = gs @ [(c, acc @ xs)]"
  by (simp add: append_to_def)

lemma below_last: "length acc \<le> length ys \<Longrightarrow> below (gs @ [(c, acc)]) (gs @ [(d, ys)])"
  by (auto simp: below_def nth_append)

lemma reads_files:
  "has_files s (gs @ [(c, acc)]) \<Longrightarrow> image_fits (gs @ [(c, acc @ concat reads)]) \<Longrightarrow>
    \<exists>t. kfor reads (iappend (of_nat (Suc (length gs)))) s = Ret () t \<and> has_files t (gs @ [(c, acc @ concat reads)])"
proof (induction reads arbitrary: acc s)
  case Nil
  then show ?case by simp
next
  case (Cons xs reads)
  have "image_fits (append_to (length gs) xs (gs @ [(c, acc)]))"
    unfolding append_last by (rule below_image_fits[OF below_last Cons.prems(2)]) simp
  from iappend_files[OF Cons.prems(1) _ this] obtain t where
    t: "iappend (of_nat (Suc (length gs))) xs s = Ret () t" "has_files t (gs @ [(c, acc @ xs)])" by (auto simp: append_last simp del: of_nat_Suc)
  then show ?case using Cons.IH[OF t(2)] Cons.prems(2) by (auto simp: kbind_def simp del: of_nat_Suc)
qed

definition dir_entry :: "u8 list \<Rightarrow> nat \<Rightarrow> u8 list" where
  "dir_entry name n = make_dirent (strip_underscore name) (of_nat n)"

lemma half_of_nat: "(ucast (of_nat k :: u32) :: u16) = of_nat k"
  by (simp add: unsigned_of_nat word_of_nat_eq_iff)

lemma add_file_ok:
  assumes s: "has_files s ((d, xs) # fs)" and f: "image_fits ((d, xs @ dir_entry name (length fs + 2)) # fs @ [(T_FILE, concat reads)])"
    and name: "SLASH \<notin> set name"
  shows "\<exists>t. add_file 1 (name, Some reads) s = Ret () t \<and>
    has_files t ((d, xs @ dir_entry name (length fs + 2)) # fs @ [(T_FILE, concat reads)])"
proof -
  let ?de = "dir_entry name (length fs + 2)"
  have "length ((d, xs) # fs) < 199" using f by (simp add: image_fits_def)
  from ialloc_files[OF s this] obtain t where
    t: "mk_ialloc T_FILE s = Ret (of_nat (length fs + 2)) t" "has_files t ((d, xs) # fs @ [(T_FILE, [])])" by auto
  have a: "append_to 0 ?de ((d, xs) # fs @ [(T_FILE, [])]) = (d, xs @ ?de) # fs @ [(T_FILE, [])]" by (simp add: append_to_def)
  have "image_fits ((d, xs @ ?de) # fs @ [(T_FILE, [])])"
    using below_image_fits[OF below_last[of "[]" "concat reads" "(d, xs @ ?de) # fs" T_FILE T_FILE]] f by simp
  from iappend_files[OF t(2), of 0 ?de] this a obtain u where
    u: "iappend 1 ?de t = Ret () u" "has_files u (((d, xs @ ?de) # fs) @ [(T_FILE, [])])" by auto
  from reads_files[OF u(2)] f obtain v where
    v: "kfor reads (iappend (of_nat (length fs + 2))) u = Ret () v" "has_files v ((d, xs @ ?de) # fs @ [(T_FILE, concat reads)])" by auto
  have de: "?de = make_dirent (strip_underscore name) (ucast (of_nat (length fs + 2) :: u32))"
    unfolding dir_entry_def half_of_nat ..
  have "add_file 1 (name, Some reads) s = Ret () v"
    using name t(1) u(1) v(1) unfolding de by (simp add: add_file_def kexec del: of_nat_add)
  then show ?thesis using v(2) by blast
qed

definition root_content :: "mk_file list \<Rightarrow> u8 list" where
  "root_content files = make_dirent [46] 1 @ make_dirent [46, 46] 1 @
     concat (map (\<lambda>i. dir_entry (fst (files ! i)) (i + 2)) [0..<length files])"

definition files_of :: "mk_file list \<Rightarrow> mk_files" where
  "files_of files = (T_DIR, root_content files) # map (\<lambda>f. (T_FILE, concat (the (snd f)))) files"

lemma root_content_snoc: "root_content (files @ [f]) = root_content files @ dir_entry (fst f) (length files + 2)"
  by (simp add: root_content_def) (rule arg_cong[of _ _ concat], rule map_cong, auto simp: nth_append)

lemma files_of_snoc: "files_of (files @ [f]) =
    (T_DIR, root_content files @ dir_entry (fst f) (length files + 2)) # map (\<lambda>f. (T_FILE, concat (the (snd f)))) files @ [(T_FILE, concat (the (snd f)))]"
  by (simp add: files_of_def root_content_snoc)

lemma below_files_of: "below (files_of files) (files_of (files @ [f]))"
  unfolding files_of_snoc by (auto simp: files_of_def below_def nth_Cons nth_append split: nat.split)

lemma below_prefix: "below (files_of xs) (files_of (xs @ ys))"
proof (induction ys rule: rev_induct)
  case (snoc y ys)
  then show ?case using below_trans[OF snoc below_files_of[of "xs @ ys" y]] by simp
qed (simp add: below_def)

lemma add_files_ok:
  assumes s: "has_files s (files_of [])" and f: "image_fits (files_of files)" "\<forall>f \<in> set files. SLASH \<notin> set (fst f) \<and> snd f \<noteq> None"
  shows "\<exists>t. kfor files (add_file 1) s = Ret () t \<and> has_files t (files_of files)"
proof (rule kfor_rule[where I = "\<lambda>done t. has_files t (files_of done)", OF s])
  fix "done" i t
  assume "\<exists>rest. files = done @ i # rest" and t: "has_files t (files_of done)"
  then obtain rest where r: "files = (done @ [i]) @ rest" by auto
  obtain name reads where i: "i = (name, Some reads)" "SLASH \<notin> set name" using f(2) r by (cases i) auto
  have "image_fits (files_of (done @ [i]))" by (rule below_image_fits[OF below_prefix f(1)[unfolded r]])
  then show "\<exists>u. add_file 1 i t = Ret () u \<and> has_files u (files_of (done @ [i]))"
    using add_file_ok[OF t[unfolded files_of_def], of name reads] i by (simp add: files_of_snoc)
qed

section \<open>The empty image\<close>

definition blank :: "nat \<Rightarrow> mk \<Rightarrow> mk" where
  "blank n s = s\<lparr>mk_img := (\<lambda>b. if unat b < n then Some (replicate BSIZE 0) else None)\<rparr>"

lemma zero_sectors:
  assumes "n \<le> FSSIZE" "mk_img s = Map.empty"
  shows "kfor [0..<n] (\<lambda>i. wsect (of_nat i) (replicate BSIZE 0)) s = Ret () (blank n s)"
proof -
  have "\<exists>t. kfor [0..<n] (\<lambda>i. wsect (of_nat i) (replicate BSIZE 0)) s = Ret () t \<and> t = blank (length [0..<n]) s"
  proof (rule kfor_rule[where I = "\<lambda>d t. t = blank (length d) s"])
    show "s = blank (length []) s" using assms(2) by (cases s) (simp add: blank_def)
    fix d i t
    assume i: "\<exists>rest. [0..<n] = d @ i # rest" and t: "t = blank (length d) s"
    then obtain rest where r: "[0..<n] = d @ i # rest" by blast
    have i: "i = length d" "length d < n" using arg_cong[OF r, of "\<lambda>xs. xs ! length d"] arg_cong[OF r, of length] by (auto simp: nth_append)
    then have u: "unat (of_nat i :: u32) = i" using assms(1) by (simp add: unat_of_nat)
    have e: "b = of_nat i \<longleftrightarrow> unat b = i" for b :: u32 using u by (auto simp: word_unat_eq_iff)
    have "(mk_img t)(of_nat i \<mapsto> replicate BSIZE 0) = mk_img (blank (Suc i) s)"
      unfolding fun_upd_def e by (rule ext) (simp add: t blank_def i(1) less_Suc_eq)
    then have "put_sec (of_nat i) (replicate BSIZE 0) t = blank (length (d @ [i])) s" by (simp add: put_sec_def t i(1)) (simp add: blank_def)
    then show "\<exists>v. wsect (of_nat i) (replicate BSIZE 0) t = Ret () v \<and> v = blank (length (d @ [i])) s" by (simp add: wsect_exec)
  qed
  then show ?thesis by simp
qed

definition blank_image :: "mk" where
  "blank_image = put_sec 1 (encode_sb mk_super (replicate BSIZE 0))
     (blank FSSIZE \<lparr>mk_img = Map.empty, mk_sb = mk_super, mk_freeinode = 1, mk_freeblock = of_nat nmeta\<rparr>)"

lemma blank_image_ok: "has_files blank_image []"
proof -
  have l: "length (encode_sb mk_super (replicate BSIZE 0)) = BSIZE" by (simp add: encode_sb_def)
  have "img_ok blank_image" using l by (auto simp: img_ok_def blank_image_def put_sec_def blank_def sec_def)
  then show ?thesis
    by (auto simp: has_files_def mk_inv_def live_inodes_def blank_image_def blocks_needed_def) (simp_all add: put_sec_def blank_def sec_def low_sector_def)
qed

section \<open>The blocks in use\<close>

text \<open>A file has as many blocks as its size needs, so the files have all blocks that are allocated.\<close>

lemma card_blocks:
  assumes x: "sound s x"
  shows "finite (blocks_of (sec s) x)" "card (blocks_of (sec s) x) = blocks_for (unat (i_size x))"
proof -
  let ?n = "unat (i_size x)" and ?o = "owned (sec s) x"
  note F = x[unfolded sound_def file_in_def]
  define K where "K = {k. k \<le> MAXFILE \<and> ?o k \<noteq> 0}"
  have b: "blocks_of (sec s) x = ?o ` K" by (auto simp: blocks_of_def K_def)
  have inj: "inj_on ?o K" using file_okD(4)[OF conjunct1[OF F]] by (auto simp: inj_on_def K_def)
  have lt: "k * BSIZE < ?n \<longleftrightarrow> k < (?n + BSIZE - 1) div BSIZE" for k
    by (simp add: BSIZE_def less_eq_div_iff_mult_less_eq Suc_le_eq[symmetric])
  have "(?n + BSIZE - 1) div BSIZE < Suc MAXFILE"
    using F by (intro less_mult_imp_div_less) (simp add: BSIZE_def)
  then have "(?n + BSIZE - 1) div BSIZE \<le> MAXFILE" by simp
  moreover have "?o k \<noteq> 0 \<longleftrightarrow> k < (?n + BSIZE - 1) div BSIZE" if "k < MAXFILE" for k using F that lt by (simp add: exact_def)
  moreover have "?o MAXFILE \<noteq> 0 \<longleftrightarrow> NDIRECT * BSIZE < ?n" using F by (simp add: exact_def)
  ultimately have "k \<in> K \<longleftrightarrow> k < (?n + BSIZE - 1) div BSIZE \<or> NDIRECT * BSIZE < ?n \<and> k = MAXFILE" for k
    unfolding K_def by (cases k MAXFILE rule: linorder_cases) auto
  then have "K = {..<(?n + BSIZE - 1) div BSIZE} \<union> (if NDIRECT * BSIZE < ?n then {MAXFILE} else {})" by auto
  moreover have "MAXFILE \<notin> {..<(?n + BSIZE - 1) div BSIZE}" using \<open>_ div _ \<le> MAXFILE\<close> by simp
  ultimately have "finite K" "card K = blocks_for ?n" by (auto simp: blocks_for_def)
  then show "finite (blocks_of (sec s) x)" "card (blocks_of (sec s) x) = blocks_for ?n" using b inj by (simp_all add: card_image)
qed

lemma sound_blocks: "img_ok s \<Longrightarrow> sound s x \<Longrightarrow> b \<in> blocks_of (sec s) x \<Longrightarrow> data_block s b"
  using file_in_block[of s x b] file_in_data[of s x b] by (simp add: sound_def data_block_def)

lemma no_block_lost:
  assumes s: "has_files s fs"
  shows "(\<Union>n \<in> live_inodes s. blocks_of (sec s) (inode_of s n)) = {b. data_block s b}"
proof (rule card_seteq)
  have inv: "mk_inv s" using s by (simp add: has_files_def)
  note I = mk_invD[OF inv]
  let ?B = "\<lambda>n. blocks_of (sec s) (inode_of s n)" and ?f = "\<lambda>i. of_nat (Suc i) :: u32"
  have fin: "finite {b. data_block s b}" by simp
  then show "finite {b. data_block s b}" .
  show "(\<Union>n \<in> live_inodes s. ?B n) \<subseteq> {b. data_block s b}"
    using sound_blocks[OF I(1,4)] by auto
  have live: "live_inodes s = ?f ` {..<length fs}" using live_files[OF s] live_index[OF s] by (auto simp: image_iff simp del: of_nat_Suc)
  have inj: "inj_on ?f {..<length fs}" using live_files[OF s] by (intro inj_onI) (metis Suc_inject lessThan_iff)
  have "card (\<Union>n \<in> live_inodes s. ?B n) = (\<Sum>n \<in> live_inodes s. card (?B n))"
    using I(4,5) card_blocks(1) by (intro card_UN_disjoint) (auto simp: live)
  also have "\<dots> = (\<Sum>n \<in> live_inodes s. blocks_for (size_of s n))" using card_blocks(2) I(4) by (simp add: size_of_def)
  also have "\<dots> = (\<Sum>i < length fs. blocks_for (size_of s (?f i)))" unfolding live by (rule sum.reindex_cong[OF inj refl refl])
  also have "\<dots> = (\<Sum>i < length fs. blocks_for (length (snd (fs ! i))))" using s by (intro sum.cong) (auto simp: has_files_def)
  finally have "card (\<Union>n \<in> live_inodes s. ?B n) + 59 = unat (mk_freeblock s)"
    using s by (simp add: has_files_def blocks_needed_def sum_list_sum_nth atLeast0LessThan)
  moreover have "card {b. data_block s b} \<le> card {59..<unat (mk_freeblock s)}"
    by (rule card_inj_on_le[of unat]) (auto simp: data_block_def inj_on_def word_unat_eq_iff)
  ultimately show "card {b. data_block s b} \<le> card (\<Union>n \<in> live_inodes s. ?B n)" by simp
qed

text \<open>The free map.\<close>

lemma length_mark_blocks [simp]: "length (mark_blocks k bs) = length bs"
  by (induction k) simp_all

lemma mark_blocks_free: "k \<le> length bs * 8 \<Longrightarrow> bit_free (mark_blocks k bs) j \<longleftrightarrow> k \<le> j \<and> bit_free bs j"
  by (induction k) (auto simp: mark_used_free less_mult_imp_div_less)

lemma bit_free_zero: "j < BSIZE * 8 \<Longrightarrow> bit_free (replicate BSIZE 0) j"
  by (simp add: bit_free_def less_mult_imp_div_less)

section \<open>The end of the program\<close>

text \<open>The directory's size is rounded up by at least one byte; its content is padded with zeros.\<close>

definition root_size :: "nat \<Rightarrow> nat" where
  "root_size n = (n div BSIZE + 1) * BSIZE"

definition padded :: "u8 list \<Rightarrow> u8 list" where
  "padded xs = xs @ replicate (root_size (length xs) - length xs) 0"

definition fixed_root :: "mk \<Rightarrow> inode" where
  "fixed_root s = (inode_of s 1)\<lparr>i_size := (i_size (inode_of s 1) div of_nat BSIZE + 1) * of_nat BSIZE\<rparr>"

definition finished :: "mk \<Rightarrow> mk" where
  "finished s = put_sec 58 (mark_blocks (unat (mk_freeblock s)) (replicate BSIZE 0)) (stored 1 (fixed_root s) s)"

lemma fixed_root_size:
  assumes "root_size (size_of s 1) \<le> MAXFILE * BSIZE"
  shows "unat (i_size (fixed_root s)) = root_size (size_of s 1)"
proof -
  have "root_size (size_of s 1) < 2 ^ 32" using assms by (simp add: MAXFILE_def NINDIRECT_def NDIRECT_def BSIZE_def)
  then show ?thesis by (simp add: fixed_root_def root_size_def size_of_def BSIZE_def unat_word_ariths unat_div)
qed

lemma fixed_root_content:
  assumes s: "mk_inv s" "1 \<in> live_inodes s" and l: "root_size (size_of s 1) \<le> MAXFILE * BSIZE"
  shows "file_content (sec s) (fixed_root s) = padded (content_of s 1)"
proof -
  let ?x = "inode_of s 1"
  note u = fixed_root_size[OF l]
  have le: "size_of s 1 \<le> root_size (size_of s 1)" using div_mult_mod_eq[of "size_of s 1" BSIZE] unfolding root_size_def
    by (simp add: BSIZE_def)
  have z: "file_byte (sec s) ?x i = 0" if "i < root_size (size_of s 1)" "size_of s 1 \<le> i" for i
    using mk_invD(4)[OF s] that l by (auto simp: sound_def size_of_def)
  have "file_byte (sec s) (fixed_root s) = file_byte (sec s) ?x" by (simp add: fixed_root_def)
  then show ?thesis using le z unfolding file_content_def u
    by (intro nth_equalityI) (auto simp: padded_def nth_append content_of_def file_content_def size_of_def)
qed

lemma finished_sectors: "b \<noteq> 58 \<Longrightarrow> unat b < 32 \<or> 57 \<le> unat b \<Longrightarrow> sec (finished s) b = sec s b"
  using IBLOCK_range[of 1] unfolding finished_def by (auto intro: stored_simps(4))

lemma finished_inode:
  assumes s: "mk_inv s" "1 \<in> live_inodes s" and n: "n \<in> live_inodes s"
  shows "inode_of (finished s) n = (if n = 1 then fixed_root s else inode_of s n)"
    "blocks_of (sec (finished s)) (inode_of (finished s) n) = blocks_of (sec s) (inode_of s n)"
    "file_ok A (sec (finished s)) (inode_of (finished s) n) = file_ok A (sec s) (inode_of s n)"
    "n \<noteq> 1 \<Longrightarrow> content_of (finished s) n = content_of s n"
    "n = 1 \<Longrightarrow> root_size (size_of s 1) \<le> MAXFILE * BSIZE \<Longrightarrow> content_of (finished s) n = padded (content_of s 1)"
proof -
  note I = mk_invD[OF s(1)]
  have sn: "sound s (inode_of s n)" by (rule I(4)[OF n])
  have l: "length (i_addrs (fixed_root s)) = Suc NDIRECT" "bare (fixed_root s)"
    using I(4)[OF s(2)] by (auto simp: fixed_root_def sound_def file_in_def dest: file_okD(1))
  have "unat (IBLOCK n mk_super) < 57" using IBLOCK_range(3)[OF I(6)[OF n]] .
  then have "IBLOCK n mk_super \<noteq> 58" by auto
  then show i: "inode_of (finished s) n = (if n = 1 then fixed_root s else inode_of s n)"
    using stored_ok(2)[OF I(1) _ I(6)[OF n] l, of 1] by (simp add: inode_of_def finished_def)
  have b: "sec (finished s) b = sec s b" if "b \<in> blocks_of (sec s) (inode_of s n)" for b
    using sound_blocks[OF I(1) sn that] by (intro finished_sectors) (auto simp: data_block_def)
  let ?y = "inode_of (finished s) n"
  have y: "blocks_of C ?y = blocks_of C (inode_of s n)" "file_ok A C ?y = file_ok A C (inode_of s n)" for C A
    by (simp_all add: i fixed_root_def)
  note fc = file_cong[of "sec s" "inode_of s n" "sec (finished s)", OF b]
  show "blocks_of (sec (finished s)) ?y = blocks_of (sec s) (inode_of s n)" "file_ok A (sec (finished s)) ?y = file_ok A (sec s) (inode_of s n)"
    using fc(2,4) y by auto
  have c: "file_content (sec (finished s)) ?y = file_content (sec s) ?y" if "unat (i_size ?y) \<le> MAXFILE * BSIZE"
    using fc(3) that unfolding file_content_def by (auto simp: i fixed_root_def)
  then show "content_of (finished s) n = content_of s n" if "n \<noteq> 1" using that sn by (simp add: content_of_def i sound_def)
  show "content_of (finished s) n = padded (content_of s 1)" if "n = 1" "root_size (size_of s 1) \<le> MAXFILE * BSIZE"
  proof -
    have f: "inode_of (finished s) n = fixed_root s" using i that(1) by simp
    show ?thesis using c[unfolded f] fixed_root_size[OF that(2)] fixed_root_content[OF s that(2)] that(2)
      unfolding content_of_def f by simp
  qed
qed

lemma finished_map:
  assumes s: "mk_inv s" and b: "unat b < 1000"
  shows "block_used mk_super (sec (finished s)) b \<longleftrightarrow> unat b < unat (mk_freeblock s)"
proof -
  note I = mk_invD[OF s]
  have "b div of_nat BPB = 0" using b by (simp add: word_unat_eq_iff unat_div BPB_def BSIZE_def)
  then have B: "BBLOCK b mk_super = 58"
    by (simp add: BBLOCK_def mk_super_def nlog_def LOGSIZE_def MAXOPBLOCKS_def ninodeblocks_def IPB_def BSIZE_def SIZEOF_DINODE_def)
  have "sec (finished s) 58 = mark_blocks (unat (mk_freeblock s)) (replicate BSIZE 0)" by (simp add: finished_def)
  then show ?thesis
    using b img_okD(5)[OF I(1)] mark_blocks_free[of "unat (mk_freeblock s)" "replicate BSIZE 0" "unat b"] bit_free_zero[of "unat b"]
    by (simp add: block_used_def B BPB_def) (simp add: BSIZE_def not_le)
qed

section \<open>The program\<close>

lemma mkfs_layout: "layout FSSIZE mk_super" "data_start mk_super = 59" "unat (sb_size mk_super) = 1000"
  by (simp_all add: layout_def data_start_def mk_super_def nlog_def LOGSIZE_def MAXOPBLOCKS_def ninodeblocks_def IPB_def
      BSIZE_def SIZEOF_DINODE_def BPB_def)

lemma decode_encode_sb: "length bs = BSIZE \<Longrightarrow> decode_sb (encode_sb sb bs) = sb"
proof -
  assume l: "length bs = BSIZE"
  let ?ws = "[sb_size sb, sb_nblocks sb, sb_ninodes sb, sb_nlog sb, sb_logstart sb, sb_inodestart sb, sb_bmapstart sb]"
  have g: "get32 (encode_sb sb bs) (4 * j) = ?ws ! j" if "j < 7" for j
    using get32_put_words[of j ?ws 0 bs] that l by (simp add: encode_sb_def BSIZE_def)
  from g[of 0] g[of 1] g[of 2] g[of 3] g[of 4] g[of 5] g[of 6] show ?thesis by (simp add: decode_sb_def)
qed

text \<open>A file system for the kernel: what the image holds for files \<open>fs\<close>.\<close>

lemma finish_exec:
  assumes s: "has_files s ((c, xs) # fs)"
  shows "fix_root 1 s = Ret () (stored 1 (fixed_root s) s)"
    "mk_balloc (mk_freeblock s) (stored 1 (fixed_root s) s) = Ret () (finished s)"
proof -
  note I = mk_invD[of s]
  have inv: "mk_inv s" using s by (simp add: has_files_def)
  show "fix_root 1 s = Ret () (stored 1 (fixed_root s) s)"
    using rinode_exec[OF I(1)[OF inv], of 1] winode_exec[OF I(1)[OF inv], of 1]
    by (simp add: fix_root_def kbind_def fixed_root_def)
  have fb: "unat (mk_freeblock s) \<le> 1000" by (rule img_okD(5)[OF I(1)[OF inv]])
  then have si: "sint (mk_freeblock s) = int (unat (mk_freeblock s))"
    using sint_u32[of "unat (mk_freeblock s)"] by simp
  have "mk_sb (stored 1 (fixed_root s) s) = mk_super" using img_okD(1)[OF I(1)[OF inv]] by (simp add: stored_def)
  moreover have "sb_bmapstart mk_super = 58"
    by (simp add: mk_super_def nlog_def LOGSIZE_def MAXOPBLOCKS_def ninodeblocks_def IPB_def BSIZE_def SIZEOF_DINODE_def)
  moreover have "mk_freeblock s < 4096" using fb by (simp add: word_less_nat_alt)
  then have "sint (mk_freeblock s) < int (BSIZE * 8)" "nat (sint (mk_freeblock s)) = unat (mk_freeblock s)"
    unfolding si by (simp_all add: BSIZE_def word_less_alt)
  ultimately show "mk_balloc (mk_freeblock s) (stored 1 (fixed_root s) s) = Ret () (finished s)"
    by (simp add: mk_balloc_def kbind_def kwhen_def kget_def wsect_exec finished_def)
qed

lemma below_nil: "fs \<noteq> [] \<Longrightarrow> below [(c, xs)] fs \<longleftrightarrow> length xs \<le> length (snd (hd fs))"
  by (cases fs) (auto simp: below_def Suc_le_eq)

lemma mkfs_run:
  assumes ok: "\<forall>f \<in> set files. SLASH \<notin> set (fst f) \<and> snd f \<noteq> None" and f: "image_fits (files_of files)"
  shows "\<exists>u. has_files u (files_of files) \<and> mkfs files s = Ret () (finished u)"
proof -
  let ?d1 = "make_dirent [46] 1" and ?d2 = "make_dirent [46, 46] 1"
  let ?s0 = "\<lparr>mk_img = Map.empty, mk_sb = mk_super, mk_freeinode = 1, mk_freeblock = of_nat nmeta\<rparr> :: mk"
  have fit: "image_fits [(T_DIR, xs)]" if "length xs \<le> length (root_content files)" for xs
    by (rule below_image_fits[OF _ f]) (use that in \<open>simp add: below_nil files_of_def\<close>)
  have z: "kfor [0..<FSSIZE] (\<lambda>i. wsect (of_nat i) (replicate BSIZE 0)) ?s0 = Ret () (blank FSSIZE ?s0)"
    by (rule zero_sectors) simp_all
  have w: "wsect 1 (encode_sb mk_super (replicate BSIZE 0)) (blank FSSIZE ?s0) = Ret () blank_image"
    unfolding wsect_exec blank_image_def ..
  from ialloc_files[OF blank_image_ok, of T_DIR] obtain s1 where
    s1: "mk_ialloc T_DIR blank_image = Ret 1 s1" "has_files s1 [(T_DIR, [])]" by auto
  from iappend_files[OF s1(2), of 0 ?d1] fit[of ?d1] obtain s2 where
    s2: "iappend 1 ?d1 s1 = Ret () s2" "has_files s2 [(T_DIR, ?d1)]" by (auto simp: append_to_def root_content_def)
  from iappend_files[OF s2(2), of 0 ?d2] fit[of "?d1 @ ?d2"] obtain s3 where
    s3: "iappend 1 ?d2 s2 = Ret () s3" "has_files s3 (files_of [])" by (auto simp: append_to_def root_content_def files_of_def)
  from add_files_ok[OF s3(2) f ok] obtain u where
    u: "kfor files (add_file 1) s3 = Ret () u" "has_files u (files_of files)" by blast
  obtain a b c d where s: "s = \<lparr>mk_img = a, mk_sb = b, mk_freeinode = c, mk_freeblock = d\<rparr>" by (cases s) simp
  have sb: "mk_sb (blank FSSIZE ?s0) = mk_super" by (simp add: blank_def)
  note e = finish_exec[OF u(2)[unfolded files_of_def]]
  have fbs: "mk_freeblock (stored 1 (fixed_root u) u) = mk_freeblock u" by simp
  have "mkfs files s = Ret () (finished u)"
    unfolding mkfs_def s using z w s1(1) s2(1) s3(1) u(1) e fbs sb
    by (simp add: kbind_def kget_def kupd_def kwhen_def ROOTINO_def del: mkfs_sizes)
  then show ?thesis using u(2) by blast
qed

lemma length_make_dirent [simp]: "length (make_dirent name n) = 16"
proof -
  have "length (takeWhile (\<lambda>c. c \<noteq> 0) (take DIRSIZ name)) \<le> DIRSIZ"
    using length_takeWhile_le[of "\<lambda>c. c \<noteq> 0" "take DIRSIZ name"] by simp
  then show ?thesis by (simp add: make_dirent_def strncpy_name_def Let_def DIRSIZ_def del: replicate.simps)
qed

lemma root_size_small: "length files < 200 \<Longrightarrow> root_size (length (root_content files)) \<le> MAXFILE * BSIZE"
proof -
  assume l: "length files < 200"
  have "length (root_content files) = 16 * (length files + 2)"
    by (simp add: root_content_def length_concat comp_def dir_entry_def sum_list_triv)
  then have "length (root_content files) div BSIZE + 1 \<le> 8" using l by (simp add: BSIZE_def)
  then show ?thesis unfolding root_size_def by (rule mult_le_mono1[THEN le_trans]) (simp add: MAXFILE_def NDIRECT_def NINDIRECT_def BSIZE_def)
qed

lemma live_numbers:
  assumes u: "has_files u fs"
  shows "live_inodes u = of_nat ` {1..length fs}"
proof (intro set_eqI iffI)
  show "n \<in> of_nat ` {1..length fs}" if "n \<in> live_inodes u" for n using live_index[OF u that] by force
  show "n \<in> live_inodes u" if n: "n \<in> of_nat ` {1..length fs}" for n
  proof -
    obtain j where "n = of_nat j" "j \<in> {1..length fs}" using n by blast
    then obtain k where "n = of_nat (Suc k)" "k < length fs" by (cases j) auto
    then show ?thesis using live_files[OF u] by simp
  qed
qed

lemma file_inode:
  assumes u: "has_files u (files_of files)" and i: "i < length files"
  shows "i_type (inode_of u (of_nat (i + 2))) = T_FILE" "content_of u (of_nat (i + 2)) = concat (the (snd (files ! i)))"
    "of_nat (i + 2) \<in> live_inodes u" "of_nat (i + 2) \<noteq> (1 :: u32)"
proof -
  have l: "of_nat (i + 2) \<in> live_inodes u" "unat (of_nat (i + 2) :: u32) = i + 2"
    using live_files[OF u, of "i + 1"] i by (simp_all add: files_of_def)
  show "of_nat (i + 2) \<in> live_inodes u" by (rule l(1))
  show "of_nat (i + 2) \<noteq> (1 :: u32)" using l(2) unsigned_1[where 'a = nat and 'b = 32] by (metis add_2_eq_Suc' nat.inject nat.simps(3) One_nat_def)
  have "files_of files ! (i + 1) = (T_FILE, concat (the (snd (files ! i))))" using i by (simp add: files_of_def)
  then show "i_type (inode_of u (of_nat (i + 2))) = T_FILE" "content_of u (of_nat (i + 2)) = concat (the (snd (files ! i)))"
    using u i by (auto simp: has_files_def files_of_def)
qed

lemma finished_used:
  assumes u: "has_files u fs" "1 \<in> live_inodes u" and b: "unat b < 1000"
  shows "block_used mk_super (sec (finished u)) b \<longleftrightarrow>
    unat b < 59 \<or> (\<exists>n \<in> live_inodes u. b \<in> blocks_of (sec (finished u)) (inode_of (finished u) n))"
proof -
  have inv: "mk_inv u" using u(1) by (simp add: has_files_def)
  have "(\<exists>n \<in> live_inodes u. b \<in> blocks_of (sec (finished u)) (inode_of (finished u) n)) \<longleftrightarrow> data_block u b"
    using no_block_lost[OF u(1)] finished_inode(2)[OF inv u(2)] by auto
  then show ?thesis using finished_map[OF inv b] img_okD(4)[OF mk_invD(1)[OF inv]] by (auto simp: data_block_def)
qed

text \<open>
  C15. For files whose names have no slash and that can be read, and that fit, \<open>mkfs\<close> makes the image
  of a file system the kernel can mount: the superblock reads back, the log is empty; every file has
  the bytes that were read, the root directory has an entry for each, padded with zeros; the free map
  marks exactly the blocks before the data and the blocks of the files, and no block is used twice.
\<close>

theorem mkfs_makes_file_system:
  assumes "\<forall>f \<in> set files. SLASH \<notin> set (fst f) \<and> snd f \<noteq> None" "image_fits (files_of files)"
  shows "\<exists>t. mkfs files s = Ret () t \<and> layout FSSIZE mk_super \<and> fs_ok mk_super (sec t) \<and>
    decode_sb (sec t 1) = mk_super \<and> get32 (sec t (sb_logstart mk_super)) 0 = 0 \<and>
    (\<forall>i < length files. i_type (inode_of t (of_nat (i + 2))) = T_FILE \<and>
      content_of t (of_nat (i + 2)) = concat (the (snd (files ! i)))) \<and>
    i_type (inode_of t ROOTINO) = T_DIR \<and> content_of t ROOTINO = padded (root_content files) \<and>
    live_inodes t = of_nat ` {1..length files + 1} \<and>
    (\<forall>n \<in> live_inodes t. file_ok (allocated mk_super (sec t)) (sec t) (inode_of t n)) \<and>
    (\<forall>m \<in> live_inodes t. \<forall>n \<in> live_inodes t. m \<noteq> n \<longrightarrow> blocks_of (sec t) (inode_of t m) \<inter> blocks_of (sec t) (inode_of t n) = {}) \<and>
    (\<forall>b. unat b < FSSIZE \<longrightarrow> (block_used mk_super (sec t) b \<longleftrightarrow>
      unat b < nmeta \<or> (\<exists>n \<in> live_inodes t. b \<in> blocks_of (sec t) (inode_of t n))))"
proof -
  from mkfs_run[OF assms] obtain u where u: "has_files u (files_of files)" "mkfs files s = Ret () (finished u)" by blast
  let ?t = "finished u"
  have inv: "mk_inv u" using u(1) by (simp add: has_files_def)
  note I = mk_invD[OF inv]
  have live: "live_inodes ?t = live_inodes u" by (simp add: live_inodes_def finished_def)
  have nums: "live_inodes u = of_nat ` {1..length files + 1}" using live_numbers[OF u(1)] by (simp add: files_of_def)
  have one: "1 \<in> live_inodes u" using live_files[OF u(1), of 0] by (simp add: files_of_def)
  have root: "i_type (inode_of u 1) = T_DIR" "content_of u 1 = root_content files"
    using u(1) by (auto simp: has_files_def files_of_def)
  have r: "root_size (size_of u 1) \<le> MAXFILE * BSIZE"
    using arg_cong[OF root(2), of length] assms(2) root_size_small[of files] by (simp add: image_fits_def files_of_def)
  note N = finished_inode[OF inv one] and F = file_inode[OF u(1)]
  have fb: "59 \<le> unat (mk_freeblock u)" using img_okD(4)[OF I(1)] .
  have alloc: "allocated mk_super (sec ?t) b" if "data_block u b" for b
    using that finished_map[OF inv, of b] img_okD(5)[OF I(1)] mkfs_layout by (simp add: allocated_def data_block_def)
  have "fs_ok mk_super (sec ?t)" using finished_map[OF inv] fb by (simp add: fs_ok_def mkfs_layout)
  moreover have "decode_sb (sec ?t 1) = mk_super" "get32 (sec ?t (sb_logstart mk_super)) 0 = 0"
    using u(1) finished_sectors[of 1 u] finished_sectors[of 2 u]
    by (simp_all add: has_files_def low_sector_def decode_encode_sb) (simp add: mk_super_def get32_def BSIZE_def)
  moreover have "file_ok (allocated mk_super (sec ?t)) (sec ?t) (inode_of ?t n)" if "n \<in> live_inodes u" for n
    unfolding N(3)[OF that] using I(4)[OF that] alloc file_ok_mono[of "data_block u" "sec u" "inode_of u n"] by (auto simp: sound_def file_in_def)
  moreover have "i_type (inode_of ?t (of_nat (i + 2))) = T_FILE" "content_of ?t (of_nat (i + 2)) = concat (the (snd (files ! i)))" if "i < length files" for i
    using F(1,2,4)[OF that] N(1,4)[OF F(3)[OF that]] by simp_all
  moreover have "i_type (inode_of ?t 1) = T_DIR" "content_of ?t 1 = padded (root_content files)"
    using N(1)[OF one] N(5)[OF one refl r] root by (simp_all add: fixed_root_def)
  moreover have "blocks_of (sec ?t) (inode_of ?t m) \<inter> blocks_of (sec ?t) (inode_of ?t n) = {}" if "m \<in> live_inodes u" "n \<in> live_inodes u" "m \<noteq> n" for m n
    unfolding N(2)[OF that(1)] N(2)[OF that(2)] by (rule I(5)[OF that])
  ultimately show ?thesis using u(2) mkfs_layout(1) nums finished_used[OF u(1) one] unfolding live[symmetric] ROOTINO_def mkfs_sizes
    by (intro exI[of _ ?t] conjI allI ballI impI) assumption+
qed

definition one_program :: "mk_file list" where
  "one_program = [([95, 99, 97, 116], Some [[1, 2, 3], [4]])]"

lemma mkfs_makes_file_system_witness:
  "\<exists>t. mkfs one_program blank_image = Ret () t \<and> content_of t 2 = [1, 2, 3, 4] \<and> i_type (inode_of t 1) = T_DIR"
proof -
  have n: "length one_program = 1" "one_program ! 0 = ([95, 99, 97, 116], Some [[1, 2, 3], [4]])" by (simp_all add: one_program_def)
  have "\<forall>f \<in> set one_program. SLASH \<notin> set (fst f) \<and> snd f \<noteq> None" by (simp add: one_program_def SLASH_def ch_def)
  moreover have "image_fits (files_of one_program)"
    by (simp add: image_fits_def files_of_def blocks_needed_def blocks_for_def n root_content_def dir_entry_def BSIZE_def MAXFILE_def NDIRECT_def NINDIRECT_def)
      (simp add: one_program_def)
  ultimately show ?thesis using mkfs_makes_file_system[of one_program blank_image] n by (auto simp: ROOTINO_def)
qed

end
