(* ===== verification/Ide.thy ===== *)
theory Ide
  imports Bio
begin

unbundle bit_operations_syntax

text \<open>
  The disk driver \<open>ide.c\<close>: the queue of requests, linked through the buffers; the commands it gives
  to the controller through its ports; the interrupt handler. The controller is not part of the
  program: it is the record \<open>ide_ops\<close> of what the port instructions do to its state, an argument of
  the definitions. A thread holds \<open>idelock\<close> from its \<open>acquire\<close> to its \<open>release\<close> or \<open>sleep\<close>, so each
  of these stretches is one step; \<open>id_asleep\<close> holds the buffers whose threads sleep in \<open>iderw\<close>.
\<close>

section \<open>State\<close>

record ide_buf = buf +
  b_qnext :: "nat option"

record 'd ide_ops =
  op_outb :: "u16 \<Rightarrow> u8 \<Rightarrow> 'd \<Rightarrow> 'd"
  op_inb :: "u16 \<Rightarrow> 'd \<Rightarrow> u8 \<times> 'd"
  op_outsl :: "u16 \<Rightarrow> u8 list \<Rightarrow> 'd \<Rightarrow> 'd"
  op_insl :: "u16 \<Rightarrow> nat \<Rightarrow> 'd \<Rightarrow> u8 list \<times> 'd"

record 'd ide =
  idequeue :: "nat option"
  havedisk1 :: bool
  id_bufs :: "ide_buf list"
  id_locked :: "nat set"
  id_asleep :: "nat set"
  id_dev :: 'd

type_synonym ('a, 'd) idm = "'d ide \<Rightarrow> ('a, 'd ide) outcome"

definition ibuf :: "'d ide \<Rightarrow> nat \<Rightarrow> ide_buf" where
  "ibuf s b = id_bufs s ! b"

definition upd_ibuf :: "nat \<Rightarrow> (ide_buf \<Rightarrow> ide_buf) \<Rightarrow> 'd ide \<Rightarrow> 'd ide" where
  "upd_ibuf b f s = s\<lparr>id_bufs := (id_bufs s)[b := f (id_bufs s ! b)]\<rparr>"

section \<open>Ports\<close>

definition SECTOR_SIZE :: nat where "SECTOR_SIZE = 512"
definition IDE_BSY :: u8 where "IDE_BSY = 0x80"
definition IDE_DRDY :: u8 where "IDE_DRDY = 0x40"
definition IDE_DF :: u8 where "IDE_DF = 0x20"
definition IDE_ERR :: u8 where "IDE_ERR = 0x01"
definition IDE_CMD_READ :: u8 where "IDE_CMD_READ = 0x20"
definition IDE_CMD_WRITE :: u8 where "IDE_CMD_WRITE = 0x30"
definition IDE_CMD_RDMUL :: u8 where "IDE_CMD_RDMUL = 0xc4"
definition IDE_CMD_WRMUL :: u8 where "IDE_CMD_WRMUL = 0xc5"

definition outb :: "'d ide_ops \<Rightarrow> u16 \<Rightarrow> u8 \<Rightarrow> (unit, 'd) idm" where
  "outb ops p v = kupd (\<lambda>s. s\<lparr>id_dev := op_outb ops p v (id_dev s)\<rparr>)"

definition inb :: "'d ide_ops \<Rightarrow> u16 \<Rightarrow> (u8, 'd) idm" where
  "inb ops p s = (let (v, d) = op_inb ops p (id_dev s) in Ret v (s\<lparr>id_dev := d\<rparr>))"

definition outsl :: "'d ide_ops \<Rightarrow> u16 \<Rightarrow> u8 list \<Rightarrow> (unit, 'd) idm" where
  "outsl ops p bs = kupd (\<lambda>s. s\<lparr>id_dev := op_outsl ops p bs (id_dev s)\<rparr>)"

definition insl :: "'d ide_ops \<Rightarrow> u16 \<Rightarrow> nat \<Rightarrow> (u8 list, 'd) idm" where
  "insl ops p n s = (let (bs, d) = op_insl ops p n (id_dev s) in Ret bs (s\<lparr>id_dev := d\<rparr>))"

section \<open>Commands\<close>

text \<open>The loop of \<open>idewait\<close>, for at most the given number of polls.\<close>

fun idewait :: "'d ide_ops \<Rightarrow> nat \<Rightarrow> bool \<Rightarrow> (int, 'd) idm" where
  "idewait ops 0 checkerr = (\<lambda>s. Spin)"
| "idewait ops (Suc n) checkerr = kbind (inb ops 0x1f7) (\<lambda>r.
     if r AND (IDE_BSY OR IDE_DRDY) \<noteq> IDE_DRDY then idewait ops n checkerr
     else kret (if checkerr \<and> r AND (IDE_DF OR IDE_ERR) \<noteq> 0 then - 1 else 0))"

definition ideinit :: "'d ide_ops \<Rightarrow> nat \<Rightarrow> (unit, 'd) idm" where
  "ideinit ops n = kbind (idewait ops n False) (\<lambda>_.
     kbind (outb ops 0x1f6 (0xe0 OR push_bit 4 1)) (\<lambda>_.
     kbind (kfind [0..<1000] (\<lambda>i. kbind (inb ops 0x1f7) (\<lambda>v.
       if v \<noteq> 0 then kbind (kupd (\<lambda>s. s\<lparr>havedisk1 := True\<rparr>)) (\<lambda>_. kret (Some ())) else kret None))) (\<lambda>_.
     outb ops 0x1f6 (0xe0 OR push_bit 4 0))))"

definition idestart :: "'d ide_ops \<Rightarrow> nat \<Rightarrow> nat option \<Rightarrow> (unit, 'd) idm" where
  "idestart ops n bp = (case bp of None \<Rightarrow> kpanic ''idestart'' | Some b \<Rightarrow>
     kbind (kwhen (\<lambda>s. of_nat FSSIZE \<le> b_blockno (ibuf s b)) (kpanic ''incorrect blockno'')) (\<lambda>_.
     kbind (kget (\<lambda>s. ibuf s b)) (\<lambda>x.
     let spb = BSIZE div SECTOR_SIZE; sector = b_blockno x * of_nat spb;
       rd = (if spb = 1 then IDE_CMD_READ else IDE_CMD_RDMUL); wr = (if spb = 1 then IDE_CMD_WRITE else IDE_CMD_WRMUL)
     in kbind (kwhen (\<lambda>s. 7 < spb) (kpanic ''idestart'')) (\<lambda>_.
        kbind (idewait ops n False) (\<lambda>_. kseq [
          outb ops 0x3f6 0,
          outb ops 0x1f2 (of_nat spb),
          outb ops 0x1f3 (ucast (sector AND 0xff)),
          outb ops 0x1f4 (ucast (drop_bit 8 sector AND 0xff)),
          outb ops 0x1f5 (ucast (drop_bit 16 sector AND 0xff)),
          outb ops 0x1f6 (0xe0 OR ucast (push_bit 4 (b_dev x AND 1)) OR ucast (drop_bit 24 sector AND 0x0f)),
          if b_dirty x then kseq [outb ops 0x1f7 wr, outsl ops 0x1f0 (b_data x)] else outb ops 0x1f7 rd])))))"

section \<open>The interrupt handler\<close>

definition wake_thread :: "nat \<Rightarrow> (unit, 'd) idm" where
  "wake_thread b = kupd (\<lambda>s. s\<lparr>id_asleep := id_asleep s - {b}\<rparr>)"

definition ideintr :: "'d ide_ops \<Rightarrow> nat \<Rightarrow> (unit, 'd) idm" where
  "ideintr ops n = kbind (kget idequeue) (\<lambda>bp. case bp of None \<Rightarrow> kret () | Some b \<Rightarrow> kseq [
     kupd (\<lambda>s. s\<lparr>idequeue := b_qnext (ibuf s b)\<rparr>),
     kbind (kget (\<lambda>s. b_dirty (ibuf s b))) (\<lambda>dirty. if dirty then kret () else
       kbind (idewait ops n True) (\<lambda>r. if 0 \<le> r
         then kbind (insl ops 0x1f0 BSIZE) (\<lambda>bs. kupd (upd_ibuf b (\<lambda>x. x\<lparr>b_data := bs\<rparr>))) else kret ())),
     kupd (upd_ibuf b (\<lambda>x. x\<lparr>b_valid := True\<rparr>)),
     kupd (upd_ibuf b (\<lambda>x. x\<lparr>b_dirty := False\<rparr>)),
     wake_thread b,
     kwhen (\<lambda>s. idequeue s \<noteq> None) (kbind (kget idequeue) (idestart ops n))])"

section \<open>Requests\<close>

text \<open>The pointer \<open>pp\<close> into the queue: to \<open>idequeue\<close> or to the \<open>qnext\<close> of a buffer.\<close>

datatype qslot = Qhead | Qnext nat

fun slot_get :: "qslot \<Rightarrow> 'd ide \<Rightarrow> nat option" where
  "slot_get Qhead s = idequeue s"
| "slot_get (Qnext b) s = b_qnext (ibuf s b)"

fun slot_set :: "qslot \<Rightarrow> nat option \<Rightarrow> 'd ide \<Rightarrow> 'd ide" where
  "slot_set Qhead v s = s\<lparr>idequeue := v\<rparr>"
| "slot_set (Qnext b) v s = upd_ibuf b (\<lambda>x. x\<lparr>b_qnext := v\<rparr>) s"

fun queue_end :: "nat \<Rightarrow> qslot \<Rightarrow> (qslot, 'd) idm" where
  "queue_end 0 pp = (\<lambda>s. Spin)"
| "queue_end (Suc k) pp = kbind (kget (slot_get pp)) (\<lambda>v. case v of None \<Rightarrow> kret pp | Some b \<Rightarrow> queue_end k (Qnext b))"

text \<open>\<open>iderw\<close> up to its loop, and one round of the loop: the value is whether the thread leaves it.\<close>

definition ide_append :: "nat \<Rightarrow> (unit, 'd) idm" where
  "ide_append b = kbind (kupd (upd_ibuf b (\<lambda>x. x\<lparr>b_qnext := None\<rparr>))) (\<lambda>_.
     kbind (kget (\<lambda>s. Suc (length (id_bufs s)))) (\<lambda>k.
     kbind (queue_end k Qhead) (\<lambda>pp. kupd (slot_set pp (Some b)))))"

definition ide_test :: "nat \<Rightarrow> (bool, 'd) idm" where
  "ide_test b = kif (\<lambda>s. b_valid (ibuf s b) \<and> \<not> b_dirty (ibuf s b)) (kret True)
     (kbind (kupd (\<lambda>s. s\<lparr>id_asleep := insert b (id_asleep s)\<rparr>)) (\<lambda>_. kret False))"

definition ide_rw :: "'d ide_ops \<Rightarrow> nat \<Rightarrow> nat \<Rightarrow> (bool, 'd) idm" where
  "ide_rw ops n b = kbind (kseq [
     kwhen (\<lambda>s. b \<notin> id_locked s) (kpanic ''iderw: buf not locked''),
     kwhen (\<lambda>s. b_valid (ibuf s b) \<and> \<not> b_dirty (ibuf s b)) (kpanic ''iderw: nothing to do''),
     kwhen (\<lambda>s. b_dev (ibuf s b) \<noteq> 0 \<and> \<not> havedisk1 s) (kpanic ''iderw: ide disk 1 not present''),
     ide_append b,
     kwhen (\<lambda>s. idequeue s = Some b) (idestart ops n (Some b))]) (\<lambda>_. ide_test b)"

end
