(* ===== verification/Ide_Queue.thy ===== *)
theory Ide_Queue
  imports Ide
begin

unbundle bit_operations_syntax

text \<open>
  The driver of \<open>ide.c\<close> is a queue: requests are handed to the disk one at a time in the order in
  which they were made, each gets the content of its sector at its turn, and its thread is woken.
  What the driver relies on of the controller is stated as \<open>ata\<close>.
\<close>

section \<open>The controller\<close>

text \<open>
  The sector the registers select: the drive bit of the device register and the 28 bits of the
  sector number.
\<close>

definition target :: "(u16 \<Rightarrow> u8) \<Rightarrow> nat \<times> nat" where
  "target r = (if bit (r 0x1f6) 4 then 1 else 0,
     unat (r 0x1f3) + 256 * unat (r 0x1f4) + 65536 * unat (r 0x1f5) + 16777216 * unat (r 0x1f6 AND 0x0f))"

text \<open>A controller that becomes ready, without an error, before it is polled \<open>n\<close> times.\<close>

definition ready :: "u8 \<Rightarrow> bool" where
  "ready v \<longleftrightarrow> v AND (IDE_BSY OR IDE_DRDY) = IDE_DRDY \<and> v AND (IDE_DF OR IDE_ERR) = 0"

fun ready_within :: "'d ide_ops \<Rightarrow> nat \<Rightarrow> 'd \<Rightarrow> bool" where
  "ready_within ops 0 d \<longleftrightarrow> False"
| "ready_within ops (Suc n) d \<longleftrightarrow> (case op_inb ops 0x1f7 d of (v, d') \<Rightarrow>
     ready v \<or> v AND (IDE_BSY OR IDE_DRDY) \<noteq> IDE_DRDY \<and> ready_within ops n d')"

text \<open>
  The documented behaviour of the ports for reading and writing single sectors: \<open>reg\<close> gives the
  bytes written last to the ports, \<open>media\<close> the sectors of the drives.
\<close>

definition ata :: "'d ide_ops \<Rightarrow> nat \<Rightarrow> ('d \<Rightarrow> u16 \<Rightarrow> u8) \<Rightarrow> ('d \<Rightarrow> nat \<times> nat \<Rightarrow> u8 list) \<Rightarrow> bool" where
  "ata ops n reg media \<longleftrightarrow>
     (\<forall>d p v. reg (op_outb ops p v d) = (reg d)(p := v) \<and> media (op_outb ops p v d) = media d) \<and>
     (\<forall>d p. reg (snd (op_inb ops p d)) = reg d \<and> media (snd (op_inb ops p d)) = media d) \<and>
     (\<forall>d bs. reg d 0x1f7 = IDE_CMD_WRITE \<longrightarrow> reg d 0x1f2 = 1 \<longrightarrow> length bs = BSIZE \<longrightarrow>
        reg (op_outsl ops 0x1f0 bs d) = reg d \<and> media (op_outsl ops 0x1f0 bs d) = (media d)(target (reg d) := bs)) \<and>
     (\<forall>d. reg d 0x1f7 = IDE_CMD_READ \<longrightarrow> reg d 0x1f2 = 1 \<longrightarrow>
        (case op_insl ops 0x1f0 BSIZE d of (bs, d') \<Rightarrow> bs = media d (target (reg d)) \<and> reg d' = reg d \<and> media d' = media d)) \<and>
     (\<forall>d. ready_within ops n d)"

lemma ataD:
  assumes "ata ops n reg media"
  shows "reg (op_outb ops p v d) = (reg d)(p := v)" "media (op_outb ops p v d) = media d"
    "op_inb ops p d = (v, d') \<Longrightarrow> reg d' = reg d \<and> media d' = media d"
    "reg d 0x1f7 = IDE_CMD_WRITE \<Longrightarrow> reg d 0x1f2 = 1 \<Longrightarrow> length bs = BSIZE \<Longrightarrow>
        reg (op_outsl ops 0x1f0 bs d) = reg d \<and> media (op_outsl ops 0x1f0 bs d) = (media d)(target (reg d) := bs)"
    "reg d 0x1f7 = IDE_CMD_READ \<Longrightarrow> reg d 0x1f2 = 1 \<Longrightarrow>
        \<exists>d'. op_insl ops 0x1f0 BSIZE d = (media d (target (reg d)), d') \<and> reg d' = reg d \<and> media d' = media d"
    "ready_within ops n d"
proof -
  note A = assms[unfolded ata_def]
  show "reg (op_outb ops p v d) = (reg d)(p := v)" "media (op_outb ops p v d) = media d" "ready_within ops n d" using A by blast+
  show "op_inb ops p d = (v, d') \<Longrightarrow> reg d' = reg d \<and> media d' = media d" using A by (metis snd_conv)
  show "reg d 0x1f7 = IDE_CMD_WRITE \<Longrightarrow> reg d 0x1f2 = 1 \<Longrightarrow> length bs = BSIZE \<Longrightarrow>
        reg (op_outsl ops 0x1f0 bs d) = reg d \<and> media (op_outsl ops 0x1f0 bs d) = (media d)(target (reg d) := bs)"
    using A by blast
  assume c: "reg d 0x1f7 = IDE_CMD_READ" "reg d 0x1f2 = 1"
  from A have "\<forall>d. reg d 0x1f7 = IDE_CMD_READ \<longrightarrow> reg d 0x1f2 = 1 \<longrightarrow>
      (case op_insl ops 0x1f0 BSIZE d of (bs, d') \<Rightarrow> bs = media d (target (reg d)) \<and> reg d' = reg d \<and> media d' = media d)"
    by (elim conjE)
  with c show "\<exists>d'. op_insl ops 0x1f0 BSIZE d = (media d (target (reg d)), d') \<and> reg d' = reg d \<and> media d' = media d"
    by (cases "op_insl ops 0x1f0 BSIZE d") auto
qed

lemma idewait_ok:
  assumes a: "ata ops m reg media"
  shows "ready_within ops n (id_dev s) \<Longrightarrow> \<exists>d. idewait ops n c s = Ret 0 (s\<lparr>id_dev := d\<rparr>) \<and> reg d = reg (id_dev s) \<and> media d = media (id_dev s)"
proof (induction n arbitrary: s)
  case (Suc n)
  obtain v d where v: "op_inb ops 0x1f7 (id_dev s) = (v, d)" by (cases "op_inb ops 0x1f7 (id_dev s)")
  note D = ataD(3)[OF a v]
  show ?case
  proof (cases "ready v")
    case True
    then show ?thesis using v D by (auto simp: kexec inb_def ready_def)
  next
    case False
    then have r: "v AND (IDE_BSY OR IDE_DRDY) \<noteq> IDE_DRDY" "ready_within ops n d" using Suc.prems v by auto
    then show ?thesis using Suc.IH[of "s\<lparr>id_dev := d\<rparr>"] v D by (auto simp: kexec inb_def)
  qed
qed simp

section \<open>A command\<close>

definition place :: "ide_buf \<Rightarrow> nat \<times> nat" where
  "place x = (unat (b_dev x AND 1), unat (b_blockno x))"

definition commanded :: "(u16 \<Rightarrow> u8) \<Rightarrow> ide_buf \<Rightarrow> bool" where
  "commanded r x \<longleftrightarrow> target r = place x \<and> r 0x1f2 = 1 \<and> r 0x1f7 = (if b_dirty x then IDE_CMD_WRITE else IDE_CMD_READ)"

text \<open>The bytes of the sector number and the drive bit are put together again.\<close>

lemma byte_of: "unat (ucast (w AND 0xff :: u32) :: u8) = unat w mod 256"
proof -
  have "(w AND 0xff) = take_bit 8 w" by (simp add: take_bit_eq_mask mask_eq_exp_minus_1)
  then have "(ucast (w AND 0xff) :: u8) = ucast w" by (auto intro!: bit_eqI simp: bit_simps)
  then show ?thesis by (simp add: unsigned_ucast_eq take_bit_eq_mod)
qed

lemma device_byte:
  fixes v :: u8 and dev :: u32
  assumes "v = 0xe0 OR ucast (push_bit 4 (dev AND 1))"
  shows "v AND 0x0f = 0" "bit v 4 = bit dev 0" "unat (dev AND 1) = (if bit dev 0 then 1 else 0)"
proof -
  have d: "dev AND 1 = (if bit dev 0 then 1 else 0)" by (auto intro!: bit_eqI simp: bit_simps)
  then show "unat (dev AND 1) = (if bit dev 0 then 1 else 0)" by simp
  have "v = (if bit dev 0 then 0xf0 else 0xe0)" unfolding assms d by simp
  then show "v AND 0x0f = 0" "bit v 4 = bit dev 0" by (auto simp: bit_numeral_rec)
qed

lemma target_registers:
  fixes dev s :: u32
  assumes s: "unat s < 1000" and r: "r 0x1f3 = ucast (s AND 0xff)" "r 0x1f4 = ucast (drop_bit 8 s AND 0xff)"
    "r 0x1f5 = ucast (drop_bit 16 s AND 0xff)" "r 0x1f6 = 0xe0 OR ucast (push_bit 4 (dev AND 1)) OR ucast (drop_bit 24 s AND 0x0f)"
  shows "target r = (unat (dev AND 1), unat s)"
proof -
  have "unat (drop_bit k s) = drop_bit k (unat s)" for k using s by (simp add: unsigned_drop_bit_eq take_bit_nat_eq_self)
  then have d: "unat (drop_bit k s) = unat s div 2 ^ k" for k by (simp only: drop_bit_eq_div)
  have z: "drop_bit 16 s = 0" "drop_bit 24 s = 0" using d[of 16] d[of 24] s by (simp_all add: word_unat_eq_iff)
  have "r 0x1f6 = 0xe0 OR ucast (push_bit 4 (dev AND 1))" using r(4) z(2) by simp
  note B = device_byte[OF this]
  have "unat (r 0x1f3) = unat s mod 256" unfolding r by (rule byte_of)
  moreover have "unat (r 0x1f4) = unat s div 256" using byte_of[of "drop_bit 8 s"] d[of 8] s by (simp add: r(2))
  moreover have "unat (r 0x1f5) = 0" unfolding r z by simp
  ultimately show ?thesis unfolding target_def B by simp
qed

lemma outb_exec: "outb ops p v s = Ret () (s\<lparr>id_dev := op_outb ops p v (id_dev s)\<rparr>)"
  by (simp add: outb_def kexec)

lemma outsl_exec: "outsl ops p bs s = Ret () (s\<lparr>id_dev := op_outsl ops p bs (id_dev s)\<rparr>)"
  by (simp add: outsl_def kexec)

lemma ibuf_dev [simp]: "ibuf (s\<lparr>id_dev := d\<rparr>) b = ibuf s b"
  by (simp add: ibuf_def)

lemma idestart_ok:
  assumes a: "ata ops n reg media" and x: "unat (b_blockno (ibuf s b)) < 1000" "length (b_data (ibuf s b)) = BSIZE"
  shows "\<exists>d. idestart ops n (Some b) s = Ret () (s\<lparr>id_dev := d\<rparr>) \<and> commanded (reg d) (ibuf s b) \<and>
    media d = (if b_dirty (ibuf s b) then (media (id_dev s))(place (ibuf s b) := b_data (ibuf s b)) else media (id_dev s))"
proof -
  let ?x = "ibuf s b"
  obtain d0 where w: "idewait ops n False s = Ret 0 (s\<lparr>id_dev := d0\<rparr>)" "reg d0 = reg (id_dev s)" "media d0 = media (id_dev s)"
    using idewait_ok[OF a ataD(6)[OF a]] by blast
  note A = ataD(1,2)[OF a]
  define d1 where "d1 = op_outb ops 0x1f6 (0xe0 OR ucast (push_bit 4 (b_dev ?x AND 1)) OR ucast (drop_bit 24 (b_blockno ?x) AND 0x0f))
    (op_outb ops 0x1f5 (ucast (drop_bit 16 (b_blockno ?x) AND 0xff)) (op_outb ops 0x1f4 (ucast (drop_bit 8 (b_blockno ?x) AND 0xff))
    (op_outb ops 0x1f3 (ucast (b_blockno ?x AND 0xff)) (op_outb ops 0x1f2 1 (op_outb ops 0x3f6 0 d0)))))"
  have t: "target ((reg d1)(0x1f7 := c)) = place ?x" "reg d1 0x1f2 = 1" for c
    unfolding place_def d1_def using x(1) by (intro target_registers; simp add: A) (simp add: A)
  have m: "media d1 = media (id_dev s)" by (simp add: d1_def A w(3))
  have nb: "\<not> of_nat FSSIZE \<le> b_blockno ?x" using x(1) by (simp add: word_le_nat_alt FSSIZE_def)
  let ?c = "if b_dirty ?x then IDE_CMD_WRITE else IDE_CMD_READ"
  define d2 where "d2 = op_outb ops 0x1f7 ?c d1"
  have r2: "reg d2 = (reg d1)(0x1f7 := ?c)" "media d2 = media d1" by (simp_all add: d2_def A)
  have c2: "commanded (reg d2) ?x" using t by (simp add: commanded_def r2)
  have e: "idestart ops n (Some b) s = Ret () (s\<lparr>id_dev := (if b_dirty ?x then op_outsl ops 0x1f0 (b_data ?x) d2 else d2)\<rparr>)"
    using nb w(1) by (simp add: idestart_def kbind_def kwhen_def kget_def kret_def Let_def outb_exec outsl_exec BSIZE_def SECTOR_SIZE_def d2_def d1_def)
  have "reg (op_outsl ops 0x1f0 (b_data ?x) d2) = reg d2" "media (op_outsl ops 0x1f0 (b_data ?x) d2) = (media d2)(place ?x := b_data ?x)" if "b_dirty ?x"
    using ataD(4)[OF a, of d2 "b_data ?x"] c2 x(2) that by (auto simp: commanded_def)
  then show ?thesis using e c2 r2(2) m by (intro exI[of _ "if b_dirty ?x then op_outsl ops 0x1f0 (b_data ?x) d2 else d2"]) auto
qed

section \<open>The linked queue\<close>

primrec qlist :: "'d ide \<Rightarrow> nat option \<Rightarrow> nat list \<Rightarrow> bool" where
  "qlist s v [] \<longleftrightarrow> v = None"
| "qlist s v (b # Q) \<longleftrightarrow> v = Some b \<and> qlist s (b_qnext (ibuf s b)) Q"

lemma qlist_cong: "(\<And>b. b \<in> set Q \<Longrightarrow> b_qnext (ibuf t b) = b_qnext (ibuf s b)) \<Longrightarrow> qlist t v Q = qlist s v Q"
  by (induction Q arbitrary: v) auto

lemma ibuf_upd: "ibuf (upd_ibuf b f s) c = (if c = b \<and> b < length (id_bufs s) then f (ibuf s b) else ibuf s c)"
  by (cases "b < length (id_bufs s)") (auto simp: ibuf_def upd_ibuf_def list_update_beyond)

lemma upd_ibuf_fields [simp]: "idequeue (upd_ibuf b f s) = idequeue s" "havedisk1 (upd_ibuf b f s) = havedisk1 s"
  "length (id_bufs (upd_ibuf b f s)) = length (id_bufs s)" "id_locked (upd_ibuf b f s) = id_locked s"
  "id_asleep (upd_ibuf b f s) = id_asleep s" "id_dev (upd_ibuf b f s) = id_dev s"
  by (simp_all add: upd_ibuf_def)

lemma ibuf_other [simp]: "ibuf (s\<lparr>idequeue := q\<rparr>) b = ibuf s b" "ibuf (s\<lparr>id_asleep := A\<rparr>) b = ibuf s b"
  by (simp_all add: ibuf_def)

lemma queue_end_ok:
  "qlist s (slot_get pp s) Q \<Longrightarrow> length Q < k \<Longrightarrow> queue_end k pp s = Ret (if Q = [] then pp else Qnext (last Q)) s"
proof (induction Q arbitrary: k pp)
  case Nil
  then show ?case by (cases k) (simp_all add: kexec)
next
  case (Cons b Q)
  obtain k' where k: "k = Suc k'" using Cons.prems(2) by (cases k) auto
  have "queue_end k' (Qnext b) s = Ret (if Q = [] then Qnext b else Qnext (last Q)) s"
    using Cons.IH[of "Qnext b" k'] Cons.prems k by simp
  then show ?case using Cons.prems(1) k by (simp add: kexec)
qed

lemma qlist_snoc:
  "qlist s v Q \<Longrightarrow> Q \<noteq> [] \<Longrightarrow> distinct Q \<Longrightarrow> b \<notin> set Q \<Longrightarrow> last Q < length (id_bufs s) \<Longrightarrow> b_qnext (ibuf s b) = None \<Longrightarrow>
    qlist (upd_ibuf (last Q) (\<lambda>x. x\<lparr>b_qnext := Some b\<rparr>) s) v (Q @ [b])"
proof (induction Q arbitrary: v)
  case (Cons c Q)
  show ?case
  proof (cases "Q = []")
    case True
    then show ?thesis using Cons.prems by (auto simp: ibuf_upd)
  next
    case False
    then have "c \<noteq> last Q" using Cons.prems(3) by auto
    then show ?thesis using Cons False by (auto simp: ibuf_upd)
  qed
qed simp

text \<open>All of a buffer but its link in the queue.\<close>

lemma truncate_qnext [simp]: "buf.truncate (x\<lparr>b_qnext := v\<rparr>) = buf.truncate x"
  by (cases x) (simp add: buf.truncate_def)

lemma truncate_eq: "buf.truncate x = buf.truncate y \<Longrightarrow> b_valid x = b_valid y \<and> b_dirty x = b_dirty y \<and> b_dev x = b_dev y \<and>
    b_blockno x = b_blockno y \<and> b_data x = b_data y"
  by (simp add: buf.truncate_def)

lemma ide_append_ok:
  assumes q: "qlist s (idequeue s) Q" "distinct Q" "\<forall>c \<in> set Q. c < length (id_bufs s)" and b: "b \<notin> set Q" "b < length (id_bufs s)"
  shows "\<exists>t. ide_append b s = Ret () t \<and> qlist t (idequeue t) (Q @ [b]) \<and> havedisk1 t = havedisk1 s \<and> id_locked t = id_locked s \<and>
    length (id_bufs t) = length (id_bufs s) \<and> id_asleep t = id_asleep s \<and> id_dev t = id_dev s \<and>
    (\<forall>c. buf.truncate (ibuf t c) = buf.truncate (ibuf s c))"
proof -
  define s1 where "s1 = upd_ibuf b (\<lambda>x. x\<lparr>b_qnext := None\<rparr>) s"
  have "qlist s1 (idequeue s) Q = qlist s (idequeue s) Q" by (rule qlist_cong) (use b(1) in \<open>auto simp: s1_def ibuf_upd\<close>)
  then have q1: "qlist s1 (idequeue s1) Q" using q(1) by (simp add: s1_def)
  have n: "b_qnext (ibuf s1 b) = None" using b(2) by (simp add: s1_def ibuf_upd)
  have "length Q = card (set Q)" using q(2) by (simp add: distinct_card)
  also have "\<dots> \<le> card {..<length (id_bufs s)}" using q(3) by (intro card_mono) auto
  finally have le: "length Q < Suc (length (id_bufs s1))" by (simp add: s1_def)
  define pp where "pp = (if Q = [] then Qhead else Qnext (last Q))"
  have "queue_end (Suc (length (id_bufs s1))) Qhead s1 = Ret pp s1"
    unfolding pp_def by (rule queue_end_ok[OF _ le]) (use q1 in simp)
  then have e: "ide_append b s = Ret () (slot_set pp (Some b) s1)"
    by (simp add: ide_append_def kbind_def kupd_def kget_def s1_def del: queue_end.simps)
  have "qlist (slot_set pp (Some b) s1) (idequeue (slot_set pp (Some b) s1)) (Q @ [b])"
  proof (cases "Q = []")
    case True
    then show ?thesis using n by (simp add: pp_def)
  next
    case False
    then have "last Q < length (id_bufs s1)" using q(3) by (simp add: s1_def)
    from qlist_snoc[OF q1 False q(2) b(1) this n] show ?thesis using False by (simp add: pp_def)
  qed
  moreover have "buf.truncate (ibuf (slot_set pp (Some b) s1) c) = buf.truncate (ibuf s c)" for c
    by (cases pp) (auto simp: ibuf_upd s1_def)
  ultimately show ?thesis using e by (cases pp) (auto simp: s1_def)
qed

section \<open>The driver as a queue\<close>

text \<open>
  The requests \<open>Q\<close>, the oldest first, and the content \<open>M\<close> of the sectors once the completed requests
  are carried out. The disk works on the first request, whose thread sleeps like those of the others.
\<close>

definition waiting :: "ide_buf \<Rightarrow> bool" where
  "waiting x \<longleftrightarrow> \<not> (b_valid x \<and> \<not> b_dirty x) \<and> unat (b_blockno x) < FSSIZE \<and> length (b_data x) = BSIZE"

definition sectors_after :: "ide_buf \<Rightarrow> (nat \<times> nat \<Rightarrow> u8 list) \<Rightarrow> nat \<times> nat \<Rightarrow> u8 list" where
  "sectors_after x M = (if b_dirty x then M(place x := b_data x) else M)"

definition serving :: "('d \<Rightarrow> u16 \<Rightarrow> u8) \<Rightarrow> ('d \<Rightarrow> nat \<times> nat \<Rightarrow> u8 list) \<Rightarrow> 'd ide \<Rightarrow> (nat \<times> nat \<Rightarrow> u8 list) \<Rightarrow> nat list \<Rightarrow> bool" where
  "serving reg media s M Q \<longleftrightarrow> qlist s (idequeue s) Q \<and> distinct Q \<and> id_asleep s = set Q \<and>
     (\<forall>b \<in> set Q. b < length (id_bufs s) \<and> waiting (ibuf s b)) \<and> (\<forall>t. length (M t) = BSIZE) \<and>
     (case Q of [] \<Rightarrow> media (id_dev s) = M
      | b # _ \<Rightarrow> commanded (reg (id_dev s)) (ibuf s b) \<and> media (id_dev s) = sectors_after (ibuf s b) M)"

lemma truncate_props:
  assumes "buf.truncate x = buf.truncate y"
  shows "waiting x = waiting y" "place x = place y" "commanded r x = commanded r y" "sectors_after x = sectors_after y"
  using truncate_eq[OF assms] by (auto simp: waiting_def place_def commanded_def sectors_after_def fun_eq_iff)

lemma serving_start:
  assumes a: "ata ops n reg media" and q: "qlist s (idequeue s) (b # Q)" "distinct (b # Q)" "id_asleep s \<union> {b} = insert b (set Q)"
    and w: "\<forall>c \<in> set (b # Q). c < length (id_bufs s) \<and> waiting (ibuf s c)" and m: "media (id_dev s) = M" "\<forall>t. length (M t) = BSIZE"
  shows "\<exists>d. idestart ops n (Some b) s = Ret () (s\<lparr>id_dev := d\<rparr>) \<and> serving reg media (s\<lparr>id_dev := d, id_asleep := insert b (id_asleep s)\<rparr>) M (b # Q)"
proof -
  have x: "unat (b_blockno (ibuf s b)) < 1000" "length (b_data (ibuf s b)) = BSIZE" using w by (auto simp: waiting_def FSSIZE_def)
  obtain d where d: "idestart ops n (Some b) s = Ret () (s\<lparr>id_dev := d\<rparr>)" "commanded (reg d) (ibuf s b)"
    "media d = (if b_dirty (ibuf s b) then (media (id_dev s))(place (ibuf s b) := b_data (ibuf s b)) else media (id_dev s))"
    using idestart_ok[OF a x] by blast
  have "qlist (s\<lparr>id_dev := d, id_asleep := insert b (id_asleep s)\<rparr>) v L = qlist s v L" for v L by (rule qlist_cong) (simp add: ibuf_def)
  then have "serving reg media (s\<lparr>id_dev := d, id_asleep := insert b (id_asleep s)\<rparr>) M (b # Q)"
    using q w m d(2,3) by (auto simp: serving_def sectors_after_def ibuf_def)
  then show ?thesis using d(1) by blast
qed

text \<open>\<open>iderw\<close> puts its request at the end of the queue and its thread to sleep.\<close>

definition may_request :: "'d ide \<Rightarrow> nat \<Rightarrow> bool" where
  "may_request s b \<longleftrightarrow> b < length (id_bufs s) \<and> b \<in> id_locked s \<and> waiting (ibuf s b) \<and> (b_dev (ibuf s b) = 0 \<or> havedisk1 s)"

lemma request_ok:
  assumes a: "ata ops n reg media" and s: "serving reg media s M Q" and b: "may_request s b" "b \<notin> set Q"
  shows "\<exists>t. ide_rw ops n b s = Ret False t \<and> serving reg media t M (Q @ [b]) \<and> length (id_bufs t) = length (id_bufs s) \<and>
    (\<forall>c. buf.truncate (ibuf t c) = buf.truncate (ibuf s c))"
proof -
  have S: "qlist s (idequeue s) Q" "distinct Q" "id_asleep s = set Q" "\<forall>c \<in> set Q. c < length (id_bufs s) \<and> waiting (ibuf s c)"
    "\<forall>t. length (M t) = BSIZE" using s by (simp_all add: serving_def)
  have bl: "b < length (id_bufs s)" "waiting (ibuf s b)" using b(1) by (simp_all add: may_request_def)
  obtain t where t: "ide_append b s = Ret () t" "qlist t (idequeue t) (Q @ [b])" "id_asleep t = id_asleep s" "id_dev t = id_dev s"
    "length (id_bufs t) = length (id_bufs s)" "\<And>c. buf.truncate (ibuf t c) = buf.truncate (ibuf s c)"
    using ide_append_ok[OF S(1,2) _ b(2) bl(1)] S(4) by blast
  note E = truncate_props[OF t(6)] truncate_eq[OF t(6)]
  have w: "\<forall>c \<in> set (Q @ [b]). c < length (id_bufs t) \<and> waiting (ibuf t c)" using S(4) bl t(5) E(1) by auto
  have nv: "\<not> (b_valid (ibuf t b) \<and> \<not> b_dirty (ibuf t b))" using bl(2) truncate_eq[OF t(6)[of b]] by (simp add: waiting_def)
  have head: "idequeue t = Some b \<longleftrightarrow> Q = []" using t(2) b(2) by (cases Q) auto
  have guards: "(b \<notin> id_locked s) = False" "(b_valid (ibuf s b) \<and> \<not> b_dirty (ibuf s b)) = False"
    "(b_dev (ibuf s b) \<noteq> 0 \<and> \<not> havedisk1 s) = False" using b(1) by (auto simp: may_request_def waiting_def)
  have exec: "ide_rw ops n b s = obind (kwhen (\<lambda>s. idequeue s = Some b) (idestart ops n (Some b)) t) (\<lambda>_. ide_test b)"
    using t(1) by (simp add: ide_rw_def kbind_def kwhen_def guards)
  let ?sleep = "\<lambda>u. u\<lparr>id_asleep := insert b (id_asleep u)\<rparr>"
  have test: "ide_test b u = Ret False (?sleep u)" if "ibuf u b = ibuf t b" for u :: "'a ide"
    using nv that by (simp add: ide_test_def kif_def kbind_def kupd_def kret_def)
  have ql: "qlist (?sleep t) v L = qlist t v L" for v L by (rule qlist_cong) (simp add: ibuf_def)
  show ?thesis
  proof (cases "Q = []")
    case True
    have "media (id_dev t) = M" using s True t(4) by (simp add: serving_def)
    from serving_start[OF a _ _ _ _ this S(5), of b "[]"] t(2,3) w S(3) True obtain d where
      d: "idestart ops n (Some b) t = Ret () (t\<lparr>id_dev := d\<rparr>)" "serving reg media (t\<lparr>id_dev := d, id_asleep := insert b (id_asleep t)\<rparr>) M [b]"
      by auto
    have "ide_rw ops n b s = Ret False (?sleep (t\<lparr>id_dev := d\<rparr>))" unfolding exec using head True d(1) test[of "t\<lparr>id_dev := d\<rparr>"] by (simp add: kwhen_def)
    then show ?thesis using d(2) t(5,6) True by (auto simp: ibuf_def)
  next
    case False
    have "ide_rw ops n b s = Ret False (?sleep t)" unfolding exec using head False test[of t] by (simp add: kwhen_def)
    moreover have "serving reg media (?sleep t) M (Q @ [b])"
      using s False S t(2,3,4) w E ql b(2) by (cases Q) (auto simp: serving_def)
    ultimately show ?thesis using t(5,6) by auto
  qed
qed

text \<open>An interrupt completes the first request.\<close>

definition completed :: "ide_buf \<Rightarrow> (nat \<times> nat \<Rightarrow> u8 list) \<Rightarrow> ide_buf" where
  "completed x M = x\<lparr>b_valid := True, b_dirty := False, b_data := sectors_after x M (place x)\<rparr>"

text \<open>Everything but the buffer \<open>b\<close>, the queue and the sleeping threads.\<close>

definition same_but :: "nat \<Rightarrow> 'd ide \<Rightarrow> 'd ide \<Rightarrow> bool" where
  "same_but b s t \<longleftrightarrow> (\<forall>c. c \<noteq> b \<longrightarrow> ibuf t c = ibuf s c) \<and> length (id_bufs t) = length (id_bufs s) \<and>
     id_locked t = id_locked s \<and> havedisk1 t = havedisk1 s"

definition read_sector :: "'d ide_ops \<Rightarrow> nat \<Rightarrow> nat \<Rightarrow> (unit, 'd) idm" where
  "read_sector ops n b = kbind (kget (\<lambda>s. b_dirty (ibuf s b))) (\<lambda>dirty. if dirty then kret () else
       kbind (idewait ops n True) (\<lambda>r. if 0 \<le> r
         then kbind (insl ops 0x1f0 BSIZE) (\<lambda>bs. kupd (upd_ibuf b (\<lambda>x. x\<lparr>b_data := bs\<rparr>))) else kret ()))"

lemma read_sector_ok:
  assumes a: "ata ops n reg media" and b: "b < length (id_bufs s)" and c: "commanded (reg (id_dev s)) (ibuf s b)"
    and m: "media (id_dev s) = sectors_after (ibuf s b) M"
  shows "\<exists>t. read_sector ops n b s = Ret () t \<and> ibuf t b = (ibuf s b)\<lparr>b_data := sectors_after (ibuf s b) M (place (ibuf s b))\<rparr> \<and>
    same_but b s t \<and> idequeue t = idequeue s \<and> id_asleep t = id_asleep s \<and> media (id_dev t) = sectors_after (ibuf s b) M"
proof (cases "b_dirty (ibuf s b)")
  case True
  then show ?thesis using m by (simp add: read_sector_def kexec same_but_def sectors_after_def)
next
  case False
  obtain d where d: "idewait ops n True s = Ret 0 (s\<lparr>id_dev := d\<rparr>)" "reg d = reg (id_dev s)" "media d = media (id_dev s)"
    using idewait_ok[OF a ataD(6)[OF a]] by blast
  from ataD(5)[OF a, of d] c False d(2,3) obtain e where
    e: "op_insl ops 0x1f0 BSIZE d = (media d (place (ibuf s b)), e)" "media e = media d" by (auto simp: commanded_def)
  have "read_sector ops n b s = Ret () (upd_ibuf b (\<lambda>x. x\<lparr>b_data := media d (place (ibuf s b))\<rparr>) (s\<lparr>id_dev := e\<rparr>))"
    using False d(1) e(1) by (simp add: read_sector_def kexec insl_def)
  then show ?thesis using b m d(3) e(2) by (auto simp: same_but_def ibuf_upd)
qed

lemma interrupt_ok:
  assumes a: "ata ops n reg media" and s: "serving reg media s M (b # Q)"
  shows "\<exists>t. ideintr ops n s = Ret () t \<and> serving reg media t (sectors_after (ibuf s b) M) Q \<and>
    buf.truncate (ibuf t b) = buf.truncate (completed (ibuf s b) M) \<and> same_but b s t"
proof -
  let ?x = "ibuf s b" and ?M = "sectors_after (ibuf s b) M"
  have S: "idequeue s = Some b" "qlist s (b_qnext ?x) Q" "distinct (b # Q)" "id_asleep s = insert b (set Q)"
    "\<forall>c \<in> set (b # Q). c < length (id_bufs s) \<and> waiting (ibuf s c)" "\<forall>t. length (M t) = BSIZE"
    "commanded (reg (id_dev s)) ?x" "media (id_dev s) = ?M" using s by (simp_all add: serving_def)
  have M: "\<forall>t. length (?M t) = BSIZE" using S(5,6) by (auto simp: sectors_after_def waiting_def)
  define s1 where "s1 = s\<lparr>idequeue := b_qnext ?x\<rparr>"
  have "\<exists>t. read_sector ops n b s1 = Ret () t \<and> ibuf t b = (ibuf s1 b)\<lparr>b_data := sectors_after (ibuf s1 b) M (place (ibuf s1 b))\<rparr> \<and>
      same_but b s1 t \<and> idequeue t = idequeue s1 \<and> id_asleep t = id_asleep s1 \<and> media (id_dev t) = sectors_after (ibuf s1 b) M"
    by (rule read_sector_ok[OF a]) (use S in \<open>auto simp: s1_def\<close>)
  then obtain s2 where s2: "read_sector ops n b s1 = Ret () s2" "ibuf s2 b = ?x\<lparr>b_data := ?M (place ?x)\<rparr>" "same_but b s s2"
    "idequeue s2 = b_qnext ?x" "id_asleep s2 = id_asleep s" "media (id_dev s2) = ?M" by (auto simp: s1_def same_but_def)
  define s3 where "s3 = (let u = upd_ibuf b (\<lambda>x. x\<lparr>b_dirty := False\<rparr>) (upd_ibuf b (\<lambda>x. x\<lparr>b_valid := True\<rparr>) s2)
     in u\<lparr>id_asleep := id_asleep u - {b}\<rparr>)"
  have exec: "ideintr ops n s = kwhen (\<lambda>s. idequeue s \<noteq> None) (kbind (kget idequeue) (idestart ops n)) s3"
    using S(1) s2(1) unfolding ideintr_def read_sector_def[symmetric]
    by (simp add: kbind_def kget_def kupd_def wake_thread_def s1_def s3_def Let_def)
  have b: "b < length (id_bufs s2)" using S(5) s2(3) by (simp add: same_but_def)
  have s3: "ibuf s3 b = completed ?x M" "same_but b s s3" "idequeue s3 = b_qnext ?x" "id_asleep s3 = set Q" "media (id_dev s3) = ?M"
    using s2 b S(3,4) by (auto simp: s3_def Let_def completed_def same_but_def ibuf_upd)
  have ql: "qlist s3 (idequeue s3) Q"
    unfolding s3(3) using S(2,3) s3(2) by (subst qlist_cong[of Q s3 s]) (auto simp: same_but_def)
  have w: "\<forall>c \<in> set Q. c < length (id_bufs s3) \<and> waiting (ibuf s3 c)" using S(3,5) s3(2) by (auto simp: same_but_def)
  show ?thesis
  proof (cases Q)
    case Nil
    then have "ideintr ops n s = Ret () s3" unfolding exec using ql by (simp add: kwhen_def)
    moreover have "serving reg media s3 ?M Q" using Nil ql s3(4,5) M by (simp add: serving_def)
    ultimately show ?thesis using s3(1,2) by auto
  next
    case (Cons c R)
    then have h: "idequeue s3 = Some c" using ql by simp
    have "c \<in> id_asleep s3" using s3(4) Cons by simp
    then have aw: "insert c (id_asleep s3) = id_asleep s3" by blast
    have asl: "s3\<lparr>id_dev := d, id_asleep := insert c (id_asleep s3)\<rparr> = s3\<lparr>id_dev := d\<rparr>" for d unfolding aw by (cases s3) simp
    from serving_start[OF a ql[unfolded Cons] _ _ w[unfolded Cons] s3(5) M, unfolded asl] S(3) s3(4) Cons obtain d where
      d: "idestart ops n (Some c) s3 = Ret () (s3\<lparr>id_dev := d\<rparr>)" "serving reg media (s3\<lparr>id_dev := d\<rparr>) ?M Q" by auto
    have "ideintr ops n s = Ret () (s3\<lparr>id_dev := d\<rparr>)" unfolding exec using h d(1) by (simp add: kwhen_def kbind_def kget_def)
    then show ?thesis using d(2) s3(1,2) by (auto simp: same_but_def)
  qed
qed

section \<open>The properties\<close>

lemma interrupt_idle: "serving reg media s M [] \<Longrightarrow> ideintr ops n s = Ret () s"
  by (simp add: serving_def ideintr_def kexec)

lemma completed_test:
  assumes "buf.truncate (ibuf t b) = buf.truncate (completed x M)"
  shows "ide_test b t = Ret True t"
  using truncate_eq[OF assms] by (simp add: ide_test_def completed_def kexec)

text \<open>
  C13. The driver refines a queue of requests. When the disk serves the requests \<open>Q\<close>, a further
  request of a locked buffer goes to the end of the queue and its thread to sleep; no buffer changes.
  An interrupt completes the oldest request: a write is on the disk, a read has the content of its
  sector, the buffer is valid and clean, its thread is awake and leaves \<open>iderw\<close>, and the disk is given
  the next request. Nothing panics, and an interrupt without a request does nothing.
\<close>

theorem ide_refines_queue:
  assumes "ata ops n reg media" "serving reg media s M Q"
  shows "(\<forall>b. may_request s b \<longrightarrow> b \<notin> set Q \<longrightarrow> (\<exists>t. ide_rw ops n b s = Ret False t \<and> serving reg media t M (Q @ [b]) \<and>
      (\<forall>c. buf.truncate (ibuf t c) = buf.truncate (ibuf s c)))) \<and>
    (case Q of [] \<Rightarrow> ideintr ops n s = Ret () s
     | b # R \<Rightarrow> \<exists>t. ideintr ops n s = Ret () t \<and> serving reg media t (sectors_after (ibuf s b) M) R \<and>
         buf.truncate (ibuf t b) = buf.truncate (completed (ibuf s b) M) \<and> (\<forall>c. c \<noteq> b \<longrightarrow> ibuf t c = ibuf s c) \<and>
         ide_test b t = Ret True t)"
proof (intro conjI allI impI)
  show "\<exists>t. ide_rw ops n b s = Ret False t \<and> serving reg media t M (Q @ [b]) \<and> (\<forall>c. buf.truncate (ibuf t c) = buf.truncate (ibuf s c))"
    if "may_request s b" "b \<notin> set Q" for b using request_ok[OF assms that] by blast
  show "case Q of [] \<Rightarrow> ideintr ops n s = Ret () s
     | b # R \<Rightarrow> \<exists>t. ideintr ops n s = Ret () t \<and> serving reg media t (sectors_after (ibuf s b) M) R \<and>
         buf.truncate (ibuf t b) = buf.truncate (completed (ibuf s b) M) \<and> (\<forall>c. c \<noteq> b \<longrightarrow> ibuf t c = ibuf s c) \<and>
         ide_test b t = Ret True t"
  proof (cases Q)
    case Nil
    then show ?thesis using interrupt_idle assms(2) by auto
  next
    case (Cons b R)
    then show ?thesis using interrupt_ok[OF assms(1) assms(2)[unfolded Cons]] completed_test by (auto simp: same_but_def) blast
  qed
qed

text \<open>The content of the sectors after the requests, in their order.\<close>

fun carried_out :: "(nat \<Rightarrow> ide_buf) \<Rightarrow> nat list \<Rightarrow> (nat \<times> nat \<Rightarrow> u8 list) \<Rightarrow> nat \<times> nat \<Rightarrow> u8 list" where
  "carried_out x [] M = M"
| "carried_out x (b # Q) M = carried_out x Q (sectors_after (x b) M)"

text \<open>
  C14. No request waits for ever and none overtakes another: after as many interrupts as there are
  requests no thread sleeps, the sectors are as if the writes had been carried out in the order of
  the requests, and each buffer holds the content that its sector had at its turn.
\<close>

theorem ide_serves_in_order:
  assumes "ata ops n reg media" "serving reg media s M Q"
  shows "\<exists>t. kfor Q (\<lambda>_. ideintr ops n) s = Ret () t \<and> serving reg media t (carried_out (ibuf s) Q M) [] \<and>
    id_asleep t = {} \<and> media (id_dev t) = carried_out (ibuf s) Q M \<and>
    (\<forall>i < length Q. b_valid (ibuf t (Q ! i)) \<and> \<not> b_dirty (ibuf t (Q ! i)) \<and>
      b_data (ibuf t (Q ! i)) = carried_out (ibuf s) (take (Suc i) Q) M (place (ibuf s (Q ! i)))) \<and>
    (\<forall>c. c \<notin> set Q \<longrightarrow> ibuf t c = ibuf s c)"
  using assms(2)
proof (induction Q arbitrary: s M)
  case Nil
  then show ?case by (auto simp: serving_def)
next
  case (Cons b Q)
  from interrupt_ok[OF assms(1) Cons.prems] obtain t where
    t: "ideintr ops n s = Ret () t" "serving reg media t (sectors_after (ibuf s b) M) Q"
      "buf.truncate (ibuf t b) = buf.truncate (completed (ibuf s b) M)" "same_but b s t" by blast
  have b: "b \<notin> set Q" using Cons.prems by (simp add: serving_def)
  have eq: "carried_out (ibuf t) R M' = carried_out (ibuf s) R M'" if "b \<notin> set R" for R M'
    using that t(4) by (induction R arbitrary: M') (auto simp: same_but_def)
  from Cons.IH[OF t(2)] obtain u where
    u: "kfor Q (\<lambda>_. ideintr ops n) t = Ret () u" "serving reg media u (carried_out (ibuf t) Q (sectors_after (ibuf s b) M)) []"
      "id_asleep u = {}" "media (id_dev u) = carried_out (ibuf t) Q (sectors_after (ibuf s b) M)"
      "\<forall>i < length Q. b_valid (ibuf u (Q ! i)) \<and> \<not> b_dirty (ibuf u (Q ! i)) \<and>
         b_data (ibuf u (Q ! i)) = carried_out (ibuf t) (take (Suc i) Q) (sectors_after (ibuf s b) M) (place (ibuf t (Q ! i)))"
      "\<forall>c. c \<notin> set Q \<longrightarrow> ibuf u c = ibuf t c" by blast
  have fin: "b_valid (ibuf u b) \<and> \<not> b_dirty (ibuf u b) \<and> b_data (ibuf u b) = sectors_after (ibuf s b) M (place (ibuf s b))"
    using u(6) b truncate_eq[OF t(3)] by (simp add: completed_def)
  have same: "ibuf t (Q ! i) = ibuf s (Q ! i)" if "i < length Q" for i using t(4) b that by (auto simp: same_but_def in_set_conv_nth)
  have tl: "b \<notin> set (take k Q)" for k using b in_set_takeD by fast
  have "b_valid (ibuf u ((b # Q) ! i)) \<and> \<not> b_dirty (ibuf u ((b # Q) ! i)) \<and>
      b_data (ibuf u ((b # Q) ! i)) = carried_out (ibuf s) (take (Suc i) (b # Q)) M (place (ibuf s ((b # Q) ! i)))" if "i < length (b # Q)" for i
    using that fin u(5) same eq[OF tl] by (cases i) auto
  moreover have "kfor (b # Q) (\<lambda>_. ideintr ops n) s = Ret () u" using t(1) u(1) by (simp add: kbind_def)
  moreover have "ibuf u c = ibuf s c" if "c \<notin> set (b # Q)" for c using u(6) t(4) that by (simp add: same_but_def)
  ultimately show ?case using u(2,3,4) eq[OF b] by auto
qed

section \<open>A disk\<close>

text \<open>A controller that is always ready satisfies the contract.\<close>

record pio =
  pio_regs :: "u16 \<Rightarrow> u8"
  pio_media :: "nat \<times> nat \<Rightarrow> u8 list"

definition pio_ops :: "pio ide_ops" where
  "pio_ops = \<lparr>op_outb = (\<lambda>p v d. d\<lparr>pio_regs := (pio_regs d)(p := v)\<rparr>), op_inb = (\<lambda>p d. (IDE_DRDY, d)),
     op_outsl = (\<lambda>p bs d. d\<lparr>pio_media := (pio_media d)(target (pio_regs d) := bs)\<rparr>),
     op_insl = (\<lambda>p n d. (pio_media d (target (pio_regs d)), d))\<rparr>"

lemma pio_ata: "ata pio_ops 1 pio_regs pio_media"
  by (simp add: ata_def pio_ops_def ready_def IDE_DRDY_def IDE_BSY_def IDE_DF_def IDE_ERR_def)

definition blank_disk :: "nat \<times> nat \<Rightarrow> u8 list" where
  "blank_disk = (\<lambda>_. replicate BSIZE 0)"

definition disk_buf :: "bool \<Rightarrow> u32 \<Rightarrow> ide_buf" where
  "disk_buf dirty n = \<lparr>b_valid = dirty, b_dirty = dirty, b_dev = 1, b_blockno = n, b_refcnt = 1, b_prev = 0, b_next = 0,
     b_data = replicate BSIZE 7, b_qnext = None\<rparr>"

definition idle_driver :: "pio ide" where
  "idle_driver = \<lparr>idequeue = None, havedisk1 = True, id_bufs = [disk_buf True 5, disk_buf False 5], id_locked = {0, 1}, id_asleep = {},
     id_dev = \<lparr>pio_regs = (\<lambda>_. 0), pio_media = blank_disk\<rparr>\<rparr>"

lemma idle_serving: "serving pio_regs pio_media idle_driver blank_disk []"
  by (simp add: serving_def idle_driver_def blank_disk_def)

lemma idle_may_request: "may_request idle_driver 0" "may_request idle_driver 1"
  by (simp_all add: may_request_def idle_driver_def ibuf_def disk_buf_def waiting_def FSSIZE_def)

lemma ide_refines_queue_witness:
  "\<exists>t. ide_rw pio_ops 1 0 idle_driver = Ret False t \<and> serving pio_regs pio_media t blank_disk [0]"
  using ide_refines_queue[OF pio_ata idle_serving] idle_may_request(1) by auto

text \<open>A write of sector 5 and then a read of it: the reader gets what was written.\<close>

lemma ide_serves_in_order_witness:
  "\<exists>s t. ide_rw pio_ops 1 0 idle_driver = Ret False s \<and> kfor [0 :: nat] (\<lambda>_. ideintr pio_ops 1) s = Ret () t \<and>
    pio_media (id_dev t) (1, 5) = replicate BSIZE 7 \<and> id_asleep t = {}"
proof -
  from request_ok[OF pio_ata idle_serving idle_may_request(1)] obtain s where
    s: "ide_rw pio_ops 1 0 idle_driver = Ret False s" "serving pio_regs pio_media s blank_disk [0]"
      "buf.truncate (ibuf s 0) = buf.truncate (ibuf idle_driver 0)" by auto
  have "ibuf idle_driver 0 = disk_buf True 5" by (simp add: idle_driver_def ibuf_def)
  then have "sectors_after (ibuf s 0) blank_disk (1, 5) = replicate BSIZE 7"
    using truncate_props(4)[OF s(3)] by (simp add: sectors_after_def disk_buf_def place_def)
  moreover from ide_serves_in_order[OF pio_ata s(2)] obtain t where
    "kfor [0 :: nat] (\<lambda>_. ideintr pio_ops 1) s = Ret () t" "id_asleep t = {}" "pio_media (id_dev t) = carried_out (ibuf s) [0] blank_disk" by blast
  ultimately show ?thesis using s(1) by (intro exI[of _ s] exI[of _ t] conjI) simp_all
qed

section \<open>An error of the disk\<close>





end
