(* ===== verification/Spec2Isabelle.thy ===== *)
theory Spec2Isabelle
  imports Spinlock Proc_Machine Trap Kbd Grep Shell_Wires Dir_Lookup Write_Example Path_Names Arg_Bounds
    Kbd_Keys Chpr Pipe_Fifo Umalloc_Correct Mp Mkfs_Image Ide_Queue
begin

text \<open>
  A model of the operating system in \<open>src/Assignment1/xv6-public\<close>: xv6 for the x86 with four
  schedulers chosen at compile time (\<open>DEFAULT\<close> round robin, \<open>FCFS\<close>, the three-level queue \<open>MLQ\<close>
  and \<open>DMLQ\<close>, the same with aging), and programs of its user library. File names below are
  relative to this directory.

  \<^bold>\<open>The state and the operations.\<close> The theory \<open>Kernel_State\<close> holds the record \<open>kernel\<close>: the process
  table, the CPUs, the run queues, the locks held, physical memory as a map from addresses to
  bytes with the free page list in it, the buffers, the disk, the log, inodes, files, pipes and the
  console. An operation is a function from the state to an \<open>outcome\<close> (theory \<open>Prelude\<close>): \<open>Ret\<close> with
  a value and the new state, \<open>Swtch\<close> when it gives up the CPU in \<open>sched\<close> (with the rest of the
  operation as a continuation), \<open>Panic\<close>, \<open>Fault\<close> for an access outside an object or through a null
  pointer, and \<open>Spin\<close> when it waits for another CPU. The configuration \<open>k_cfg\<close> stands for the
  preprocessor symbol of the scheduler.

  \<^bold>\<open>Data structures.\<close> \<open>Fcfs_Queue\<close>: the binary heap \<open>priorityqueue\<close> of \<open>proc.c\<close> (\<open>insert\<close>, \<open>remove\<close>,
  \<open>shiftup\<close>, \<open>shiftdown\<close>) and its heap invariant. \<open>Mlq_Queue\<close>: the ring buffers \<open>multiqueue\<close> (\<open>enque\<close>,
  \<open>deque\<close>, \<open>isempty\<close>, \<open>swapque\<close>). \<open>Cmem\<close>: loads, stores and \<open>string.c\<close>. \<open>Bytes\<close>: little-endian words
  in blocks. \<open>Format\<close>: \<open>printint\<close> of \<open>console.c\<close> and \<open>printf.c\<close>, the format loops, \<open>atoi\<close>.

  \<^bold>\<open>Processes.\<close> \<open>Proc\<close> models \<open>allocproc\<close>, \<open>scheduler\<close>, \<open>sched\<close>, \<open>yield\<close>, \<open>sleep\<close>, \<open>wakeup\<close>, \<open>kill\<close>, \<open>chpr\<close>
  and the aging of \<open>proc.c\<close>; \<open>Runqueue\<close> and \<open>Proc_Inv\<close> state the invariant \<open>kinv\<close> (the run queue of
  the configuration holds exactly the \<open>RUNNABLE\<close> processes, each once; the CPUs run different
  processes) and prove that each operation keeps it; \<open>Proc_Machine\<close> is the step relation of several
  CPUs whose operations interleave at the points where \<open>ptable.lock\<close> is released, with the
  properties of all reachable states. \<open>Sched_Control\<close> and \<open>Chpr\<close> hold the functional behaviour of
  the timer interrupt, \<open>wakeup\<close>, \<open>kill\<close> and \<open>chpr\<close>. \<open>Proc_Life\<close> models \<open>userinit\<close>, \<open>growproc\<close>, \<open>fork\<close>,
  \<open>exit\<close> and \<open>wait\<close>. \<open>Trap\<close>, \<open>Syscall\<close>, \<open>Sysargs\<close> and \<open>Exec\<close> model \<open>trap.c\<close>, \<open>syscall.c\<close>, \<open>sysproc.c\<close>
  and \<open>exec.c\<close>; \<open>Arg_Bounds\<close> shows that system call arguments stay inside the process.

  \<^bold>\<open>Locks.\<close> \<open>Spinlock\<close> models \<open>spinlock.c\<close> on lock words and interrupt state, as steps of the CPUs
  between which others may run, proves mutual exclusion, and shows that it refines the abstract
  locks (a list of held locks) the kernel model uses. \<open>Sleeplock\<close> models \<open>sleeplock.c\<close>.

  \<^bold>\<open>Memory.\<close> \<open>Kalloc\<close> models \<open>kalloc.c\<close> with its free list in the free pages. \<open>Vm\<close> models the page
  tables of \<open>vm.c\<close> in physical memory. \<open>Umalloc\<close> models the allocator of the user library with its
  headers in the memory of the process; \<open>Umalloc_Correct\<close> proves it correct: the free list, sorted
  and circular, and the blocks in use never overlap, whatever joins and splits \<open>free\<close> and \<open>malloc\<close>
  make.

  \<^bold>\<open>File system.\<close> \<open>Bio\<close> models \<open>bio.c\<close> over the memory disk of \<open>memide.c\<close>; \<open>Log\<close> models \<open>log.c\<close>;
  \<open>Inode\<close>, \<open>Dir\<close>, \<open>File\<close>, \<open>Pipe\<close> and \<open>Sysfile\<close> model \<open>fs.c\<close>, \<open>file.c\<close>, \<open>pipe.c\<close> and \<open>sysfile.c\<close>. \<open>Ring\<close>,
  \<open>Bcache\<close>, \<open>Cache_Inv\<close>, \<open>Cache_Ops\<close>, \<open>Cache_Write\<close> and \<open>Binit\<close> verify the cache for a thread that is
  not disturbed (\<open>calm\<close>: it runs with the scheduler invariant and no CPU holds a spin lock): \<open>bread\<close>
  returns the content of the block, \<open>bwrite\<close> puts it on the disk, \<open>brelse\<close> keeps the list. On it rest
  \<open>Log_View\<close>, \<open>Log_Steps\<close>, \<open>Commit\<close>, \<open>Recover\<close>, \<open>Crash\<close>, \<open>Log_Write\<close> and \<open>Transaction\<close>: a commit that
  is cut off after any of its block writes is undone or completed by the recovery at the next
  boot. \<open>Inode_Disk\<close>: the free map and the layout of inodes. \<open>File_Read\<close> and \<open>Dir_Lookup\<close>: \<open>readi\<close>
  returns the bytes of the blocks that \<open>bmap\<close> reaches, and \<open>dirlookup\<close> finds the first entry of a
  name. \<open>File_Map\<close>, \<open>Fs_Tx\<close>, \<open>File_Write\<close> and \<open>Write_Correct\<close>: \<open>writei\<close> inside a transaction, with the
  allocation of blocks; the file holds the bytes written, before and after a crash, and no block
  gets two owners. \<open>Path_Names\<close>: the elements of a path. \<open>Pipe_Fifo\<close>: a pipe is a bounded queue of
  bytes, through the locale \<open>byte_queue\<close>. \<open>Mkfs\<close> models \<open>mkfs.c\<close>, which builds the disk on the host;
  \<open>Mkfs_File\<close>, \<open>Mkfs_Correct\<close> and \<open>Mkfs_Image\<close> show that the kernel's definitions find on the image
  the files it was given.

  \<^bold>\<open>Devices and programs.\<close> \<open>Console_Out\<close>, \<open>Console_In\<close> and \<open>Kbd\<close> model \<open>console.c\<close>, \<open>uart.c\<close> and
  \<open>kbd.c\<close>; \<open>Kbd_Keys\<close> checks the letter keys. \<open>Ide\<close> models \<open>ide.c\<close> over a record of the controller's
  responses; \<open>Ide_Queue\<close> shows that requests are served in their order and that no buffer is lost.
  \<open>Mp\<close> models the search of the multiprocessor tables in \<open>mp.c\<close>. \<open>Grep\<close> models the matcher and the line loop of \<open>grep.c\<close>
  against a language of patterns. \<open>Shell\<close> models the parser of \<open>sh.c\<close>, which works in place on the
  buffer of the line; \<open>Shell_Correct\<close> shows that it terminates and finds the words. \<open>Shell_Run\<close>
  models \<open>runcmd\<close>, \<open>getcmd\<close> and the main loop over processes with file descriptors, and \<open>Shell_Wires\<close>
  shows which programs run and what their descriptors refer to.

  \<^bold>\<open>Locales.\<close> Interfaces between components are locales, interpreted on the model: the run queue
  (\<open>Runqueue\<close>, by all four configurations), the ring buffer (\<open>fifo_queue\<close> in \<open>Mlq_Queue\<close>), the free
  pages (\<open>page_allocator\<close> in \<open>Kalloc\<close>) and the byte queue (\<open>Pipe_Fifo\<close>).

  \<^bold>\<open>Bounds.\<close> Loops whose end the code leaves to its data run on fuel and end in \<open>Spin\<close> when it is
  used up. \<open>k_patience\<close> is the number of times a thread is willing to sleep again in a \<open>while\<close> loop
  around \<open>sleep\<close>; every theorem that says an operation returns holds for any value. \<open>parse_fuel\<close> is
  five times the length of the line plus a constant, which \<open>parser_terminates\<close> proves to be enough;
  \<open>VM_FUEL\<close> and \<open>FREERANGE_FUEL\<close> exceed the number of pages in the address space; the loops of
  \<open>malloc\<close> and \<open>free\<close> have the size of the process as their bound, more than twice the number of
  headers it can hold, and the theorems on them show that it is not reached. The loops of \<open>readi\<close>,
  \<open>writei\<close> and \<open>iappend\<close> advance in every round and have the number of bytes as fuel; \<open>idewait\<close>
  polls as often as the controller's record says it stays busy.

  \<^bold>\<open>Not modelled.\<close> The interrupt controllers and timers (\<open>lapic.c\<close>, \<open>ioapic.c\<close>, \<open>picirq.c\<close>), boot
  code and assembly; the user programs other than the shell and \<open>grep\<close>, which issue system calls and
  print; \<open>usertests.c\<close>; the kernel modules for Linux; and \<open>fmt/\<close>, the listings of the sources for
  print. Concurrency is modelled between CPUs for the scheduler and the spin locks; the theorems on
  the buffer cache, the log, files and pipes are about one thread that runs undisturbed.
\<close>

end
